(* ===== verification/Prelude.thy ===== *)
theory Prelude
  imports Main "HOL-Library.Word" "HOL-Library.Signed_Division"
begin

text \<open>
  Shared ground of the development: names for the machine integers of the C++ sources, the
  ring index of the 256-entry frame rings, lemmas on C's truncating remainder, on wrapping
  32-bit millisecond stamps, and on loops written as folds over index ranges. The
  collection \<open>ring_simps\<close> holds the index facts the component proofs use.
\<close>

named_theorems ring_simps

type_synonym u8 = "8 word"
type_synonym u16 = "16 word"
type_synonym u32 = "32 word"
type_synonym u64 = "64 word"

text \<open>A raw input blob: the bytes of an \<open>XINPUT_GAMEPAD\<close>.\<close>

type_synonym blob = "u8 list"

text \<open>A C array with a bounded index is a total function; the index is proved in range.\<close>

type_synonym 'a carray = "nat \<Rightarrow> 'a"

section \<open>Truncating remainder and ring indices\<close>

text \<open>The C expression \<open>((f % n) + n) % n\<close>, with C's truncating remainder \<open>smod\<close>.\<close>

definition c_wrap :: "int \<Rightarrow> int \<Rightarrow> nat" where
  "c_wrap n f = nat (((f smod n) + n) smod n)"

lemma smod_shift:
  fixes f n :: int
  assumes "0 < n"
  shows "((f smod n) + n) smod n = f mod n"
proof (cases "0 \<le> f")
  case True
  then have "f smod n = f mod n"
    using assms by (simp add: smod_int_alt_def sgn_if)
  moreover have "0 < f mod n + n"
    using assms by (simp add: add_nonneg_pos)
  then have "((f mod n) + n) smod n = f mod n"
    using assms by (simp add: smod_int_alt_def sgn_if)
  ultimately show ?thesis by simp
next
  case False
  define r where "r = (- f) mod n"
  have sm: "f smod n = - r"
    using False assms by (simp add: smod_int_alt_def sgn_if r_def)
  have r: "0 \<le> r" "r < n" using assms by (simp_all add: r_def)
  have "(- r + n) smod n = (- r + n) mod n"
    using r assms by (simp add: smod_int_alt_def sgn_if)
  also have "\<dots> = (- r) mod n" by simp
  also have "\<dots> = f mod n" by (simp add: r_def mod_minus_eq)
  finally show ?thesis by (simp add: sm)
qed

lemma c_wrap_eq: "0 < n \<Longrightarrow> c_wrap n f = nat (f mod n)"
  by (simp add: c_wrap_def smod_shift)

lemma c_wrap_less: "0 < n \<Longrightarrow> c_wrap n f < nat n"
  by (simp add: c_wrap_eq nat_less_iff)

text \<open>Two frames less than a ring apart have distinct slots.\<close>

lemma c_wrap_inj:
  assumes "0 < n" and "c_wrap n f = c_wrap n g" and "\<bar>f - g\<bar> < n"
  shows "f = g"
proof -
  have "f mod n = g mod n"
    using assms(1,2) by (simp add: c_wrap_eq eq_nat_nat_iff)
  then have "n dvd (f - g)" by (simp add: mod_eq_dvd_iff)
  with assms(3) show ?thesis
    by (metis dvd_imp_le_int eq_iff_diff_eq_0 not_le abs_of_pos assms(1))
qed

section \<open>Loops as folds\<close>

text \<open>
  \<open>for (i = a; i < b; i++) s = body(i, s)\<close> is a fold over the index range.
\<close>

definition for_range :: "nat \<Rightarrow> nat \<Rightarrow> (nat \<Rightarrow> 's \<Rightarrow> 's) \<Rightarrow> 's \<Rightarrow> 's" where
  "for_range a b body s = fold body [a..<b] s"

lemma for_range_empty [simp]: "b \<le> a \<Longrightarrow> for_range a b body s = s"
  by (simp add: for_range_def)

lemma for_range_Suc: "a \<le> b \<Longrightarrow> for_range a (Suc b) body s = body b (for_range a b body s)"
  by (simp add: for_range_def)

lemma for_range_invariant:
  assumes "P s" and "\<And>i s. a \<le> i \<Longrightarrow> i < b \<Longrightarrow> P s \<Longrightarrow> P (body i s)"
  shows "P (for_range a b body s)"
proof -
  have "P (fold body xs s)" if "P s" "set xs \<subseteq> {a..<b}" for xs s
    using that by (induction xs arbitrary: s) (auto intro: assms(2))
  then show ?thesis using assms(1) by (auto simp: for_range_def)
qed

lemma for_range_idle: "(\<And>i s. a \<le> i \<Longrightarrow> i < n \<Longrightarrow> f i s = s) \<Longrightarrow> for_range a n f s = s"
  by (induction n) (auto simp: for_range_def)

lemma for_range_first:
  assumes "\<And>i s. Suc a \<le> i \<Longrightarrow> i < n \<Longrightarrow> f i s = s" "a < n"
  shows "for_range a n f s = f a s"
proof -
  have "for_range a n f s = for_range (Suc a) n f (f a s)" using assms(2) by (simp add: for_range_def upt_conv_Cons)
  then show ?thesis using for_range_idle [of "Suc a" n f, OF assms(1)] by simp
qed

text \<open>The same loop over integers, \<open>for (f = a; f <= b; f++)\<close>.\<close>

definition for_upto :: "int \<Rightarrow> int \<Rightarrow> (int \<Rightarrow> 's \<Rightarrow> 's) \<Rightarrow> 's \<Rightarrow> 's" where
  "for_upto a b body s = fold body [a..b] s"

lemma fold_invariant_list:
  assumes "P s" and "\<And>x s. x \<in> set xs \<Longrightarrow> P s \<Longrightarrow> P (f x s)"
  shows "P (fold f xs s)"
  using assms by (induction xs arbitrary: s) auto

lemma for_upto_snoc: "a \<le> b \<Longrightarrow> for_upto a b body s = body b (for_upto a (b - 1) body s)"
  by (simp add: for_upto_def upto_rec2)

text \<open>Signed readings of small numbers stored in a word.\<close>

lemma sint_word_of_int32 [simp]:
  "- (2 ^ 31) \<le> i \<Longrightarrow> i < 2 ^ 31 \<Longrightarrow> sint (word_of_int i :: u32) = i"
  by (simp add: sint_sbintrunc' signed_take_bit_int_eq_self)

lemma sint_word_of_int16 [simp]:
  "- (2 ^ 15) \<le> i \<Longrightarrow> i < 2 ^ 15 \<Longrightarrow> sint (word_of_int i :: u16) = i"
  by (simp add: sint_sbintrunc' signed_take_bit_int_eq_self)

section \<open>Wrapping time stamps\<close>

text \<open>Elapsed milliseconds: C's \<open>(uint32_t)(t - t0)\<close>, right across a wrap of the counter.\<close>

definition elapsed :: "u32 \<Rightarrow> u32 \<Rightarrow> u32" where
  "elapsed t t0 = t - t0"

lemma elapsed_add [simp]: "elapsed (t + d) t = d"
  by (simp add: elapsed_def)

end
