(* ===== verification/Wire.thy ===== *)
theory Wire
  imports Prelude
begin

text \<open>
  The wire format of \<open>src/src/net_transport.h\<close>: the message types, the 16-byte control
  packet, the 416-byte input packet and their packed little-endian layouts. The C++ code
  reads a datagram by casting the buffer to the packed struct, so the byte layout is the
  struct's: \<open>packet_bytes\<close> / \<open>read_packet\<close> and \<open>input_bytes\<close> / \<open>read_input\<close> spell it out.
\<close>

datatype msg_type =
    MSG_SYNC_REQ | MSG_SYNC_REPLY | MSG_INPUT | MSG_INPUT_ACK | MSG_QUALITY_REQ
  | MSG_QUALITY_REPLY | MSG_KEEPALIVE | MSG_BEGIN | MSG_ENGINE_ARM | MSG_EPOCH

fun msg_code :: "msg_type \<Rightarrow> u8" where
  "msg_code MSG_SYNC_REQ = 1"
| "msg_code MSG_SYNC_REPLY = 2"
| "msg_code MSG_INPUT = 3"
| "msg_code MSG_INPUT_ACK = 4"
| "msg_code MSG_QUALITY_REQ = 5"
| "msg_code MSG_QUALITY_REPLY = 6"
| "msg_code MSG_KEEPALIVE = 7"
| "msg_code MSG_BEGIN = 8"
| "msg_code MSG_ENGINE_ARM = 10"
| "msg_code MSG_EPOCH = 9"

text \<open>Message types are ordered by their code on the wire.\<close>

instantiation msg_type :: linorder
begin

definition less_eq_msg_type :: "msg_type \<Rightarrow> msg_type \<Rightarrow> bool" where
  "less_eq_msg_type a b \<longleftrightarrow> unat (msg_code a) \<le> unat (msg_code b)"

definition less_msg_type :: "msg_type \<Rightarrow> msg_type \<Rightarrow> bool" where
  "less_msg_type a b \<longleftrightarrow> unat (msg_code a) < unat (msg_code b)"

instance
proof
  fix a b :: msg_type
  assume "a \<le> b" "b \<le> a"
  then show "a = b" by (cases a; cases b) (simp_all add: less_eq_msg_type_def)
qed (auto simp: less_eq_msg_type_def less_msg_type_def)

end

definition NET_MAGIC :: u32 where "NET_MAGIC = 0x33564D55"
definition NET_INPUT_SIZE :: nat where "NET_INPUT_SIZE = 12"
definition NET_INPUT_REDUNDANCY :: nat where "NET_INPUT_REDUNDANCY = 32"

record packet =
  pk_magic :: u32
  pk_type :: u8
  pk_nonce :: u32
  pk_stamp_ms :: u32

record input_packet =
  ip_magic :: u32
  ip_type :: u8
  ip_count :: u8
  ip_epoch :: u32
  ip_want_epoch :: u32
  ip_start_frame :: int
  ip_ack_frame :: int
  ip_cfg_hash :: u32
  ip_frame_adv :: int
  ip_blobs :: "blob list"

text \<open>A zero-initialised control packet (\<open>Packet p{}\<close>) with its four meaningful fields set.\<close>

definition mk_packet :: "msg_type \<Rightarrow> u32 \<Rightarrow> u32 \<Rightarrow> packet" where
  "mk_packet t nonce stamp =
     \<lparr>pk_magic = NET_MAGIC, pk_type = msg_code t, pk_nonce = nonce, pk_stamp_ms = stamp\<rparr>"

text \<open>A datagram is one of the two structs, or bytes of somebody else.\<close>

datatype datagram = Control packet | Input input_packet | Hello string

section \<open>Little-endian fields\<close>

definition enc16 :: "u16 \<Rightarrow> u8 list" where
  "enc16 w = [ucast w, ucast (drop_bit 8 w)]"

definition enc32 :: "u32 \<Rightarrow> u8 list" where
  "enc32 w = [ucast w, ucast (drop_bit 8 w), ucast (drop_bit 16 w), ucast (drop_bit 24 w)]"

fun dec16 :: "u8 list \<Rightarrow> u16" where
  "dec16 [a, b] = or (ucast a) (push_bit 8 (ucast b))"
| "dec16 _ = 0"

fun dec32 :: "u8 list \<Rightarrow> u32" where
  "dec32 [a, b, c, d] =
     or (ucast a) (or (push_bit 8 (ucast b)) (or (push_bit 16 (ucast c)) (push_bit 24 (ucast d))))"
| "dec32 _ = 0"

lemma length_enc [simp]: "length (enc16 x) = 2" "length (enc32 y) = 4"
  by (simp_all add: enc16_def enc32_def)

lemma dec16_enc16 [simp]: "dec16 (enc16 w) = w"
  by (rule bit_word_eqI) (auto simp: enc16_def bit_simps)

lemma dec32_enc32 [simp]: "dec32 (enc32 w) = w"
proof (rule bit_word_eqI)
  fix n
  assume "n < LENGTH(32)"
  then consider "n < 8" | "8 \<le> n" "n < 16" | "16 \<le> n" "n < 24" | "24 \<le> n" "n < 32"
    by fastforce
  then show "bit (dec32 (enc32 w)) n = bit w n"
    by cases (simp_all add: enc32_def bit_simps less_diff_conv2)
qed

text \<open>A byte field \<open>[off, off + n)\<close> of the buffer.\<close>

definition slice :: "nat \<Rightarrow> nat \<Rightarrow> u8 list \<Rightarrow> u8 list" where
  "slice off n bs = take n (drop off bs)"

lemma slice_append_skip: "off = length xs + k \<Longrightarrow> slice off n (xs @ ys) = slice k n ys"
  by (simp add: slice_def)

lemma slice_append_hit: "length xs = n \<Longrightarrow> slice 0 n (xs @ ys) = xs"
  by (simp add: slice_def)

section \<open>The packed structs\<close>

definition packet_bytes :: "packet \<Rightarrow> u8 list" where
  "packet_bytes p =
     enc32 (pk_magic p) @ [pk_type p, 0, 0, 0] @ enc32 (pk_nonce p) @ enc32 (pk_stamp_ms p)"

definition read_packet :: "u8 list \<Rightarrow> packet" where
  "read_packet bs =
     \<lparr>pk_magic = dec32 (slice 0 4 bs), pk_type = bs ! 4,
      pk_nonce = dec32 (slice 8 4 bs), pk_stamp_ms = dec32 (slice 12 4 bs)\<rparr>"

definition input_bytes :: "input_packet \<Rightarrow> u8 list" where
  "input_bytes p =
     enc32 (ip_magic p) @ [ip_type p, ip_count p, 0, 0]
     @ enc32 (ip_epoch p) @ enc32 (ip_want_epoch p)
     @ enc32 (word_of_int (ip_start_frame p)) @ enc32 (word_of_int (ip_ack_frame p))
     @ enc32 (ip_cfg_hash p) @ enc16 (word_of_int (ip_frame_adv p)) @ [0, 0]
     @ concat (ip_blobs p)"

definition read_input :: "u8 list \<Rightarrow> input_packet" where
  "read_input bs =
     \<lparr>ip_magic = dec32 (slice 0 4 bs), ip_type = bs ! 4, ip_count = bs ! 5,
      ip_epoch = dec32 (slice 8 4 bs), ip_want_epoch = dec32 (slice 12 4 bs),
      ip_start_frame = sint (dec32 (slice 16 4 bs)), ip_ack_frame = sint (dec32 (slice 20 4 bs)),
      ip_cfg_hash = dec32 (slice 24 4 bs), ip_frame_adv = sint (dec16 (slice 28 2 bs)),
      ip_blobs = map (\<lambda>i. slice (32 + i * NET_INPUT_SIZE) NET_INPUT_SIZE bs)
                     [0..<NET_INPUT_REDUNDANCY]\<rparr>"

text \<open>What the typed record must satisfy to fit the struct: field widths and array sizes.\<close>

definition wf_input :: "input_packet \<Rightarrow> bool" where
  "wf_input p \<longleftrightarrow>
     - (2 ^ 31) \<le> ip_start_frame p \<and> ip_start_frame p < 2 ^ 31 \<and>
     - (2 ^ 31) \<le> ip_ack_frame p \<and> ip_ack_frame p < 2 ^ 31 \<and>
     - (2 ^ 15) \<le> ip_frame_adv p \<and> ip_frame_adv p < 2 ^ 15 \<and>
     length (ip_blobs p) = NET_INPUT_REDUNDANCY \<and>
     (\<forall>b \<in> set (ip_blobs p). length b = NET_INPUT_SIZE)"

lemma read_packet_bytes [simp]: "read_packet (packet_bytes p) = p"
  by (simp add: packet_bytes_def read_packet_def slice_def nth_append)

lemma slice_concat:
  assumes "\<forall>b \<in> set bss. length b = n" and "i < length bss"
  shows "slice (i * n) n (concat bss) = bss ! i"
  using assms
proof (induction bss arbitrary: i)
  case Nil
  then show ?case by simp
next
  case (Cons b bss)
  then show ?case by (cases i) (auto simp: slice_def)
qed

lemma length_concat_blobs:
  "\<forall>b \<in> set bss. length b = n \<Longrightarrow> length (concat bss) = length bss * n"
  by (induction bss) auto

lemma length_packet_bytes: "length (packet_bytes p) = 16"
  by (simp add: packet_bytes_def)

lemma length_input_bytes: "wf_input p \<Longrightarrow> length (input_bytes p) = 416"
  using length_concat_blobs [of "ip_blobs p" 12]
  by (simp add: input_bytes_def wf_input_def NET_INPUT_REDUNDANCY_def NET_INPUT_SIZE_def)

lemma input_header:
  "\<exists>h. input_bytes p = h @ concat (ip_blobs p) \<and> length h = 32"
  by (rule exI [of _ "take 32 (input_bytes p)"]) (simp add: input_bytes_def)

lemma slice_blob:
  assumes "wf_input p" and "i < NET_INPUT_REDUNDANCY"
  shows "slice (32 + i * NET_INPUT_SIZE) NET_INPUT_SIZE (input_bytes p) = ip_blobs p ! i"
proof -
  obtain h where h: "input_bytes p = h @ concat (ip_blobs p)" "length h = 32"
    using input_header by blast
  then have "slice (32 + i * NET_INPUT_SIZE) NET_INPUT_SIZE (input_bytes p)
      = slice (i * NET_INPUT_SIZE) NET_INPUT_SIZE (concat (ip_blobs p))"
    by (simp add: slice_append_skip)
  also have "\<dots> = ip_blobs p ! i"
    using assms by (intro slice_concat) (auto simp: wf_input_def)
  finally show ?thesis .
qed

text \<open>
  The input packet survives the wire: the 416 bytes of a well-formed packet, read back
  through the packed struct, give the packet, with its start frame, acknowledgement and frame
  advantage at their signed values and all 32 blobs in place.
\<close>

theorem input_wire_roundtrip:
  assumes "wf_input p"
  shows "read_input (input_bytes p) = p \<and> length (input_bytes p) = 416"
proof
  have blobs: "map (\<lambda>i. slice (32 + i * NET_INPUT_SIZE) NET_INPUT_SIZE (input_bytes p))
      [0..<NET_INPUT_REDUNDANCY] = ip_blobs p"
    using assms by (intro nth_equalityI) (auto simp: slice_blob wf_input_def)
  have "slice 0 4 (input_bytes p) = enc32 (ip_magic p)"
    "input_bytes p ! 4 = ip_type p" "input_bytes p ! 5 = ip_count p"
    "slice 8 4 (input_bytes p) = enc32 (ip_epoch p)"
    "slice 12 4 (input_bytes p) = enc32 (ip_want_epoch p)"
    "slice 16 4 (input_bytes p) = enc32 (word_of_int (ip_start_frame p))"
    "slice 20 4 (input_bytes p) = enc32 (word_of_int (ip_ack_frame p))"
    "slice 24 4 (input_bytes p) = enc32 (ip_cfg_hash p)"
    "slice 28 2 (input_bytes p) = enc16 (word_of_int (ip_frame_adv p))"
    by (simp_all add: input_bytes_def slice_def nth_append)
  with assms show "read_input (input_bytes p) = p"
    unfolding read_input_def blobs by (simp add: wf_input_def)
qed (rule length_input_bytes [OF assms])

definition sample_input :: input_packet where
  "sample_input = \<lparr>ip_magic = NET_MAGIC, ip_type = msg_code MSG_INPUT, ip_count = 2, ip_epoch = 7,
     ip_want_epoch = 7, ip_start_frame = 100, ip_ack_frame = -1, ip_cfg_hash = 0x1234,
     ip_frame_adv = -3, ip_blobs = replicate 32 (replicate 12 1)\<rparr>"

lemma wf_sample_input: "wf_input sample_input"
  by (simp add: wf_input_def sample_input_def NET_INPUT_REDUNDANCY_def NET_INPUT_SIZE_def)

theorem input_wire_roundtrip_witness:
  "read_input (input_bytes sample_input) = sample_input"
  using input_wire_roundtrip [OF wf_sample_input] by (rule conjunct1)

end
