(* ===== verification/Frame_Ring.thy ===== *)
theory Frame_Ring
  imports Wire
begin

text \<open>
  The contract of a frame-keyed ring: \<open>put\<close> stores a value for a frame, \<open>get\<close> returns it only
  while the slot still holds that very frame. The input queues of \<open>net_input.cpp\<close> (256 slots)
  and the pad-block ring of \<open>input.cpp\<close> (128 slots) both have it; what the netcode needs of such
  a ring is proved once here.
\<close>

locale frame_ring =
  fixes cap :: int
    and put :: "int \<Rightarrow> 'b \<Rightarrow> 'r \<Rightarrow> 'r"
    and get :: "'r \<Rightarrow> int \<Rightarrow> 'b option"
  assumes cap_pos: "0 < cap"
    and get_put_same: "get (put f b r) f = Some b"
    and get_put_other: "f \<noteq> g \<Longrightarrow> \<bar>f - g\<bar> < cap \<Longrightarrow> get (put f b r) g = get r g"
begin

text \<open>Storing a run of frames shorter than the ring loses none of them.\<close>

lemma get_fold_put_notin:
  assumes "g \<notin> set fs" and "\<forall>f \<in> set fs. \<bar>f - g\<bar> < cap"
  shows "get (fold (\<lambda>f. put f (b f)) fs r) g = get r g"
  using assms by (induction fs arbitrary: r) (auto simp: get_put_other)

lemma get_fold_put_in:
  assumes "g \<in> set fs" and "distinct fs" and "\<forall>f \<in> set fs. \<bar>f - g\<bar> < cap"
  shows "get (fold (\<lambda>f. put f (b f)) fs r) g = Some (b g)"
  using assms
proof (induction fs arbitrary: r)
  case Nil
  then show ?case by simp
next
  case (Cons f fs)
  show ?case
  proof (cases "f = g")
    case True
    with Cons.prems have "get (fold (\<lambda>f. put f (b f)) fs (put g (b g) r)) g = get (put g (b g) r) g"
      by (intro get_fold_put_notin) auto
    with True show ?thesis by (simp add: get_put_same)
  next
    case False
    with Cons show ?thesis by simp
  qed
qed

lemma get_run:
  assumes "a \<le> g" and "g \<le> b" and "b - a < cap"
  shows "get (fold (\<lambda>f. put f (v f)) [a..b] r) g = Some (v g)"
  using assms by (intro get_fold_put_in) auto

lemma get_run_outside:
  assumes "g < a \<or> b < g" and "\<bar>a - g\<bar> < cap" and "\<bar>b - g\<bar> < cap"
  shows "get (fold (\<lambda>f. put f (v f)) [a..b] r) g = get r g"
  using assms by (intro get_fold_put_notin) auto

end

section \<open>The queue entry ring\<close>

definition RING :: int where "RING = 256"

definition idx :: "int \<Rightarrow> nat" where "idx f = c_wrap RING f"

record qentry =
  qe_frame :: int
  qe_valid :: bool
  qe_blob :: blob

type_synonym qring = "qentry carray"

text \<open>\<open>g_q[idx(f)] = { f, true, {} }; memcpy(blob)\<close> and the validated read of a slot.\<close>

definition q_put :: "int \<Rightarrow> blob \<Rightarrow> qring \<Rightarrow> qring" where
  "q_put f b r = r(idx f := \<lparr>qe_frame = f, qe_valid = True, qe_blob = b\<rparr>)"

definition q_get :: "qring \<Rightarrow> int \<Rightarrow> blob option" where
  "q_get r f = (let e = r (idx f) in
     if qe_valid e \<and> qe_frame e = f then Some (qe_blob e) else None)"

definition q_invalidate :: "qring \<Rightarrow> qring" where
  "q_invalidate r = (\<lambda>i. if i < nat RING then (r i)\<lparr>qe_valid := False\<rparr> else r i)"

lemma idx_less [simp]: "idx f < 256"
  using c_wrap_less [of RING f] by (simp add: idx_def RING_def)

lemma idx_eq: "idx f = nat (f mod 256)"
  by (simp add: idx_def RING_def c_wrap_eq)

lemma idx_inj: "idx f = idx g \<Longrightarrow> \<bar>f - g\<bar> < 256 \<Longrightarrow> f = g"
  by (rule c_wrap_inj [of RING]) (auto simp: idx_def RING_def)

lemma idx_small: "0 \<le> f \<Longrightarrow> f < 256 \<Longrightarrow> idx f = nat f"
  by (simp add: idx_eq)

interpretation qr: frame_ring RING q_put q_get
proof
  show "0 < RING" by (simp add: RING_def)
  show "q_get (q_put f b r) f = Some b" for f b r
    by (simp add: q_get_def q_put_def)
  show "q_get (q_put f b r) g = q_get r g" if "f \<noteq> g" "\<bar>f - g\<bar> < RING" for f b r g
    using that idx_inj [of f g] by (auto simp: q_get_def q_put_def RING_def Let_def)
qed

lemma q_get_invalidate [simp]: "q_get (q_invalidate r) f = None"
  by (simp add: q_get_def q_invalidate_def RING_def)

end
