(* ===== verification/Net_Input.thy ===== *)
theory Net_Input
  imports Complex_Main Frame_Ring
begin

text \<open>
  The lockstep and prediction input exchange of \<open>src/src/net_input.cpp\<close>: two frame-keyed queues,
  the epoch-agreed timeline, the prediction ledger that asks for rollbacks, TimeSync, and the
  per-frame capture / resolve step. The file-scope statics are the fields of \<open>net_input\<close>; what a
  function reads from other components (round-trip time, transport path, arm state, clock, role,
  device) is an argument, and what it sends or requests is part of its result. Statics that only
  throttle or feed a log line are left out. C \<open>int\<close> frame numbers are mathematical integers
  (at 60 frames a second the 32-bit counter lasts more than a year); stamps and epochs keep
  their 32 bits.
\<close>

definition BLOB :: nat where "BLOB = 12"
definition EPOCH_DEBOUNCE_MS :: u32 where "EPOCH_DEBOUNCE_MS = 2000"
definition RELAY_MIN_DELAY :: int where "RELAY_MIN_DELAY = 8"
definition TS_RING :: nat where "TS_RING = 40"
definition TS_MIN :: int where "TS_MIN = 2"
definition TS_MAX :: int where "TS_MAX = 9"

definition neutral :: blob where "neutral = replicate BLOB 0"

record net_input =
  ni_local :: qring
  ni_remote :: qring
  ni_net_for_engine :: "int carray"
  ni_efmap_ready :: bool
  ni_present :: "blob carray"
  ni_present_valid :: bool
  ni_last_local :: blob
  ni_last_remote :: blob
  ni_pred :: "blob carray"
  ni_was_pred :: "bool carray"
  ni_pred_used :: int
  ni_pred_wrong :: int
  ni_pred_depth_max :: int
  ni_epoch :: u32
  ni_want :: u32
  ni_last_activate_ms :: u32
  ni_delay :: int
  ni_net_frame :: int
  ni_active :: bool
  ni_last_captured :: int
  ni_remote_high :: int
  ni_stalls :: int
  ni_sent :: int
  ni_recv :: int
  ni_peer_acked :: int
  ni_ts_local :: "int carray"
  ni_ts_remote :: "int carray"
  ni_ts_n :: nat
  ni_peer_adv :: int
  ni_ts_corrections :: int
  ni_ts_frames_given :: int
  ni_pump_last_ms :: u32

definition empty_entry :: qentry where
  "empty_entry = \<lparr>qe_frame = 0, qe_valid = False, qe_blob = neutral\<rparr>"

text \<open>The zero-initialised statics, with the initialisers the file gives.\<close>

definition ni_init :: net_input where
  "ni_init = \<lparr>ni_local = (\<lambda>_. empty_entry), ni_remote = (\<lambda>_. empty_entry),
     ni_net_for_engine = (\<lambda>_. 0), ni_efmap_ready = False,
     ni_present = (\<lambda>_. neutral), ni_present_valid = False,
     ni_last_local = neutral, ni_last_remote = neutral,
     ni_pred = (\<lambda>_. neutral), ni_was_pred = (\<lambda>_. False),
     ni_pred_used = 0, ni_pred_wrong = 0, ni_pred_depth_max = 0,
     ni_epoch = 0, ni_want = 0, ni_last_activate_ms = 0,
     ni_delay = 2, ni_net_frame = 0, ni_active = False,
     ni_last_captured = -1, ni_remote_high = -1,
     ni_stalls = 0, ni_sent = 0, ni_recv = 0, ni_peer_acked = -1,
     ni_ts_local = (\<lambda>_. 0), ni_ts_remote = (\<lambda>_. 0), ni_ts_n = 0, ni_peer_adv = 0,
     ni_ts_corrections = 0, ni_ts_frames_given = 0, ni_pump_last_ms = 0\<rparr>"

section \<open>Timeline reset and epochs\<close>

definition set_delay :: "int \<Rightarrow> net_input \<Rightarrow> net_input" where
  "set_delay d st = (if 0 \<le> d \<and> d < RING div 2 then st\<lparr>ni_delay := d\<rparr> else st)"

definition seed_neutral :: "net_input \<Rightarrow> net_input" where
  "seed_neutral st =
     (let seed = (\<lambda>r. fold (\<lambda>f. q_put f neutral) [0..ni_delay st - 1] (q_invalidate r))
      in st\<lparr>ni_local := seed (ni_local st), ni_remote := seed (ni_remote st),
            ni_net_frame := 0, ni_last_captured := -1, ni_remote_high := ni_delay st - 1\<rparr>)"

definition do_reset :: "net_input \<Rightarrow> net_input" where
  "do_reset st =
     (seed_neutral (st\<lparr>ni_last_local := neutral, ni_last_remote := neutral,
        ni_was_pred := (\<lambda>_. False),
        ni_pred_used := 0, ni_pred_wrong := 0, ni_pred_depth_max := 0\<rparr>))
       \<lparr>ni_stalls := 0, ni_sent := 0, ni_recv := 0\<rparr>"

definition activate_epoch :: "u32 \<Rightarrow> int \<Rightarrow> u32 \<Rightarrow> net_input \<Rightarrow> net_input" where
  "activate_epoch now delay epoch st =
     (if ni_active st \<and> ni_epoch st = epoch then st
      else let st1 = do_reset (set_delay delay st)
           in st1\<lparr>ni_active := True, ni_epoch := epoch,
                  ni_want := (if ni_want st1 < epoch then epoch else ni_want st1),
                  ni_last_activate_ms := now\<rparr>)"

text \<open>What the delay and proposal code reads from the session, the transport and the engine arm.\<close>

record link_env =
  le_rtt :: u32
  le_direct :: bool
  le_armed :: bool
  le_armed_delay :: int
  le_now :: u32

text \<open>The value of \<open>armed_delay.txt\<close>, if the file is there and parses, overrides 2 when in range.\<close>

definition armed_delay :: "int option \<Rightarrow> int" where
  "armed_delay v = (case v of Some d \<Rightarrow> if 1 \<le> d \<and> d \<le> 12 then d else 2 | None \<Rightarrow> 2)"

definition delay_for_link :: "link_env \<Rightarrow> int" where
  "delay_for_link e =
     (let rtt = le_rtt e; relayed = \<not> le_direct e in
      if rtt = 0 then (if relayed then RELAY_MIN_DELAY else 2)
      else
        let one_way_frames = uint (((rtt div 2) * 60 + 999) div 1000);
            d = one_way_frames + 1;
            d = (if relayed \<and> d < RELAY_MIN_DELAY then RELAY_MIN_DELAY else d)
        in if le_armed e then le_armed_delay e
           else let d = (if d < 2 then 2 else d) in if 12 < d then 12 else d)"

definition propose_epoch :: "link_env \<Rightarrow> int \<Rightarrow> bool \<Rightarrow> net_input \<Rightarrow> net_input \<times> packet list" where
  "propose_epoch e delay0 force st0 =
     (let link = delay_for_link e;
          delay = (if delay0 < link then link else delay0);
          st = set_delay delay st0
      in if \<not> force \<and> ni_active st
            \<and> elapsed (le_now e) (ni_last_activate_ms st) < EPOCH_DEBOUNCE_MS
         then (st, [])
         else let nxt = (if ni_want st < ni_epoch st then ni_epoch st else ni_want st) + 1
              in (st\<lparr>ni_want := nxt\<rparr>, [mk_packet MSG_EPOCH (word_of_int delay) nxt]))"

definition on_peer_epoch :: "u32 \<Rightarrow> u32 \<Rightarrow> int \<Rightarrow> net_input \<Rightarrow> net_input \<times> packet list" where
  "on_peer_epoch now epoch delay st =
     (if ni_epoch st < epoch then (activate_epoch now delay epoch st, [])
      else if epoch < ni_want st
      then (st, [mk_packet MSG_EPOCH (word_of_int (ni_delay st)) (ni_want st)])
      else (st, []))"

section \<open>Barrier, stall gate and frame advantage\<close>

definition frames_ahead :: "net_input \<Rightarrow> int" where
  "frames_ahead st = (if ni_active st then ni_net_frame st - ni_remote_high st else 0)"

definition remote_ready :: "net_input \<Rightarrow> bool" where
  "remote_ready st =
     (if \<not> ni_active st then True
      else let e = ni_remote st (idx (ni_net_frame st))
           in qe_valid e \<and> qe_frame e = ni_net_frame st)"

definition local_frame_advantage :: "u32 \<Rightarrow> net_input \<Rightarrow> int" where
  "local_frame_advantage rtt st =
     (let rtt_frames = uint ((rtt * 60) div 1000) div 2
      in (ni_remote_high st - ni_delay st + rtt_frames) - ni_net_frame st)"

text \<open>
  TimeSync. The sums of the 40-entry rings are small integers, exact in a double; every later
  double operation rounds, which is the function \<open>rnd\<close> of the model.
\<close>

definition ring_sum :: "nat \<Rightarrow> int carray \<Rightarrow> int" where
  "ring_sum n a = for_range 0 n (\<lambda>i s. s + a i) 0"

definition ts_decide :: "(rat \<Rightarrow> rat) \<Rightarrow> rat \<Rightarrow> rat \<Rightarrow> rat \<Rightarrow> rat \<Rightarrow> int" where
  "ts_decide rnd adv0 radv0 inst_adv inst_radv =
     (let use_inst = rnd (radv0 - adv0) < rnd (inst_radv - inst_adv);
          adv = (if use_inst then inst_adv else adv0);
          radv = (if use_inst then inst_radv else radv0)
      in if radv \<le> adv then 0
         else let sleep_frames = \<lfloor>rnd (rnd (rnd (radv - adv) / 2) + 1 / 2)\<rfloor>
              in if sleep_frames < TS_MIN then 0
                 else if TS_MAX < sleep_frames then TS_MAX else sleep_frames)"

definition recommend_wait :: "(rat \<Rightarrow> rat) \<Rightarrow> net_input \<Rightarrow> int \<times> net_input" where
  "recommend_wait rnd st =
     (if \<not> ni_active st \<or> ni_ts_n st < TS_RING then (0, st)
      else
        let adv = rnd (of_int (ring_sum TS_RING (ni_ts_local st)) / of_nat TS_RING);
            radv = rnd (of_int (ring_sum TS_RING (ni_ts_remote st)) / of_nat TS_RING);
            slot = nat (uint (word_of_int (ni_net_frame st - 1) :: u32)) mod TS_RING;
            give = ts_decide rnd adv radv (of_int (ni_ts_local st slot)) (of_int (ni_peer_adv st))
        in if give = 0 then (0, st)
           else (give, st\<lparr>ni_ts_corrections := ni_ts_corrections st + 1,
                          ni_ts_frames_given := ni_ts_frames_given st + give\<rparr>))"

section \<open>Sending\<close>

definition send_start :: "net_input \<Rightarrow> int \<Rightarrow> int" where
  "send_start st upto_frame =
     (let start = (if 0 \<le> ni_peer_acked st then ni_peer_acked st + 1
                   else upto_frame - (int NET_INPUT_REDUNDANCY - 1));
          start = (if upto_frame < start then upto_frame else start);
          start = (if int NET_INPUT_REDUNDANCY \<le> upto_frame - start
                   then upto_frame - (int NET_INPUT_REDUNDANCY - 1) else start)
      in if start < 0 then 0 else start)"

definition local_or_neutral :: "net_input \<Rightarrow> int \<Rightarrow> blob" where
  "local_or_neutral st f = (case q_get (ni_local st) f of Some b \<Rightarrow> b | None \<Rightarrow> neutral)"

definition send_input :: "u32 \<Rightarrow> u32 \<Rightarrow> int \<Rightarrow> net_input \<Rightarrow> net_input \<times> input_packet" where
  "send_input rtt cfg upto_frame st =
     (let start = send_start st upto_frame;
          count = (word_of_int (upto_frame - start + 1) :: u8)
      in (st\<lparr>ni_sent := ni_sent st + 1\<rparr>,
          \<lparr>ip_magic = NET_MAGIC, ip_type = msg_code MSG_INPUT, ip_count = count,
           ip_epoch = ni_epoch st, ip_want_epoch = ni_want st,
           ip_start_frame = start, ip_ack_frame = ni_remote_high st, ip_cfg_hash = cfg,
           ip_frame_adv = sint (word_of_int (local_frame_advantage rtt st) :: u16),
           ip_blobs = map (\<lambda>i. if i < unat count then local_or_neutral st (start + int i)
                               else neutral) [0..<NET_INPUT_REDUNDANCY]\<rparr>))"

definition pump_stalled :: "u32 \<Rightarrow> u32 \<Rightarrow> u32 \<Rightarrow> net_input \<Rightarrow> net_input \<times> input_packet option" where
  "pump_stalled now rtt cfg st =
     (if \<not> ni_active st \<or> ni_last_captured st < 0 then (st, None)
      else if elapsed now (ni_pump_last_ms st) < 8 then (st, None)
      else let (st', p) = send_input rtt cfg (ni_last_captured st + ni_delay st)
                            (st\<lparr>ni_pump_last_ms := now\<rparr>)
           in (st', Some p))"

section \<open>The frame step\<close>

definition capture_from :: "net_input \<Rightarrow> int \<Rightarrow> int" where
  "capture_from st sched =
     (let from0 = (if ni_last_captured st < 0 then sched else ni_last_captured st + ni_delay st + 1);
          from1 = (if sched < from0 then sched else from0)
      in if 32 < sched - from1 then sched - 32 else from1)"

definition capture :: "blob option \<Rightarrow> u32 \<Rightarrow> u32 \<Rightarrow> net_input \<Rightarrow> net_input \<times> input_packet option" where
  "capture pad rtt cfg st =
     (let N = ni_net_frame st in
      if N = ni_last_captured st then (st, None)
      else
        let raw = (case pad of Some b \<Rightarrow> b | None \<Rightarrow> neutral);
            sched = N + ni_delay st;
            from1 = capture_from st sched;
            st1 = st\<lparr>ni_local := fold (\<lambda>f. q_put f raw) [from1..sched] (ni_local st)\<rparr>;
            (st2, p) = send_input rtt cfg sched st1
        in (st2\<lparr>ni_last_captured := N\<rparr>, Some p))"

definition feed_timesync :: "u32 \<Rightarrow> net_input \<Rightarrow> net_input" where
  "feed_timesync rtt st =
     (let slot = nat (ni_net_frame st) mod TS_RING
      in st\<lparr>ni_ts_local := (ni_ts_local st)(slot := local_frame_advantage rtt st),
            ni_ts_remote := (ni_ts_remote st)(slot := ni_peer_adv st),
            ni_ts_n := (if ni_ts_n st < TS_RING then ni_ts_n st + 1 else ni_ts_n st)\<rparr>)"

definition stamp_engine_frame :: "int \<Rightarrow> net_input \<Rightarrow> net_input" where
  "stamp_engine_frame ef st =
     (let st1 = (if ni_efmap_ready st then st
                 else st\<lparr>ni_net_for_engine :=
                           (\<lambda>i. if i < nat RING then -1 else ni_net_for_engine st i),
                         ni_efmap_ready := True\<rparr>)
      in if 0 \<le> ef
         then st1\<lparr>ni_net_for_engine := (ni_net_for_engine st1)(idx ef := ni_net_frame st1)\<rparr>
         else st1)"

definition resolve_local :: "net_input \<Rightarrow> net_input \<times> blob" where
  "resolve_local st =
     (case q_get (ni_local st) (ni_net_frame st) of
        Some b \<Rightarrow> (st\<lparr>ni_last_local := b\<rparr>, b)
      | None \<Rightarrow> (st, ni_last_local st))"

definition resolve_remote :: "net_input \<Rightarrow> net_input \<times> blob" where
  "resolve_remote st =
     (let N = ni_net_frame st in
      case q_get (ni_remote st) N of
        Some b \<Rightarrow> (st\<lparr>ni_last_remote := b, ni_was_pred := (ni_was_pred st)(idx N := False)\<rparr>, b)
      | None \<Rightarrow>
          let b = ni_last_remote st
          in (if ni_was_pred st (idx N) then st
              else st\<lparr>ni_was_pred := (ni_was_pred st)(idx N := True),
                      ni_pred_used := ni_pred_used st + 1,
                      ni_pred := (ni_pred st)(idx N := b)\<rparr>, b))"

text \<open>Slot 0 is the P1 human and slot 1 the P2 human, on both machines.\<close>

definition present_slots :: "bool \<Rightarrow> blob \<Rightarrow> blob \<Rightarrow> net_input \<Rightarrow> net_input" where
  "present_slots is_p2 localblob remoteblob st =
     st\<lparr>ni_present := (if is_p2 then (ni_present st)(0 := remoteblob, 1 := localblob)
                       else (ni_present st)(0 := localblob, 1 := remoteblob)),
        ni_present_valid := True\<rparr>"

text \<open>What the frame step reads: role, pad sample, RTT, config hash of our slot, engine frame.\<close>

record frame_env =
  fe_is_p2 :: bool
  fe_pad :: "blob option"
  fe_rtt :: u32
  fe_cfg :: u32
  fe_engine_frame :: int

definition on_frame_begin :: "frame_env \<Rightarrow> net_input \<Rightarrow> net_input \<times> input_packet option" where
  "on_frame_begin e st0 =
     (let st = st0\<lparr>ni_present_valid := False\<rparr> in
      if \<not> ni_active st then (st, None)
      else
        let (st1, p) = capture (fe_pad e) (fe_rtt e) (fe_cfg e) st;
            st2 = stamp_engine_frame (fe_engine_frame e) (feed_timesync (fe_rtt e) st1);
            (st3, lb) = resolve_local st2;
            (st4, rb) = resolve_remote st3
        in (present_slots (fe_is_p2 e) lb rb st4, p))"

definition advance_frame :: "net_input \<Rightarrow> net_input" where
  "advance_frame st = (if ni_active st then st\<lparr>ni_net_frame := ni_net_frame st + 1\<rparr> else st)"

definition note_stall :: "net_input \<Rightarrow> net_input" where
  "note_stall st = st\<lparr>ni_stalls := ni_stalls st + 1\<rparr>"

section \<open>Presentation and replay look-ups\<close>

definition pad_present :: "int \<Rightarrow> net_input \<Rightarrow> blob option" where
  "pad_present slot st =
     (if \<not> ni_active st \<or> \<not> ni_present_valid st \<or> slot < 0 \<or> 1 < slot then None
      else Some (ni_present st (nat slot)))"

definition pad_for_engine_frame :: "bool \<Rightarrow> int \<Rightarrow> int \<Rightarrow> net_input \<Rightarrow> blob option" where
  "pad_for_engine_frame is_p2 slot engine_frame st =
     (if \<not> ni_active st \<or> slot < 0 \<or> 1 < slot \<or> engine_frame < 0 \<or> \<not> ni_efmap_ready st then None
      else let N = ni_net_for_engine st (idx engine_frame) in
        if N < 0 then None
        else
          let localb = (case q_get (ni_local st) N of Some b \<Rightarrow> b | None \<Rightarrow> neutral);
              remoteb = (case q_get (ni_remote st) N of Some b \<Rightarrow> b | None \<Rightarrow> neutral)
          in Some (if is_p2 then (if slot = 0 then remoteb else localb)
                   else (if slot = 0 then localb else remoteb)))"

section \<open>Receiving\<close>

text \<open>
  The trigger: the loop over the 256-entry map that looks for the net frame and hands the
  loop index to \<open>resim::request_rollback_to\<close>.
\<close>

definition rollback_request :: "net_input \<Rightarrow> int \<Rightarrow> int option" where
  "rollback_request st f =
     (if ni_efmap_ready st
      then map_option int (List.find (\<lambda>e. ni_net_for_engine st e = f) [0..<nat RING])
      else None)"

text \<open>The verdict on the prediction of frame \<open>f\<close> once its real input \<open>b\<close> is stored.\<close>

definition judge_prediction :: "int \<Rightarrow> blob \<Rightarrow> net_input \<Rightarrow> net_input \<times> int list" where
  "judge_prediction f b st =
     (if f < ni_net_frame st \<and> ni_was_pred st (idx f)
      then
        let st1 = st\<lparr>ni_was_pred := (ni_was_pred st)(idx f := False)\<rparr> in
        if ni_pred st1 (idx f) \<noteq> b
        then let depth = ni_net_frame st1 - f
             in (st1\<lparr>ni_pred_wrong := ni_pred_wrong st1 + 1,
                     ni_pred_depth_max := (if ni_pred_depth_max st1 < depth then depth
                                           else ni_pred_depth_max st1)\<rparr>,
                 case rollback_request st1 f of Some r \<Rightarrow> [r] | None \<Rightarrow> [])
        else (st1, [])
      else (st, []))"

definition store_remote :: "int \<Rightarrow> blob \<Rightarrow> net_input \<times> int list \<Rightarrow> net_input \<times> int list" where
  "store_remote f b sr =
     (let (st, reqs) = sr;
          e = ni_remote st (idx f)
      in if f < 0 then (st, reqs)
         else if qe_valid e \<and> qe_frame e = f then (st, reqs)
         else
           let st1 = st\<lparr>ni_remote := q_put f b (ni_remote st),
                        ni_remote_high := (if ni_remote_high st < f then f else ni_remote_high st)\<rparr>;
               (st2, r) = judge_prediction f b st1
           in (st2, reqs @ r))"

text \<open>
  \<open>on_recv_input\<close>: adopt a newer timeline, drop a foreign one, store what is new, and take the
  peer's acknowledgement and frame advantage. The second component lists the rollback requests.
\<close>

definition on_recv_input :: "u32 \<Rightarrow> input_packet \<Rightarrow> net_input \<Rightarrow> net_input \<times> int list" where
  "on_recv_input now p st0 =
     (let cnt = unat (ip_count p) in
      if cnt < 1 \<or> NET_INPUT_REDUNDANCY < cnt then (st0, [])
      else
        let st = (if ni_epoch st0 < ip_want_epoch p
                  then activate_epoch now (ni_delay st0) (ip_want_epoch p) st0 else st0)
        in if ip_epoch p \<noteq> ni_epoch st then (st, [])
           else
             let (st1, reqs) = for_range 0 cnt
                   (\<lambda>i. store_remote (ip_start_frame p + int i) (ip_blobs p ! i)) (st, []);
                 st2 = (if ni_peer_acked st1 < ip_ack_frame p
                        then st1\<lparr>ni_peer_acked := ip_ack_frame p\<rparr> else st1)
             in (st2\<lparr>ni_peer_adv := ip_frame_adv p, ni_recv := ni_recv st2 + 1\<rparr>, reqs))"

end
