(* ===== verification/Net_Input_Facts.thy ===== *)
theory Net_Input_Facts
  imports Net_Input
begin

text \<open>
  What the input machinery of \<open>net_input.cpp\<close> guarantees: the send window and what one received
  datagram stores, the epoch gate, the capture that leaves no hole, the agreement of the two
  machines on both pads, the replay look-up, the delay rule and TimeSync. The bundle
  \<open>frame_fields\<close> and the lemmas of the ring interpretation \<open>qr\<close> carry the proofs.
\<close>

section \<open>Selectors across the operations\<close>

lemma set_delay_fields [simp]:
  "ni_local (set_delay d st) = ni_local st" "ni_remote (set_delay d st) = ni_remote st"
  "ni_epoch (set_delay d st) = ni_epoch st" "ni_want (set_delay d st) = ni_want st"
  "ni_active (set_delay d st) = ni_active st" "ni_net_frame (set_delay d st) = ni_net_frame st"
  "ni_last_captured (set_delay d st) = ni_last_captured st"
  "ni_peer_acked (set_delay d st) = ni_peer_acked st"
  "ni_last_activate_ms (set_delay d st) = ni_last_activate_ms st"
  "ni_remote_high (set_delay d st) = ni_remote_high st"
  by (simp_all add: set_delay_def)

lemma do_reset_fields [simp]:
  "ni_epoch (do_reset st) = ni_epoch st" "ni_want (do_reset st) = ni_want st"
  "ni_active (do_reset st) = ni_active st" "ni_net_frame (do_reset st) = 0"
  "ni_last_captured (do_reset st) = -1" "ni_delay (do_reset st) = ni_delay st"
  "ni_peer_acked (do_reset st) = ni_peer_acked st"
  "ni_remote_high (do_reset st) = ni_delay st - 1"
  "ni_was_pred (do_reset st) = (\<lambda>_. False)"
  by (simp_all add: do_reset_def seed_neutral_def Let_def)

lemma activate_epoch_epoch [simp]: "ni_epoch (activate_epoch now d e st) = e"
  by (auto simp: activate_epoch_def Let_def)

lemma activate_epoch_active [simp]: "ni_active (activate_epoch now d e st)"
  by (auto simp: activate_epoch_def Let_def)

lemma activate_epoch_acked [simp]: "ni_peer_acked (activate_epoch now d e st) = ni_peer_acked st"
  by (auto simp: activate_epoch_def Let_def)

lemma activate_epoch_want:
  "ni_want (activate_epoch now d e st) =
     (if ni_active st \<and> ni_epoch st = e then ni_want st else max (ni_want st) e)"
  by (auto simp: activate_epoch_def Let_def max_def)

lemma activate_epoch_fresh:
  assumes "\<not> (ni_active st \<and> ni_epoch st = e)"
  shows "ni_net_frame (activate_epoch now d e st) = 0"
    "ni_last_captured (activate_epoch now d e st) = -1"
    "ni_delay (activate_epoch now d e st) = ni_delay (set_delay d st)"
    "ni_remote_high (activate_epoch now d e st) = ni_delay (set_delay d st) - 1"
  using assms by (auto simp: activate_epoch_def Let_def)

lemma activate_newer:
  assumes "ni_epoch st < e" "0 \<le> d" "d < 128"
  shows "ni_net_frame (activate_epoch now d e st) = 0" "ni_delay (activate_epoch now d e st) = d"
    "ni_want (activate_epoch now d e st) = max (ni_want st) e"
proof -
  have "\<not> (ni_active st \<and> ni_epoch st = e)" using assms(1) by auto
  with assms(2,3) show "ni_net_frame (activate_epoch now d e st) = 0"
    "ni_delay (activate_epoch now d e st) = d"
    "ni_want (activate_epoch now d e st) = max (ni_want st) e"
    by (auto simp: activate_epoch_fresh activate_epoch_want set_delay_def RING_def)
qed

lemma send_input_fst [simp]: "fst (send_input rtt cfg u st) = st\<lparr>ni_sent := ni_sent st + 1\<rparr>"
  by (simp add: send_input_def Let_def)

lemma resolve_local_blob:
  "q_get (ni_local st) (ni_net_frame st) = Some b \<Longrightarrow> resolve_local st = (st\<lparr>ni_last_local := b\<rparr>, b)"
  by (simp add: resolve_local_def)

lemma resolve_remote_blob:
  "q_get (ni_remote st) (ni_net_frame st) = Some b \<Longrightarrow> snd (resolve_remote st) = b"
  by (simp add: resolve_remote_def Let_def)

lemma stamp_engine_frame_fields [simp]:
  "ni_local (stamp_engine_frame ef st) = ni_local st"
  "ni_remote (stamp_engine_frame ef st) = ni_remote st"
  "ni_net_frame (stamp_engine_frame ef st) = ni_net_frame st"
  "ni_active (stamp_engine_frame ef st) = ni_active st"
  "ni_last_local (stamp_engine_frame ef st) = ni_last_local st"
  by (simp_all add: stamp_engine_frame_def Let_def)

lemma feed_timesync_fields [simp]:
  "ni_local (feed_timesync rtt st) = ni_local st"
  "ni_remote (feed_timesync rtt st) = ni_remote st"
  "ni_net_frame (feed_timesync rtt st) = ni_net_frame st"
  "ni_active (feed_timesync rtt st) = ni_active st"
  by (simp_all add: feed_timesync_def Let_def)

section \<open>Input delay\<close>

text \<open>
  The unarmed input delay is between 2 and 12 frames, at least 8 on a relay, and for a
  measured round trip up to 366 ms it covers the one-way trip with a frame to spare.
\<close>

theorem delay_for_link_bounds:
  assumes "\<not> le_armed e"
  shows "2 \<le> delay_for_link e \<and> delay_for_link e \<le> 12
    \<and> (\<not> le_direct e \<longrightarrow> 8 \<le> delay_for_link e)
    \<and> (le_rtt e \<noteq> 0 \<and> uint (le_rtt e) \<le> 366
         \<longrightarrow> uint (le_rtt e div 2) * 60 \<le> (delay_for_link e - 1) * 1000)"
proof -
  let ?h = "uint (le_rtt e div 2)"
  let ?ow = "uint (((le_rtt e div 2) * 60 + 999) div 1000)"
  have ow: "0 \<le> ?ow" by simp
  have cover: "?h * 60 \<le> ?ow * 1000 \<and> ?ow \<le> 11" if "uint (le_rtt e) \<le> 366"
  proof -
    have h: "0 \<le> ?h" "?h \<le> 183"
      using that by (simp_all add: uint_div)
    have "uint ((le_rtt e div 2) * 60 + 999) = ?h * 60 + 999"
      using h by (simp add: uint_word_ariths)
    then have "?ow = (?h * 60 + 999) div 1000" by (simp add: uint_div)
    with h show ?thesis by linarith
  qed
  show ?thesis
    using assms ow cover by (auto simp: delay_for_link_def RELAY_MIN_DELAY_def Let_def)
qed

theorem delay_for_link_bounds_witness:
  "delay_for_link \<lparr>le_rtt = 84, le_direct = False, le_armed = False, le_armed_delay = 2, le_now = 0\<rparr> \<le> 12"
  using delay_for_link_bounds [of "\<lparr>le_rtt = 84, le_direct = False, le_armed = False,
    le_armed_delay = 2, le_now = 0\<rparr>"] by simp

section \<open>The send window\<close>

lemma send_start_bounds:
  assumes "0 \<le> u"
  shows "0 \<le> send_start st u" "send_start st u \<le> u" "u - send_start st u < 32"
  using assms by (auto simp: send_start_def NET_INPUT_REDUNDANCY_def Let_def)

lemma send_start_covers:
  assumes "0 \<le> u" "-1 \<le> ni_peer_acked st" "0 \<le> ni_peer_acked st \<longrightarrow> u - ni_peer_acked st \<le> 32"
    "ni_peer_acked st < f" "f \<le> u" "ni_peer_acked st < 0 \<longrightarrow> u \<le> f + 31"
  shows "send_start st u \<le> f"
  using assms by (auto simp: send_start_def NET_INPUT_REDUNDANCY_def Let_def)

lemma unat_small_word8: "0 \<le> n \<Longrightarrow> n < 256 \<Longrightarrow> unat (word_of_int n :: u8) = nat n"
  by (simp add: unsigned_of_int take_bit_int_eq_self)

lemma send_count:
  assumes "0 \<le> u"
  shows "unat (ip_count (snd (send_input rtt cfg u st))) = nat (u - send_start st u + 1)"
proof -
  have "ip_count (snd (send_input rtt cfg u st)) = word_of_int (u - send_start st u + 1)"
    by (simp add: send_input_def Let_def)
  moreover have "unat (word_of_int (u - send_start st u + 1) :: u8) = nat (u - send_start st u + 1)"
    using send_start_bounds [OF assms, of st] by (intro unat_small_word8) linarith+
  ultimately show ?thesis by (simp only:)
qed

lemma send_blobs:
  "ip_blobs (snd (send_input rtt cfg u st)) =
     map (\<lambda>i. if i < unat (ip_count (snd (send_input rtt cfg u st)))
              then local_or_neutral st (send_start st u + int i) else neutral)
         [0..<NET_INPUT_REDUNDANCY]"
  by (simp add: send_input_def Let_def)

lemma send_blob:
  assumes "0 \<le> u" "send_start st u \<le> f" "f \<le> u"
  shows "ip_blobs (snd (send_input rtt cfg u st)) ! nat (f - send_start st u) = local_or_neutral st f"
  unfolding send_blobs send_count [OF assms(1)]
  using assms send_start_bounds [OF assms(1), of st]
  by (simp add: NET_INPUT_REDUNDANCY_def nat_less_iff)

text \<open>
  A sent input packet always ends at the newest scheduled frame, carries between 1 and 32
  consecutive frames, reads each from the local ring, and leaves out no frame the peer has yet
  to confirm as long as at most 32 are outstanding.
\<close>

theorem send_input_window:
  assumes "0 \<le> u"
  shows "let p = snd (send_input rtt cfg u st); n = unat (ip_count p); s = ip_start_frame p in
     1 \<le> n \<and> n \<le> 32 \<and> 0 \<le> s \<and> s + int n = u + 1
     \<and> (\<forall>f. s \<le> f \<and> f \<le> u \<longrightarrow> ip_blobs p ! nat (f - s) = local_or_neutral st f)
     \<and> (0 \<le> ni_peer_acked st \<and> u - ni_peer_acked st \<le> 32
          \<longrightarrow> (\<forall>f. ni_peer_acked st < f \<and> f \<le> u \<longrightarrow> s \<le> f))"
proof -
  have s: "ip_start_frame (snd (send_input rtt cfg u st)) = send_start st u"
    by (simp add: send_input_def Let_def)
  show ?thesis
    unfolding Let_def s send_count [OF assms]
    using send_start_bounds [OF assms, of st] send_blob [OF assms, of st]
      send_start_covers [OF assms, of st] by auto
qed

theorem send_input_window_witness:
  "unat (ip_count (snd (send_input 0 0 5 (ni_init\<lparr>ni_peer_acked := 2\<rparr>)))) \<le> 32"
  using send_input_window [of 5 0 0 "ni_init\<lparr>ni_peer_acked := 2\<rparr>"] by (simp add: Let_def)

section \<open>Receiving\<close>

lemma judge_prediction_fields [simp]:
  "ni_remote (fst (judge_prediction f b st)) = ni_remote st"
  "ni_local (fst (judge_prediction f b st)) = ni_local st"
  "ni_remote_high (fst (judge_prediction f b st)) = ni_remote_high st"
  "ni_net_frame (fst (judge_prediction f b st)) = ni_net_frame st"
  "ni_epoch (fst (judge_prediction f b st)) = ni_epoch st"
  "ni_want (fst (judge_prediction f b st)) = ni_want st"
  "ni_active (fst (judge_prediction f b st)) = ni_active st"
  "ni_delay (fst (judge_prediction f b st)) = ni_delay st"
  "ni_peer_acked (fst (judge_prediction f b st)) = ni_peer_acked st"
  "ni_efmap_ready (fst (judge_prediction f b st)) = ni_efmap_ready st"
  "ni_net_for_engine (fst (judge_prediction f b st)) = ni_net_for_engine st"
  by (simp_all add: judge_prediction_def Let_def)

lemma q_get_None_iff: "q_get r f = None \<longleftrightarrow> \<not> (qe_valid (r (idx f)) \<and> qe_frame (r (idx f)) = f)"
  by (simp add: q_get_def Let_def)

lemma store_remote_fields [simp]:
  "ni_local (fst (store_remote f b sr)) = ni_local (fst sr)"
  "ni_net_frame (fst (store_remote f b sr)) = ni_net_frame (fst sr)"
  "ni_epoch (fst (store_remote f b sr)) = ni_epoch (fst sr)"
  "ni_want (fst (store_remote f b sr)) = ni_want (fst sr)"
  "ni_active (fst (store_remote f b sr)) = ni_active (fst sr)"
  "ni_delay (fst (store_remote f b sr)) = ni_delay (fst sr)"
  "ni_peer_acked (fst (store_remote f b sr)) = ni_peer_acked (fst sr)"
  "ni_efmap_ready (fst (store_remote f b sr)) = ni_efmap_ready (fst sr)"
  "ni_net_for_engine (fst (store_remote f b sr)) = ni_net_for_engine (fst sr)"
  by (simp_all add: store_remote_def Let_def split_def)

lemma store_remote_remote:
  "ni_remote (fst (store_remote f b sr)) =
     (if f < 0 \<or> q_get (ni_remote (fst sr)) f \<noteq> None then ni_remote (fst sr)
      else q_put f b (ni_remote (fst sr)))"
  by (auto simp: store_remote_def q_get_def Let_def split_def)

lemma store_remote_get:
  assumes "0 \<le> f" "\<bar>f - g\<bar> < 256"
  shows "q_get (ni_remote (fst (store_remote f b sr))) g =
     (if g = f \<and> q_get (ni_remote (fst sr)) f = None then Some b
      else q_get (ni_remote (fst sr)) g)"
  using assms qr.get_put_same [of f b] qr.get_put_other [of f g b]
  by (auto simp: store_remote_remote RING_def)

lemma store_remote_high:
  "ni_remote_high (fst (store_remote f b sr)) =
     (if f < 0 \<or> q_get (ni_remote (fst sr)) f \<noteq> None then ni_remote_high (fst sr)
      else max (ni_remote_high (fst sr)) f)"
  by (auto simp: store_remote_def q_get_def Let_def split_def)

abbreviation recv_loop :: "int \<Rightarrow> blob list \<Rightarrow> nat \<Rightarrow> net_input \<times> int list \<Rightarrow> net_input \<times> int list" where
  "recv_loop s bs n \<equiv> for_range 0 n (\<lambda>i. store_remote (s + int i) (bs ! i))"

lemma recv_loop_fields [simp]:
  "ni_local (fst (recv_loop s bs n sr)) = ni_local (fst sr)"
  "ni_net_frame (fst (recv_loop s bs n sr)) = ni_net_frame (fst sr)"
  "ni_epoch (fst (recv_loop s bs n sr)) = ni_epoch (fst sr)"
  "ni_want (fst (recv_loop s bs n sr)) = ni_want (fst sr)"
  "ni_active (fst (recv_loop s bs n sr)) = ni_active (fst sr)"
  "ni_delay (fst (recv_loop s bs n sr)) = ni_delay (fst sr)"
  "ni_peer_acked (fst (recv_loop s bs n sr)) = ni_peer_acked (fst sr)"
  by (induction n) (simp_all add: for_range_Suc)

text \<open>The receive loop: the first copy of a frame is kept, everything else in range is filled.\<close>

lemma recv_loop_get:
  assumes "0 \<le> s" "n \<le> 32" "\<bar>s - g\<bar> < 200"
  shows "q_get (ni_remote (fst (recv_loop s bs n sr))) g =
    (if s \<le> g \<and> g < s + int n \<and> q_get (ni_remote (fst sr)) g = None
     then Some (bs ! nat (g - s)) else q_get (ni_remote (fst sr)) g)"
  using assms(2)
proof (induction n)
  case 0
  then show ?case by simp
next
  case (Suc n)
  then have IH: "q_get (ni_remote (fst (recv_loop s bs n sr))) g =
    (if s \<le> g \<and> g < s + int n \<and> q_get (ni_remote (fst sr)) g = None
     then Some (bs ! nat (g - s)) else q_get (ni_remote (fst sr)) g)" by simp
  have near: "\<bar>s + int n - g\<bar> < 256" using assms Suc.prems by linarith
  have step: "q_get (ni_remote (fst (recv_loop s bs (Suc n) sr))) g =
    (if g = s + int n \<and> q_get (ni_remote (fst (recv_loop s bs n sr))) g = None
     then Some (bs ! n) else q_get (ni_remote (fst (recv_loop s bs n sr))) g)"
    using assms(1) by (auto simp: for_range_Suc store_remote_get near)
  show ?case
    unfolding step IH by (cases "g = s + int n") auto
qed

lemma recv_loop_high:
  assumes "0 \<le> s" "n \<le> 32"
  shows "ni_remote_high (fst sr) \<le> ni_remote_high (fst (recv_loop s bs n sr))
     \<and> ni_remote_high (fst (recv_loop s bs n sr)) \<le> max (ni_remote_high (fst sr)) (s + int n - 1)"
  using assms(2)
proof (induction n)
  case 0
  then show ?case by simp
next
  case (Suc n)
  then show ?case using assms(1) by (auto simp: for_range_Suc store_remote_high)
qed

text \<open>What an accepted packet does, field by field.\<close>

definition accepts :: "net_input \<Rightarrow> input_packet \<Rightarrow> bool" where
  "accepts st p \<longleftrightarrow> 1 \<le> unat (ip_count p) \<and> unat (ip_count p) \<le> NET_INPUT_REDUNDANCY
     \<and> ip_want_epoch p \<le> ni_epoch st \<and> ip_epoch p = ni_epoch st"

lemma on_recv_input_accepted:
  assumes "accepts st p"
  shows "fst (on_recv_input now p st) =
     (let st1 = fst (recv_loop (ip_start_frame p) (ip_blobs p) (unat (ip_count p)) (st, []));
          st2 = (if ni_peer_acked st1 < ip_ack_frame p
                 then st1\<lparr>ni_peer_acked := ip_ack_frame p\<rparr> else st1)
      in st2\<lparr>ni_peer_adv := ip_frame_adv p, ni_recv := ni_recv st2 + 1\<rparr>)"
proof -
  have g: "(unat (ip_count p) < 1 \<or> NET_INPUT_REDUNDANCY < unat (ip_count p)) = False"
    "(ni_epoch st < ip_want_epoch p) = False" "(ip_epoch p \<noteq> ni_epoch st) = False"
    using assms by (auto simp: accepts_def)
  show ?thesis
    unfolding on_recv_input_def Let_def split_def g if_False by (rule fst_conv)
qed

lemma on_recv_input_accepted_fields:
  assumes "accepts st p"
  shows "ni_epoch (fst (on_recv_input now p st)) = ni_epoch st"
    "ni_active (fst (on_recv_input now p st)) = ni_active st"
    "ni_delay (fst (on_recv_input now p st)) = ni_delay st"
    "ni_net_frame (fst (on_recv_input now p st)) = ni_net_frame st"
    "ni_local (fst (on_recv_input now p st)) = ni_local st"
    "ni_want (fst (on_recv_input now p st)) = ni_want st"
    "ni_peer_acked (fst (on_recv_input now p st)) = max (ni_peer_acked st) (ip_ack_frame p)"
    "ni_peer_adv (fst (on_recv_input now p st)) = ip_frame_adv p"
    "ni_remote_high (fst (on_recv_input now p st)) = ni_remote_high
       (fst (recv_loop (ip_start_frame p) (ip_blobs p) (unat (ip_count p)) (st, [])))"
  by (simp_all add: on_recv_input_accepted [OF assms] Let_def max_def)

lemma on_recv_input_remote:
  assumes "accepts st p" "0 \<le> ip_start_frame p" "\<bar>ip_start_frame p - g\<bar> < 200"
  shows "q_get (ni_remote (fst (on_recv_input now p st))) g =
    (if ip_start_frame p \<le> g \<and> g < ip_start_frame p + int (unat (ip_count p))
        \<and> q_get (ni_remote st) g = None
     then Some (ip_blobs p ! nat (g - ip_start_frame p)) else q_get (ni_remote st) g)"
proof -
  have n: "unat (ip_count p) \<le> 32"
    using assms(1) by (simp add: accepts_def NET_INPUT_REDUNDANCY_def)
  have "ni_remote (fst (on_recv_input now p st)) =
      ni_remote (fst (recv_loop (ip_start_frame p) (ip_blobs p) (unat (ip_count p)) (st, [])))"
    by (simp add: on_recv_input_accepted [OF assms(1)] Let_def)
  then show ?thesis
    using recv_loop_get [OF assms(2) n assms(3), of "ip_blobs p" "(st, [])"] by simp
qed

text \<open>
  An accepted input packet puts every frame it carries in the remote ring, never replaces a
  frame already there, leaves the other frames near the window alone, raises the
  acknowledgement but never lowers it, and does not move the clock, the epoch or the local ring.
\<close>

theorem recv_input_stores:
  assumes "accepts st p" "0 \<le> ip_start_frame p"
  shows "let st' = fst (on_recv_input now p st); s = ip_start_frame p; n = unat (ip_count p) in
     (\<forall>i<n. q_get (ni_remote st') (s + int i) =
        (case q_get (ni_remote st) (s + int i) of Some b \<Rightarrow> Some b | None \<Rightarrow> Some (ip_blobs p ! i)))
     \<and> (\<forall>g. (g < s \<or> s + int n \<le> g) \<and> \<bar>s - g\<bar> < 200
          \<longrightarrow> q_get (ni_remote st') g = q_get (ni_remote st) g)
     \<and> ni_peer_acked st' = max (ni_peer_acked st) (ip_ack_frame p)
     \<and> ni_peer_adv st' = ip_frame_adv p
     \<and> ni_remote_high st \<le> ni_remote_high st'
     \<and> ni_remote_high st' \<le> max (ni_remote_high st) (s + int n - 1)
     \<and> ni_net_frame st' = ni_net_frame st \<and> ni_epoch st' = ni_epoch st
     \<and> ni_local st' = ni_local st"
proof -
  have n: "unat (ip_count p) \<le> 32"
    using assms(1) by (simp add: accepts_def NET_INPUT_REDUNDANCY_def)
  have "q_get (ni_remote (fst (on_recv_input now p st))) (ip_start_frame p + int i) =
    (case q_get (ni_remote st) (ip_start_frame p + int i) of
       Some b \<Rightarrow> Some b | None \<Rightarrow> Some (ip_blobs p ! i))"
    if i: "i < unat (ip_count p)" for i
  proof -
    have "int i < uint (ip_count p)" using i by (simp only: uint_nat of_nat_less_iff)
    moreover have "i < 200" using i n by linarith
    ultimately show ?thesis
      by (subst on_recv_input_remote [OF assms]) (auto split: option.split)
  qed
  moreover have "q_get (ni_remote (fst (on_recv_input now p st))) g = q_get (ni_remote st) g"
    if "g < ip_start_frame p \<or> ip_start_frame p + int (unat (ip_count p)) \<le> g"
      "\<bar>ip_start_frame p - g\<bar> < 200" for g
    using that by (subst on_recv_input_remote [OF assms]) auto
  ultimately show ?thesis
    using recv_loop_high [OF assms(2) n, of "(st, [])" "ip_blobs p"]
    unfolding Let_def on_recv_input_accepted_fields [OF assms(1)]
    by (simp only: fst_conv uint_nat) blast
qed

definition demo_packet :: input_packet where
  "demo_packet = snd (send_input 0 0 2 (ni_init\<lparr>ni_peer_acked := 0\<rparr>))"

theorem recv_input_stores_witness:
  "ni_net_frame (fst (on_recv_input 0 demo_packet ni_init)) = ni_net_frame ni_init"
proof -
  have "accepts ni_init demo_packet" "0 \<le> ip_start_frame demo_packet"
    by (simp_all add: accepts_def demo_packet_def send_input_def send_start_def ni_init_def
        NET_INPUT_REDUNDANCY_def Let_def)
  from recv_input_stores [OF this, of 0] show ?thesis by (simp add: Let_def)
qed

text \<open>
  C6. One surviving datagram repairs every loss before it: after the peer receives any packet of
  the same timeline, it holds every frame the sender has captured and not yet seen acknowledged
  (up to the 32 a packet carries), with the very bytes the sender's own ring holds.
\<close>

theorem one_datagram_repairs:
  assumes "0 \<le> u" "0 \<le> ni_peer_acked A" "u - ni_peer_acked A \<le> 32"
    and "ni_epoch A = ni_epoch B" "ni_want A \<le> ni_epoch B"
    and "\<forall>f. ni_peer_acked A < f \<and> f \<le> u
           \<longrightarrow> q_get (ni_remote B) f \<in> {None, Some (local_or_neutral A f)}"
  shows "\<forall>f. ni_peer_acked A < f \<and> f \<le> u
     \<longrightarrow> q_get (ni_remote (fst (on_recv_input now (snd (send_input rtt cfg u A)) B))) f
           = Some (local_or_neutral A f)"
proof (intro allI impI)
  fix f assume f: "ni_peer_acked A < f \<and> f \<le> u"
  let ?p = "snd (send_input rtt cfg u A)"
  have s: "ip_start_frame ?p = send_start A u" "ip_epoch ?p = ni_epoch A"
    "ip_want_epoch ?p = ni_want A"
    by (simp_all add: send_input_def Let_def)
  note b = send_start_bounds [OF assms(1), of A]
  have le: "send_start A u \<le> f" using send_start_covers [OF assms(1), of A f] assms(2,3) f by simp
  have acc: "accepts B ?p"
    unfolding accepts_def s send_count [OF assms(1)] NET_INPUT_REDUNDANCY_def
    using b assms(4,5) by auto
  have "q_get (ni_remote (fst (on_recv_input now ?p B))) f =
     (if q_get (ni_remote B) f = None then Some (ip_blobs ?p ! nat (f - send_start A u))
      else q_get (ni_remote B) f)"
    using on_recv_input_remote [OF acc, of f now] s b le f send_count [OF assms(1), of rtt cfg A]
    by auto
  then show "q_get (ni_remote (fst (on_recv_input now ?p B))) f = Some (local_or_neutral A f)"
    using send_blob [OF assms(1) le, of rtt cfg] f assms(6) by (auto split: if_splits)
qed

theorem one_datagram_repairs_witness:
  "q_get (ni_remote (fst (on_recv_input 0 (snd (send_input 0 0 5 (ni_init\<lparr>ni_peer_acked := 2\<rparr>)))
     ni_init))) 4 = Some neutral"
proof -
  have e: "local_or_neutral (ni_init\<lparr>ni_peer_acked := 2\<rparr>) f = neutral"
    "q_get (ni_remote ni_init) f = None" for f
    by (simp_all add: local_or_neutral_def q_get_def ni_init_def empty_entry_def)
  show ?thesis
    using one_datagram_repairs [of 5 "ni_init\<lparr>ni_peer_acked := 2\<rparr>" ni_init 0 0 0]
    by (simp add: e) (simp add: ni_init_def)
qed

section \<open>Epochs\<close>

lemma on_recv_input_cases:
  "fst (on_recv_input now p st) =
     (if unat (ip_count p) < 1 \<or> NET_INPUT_REDUNDANCY < unat (ip_count p) then st
      else let st1 = (if ni_epoch st < ip_want_epoch p
                      then activate_epoch now (ni_delay st) (ip_want_epoch p) st else st)
           in if accepts st1 p then fst (on_recv_input now p st1) else st1)"
proof -
  have fixp: "\<not> ni_epoch (activate_epoch now d (ip_want_epoch p) st) < ip_want_epoch p" for d by simp
  show ?thesis
    by (auto simp: on_recv_input_def accepts_def Let_def split_def not_less)
qed

text \<open>
  The epoch gate: receiving never lowers the epoch, a packet of another timeline stores and
  requests nothing, and the frame clock moves only together with the epoch, back to 0.
\<close>

theorem epoch_gate:
  "let (st', reqs) = on_recv_input now p st in
     ni_epoch st \<le> ni_epoch st'
     \<and> (\<not> ni_epoch st < ip_want_epoch p \<and> ip_epoch p \<noteq> ni_epoch st \<longrightarrow> st' = st \<and> reqs = [])
     \<and> (ip_epoch p < ip_want_epoch p \<longrightarrow> reqs = [])
     \<and> (ni_net_frame st' \<noteq> ni_net_frame st \<longrightarrow> ni_epoch st < ni_epoch st' \<and> ni_net_frame st' = 0)"
proof -
  let ?a = "activate_epoch now (ni_delay st) (ip_want_epoch p) st"
  have fresh: "ni_net_frame ?a = 0" if "ni_epoch st < ip_want_epoch p"
    using that by (intro activate_epoch_fresh) auto
  have "ni_epoch st \<le> ni_epoch (fst (on_recv_input now p st))"
    by (subst on_recv_input_cases) (auto simp: Let_def on_recv_input_accepted_fields)
  moreover have "ni_net_frame (fst (on_recv_input now p st)) \<noteq> ni_net_frame st \<longrightarrow>
      ni_epoch st < ni_epoch (fst (on_recv_input now p st))
      \<and> ni_net_frame (fst (on_recv_input now p st)) = 0"
    by (subst (1 2 3) on_recv_input_cases) (auto simp: Let_def on_recv_input_accepted_fields fresh)
  moreover have "\<not> ni_epoch st < ip_want_epoch p \<and> ip_epoch p \<noteq> ni_epoch st
      \<longrightarrow> on_recv_input now p st = (st, [])"
    by (simp add: on_recv_input_def Let_def)
  moreover have "ip_epoch p < ip_want_epoch p \<longrightarrow> snd (on_recv_input now p st) = []"
    by (auto simp: on_recv_input_def Let_def)
  ultimately show ?thesis by (auto simp: split_def)
qed

theorem epoch_gate_witness:
  "snd (on_recv_input 0 (demo_packet\<lparr>ip_epoch := 3, ip_want_epoch := 9\<rparr>) ni_init) = []"
  using epoch_gate [of 0 "demo_packet\<lparr>ip_epoch := 3, ip_want_epoch := 9\<rparr>" ni_init]
  by (simp add: split_def Let_def)

lemma propose_epoch_sent:
  assumes "force \<or> \<not> ni_active A" "0 \<le> d" "d < 128" "delay_for_link e \<le> d"
  shows "propose_epoch e d force A =
    (A\<lparr>ni_delay := d, ni_want := max (ni_epoch A) (ni_want A) + 1\<rparr>,
     [mk_packet MSG_EPOCH (word_of_int d) (max (ni_epoch A) (ni_want A) + 1)])"
  using assms by (auto simp: propose_epoch_def set_delay_def RING_def Let_def max_def)

lemma word_less_succ:
  assumes "(a :: u32) < 0xFFFFFFFF"
  shows "a < a + 1"
proof -
  have "uint a < 2 ^ 32 - 1" using assms by (simp add: word_less_def)
  then have "uint (a + 1) = uint a + 1" by (simp add: uint_word_ariths)
  then show ?thesis by (simp add: word_less_def)
qed

text \<open>
  C21. A proposal needs only one message each way: once the announcement reaches the peer and any
  one of the peer's input packets comes back, both run the same epoch with the same delay, and
  both frame clocks start at 0.
\<close>

theorem epoch_agreement:
  assumes "force \<or> \<not> ni_active A" "0 \<le> d" "d < 128" "delay_for_link e \<le> d"
    and "ni_epoch A < 0xFFFFFFFF" "ni_want A < 0xFFFFFFFF"
    and "ni_epoch B \<le> max (ni_epoch A) (ni_want A)" "ni_want B \<le> max (ni_epoch A) (ni_want A)"
    and "propose_epoch e d force A = (A', [m])"
    and "B' = fst (on_peer_epoch nb (pk_stamp_ms m) (sint (pk_nonce m)) B)"
    and "0 \<le> u" "A'' = fst (on_recv_input na (snd (send_input rtt cfg u B')) A')"
  shows "ni_active A'' \<and> ni_active B' \<and> ni_epoch A'' = ni_epoch B'
    \<and> ni_epoch B' = max (ni_epoch A) (ni_want A) + 1
    \<and> ni_delay A'' = d \<and> ni_delay B' = d \<and> ni_net_frame A'' = 0 \<and> ni_net_frame B' = 0"
proof -
  let ?n = "max (ni_epoch A) (ni_want A) + 1"
  have up: "max (ni_epoch A) (ni_want A) < ?n"
    using assms(5,6) by (intro word_less_succ) (simp add: max_def)
  have "ni_epoch A < ?n" "ni_epoch B < ?n" "\<not> ?n < ni_want B"
    using up assms(7,8) by (auto simp: max_def split: if_splits)
  have A': "A' = A\<lparr>ni_delay := d, ni_want := ?n\<rparr>"
    and m: "m = mk_packet MSG_EPOCH (word_of_int d) ?n"
    using propose_epoch_sent [OF assms(1-4)] assms(9) by auto
  have stamp: "pk_stamp_ms m = ?n" "sint (pk_nonce m) = d"
    using assms(2,3) by (simp_all add: m mk_packet_def)
  have B': "B' = activate_epoch nb d ?n B"
    using \<open>ni_epoch B < ?n\<close> by (simp add: assms(10) on_peer_epoch_def stamp)
  have Bf: "ni_active B'" "ni_epoch B' = ?n" "ni_delay B' = d" "ni_net_frame B' = 0"
    "ni_want B' = ?n"
    using activate_newer [OF \<open>ni_epoch B < ?n\<close> assms(2,3), of nb]
      max_absorb2 [of "ni_want B" ?n] \<open>\<not> ?n < ni_want B\<close>
    by (simp_all only: B' not_less activate_epoch_epoch activate_epoch_active)
  let ?p = "snd (send_input rtt cfg u B')" and ?a = "activate_epoch na d ?n A'"
  have p: "ip_want_epoch ?p = ?n"
    using Bf by (simp add: send_input_def Let_def)
  have cnt: "\<not> (unat (ip_count ?p) < 1 \<or> NET_INPUT_REDUNDANCY < unat (ip_count ?p))"
    using send_start_bounds [OF assms(11), of B']
    by (simp add: send_count [OF assms(11)] NET_INPUT_REDUNDANCY_def)
  have af: "ni_active ?a" "ni_epoch ?a = ?n" "ni_delay ?a = d" "ni_net_frame ?a = 0"
    using activate_newer [of A' ?n d na] \<open>ni_epoch A < ?n\<close> assms(2,3) by (simp_all add: A')
  have "A'' = (if accepts ?a ?p then fst (on_recv_input na ?p ?a) else ?a)"
    unfolding assms(12)
    using cnt \<open>ni_epoch A < ?n\<close> by (subst on_recv_input_cases) (simp add: p A' Let_def)
  with af Bf show ?thesis by (auto simp: on_recv_input_accepted_fields)
qed

theorem epoch_agreement_witness:
  "let e = \<lparr>le_rtt = 0, le_direct = True, le_armed = False, le_armed_delay = 2, le_now = 0\<rparr>;
       A' = fst (propose_epoch e 2 True ni_init); m = hd (snd (propose_epoch e 2 True ni_init));
       B' = fst (on_peer_epoch 0 (pk_stamp_ms m) (sint (pk_nonce m)) ni_init);
       A'' = fst (on_recv_input 0 (snd (send_input 0 0 2 B')) A')
   in ni_epoch A'' = ni_epoch B'"
proof -
  let ?e = "\<lparr>le_rtt = 0, le_direct = True, le_armed = False, le_armed_delay = 2, le_now = 0\<rparr>"
  have pr: "propose_epoch ?e 2 True ni_init = (ni_init\<lparr>ni_delay := 2, ni_want := 1\<rparr>,
      [mk_packet MSG_EPOCH 2 1])"
    using propose_epoch_sent [of True ni_init 2 ?e]
    by (simp add: delay_for_link_def Let_def) (simp add: ni_init_def)
  have z: "ni_epoch ni_init = 0" "ni_want ni_init = 0" by (simp_all add: ni_init_def)
  have dl: "delay_for_link ?e \<le> 2" by (simp add: delay_for_link_def Let_def)
  show ?thesis
    using epoch_agreement [of True ni_init 2 ?e ni_init _ _ _ 0 2 _ 0 0 0, OF _ _ _ dl _ _ _ _ pr
        refl _ refl] by (simp add: z Let_def pr)
qed

section \<open>Capture and presentation\<close>

lemma capture_idle: "ni_net_frame st = ni_last_captured st \<Longrightarrow> capture pad rtt cfg st = (st, None)"
  by (simp add: capture_def Let_def)

lemma capture_fields [simp]:
  "ni_remote (fst (capture pad rtt cfg st)) = ni_remote st"
  "ni_net_frame (fst (capture pad rtt cfg st)) = ni_net_frame st"
  "ni_active (fst (capture pad rtt cfg st)) = ni_active st"
  "ni_delay (fst (capture pad rtt cfg st)) = ni_delay st"
  "ni_was_pred (fst (capture pad rtt cfg st)) = ni_was_pred st"
  "ni_last_remote (fst (capture pad rtt cfg st)) = ni_last_remote st"
  by (simp_all add: capture_def Let_def split_def)

lemma capture_local:
  "ni_net_frame st \<noteq> ni_last_captured st \<Longrightarrow>
   ni_local (fst (capture pad rtt cfg st)) =
     fold (\<lambda>f. q_put f (case pad of Some b \<Rightarrow> b | None \<Rightarrow> neutral))
       [capture_from st (ni_net_frame st + ni_delay st)..ni_net_frame st + ni_delay st] (ni_local st)
   \<and> ni_last_captured (fst (capture pad rtt cfg st)) = ni_net_frame st"
  by (simp add: capture_def Let_def split_def)

lemma capture_from_bounds:
  "capture_from st sched \<le> sched" "sched - capture_from st sched \<le> 32"
  "0 \<le> ni_last_captured st \<Longrightarrow> ni_last_captured st + ni_delay st < sched \<Longrightarrow>
     sched - ni_last_captured st - ni_delay st \<le> 33 \<Longrightarrow>
     capture_from st sched = ni_last_captured st + ni_delay st + 1"
  by (auto simp: capture_from_def Let_def)

lemma capture_get:
  assumes "ni_net_frame st \<noteq> ni_last_captured st" "g \<le> ni_net_frame st + ni_delay st"
    and "ni_net_frame st + ni_delay st - g < 220"
  shows "q_get (ni_local (fst (capture pad rtt cfg st))) g =
    (if capture_from st (ni_net_frame st + ni_delay st) \<le> g
     then Some (case pad of Some b \<Rightarrow> b | None \<Rightarrow> neutral) else q_get (ni_local st) g)"
  unfolding capture_local [OF assms(1), THEN conjunct1]
  using assms(2,3) capture_from_bounds(1,2) [where st = st and sched = "ni_net_frame st + ni_delay st"]
  by (auto simp: qr.get_run [where v = "\<lambda>_. case pad of Some b \<Rightarrow> b | None \<Rightarrow> neutral"]
      qr.get_run_outside [where v = "\<lambda>_. case pad of Some b \<Rightarrow> b | None \<Rightarrow> neutral"] RING_def)

text \<open>The local ring holds every frame from \<open>lo\<close> up to the newest scheduled one.\<close>

definition local_covered :: "int \<Rightarrow> net_input \<Rightarrow> bool" where
  "local_covered lo st \<longleftrightarrow> (\<forall>f. lo \<le> f \<and> f \<le> ni_last_captured st + ni_delay st \<and>
     ni_last_captured st + ni_delay st - f < 200 \<longrightarrow> q_get (ni_local st) f \<noteq> None)"

text \<open>
  Capture leaves no hole: even when the frame counter has jumped by up to 33 frames since the
  last capture, every frame up to the newest scheduled one is in the local ring afterwards, the
  jumped-over frames and the newest one with the current pad sample, and the packet that goes
  out ends at that frame.
\<close>

theorem capture_no_hole:
  assumes "local_covered lo st" "0 \<le> ni_last_captured st"
    and "ni_last_captured st < ni_net_frame st" "ni_net_frame st - ni_last_captured st \<le> 33"
    and "0 \<le> ni_delay st"
  shows "let (st', p) = capture pad rtt cfg st; b = (case pad of Some b \<Rightarrow> b | None \<Rightarrow> neutral) in
     local_covered lo st' \<and> ni_last_captured st' = ni_net_frame st
     \<and> (\<forall>f. ni_last_captured st + ni_delay st < f \<and> f \<le> ni_net_frame st + ni_delay st
          \<longrightarrow> q_get (ni_local st') f = Some b)
     \<and> map_option (\<lambda>p. ip_start_frame p + int (unat (ip_count p))) p
         = Some (ni_net_frame st + ni_delay st + 1)"
proof -
  let ?s = "ni_net_frame st + ni_delay st" and ?st' = "fst (capture pad rtt cfg st)"
  have ne: "ni_net_frame st \<noteq> ni_last_captured st" using assms(3) by simp
  have from1: "capture_from st ?s = ni_last_captured st + ni_delay st + 1"
    using assms by (intro capture_from_bounds(3)) auto
  have lc: "ni_last_captured ?st' = ni_net_frame st" using capture_local [OF ne] by simp
  have new: "q_get (ni_local ?st') f = Some (case pad of Some b \<Rightarrow> b | None \<Rightarrow> neutral)"
    if "ni_last_captured st + ni_delay st < f" "f \<le> ?s" for f
    using that assms(4) by (subst capture_get [OF ne]) (auto simp: from1)
  have "q_get (ni_local ?st') f \<noteq> None" if "lo \<le> f" "f \<le> ?s" "?s - f < 200" for f
  proof (cases "ni_last_captured st + ni_delay st < f")
    case False
    with that assms(1,3) have "q_get (ni_local st) f \<noteq> None" by (simp add: local_covered_def)
    with that show ?thesis by (subst capture_get [OF ne]) auto
  qed (use that new in auto)
  then have cov: "local_covered lo ?st'" by (simp add: local_covered_def lc)
  have u: "0 \<le> ?s" using assms by simp
  have pkt: "snd (capture pad rtt cfg st) = Some (snd (send_input rtt cfg ?s (st\<lparr>ni_local :=
      fold (\<lambda>f. q_put f (case pad of Some b \<Rightarrow> b | None \<Rightarrow> neutral)) [capture_from st ?s..?s]
        (ni_local st)\<rparr>)))"
    using ne by (simp add: capture_def Let_def split_def)
  have tail: "ip_start_frame (snd (send_input rtt cfg ?s s0))
      + int (unat (ip_count (snd (send_input rtt cfg ?s s0)))) = ?s + 1" for s0
    unfolding send_count [OF u] using send_start_bounds [OF u, of s0]
    by (simp add: send_input_def Let_def)
  have "map_option (\<lambda>p. ip_start_frame p + int (unat (ip_count p))) (snd (capture pad rtt cfg st))
      = Some (?s + 1)"
    unfolding pkt option.map tail ..
  with cov lc new show ?thesis unfolding Let_def split_def by (intro conjI) auto
qed

theorem capture_no_hole_witness:
  "ni_last_captured (fst (capture None 0 0 (ni_init\<lparr>ni_last_captured := 4, ni_net_frame := 7\<rparr>))) = 7"
proof -
  have "local_covered 99 (ni_init\<lparr>ni_last_captured := 4, ni_net_frame := 7\<rparr>)"
    by (auto simp: local_covered_def ni_init_def)
  from capture_no_hole [OF this, of None 0 0] show ?thesis
    by (auto simp: ni_init_def Let_def split_def)
qed

lemma capture_keeps_scheduled:
  assumes "1 \<le> ni_delay st" "0 \<le> ni_last_captured st \<longrightarrow> ni_net_frame st \<le> ni_last_captured st + ni_delay st"
    and "ni_delay st < 128"
  shows "q_get (ni_local (fst (capture pad rtt cfg st))) (ni_net_frame st) = q_get (ni_local st) (ni_net_frame st)"
proof (cases "ni_net_frame st = ni_last_captured st")
  case False
  have "ni_net_frame st < capture_from st (ni_net_frame st + ni_delay st)"
    using assms by (auto simp: capture_from_def Let_def)
  with assms show ?thesis by (subst capture_get [OF False]) auto
qed (simp add: capture_idle)

lemma on_frame_begin_present:
  assumes "ni_active st" "1 \<le> ni_delay st" "ni_delay st < 128"
    and "0 \<le> ni_last_captured st \<longrightarrow> ni_net_frame st \<le> ni_last_captured st + ni_delay st"
    and "q_get (ni_local st) (ni_net_frame st) = Some l"
    and "q_get (ni_remote st) (ni_net_frame st) = Some r"
  shows "ni_present (fst (on_frame_begin e st)) 0 = (if fe_is_p2 e then r else l)"
    "ni_present (fst (on_frame_begin e st)) 1 = (if fe_is_p2 e then l else r)"
    "ni_present_valid (fst (on_frame_begin e st))"
    "ni_active (fst (on_frame_begin e st))"
proof -
  let ?c = "fst (capture (fe_pad e) (fe_rtt e) (fe_cfg e) (st\<lparr>ni_present_valid := False\<rparr>))"
  let ?d = "stamp_engine_frame (fe_engine_frame e) (feed_timesync (fe_rtt e) ?c)"
  have l: "q_get (ni_local ?d) (ni_net_frame ?d) = Some l"
    using capture_keeps_scheduled [of "st\<lparr>ni_present_valid := False\<rparr>"] assms by simp
  have r: "q_get (ni_remote (?d\<lparr>ni_last_local := l\<rparr>)) (ni_net_frame (?d\<lparr>ni_last_local := l\<rparr>)) = Some r"
    using assms by simp
  have "fst (on_frame_begin e st) =
      present_slots (fe_is_p2 e) l r (fst (resolve_remote (?d\<lparr>ni_last_local := l\<rparr>)))"
    using assms(1) resolve_local_blob [OF l] resolve_remote_blob [OF r]
    by (simp add: on_frame_begin_def Let_def split_def)
  moreover have "ni_active (fst (resolve_remote s0)) = ni_active s0" for s0
    by (simp add: resolve_remote_def Let_def split: option.split)
  ultimately show "ni_present (fst (on_frame_begin e st)) 0 = (if fe_is_p2 e then r else l)"
    "ni_present (fst (on_frame_begin e st)) 1 = (if fe_is_p2 e then l else r)"
    "ni_present_valid (fst (on_frame_begin e st))" "ni_active (fst (on_frame_begin e st))"
    using assms(1) by (simp_all add: present_slots_def)
qed

text \<open>
  C4. Both machines feed the game the same bytes: when each holds its own scheduled input and
  has received the other's for the frame, slot 0 shows the P1 human and slot 1 the P2 human on
  both machines, whatever the pads, round trips and engine counters read at that moment.
\<close>

theorem slots_agree:
  assumes "ni_active A" "ni_active B" "ni_net_frame A = N" "ni_net_frame B = N"
    and "1 \<le> ni_delay A" "ni_delay A < 128" "1 \<le> ni_delay B" "ni_delay B < 128"
    and "0 \<le> ni_last_captured A \<longrightarrow> N \<le> ni_last_captured A + ni_delay A"
    and "0 \<le> ni_last_captured B \<longrightarrow> N \<le> ni_last_captured B + ni_delay B"
    and "q_get (ni_local A) N = Some a" "q_get (ni_remote B) N = Some a"
    and "q_get (ni_local B) N = Some b" "q_get (ni_remote A) N = Some b"
    and "\<not> fe_is_p2 eA" "fe_is_p2 eB"
  shows "let A' = fst (on_frame_begin eA A); B' = fst (on_frame_begin eB B) in
     (\<forall>slot. pad_present slot A' = pad_present slot B')
     \<and> pad_present 0 A' = Some a \<and> pad_present 1 A' = Some b"
proof -
  note pA = on_frame_begin_present [of A a b eA] and pB = on_frame_begin_present [of B b a eB]
  have "pad_present slot (fst (on_frame_begin eA A)) =
      (if slot = 0 then Some a else if slot = 1 then Some b else None)"
    "pad_present slot (fst (on_frame_begin eB B)) =
      (if slot = 0 then Some a else if slot = 1 then Some b else None)" for slot
    using pA pB assms by (auto simp: pad_present_def)
  then show ?thesis by (simp add: Let_def)
qed

definition demo_start :: net_input where
  "demo_start = fst (on_peer_epoch 0 1 2 ni_init)"

lemma demo_start_facts:
  "ni_active demo_start" "ni_net_frame demo_start = 0" "ni_delay demo_start = 2"
  "ni_last_captured demo_start = -1" "ni_epoch demo_start = 1"
  "q_get (ni_local demo_start) 0 = Some neutral" "q_get (ni_remote demo_start) 0 = Some neutral"
proof -
  have up: "[0..(1::int)] = [0, 1]" by (simp add: upto_rec1)
  have a: "\<not> (ni_active ni_init \<and> ni_epoch ni_init = 1)" by (simp add: ni_init_def)
  have d: "ni_delay (set_delay 2 ni_init) = 2" by (simp add: set_delay_def RING_def)
  have e: "demo_start = activate_epoch 0 2 1 ni_init"
    by (simp add: demo_start_def on_peer_epoch_def ni_init_def)
  show "q_get (ni_local demo_start) 0 = Some neutral" "q_get (ni_remote demo_start) 0 = Some neutral"
    unfolding e using qr.get_run [of 0 0 1 "\<lambda>_. neutral"]
    by (simp_all add: activate_epoch_def a do_reset_def seed_neutral_def Let_def d RING_def up)
  show "ni_active demo_start" "ni_net_frame demo_start = 0" "ni_delay demo_start = 2"
    "ni_last_captured demo_start = -1" "ni_epoch demo_start = 1"
    unfolding e using activate_epoch_fresh [OF a, of 0 2] d by simp_all
qed

theorem slots_agree_witness:
  "pad_present 0 (fst (on_frame_begin \<lparr>fe_is_p2 = False, fe_pad = None, fe_rtt = 0, fe_cfg = 0,
     fe_engine_frame = 700\<rparr> demo_start)) = Some neutral"
  using slots_agree [of demo_start demo_start 0 neutral neutral
      "\<lparr>fe_is_p2 = False, fe_pad = None, fe_rtt = 0, fe_cfg = 0, fe_engine_frame = 700\<rparr>"
      "\<lparr>fe_is_p2 = True, fe_pad = None, fe_rtt = 0, fe_cfg = 0, fe_engine_frame = 9\<rparr>"]
  by (auto simp: demo_start_facts Let_def)

section \<open>Prediction and replay\<close>

lemma on_recv_input_maps:
  assumes "accepts st p"
  shows "ni_efmap_ready (fst (on_recv_input now p st)) = ni_efmap_ready st"
    "ni_net_for_engine (fst (on_recv_input now p st)) = ni_net_for_engine st"
proof -
  have "ni_efmap_ready (fst (recv_loop s bs n sr)) = ni_efmap_ready (fst sr)
     \<and> ni_net_for_engine (fst (recv_loop s bs n sr)) = ni_net_for_engine (fst sr)" for s bs n sr
    by (induction n) (simp_all add: for_range_Suc)
  then show "ni_efmap_ready (fst (on_recv_input now p st)) = ni_efmap_ready st"
    "ni_net_for_engine (fst (on_recv_input now p st)) = ni_net_for_engine st"
    by (simp_all add: on_recv_input_accepted [OF assms] Let_def)
qed

text \<open>
  A replay sees the corrected input: once the real input of a frame that was simulated with
  a guess has arrived, the look-up for the engine frame that ran it yields the peer's real bytes
  on the peer's slot and our own bytes on ours, on either role.
\<close>

theorem replay_sees_correction:
  assumes "ni_active st" "ni_efmap_ready st" "0 \<le> ef" "ni_net_for_engine st (idx ef) = N" "0 \<le> N"
    and "q_get (ni_local st) N = Some mine" "q_get (ni_remote st) N = None"
    and "accepts st p" "0 \<le> ip_start_frame p" "ip_start_frame p \<le> N"
    and "N < ip_start_frame p + int (unat (ip_count p))"
  shows "let st' = fst (on_recv_input now p st); theirs = ip_blobs p ! nat (N - ip_start_frame p) in
     pad_for_engine_frame False 1 ef st' = Some theirs \<and> pad_for_engine_frame False 0 ef st' = Some mine
     \<and> pad_for_engine_frame True 0 ef st' = Some theirs \<and> pad_for_engine_frame True 1 ef st' = Some mine
     \<and> pad_for_engine_frame False 1 ef st = Some neutral"
proof -
  have n: "unat (ip_count p) \<le> 32"
    using assms(8) by (simp add: accepts_def NET_INPUT_REDUNDANCY_def)
  have near: "\<bar>ip_start_frame p - N\<bar> < 200" using assms(10,11) n by linarith
  have r: "q_get (ni_remote (fst (on_recv_input now p st))) N
      = Some (ip_blobs p ! nat (N - ip_start_frame p))"
    unfolding on_recv_input_remote [OF assms(8,9) near] using assms(7,10,11) by simp
  show ?thesis
    using assms by (simp add: Let_def pad_for_engine_frame_def r on_recv_input_maps
      on_recv_input_accepted_fields)
qed

theorem replay_sees_correction_witness:
  "pad_for_engine_frame False 1 300 (demo_start\<lparr>ni_efmap_ready := True,
     ni_net_for_engine := (\<lambda>_. -1)(44 := 1), ni_remote := (\<lambda>_. empty_entry)\<rparr>) = Some neutral"
proof -
  let ?st = "demo_start\<lparr>ni_efmap_ready := True, ni_net_for_engine := (\<lambda>_. -1)(44 := 1),
     ni_remote := (\<lambda>_. empty_entry)\<rparr>"
  let ?p = "\<lparr>ip_magic = NET_MAGIC, ip_type = 7, ip_count = 2, ip_epoch = 1, ip_want_epoch = 1,
     ip_start_frame = 0, ip_ack_frame = 0, ip_cfg_hash = 0, ip_frame_adv = 0,
     ip_blobs = replicate 32 neutral\<rparr>"
  have up: "[0..(1::int)] = [0, 1]" by (simp add: upto_rec1)
  have a: "\<not> (ni_active ni_init \<and> ni_epoch ni_init = 1)" by (simp add: ni_init_def)
  have d: "ni_delay (set_delay 2 ni_init) = 2" by (simp add: set_delay_def RING_def)
  have e: "demo_start = activate_epoch 0 2 1 ni_init"
    by (simp add: demo_start_def on_peer_epoch_def ni_init_def)
  have l: "q_get (ni_local ?st) 1 = Some neutral"
    unfolding e using qr.get_run [of 0 1 1 "\<lambda>_. neutral"]
    by (simp add: activate_epoch_def a do_reset_def seed_neutral_def Let_def d RING_def up)
  have i: "idx 300 = 44" by (simp add: idx_eq)
  have acc: "accepts ?st ?p" by (simp add: accepts_def NET_INPUT_REDUNDANCY_def demo_start_facts)
  show ?thesis
    using replay_sees_correction [OF _ _ _ _ _ l _ acc, of 300 0]
    by (simp add: demo_start_facts i Let_def q_get_def empty_entry_def)
qed

lemma find_upt_Some:
  "List.find P [0..<n] = Some k \<longleftrightarrow> k < n \<and> P k \<and> (\<forall>i<k. \<not> P i)"
  unfolding find_Some_iff by auto

lemma rollback_request_Some:
  "rollback_request st f = Some r \<longleftrightarrow> ni_efmap_ready st \<and> (\<exists>k. r = int k \<and> k < 256
     \<and> ni_net_for_engine st k = f \<and> (\<forall>i<k. ni_net_for_engine st i \<noteq> f))"
  unfolding rollback_request_def RING_def
  by (simp add: find_upt_Some) blast

lemma rollback_request_None:
  "ni_efmap_ready st \<Longrightarrow> k < 256 \<Longrightarrow> ni_net_for_engine st k = f \<Longrightarrow> rollback_request st f \<noteq> None"
  unfolding rollback_request_def RING_def
  by (auto simp: find_None_iff)

text \<open>
  The verdict on a guess. A late input for a frame that was simulated with a guess counts as
  a misprediction and asks for a rollback exactly when its bytes differ from the guess; the guess
  is then settled, so a second copy asks for nothing. The frame that is asked for is the slot of
  the 256-entry engine map, always below 256, whatever the engine's frame counter is.
\<close>

theorem late_input_verdict:
  assumes "0 \<le> f" "f < ni_net_frame st" "ni_was_pred st (idx f)"
    and "q_get (ni_remote st) f = None"
    and "ni_efmap_ready st" "k < 256" "ni_net_for_engine st k = f"
  shows "let (st', reqs) = store_remote f b (st, []) in
     q_get (ni_remote st') f = Some b
     \<and> ni_pred_wrong st' = ni_pred_wrong st + (if ni_pred st (idx f) = b then 0 else 1)
     \<and> (reqs = [] \<longleftrightarrow> ni_pred st (idx f) = b)
     \<and> (\<forall>r \<in> set reqs. 0 \<le> r \<and> r < 256 \<and> ni_net_for_engine st (nat r) = f)
     \<and> \<not> ni_was_pred st' (idx f)
     \<and> store_remote f b' (st', reqs) = (st', reqs)"
proof -
  let ?st1 = "st\<lparr>ni_remote := q_put f b (ni_remote st),
     ni_remote_high := (if ni_remote_high st < f then f else ni_remote_high st)\<rparr>"
  have st: "store_remote f b (st, []) = judge_prediction f b ?st1"
    using assms(1,4) by (auto simp: store_remote_def q_get_None_iff Let_def split_def)
  let ?st2 = "?st1\<lparr>ni_was_pred := (ni_was_pred st)(idx f := False)\<rparr>"
  have j: "fst (judge_prediction f b ?st1) = (if ni_pred st (idx f) = b then ?st2
      else ?st2\<lparr>ni_pred_wrong := ni_pred_wrong st + 1,
        ni_pred_depth_max := (if ni_pred_depth_max st < ni_net_frame st - f then ni_net_frame st - f
                              else ni_pred_depth_max st)\<rparr>)"
    "snd (judge_prediction f b ?st1) = (if ni_pred st (idx f) = b then []
      else case rollback_request ?st2 f of Some r \<Rightarrow> [r] | None \<Rightarrow> [])"
    using assms(2,3) by (simp_all add: judge_prediction_def Let_def)
  have req: "\<exists>r. rollback_request ?st2 f = Some r"
    using rollback_request_None [of ?st2 k f] assms(5-7) by auto
  have rng: "0 \<le> r \<and> r < 256 \<and> ni_net_for_engine st (nat r) = f"
    if "rollback_request ?st2 f = Some r" for r
    using that by (auto simp: rollback_request_Some)
  have again: "store_remote f b' sr = sr" if "ni_remote (fst sr) = q_put f b r0" for sr r0
    using that by (simp add: store_remote_def q_put_def Let_def split_def)
  have a: "store_remote f b' (judge_prediction f b ?st1) = judge_prediction f b ?st1"
    by (rule again) simp
  show ?thesis
    unfolding st Let_def split_def prod.collapse a j judge_prediction_fields
    using req rng by (auto simp: qr.get_put_same)
qed

theorem late_input_verdict_witness:
  "snd (store_remote 3 [1] (ni_init\<lparr>ni_net_frame := 5, ni_was_pred := (\<lambda>_. True),
     ni_efmap_ready := True, ni_net_for_engine := (\<lambda>i. if i = 9 then 3 else -1)\<rparr>, [])) \<noteq> []"
proof -
  have "q_get (ni_remote ni_init) 3 = None" "ni_pred ni_init i \<noteq> [1]" for i
    by (simp_all add: ni_init_def q_get_def empty_entry_def neutral_def BLOB_def replicate_eqI
        numeral_eq_Suc)
  then show ?thesis
    using late_input_verdict [of 3 "ni_init\<lparr>ni_net_frame := 5, ni_was_pred := (\<lambda>_. True),
      ni_efmap_ready := True, ni_net_for_engine := (\<lambda>i. if i = 9 then 3 else -1)\<rparr>" 9 "[1]"]
    by (auto simp: Let_def split_def)
qed

section \<open>TimeSync\<close>

lemma ts_decide_range:
  "ts_decide rnd a r ia ir = 0 \<or> TS_MIN \<le> ts_decide rnd a r ia ir \<and> ts_decide rnd a r ia ir \<le> TS_MAX"
  by (simp add: ts_decide_def Let_def TS_MIN_def TS_MAX_def)

lemma ts_decide_ahead:
  "ts_decide rnd a r ia ir = 0 \<or> a < r \<or> ia < ir"
  by (auto simp: ts_decide_def Let_def split: if_splits)

text \<open>
  TimeSync gives back nothing or between 2 and 9 frames, counts what it gives, and never
  before its 40-frame window is full. Seen from both ends with the same figures, at most one peer
  gives frames back as long as the mean and the instant agree on who is ahead; when they disagree
  both can (means 0 and 10, instants 10 and 0: each end takes the figure that puts it ahead).
\<close>

theorem timesync_gives_back:
  "let (give, st') = recommend_wait rnd st in
     (give = 0 \<or> 2 \<le> give \<and> give \<le> 9)
     \<and> ni_ts_frames_given st' = ni_ts_frames_given st + give
     \<and> ni_ts_corrections st' = ni_ts_corrections st + (if give = 0 then 0 else 1)
     \<and> (ni_ts_n st < 40 \<or> \<not> ni_active st \<longrightarrow> give = 0)
     \<and> (\<not> (a < r \<and> ir < ia) \<and> \<not> (r < a \<and> ia < ir)
          \<longrightarrow> ts_decide rnd a r ia ir = 0 \<or> ts_decide rnd r a ir ia = 0)
     \<and> ts_decide id 0 10 10 0 = 5 \<and> ts_decide id 10 0 0 10 = 5"
proof -
  have "\<not> (a < r \<and> ir < ia) \<and> \<not> (r < a \<and> ia < ir)
      \<longrightarrow> ts_decide rnd a r ia ir = 0 \<or> ts_decide rnd r a ir ia = 0"
    using ts_decide_ahead [of rnd a r ia ir] ts_decide_ahead [of rnd r a ir ia] by auto
  moreover have "\<lfloor>11 / (2::rat)\<rfloor> = 5" by (simp add: floor_eq_iff)
  then have "ts_decide id 0 10 10 0 = 5" "ts_decide id 10 0 0 10 = 5"
    by (simp_all add: ts_decide_def TS_MIN_def TS_MAX_def)
  ultimately show ?thesis
    using ts_decide_range [of rnd] unfolding recommend_wait_def Let_def TS_RING_def TS_MIN_def TS_MAX_def
    by (auto simp: split_def Let_def)
qed

theorem timesync_gives_back_witness:
  "ts_decide id 0 10 0 10 = 0 \<or> ts_decide id 10 0 10 0 = 0"
  using timesync_gives_back [of id ni_init 0 10 10 0] by (simp add: split_def Let_def)

section \<open>The type invariant over every run\<close>

text \<open>Every stored blob has its 12 bytes and every valid entry sits in the slot of its frame.\<close>

definition ring_ok :: "qring \<Rightarrow> bool" where
  "ring_ok r \<longleftrightarrow> (\<forall>i. length (qe_blob (r i)) = BLOB \<and> (qe_valid (r i) \<longrightarrow> idx (qe_frame (r i)) = i))"

lemma ring_ok_put [intro]: "ring_ok r \<Longrightarrow> length b = BLOB \<Longrightarrow> ring_ok (q_put f b r)"
  by (auto simp: ring_ok_def q_put_def)

lemma ring_ok_invalidate [intro]: "ring_ok r \<Longrightarrow> ring_ok (q_invalidate r)"
  by (auto simp: ring_ok_def q_invalidate_def)

lemma ring_ok_fold [intro]: "ring_ok r \<Longrightarrow> length b = BLOB \<Longrightarrow> ring_ok (fold (\<lambda>f. q_put f b) fs r)"
  by (induction fs arbitrary: r) auto

lemma ring_ok_get: "ring_ok r \<Longrightarrow> q_get r f = Some b \<Longrightarrow> length b = BLOB"
  by (auto simp: ring_ok_def q_get_def Let_def split: if_splits)

lemma length_neutral [simp]: "length neutral = BLOB"
  by (simp add: neutral_def)

definition ni_wf :: "net_input \<Rightarrow> bool" where
  "ni_wf st \<longleftrightarrow> ring_ok (ni_local st) \<and> ring_ok (ni_remote st)
     \<and> length (ni_last_local st) = BLOB \<and> length (ni_last_remote st) = BLOB
     \<and> (\<forall>i. length (ni_present st i) = BLOB) \<and> (\<forall>i. length (ni_pred st i) = BLOB)
     \<and> 0 \<le> ni_delay st \<and> ni_delay st < 128
     \<and> 0 \<le> ni_net_frame st \<and> -1 \<le> ni_last_captured st \<and> ni_last_captured st \<le> ni_net_frame st
     \<and> -1 \<le> ni_remote_high st \<and> ni_ts_n st \<le> TS_RING"

lemmas wf_simps = ni_wf_def

lemma wf_init: "ni_wf ni_init"
  by (simp add: ni_wf_def ni_init_def ring_ok_def empty_entry_def TS_RING_def)

lemma wf_set_delay: "ni_wf st \<Longrightarrow> ni_wf (set_delay d st)"
  by (auto simp: ni_wf_def set_delay_def RING_def)

lemma wf_do_reset: "ni_wf st \<Longrightarrow> ni_wf (do_reset st)"
  by (auto simp: ni_wf_def do_reset_def seed_neutral_def Let_def)

lemma wf_activate: "ni_wf st \<Longrightarrow> ni_wf (activate_epoch now d e st)"
  using wf_do_reset [OF wf_set_delay, of st d]
  by (auto simp: activate_epoch_def Let_def ni_wf_def)

lemma wf_propose: "ni_wf st \<Longrightarrow> ni_wf (fst (propose_epoch e d force st))"
  using wf_set_delay [of st] by (simp add: propose_epoch_def Let_def ni_wf_def)

lemma wf_on_peer_epoch: "ni_wf st \<Longrightarrow> ni_wf (fst (on_peer_epoch now e d st))"
  by (simp add: on_peer_epoch_def wf_activate)

lemma wf_send: "ni_wf st \<Longrightarrow> ni_wf (fst (send_input rtt cfg u st))"
  by (simp add: ni_wf_def)

lemma wf_pump: "ni_wf st \<Longrightarrow> ni_wf (fst (pump_stalled now rtt cfg st))"
  by (simp add: pump_stalled_def split_def ni_wf_def)

lemma wf_recommend: "ni_wf st \<Longrightarrow> ni_wf (snd (recommend_wait rnd st))"
  by (simp add: recommend_wait_def Let_def ni_wf_def)

lemma wf_advance: "ni_wf st \<Longrightarrow> ni_wf (advance_frame st)"
  by (auto simp: ni_wf_def advance_frame_def)

lemma wf_capture:
  assumes "ni_wf st" "\<forall>b. pad = Some b \<longrightarrow> length b = BLOB"
  shows "ni_wf (fst (capture pad rtt cfg st))"
proof -
  have b: "length (case pad of Some b \<Rightarrow> b | None \<Rightarrow> neutral) = BLOB"
    using assms(2) by (simp split: option.split)
  have "ring_ok (fold (\<lambda>f. q_put f (case pad of Some b \<Rightarrow> b | None \<Rightarrow> neutral)) fs (ni_local st))" for fs
    using assms(1) b by (intro ring_ok_fold) (simp add: ni_wf_def)
  then show ?thesis using assms(1) by (simp add: ni_wf_def capture_def Let_def split_def)
qed

lemma wf_feed: "ni_wf st \<Longrightarrow> ni_wf (feed_timesync rtt st)"
  by (auto simp: ni_wf_def feed_timesync_def Let_def TS_RING_def)

lemma wf_stamp: "ni_wf st \<Longrightarrow> ni_wf (stamp_engine_frame ef st)"
  by (auto simp: ni_wf_def stamp_engine_frame_def Let_def)

lemma wf_resolve_local:
  "ni_wf st \<Longrightarrow> ni_wf (fst (resolve_local st)) \<and> length (snd (resolve_local st)) = BLOB"
  using ring_ok_get [of "ni_local st"]
  by (auto simp: ni_wf_def resolve_local_def split: option.split)

lemma wf_resolve_remote:
  "ni_wf st \<Longrightarrow> ni_wf (fst (resolve_remote st)) \<and> length (snd (resolve_remote st)) = BLOB"
  using ring_ok_get [of "ni_remote st"]
  by (auto simp: ni_wf_def resolve_remote_def Let_def split: option.split)

lemma wf_present:
  "ni_wf st \<Longrightarrow> length l = BLOB \<Longrightarrow> length r = BLOB \<Longrightarrow> ni_wf (present_slots p2 l r st)"
  by (simp add: ni_wf_def present_slots_def)

lemma wf_frame_begin:
  assumes "ni_wf st" "\<forall>b. fe_pad e = Some b \<longrightarrow> length b = BLOB"
  shows "ni_wf (fst (on_frame_begin e st))"
proof -
  let ?s0 = "st\<lparr>ni_present_valid := False\<rparr>"
  have s0: "ni_wf ?s0" using assms(1) by (simp add: ni_wf_def)
  let ?s2 = "stamp_engine_frame (fe_engine_frame e) (feed_timesync (fe_rtt e)
     (fst (capture (fe_pad e) (fe_rtt e) (fe_cfg e) ?s0)))"
  have "ni_wf ?s2" using wf_capture [OF s0 assms(2)] by (intro wf_stamp wf_feed)
  with wf_resolve_local wf_resolve_remote s0 show ?thesis
    by (simp add: on_frame_begin_def Let_def split_def wf_present)
qed

lemma wf_judge:
  "ni_wf st \<Longrightarrow> ni_wf (fst (judge_prediction f b st))"
  by (simp add: ni_wf_def judge_prediction_def Let_def)

lemma wf_store:
  assumes "ni_wf (fst sr)" "length b = BLOB"
  shows "ni_wf (fst (store_remote f b sr))"
proof -
  have "ni_wf ((fst sr)\<lparr>ni_remote := q_put f b (ni_remote (fst sr)),
     ni_remote_high := (if ni_remote_high (fst sr) < f then f else ni_remote_high (fst sr))\<rparr>)"
    if "0 \<le> f" using assms that by (auto simp: ni_wf_def)
  then show ?thesis
    using assms(1) by (simp add: store_remote_def Let_def split_def wf_judge)
qed

lemma wf_recv:
  assumes "ni_wf st" "\<forall>b \<in> set (ip_blobs p). length b = BLOB"
    "length (ip_blobs p) = NET_INPUT_REDUNDANCY"
  shows "ni_wf (fst (on_recv_input now p st))"
proof -
  have "ni_wf (fst (recv_loop (ip_start_frame p) (ip_blobs p) n (s, [])))"
    if "ni_wf s" "n \<le> NET_INPUT_REDUNDANCY" for s n
    using that assms(2,3) by (intro for_range_invariant [where P = "\<lambda>sr. ni_wf (fst sr)"] wf_store) auto
  moreover have "ni_wf (s\<lparr>ni_peer_acked := x, ni_peer_adv := y, ni_recv := z\<rparr>)"
    "ni_wf (s\<lparr>ni_peer_adv := y, ni_recv := z\<rparr>)" if "ni_wf s" for s x y z
    using that by (simp_all add: ni_wf_def)
  ultimately have "ni_wf (fst (on_recv_input now p s))" if "accepts s p" "ni_wf s" for s
    using that unfolding on_recv_input_accepted [OF that(1)] Let_def accepts_def by auto
  then show ?thesis
    using assms(1) wf_activate by (subst on_recv_input_cases) (auto simp: Let_def)
qed

text \<open>Every interleaving of the operations, with any arguments the callers can pass.\<close>

inductive ni_reach :: "net_input \<Rightarrow> bool" where
  start: "ni_reach ni_init"
| propose: "ni_reach st \<Longrightarrow> ni_reach (fst (propose_epoch e d force st))"
| peer_epoch: "ni_reach st \<Longrightarrow> ni_reach (fst (on_peer_epoch now ep d st))"
| pump: "ni_reach st \<Longrightarrow> ni_reach (fst (pump_stalled now rtt cfg st))"
| wait: "ni_reach st \<Longrightarrow> ni_reach (snd (recommend_wait rnd st))"
| frame: "ni_reach st \<Longrightarrow> \<forall>b. fe_pad fe = Some b \<longrightarrow> length b = BLOB \<Longrightarrow>
    ni_reach (fst (on_frame_begin fe st))"
| advance: "ni_reach st \<Longrightarrow> ni_reach (advance_frame st)"
| stall: "ni_reach st \<Longrightarrow> ni_reach (note_stall st)"
| recv: "ni_reach st \<Longrightarrow> wf_input p \<Longrightarrow> ni_reach (fst (on_recv_input now p st))"

lemma ni_reach_wf: "ni_reach st \<Longrightarrow> ni_wf st"
proof (induction rule: ni_reach.induct)
  case (stall st)
  then show ?case by (simp add: ni_wf_def note_stall_def)
next
  case (recv st p now)
  then show ?case by (intro wf_recv) (auto simp: wf_input_def BLOB_def NET_INPUT_SIZE_def)
qed (auto intro: wf_init wf_propose wf_on_peer_epoch wf_pump wf_recommend wf_frame_begin wf_advance)

text \<open>
  C37. Whatever order the handlers run in, every blob the machine stores, predicts or presents
  has its 12 bytes, every valid ring entry sits in the slot of its own frame, the delay stays
  below half the ring and the capture never runs ahead of the frame clock.
\<close>

theorem net_input_invariant:
  assumes "ni_reach st"
  shows "ring_ok (ni_local st) \<and> ring_ok (ni_remote st)
    \<and> (\<forall>slot b. pad_present slot st = Some b \<longrightarrow> length b = 12)
    \<and> (\<forall>p2 slot ef b. pad_for_engine_frame p2 slot ef st = Some b \<longrightarrow> length b = 12)
    \<and> 0 \<le> ni_delay st \<and> ni_delay st < 128 \<and> ni_last_captured st \<le> ni_net_frame st
    \<and> ni_ts_n st \<le> 40"
proof -
  have wf: "ni_wf st" by (rule ni_reach_wf [OF assms])
  have "length b = 12" if "pad_for_engine_frame p2 slot ef st = Some b" for p2 slot ef b
    using that wf ring_ok_get [of "ni_local st"] ring_ok_get [of "ni_remote st"]
    by (auto simp: pad_for_engine_frame_def Let_def ni_wf_def BLOB_def neutral_def
        split: if_splits option.splits)
  with wf show ?thesis
    by (auto simp: ni_wf_def pad_present_def BLOB_def TS_RING_def split: if_splits)
qed

theorem net_input_invariant_witness: "ni_delay demo_start < 128"
  unfolding demo_start_def
  using net_input_invariant [OF ni_reach.peer_epoch [OF ni_reach.start]] by simp

end
