(* ===== verification/Transport.thy ===== *)
theory Transport
  imports Net_Input
begin

text \<open>
  The UDP wire of \<open>src/src/net_transport.cpp\<close>: one non-blocking socket that sends through the relay
  and, once hole-punching is allowed, straight to the peer. The socket calls are the operating
  system's; their results (did the call succeed, how many bytes, from which address) are arguments,
  and what is handed to \<open>sendto\<close> is part of a send's result. \<open>inet_pton\<close> is the parameter \<open>pton\<close>.
\<close>

type_synonym ip_port = "u32 \<times> u16"

record transport =
  tr_wsa :: bool
  tr_sock :: bool
  tr_relay :: ip_port
  tr_peer :: ip_port
  tr_have_peer :: bool
  tr_direct :: bool
  tr_last_direct :: u32

definition transport_init :: transport where
  "transport_init = \<lparr>tr_wsa = False, tr_sock = False, tr_relay = (0, 0), tr_peer = (0, 0),
     tr_have_peer = False, tr_direct = False, tr_last_direct = 0\<rparr>"

definition DIRECT_STALE_MS :: u32 where "DIRECT_STALE_MS = 1000"

definition addr_eq :: "ip_port \<Rightarrow> ip_port \<Rightarrow> bool" where
  "addr_eq a b \<longleftrightarrow> fst a = fst b \<and> snd a = snd b"

text \<open>What the three socket calls of \<open>transport_open\<close> answer.\<close>

record open_env =
  oe_wsa_ok :: bool
  oe_socket_ok :: bool
  oe_bind_ok :: bool

definition transport_open ::
  "(string \<Rightarrow> u32 option) \<Rightarrow> open_env \<Rightarrow> string \<Rightarrow> u16 \<Rightarrow> transport \<Rightarrow> transport \<times> bool" where
  "transport_open pton e remote_ip remote_port st0 =
     (if \<not> tr_wsa st0 \<and> \<not> oe_wsa_ok e then (st0, False)
      else
        let st1 = st0\<lparr>tr_wsa := True\<rparr>
        in if \<not> oe_socket_ok e then (st1\<lparr>tr_sock := False\<rparr>, False)
           else if \<not> oe_bind_ok e then (st1\<lparr>tr_sock := False\<rparr>, False)
           else (st1\<lparr>tr_sock := True,
                     tr_relay := (case pton remote_ip of Some ip \<Rightarrow> ip | None \<Rightarrow> fst (tr_relay st1), remote_port),
                     tr_have_peer := False, tr_direct := False\<rparr>, True))"

definition transport_close :: "transport \<Rightarrow> transport" where
  "transport_close st = st\<lparr>tr_sock := False, tr_have_peer := False, tr_direct := False\<rparr>"

definition transport_set_peer ::
  "(string \<Rightarrow> u32 option) \<Rightarrow> string \<Rightarrow> u16 \<Rightarrow> transport \<Rightarrow> transport" where
  "transport_set_peer pton peer_ip peer_port st =
     (case pton peer_ip of
        None \<Rightarrow> st
      | Some ip \<Rightarrow>
          let p = (ip, peer_port)
          in if tr_have_peer st \<and> addr_eq (tr_peer st) p then st
             else st\<lparr>tr_peer := p, tr_have_peer := True, tr_direct := False\<rparr>)"

text \<open>\<open>direct.on\<close> beside the executable, read once, or the rollback engine armed.\<close>

definition allow_direct :: "bool \<Rightarrow> bool \<Rightarrow> bool" where
  "allow_direct direct_on engine_armed = (if direct_on then True else engine_armed)"

definition direct_is_live :: "bool \<Rightarrow> u32 \<Rightarrow> transport \<Rightarrow> transport \<times> bool" where
  "direct_is_live allow now st =
     (if \<not> allow then (st, False)
      else if \<not> tr_direct st then (st, False)
      else if elapsed now (tr_last_direct st) < DIRECT_STALE_MS then (st, True)
      else (st\<lparr>tr_direct := False\<rparr>, False))"

text \<open>
  \<open>relay_n\<close> is what \<open>sendto\<close> to the relay returns. The result is the new state, the destinations the
  datagram was handed to, in order, and the returned flag.
\<close>

definition transport_send_raw ::
  "bool \<Rightarrow> u32 \<Rightarrow> int \<Rightarrow> int \<Rightarrow> transport \<Rightarrow> transport \<times> ip_port list \<times> bool" where
  "transport_send_raw allow now relay_n len st =
     (if \<not> tr_sock st then (st, [], False)
      else
        let (st1, live) = direct_is_live allow now st;
            n = (if live then len else relay_n)
        in (st1,
            (if live then [] else [tr_relay st1]) @
            (if tr_have_peer st1 \<and> allow then [tr_peer st1] else []),
            n = len))"

text \<open>What \<open>recvfrom\<close> delivers: a non-empty datagram, nothing, would-block, or an error.\<close>

datatype recv_result = Got ip_port "u8 list" | Got_Empty | Would_Block | Recv_Error

definition transport_recv_raw ::
  "bool \<Rightarrow> u32 \<Rightarrow> recv_result \<Rightarrow> transport \<Rightarrow> transport \<times> int" where
  "transport_recv_raw allow now res st =
     (if \<not> tr_sock st then (st, -1)
      else case res of
        Got from_addr bs \<Rightarrow>
          ((if tr_have_peer st \<and> allow \<and> addr_eq from_addr (tr_peer st)
            then st\<lparr>tr_last_direct := now, tr_direct := True\<rparr> else st), int (length bs))
      | Got_Empty \<Rightarrow> (st, 0)
      | Would_Block \<Rightarrow> (st, 0)
      | Recv_Error \<Rightarrow> (st, -1))"

section \<open>Runs of the transport\<close>

datatype tr_event =
    Ev_Open open_env string u16
  | Ev_Close
  | Ev_Peer string u16
  | Ev_Send bool u32 int int
  | Ev_Recv bool u32 recv_result

fun tr_step :: "(string \<Rightarrow> u32 option) \<Rightarrow> tr_event \<Rightarrow> transport \<Rightarrow> transport" where
  "tr_step pton (Ev_Open e ip port) st = fst (transport_open pton e ip port st)"
| "tr_step pton Ev_Close st = transport_close st"
| "tr_step pton (Ev_Peer ip port) st = transport_set_peer pton ip port st"
| "tr_step pton (Ev_Send allow now relay_n len) st = fst (transport_send_raw allow now relay_n len st)"
| "tr_step pton (Ev_Recv allow now res) st = fst (transport_recv_raw allow now res st)"

definition tr_run :: "(string \<Rightarrow> u32 option) \<Rightarrow> tr_event list \<Rightarrow> transport \<Rightarrow> transport" where
  "tr_run pton evs st = fold (tr_step pton) evs st"

text \<open>A direct path is believed in only on the evidence of a datagram from the current peer.\<close>

definition direct_evidence :: "tr_event list \<Rightarrow> transport \<Rightarrow> bool" where
  "direct_evidence evs st \<longleftrightarrow> (tr_direct st \<longrightarrow> tr_have_peer st \<and>
     (\<exists>bs. Ev_Recv True (tr_last_direct st) (Got (tr_peer st) bs) \<in> set evs))"

lemma direct_is_live_fields [simp]:
  "tr_have_peer (fst (direct_is_live a t st)) = tr_have_peer st"
  "tr_peer (fst (direct_is_live a t st)) = tr_peer st"
  "tr_relay (fst (direct_is_live a t st)) = tr_relay st"
  "tr_last_direct (fst (direct_is_live a t st)) = tr_last_direct st"
  by (simp_all add: direct_is_live_def)

lemma direct_evidence_mono: "direct_evidence evs st \<Longrightarrow> direct_evidence (evs @ [ev]) st"
  by (auto simp: direct_evidence_def)

lemma direct_evidence_off: "\<not> tr_direct st \<Longrightarrow> direct_evidence evs st"
  by (simp add: direct_evidence_def)

lemma direct_evidence_step:
  assumes "direct_evidence evs st"
  shows "direct_evidence (evs @ [ev]) (tr_step pton ev st)"
proof (cases ev)
  case (Ev_Recv allow now res)
  then show ?thesis
    using assms by (cases res) (auto simp: direct_evidence_def transport_recv_raw_def addr_eq_def
        prod_eq_iff)
next
  case (Ev_Send allow now relay_n len)
  then show ?thesis
    using assms by (auto simp: direct_evidence_def transport_send_raw_def direct_is_live_def split_def)
next
  case (Ev_Peer ip port)
  then show ?thesis
    using assms by (auto simp: direct_evidence_def transport_set_peer_def Let_def split: option.split)
next
  case (Ev_Open e ip port)
  then show ?thesis
    using assms by (auto simp: direct_evidence_def transport_open_def Let_def)
qed (simp add: direct_evidence_def transport_close_def)

lemma direct_evidence_run: "direct_evidence evs (tr_run pton evs transport_init)"
proof (induction evs rule: rev_induct)
  case Nil
  then show ?case by (simp add: tr_run_def direct_evidence_def transport_init_def)
next
  case (snoc ev evs)
  then show ?case using direct_evidence_step [OF snoc] by (simp add: tr_run_def)
qed

text \<open>
  A half-open punch never strands the session: after any history, a datagram sent on an open
  socket is handed to the relay, unless direct traffic is allowed and a datagram from the peer's
  own address arrived less than a second before; then it is handed to the peer. Every send on an
  open socket has a destination.
\<close>

theorem relay_fallback:
  assumes "st = tr_run pton evs transport_init" "tr_sock st"
    and "transport_send_raw allow now relay_n len st = (st', dests, ok)"
  shows "dests \<noteq> []
    \<and> (tr_relay st \<in> set dests
       \<or> allow \<and> dests = [tr_peer st]
         \<and> (\<exists>t bs. Ev_Recv True t (Got (tr_peer st) bs) \<in> set evs \<and> elapsed now t < 1000))
    \<and> (tr_have_peer st \<and> allow \<longrightarrow> tr_peer st \<in> set dests)"
  using assms direct_evidence_run [of evs pton]
  by (auto simp: transport_send_raw_def direct_is_live_def direct_evidence_def DIRECT_STALE_MS_def
      Let_def split: if_splits)

theorem relay_fallback_witness:
  "fst (snd (transport_send_raw True 5 3 3 (tr_run (\<lambda>_. Some 7)
     [Ev_Open \<lparr>oe_wsa_ok = True, oe_socket_ok = True, oe_bind_ok = True\<rparr> ''1.1.1.1'' 9] transport_init))) \<noteq> []"
proof -
  let ?evs = "[Ev_Open \<lparr>oe_wsa_ok = True, oe_socket_ok = True, oe_bind_ok = True\<rparr> ''1.1.1.1'' 9]"
  let ?st = "tr_run (\<lambda>_. Some 7) ?evs transport_init"
  have "tr_sock ?st" by (simp add: tr_run_def transport_open_def transport_init_def Let_def)
  from relay_fallback [OF refl this, of True 5 3 3] show ?thesis
    by (metis prod.collapse)
qed

end
