(* ===== verification/Engine_Arm.thy ===== *)
theory Engine_Arm
  imports Net_Input
begin

text \<open>
  The one-press, both-peers rollback arm of \<open>src/src/net_engine_arm.cpp\<close>: a proposal names a net
  frame some frames ahead, both machines arm on it, and a disarm is collective. The net frame,
  the clock and whether the session runs are arguments; packets handed to the transport are part
  of the result.
\<close>

definition ARM_LEAD_FRAMES :: int where "ARM_LEAD_FRAMES = 12"
definition RESEND_MS :: u32 where "RESEND_MS = 100"
definition DISARM_STAMP :: u32 where "DISARM_STAMP = 0xFFFFFFFF"

record engine_arm =
  ea_armed :: bool
  ea_pending :: bool
  ea_target :: int
  ea_last_send :: u32
  ea_disarm_req :: bool

definition arm_init :: engine_arm where
  "arm_init = \<lparr>ea_armed = False, ea_pending = False, ea_target = -1, ea_last_send = 0,
     ea_disarm_req = False\<rparr>"

definition send_proposal :: "u32 \<Rightarrow> engine_arm \<Rightarrow> engine_arm \<times> packet list" where
  "send_proposal now st =
     (st\<lparr>ea_last_send := now\<rparr>, [mk_packet MSG_ENGINE_ARM 0 (word_of_int (ea_target st))])"

definition propose :: "bool \<Rightarrow> int \<Rightarrow> u32 \<Rightarrow> engine_arm \<Rightarrow> engine_arm \<times> packet list" where
  "propose running net_frame now st =
     (if ea_armed st then (st, [])
      else if ea_pending st then send_proposal now st
      else if \<not> running then (st\<lparr>ea_target := -1, ea_pending := True\<rparr>, [])
      else send_proposal now (st\<lparr>ea_target := net_frame + ARM_LEAD_FRAMES, ea_pending := True\<rparr>))"

definition on_peer_propose :: "u32 \<Rightarrow> u32 \<Rightarrow> engine_arm \<Rightarrow> engine_arm \<times> packet list" where
  "on_peer_propose now target_frame st =
     (if ea_armed st then (st, [])
      else
        let t = sint target_frame in
        if ea_pending st \<and> ea_target st \<le> t
        then (if RESEND_MS \<le> elapsed now (ea_last_send st) then send_proposal now st else (st, []))
        else send_proposal now (st\<lparr>ea_target := t, ea_pending := True\<rparr>))"

definition tick_should_arm :: "int \<Rightarrow> u32 \<Rightarrow> engine_arm \<Rightarrow> engine_arm \<times> packet list \<times> bool" where
  "tick_should_arm net_frame now st0 =
     (if ea_armed st0 \<or> \<not> ea_pending st0 then (st0, [], False)
      else
        let (st, ps) = (if RESEND_MS \<le> elapsed now (ea_last_send st0)
                        then send_proposal now st0 else (st0, []))
        in if 0 \<le> ea_target st \<and> net_frame < ea_target st then (st, ps, False)
           else (st\<lparr>ea_pending := False, ea_armed := True\<rparr>, ps, True))"

definition propose_disarm :: "bool \<Rightarrow> engine_arm \<Rightarrow> engine_arm \<times> packet list" where
  "propose_disarm running st =
     (if \<not> ea_armed st \<and> \<not> ea_pending st then (st, [])
      else (st\<lparr>ea_pending := False, ea_disarm_req := True\<rparr>,
            if running then [mk_packet MSG_ENGINE_ARM 0 DISARM_STAMP] else []))"

definition on_peer_disarm :: "engine_arm \<Rightarrow> engine_arm" where
  "on_peer_disarm st =
     (if \<not> ea_armed st \<and> \<not> ea_pending st then st
      else st\<lparr>ea_pending := False, ea_disarm_req := True\<rparr>)"

definition consume_disarm :: "engine_arm \<Rightarrow> engine_arm \<times> bool" where
  "consume_disarm st =
     (if \<not> ea_disarm_req st then (st, False)
      else (st\<lparr>ea_disarm_req := False, ea_armed := False\<rparr>, True))"

text \<open>The receive dispatch of \<open>session_pump\<close> for MSG_ENGINE_ARM.\<close>

definition recv_arm :: "u32 \<Rightarrow> packet \<Rightarrow> engine_arm \<Rightarrow> engine_arm \<times> packet list" where
  "recv_arm now p st =
     (if pk_stamp_ms p = 0xFFFFFFFF then (on_peer_disarm st, [])
      else on_peer_propose now (pk_stamp_ms p) st)"

section \<open>Facts\<close>

lemma send_proposal_simps [simp]:
  "fst (send_proposal now st) = st\<lparr>ea_last_send := now\<rparr>"
  "snd (send_proposal now st) = [mk_packet MSG_ENGINE_ARM 0 (word_of_int (ea_target st))]"
  by (simp_all add: send_proposal_def)

text \<open>An arm that is agreed on frame \<open>T\<close> and not yet performed.\<close>

definition agreed :: "int \<Rightarrow> engine_arm \<Rightarrow> bool" where
  "agreed T st \<longleftrightarrow> ea_pending st \<and> \<not> ea_armed st \<and> ea_target st = T"

lemma peer_propose_earliest:
  assumes "\<not> ea_armed st" "- (2 ^ 31) \<le> t" "t < 2 ^ 31"
  shows "agreed (if ea_pending st then min (ea_target st) t else t)
    (fst (on_peer_propose now (word_of_int t) st))"
  using assms by (auto simp: on_peer_propose_def agreed_def Let_def min_def)

lemma tick_agreed:
  assumes "agreed T st" "0 \<le> T"
  shows "snd (snd (tick_should_arm f now st)) \<longleftrightarrow> T \<le> f"
    "f < T \<Longrightarrow> agreed T (fst (tick_should_arm f now st))"
    "T \<le> f \<Longrightarrow> ea_armed (fst (tick_should_arm f now st)) \<and> \<not> ea_pending (fst (tick_should_arm f now st))"
  using assms by (auto simp: tick_should_arm_def agreed_def split_def Let_def)

lemma tick_idle: "ea_armed st \<or> \<not> ea_pending st \<Longrightarrow> tick_should_arm f now st = (st, [], False)"
  by (simp add: tick_should_arm_def)

text \<open>
  A machine polls \<open>tick_should_arm\<close> once per frame; \<open>fired\<close> lists the frames on which it answered
  yes. Each poll has the frame and the clock it reads.
\<close>

fun fired :: "(int \<times> u32) list \<Rightarrow> engine_arm \<Rightarrow> int list" where
  "fired [] st = []"
| "fired ((f, now) # ps) st =
     (let (st', _, b) = tick_should_arm f now st in (if b then [f] else []) @ fired ps st')"

lemma fired_armed: "ea_armed st \<or> \<not> ea_pending st \<Longrightarrow> fired ps st = []"
proof (induction ps)
  case (Cons p ps)
  then show ?case by (cases p) (simp add: tick_idle)
qed simp

lemma fired_agreed:
  assumes "agreed T st" "0 \<le> T"
  shows "fired ps st = (case List.find (\<lambda>p. T \<le> fst p) ps of Some p \<Rightarrow> [fst p] | None \<Rightarrow> [])"
  using assms(1)
proof (induction ps arbitrary: st)
  case Nil
  then show ?case by simp
next
  case (Cons p ps)
  obtain f now where p: "p = (f, now)" by force
  show ?case
  proof (cases "T \<le> f")
    case True
    then have "fired ps (fst (tick_should_arm f now st)) = []"
      using tick_agreed(3) [OF Cons.prems assms(2)] by (intro fired_armed) blast
    with True tick_agreed(1) [OF Cons.prems assms(2), of f now] show ?thesis
      by (simp add: p split_def)
  next
    case False
    with Cons tick_agreed(1,2) [OF Cons.prems assms(2), of f now] show ?thesis
      by (simp add: p split_def)
  qed
qed

lemma find_reach:
  assumes "map fst ps = [n..m]" "n \<le> T" "T \<le> m"
  shows "\<exists>c. List.find (\<lambda>p. T \<le> fst p) ps = Some (T, c)"
  using assms
proof (induction ps arbitrary: n)
  case Nil
  then show ?case by simp
next
  case (Cons p ps)
  from Cons.prems have nm: "n \<le> m" by simp
  with Cons.prems(1) have "fst p = n" "map fst ps = [n + 1..m]"
    by (simp_all add: upto_rec1)
  with Cons.IH [of "n + 1"] Cons.prems(2,3) show ?case by (cases p) auto
qed

text \<open>
  C31. One press arms both engines on the same frame. Whatever proposals the two machines have
  made, once each has received the other's, both polls answer yes exactly once, on the earlier of
  the two proposed frames, as the frame counters pass it one by one; the clocks do not matter.
\<close>

theorem both_arm_on_same_frame:
  assumes "agreed Ta A" "agreed Tb B" "0 \<le> Ta" "Ta < 2 ^ 31" "0 \<le> Tb" "Tb < 2 ^ 31"
    and "A' = fst (recv_arm na (mk_packet MSG_ENGINE_ARM 0 (word_of_int Tb)) A)"
    and "B' = fst (recv_arm nb (mk_packet MSG_ENGINE_ARM 0 (word_of_int Ta)) B)"
    and "map fst ps = [n..m]" "map fst qs = [k..j]"
    and "n \<le> min Ta Tb" "k \<le> min Ta Tb" "min Ta Tb \<le> m" "min Ta Tb \<le> j"
  shows "fired ps A' = [min Ta Tb] \<and> fired qs B' = [min Ta Tb]"
proof -
  have stamp: "word_of_int T \<noteq> (0xFFFFFFFF :: u32)" if "0 \<le> T" "T < 2 ^ 31" for T
  proof
    assume e: "word_of_int T = (0xFFFFFFFF :: u32)"
    have "sint (word_of_int T :: u32) = T" using that by (intro sint_word_of_int32) auto
    with e that show False by simp
  qed
  have "agreed (min Ta Tb) A'"
    using peer_propose_earliest [of A Tb na] assms stamp [of Tb]
    by (simp add: recv_arm_def mk_packet_def agreed_def)
  moreover have "agreed (min Ta Tb) B'"
    using peer_propose_earliest [of B Ta nb] assms stamp [of Ta]
    by (simp add: recv_arm_def mk_packet_def agreed_def min.commute)
  moreover have "\<exists>c. List.find (\<lambda>p. min Ta Tb \<le> fst p) ps = Some (min Ta Tb, c)"
    "\<exists>c. List.find (\<lambda>p. min Ta Tb \<le> fst p) qs = Some (min Ta Tb, c)"
    using find_reach assms(9-14) by blast+
  ultimately show ?thesis
    using assms(3,5) by (auto simp: fired_agreed split: option.splits)
qed

theorem both_arm_on_same_frame_witness:
  "fired [(10, 0), (11, 16), (12, 33), (13, 50)]
     (fst (recv_arm 0 (mk_packet MSG_ENGINE_ARM 0 12) (fst (propose True 3 0 arm_init)))) = [12]"
proof -
  have A: "agreed 15 (fst (propose True 3 0 arm_init))" and B: "agreed 12 (fst (propose True 0 0 arm_init))"
    by (simp_all add: agreed_def propose_def arm_init_def ARM_LEAD_FRAMES_def)
  have m: "map fst [(10, 0), (11, 16), (12, 33), (13, 50 :: u32)] = [10..13 :: int]"
    by (simp add: upto_rec1)
  show ?thesis
    using both_arm_on_same_frame [OF A B _ _ _ _ refl refl m m, of 0 0] by simp
qed

text \<open>
  A solo arm is not solo while the session is still synchronising: the first poll after it
  sends the peer a packet whose stamp is the disarm sentinel, and a peer with an armed or pending
  engine that receives it drops its engine on its next tick.
\<close>

theorem solo_arm_disarms_peer:
  assumes "\<not> ea_armed A" "\<not> ea_pending A" "100 \<le> elapsed now (ea_last_send A)"
    and "ea_armed B \<or> ea_pending B"
  shows "let A1 = fst (propose False f now0 A); (A2, ps, fire) = tick_should_arm f now A1 in
     fire \<and> ea_armed A2 \<and> ps = [mk_packet MSG_ENGINE_ARM 0 DISARM_STAMP]
     \<and> (let B1 = fst (recv_arm t (hd ps) B); (B2, drop) = consume_disarm B1
        in drop \<and> \<not> ea_armed B2 \<and> \<not> ea_pending B2)"
  using assms
  by (auto simp: propose_def tick_should_arm_def recv_arm_def on_peer_disarm_def consume_disarm_def
      send_proposal_def mk_packet_def DISARM_STAMP_def RESEND_MS_def Let_def)

theorem solo_arm_disarms_peer_witness:
  "fst (snd (tick_should_arm 7 500 (fst (propose False 7 400 arm_init))))
     = [mk_packet MSG_ENGINE_ARM 0 DISARM_STAMP]"
  using solo_arm_disarms_peer [of arm_init 500 "arm_init\<lparr>ea_armed := True\<rparr>" 7 400 0]
  by (simp add: arm_init_def elapsed_def Let_def split_def)

end
