(* ===== verification/Net_Sync.thy ===== *)
theory Net_Sync
  imports Net_Input
begin

text \<open>
  The forced match seed of \<open>src/src/net_sync.cpp\<close>: when armed, the hook on the game's seed setter
  substitutes the shared seed once and proposes a fresh timeline. The game's setter is the
  original function; \<open>hk_seed_setter\<close> returns the seed it is called with and, when the seed was
  forced, the delay of the epoch proposal that follows.
\<close>

record net_sync =
  ns_armed :: bool
  ns_seed :: u32
  ns_delay :: int
  ns_forced :: nat

definition sync_init :: net_sync where
  "sync_init = \<lparr>ns_armed = False, ns_seed = 0, ns_delay = 2, ns_forced = 0\<rparr>"

definition hk_seed_setter :: "u32 \<Rightarrow> net_sync \<Rightarrow> net_sync \<times> u32 \<times> int option" where
  "hk_seed_setter seed st =
     (if ns_armed st
      then (st\<lparr>ns_armed := False, ns_forced := ns_forced st + 1\<rparr>, ns_seed st, Some (ns_delay st))
      else (st, seed, None))"

definition sync_arm :: "u32 \<Rightarrow> int \<Rightarrow> net_sync \<Rightarrow> net_sync \<times> packet list" where
  "sync_arm seed delay st =
     (st\<lparr>ns_seed := seed, ns_delay := delay, ns_armed := True\<rparr>,
      [mk_packet MSG_BEGIN (word_of_int delay) seed])"

definition peer_arm :: "u32 \<Rightarrow> int \<Rightarrow> net_sync \<Rightarrow> net_sync" where
  "peer_arm seed delay st = st\<lparr>ns_seed := seed, ns_delay := delay, ns_armed := True\<rparr>"

lemma forced_once:
  "ns_armed st \<Longrightarrow> fst (snd (hk_seed_setter s st)) = ns_seed st"
  "ns_armed st \<Longrightarrow> fst (snd (hk_seed_setter s' (fst (hk_seed_setter s st)))) = s'"
  by (simp_all add: hk_seed_setter_def)

end
