(* ===== verification/C_Strings.thy ===== *)
theory C_Strings
  imports Prelude
begin

text \<open>
  The C string functions the sources call, on HOL strings: a C string is the text up to its
  first NUL. Used by the configuration parsers of \<open>src/src/net_config.cpp\<close> and \<open>role.cpp\<close> and by the
  peer-address parser of \<open>net_session.cpp\<close>.
\<close>

definition c_str :: "string \<Rightarrow> string" where
  "c_str s = takeWhile (\<lambda>c. c \<noteq> CHR 0x00) s"

definition bytes_str :: "u8 list \<Rightarrow> string" where
  "bytes_str bs = map (\<lambda>b. char_of (unat b)) bs"

text \<open>\<open>strstr\<close> and \<open>strchr\<close> yield the rest of the text from the match on.\<close>

fun strstr :: "string \<Rightarrow> string \<Rightarrow> string option" where
  "strstr [] pat = (if pat = [] then Some [] else None)"
| "strstr (c # s) pat = (if take (length pat) (c # s) = pat then Some (c # s) else strstr s pat)"

fun strchr :: "string \<Rightarrow> char \<Rightarrow> string option" where
  "strchr [] x = None"
| "strchr (c # s) x = (if c = x then Some (c # s) else strchr s x)"

definition c_tolower :: "char \<Rightarrow> char" where
  "c_tolower c = (let n = of_char c :: nat in if 65 \<le> n \<and> n \<le> 90 then char_of (n + 32) else c)"

definition stricmp_eq :: "string \<Rightarrow> string \<Rightarrow> bool" where
  "stricmp_eq a b \<longleftrightarrow> map c_tolower a = map c_tolower b"

definition strnicmp_eq :: "nat \<Rightarrow> string \<Rightarrow> string \<Rightarrow> bool" where
  "strnicmp_eq n a b \<longleftrightarrow> map c_tolower (take n a) = map c_tolower (take n b)"

definition strncpy_cap :: "nat \<Rightarrow> string \<Rightarrow> string" where
  "strncpy_cap cap src = take (cap - 1) src"

text \<open>\<open>atoi\<close>: white space, an optional sign, then the longest run of digits.\<close>

definition is_space :: "char \<Rightarrow> bool" where
  "is_space c \<longleftrightarrow> c = CHR '' '' \<or> (9 \<le> (of_char c :: nat) \<and> (of_char c :: nat) \<le> 13)"

definition is_digit :: "char \<Rightarrow> bool" where
  "is_digit c \<longleftrightarrow> 48 \<le> (of_char c :: nat) \<and> (of_char c :: nat) \<le> 57"

definition digits_value :: "string \<Rightarrow> int" where
  "digits_value ds = fold (\<lambda>c acc. acc * 10 + (of_char c - 48)) ds 0"

definition atoi :: "string \<Rightarrow> int" where
  "atoi s = (case dropWhile is_space s of
       [] \<Rightarrow> 0
     | c # r \<Rightarrow> if c = CHR ''-'' then - digits_value (takeWhile is_digit r)
                else if c = CHR ''+'' then digits_value (takeWhile is_digit r)
                else digits_value (takeWhile is_digit (c # r)))"

text \<open>\<open>fgets\<close> with a buffer of \<open>cap\<close> bytes: up to a newline (kept) or \<open>cap - 1\<close> characters.\<close>

fun fgets_one :: "nat \<Rightarrow> string \<Rightarrow> string \<times> string" where
  "fgets_one 0 s = ([], s)"
| "fgets_one (Suc n) [] = ([], [])"
| "fgets_one (Suc n) (c # s) =
     (if c = CHR 0x0A then ([c], s)
      else let (l, r) = fgets_one n s in (c # l, r))"

lemma fgets_one_split: "fgets_one n s = (l, r) \<Longrightarrow> l @ r = s \<and> length l \<le> n"
  by (induction n s arbitrary: l r rule: fgets_one.induct)
    (auto simp: Let_def split: if_splits prod.splits)

lemma fgets_one_shorter:
  assumes "s \<noteq> []"
  shows "length (snd (fgets_one (Suc n) s)) < length s"
proof (cases s)
  case (Cons c t)
  obtain l r where lr: "fgets_one n t = (l, r)" by force
  with fgets_one_split [OF lr] show ?thesis by (auto simp: Cons Let_def)
qed (use assms in simp)

function fgets_lines :: "nat \<Rightarrow> string \<Rightarrow> string list" where
  "fgets_lines n s =
     (if s = [] then []
      else let (l, r) = fgets_one (Suc n) s in l # fgets_lines n r)"
  by auto
termination
proof (relation "measure (\<lambda>(n, s). length s)")
  fix n :: nat and s l r :: string and x
  assume "s \<noteq> []" "x = fgets_one (Suc n) s" "(l, r) = x"
  then show "((n, r), n, s) \<in> measure (\<lambda>(n, s). length s)"
    using fgets_one_shorter [of s n] by (metis case_prod_conv in_measure snd_conv)
qed simp

declare fgets_lines.simps [simp del]

lemma fgets_lines_concat: "concat (fgets_lines n s) = s"
proof (induction n s rule: fgets_lines.induct)
  case (1 n s)
  show ?case
  proof (cases "s = []")
    case False
    obtain l r where lr: "fgets_one (Suc n) s = (l, r)" by force
    with 1 False fgets_one_split [OF lr] show ?thesis
      by (subst fgets_lines.simps) simp
  qed (simp add: fgets_lines.simps)
qed

section \<open>Decimal numbers\<close>

fun show_nat :: "nat \<Rightarrow> string" where
  "show_nat n = (if n < 10 then [char_of (48 + n)] else show_nat (n div 10) @ [char_of (48 + n mod 10)])"

declare show_nat.simps [simp del]

lemma is_digit_char: "n < 10 \<Longrightarrow> is_digit (char_of (48 + n :: nat))"
  by (simp add: is_digit_def)

lemma show_nat_digits: "\<forall>c \<in> set (show_nat n). is_digit c"
proof (induction n rule: show_nat.induct)
  case (1 n)
  then show ?case by (subst show_nat.simps) (auto simp: is_digit_char)
qed

lemma show_nat_nonempty [simp]: "show_nat n \<noteq> []"
  by (simp add: show_nat.simps [of n])

lemma digits_value_snoc: "digits_value (ds @ [c]) = digits_value ds * 10 + (of_char c - 48)"
  by (simp add: digits_value_def)

lemma of_char_digit: "n < 10 \<Longrightarrow> (of_char (char_of (48 + n :: nat)) :: int) = 48 + int n"
proof -
  assume "n < 10"
  have "(of_char (char_of (48 + n :: nat)) :: int) = int (of_char (char_of (48 + n :: nat)))"
    by (simp only: of_nat_of_char)
  also have "\<dots> = 48 + int n" using \<open>n < 10\<close> by simp
  finally show ?thesis .
qed

lemma digits_value_show: "digits_value (show_nat n) = int n"
proof (induction n rule: show_nat.induct)
  case (1 n)
  show ?case
  proof (cases "n < 10")
    case True
    then show ?thesis
      by (subst show_nat.simps) (simp add: digits_value_def of_char_digit)
  next
    case False
    with 1 have "digits_value (show_nat n) = int (n div 10) * 10 + int (n mod 10)"
      by (subst show_nat.simps) (simp add: digits_value_snoc of_char_digit)
    then show ?thesis by (simp add: zdiv_int zmod_int)
  qed
qed

lemma digit_not_space: "is_digit c \<Longrightarrow> \<not> is_space c \<and> c \<noteq> CHR ''-'' \<and> c \<noteq> CHR ''+''"
  by (auto simp: is_digit_def is_space_def)

text \<open>\<open>atoi\<close> reads back a printed number up to the first character that is not a digit.\<close>

lemma atoi_show:
  assumes "rest = [] \<or> \<not> is_digit (hd rest)"
  shows "atoi (show_nat n @ rest) = int n"
proof -
  obtain c r where cr: "show_nat n = c # r" by (cases "show_nat n") auto
  have tw: "takeWhile is_digit (show_nat n @ rest) = show_nat n"
    using assms show_nat_digits [of n] by (cases rest) (auto simp: takeWhile_append)
  have "is_digit c" using show_nat_digits [of n] by (simp add: cr)
  with digit_not_space [of c] have "atoi (show_nat n @ rest) = digits_value (takeWhile is_digit (show_nat n @ rest))"
    by (simp add: atoi_def cr)
  then show ?thesis by (simp add: tw digits_value_show)
qed

end
