(* ===== verification/Config.thy ===== *)
theory Config
  imports C_Strings
begin

text \<open>
  The configuration file \<open>netplay.cfg\<close> as \<open>src/src/net_config.cpp\<close> parses it, and the role of the
  machine as \<open>src/src/role.cpp\<close> decides it. The file's text (None when it cannot be opened), the
  environment variable and the module path are arguments; a read port is \<open>atoi\<close> cut to 16 bits.
\<close>

record config =
  cf_present :: bool
  cf_mode :: string
  cf_local_port :: u16
  cf_peer_ip :: string
  cf_peer_port :: u16
  cf_relay_ip :: string
  cf_relay_port :: u16
  cf_code :: string

definition config_default :: config where
  "config_default = \<lparr>cf_present = False, cf_mode = ''direct'', cf_local_port = 0, cf_peer_ip = [],
     cf_peer_port = 0, cf_relay_ip = [], cf_relay_port = 0, cf_code = []\<rparr>"

definition is_blank :: "char \<Rightarrow> bool" where
  "is_blank c \<longleftrightarrow> c = CHR '' '' \<or> c = CHR 0x09"

definition is_trail :: "char \<Rightarrow> bool" where
  "is_trail c \<longleftrightarrow> is_blank c \<or> c = CHR 0x0D \<or> c = CHR 0x0A"

definition trim :: "string \<Rightarrow> string" where
  "trim s = (let t = dropWhile is_blank s in rev (dropWhile is_trail (rev t)))"

definition set_key :: "string \<Rightarrow> string \<Rightarrow> config \<Rightarrow> config" where
  "set_key key val c =
     (if key = ''mode'' then c\<lparr>cf_mode := strncpy_cap 16 val\<rparr>
      else if key = ''local_port'' then c\<lparr>cf_local_port := word_of_int (atoi val)\<rparr>
      else if key = ''peer_ip'' then c\<lparr>cf_peer_ip := strncpy_cap 64 val\<rparr>
      else if key = ''peer_port'' then c\<lparr>cf_peer_port := word_of_int (atoi val)\<rparr>
      else if key = ''relay_ip'' then c\<lparr>cf_relay_ip := strncpy_cap 64 val\<rparr>
      else if key = ''relay_port'' then c\<lparr>cf_relay_port := word_of_int (atoi val)\<rparr>
      else if key = ''code'' then c\<lparr>cf_code := strncpy_cap 32 val\<rparr>
      else c)"

definition config_line :: "string \<Rightarrow> config \<Rightarrow> config" where
  "config_line line c =
     (let p = trim (c_str line) in
      if p = [] \<or> hd p = CHR ''#'' \<or> hd p = CHR '';'' then c
      else case strchr p (CHR ''='') of
        None \<Rightarrow> c
      | Some eq \<Rightarrow> set_key (trim (takeWhile (\<lambda>x. x \<noteq> CHR ''='') p)) (trim (tl eq)) c)"

text \<open>\<open>net_config::get\<close>: every line \<open>fgets\<close> yields with its 256-byte buffer, in order.\<close>

definition get_config :: "string option \<Rightarrow> config" where
  "get_config file =
     (case file of
        None \<Rightarrow> config_default
      | Some txt \<Rightarrow> fold config_line (fgets_lines 254 txt) (config_default\<lparr>cf_present := True\<rparr>))"

section \<open>Role\<close>

text \<open>Some True for P2, Some False for P1, None when the file does not say.\<close>

fun role_lines :: "string list \<Rightarrow> bool option" where
  "role_lines [] = None"
| "role_lines (line # ls) =
     (let p = dropWhile is_blank (c_str line) in
      if p \<noteq> [] \<and> (hd p = CHR ''#'' \<or> hd p = CHR '';'') then role_lines ls
      else if \<not> strnicmp_eq 4 p ''role'' then role_lines ls
      else case strchr p (CHR ''='') of
        None \<Rightarrow> role_lines ls
      | Some eq \<Rightarrow> Some (strnicmp_eq 2 (dropWhile is_blank (tl eq)) ''P2''))"

definition role_from_cfg :: "string option \<Rightarrow> bool option" where
  "role_from_cfg file = (case file of None \<Rightarrow> None | Some txt \<Rightarrow> role_lines (fgets_lines 254 txt))"

text \<open>\<open>role::init\<close>: the environment variable, then the file, then the path of the module.\<close>

definition role_is_p2 :: "string option \<Rightarrow> string option \<Rightarrow> string \<Rightarrow> bool" where
  "role_is_p2 env file path =
     (case env of
        Some v \<Rightarrow> stricmp_eq v ''P2''
      | None \<Rightarrow>
          (case role_from_cfg file of
             Some p2 \<Rightarrow> p2
           | None \<Rightarrow> strstr (map c_tolower path) ''umvc3-p2'' \<noteq> None))"

definition role_name :: "bool \<Rightarrow> string" where
  "role_name p2 = [CHR ''P'', if p2 then CHR ''2'' else CHR ''1'']"

section \<open>Facts\<close>

text \<open>A string the parser gives back unchanged: no white space at either end, no line end, NUL or '='.\<close>

definition clean :: "string \<Rightarrow> bool" where
  "clean s \<longleftrightarrow> s \<noteq> [] \<and> \<not> is_trail (hd s) \<and> \<not> is_trail (last s)
     \<and> (\<forall>c \<in> set s. c \<noteq> CHR 0x00 \<and> c \<noteq> CHR 0x0A \<and> c \<noteq> CHR ''='')"

lemma blank_trail: "is_blank c \<Longrightarrow> is_trail c"
  by (simp add: is_trail_def)

lemma trim_clean: "clean s \<Longrightarrow> trim s = s"
proof -
  assume "clean s"
  then have "s \<noteq> []" "\<not> is_blank (hd s)" "\<not> is_trail (last s)"
    by (auto simp: clean_def is_trail_def)
  then have "dropWhile is_blank s = s" "dropWhile is_trail (rev s) = rev s"
    by (simp_all add: dropWhile_eq_self_iff hd_rev)
  then show ?thesis by (simp add: trim_def)
qed

lemma strchr_append: "x \<notin> set a \<Longrightarrow> strchr (a @ x # b) x = Some (x # b)"
  by (induction a) auto

lemma c_str_id: "\<forall>c \<in> set s. c \<noteq> CHR 0x00 \<Longrightarrow> c_str s = s"
  by (simp add: c_str_def takeWhile_eq_all_conv)

lemma config_line_set:
  assumes "clean key" "clean val" "hd key \<noteq> CHR ''#''" "hd key \<noteq> CHR '';''"
  shows "config_line (key @ ''='' @ val @ [CHR 0x0A]) c = set_key key val c"
proof -
  have ne: "key \<noteq> []" "val \<noteq> []" using assms by (auto simp: clean_def)
  have nul: "c_str (key @ ''='' @ val @ [CHR 0x0A]) = key @ ''='' @ val @ [CHR 0x0A]"
    using assms by (intro c_str_id) (auto simp: clean_def)
  have tr: "trim (key @ ''='' @ val @ [CHR 0x0A]) = key @ ''='' @ val"
  proof -
    obtain x t where k: "key = x # t" "\<not> is_blank x"
      using assms(1) by (cases key) (auto simp: clean_def is_trail_def)
    have "dropWhile is_trail (rev val) = rev val"
      using assms(2) by (simp add: dropWhile_eq_self_iff hd_rev clean_def)
    moreover obtain y u where v: "rev val = y # u" using ne by (cases "rev val") auto
    ultimately have "\<not> is_trail y"
      using assms(2) by (auto simp: clean_def dest: arg_cong [where f = hd] simp: hd_rev)
    with v show ?thesis by (simp add: trim_def k is_trail_def rev_swap)
  qed
  have tw: "takeWhile (\<lambda>x. x \<noteq> CHR ''='') (key @ ''='' @ val) = key"
    using assms(1) by (auto simp: clean_def takeWhile_append)
  have sc: "strchr (key @ ''='' @ val) (CHR ''='') = Some (''='' @ val)"
    using assms(1) strchr_append [of "CHR ''=''" key val] by (auto simp: clean_def)
  show ?thesis
    unfolding config_line_def nul tr Let_def
    using assms(3,4) ne by (simp add: tw sc trim_clean [OF assms(1)] trim_clean [OF assms(2)]
        del: append.simps) (simp add: trim_clean assms)
qed

lemma fgets_one_line:
  "CHR 0x0A \<notin> set l \<Longrightarrow> length l < n \<Longrightarrow> fgets_one n (l @ CHR 0x0A # r) = (l @ [CHR 0x0A], r)"
proof (induction l arbitrary: n)
  case Nil
  then show ?case by (cases n) auto
next
  case (Cons a l)
  then show ?case by (cases n) auto
qed

lemma fgets_lines_line:
  "CHR 0x0A \<notin> set l \<Longrightarrow> length l \<le> n \<Longrightarrow>
   fgets_lines n (l @ CHR 0x0A # r) = (l @ [CHR 0x0A]) # fgets_lines n r"
  by (subst fgets_lines.simps) (simp add: fgets_one_line del: fgets_one.simps)

type_synonym entry = "string \<times> string"

definition entry_line :: "entry \<Rightarrow> string" where
  "entry_line e = fst e @ ''='' @ snd e @ [CHR 0x0A]"

definition entry_ok :: "entry \<Rightarrow> bool" where
  "entry_ok e \<longleftrightarrow> clean (fst e) \<and> clean (snd e) \<and> hd (fst e) \<noteq> CHR ''#'' \<and> hd (fst e) \<noteq> CHR '';''
     \<and> length (fst e) + length (snd e) < 254"

lemma entries_parse:
  "list_all entry_ok es \<Longrightarrow>
   fold config_line (fgets_lines 254 (concat (map entry_line es))) c = fold (\<lambda>e. set_key (fst e) (snd e)) es c"
proof (induction es arbitrary: c)
  case Nil
  then show ?case by (simp add: fgets_lines.simps)
next
  case (Cons e es)
  then have e: "entry_ok e" by simp
  let ?l = "fst e @ ''='' @ snd e"
  have "fgets_lines 254 (concat (map entry_line (e # es)))
      = (?l @ [CHR 0x0A]) # fgets_lines 254 (concat (map entry_line es))"
    using e fgets_lines_line [of ?l 254 "concat (map entry_line es)"]
    by (auto simp: entry_line_def entry_ok_def clean_def)
  with Cons e config_line_set [of "fst e" "snd e" c] show ?case
    by (simp add: entry_ok_def)
qed

text \<open>The file a launcher writes for a configuration.\<close>

definition print_config :: "config \<Rightarrow> string" where
  "print_config c = concat (map entry_line
     [(''mode'', cf_mode c), (''local_port'', show_nat (unat (cf_local_port c))),
      (''peer_ip'', cf_peer_ip c), (''peer_port'', show_nat (unat (cf_peer_port c))),
      (''relay_ip'', cf_relay_ip c), (''relay_port'', show_nat (unat (cf_relay_port c))),
      (''code'', cf_code c)])"

lemma clean_digits:
  assumes "ds \<noteq> []" "\<forall>c \<in> set ds. is_digit c"
  shows "clean ds"
proof -
  have d: "\<not> is_trail c \<and> c \<noteq> CHR 0x00 \<and> c \<noteq> CHR 0x0A \<and> c \<noteq> CHR ''=''" if "is_digit c" for c
    using that by (auto simp: is_trail_def is_blank_def is_digit_def)
  with assms show ?thesis by (simp add: clean_def)
qed

lemma show_nat_length: "n < 10 ^ k \<Longrightarrow> 0 < k \<Longrightarrow> length (show_nat n) \<le> k"
proof (induction n arbitrary: k rule: show_nat.induct)
  case (1 n)
  show ?case
  proof (cases "n < 10")
    case False
    obtain j where k: "k = Suc j" using 1(3) by (cases k) auto
    moreover have "0 < j" using False 1(2) k by (cases j) auto
    ultimately have k: "k = Suc j" "0 < j" by auto
    with 1 False have "length (show_nat (n div 10)) \<le> j" by (simp add: less_mult_imp_div_less mult.commute)
    with False show ?thesis by (subst show_nat.simps) (simp add: k)
  qed (use 1 in \<open>simp add: show_nat.simps [of n]\<close>)
qed

lemma port_ok: "clean (show_nat (unat (p :: u16)))" "length (show_nat (unat p)) < 64"
  "word_of_int (atoi (show_nat (unat p))) = p"
proof -
  have "unat p < 2 ^ 16" using unsigned_less [of p] by simp
  then have "unat p < 10 ^ 5" by simp
  from show_nat_length [OF this] show "length (show_nat (unat p)) < 64" by simp
  show "clean (show_nat (unat p))" using show_nat_digits by (intro clean_digits) auto
  show "word_of_int (atoi (show_nat (unat p))) = p" using atoi_show [of "[]" "unat p"] by simp
qed

text \<open>
  A configuration survives the file: for any mode, addresses, ports and code that fit the
  fields and have no white space at their ends, no NUL, '=' or line end, parsing the seven lines
  the launcher writes gives back exactly that configuration.
\<close>

theorem config_roundtrip:
  assumes "cf_present c" "clean (cf_mode c)" "length (cf_mode c) < 16"
    and "clean (cf_peer_ip c)" "length (cf_peer_ip c) < 64"
    and "clean (cf_relay_ip c)" "length (cf_relay_ip c) < 64"
    and "clean (cf_code c)" "length (cf_code c) < 32"
  shows "get_config (Some (print_config c)) = c"
proof -
  have keys: "clean ''mode''" "clean ''local_port''" "clean ''peer_ip''" "clean ''peer_port''"
    "clean ''relay_ip''" "clean ''relay_port''" "clean ''code''"
    by (simp_all add: clean_def is_trail_def is_blank_def)
  have l: "length (show_nat (unat (p :: u16))) < 244" "length (show_nat (unat p)) < 245" for p
    using port_ok(2) [of p] by simp_all
  show ?thesis
    unfolding get_config_def print_config_def option.case
    by (subst entries_parse)
      (use assms keys port_ok(1) in \<open>simp_all add: entry_ok_def set_key_def strncpy_cap_def port_ok(3)
        l config_default_def\<close>)
qed

theorem config_roundtrip_witness:
  "get_config (Some (print_config (config_default\<lparr>cf_present := True, cf_peer_ip := ''10.0.0.7'',
     cf_peer_port := 7000, cf_relay_ip := ''203.0.113.9'', cf_code := ''ABCD-1234''\<rparr>)))
   = config_default\<lparr>cf_present := True, cf_peer_ip := ''10.0.0.7'',
     cf_peer_port := 7000, cf_relay_ip := ''203.0.113.9'', cf_code := ''ABCD-1234''\<rparr>"
  by (rule config_roundtrip)
    (simp_all add: config_default_def clean_def is_trail_def is_blank_def)

end
