(* ===== verification/Session.thy ===== *)
theory Session
  imports Transport Engine_Arm Net_Sync Config
begin

text \<open>
  The session state machine of \<open>src/src/net_session.cpp\<close> and the machine it drives: a \<open>machine\<close> is
  the statics of the session, the transport, the input exchange, the engine arm and the seed
  force of one process. Sending goes through \<open>transport_send_raw\<close>; \<open>m_sent\<close> records every datagram
  with the destinations it was handed to. The clock is read once per handler call, and each
  arriving datagram brings the performance-counter reading its handling may use.
\<close>

datatype session_state = DISCONNECTED | SYNCING | RUNNING

definition NUM_SYNC :: nat where "NUM_SYNC = 5"
definition SYNC_RETRY_MS :: u32 where "SYNC_RETRY_MS = 500"
definition KEEPALIVE_MS :: u32 where "KEEPALIVE_MS = 200"
definition QUALITY_MS :: u32 where "QUALITY_MS = 1000"
definition INTERRUPT_MS :: u32 where "INTERRUPT_MS = 2000"
definition DISCONNECT_MS :: u32 where "DISCONNECT_MS = 6000"
definition HELLO_MS :: u32 where "HELLO_MS = 1000"
definition INPUT_LEN :: nat where "INPUT_LEN = 416"

record session =
  ss_state :: session_state
  ss_armed :: bool
  ss_nonce :: u32
  ss_sync_ok :: nat
  ss_last_recv :: u32
  ss_last_send :: u32
  ss_last_qr :: u32
  ss_req_ms :: u32
  ss_rtt :: u32
  ss_interrupted :: bool
  ss_peer_running :: bool
  ss_relay_mode :: bool
  ss_relay_code :: string
  ss_last_hello :: u32
  ss_ring :: "u32 carray"
  ss_ring_n :: nat
  ss_buf :: "u8 list"

definition session_start :: session where
  "session_start = \<lparr>ss_state = DISCONNECTED, ss_armed = False, ss_nonce = 0, ss_sync_ok = 0,
     ss_last_recv = 0, ss_last_send = 0, ss_last_qr = 0, ss_req_ms = 0, ss_rtt = 0,
     ss_interrupted = False, ss_peer_running = False, ss_relay_mode = False, ss_relay_code = [],
     ss_last_hello = 0, ss_ring = (\<lambda>_. 0), ss_ring_n = 0, ss_buf = replicate INPUT_LEN 0\<rparr>"

record machine =
  m_ss :: session
  m_tr :: transport
  m_ni :: net_input
  m_arm :: engine_arm
  m_sync :: net_sync
  m_sent :: "(ip_port list \<times> datagram) list"
  m_rollbacks :: "int list"

definition machine_start :: machine where
  "machine_start = \<lparr>m_ss = session_start, m_tr = transport_init, m_ni = ni_init, m_arm = arm_init,
     m_sync = sync_init, m_sent = [], m_rollbacks = []\<rparr>"

text \<open>What a handler reads from its surroundings.\<close>

record pump_env =
  pe_is_p2 :: bool
  pe_now :: u32
  pe_direct_on :: bool
  pe_pton :: "string \<Rightarrow> u32 option"

record arrival =
  ar_res :: recv_result
  ar_qpc :: u64

definition session_running :: "session \<Rightarrow> bool" where
  "session_running s \<longleftrightarrow> ss_armed s \<and> ss_state s = RUNNING"

definition session_both_running :: "session \<Rightarrow> bool" where
  "session_both_running s \<longleftrightarrow> session_running s \<and> ss_peer_running s"

definition make_nonce :: "u64 \<Rightarrow> u32 \<Rightarrow> u32" where
  "make_nonce q tid = or (ucast (xor q (ucast (tid * 2654435761)))) 1"

section \<open>Sending\<close>

definition m_allow :: "pump_env \<Rightarrow> machine \<Rightarrow> bool" where
  "m_allow e m = allow_direct (pe_direct_on e) (ea_armed (m_arm m))"

definition m_send :: "pump_env \<Rightarrow> datagram \<Rightarrow> machine \<Rightarrow> machine" where
  "m_send e d m =
     (let (tr, dests, _) = transport_send_raw (m_allow e m) (pe_now e) 0 0 (m_tr m)
      in m\<lparr>m_tr := tr, m_sent := m_sent m @ [(dests, d)]\<rparr>)"

definition m_send_all :: "pump_env \<Rightarrow> packet list \<Rightarrow> machine \<Rightarrow> machine" where
  "m_send_all e ps m = fold (\<lambda>p. m_send e (Control p)) ps m"

definition hello_text :: "string \<Rightarrow> bool \<Rightarrow> string" where
  "hello_text code p2 =
     ''MVCL{'' @ [CHR 0x22] @ ''session'' @ [CHR 0x22, CHR '':'', CHR 0x22] @ code
     @ [CHR 0x22, CHR '','', CHR 0x22] @ ''role'' @ [CHR 0x22, CHR '':'', CHR 0x22] @ role_name p2
     @ [CHR 0x22, CHR ''}'']"

definition send_hello :: "pump_env \<Rightarrow> machine \<Rightarrow> machine" where
  "send_hello e m =
     (if \<not> ss_relay_mode (m_ss m) then m
      else m_send e (Hello (hello_text (ss_relay_code (m_ss m)) (pe_is_p2 e))) m)"

abbreviation upd_ss :: "(session \<Rightarrow> session) \<Rightarrow> machine \<Rightarrow> machine" where
  "upd_ss f m \<equiv> m\<lparr>m_ss := f (m_ss m)\<rparr>"

section \<open>Start\<close>

text \<open>\<open>flag\<close>: is \<open>netplay.flag\<close> beside the executable; \<open>oe\<close>: what the socket calls answer.\<close>

definition session_target :: "bool \<Rightarrow> config \<Rightarrow> string \<times> u16" where
  "session_target p2 cfg =
     (if cf_present cfg \<and> cf_mode cfg = ''matchmaker'' then (cf_relay_ip cfg, cf_relay_port cfg)
      else
        (if cf_present cfg \<and> cf_peer_ip cfg \<noteq> [] then cf_peer_ip cfg else ''127.0.0.1'',
         if cf_present cfg \<and> cf_peer_port cfg \<noteq> 0 then cf_peer_port cfg
         else if p2 then 7100 else 7101))"

definition session_init ::
  "pump_env \<Rightarrow> bool \<Rightarrow> config \<Rightarrow> open_env \<Rightarrow> u64 \<Rightarrow> u32 \<Rightarrow> machine \<Rightarrow> machine" where
  "session_init e flag cfg oe q tid m0 =
     (if \<not> flag then m0
      else
        let relay = cf_present cfg \<and> cf_mode cfg = ''matchmaker'' in
        if relay \<and> (cf_relay_ip cfg = [] \<or> cf_relay_port cfg = 0) then m0
        else
          let m1 = (if relay then upd_ss (\<lambda>s. s\<lparr>ss_relay_mode := True,
                                     ss_relay_code := take 31 (cf_code cfg)\<rparr>) m0 else m0);
              (ip, port) = session_target (pe_is_p2 e) cfg;
              (tr, ok) = transport_open (pe_pton e) oe ip port (m_tr m1);
              m2 = m1\<lparr>m_tr := tr\<rparr>
          in if \<not> ok then m2
             else
               let t = pe_now e;
                   m3 = upd_ss (\<lambda>s. s\<lparr>ss_armed := True, ss_state := SYNCING, ss_sync_ok := 0,
                          ss_nonce := make_nonce q tid, ss_last_recv := t, ss_last_send := t\<rparr>) m2;
                   m4 = upd_ss (\<lambda>s. s\<lparr>ss_last_hello := t, ss_req_ms := t\<rparr>) (send_hello e m3)
               in m_send e (Control (mk_packet MSG_SYNC_REQ (ss_nonce (m_ss m4)) 0)) m4)"

section \<open>Peer address from the box\<close>

definition peer_info_target :: "u8 list \<Rightarrow> (string \<times> u16) option" where
  "peer_info_target dgram =
     (let n = length dgram in
      if n \<le> 5 \<or> 250 < n then None
      else
        let js = c_str (bytes_str (drop 5 dgram)) in
        case (strstr js ([CHR 0x22] @ ''ip'' @ [CHR 0x22, CHR '':'', CHR 0x22]),
              strstr js ([CHR 0x22] @ ''port'' @ [CHR 0x22, CHR '':''])) of
          (Some p, Some q) \<Rightarrow>
            let ip = take 63 (takeWhile (\<lambda>c. c \<noteq> CHR 0x22) (drop 6 p));
                port = atoi (drop 7 q)
            in if ip \<noteq> [] \<and> 0 < port \<and> port < 65536 then Some (ip, word_of_int port) else None
        | _ \<Rightarrow> None)"

definition on_peer_info :: "pump_env \<Rightarrow> u8 list \<Rightarrow> machine \<Rightarrow> machine" where
  "on_peer_info e dgram m =
     (case peer_info_target dgram of
        Some (ip, port) \<Rightarrow> m\<lparr>m_tr := transport_set_peer (pe_pton e) ip port (m_tr m)\<rparr>
      | None \<Rightarrow> m)"

section \<open>Handling one datagram\<close>

text \<open>The rolling minimum over the last eight quality samples, zeros ignored.\<close>

definition ring_low :: "u32 carray \<Rightarrow> u32" where
  "ring_low r = for_range 0 8 (\<lambda>i lo. if r i \<noteq> 0 \<and> (lo = 0 \<or> r i < lo) then r i else lo) 0"

definition note_quality :: "u32 \<Rightarrow> session \<Rightarrow> session" where
  "note_quality sample s =
     (let ring = (ss_ring s)(ss_ring_n s mod 8 := sample); lo = ring_low ring
      in s\<lparr>ss_ring := ring, ss_ring_n := ss_ring_n s + 1, ss_rtt := (if lo \<noteq> 0 then lo else sample)\<rparr>)"

text \<open>One matching sync reply; the host seeds the match when the fifth one completes the sync.\<close>

definition sync_reply_rtt :: "u32 \<Rightarrow> session \<Rightarrow> session" where
  "sync_reply_rtt t s =
     (if ss_req_ms s \<noteq> 0 \<and> (ss_rtt s = 0 \<or> elapsed t (ss_req_ms s) < ss_rtt s)
      then s\<lparr>ss_rtt := elapsed t (ss_req_ms s)\<rparr> else s)"

definition on_sync_reply :: "pump_env \<Rightarrow> u32 \<Rightarrow> u64 \<Rightarrow> u32 \<Rightarrow> machine \<Rightarrow> machine" where
  "on_sync_reply e nonce q tid m =
     (let s = m_ss m; t = pe_now e in
      if ss_state s = SYNCING \<and> nonce = ss_nonce s
      then
        let s1 = (sync_reply_rtt t s)\<lparr>ss_sync_ok := ss_sync_ok s + 1\<rparr>
        in if NUM_SYNC \<le> ss_sync_ok s1
           then
             let m1 = m\<lparr>m_ss := s1\<lparr>ss_state := RUNNING, ss_last_qr := t\<rparr>\<rparr>
             in if \<not> pe_is_p2 e
                then let (sy, ps) = sync_arm (or (ucast q) 1) 2 (m_sync m1)
                     in m_send_all e ps (m1\<lparr>m_sync := sy\<rparr>)
                else m1
           else
             let s2 = s1\<lparr>ss_nonce := make_nonce q tid, ss_req_ms := t\<rparr>
             in upd_ss (\<lambda>s. s\<lparr>ss_last_send := t\<rparr>)
                  (m_send e (Control (mk_packet MSG_SYNC_REQ (ss_nonce s2) 0)) (m\<lparr>m_ss := s2\<rparr>))
      else m)"

definition on_control :: "pump_env \<Rightarrow> packet \<Rightarrow> u64 \<Rightarrow> u32 \<Rightarrow> machine \<Rightarrow> machine" where
  "on_control e p q tid m =
     (if pk_type p = msg_code MSG_SYNC_REQ
      then m_send e (Control (mk_packet MSG_SYNC_REPLY (pk_nonce p) 0)) m
      else if pk_type p = msg_code MSG_SYNC_REPLY then on_sync_reply e (pk_nonce p) q tid m
      else if pk_type p = msg_code MSG_QUALITY_REQ
      then m_send e (Control (mk_packet MSG_QUALITY_REPLY 0 (pk_stamp_ms p))) m
      else if pk_type p = msg_code MSG_QUALITY_REPLY
      then upd_ss (note_quality (elapsed (pe_now e) (pk_stamp_ms p))) m
      else m)"

text \<open>The receive buffer is static: a short datagram leaves the older bytes behind it in place.\<close>

definition overlay :: "u8 list \<Rightarrow> u8 list \<Rightarrow> u8 list" where
  "overlay new old = new @ drop (length new) old"

definition dispatch :: "pump_env \<Rightarrow> nat \<Rightarrow> u64 \<Rightarrow> u32 \<Rightarrow> machine \<Rightarrow> machine" where
  "dispatch e n q tid m =
     (let buf = ss_buf (m_ss m); ty = buf ! 4; p = read_packet buf in
      if ty = msg_code MSG_INPUT
      then (if n < INPUT_LEN then m
            else let (ni, reqs) = on_recv_input (pe_now e) (read_input buf) (m_ni m)
                 in m\<lparr>m_ni := ni, m_rollbacks := m_rollbacks m @ reqs\<rparr>)
      else if ty = msg_code MSG_BEGIN
      then m\<lparr>m_sync := peer_arm (pk_stamp_ms p) (sint (pk_nonce p)) (m_sync m)\<rparr>
      else if ty = msg_code MSG_ENGINE_ARM
      then let (ea, ps) = recv_arm (pe_now e) p (m_arm m) in m_send_all e ps (m\<lparr>m_arm := ea\<rparr>)
      else if ty = msg_code MSG_EPOCH
      then let (ni, ps) = on_peer_epoch (pe_now e) (pk_stamp_ms p) (sint (pk_nonce p)) (m_ni m)
           in m_send_all e ps (m\<lparr>m_ni := ni\<rparr>)
      else on_control e p q tid m)"

definition handle :: "pump_env \<Rightarrow> u32 \<Rightarrow> u8 list \<Rightarrow> u64 \<Rightarrow> machine \<Rightarrow> machine" where
  "handle e tid bs q m0 =
     (let m = upd_ss (\<lambda>s. s\<lparr>ss_buf := overlay bs (ss_buf s)\<rparr>) m0; buf = ss_buf (m_ss m); n = length bs in
      if n < 5 then m
      else if ss_relay_mode (m_ss m) \<and> bytes_str (take 5 bs) = ''MVCLP'' then on_peer_info e bs m
      else if dec32 (take 4 buf) \<noteq> NET_MAGIC then m
      else
        dispatch e n q tid
          (upd_ss (\<lambda>s. s\<lparr>ss_last_recv := pe_now e, ss_interrupted := False,
             ss_peer_running := (ss_peer_running s \<or> buf ! 4 = msg_code MSG_INPUT
                                 \<or> buf ! 4 = msg_code MSG_KEEPALIVE)\<rparr>) m))"

fun pump_loop :: "pump_env \<Rightarrow> u32 \<Rightarrow> arrival list \<Rightarrow> machine \<Rightarrow> machine" where
  "pump_loop e tid [] m = m"
| "pump_loop e tid (a # as) m =
     (let (tr, n) = transport_recv_raw (m_allow e m) (pe_now e) (ar_res a) (m_tr m);
          m1 = m\<lparr>m_tr := tr\<rparr>
      in if n \<le> 0 then m1
         else case ar_res a of
           Got _ bs \<Rightarrow> pump_loop e tid as (handle e tid bs (ar_qpc a) m1)
         | _ \<Rightarrow> m1)"

section \<open>Timers\<close>

definition pump_syncing :: "pump_env \<Rightarrow> machine \<Rightarrow> machine" where
  "pump_syncing e m =
     (let s = m_ss m; t = pe_now e in
      if SYNC_RETRY_MS \<le> elapsed t (ss_last_send s)
      then upd_ss (\<lambda>s. s\<lparr>ss_last_send := t\<rparr>)
             (m_send e (Control (mk_packet MSG_SYNC_REQ (ss_nonce s) 0)) (upd_ss (\<lambda>s. s\<lparr>ss_req_ms := t\<rparr>) m))
      else m)"

definition pump_running :: "pump_env \<Rightarrow> machine \<Rightarrow> machine" where
  "pump_running e m0 =
     (let t = pe_now e;
          m1 = (if KEEPALIVE_MS \<le> elapsed t (ss_last_send (m_ss m0))
                then upd_ss (\<lambda>s. s\<lparr>ss_last_send := t\<rparr>)
                       (m_send e (Control (mk_packet MSG_KEEPALIVE 0 0)) m0) else m0);
          m2 = (if QUALITY_MS \<le> elapsed t (ss_last_qr (m_ss m1))
                then upd_ss (\<lambda>s. s\<lparr>ss_last_qr := t\<rparr>)
                       (m_send e (Control (mk_packet MSG_QUALITY_REQ 0 t)) m1) else m1);
          idle = elapsed t (ss_last_recv (m_ss m2));
          m3 = (if \<not> ss_interrupted (m_ss m2) \<and> INTERRUPT_MS \<le> idle
                then upd_ss (\<lambda>s. s\<lparr>ss_interrupted := True\<rparr>) m2 else m2)
      in if DISCONNECT_MS \<le> idle
         then (upd_ss (\<lambda>s. s\<lparr>ss_state := DISCONNECTED, ss_armed := False, ss_peer_running := False\<rparr>) m3)
                \<lparr>m_tr := transport_close (m_tr m3)\<rparr>
         else m3)"

definition session_pump :: "pump_env \<Rightarrow> u32 \<Rightarrow> arrival list \<Rightarrow> machine \<Rightarrow> machine" where
  "session_pump e tid as m0 =
     (if \<not> ss_armed (m_ss m0) then m0
      else
        let t = pe_now e;
            m1 = (if ss_relay_mode (m_ss m0) \<and> HELLO_MS \<le> elapsed t (ss_last_hello (m_ss m0))
                  then upd_ss (\<lambda>s. s\<lparr>ss_last_hello := t\<rparr>) (send_hello e m0) else m0);
            m2 = pump_loop e tid as m1
        in (case ss_state (m_ss m2) of
              SYNCING \<Rightarrow> pump_syncing e m2
            | RUNNING \<Rightarrow> pump_running e m2
            | DISCONNECTED \<Rightarrow> m2))"

end
