(* ===== verification/Session_Facts.thy ===== *)
theory Session_Facts
  imports Session
begin

text \<open>
  What the session guarantees: the handshake counts five fresh replies and only those, the two
  ends force the same match seed, the timers keep the link alive and give it up, and the
  round-trip estimate is the minimum of the recent samples.
\<close>

section \<open>What sending leaves alone\<close>

lemma m_send_fields [simp]:
  "m_ss (m_send e d m) = m_ss m" "m_ni (m_send e d m) = m_ni m" "m_arm (m_send e d m) = m_arm m"
  "m_sync (m_send e d m) = m_sync m" "m_rollbacks (m_send e d m) = m_rollbacks m"
  "tr_sock (m_tr (m_send e d m)) = tr_sock (m_tr m)"
  by (simp_all add: m_send_def split_def transport_send_raw_def direct_is_live_def)

lemma m_send_all_fields [simp]:
  "m_ss (m_send_all e ps m) = m_ss m" "m_ni (m_send_all e ps m) = m_ni m"
  "m_arm (m_send_all e ps m) = m_arm m" "m_sync (m_send_all e ps m) = m_sync m"
  "tr_sock (m_tr (m_send_all e ps m)) = tr_sock (m_tr m)"
  by (induction ps arbitrary: m) (simp_all add: m_send_all_def)

lemma send_hello_fields [simp]:
  "m_ss (send_hello e m) = m_ss m" "tr_sock (m_tr (send_hello e m)) = tr_sock (m_tr m)"
  by (simp_all add: send_hello_def)

lemma recv_raw_sock [simp]: "tr_sock (fst (transport_recv_raw a t r st)) = tr_sock st"
  by (simp add: transport_recv_raw_def split: recv_result.split)

lemma set_peer_sock [simp]: "tr_sock (transport_set_peer p i q st) = tr_sock st"
  by (simp add: transport_set_peer_def Let_def split: option.split)

lemma on_peer_info_fields [simp]:
  "m_ss (on_peer_info e b m) = m_ss m" "tr_sock (m_tr (on_peer_info e b m)) = tr_sock (m_tr m)"
  by (simp_all add: on_peer_info_def split: option.split)

lemma make_nonce_nonzero [simp]: "make_nonce q tid \<noteq> 0"
proof
  assume "make_nonce q tid = 0"
  then have "bit (make_nonce q tid) 0 = False" by simp
  then show False by (simp add: make_nonce_def bit_or_iff)
qed

section \<open>The handshake\<close>

text \<open>The invariant of the session state machine.\<close>

definition ss_inv :: "machine \<Rightarrow> bool" where
  "ss_inv m \<longleftrightarrow> (let s = m_ss m in
     (ss_armed s \<longleftrightarrow> ss_state s \<noteq> DISCONNECTED)
     \<and> (ss_armed s \<longrightarrow> tr_sock (m_tr m))
     \<and> (ss_state s = SYNCING \<longrightarrow> ss_sync_ok s < NUM_SYNC \<and> ss_nonce s \<noteq> 0)
     \<and> (ss_state s = RUNNING \<longrightarrow> ss_sync_ok s = NUM_SYNC)
     \<and> (ss_state s = DISCONNECTED \<longrightarrow> \<not> ss_peer_running s \<or> ss_armed s))"

lemma sync_reply_rtt_fields [simp]:
  "ss_state (sync_reply_rtt t s) = ss_state s" "ss_armed (sync_reply_rtt t s) = ss_armed s"
  "ss_nonce (sync_reply_rtt t s) = ss_nonce s" "ss_peer_running (sync_reply_rtt t s) = ss_peer_running s"
  "ss_relay_mode (sync_reply_rtt t s) = ss_relay_mode s"
  by (simp_all add: sync_reply_rtt_def)

lemma on_sync_reply_ss:
  "m_ss (on_sync_reply e nonce q tid m) =
     (if ss_state (m_ss m) = SYNCING \<and> nonce = ss_nonce (m_ss m)
      then let s1 = (sync_reply_rtt (pe_now e) (m_ss m))\<lparr>ss_sync_ok := ss_sync_ok (m_ss m) + 1\<rparr>
           in if NUM_SYNC \<le> ss_sync_ok (m_ss m) + 1 then s1\<lparr>ss_state := RUNNING, ss_last_qr := pe_now e\<rparr>
              else s1\<lparr>ss_nonce := make_nonce q tid, ss_req_ms := pe_now e, ss_last_send := pe_now e\<rparr>
      else m_ss m)"
  by (simp add: on_sync_reply_def Let_def split_def)

lemma on_sync_reply_sock [simp]:
  "tr_sock (m_tr (on_sync_reply e nonce q tid m)) = tr_sock (m_tr m)"
  by (simp add: on_sync_reply_def Let_def split_def)

lemma inv_sync_reply: "ss_inv m \<Longrightarrow> ss_inv (on_sync_reply e nonce q tid m)"
  by (auto simp: ss_inv_def on_sync_reply_ss Let_def NUM_SYNC_def)

lemma inv_control: "ss_inv m \<Longrightarrow> ss_inv (on_control e p q tid m)"
  using inv_sync_reply [of m e "pk_nonce p" q tid]
  by (auto simp: on_control_def ss_inv_def Let_def note_quality_def)

lemma inv_same: "m_ss m' = m_ss m \<Longrightarrow> tr_sock (m_tr m') = tr_sock (m_tr m) \<Longrightarrow> ss_inv m' = ss_inv m"
  by (simp add: ss_inv_def)

lemma inv_dispatch: "ss_inv m \<Longrightarrow> ss_inv (dispatch e n q tid m)"
proof -
  assume m: "ss_inv m"
  then have "ss_inv (m\<lparr>m_ni := ni, m_rollbacks := r\<rparr>)" "ss_inv (m\<lparr>m_sync := sy\<rparr>)"
    "ss_inv (m_send_all e ps (m\<lparr>m_arm := ea\<rparr>))" "ss_inv (m_send_all e ps (m\<lparr>m_ni := ni\<rparr>))"
    for ni r sy ps ea by (simp_all add: ss_inv_def)
  with m inv_control show ?thesis unfolding dispatch_def Let_def split_def by presburger
qed

lemma inv_handle:
  assumes "ss_inv m" "ss_armed (m_ss m)"
  shows "ss_inv (handle e tid bs q m)"
proof -
  let ?m1 = "upd_ss (\<lambda>s. s\<lparr>ss_buf := overlay bs (ss_buf s)\<rparr>) m"
  have "ss_inv ?m1" "ss_inv (on_peer_info e bs ?m1)" "ss_inv (upd_ss (\<lambda>s. s\<lparr>ss_last_recv := t,
      ss_interrupted := i, ss_peer_running := b\<rparr>) ?m1)" for t i b
    using assms by (auto simp: ss_inv_def Let_def)
  then show ?thesis
    unfolding handle_def Let_def by (auto intro: inv_dispatch)
qed

lemma armed_dispatch: "ss_armed (m_ss (dispatch e n q tid m)) = ss_armed (m_ss m)"
  by (auto simp: dispatch_def Let_def split_def on_control_def on_sync_reply_ss note_quality_def)

lemma armed_handle: "ss_armed (m_ss (handle e tid bs q m)) = ss_armed (m_ss m)"
  by (auto simp: handle_def Let_def armed_dispatch)

lemma inv_loop:
  "ss_inv m \<Longrightarrow> ss_armed (m_ss m) \<Longrightarrow>
   ss_inv (pump_loop e tid as m) \<and> ss_armed (m_ss (pump_loop e tid as m))"
proof (induction as arbitrary: m)
  case (Cons a as)
  let ?tr = "fst (transport_recv_raw (m_allow e m) (pe_now e) (ar_res a) (m_tr m))"
  have m1: "ss_inv (m\<lparr>m_tr := ?tr\<rparr>)" "ss_armed (m_ss (m\<lparr>m_tr := ?tr\<rparr>))"
    using Cons.prems by (simp_all add: inv_same [of "m\<lparr>m_tr := ?tr\<rparr>" m])
  then show ?case
    using Cons.IH inv_handle [OF m1] armed_handle
    by (auto simp: Let_def split_def split: recv_result.split)
qed simp

lemma inv_syncing:
  "ss_inv m \<Longrightarrow> ss_inv (pump_syncing e m)"
  by (auto simp: pump_syncing_def Let_def ss_inv_def)

lemma inv_running:
  "ss_inv m \<Longrightarrow> ss_inv (pump_running e m)"
  by (auto simp: pump_running_def Let_def ss_inv_def transport_close_def)

lemma inv_pump:
  assumes "ss_inv m"
  shows "ss_inv (session_pump e tid as m)"
proof -
  let ?m1 = "if ss_relay_mode (m_ss m) \<and> HELLO_MS \<le> elapsed (pe_now e) (ss_last_hello (m_ss m))
      then upd_ss (\<lambda>s. s\<lparr>ss_last_hello := pe_now e\<rparr>) (send_hello e m) else m"
  let ?m2 = "pump_loop e tid as ?m1"
  have m1: "ss_inv ?m1" "ss_armed (m_ss ?m1) = ss_armed (m_ss m)"
    using assms by (auto simp: ss_inv_def Let_def)
  have m2: "ss_inv ?m2" if "ss_armed (m_ss m)"
    using m1 that by (intro inv_loop [THEN conjunct1]) simp_all
  have "session_pump e tid as m = (if \<not> ss_armed (m_ss m) then m else
      case ss_state (m_ss ?m2) of SYNCING \<Rightarrow> pump_syncing e ?m2 | RUNNING \<Rightarrow> pump_running e ?m2
      | DISCONNECTED \<Rightarrow> ?m2)"
    by (simp only: session_pump_def Let_def)
  with assms m2 inv_syncing [of ?m2 e] inv_running [of ?m2 e] show ?thesis
    by (cases "ss_state (m_ss ?m2)") (simp_all only: session_state.case if_split, auto)
qed

lemma inv_init: "ss_inv (session_init e flag cfg oe q tid machine_start)"
  by (auto simp: session_init_def ss_inv_def machine_start_def session_start_def Let_def split_def
      NUM_SYNC_def transport_open_def)

inductive sess_reach :: "machine \<Rightarrow> bool" where
  init: "sess_reach (session_init e flag cfg oe q tid machine_start)"
| pump: "sess_reach m \<Longrightarrow> sess_reach (session_pump e tid as m)"
| others: "sess_reach m \<Longrightarrow> sess_reach (m\<lparr>m_ni := ni, m_arm := ea, m_sync := sy\<rparr>)"

lemma sess_reach_inv: "sess_reach m \<Longrightarrow> ss_inv m"
proof (induction rule: sess_reach.induct)
  case (others m ni ea sy)
  then show ?case by (simp add: ss_inv_def)
qed (simp_all add: inv_init inv_pump)

text \<open>
  C28. The handshake is sound on every run: a machine counts itself RUNNING only after exactly five
  counted replies, a reply is counted only while syncing and only if it echoes the current nonce,
  and counting it either completes the sync or replaces the nonce by a fresh one; a session whose
  state is not DISCONNECTED is armed and has its socket open, and the nonce is never 0.
\<close>

theorem handshake_sound:
  assumes "sess_reach m"
  shows "(session_running (m_ss m) \<longrightarrow> ss_sync_ok (m_ss m) = 5)
    \<and> (ss_state (m_ss m) \<noteq> DISCONNECTED \<longleftrightarrow> ss_armed (m_ss m))
    \<and> (ss_armed (m_ss m) \<longrightarrow> tr_sock (m_tr m))
    \<and> (ss_state (m_ss m) = SYNCING \<longrightarrow> ss_nonce (m_ss m) \<noteq> 0)
    \<and> (let m' = on_sync_reply e nonce q tid m in
         if ss_state (m_ss m) = SYNCING \<and> nonce = ss_nonce (m_ss m)
         then ss_sync_ok (m_ss m') = ss_sync_ok (m_ss m) + 1
              \<and> (session_running (m_ss m') \<longleftrightarrow> ss_sync_ok (m_ss m) = 4)
              \<and> (\<not> session_running (m_ss m') \<longrightarrow> ss_nonce (m_ss m') = make_nonce q tid)
         else m' = m)"
  using sess_reach_inv [OF assms]
  by (auto simp: ss_inv_def Let_def session_running_def NUM_SYNC_def on_sync_reply_ss)
    (simp add: on_sync_reply_def Let_def)+

definition demo_env :: pump_env where
  "demo_env = \<lparr>pe_is_p2 = False, pe_now = 1000, pe_direct_on = False, pe_pton = (\<lambda>_. Some 1)\<rparr>"

definition demo_session :: machine where
  "demo_session = session_init demo_env True config_default
     \<lparr>oe_wsa_ok = True, oe_socket_ok = True, oe_bind_ok = True\<rparr> 7 9 machine_start"

lemma demo_session_facts:
  "ss_state (m_ss demo_session) = SYNCING" "ss_armed (m_ss demo_session)"
  "ss_sync_ok (m_ss demo_session) = 0"
  by (simp_all add: demo_session_def session_init_def demo_env_def transport_open_def machine_start_def
      session_start_def transport_init_def config_default_def session_target_def Let_def split_def)

theorem handshake_sound_witness: "tr_sock (m_tr demo_session)"
proof -
  have "sess_reach demo_session" unfolding demo_session_def by (rule sess_reach.init)
  from handshake_sound [OF this] demo_session_facts show ?thesis by blast
qed

text \<open>A peer that answers the current request each time: the replies the handshake waits for.\<close>

fun answered :: "(pump_env \<times> u64 \<times> u32) list \<Rightarrow> machine \<Rightarrow> machine" where
  "answered [] m = m"
| "answered ((e, q, tid) # rs) m = answered rs (on_sync_reply e (ss_nonce (m_ss m)) q tid m)"

lemma answered_steps:
  "ss_state (m_ss m) = SYNCING \<Longrightarrow> ss_sync_ok (m_ss m) + length rs < 5 \<Longrightarrow>
   ss_state (m_ss (answered rs m)) = SYNCING
   \<and> ss_sync_ok (m_ss (answered rs m)) = ss_sync_ok (m_ss m) + length rs
   \<and> ss_armed (m_ss (answered rs m)) = ss_armed (m_ss m)"
  by (induction rs m rule: answered.induct) (simp_all add: on_sync_reply_ss NUM_SYNC_def Let_def)

lemma answered_snoc:
  "answered (rs @ [(e, q, tid)]) m = on_sync_reply e (ss_nonce (m_ss (answered rs m))) q tid (answered rs m)"
  by (induction rs m rule: answered.induct) simp_all

text \<open>
  Five answers complete the handshake and not one fewer: from a freshly opened session, with
  any clock readings and nonces, the first four answered requests leave the machine syncing with
  a fresh request out each time, and the fifth makes it RUNNING.
\<close>

theorem five_answers_complete:
  assumes "ss_state (m_ss m) = SYNCING" "ss_armed (m_ss m)" "ss_sync_ok (m_ss m) = 0"
    and "length rs = 4"
  shows "ss_state (m_ss (answered rs m)) = SYNCING
    \<and> ss_sync_ok (m_ss (answered rs m)) = 4
    \<and> session_running (m_ss (answered (rs @ [(e, q, tid)]) m))"
  using answered_steps [of m rs] assms
  by (simp add: answered_snoc on_sync_reply_ss Let_def session_running_def NUM_SYNC_def)

theorem five_answers_complete_witness:
  "session_running (m_ss (answered (replicate 4 (demo_env, 3, 9) @ [(demo_env, 4, 9)]) demo_session))"
  using five_answers_complete [OF demo_session_facts, of "replicate 4 (demo_env, 3, 9)" demo_env 4 9]
  by simp

section \<open>The shared seed\<close>

lemma read_packet_overlay:
  assumes "length (packet_bytes p) \<le> length bs"
  shows "read_packet (packet_bytes p @ drop (length (packet_bytes p)) bs) = p"
proof -
  have "read_packet (packet_bytes p @ ys) = p" for ys
  proof -
    have "slice 0 4 (packet_bytes p @ ys) = enc32 (pk_magic p)"
      "slice 8 4 (packet_bytes p @ ys) = enc32 (pk_nonce p)"
      "slice 12 4 (packet_bytes p @ ys) = enc32 (pk_stamp_ms p)"
      "(packet_bytes p @ ys) ! 4 = pk_type p"
      by (simp_all add: packet_bytes_def slice_def nth_append)
    then show ?thesis by (simp add: read_packet_def)
  qed
  then show ?thesis .
qed

lemma packet_head:
  "take 4 (packet_bytes p @ ys) = enc32 (pk_magic p)" "(packet_bytes p @ ys) ! 4 = pk_type p"
  by (simp_all add: packet_bytes_def nth_append)

lemma bytes_not_mvclp: "bytes_str (take 5 (packet_bytes (mk_packet t n s))) \<noteq> ''MVCLP''"
  by (simp add: packet_bytes_def mk_packet_def enc32_def NET_MAGIC_def bytes_str_def
      char_of_eq_iff)

lemma handle_packet:
  assumes "length (ss_buf (m_ss m)) = INPUT_LEN" "p = mk_packet t n s"
  shows "handle e tid (packet_bytes p) q m =
    (let m1 = upd_ss (\<lambda>s. s\<lparr>ss_buf := overlay (packet_bytes p) (ss_buf s), ss_last_recv := pe_now e,
             ss_interrupted := False,
             ss_peer_running := (ss_peer_running s \<or> t = MSG_INPUT \<or> t = MSG_KEEPALIVE)\<rparr>) m
     in dispatch e 16 q tid m1)"
proof -
  have "msg_code t = msg_code MSG_INPUT \<longleftrightarrow> t = MSG_INPUT"
    "msg_code t = msg_code MSG_KEEPALIVE \<longleftrightarrow> t = MSG_KEEPALIVE"
    by (cases t; simp)+
  moreover have "take 4 (overlay (packet_bytes p) (ss_buf (m_ss m))) = enc32 NET_MAGIC"
    "overlay (packet_bytes p) (ss_buf (m_ss m)) ! 4 = msg_code t"
    unfolding overlay_def packet_head by (simp_all add: mk_packet_def assms(2))
  ultimately show ?thesis
    using bytes_not_mvclp [of t n s]
    by (simp add: handle_def Let_def length_packet_bytes assms(2))
qed

lemma m_send_sent:
  "m_sent (m_send e d m) =
     m_sent m @ [(fst (snd (transport_send_raw (m_allow e m) (pe_now e) 0 0 (m_tr m))), d)]"
  by (simp add: m_send_def split_def Let_def)

text \<open>
  Both ends seed the match alike: the reply that completes the host's handshake arms its own
  seed force and sends one MSG_BEGIN; a guest that receives that datagram's 16 bytes, whatever was
  in its receive buffer before, then forces the same seed with the same delay, whatever seed each
  game had drawn.
\<close>

theorem seeds_agree:
  assumes "ss_state (m_ss h) = SYNCING" "ss_sync_ok (m_ss h) = 4" "\<not> pe_is_p2 eh"
    and "h' = on_sync_reply eh (ss_nonce (m_ss h)) q tid h"
    and "length (ss_buf (m_ss g)) = INPUT_LEN"
  shows "\<exists>dests p. m_sent h' = m_sent h @ [(dests, Control p)] \<and> session_running (m_ss h') = ss_armed (m_ss h)
    \<and> (let g' = handle eg tg (packet_bytes p) qg g in
         fst (snd (hk_seed_setter s1 (m_sync h'))) = fst (snd (hk_seed_setter s2 (m_sync g')))
         \<and> snd (snd (hk_seed_setter s1 (m_sync h'))) = Some 2
         \<and> snd (snd (hk_seed_setter s2 (m_sync g'))) = Some 2
         \<and> m_ni g' = m_ni g)"
proof -
  let ?p = "mk_packet MSG_BEGIN 2 (or (ucast q) 1)"
  have sent: "\<exists>dests. m_sent h' = m_sent h @ [(dests, Control ?p)]"
    using assms(1-3) by (simp add: assms(4) on_sync_reply_def NUM_SYNC_def sync_arm_def Let_def
        m_send_all_def m_send_sent)
  have sync: "ns_armed (m_sync h')" "ns_seed (m_sync h') = or (ucast q) 1" "ns_delay (m_sync h') = 2"
    using assms(1-3) by (simp_all add: assms(4) on_sync_reply_def NUM_SYNC_def sync_arm_def Let_def)
  have run: "session_running (m_ss h') = ss_armed (m_ss h)"
    using assms(1,2) by (simp add: assms(4) on_sync_reply_ss session_running_def NUM_SYNC_def Let_def)
  have rp: "read_packet (overlay (packet_bytes ?p) (ss_buf (m_ss g))) = ?p"
    using read_packet_overlay [of ?p "ss_buf (m_ss g)"] assms(5)
    by (simp add: overlay_def length_packet_bytes INPUT_LEN_def)
  have ty: "overlay (packet_bytes ?p) (ss_buf (m_ss g)) ! 4 = 8"
    unfolding overlay_def packet_head by (simp add: mk_packet_def)
  have g: "m_sync (handle eg tg (packet_bytes ?p) qg g) = peer_arm (or (ucast q) 1) 2 (m_sync g)"
    "m_ni (handle eg tg (packet_bytes ?p) qg g) = m_ni g"
    unfolding handle_packet [OF assms(5) refl] Let_def dispatch_def
    by (simp_all add: rp ty) (simp_all add: mk_packet_def)
  from sent obtain dests where "m_sent h' = m_sent h @ [(dests, Control ?p)]" by blast
  with sync run g show ?thesis
    by (intro exI [of _ dests] exI [of _ ?p]) (simp add: hk_seed_setter_def peer_arm_def Let_def)
qed

theorem seeds_agree_witness:
  "\<exists>dests p. m_sent (on_sync_reply demo_env (ss_nonce (m_ss (answered (replicate 4 (demo_env, 3, 9)) demo_session)))
       77 9 (answered (replicate 4 (demo_env, 3, 9)) demo_session))
     = m_sent (answered (replicate 4 (demo_env, 3, 9)) demo_session) @ [(dests, Control p)]"
proof -
  let ?h = "answered (replicate 4 (demo_env, 3, 9)) demo_session"
  have "ss_state (m_ss ?h) = SYNCING" "ss_sync_ok (m_ss ?h) = 4"
    using answered_steps [of demo_session "replicate 4 (demo_env, 3, 9)"]
    by (simp_all add: demo_session_facts)
  moreover have "\<not> pe_is_p2 demo_env" "length (ss_buf (m_ss machine_start)) = INPUT_LEN"
    by (simp_all add: demo_env_def machine_start_def session_start_def)
  ultimately show ?thesis
    using seeds_agree [of ?h demo_env _ 77 9 machine_start] by blast
qed

section \<open>Timers\<close>

text \<open>
  The timers of a running link: a pump that receives nothing gives the link up exactly when
  six seconds have passed without a packet, closing the socket, and otherwise keeps the session
  running; either way a keepalive has gone out within the last 200 ms and a quality probe within
  the last second. Once disconnected, pumping changes nothing and never reconnects.
\<close>

theorem link_timers:
  assumes "session_running (m_ss m)" "\<not> ss_relay_mode (m_ss m)"
  shows "let m' = session_pump e tid [] m; s = m_ss m; s' = m_ss m' in
    (ss_state s' = DISCONNECTED \<longleftrightarrow> 6000 \<le> elapsed (pe_now e) (ss_last_recv s))
    \<and> (session_running s' \<longleftrightarrow> elapsed (pe_now e) (ss_last_recv s) < 6000)
    \<and> elapsed (pe_now e) (ss_last_send s') < 200
    \<and> elapsed (pe_now e) (ss_last_qr s') < 1000
    \<and> (elapsed (pe_now e) (ss_last_send s) \<ge> 200 \<longrightarrow>
         Control (mk_packet MSG_KEEPALIVE 0 0) \<in> snd ` set (m_sent m'))
    \<and> (ss_state s' = DISCONNECTED \<longrightarrow> \<not> tr_sock (m_tr m') \<and> session_pump e2 tid2 as2 m' = m')"
proof -
  have s: "ss_armed (m_ss m)" "ss_state (m_ss m) = RUNNING"
    using assms(1) by (auto simp: session_running_def)
  have p: "session_pump e tid [] m = pump_running e m"
    using s assms(2) by (simp add: session_pump_def Let_def)
  have el: "elapsed t t = 0" for t by (simp add: elapsed_def)
  have ss: "m_ss (pump_running e m) =
      (let t = pe_now e; s = m_ss m; idle = elapsed t (ss_last_recv s);
           s1 = s\<lparr>ss_last_send := (if 200 \<le> elapsed t (ss_last_send s) then t else ss_last_send s),
                  ss_last_qr := (if 1000 \<le> elapsed t (ss_last_qr s) then t else ss_last_qr s),
                  ss_interrupted := (ss_interrupted s \<or> 2000 \<le> idle)\<rparr>
       in if 6000 \<le> idle then s1\<lparr>ss_state := DISCONNECTED, ss_armed := False, ss_peer_running := False\<rparr>
          else s1)"
    by (simp add: pump_running_def Let_def KEEPALIVE_MS_def QUALITY_MS_def INTERRUPT_MS_def
        DISCONNECT_MS_def)
  have sock: "6000 \<le> elapsed (pe_now e) (ss_last_recv (m_ss m)) \<longrightarrow> \<not> tr_sock (m_tr (pump_running e m))"
    by (simp add: pump_running_def Let_def DISCONNECT_MS_def transport_close_def)
  have keep: "200 \<le> elapsed (pe_now e) (ss_last_send (m_ss m)) \<longrightarrow>
      Control (mk_packet MSG_KEEPALIVE 0 0) \<in> snd ` set (m_sent (pump_running e m))"
    by (simp add: pump_running_def Let_def KEEPALIVE_MS_def m_send_sent)
  have dead: "session_pump e2 tid2 as2 m' = m'" if "\<not> ss_armed (m_ss m')" for m'
    using that by (simp add: session_pump_def)
  show ?thesis
    unfolding Let_def p
    using sock keep dead s
    by (auto simp: ss Let_def el session_running_def not_le)
qed

definition demo_running :: machine where
  "demo_running = answered (replicate 4 (demo_env, 3, 9) @ [(demo_env, 4, 9)]) demo_session"

lemma answered_fields:
  "ss_relay_mode (m_ss (answered rs m)) = ss_relay_mode (m_ss m)
   \<and> ss_last_recv (m_ss (answered rs m)) = ss_last_recv (m_ss m)"
  by (induction rs m rule: answered.induct)
    (simp_all add: on_sync_reply_ss Let_def sync_reply_rtt_def)

lemma demo_running_facts:
  "session_running (m_ss demo_running)" "\<not> ss_relay_mode (m_ss demo_running)"
  "ss_last_recv (m_ss demo_running) = 1000"
proof -
  have "ss_state (m_ss (answered (replicate 4 (demo_env, 3, 9)) demo_session)) = SYNCING"
    "ss_sync_ok (m_ss (answered (replicate 4 (demo_env, 3, 9)) demo_session)) = 4"
    "ss_armed (m_ss (answered (replicate 4 (demo_env, 3, 9)) demo_session))"
    using answered_steps [of demo_session "replicate 4 (demo_env, 3, 9)"]
    by (simp_all add: demo_session_facts)
  then show "session_running (m_ss demo_running)"
    unfolding demo_running_def answered_snoc
    by (simp add: on_sync_reply_ss session_running_def NUM_SYNC_def Let_def)
  have "\<not> ss_relay_mode (m_ss demo_session)" "ss_last_recv (m_ss demo_session) = 1000"
    by (simp_all add: demo_session_def session_init_def demo_env_def transport_open_def
        machine_start_def session_start_def transport_init_def config_default_def Let_def split_def)
  then show "\<not> ss_relay_mode (m_ss demo_running)" "ss_last_recv (m_ss demo_running) = 1000"
    by (simp_all add: demo_running_def answered_fields)
qed

theorem link_timers_witness:
  "ss_state (m_ss (session_pump (demo_env\<lparr>pe_now := 7000\<rparr>) 9 [] demo_running)) = DISCONNECTED"
  using link_timers [OF demo_running_facts(1,2), of "demo_env\<lparr>pe_now := 7000\<rparr>" 9]
  by (simp add: Let_def demo_running_facts elapsed_def)

section \<open>Round-trip time\<close>

lemma ring_low_upto:
  "n \<le> k \<Longrightarrow>
   (let lo = for_range 0 n (\<lambda>i lo. if r i \<noteq> 0 \<and> (lo = 0 \<or> r i < lo) then r i else lo) (0::u32) in
     (\<forall>i<n. r i \<noteq> 0 \<longrightarrow> lo \<noteq> 0 \<and> lo \<le> r i) \<and> (lo \<noteq> 0 \<longrightarrow> (\<exists>i<n. r i = lo)))"
proof (induction n)
  case 0
  then show ?case by simp
next
  case (Suc n)
  then show ?case
    by (auto simp: for_range_Suc Let_def less_Suc_eq)
qed

text \<open>
  The round-trip estimate. After a quality reply it is the smallest non-zero sample among the
  last eight, or the sample itself when all are zero. During the handshake it is not: a reply to
  the first request that arrives after a retry is timed from the retry, so a true trip of
  \<open>d \<ge> 500\<close> ms is recorded as \<open>d - 500\<close>.
\<close>

theorem rtt_estimate:
  assumes "500 \<le> d" "d < 1000" "ss_state (m_ss m) = SYNCING" "ss_rtt (m_ss m) = 0"
    and "ss_last_send (m_ss m) = t0" "t0 + 500 \<noteq> 0"
    and "pe_now e1 = t0 + 500" "pe_now e2 = t0 + d"
  shows "(let s' = note_quality sample s; r = ss_ring s' in
       (\<forall>i<8. r i \<noteq> 0 \<longrightarrow> ss_rtt s' \<le> r i)
       \<and> ((\<exists>i<8. r i \<noteq> 0 \<and> ss_rtt s' = r i) \<or> ss_rtt s' = sample \<and> (\<forall>i<8. r i = 0))
       \<and> r (ss_ring_n s mod 8) = sample)
    \<and> ss_nonce (m_ss (pump_syncing e1 m)) = ss_nonce (m_ss m)
    \<and> ss_rtt (m_ss (on_sync_reply e2 (ss_nonce (m_ss m)) q tid (pump_syncing e1 m))) = d - 500"
proof -
  let ?r = "(ss_ring s)(ss_ring_n s mod 8 := sample)"
  have low: "(\<forall>i<8. ?r i \<noteq> 0 \<longrightarrow> ring_low ?r \<noteq> 0 \<and> ring_low ?r \<le> ?r i)"
    "ring_low ?r \<noteq> 0 \<longrightarrow> (\<exists>i<8. ?r i = ring_low ?r)"
    using ring_low_upto [of 8 8 ?r] by (simp_all only: ring_low_def Let_def) blast+
  have f: "ss_ring (note_quality sample s) = ?r"
    "ss_rtt (note_quality sample s) = (if ring_low ?r \<noteq> 0 then ring_low ?r else sample)"
    by (simp_all add: note_quality_def Let_def)
  have pick: "(\<forall>i<8. r i \<noteq> 0 \<longrightarrow> (if lo \<noteq> 0 then lo else sample) \<le> r i)
       \<and> ((\<exists>i<8. r i \<noteq> 0 \<and> (if lo \<noteq> 0 then lo else sample) = r i)
           \<or> (if lo \<noteq> 0 then lo else sample) = sample \<and> (\<forall>i<8. r i = 0))"
    if "\<forall>i<8. r i \<noteq> 0 \<longrightarrow> lo \<noteq> 0 \<and> lo \<le> r i" "lo \<noteq> 0 \<longrightarrow> (\<exists>i<8. r i = lo)"
    for r :: "u32 carray" and lo
    using that by (cases "lo = 0") auto
  have q1: "(let s' = note_quality sample s; r = ss_ring s' in
       (\<forall>i<8. r i \<noteq> 0 \<longrightarrow> ss_rtt s' \<le> r i)
       \<and> ((\<exists>i<8. r i \<noteq> 0 \<and> ss_rtt s' = r i) \<or> ss_rtt s' = sample \<and> (\<forall>i<8. r i = 0))
       \<and> r (ss_ring_n s mod 8) = sample)"
    unfolding Let_def f
    by (intro conjI pick [OF low, THEN conjunct1] pick [OF low, THEN conjunct2]) (rule fun_upd_same)
  have "elapsed (pe_now e1) t0 = 500" by (simp add: assms(7))
  then have ps: "m_ss (pump_syncing e1 m) =
      (m_ss m)\<lparr>ss_req_ms := t0 + 500, ss_last_send := t0 + 500\<rparr>"
    using assms(5,7) by (simp add: pump_syncing_def SYNC_RETRY_MS_def Let_def)
  have "elapsed (pe_now e2) (t0 + 500) = d - 500" by (simp add: assms(8) elapsed_def)
  with q1 show ?thesis
    using assms(3,4,6) by (simp add: ps on_sync_reply_ss Let_def sync_reply_rtt_def)
qed

theorem rtt_estimate_witness:
  "ss_rtt (m_ss (on_sync_reply (demo_env\<lparr>pe_now := 1600\<rparr>) (ss_nonce (m_ss demo_session)) 1 2
     (pump_syncing (demo_env\<lparr>pe_now := 1500\<rparr>) demo_session))) = 100"
proof -
  have "ss_rtt (m_ss demo_session) = 0" "ss_last_send (m_ss demo_session) = 1000"
    by (simp_all add: demo_session_def session_init_def demo_env_def transport_open_def
        machine_start_def session_start_def transport_init_def config_default_def Let_def split_def)
  then show ?thesis
    using rtt_estimate [of 600 demo_session 1000 "demo_env\<lparr>pe_now := 1500\<rparr>" "demo_env\<lparr>pe_now := 1600\<rparr>"]
    by (simp add: demo_session_facts)
qed

end
