(* ===== verification/Arena_Carve.thy ===== *)
theory Arena_Carve
  imports Prelude "HOL-Library.Multiset"
begin

text \<open>
  The reservation side of \<open>src/src/arena.cpp\<close>: the hooks on VirtualAlloc and VirtualFree that carve
  64 KB-aligned ranges out of the 2 GB arena (free list first, then the watermark), the capacity
  donation that shares them, and the registry of donated regions. Offsets are relative to the
  arena base; \<open>size_t\<close> sums are written with their wrap at \<open>2 ^ 64\<close>. The fixed tables of 4096
  entries are lists whose pushes are dropped when full. The real VirtualAlloc / VirtualFree are
  the system's: a request that is passed on yields \<open>Passed\<close>, and \<open>commit_ok\<close> says whether the
  commit inside the arena succeeds.
\<close>

definition ARENA_SIZE :: nat where "ARENA_SIZE = 2 * 2 ^ 30"
definition PAGE_SIZE :: nat where "PAGE_SIZE = 4096"
definition ALLOC_GRANULARITY :: nat where "ALLOC_GRANULARITY = 64 * 1024"
definition HEAP_ZONE_SIZE :: nat where "HEAP_ZONE_SIZE = 256 * 1024 * 1024"
definition TABLE_CAP :: nat where "TABLE_CAP = 4096"
definition MAX_DONATIONS :: nat where "MAX_DONATIONS = 1024"

definition add64 :: "nat \<Rightarrow> nat \<Rightarrow> nat" where
  "add64 a b = (a + b) mod 2 ^ 64"

text \<open>\<open>(val + alignment - 1) & ~(alignment - 1)\<close> for a power of two.\<close>

definition align_up :: "nat \<Rightarrow> nat \<Rightarrow> nat" where
  "align_up v a = (let s = add64 v (a - 1) in s - s mod a)"

type_synonym block = "nat \<times> nat"

record arena =
  ar_ready :: bool
  ar_base :: nat
  ar_wm :: nat
  ar_wm_peak :: nat
  ar_committed :: "nat \<Rightarrow> bool"
  ar_committed_n :: nat
  ar_resv :: "block list"
  ar_free :: "block list"
  ar_mem :: "nat \<Rightarrow> u8"
  ar_donated :: "(nat \<times> nat \<times> nat) list"

definition find_reservation :: "nat \<Rightarrow> block list \<Rightarrow> nat option" where
  "find_reservation off rs = List.find (\<lambda>i. fst (rs ! i) = off) [0..<length rs]"

text \<open>\<open>table[i] = table[--count]\<close>.\<close>

definition swap_remove :: "nat \<Rightarrow> 'a list \<Rightarrow> 'a list" where
  "swap_remove i xs = (if i < length xs then butlast (xs[i := last xs]) else xs)"

definition push_capped :: "'a \<Rightarrow> 'a list \<Rightarrow> 'a list" where
  "push_capped x xs = (if length xs < TABLE_CAP then xs @ [x] else xs)"

definition alloc_from_free_list :: "nat \<Rightarrow> block list \<Rightarrow> (nat \<times> block list) option" where
  "alloc_from_free_list sz fl =
     (case List.find (\<lambda>i. sz \<le> snd (fl ! i)) [0..<length fl] of
        None \<Rightarrow> None
      | Some i \<Rightarrow>
          let (off, n) = fl ! i
          in Some (off, if n = sz then swap_remove i fl else fl[i := (off + sz, n - sz)]))"

text \<open>The carve both paths share: free list, else watermark; None when the arena is full.\<close>

definition carve :: "nat \<Rightarrow> arena \<Rightarrow> (nat \<times> arena) option" where
  "carve sz st =
     (case alloc_from_free_list sz (ar_free st) of
        Some (off, fl) \<Rightarrow> Some (off, st\<lparr>ar_free := fl, ar_resv := push_capped (off, sz) (ar_resv st)\<rparr>)
      | None \<Rightarrow>
          let off = align_up (ar_wm st) ALLOC_GRANULARITY
          in if ARENA_SIZE - HEAP_ZONE_SIZE < add64 off sz then None
             else Some (off, st\<lparr>ar_wm := add64 off sz,
                                ar_wm_peak := max (ar_wm_peak st) (add64 off sz),
                                ar_resv := push_capped (off, sz) (ar_resv st)\<rparr>))"

definition commit_pages :: "nat \<Rightarrow> nat \<Rightarrow> arena \<Rightarrow> arena" where
  "commit_pages start n st =
     for_range 0 n
       (\<lambda>p s. if ar_committed s (start + p) then s
              else s\<lparr>ar_committed := (ar_committed s)(start + p := True),
                     ar_committed_n := ar_committed_n s + 1\<rparr>) st"

definition MEM_COMMIT :: u32 where "MEM_COMMIT = 0x1000"
definition MEM_RESERVE :: u32 where "MEM_RESERVE = 0x2000"
definition MEM_DECOMMIT :: u32 where "MEM_DECOMMIT = 0x4000"
definition MEM_RELEASE :: u32 where "MEM_RELEASE = 0x8000"
definition PAGE_READWRITE :: u32 where "PAGE_READWRITE = 4"

datatype va_result = Address nat | Null | Passed

definition hk_VirtualAlloc ::
  "bool \<Rightarrow> nat \<Rightarrow> nat \<Rightarrow> u32 \<Rightarrow> u32 \<Rightarrow> arena \<Rightarrow> arena \<times> va_result" where
  "hk_VirtualAlloc commit_ok addr bytes ty protect st =
     (if \<not> ar_ready st then (st, Passed)
      else if protect \<noteq> PAGE_READWRITE then (st, Passed)
      else if addr = 0 \<and> and ty (or MEM_RESERVE MEM_COMMIT) \<noteq> 0 then
        (case carve (align_up bytes ALLOC_GRANULARITY) st of
           None \<Rightarrow> (st, Passed)
         | Some (off, st1) \<Rightarrow>
             if and ty MEM_COMMIT \<noteq> 0 then
               (if \<not> commit_ok then (st1, Null)
                else (commit_pages (off div PAGE_SIZE) (align_up bytes PAGE_SIZE div PAGE_SIZE) st1,
                      Address (ar_base st + off)))
             else (st1, Address (ar_base st + off)))
      else if ty = MEM_COMMIT \<and> addr \<noteq> 0 \<and> ar_base st \<le> addr \<and> addr < ar_base st + ARENA_SIZE then
        (if \<not> commit_ok then (st, Null)
         else (commit_pages ((addr - ar_base st) div PAGE_SIZE) (align_up bytes PAGE_SIZE div PAGE_SIZE) st,
               Address addr))
      else (st, Passed))"

definition zero_page :: "nat \<Rightarrow> (nat \<Rightarrow> u8) \<Rightarrow> nat \<Rightarrow> u8" where
  "zero_page p mem = (\<lambda>a. if a div PAGE_SIZE = p then 0 else mem a)"

text \<open>\<open>memset\<close> to zero of every committed page with index in \<open>[a, b)\<close>.\<close>

definition zero_committed :: "nat \<Rightarrow> nat \<Rightarrow> arena \<Rightarrow> arena" where
  "zero_committed a b st =
     for_range a b (\<lambda>p s. if ar_committed s p then s\<lparr>ar_mem := zero_page p (ar_mem s)\<rparr> else s) st"

datatype vf_result = Freed | Passed_Free

definition hk_VirtualFree :: "nat \<Rightarrow> nat \<Rightarrow> u32 \<Rightarrow> arena \<Rightarrow> arena \<times> vf_result" where
  "hk_VirtualFree addr bytes ty st =
     (if \<not> ar_ready st then (st, Passed_Free)
      else if addr < ar_base st \<or> ar_base st + ARENA_SIZE \<le> addr then (st, Passed_Free)
      else
        let off = addr - ar_base st in
        if ty = MEM_DECOMMIT then
          (zero_committed (off div PAGE_SIZE)
             (off div PAGE_SIZE + align_up bytes PAGE_SIZE div PAGE_SIZE) st, Freed)
        else if ty = MEM_RELEASE then
          (case find_reservation off (ar_resv st) of
             None \<Rightarrow> (st, Freed)
           | Some i \<Rightarrow>
               let n = snd (ar_resv st ! i);
                   st1 = zero_committed (off div PAGE_SIZE) ((off + n) div PAGE_SIZE) st
               in (st1\<lparr>ar_free := push_capped (off, n) (ar_free st1),
                       ar_resv := swap_remove i (ar_resv st1)\<rparr>, Freed))
        else (st, Passed_Free))"

section \<open>Donated regions\<close>

definition carve_donation_region :: "bool \<Rightarrow> nat \<Rightarrow> arena \<Rightarrow> arena \<times> nat option" where
  "carve_donation_region commit_ok bytes st =
     (if \<not> ar_ready st \<or> bytes = 0 then (st, None)
      else
        let sz = align_up bytes ALLOC_GRANULARITY in
        case carve sz st of
          None \<Rightarrow> (st, None)
        | Some (off, st1) \<Rightarrow>
            if \<not> commit_ok then (st1, None)
            else (commit_pages (off div PAGE_SIZE) (sz div PAGE_SIZE) st1, Some (ar_base st + off)))"

definition note_donated_region :: "nat \<Rightarrow> nat \<Rightarrow> nat \<Rightarrow> arena \<Rightarrow> arena" where
  "note_donated_region ctrl base bytes st =
     (if MAX_DONATIONS \<le> length (ar_donated st) then st
      else st\<lparr>ar_donated := ar_donated st @ [(ctrl, base, bytes)]\<rparr>)"

text \<open>\<open>pool ctrl\<close> is the pair of words the engine's allocator keeps at \<open>ctrl + 0x90\<close> and \<open>+ 0x98\<close>.\<close>

definition in_owned_pool :: "(nat \<Rightarrow> nat \<times> nat) \<Rightarrow> nat \<Rightarrow> nat \<Rightarrow> arena \<Rightarrow> bool" where
  "in_owned_pool pool ctrl addr st \<longleftrightarrow>
     (0x10000 < ctrl \<and> fst (pool ctrl) \<noteq> 0 \<and> fst (pool ctrl) \<le> addr \<and> addr < snd (pool ctrl))
     \<or> list_ex (\<lambda>(c, b, n). c = ctrl \<and> b \<le> addr \<and> addr < b + n) (ar_donated st)"

definition donated_region_get :: "int \<Rightarrow> arena \<Rightarrow> (nat \<times> nat \<times> nat) option" where
  "donated_region_get i st =
     (if i < 0 \<or> int (length (ar_donated st)) \<le> i then None else Some (ar_donated st ! nat i))"

section \<open>Facts\<close>

definition overlap :: "block \<Rightarrow> block \<Rightarrow> bool" where
  "overlap x y \<longleftrightarrow> fst x < fst y + snd y \<and> fst y < fst x + snd x \<and> 0 < snd x \<and> 0 < snd y"

text \<open>No two blocks overlap, at different places of the list.\<close>

fun disjoint_blocks :: "block list \<Rightarrow> bool" where
  "disjoint_blocks [] \<longleftrightarrow> True"
| "disjoint_blocks (b # bs) \<longleftrightarrow> (\<forall>c \<in> set bs. \<not> overlap b c) \<and> disjoint_blocks bs"

lemma overlap_sym: "overlap x y = overlap y x"
  by (auto simp: overlap_def)

lemma disjoint_append:
  "disjoint_blocks (xs @ ys) \<longleftrightarrow> disjoint_blocks xs \<and> disjoint_blocks ys
     \<and> (\<forall>x \<in> set xs. \<forall>y \<in> set ys. \<not> overlap x y)"
  by (induction xs) auto

text \<open>The same set of blocks with the same multiplicities is as disjoint.\<close>

lemma disjoint_perm: "mset xs = mset ys \<Longrightarrow> disjoint_blocks xs \<Longrightarrow> disjoint_blocks ys"
proof (induction xs arbitrary: ys)
  case Nil
  then show ?case by simp
next
  case (Cons x xs)
  from Cons.prems(1) have "x \<in> set ys" by (metis list.set_intros(1) set_mset_mset)
  then obtain as bs where ys: "ys = as @ x # bs" by (meson split_list)
  with Cons.prems(1) have m: "mset xs = mset (as @ bs)" by simp
  with Cons have "disjoint_blocks (as @ bs)" by simp
  moreover have "\<forall>c \<in> set (as @ bs). \<not> overlap x c"
    using Cons.prems(2) m by (metis disjoint_blocks.simps(2) set_mset_mset)
  ultimately show ?case
    by (auto simp: ys disjoint_append overlap_sym)
qed

lemma mset_swap_remove: "i < length xs \<Longrightarrow> add_mset (xs ! i) (mset (swap_remove i xs)) = mset xs"
proof -
  assume i: "i < length xs"
  then have ne: "xs \<noteq> []" by auto
  show ?thesis
  proof (cases "i = length xs - 1")
    case True
    then have "swap_remove i xs = butlast xs" "xs ! i = last xs"
      using i ne by (simp_all add: swap_remove_def last_conv_nth butlast_list_update)
    with ne show ?thesis by (metis append_butlast_last_id mset.simps union_commute mset_append
          add_mset_add_single)
  next
    case False
    with i have i': "i < length (butlast xs)" by simp
    have "swap_remove i xs = (butlast xs)[i := last xs]"
      using i False by (simp add: swap_remove_def butlast_list_update)
    moreover have "xs ! i = butlast xs ! i" using i' by (simp add: nth_butlast)
    ultimately have "add_mset (xs ! i) (mset (swap_remove i xs)) = add_mset (last xs) (mset (butlast xs))"
      using i' by (simp add: mset_update)
    with ne show ?thesis by (metis append_butlast_last_id mset.simps union_commute mset_append
          add_mset_add_single)
  qed
qed

lemma align_small:
  assumes "v < 2 ^ 62" "a = 4096 \<or> a = 65536"
  shows "v \<le> align_up v a" "align_up v a < v + a" "a dvd align_up v a"
proof -
  have s: "add64 v (a - 1) = v + (a - 1)"
    using assms by (auto simp: add64_def)
  have "(v + (a - 1)) mod a \<le> a - 1" using assms(2) by (auto simp: less_Suc_eq_le [symmetric])
  then show "v \<le> align_up v a" "align_up v a < v + a"
    unfolding align_up_def Let_def s using assms(2) by linarith+
  show "a dvd align_up v a" by (simp add: align_up_def Let_def minus_mod_eq_mult_div)
qed

lemma align_multiple: "65536 dvd v \<Longrightarrow> v < 2 ^ 62 \<Longrightarrow> align_up v 65536 = v"
proof -
  assume v: "65536 dvd v" "v < 2 ^ 62"
  then have "add64 v 65535 = v + 65535" by (simp add: add64_def)
  moreover have "(v + 65535) mod 65536 = 65535"
    using v(1) by (auto elim!: dvdE)
  ultimately show ?thesis by (simp add: align_up_def)
qed

lemma zero_committed_simps [simp]:
  "ar_committed (zero_committed a b st) = ar_committed st"
  "ar_resv (zero_committed a b st) = ar_resv st" "ar_free (zero_committed a b st) = ar_free st"
  "ar_wm (zero_committed a b st) = ar_wm st" "ar_base (zero_committed a b st) = ar_base st"
  "ar_ready (zero_committed a b st) = ar_ready st"
proof -
  have "ar_committed s = ar_committed st \<and> ar_resv s = ar_resv st \<and> ar_free s = ar_free st
      \<and> ar_wm s = ar_wm st \<and> ar_base s = ar_base st \<and> ar_ready s = ar_ready st"
    if "s = zero_committed a b st" for s
    unfolding that zero_committed_def by (rule for_range_invariant) auto
  then show "ar_committed (zero_committed a b st) = ar_committed st"
    "ar_resv (zero_committed a b st) = ar_resv st" "ar_free (zero_committed a b st) = ar_free st"
    "ar_wm (zero_committed a b st) = ar_wm st" "ar_base (zero_committed a b st) = ar_base st"
    "ar_ready (zero_committed a b st) = ar_ready st" by blast+
qed

lemma zero_committed_mem:
  "ar_mem (zero_committed a b st) x =
     (if a \<le> x div PAGE_SIZE \<and> x div PAGE_SIZE < b \<and> ar_committed st (x div PAGE_SIZE) then 0
      else ar_mem st x)"
proof (cases "a \<le> b")
  case True
  then show ?thesis
  proof (induction b rule: dec_induct)
    case base
    then show ?case by (auto simp: zero_committed_def)
  next
    case (step n)
    have "ar_mem (zero_committed a (Suc n) st) x =
        (if ar_committed st n then zero_page n (ar_mem (zero_committed a n st)) x
         else ar_mem (zero_committed a n st) x)"
      using step(1) zero_committed_simps(1) [of a n st]
      by (simp add: zero_committed_def for_range_Suc)
    with step show ?case by (auto simp: zero_page_def)
  qed
qed (auto simp: zero_committed_def)

lemma commit_pages_simps [simp]:
  "ar_resv (commit_pages a n st) = ar_resv st" "ar_free (commit_pages a n st) = ar_free st"
  "ar_wm (commit_pages a n st) = ar_wm st" "ar_mem (commit_pages a n st) = ar_mem st"
  "ar_base (commit_pages a n st) = ar_base st" "ar_ready (commit_pages a n st) = ar_ready st"
proof -
  have "ar_resv s = ar_resv st \<and> ar_free s = ar_free st \<and> ar_wm s = ar_wm st \<and> ar_mem s = ar_mem st
      \<and> ar_base s = ar_base st \<and> ar_ready s = ar_ready st"
    if "s = commit_pages a n st" for s
    unfolding that commit_pages_def by (rule for_range_invariant) auto
  then show "ar_resv (commit_pages a n st) = ar_resv st" "ar_free (commit_pages a n st) = ar_free st"
    "ar_wm (commit_pages a n st) = ar_wm st" "ar_mem (commit_pages a n st) = ar_mem st"
    "ar_base (commit_pages a n st) = ar_base st" "ar_ready (commit_pages a n st) = ar_ready st" by blast+
qed

lemma commit_pages_mono: "ar_committed st p \<Longrightarrow> ar_committed (commit_pages a n st) p"
  unfolding commit_pages_def
  by (rule for_range_invariant [where P = "\<lambda>s. ar_committed s p"]) auto

section \<open>The carve invariant\<close>

definition CARVE_END :: nat where "CARVE_END = ARENA_SIZE - HEAP_ZONE_SIZE"

definition block_ok :: "nat \<Rightarrow> block \<Rightarrow> bool" where
  "block_ok wm b \<longleftrightarrow> 65536 dvd fst b \<and> 65536 dvd snd b \<and> 0 < snd b \<and> fst b + snd b \<le> wm"

definition in_block :: "nat \<Rightarrow> block \<Rightarrow> bool" where
  "in_block a b \<longleftrightarrow> fst b \<le> a \<and> a < fst b + snd b"

text \<open>\<open>L\<close> is the list of the ranges handed out and not released.\<close>

definition carve_inv :: "arena \<Rightarrow> block list \<Rightarrow> bool" where
  "carve_inv st L \<longleftrightarrow> ar_wm st \<le> CARVE_END \<and> 65536 dvd ar_wm st
     \<and> (\<forall>b \<in> set (ar_free st @ L). block_ok (ar_wm st) b)
     \<and> disjoint_blocks (ar_free st @ L)
     \<and> mset (ar_resv st) \<subseteq># mset L
     \<and> (\<forall>a. ar_mem st a \<noteq> 0 \<longrightarrow> ar_committed st (a div PAGE_SIZE) \<and> (\<exists>b \<in> set L. in_block a b))"

lemma disjoint_split:
  assumes "disjoint_blocks ((off, n) # bs)" "s \<le> n"
  shows "disjoint_blocks ((off + s, n - s) # (off, s) # bs)"
proof -
  have "\<not> overlap (off + s, n - s) c" "\<not> overlap (off, s) c" if "c \<in> set bs" for c
  proof -
    have "\<not> overlap (off, n) c" using assms(1) that by simp
    then show "\<not> overlap (off + s, n - s) c" "\<not> overlap (off, s) c"
      using assms(2) by (auto simp: overlap_def)
  qed
  then show ?thesis using assms by (auto simp: overlap_def)
qed

lemma free_list_carve:
  assumes "alloc_from_free_list s fl = Some (off, fl')" "0 < s" "65536 dvd s"
    and "\<forall>b \<in> set fl. block_ok wm b" "disjoint_blocks (fl @ L)"
  shows "disjoint_blocks (fl' @ (off, s) # L)" "\<forall>b \<in> set fl'. block_ok wm b" "block_ok wm (off, s)"
proof -
  from assms(1) obtain i n where i: "i < length fl" "fl ! i = (off, n)" "s \<le> n"
    and fl': "fl' = (if n = s then swap_remove i fl else fl[i := (off + s, n - s)])"
    by (fastforce simp: alloc_from_free_list_def find_Some_iff split: option.splits prod.splits)
  let ?rest = "swap_remove i fl"
  have m: "mset fl = add_mset (off, n) (mset ?rest)" using mset_swap_remove [OF i(1)] i(2) by simp
  then have dj: "disjoint_blocks ((off, n) # ?rest @ L)"
    using disjoint_perm [OF _ assms(5), of "(off, n) # ?rest @ L"] by simp
  have ok: "block_ok wm (off, n)" "\<forall>b \<in> set ?rest. block_ok wm b"
    using assms(4) m i by (auto simp flip: set_mset_mset)
  then show okb: "block_ok wm (off, s)" using assms(2,3) i(3) by (auto simp: block_ok_def)
  show "disjoint_blocks (fl' @ (off, s) # L)"
  proof (cases "n = s")
    case True
    then show ?thesis using disjoint_perm [OF _ dj, of "fl' @ (off, s) # L"] by (simp add: fl')
  next
    case False
    have "mset fl' = add_mset (off + s, n - s) (mset ?rest)"
      using False i m by (simp add: fl' mset_update)
    then show ?thesis
      using disjoint_perm [OF _ disjoint_split [OF dj i(3)], of "fl' @ (off, s) # L"] by simp
  qed
  show "\<forall>b \<in> set fl'. block_ok wm b"
  proof (cases "n = s")
    case False
    with ok(1) i(3) assms(2,3) have "block_ok wm (off + s, n - s)"
      by (auto simp: block_ok_def dvd_diff_nat)
    moreover have "set fl' \<subseteq> insert (off + s, n - s) (set fl)"
      using False by (simp add: fl' set_update_subset_insert)
    ultimately show ?thesis using assms(4) by auto
  qed (use ok(2) in \<open>simp add: fl'\<close>)
qed

lemma push_capped_subset: "mset rs \<subseteq># mset L \<Longrightarrow> mset (push_capped b rs) \<subseteq># mset (b # L)"
  using subset_mset.order_trans [of "mset rs" "mset L" "add_mset b (mset L)"]
  by (simp add: push_capped_def)

lemma block_ok_mono: "block_ok a b \<Longrightarrow> a \<le> c \<Longrightarrow> block_ok c b"
  by (auto simp: block_ok_def)

lemma carve_preserves:
  assumes "carve_inv st L" "carve s st = Some (off, st1)" "0 < s" "65536 dvd s" "s \<le> 2 ^ 41"
  shows "carve_inv st1 ((off, s) # L)" "block_ok CARVE_END (off, s)"
    "\<forall>b \<in> set L. \<not> overlap (off, s) b" "\<forall>a. in_block a (off, s) \<longrightarrow> ar_mem st1 a = 0"
    "ar_base st1 = ar_base st" "ar_ready st1 = ar_ready st"
proof -
  note inv = assms(1) [unfolded carve_inv_def]
  have end62: "CARVE_END < 2 ^ 32" by (simp add: CARVE_END_def ARENA_SIZE_def HEAP_ZONE_SIZE_def)
  have sub: "mset (push_capped (off, s) (ar_resv st)) \<subseteq># mset ((off, s) # L)"
    using inv by (intro push_capped_subset) simp
  have main: "carve_inv st1 ((off, s) # L) \<and> block_ok CARVE_END (off, s) \<and> ar_mem st1 = ar_mem st
      \<and> ar_base st1 = ar_base st \<and> ar_ready st1 = ar_ready st"
  proof (cases "alloc_from_free_list s (ar_free st)")
    case (Some r)
    obtain o' fl' where r: "r = (o', fl')" by force
    with assms(2) Some have st1: "st1 = st\<lparr>ar_free := fl', ar_resv := push_capped (off, s) (ar_resv st)\<rparr>"
      and o': "o' = off" by (auto simp: carve_def)
    note F = free_list_carve [OF Some [unfolded r o'] assms(3,4), of "ar_wm st" L]
    show ?thesis
      using inv F sub block_ok_mono [of "ar_wm st" "(off, s)" CARVE_END]
      by (auto simp: carve_inv_def st1)
  next
    case None
    let ?o = "align_up (ar_wm st) ALLOC_GRANULARITY"
    have o': "?o = ar_wm st"
      using inv end62 by (simp add: ALLOC_GRANULARITY_def align_multiple)
    have sum: "add64 (ar_wm st) s = ar_wm st + s"
      using inv end62 assms(5) by (simp add: add64_def)
    with assms(2) None o' have off: "off = ar_wm st" "ar_wm st + s \<le> CARVE_END"
      and st1: "st1 = st\<lparr>ar_wm := ar_wm st + s, ar_wm_peak := max (ar_wm_peak st) (ar_wm st + s),
          ar_resv := push_capped (off, s) (ar_resv st)\<rparr>"
      by (auto simp: carve_def Let_def CARVE_END_def split: if_splits)
    have "\<not> overlap (off, s) b" if "b \<in> set (ar_free st @ L)" for b
    proof -
      have "fst b + snd b \<le> ar_wm st" using inv that by (auto simp: block_ok_def)
      then show ?thesis by (simp add: overlap_def off)
    qed
    then have "disjoint_blocks (ar_free st @ (off, s) # L)"
      using inv by (auto simp: disjoint_append overlap_sym)
    moreover have "\<forall>b \<in> set (ar_free st @ L). block_ok (ar_wm st + s) b"
      using inv block_ok_mono [of "ar_wm st" _ "ar_wm st + s"] by simp
    moreover have "block_ok (ar_wm st + s) (off, s)" "65536 dvd ar_wm st + s"
      using inv assms(3,4) by (simp_all add: block_ok_def off dvd_add)
    moreover from this off have "block_ok CARVE_END (off, s)"
      using block_ok_mono by blast
    ultimately show ?thesis
      using inv sub off by (auto simp: carve_inv_def st1)
  qed
  then show inv1: "carve_inv st1 ((off, s) # L)" and "block_ok CARVE_END (off, s)"
    and "ar_base st1 = ar_base st" "ar_ready st1 = ar_ready st" by blast+
  show free: "\<forall>b \<in> set L. \<not> overlap (off, s) b"
    using inv1 by (simp add: carve_inv_def disjoint_append)
  have "ar_mem st1 a = 0" if "in_block a (off, s)" for a
  proof (rule ccontr)
    assume "ar_mem st1 a \<noteq> 0"
    with main inv obtain b where "b \<in> set L" "in_block a b" by metis
    with free that show False by (auto simp: overlap_def in_block_def)
  qed
  then show "\<forall>a. in_block a (off, s) \<longrightarrow> ar_mem st1 a = 0" by blast
qed

lemma commit_inv: "carve_inv st L \<Longrightarrow> carve_inv (commit_pages a n st) L"
  using commit_pages_mono by (auto simp: carve_inv_def)

lemma zero_inv: "carve_inv st L \<Longrightarrow> carve_inv (zero_committed a b st) L"
  by (auto simp: carve_inv_def zero_committed_mem)

lemma block_pages:
  assumes "65536 dvd off" "65536 dvd n" "in_block a (off, n)"
  shows "off div PAGE_SIZE \<le> a div PAGE_SIZE" "a div PAGE_SIZE < (off + n) div PAGE_SIZE"
proof -
  have "4096 dvd off + n" using assms(1,2) by (intro dvd_add) (auto intro: dvd_trans [of 4096 65536])
  then obtain k where k: "off + n = 4096 * k" by blast
  with assms(3) have "a < k * 4096" by (simp add: in_block_def)
  then show "a div PAGE_SIZE < (off + n) div PAGE_SIZE"
    by (simp add: k PAGE_SIZE_def less_mult_imp_div_less)
  show "off div PAGE_SIZE \<le> a div PAGE_SIZE"
    using assms(3) by (simp add: in_block_def div_le_mono)
qed

lemma mset_sub_remove:
  "mset A = add_mset x (mset B) \<Longrightarrow> mset L = add_mset x (mset M) \<Longrightarrow> mset A \<subseteq># mset L \<Longrightarrow>
   mset B \<subseteq># mset M"
  by simp

lemma release_preserves:
  assumes "carve_inv st L" "find_reservation off (ar_resv st) = Some i" "n = snd (ar_resv st ! i)"
  shows "(off, n) \<in> set L"
    "carve_inv (zero_committed (off div PAGE_SIZE) ((off + n) div PAGE_SIZE) st
       \<lparr>ar_free := push_capped (off, n) (ar_free st), ar_resv := swap_remove i (ar_resv st)\<rparr>)
       (remove1 (off, n) L)"
proof -
  note inv = assms(1) [unfolded carve_inv_def]
  from assms(2,3) have i: "i < length (ar_resv st)" "ar_resv st ! i = (off, n)"
    by (auto simp: find_reservation_def find_Some_iff prod_eq_iff)
  have m: "mset (ar_resv st) = add_mset (off, n) (mset (swap_remove i (ar_resv st)))"
    using mset_swap_remove [OF i(1)] i(2) by simp
  then have "(off, n) \<in># mset (ar_resv st)" by simp
  with inv have "(off, n) \<in># mset L" by (meson mset_subset_eqD)
  then show inL: "(off, n) \<in> set L" by simp
  then have mL: "mset L = add_mset (off, n) (mset (remove1 (off, n) L))" by simp
  have sub: "mset (swap_remove i (ar_resv st)) \<subseteq># mset (remove1 (off, n) L)"
    using mset_sub_remove [OF m mL] inv by blast
  have dj: "disjoint_blocks ((off, n) # ar_free st @ remove1 (off, n) L)"
  proof (rule disjoint_perm)
    show "disjoint_blocks (ar_free st @ L)" using inv by blast
    show "mset (ar_free st @ L) = mset ((off, n) # ar_free st @ remove1 (off, n) L)"
      by (simp only: mset_append mL mset.simps union_mset_add_mset_right)
  qed
  then have dj': "disjoint_blocks (push_capped (off, n) (ar_free st) @ remove1 (off, n) L)"
    by (auto simp: push_capped_def disjoint_append overlap_sym)
  have ok: "block_ok (ar_wm st) (off, n)" using inv inL by auto
  have okr: "\<forall>b \<in> set (push_capped (off, n) (ar_free st) @ remove1 (off, n) L). block_ok (ar_wm st) b"
    using inv ok by (auto simp: push_capped_def dest: notin_set_remove1)
  have mem: "\<exists>b \<in> set (remove1 (off, n) L). in_block a b"
    if "ar_mem (zero_committed (off div PAGE_SIZE) ((off + n) div PAGE_SIZE) st) a \<noteq> 0" for a
  proof -
    from that have nz: "ar_mem st a \<noteq> 0" "\<not> (off div PAGE_SIZE \<le> a div PAGE_SIZE
        \<and> a div PAGE_SIZE < (off + n) div PAGE_SIZE \<and> ar_committed st (a div PAGE_SIZE))"
      by (auto simp: zero_committed_mem split: if_splits)
    with inv obtain b where b: "b \<in> set L" "in_block a b" and c: "ar_committed st (a div PAGE_SIZE)" by metis
    have "b \<noteq> (off, n)" using block_pages [of off n a] ok nz(2) b(2) c by (auto simp: block_ok_def)
    with b show ?thesis by (metis in_set_remove1)
  qed
  show "carve_inv (zero_committed (off div PAGE_SIZE) ((off + n) div PAGE_SIZE) st
       \<lparr>ar_free := push_capped (off, n) (ar_free st), ar_resv := swap_remove i (ar_resv st)\<rparr>)
       (remove1 (off, n) L)"
    unfolding carve_inv_def using inv sub dj' okr mem zero_inv [OF assms(1)]
    by (auto simp: carve_inv_def)
qed

section \<open>Runs\<close>

definition arena_init :: "nat \<Rightarrow> arena" where
  "arena_init base = \<lparr>ar_ready = True, ar_base = base, ar_wm = 0, ar_wm_peak = 0,
     ar_committed = (\<lambda>_. False), ar_committed_n = 0, ar_resv = [], ar_free = [],
     ar_mem = (\<lambda>_. 0), ar_donated = []\<rparr>"

text \<open>How the ghost list of live ranges changes with a carve and with a release.\<close>

definition live_carve :: "nat \<Rightarrow> arena \<Rightarrow> block list \<Rightarrow> block list" where
  "live_carve sz st L = (case carve sz st of Some (off, _) \<Rightarrow> (off, sz) # L | None \<Rightarrow> L)"

definition live_release :: "nat \<Rightarrow> arena \<Rightarrow> block list \<Rightarrow> block list" where
  "live_release off st L = (case find_reservation off (ar_resv st) of
     Some i \<Rightarrow> remove1 (off, snd (ar_resv st ! i)) L | None \<Rightarrow> L)"

definition carving :: "nat \<Rightarrow> u32 \<Rightarrow> u32 \<Rightarrow> bool" where
  "carving addr ty protect \<longleftrightarrow> protect = PAGE_READWRITE \<and> addr = 0 \<and> and ty (or MEM_RESERVE MEM_COMMIT) \<noteq> 0"

text \<open>
  Any interleaving of the hooks, of donations and of the game's writes into committed live memory,
  with requests of at most a terabyte.
\<close>

inductive ar_reach :: "arena \<Rightarrow> block list \<Rightarrow> bool" where
  start: "ar_reach (arena_init base) []"
| alloc: "ar_reach st L \<Longrightarrow> 0 < bytes \<Longrightarrow> bytes \<le> 2 ^ 40 \<Longrightarrow> ar_ready st \<Longrightarrow>
    ar_reach (fst (hk_VirtualAlloc ok addr bytes ty protect st))
      (if carving addr ty protect then live_carve (align_up bytes ALLOC_GRANULARITY) st L else L)"
| donate: "ar_reach st L \<Longrightarrow> 0 < bytes \<Longrightarrow> bytes \<le> 2 ^ 40 \<Longrightarrow> ar_ready st \<Longrightarrow>
    ar_reach (fst (carve_donation_region ok bytes st)) (live_carve (align_up bytes ALLOC_GRANULARITY) st L)"
| register: "ar_reach st L \<Longrightarrow> ar_reach (note_donated_region c b n st) L"
| free: "ar_reach st L \<Longrightarrow> ar_ready st \<Longrightarrow>
    ar_reach (fst (hk_VirtualFree addr bytes ty st))
      (if ar_base st \<le> addr \<and> addr < ar_base st + ARENA_SIZE \<and> ty = MEM_RELEASE
       then live_release (addr - ar_base st) st L else L)"
| poke: "ar_reach st L \<Longrightarrow> ar_committed st (a div PAGE_SIZE) \<Longrightarrow> b \<in> set L \<Longrightarrow> in_block a b \<Longrightarrow>
    ar_reach (st\<lparr>ar_mem := (ar_mem st)(a := v)\<rparr>) L"

lemma carve_size:
  assumes "0 < bytes" "bytes \<le> 2 ^ 40"
  shows "0 < align_up bytes ALLOC_GRANULARITY" "65536 dvd align_up bytes ALLOC_GRANULARITY"
    "align_up bytes ALLOC_GRANULARITY \<le> 2 ^ 41" "bytes \<le> align_up bytes ALLOC_GRANULARITY"
proof -
  have "bytes < 2 ^ 62" using assms(2) by simp
  note A = align_small [OF this, of 65536]
  from A assms show "0 < align_up bytes ALLOC_GRANULARITY" "65536 dvd align_up bytes ALLOC_GRANULARITY"
    "align_up bytes ALLOC_GRANULARITY \<le> 2 ^ 41" "bytes \<le> align_up bytes ALLOC_GRANULARITY"
    by (simp_all add: ALLOC_GRANULARITY_def)
qed

lemma alloc_inv:
  assumes "carve_inv st L" "0 < bytes" "bytes \<le> 2 ^ 40" "ar_ready st"
  shows "carve_inv (fst (hk_VirtualAlloc ok addr bytes ty protect st))
      (if carving addr ty protect then live_carve (align_up bytes ALLOC_GRANULARITY) st L else L)"
proof (cases "carving addr ty protect")
  case True
  note sz = carve_size [OF assms(2,3)]
  show ?thesis
  proof (cases "carve (align_up bytes ALLOC_GRANULARITY) st")
    case None
    with True assms show ?thesis by (simp add: hk_VirtualAlloc_def carving_def live_carve_def)
  next
    case (Some r)
    obtain off st1 where r: "r = (off, st1)" by force
    note P = carve_preserves(1) [OF assms(1) Some [unfolded r] sz(1-3)]
    show ?thesis
      using True assms(4) P Some commit_inv [OF P]
      by (simp add: hk_VirtualAlloc_def carving_def live_carve_def r)
  qed
next
  case False
  with assms commit_inv [OF assms(1)] show ?thesis
    unfolding hk_VirtualAlloc_def carving_def by auto
qed

lemma donate_inv:
  assumes "carve_inv st L" "0 < bytes" "bytes \<le> 2 ^ 40" "ar_ready st"
  shows "carve_inv (fst (carve_donation_region ok bytes st))
      (live_carve (align_up bytes ALLOC_GRANULARITY) st L)"
proof (cases "carve (align_up bytes ALLOC_GRANULARITY) st")
  case None
  with assms show ?thesis by (simp add: carve_donation_region_def live_carve_def Let_def)
next
  case (Some r)
  obtain off st1 where r: "r = (off, st1)" by force
  note P = carve_preserves(1) [OF assms(1) Some [unfolded r] carve_size(1-3) [OF assms(2,3)]]
  show ?thesis
    using assms(2,4) P Some commit_inv [OF P]
    by (simp add: carve_donation_region_def live_carve_def r Let_def)
qed

lemma free_inv:
  assumes "carve_inv st L" "ar_ready st"
  shows "carve_inv (fst (hk_VirtualFree addr bytes ty st))
      (if ar_base st \<le> addr \<and> addr < ar_base st + ARENA_SIZE \<and> ty = MEM_RELEASE
       then live_release (addr - ar_base st) st L else L)"
proof (cases "ar_base st \<le> addr \<and> addr < ar_base st + ARENA_SIZE \<and> ty = MEM_RELEASE")
  case True
  then have ty: "ty \<noteq> MEM_DECOMMIT" by (simp add: MEM_RELEASE_def MEM_DECOMMIT_def)
  show ?thesis
  proof (cases "find_reservation (addr - ar_base st) (ar_resv st)")
    case None
    with True assms ty show ?thesis by (simp add: hk_VirtualFree_def live_release_def Let_def)
  next
    case (Some i)
    with True assms(2) ty release_preserves(2) [OF assms(1) Some refl] show ?thesis
      by (simp add: hk_VirtualFree_def live_release_def Let_def)
  qed
next
  case False
  with assms zero_inv [OF assms(1)] show ?thesis
    unfolding hk_VirtualFree_def Let_def by auto
qed

lemma ar_reach_inv: "ar_reach st L \<Longrightarrow> carve_inv st L"
proof (induction rule: ar_reach.induct)
  case (start base)
  then show ?case by (simp add: carve_inv_def arena_init_def)
next
  case (register st L c b n)
  then show ?case by (simp add: carve_inv_def note_donated_region_def)
next
  case (poke st L a b v)
  then show ?case by (auto simp: carve_inv_def)
qed (simp_all only: alloc_inv donate_inv free_inv)

text \<open>
  C38. The arena never hands out memory twice. After any run of allocations, releases, decommits,
  donations and writes, a new range carved for the game overlaps no live range, is 64 KB aligned,
  lies below the heap zone and reads as zero throughout, like fresh memory from the system, even
  where a released range held data before.
\<close>

theorem arena_ranges_fresh:
  assumes "ar_reach st L" "ar_ready st" "0 < bytes" "bytes \<le> 2 ^ 40"
    and "and ty (or MEM_RESERVE MEM_COMMIT) \<noteq> 0"
    and "hk_VirtualAlloc ok 0 bytes ty PAGE_READWRITE st = (st', Address a)"
  shows "\<exists>off. a = ar_base st + off \<and> 65536 dvd off
    \<and> off + bytes \<le> ARENA_SIZE - HEAP_ZONE_SIZE
    \<and> (\<forall>b \<in> set L. \<not> overlap (off, align_up bytes ALLOC_GRANULARITY) b)
    \<and> (\<forall>x < bytes. ar_mem st' (off + x) = 0)"
proof -
  note sz = carve_size [OF assms(3,4)]
  from assms(2,5,6) obtain off st1 where c: "carve (align_up bytes ALLOC_GRANULARITY) st = Some (off, st1)"
    and a: "a = ar_base st + off" and m: "ar_mem st' = ar_mem st1"
    by (auto simp: hk_VirtualAlloc_def split: option.splits if_splits)
  note P = carve_preserves [OF ar_reach_inv [OF assms(1)] c sz(1-3)]
  from P(2) sz(4) have "65536 dvd off" "off + bytes \<le> ARENA_SIZE - HEAP_ZONE_SIZE"
    by (auto simp: block_ok_def CARVE_END_def)
  moreover have "ar_mem st' (off + x) = 0" if "x < bytes" for x
    using P(4) sz(4) that by (simp add: m in_block_def)
  ultimately show ?thesis using P(3) a by blast
qed

theorem arena_ranges_fresh_witness:
  "\<exists>off. 0x30000000 = ar_base (arena_init 0x30000000) + off \<and> 65536 dvd off"
proof -
  have c: "carve (align_up 100 ALLOC_GRANULARITY) (arena_init 0x30000000)
      = Some (0, (arena_init 0x30000000)\<lparr>ar_wm := 65536, ar_wm_peak := 65536, ar_resv := [(0, 65536)]\<rparr>)"
    by (simp add: carve_def arena_init_def alloc_from_free_list_def align_up_def add64_def
        ALLOC_GRANULARITY_def ARENA_SIZE_def HEAP_ZONE_SIZE_def push_capped_def TABLE_CAP_def Let_def)
  have "hk_VirtualAlloc True 0 100 MEM_RESERVE PAGE_READWRITE (arena_init 0x30000000) =
      ((arena_init 0x30000000)\<lparr>ar_wm := 65536, ar_wm_peak := 65536, ar_resv := [(0, 65536)]\<rparr>,
       Address 0x30000000)"
    by (simp add: hk_VirtualAlloc_def c MEM_RESERVE_def MEM_COMMIT_def) (simp add: arena_init_def)
  from arena_ranges_fresh [OF ar_reach.start _ _ _ _ this] show ?thesis
    by (auto simp: arena_init_def MEM_RESERVE_def MEM_COMMIT_def)
qed

end
