(* ===== verification/Heap_Zone.thy ===== *)
theory Heap_Zone
  imports Wire Arena_Carve
begin

text \<open>
  The 256 MB heap zone of \<open>src/src/arena.cpp\<close>: the bump allocator the HeapAlloc family is redirected
  to, with its 16-byte headers, and the default-allocator entry. Zone memory is a function from
  zone offsets to bytes; the real heap is the system's, and a request that goes there yields
  \<open>Real_Heap\<close>.
\<close>

definition HEAP_ZONE_GUARD :: nat where "HEAP_ZONE_GUARD = 1024 * 1024"
definition HEAP_HEADER_SIZE :: nat where "HEAP_HEADER_SIZE = 16"

definition enc64 :: "u64 \<Rightarrow> u8 list" where
  "enc64 w = enc32 (ucast w) @ enc32 (ucast (drop_bit 32 w))"

definition dec64 :: "u8 list \<Rightarrow> u64" where
  "dec64 bs = or (ucast (dec32 (take 4 bs))) (push_bit 32 (ucast (dec32 (drop 4 bs))))"

definition poke_bytes :: "nat \<Rightarrow> u8 list \<Rightarrow> (nat \<Rightarrow> u8) \<Rightarrow> nat \<Rightarrow> u8" where
  "poke_bytes off bs mem = (\<lambda>a. if off \<le> a \<and> a < off + length bs then bs ! (a - off) else mem a)"

definition peek_bytes :: "nat \<Rightarrow> nat \<Rightarrow> (nat \<Rightarrow> u8) \<Rightarrow> u8 list" where
  "peek_bytes off n mem = map (\<lambda>i. mem (off + i)) [0..<n]"

record heap_zone =
  hz_base :: nat
  hz_off :: nat
  hz_mem :: "nat \<Rightarrow> u8"
  hz_fallbacks :: nat
  hz_redirect :: bool

datatype hz_result = In_Zone nat | Real_Heap | Zone_Null

text \<open>The atomic add: the block's offset is the old value, and the bump stays even on failure.\<close>

definition zone_bump :: "nat \<Rightarrow> heap_zone \<Rightarrow> nat \<times> heap_zone" where
  "zone_bump tot st = (hz_off st, st\<lparr>hz_off := add64 (hz_off st) tot\<rparr>)"

definition zone_full :: "nat \<Rightarrow> nat \<Rightarrow> bool" where
  "zone_full off tot \<longleftrightarrow> HEAP_ZONE_SIZE - HEAP_ZONE_GUARD < add64 off tot"

definition heap_zone_alloc :: "nat \<Rightarrow> heap_zone \<Rightarrow> heap_zone \<times> hz_result" where
  "heap_zone_alloc n st =
     (let tot = add64 (align_up n 16) HEAP_HEADER_SIZE;
          (off, st1) = zone_bump tot st
      in if zone_full off tot then (st1, Real_Heap)
         else (st1\<lparr>hz_mem := poke_bytes off (enc64 (of_nat n)) (hz_mem st1)\<rparr>,
               In_Zone (hz_base st + off + HEAP_HEADER_SIZE)))"

definition is_heap_zone_addr :: "nat \<Rightarrow> heap_zone \<Rightarrow> bool" where
  "is_heap_zone_addr a st \<longleftrightarrow> hz_base st \<le> a \<and> a < hz_base st + HEAP_ZONE_SIZE"

definition hk_HeapAlloc :: "bool \<Rightarrow> bool \<Rightarrow> nat \<Rightarrow> heap_zone \<Rightarrow> heap_zone \<times> hz_result" where
  "hk_HeapAlloc ready zero_flag n st =
     (if \<not> ready \<or> \<not> hz_redirect st then (st, Real_Heap)
      else case heap_zone_alloc n st of
        (st1, In_Zone p) \<Rightarrow>
          (if zero_flag
           then st1\<lparr>hz_mem := poke_bytes (p - hz_base st) (replicate n 0) (hz_mem st1)\<rparr> else st1, In_Zone p)
      | (st1, r) \<Rightarrow> (st1, r))"

text \<open>Frees of zone and arena addresses are no-ops; \<open>arena_lo\<close> is the arena base.\<close>

definition hk_HeapFree :: "bool \<Rightarrow> nat \<Rightarrow> nat \<Rightarrow> heap_zone \<Rightarrow> vf_result" where
  "hk_HeapFree ready arena_lo a st =
     (if \<not> ready then Passed_Free
      else if is_heap_zone_addr a st then Freed
      else if arena_lo \<le> a \<and> a < arena_lo + ARENA_SIZE then Freed
      else Passed_Free)"

definition zone_size :: "nat \<Rightarrow> heap_zone \<Rightarrow> nat" where
  "zone_size a st = unat (dec64 (peek_bytes (a - hz_base st - HEAP_HEADER_SIZE) 8 (hz_mem st)))"

definition hk_HeapSize :: "bool \<Rightarrow> nat \<Rightarrow> heap_zone \<Rightarrow> nat option" where
  "hk_HeapSize ready a st =
     (if ready \<and> is_heap_zone_addr a st then Some (zone_size a st) else None)"

text \<open>The flags argument is not read; what is copied to a real-heap block is outside the zone.\<close>

definition hk_HeapReAlloc :: "bool \<Rightarrow> nat \<Rightarrow> nat \<Rightarrow> heap_zone \<Rightarrow> heap_zone \<times> hz_result" where
  "hk_HeapReAlloc ready a n st =
     (if \<not> ready \<or> \<not> is_heap_zone_addr a st then (st, Real_Heap)
      else
        let old = zone_size a st in
        case heap_zone_alloc n st of
          (st1, In_Zone p) \<Rightarrow>
            (st1\<lparr>hz_mem := poke_bytes (p - hz_base st)
                (peek_bytes (a - hz_base st) (min old n) (hz_mem st1)) (hz_mem st1)\<rparr>, In_Zone p)
        | (st1, r) \<Rightarrow> (st1, r))"

definition heap_zone_alloc_default :: "nat \<Rightarrow> heap_zone \<Rightarrow> heap_zone \<times> hz_result" where
  "heap_zone_alloc_default n st =
     (let tot = align_up (add64 HEAP_HEADER_SIZE n) 16;
          (off, st1) = zone_bump tot st
      in if zone_full off tot then (st1\<lparr>hz_fallbacks := hz_fallbacks st1 + 1\<rparr>, Zone_Null)
         else (st1\<lparr>hz_mem := poke_bytes (off + HEAP_HEADER_SIZE) (replicate n 0)
                 (poke_bytes (off + 8) (enc64 (of_nat n)) (poke_bytes off (enc64 0) (hz_mem st1)))\<rparr>,
               In_Zone (hz_base st + off + HEAP_HEADER_SIZE)))"

section \<open>Facts\<close>

lemma length_enc64 [simp]: "length (enc64 w) = 8"
  by (simp add: enc64_def)

lemma dec64_enc64 [simp]: "dec64 (enc64 w) = w"
proof (rule bit_word_eqI)
  fix n assume "n < LENGTH(64)"
  then show "bit (dec64 (enc64 w)) n = bit w n"
    by (cases "n < 32") (auto simp: dec64_def enc64_def bit_simps)
qed

lemma peek_poke_same: "length bs = n \<Longrightarrow> peek_bytes off n (poke_bytes off bs mem) = bs"
  by (rule nth_equalityI) (simp_all add: peek_bytes_def poke_bytes_def)

lemma peek_poke_other:
  "b + n \<le> off \<or> off + length bs \<le> b \<Longrightarrow> peek_bytes b n (poke_bytes off bs mem) = peek_bytes b n mem"
  by (auto simp: peek_bytes_def poke_bytes_def)

lemma align16:
  assumes "v < 2 ^ 62"
  shows "v \<le> align_up v 16" "align_up v 16 < v + 16" "16 dvd align_up v 16"
proof -
  have s: "add64 v (16 - 1) = v + 15" using assms by (simp add: add64_def)
  have "(v + 15) mod 16 < 16" by simp
  then show "v \<le> align_up v 16" "align_up v 16 < v + 16"
    unfolding align_up_def Let_def s by linarith+
  show "16 dvd align_up v 16" by (simp add: align_up_def Let_def minus_mod_eq_mult_div)
qed

text \<open>A zone in use: the bump pointer is aligned and has not run past the end by wrapping.\<close>

definition zone_ok :: "heap_zone \<Rightarrow> bool" where
  "zone_ok st \<longleftrightarrow> 16 dvd hz_off st \<and> hz_off st < 2 ^ 62"

lemma heap_zone_alloc_in:
  assumes "zone_ok st" "n < 2 ^ 62" "heap_zone_alloc n st = (st', In_Zone p)"
  shows "p = hz_base st + hz_off st + 16" "hz_off st' = hz_off st + align_up n 16 + 16"
    "hz_off st' \<le> HEAP_ZONE_SIZE - HEAP_ZONE_GUARD" "hz_base st' = hz_base st"
    "hz_mem st' = poke_bytes (hz_off st) (enc64 (of_nat n)) (hz_mem st)" "zone_ok st'"
proof -
  note A = align16 [OF assms(2)]
  have t: "add64 (align_up n 16) HEAP_HEADER_SIZE = align_up n 16 + 16"
    using A(2) assms(2) by (simp add: add64_def HEAP_HEADER_SIZE_def)
  have b: "add64 (hz_off st) (align_up n 16 + 16) = hz_off st + (align_up n 16 + 16)"
    using A(2) assms(1,2) by (simp add: add64_def zone_ok_def)
  have e: "heap_zone_alloc n st =
      (if zone_full (hz_off st) (align_up n 16 + 16)
       then (st\<lparr>hz_off := hz_off st + (align_up n 16 + 16)\<rparr>, Real_Heap)
       else (st\<lparr>hz_off := hz_off st + (align_up n 16 + 16),
                hz_mem := poke_bytes (hz_off st) (enc64 (of_nat n)) (hz_mem st)\<rparr>,
             In_Zone (hz_base st + hz_off st + HEAP_HEADER_SIZE)))"
    by (simp add: heap_zone_alloc_def t b zone_bump_def)
  from assms(3) have nf: "\<not> zone_full (hz_off st) (align_up n 16 + 16)"
    by (auto simp: e split: if_splits)
  with assms(3) show "p = hz_base st + hz_off st + 16" "hz_off st' = hz_off st + align_up n 16 + 16"
    "hz_base st' = hz_base st"
    "hz_mem st' = poke_bytes (hz_off st) (enc64 (of_nat n)) (hz_mem st)"
    by (auto simp: e HEAP_HEADER_SIZE_def)
  then show le: "hz_off st' \<le> HEAP_ZONE_SIZE - HEAP_ZONE_GUARD"
    using nf by (simp add: zone_full_def b)
  then show "zone_ok st'"
    using assms(1) A(3) \<open>hz_off st' = hz_off st + align_up n 16 + 16\<close>
    by (auto simp: zone_ok_def HEAP_ZONE_SIZE_def HEAP_ZONE_GUARD_def intro!: dvd_add)
qed

text \<open>
  Reallocating in the heap zone loses nothing: the new block is 16-byte aligned, lies behind
  every block handed out before and clear of the guard tail, reports the requested size, starts
  with the old contents up to the smaller size, and leaves every older byte of the zone alone.
  A request of \<open>2 ^ 64 - 1\<close> bytes, though, wraps to a 16-byte block and succeeds.
\<close>

theorem realloc_keeps_data:
  assumes "zone_ok st" "n < 2 ^ 62" "hz_base st + 16 \<le> a" "a < hz_base st + HEAP_ZONE_SIZE"
    and "a + zone_size a st \<le> hz_base st + hz_off st"
    and "hk_HeapReAlloc True a n st = (st', In_Zone p)"
  shows "(\<forall>i < min (zone_size a st) n. hz_mem st' (p - hz_base st + i) = hz_mem st (a - hz_base st + i))
    \<and> hk_HeapSize True p st' = Some n
    \<and> hz_base st + hz_off st + 16 = p \<and> 16 dvd p - hz_base st
    \<and> p + n \<le> hz_base st + (HEAP_ZONE_SIZE - HEAP_ZONE_GUARD)
    \<and> (\<forall>x < hz_off st. hz_mem st' x = hz_mem st x)
    \<and> (hz_off st + 16 \<le> HEAP_ZONE_SIZE - HEAP_ZONE_GUARD \<longrightarrow>
         snd (heap_zone_alloc (2 ^ 64 - 1) st) = In_Zone (hz_base st + hz_off st + 16))"
proof -
  have z: "is_heap_zone_addr a st" using assms(3,4) by (simp add: is_heap_zone_addr_def)
  obtain st1 where h: "heap_zone_alloc n st = (st1, In_Zone p)"
    and st': "st' = st1\<lparr>hz_mem := poke_bytes (p - hz_base st)
                (peek_bytes (a - hz_base st) (min (zone_size a st) n) (hz_mem st1)) (hz_mem st1)\<rparr>"
    using assms(6) z by (auto simp: hk_HeapReAlloc_def Let_def split: prod.splits hz_result.splits)
  note H = heap_zone_alloc_in [OF assms(1,2) h]
  let ?k = "min (zone_size a st) n"
  have p: "p - hz_base st = hz_off st + 16" by (simp add: H(1))
  have n16: "n \<le> align_up n 16" using align16(1) [OF assms(2)] .
  have copy: "hz_mem st' (p - hz_base st + i) = hz_mem st (a - hz_base st + i)" if "i < ?k" for i
  proof -
    have "hz_mem st' (p - hz_base st + i) = hz_mem st1 (a - hz_base st + i)"
      using that by (simp add: st' poke_bytes_def peek_bytes_def)
    moreover have "a - hz_base st + i < hz_off st" using assms(3,5) that by linarith
    ultimately show ?thesis by (simp add: H(5) poke_bytes_def)
  qed
  have hdr: "peek_bytes (hz_off st) 8 (hz_mem st') = enc64 (of_nat n)"
    unfolding st' p by (simp add: peek_poke_other H(5) peek_poke_same)
  have "unat (of_nat n :: u64) = n" using assms(2) by (simp add: unat_of_nat)
  then have sz: "hk_HeapSize True p st' = Some n"
    using H(2,3) p hdr
    by (simp add: hk_HeapSize_def zone_size_def is_heap_zone_addr_def st' H(1,4) HEAP_HEADER_SIZE_def
        HEAP_ZONE_GUARD_def)
  have old: "hz_mem st' x = hz_mem st x" if "x < hz_off st" for x
    using that by (simp add: st' p H(5) poke_bytes_def)
  have big: "snd (heap_zone_alloc (2 ^ 64 - 1) st) = In_Zone (hz_base st + hz_off st + 16)"
    if "hz_off st + 16 \<le> HEAP_ZONE_SIZE - HEAP_ZONE_GUARD"
    using that assms(1) by (simp add: heap_zone_alloc_def zone_bump_def zone_full_def align_up_def
        add64_def HEAP_HEADER_SIZE_def zone_ok_def HEAP_ZONE_SIZE_def HEAP_ZONE_GUARD_def Let_def)
  have "p + n \<le> hz_base st + (HEAP_ZONE_SIZE - HEAP_ZONE_GUARD)" using H(1-3) n16 by linarith
  moreover have "16 dvd p - hz_base st" using assms(1) by (simp add: p zone_ok_def)
  ultimately show ?thesis using copy sz old big H(1) by simp
qed

definition demo_zone :: heap_zone where
  "demo_zone = \<lparr>hz_base = 0x1000, hz_off = 32, hz_mem = (\<lambda>a. if a = 0 then 3 else 0),
     hz_fallbacks = 0, hz_redirect = True\<rparr>"

theorem realloc_keeps_data_witness:
  "\<exists>st'. hk_HeapReAlloc True 0x1010 5 demo_zone = (st', In_Zone 0x1030)
    \<and> hk_HeapSize True 0x1030 st' = Some 5"
proof -
  have e: "enc64 3 = [3, 0, 0, 0, 0, 0, 0, 0]"
    by (simp add: enc64_def enc32_def)
  have pk: "peek_bytes 0 8 (hz_mem demo_zone) = enc64 3"
    unfolding e by (simp add: peek_bytes_def demo_zone_def upt_rec)
  have z: "zone_size 0x1010 demo_zone = 3"
    using pk by (simp add: zone_size_def demo_zone_def HEAP_HEADER_SIZE_def)
  have "snd (hk_HeapReAlloc True 0x1010 5 demo_zone) = In_Zone 0x1030"
    by (simp add: hk_HeapReAlloc_def is_heap_zone_addr_def heap_zone_alloc_def zone_bump_def zone_full_def
        align_up_def add64_def HEAP_HEADER_SIZE_def HEAP_ZONE_SIZE_def HEAP_ZONE_GUARD_def Let_def)
      (simp add: demo_zone_def)
  then obtain st' where r: "hk_HeapReAlloc True 0x1010 5 demo_zone = (st', In_Zone 0x1030)"
    by (metis prod.collapse)
  have "zone_ok demo_zone" "hz_base demo_zone = 0x1000" "hz_off demo_zone = 32"
    by (simp_all add: zone_ok_def demo_zone_def)
  with realloc_keeps_data [OF _ _ _ _ _ r] z r show ?thesis
    by (auto simp: HEAP_ZONE_SIZE_def)
qed

end
