(* ===== verification/Snap_Ring.thy ===== *)
theory Snap_Ring
  imports Arena_Carve
begin

text \<open>
  The snapshot ring of \<open>src/src/arena.cpp\<close>: the baseline taken when rollback is armed, sixty slots of
  dirty pages, the fold of an evicted slot into the baseline, and the load that reverts the arena
  to a saved frame. Page \<open>p\<close>'s contents are \<open>sn_live st p\<close>; the operating system's write watch is the
  set \<open>sn_ww\<close> of the pages written since its last reset, which \<open>GetWriteWatch\<close> lists in ascending
  order. Bitsets are predicates on page indices. Logging, timing and the read-only shadow
  comparisons are left out; the fold here is the immediate one; \<open>Deferred_Fold\<close> shows that the worker's is the same.
\<close>

definition MAX_PAGES :: nat where "MAX_PAGES = ARENA_SIZE div PAGE_SIZE"
definition RING_SLOTS :: nat where "RING_SLOTS = 60"
definition SUPPLEMENTAL_MAX :: nat where "SUPPLEMENTAL_MAX = 200000"
definition NOPAGE :: nat where "NOPAGE = 0xFFFFFFFF"
definition SUPP_FLAG :: nat where "SUPP_FLAG = 0x80000000"

type_synonym page = "u8 list"

definition zero_page_c :: page where "zero_page_c = replicate PAGE_SIZE 0"

record rslot =
  rs_frame :: int
  rs_count :: nat
  rs_bits :: "nat \<Rightarrow> bool"
  rs_data :: "page carray"
  rs_cap :: nat
  rs_map :: "nat carray"
  rs_valid :: bool
  rs_list :: "nat list"

record snap =
  sn_ready :: bool
  sn_has_base :: bool
  sn_wm :: nat
  sn_live :: "page carray"
  sn_ww :: "nat \<Rightarrow> bool"
  sn_committed :: "nat \<Rightarrow> bool"
  sn_committed_n :: nat
  sn_ring :: "rslot carray"
  sn_head :: nat
  sn_dirty :: "nat \<Rightarrow> bool"
  sn_excl :: "nat \<Rightarrow> bool"
  sn_have_excl :: bool
  sn_cfull :: "nat \<Rightarrow> bool"
  sn_have_cfull :: bool
  sn_base :: "page carray"
  sn_bbits :: "nat \<Rightarrow> bool"
  sn_bmap :: "nat carray"
  sn_supp :: "page carray"
  sn_supp_n :: nat
  sn_windowed :: bool
  sn_rebuild :: int
  sn_orphan :: "nat \<Rightarrow> bool"
  sn_source :: "int carray"

section \<open>Baseline\<close>

definition get_watch :: "nat \<Rightarrow> snap \<Rightarrow> nat list" where
  "get_watch n st = filter (sn_ww st) [0..<n]"

definition reset_watch :: "nat \<Rightarrow> snap \<Rightarrow> snap" where
  "reset_watch n st = st\<lparr>sn_ww := (\<lambda>p. sn_ww st p \<and> n \<le> p)\<rparr>"

text \<open>The copy of every committed page, which stops once \<open>g_committed_count\<close> pages are stored.\<close>

definition base_copy :: "nat \<Rightarrow> snap \<times> nat \<Rightarrow> snap \<times> nat" where
  "base_copy p sb =
     (let (st, bl) = sb in
      if bl < sn_committed_n st \<and> sn_committed st p
      then (st\<lparr>sn_base := (sn_base st)(bl := sn_live st p), sn_bbits := (sn_bbits st)(p := True),
               sn_bmap := (sn_bmap st)(p := bl)\<rparr>, bl + 1)
      else (st, bl))"

text \<open>\<open>alloc_ok\<close>: the buffers for the baseline and its bitmap could be allocated.\<close>

definition capture_baseline :: "bool \<Rightarrow> snap \<Rightarrow> snap \<times> bool" where
  "capture_baseline alloc_ok st0 =
     (if \<not> sn_ready st0 then (st0, False)
      else
        let st1 = reset_watch MAX_PAGES st0 in
        if sn_committed_n st1 = 0 then (st1\<lparr>sn_has_base := True\<rparr>, True)
        else if \<not> alloc_ok then (st1, False)
        else
          let st2 = st1\<lparr>sn_bbits := (\<lambda>_. False), sn_bmap := (\<lambda>_. NOPAGE), sn_supp_n := 0\<rparr>;
              (st3, _) = for_range 0 MAX_PAGES base_copy (st2, 0)
          in (st3\<lparr>sn_dirty := (\<lambda>_. False),
                  sn_ring := (\<lambda>i. if i < RING_SLOTS
                                  then (sn_ring st3 i)\<lparr>rs_valid := False, rs_frame := -1\<rparr> else sn_ring st3 i),
                  sn_head := 0, sn_has_base := True\<rparr>, True))"

section \<open>Fold\<close>

datatype fold_dst = Dst_Base nat | Dst_Supp nat | Dst_Drop

text \<open>\<open>commit_ok i\<close>: the system can commit supplemental page \<open>i\<close>.\<close>

definition resolve_fold_dst :: "(nat \<Rightarrow> bool) \<Rightarrow> nat \<Rightarrow> snap \<Rightarrow> snap \<times> fold_dst" where
  "resolve_fold_dst commit_ok p st =
     (let bl = sn_bmap st p in
      if bl \<noteq> NOPAGE then
        (if SUPP_FLAG \<le> bl
         then (st, if bl mod SUPP_FLAG < sn_supp_n st then Dst_Supp (bl mod SUPP_FLAG) else Dst_Drop)
         else (st, Dst_Base bl))
      else if sn_supp_n st < SUPPLEMENTAL_MAX \<and> commit_ok (sn_supp_n st)
      then (st\<lparr>sn_bmap := (sn_bmap st)(p := sn_supp_n st + SUPP_FLAG),
               sn_bbits := (sn_bbits st)(p := True), sn_supp_n := sn_supp_n st + 1\<rparr>,
            Dst_Supp (sn_supp_n st))
      else (st, Dst_Drop))"

definition store_dst :: "fold_dst \<Rightarrow> page \<Rightarrow> snap \<Rightarrow> snap" where
  "store_dst d c st =
     (case d of
        Dst_Base i \<Rightarrow> st\<lparr>sn_base := (sn_base st)(i := c)\<rparr>
      | Dst_Supp i \<Rightarrow> st\<lparr>sn_supp := (sn_supp st)(i := c)\<rparr>
      | Dst_Drop \<Rightarrow> st)"

definition fold_page :: "(nat \<Rightarrow> bool) \<Rightarrow> rslot \<Rightarrow> nat \<Rightarrow> snap \<Rightarrow> snap" where
  "fold_page commit_ok rs p st =
     (if rs_map rs p = NOPAGE then st
      else let (st1, d) = resolve_fold_dst commit_ok p st in store_dst d (rs_data rs (rs_map rs p)) st1)"

definition fold_into_baseline :: "(nat \<Rightarrow> bool) \<Rightarrow> rslot \<Rightarrow> snap \<Rightarrow> snap" where
  "fold_into_baseline commit_ok rs st =
     (if \<not> rs_valid rs then st else fold (fold_page commit_ok rs) (rs_list rs) st)"

section \<open>Save\<close>

definition scan_pages :: "snap \<Rightarrow> nat" where
  "scan_pages st =
     (let n = (if sn_wm st \<noteq> 0 then (sn_wm st + (PAGE_SIZE - 1)) div PAGE_SIZE else MAX_PAGES)
      in min n MAX_PAGES)"

text \<open>One pass of the copy loop: watch entry number \<open>i\<close> is page \<open>w ! i\<close>.\<close>

definition copy_page :: "page carray \<Rightarrow> nat list \<Rightarrow> nat \<Rightarrow> rslot \<Rightarrow> rslot" where
  "copy_page live w i rs =
     (let p = w ! i in
      if MAX_PAGES \<le> p then rs
      else rs\<lparr>rs_bits := (rs_bits rs)(p := True), rs_data := (rs_data rs)(i := live p),
              rs_map := (rs_map rs)(p := i), rs_list := rs_list rs @ [p]\<rparr>)"

definition copy_pages :: "page carray \<Rightarrow> nat list \<Rightarrow> rslot \<Rightarrow> rslot" where
  "copy_pages live w rs = for_range 0 (length w) (copy_page live w) (rs\<lparr>rs_list := []\<rparr>)"

definition rebuild_dirty_bits :: "snap \<Rightarrow> snap" where
  "rebuild_dirty_bits st =
     st\<lparr>sn_dirty := for_range 0 RING_SLOTS
          (\<lambda>i bits. if rs_valid (sn_ring st i) then (\<lambda>p. bits p \<or> rs_bits (sn_ring st i) p) else bits)
          (\<lambda>_. False)\<rparr>"

definition snap_save :: "bool \<Rightarrow> (nat \<Rightarrow> bool) \<Rightarrow> int \<Rightarrow> snap \<Rightarrow> snap \<times> bool" where
  "snap_save alloc_ok commit_ok frame st0 =
     (if \<not> sn_ready st0 \<or> \<not> sn_has_base st0 then (st0, False)
      else
        let n = scan_pages st0;
            w = get_watch n st0;
            st1 = reset_watch n st0;
            slot = sn_head st1;
            old = sn_ring st1 slot;
            st2 = fold_into_baseline commit_ok old st1;
            st3 = st2\<lparr>sn_head := (sn_head st2 + 1) mod RING_SLOTS\<rparr>;
            rs = old\<lparr>rs_frame := frame, rs_count := length w, rs_valid := False, rs_bits := (\<lambda>_. False)\<rparr>
        in if rs_cap rs < length w \<and> \<not> alloc_ok
           then (st3\<lparr>sn_ring := (sn_ring st3)(slot := rs\<lparr>rs_cap := 0\<rparr>)\<rparr>, False)
           else
             let rs1 = (if rs_cap rs < length w
                        then rs\<lparr>rs_cap := length w + length w div 4 + 64\<rparr> else rs);
                 rs2 = (copy_pages (sn_live st3) w rs1)\<lparr>rs_valid := True\<rparr>;
                 st4 = st3\<lparr>sn_ring := (sn_ring st3)(slot := rs2),
                           sn_dirty := (\<lambda>p. sn_dirty st3 p \<or> p \<in> set w \<and> p < MAX_PAGES)\<rparr>
             in (if sn_rebuild st4 - 1 \<le> 0
                 then (rebuild_dirty_bits st4)\<lparr>sn_rebuild := int RING_SLOTS\<rparr>
                 else st4\<lparr>sn_rebuild := sn_rebuild st4 - 1\<rparr>, True))"

section \<open>Exclusions and coherence ranges\<close>

text \<open>
  The pages of the in-arena part of the registered ranges, rounded up to whole pages. Addresses
  are absolute, \<open>lo\<close> is the arena base.
\<close>

definition range_pages :: "nat \<Rightarrow> nat \<times> nat \<Rightarrow> nat set" where
  "range_pages lo r =
     (let (base, n) = r in
      if base = 0 \<or> n = 0 \<or> base < lo \<or> lo + ARENA_SIZE \<le> base then {}
      else let e = min (add64 base n) (lo + ARENA_SIZE)
           in {p. (base - lo) div PAGE_SIZE \<le> p \<and> p < (e - lo + PAGE_SIZE - 1) div PAGE_SIZE \<and> p < MAX_PAGES})"

definition in_arena_range :: "nat \<Rightarrow> nat \<times> nat \<Rightarrow> bool" where
  "in_arena_range lo r \<longleftrightarrow> fst r \<noteq> 0 \<and> snd r \<noteq> 0 \<and> lo \<le> fst r \<and> fst r < lo + ARENA_SIZE"

definition set_rederive_exclusions :: "nat \<Rightarrow> (nat \<times> nat) list \<Rightarrow> snap \<Rightarrow> snap" where
  "set_rederive_exclusions lo rs st =
     st\<lparr>sn_excl := (\<lambda>p. list_ex (\<lambda>r. p \<in> range_pages lo r) rs),
        sn_have_excl := list_ex (in_arena_range lo) rs\<rparr>"

definition clear_rederive_exclusions :: "snap \<Rightarrow> snap" where
  "clear_rederive_exclusions st = st\<lparr>sn_have_excl := False\<rparr>"

definition set_coherent_full_ranges :: "nat \<Rightarrow> (nat \<times> nat) list \<Rightarrow> snap \<Rightarrow> snap" where
  "set_coherent_full_ranges lo rs st =
     st\<lparr>sn_cfull := (\<lambda>p. list_ex (\<lambda>r. p \<in> range_pages lo r) rs),
        sn_have_cfull := list_ex (in_arena_range lo) rs\<rparr>"

definition clear_coherent_full_ranges :: "snap \<Rightarrow> snap" where
  "clear_coherent_full_ranges st = st\<lparr>sn_have_cfull := False\<rparr>"

definition is_rederive_excluded :: "nat \<Rightarrow> nat \<Rightarrow> snap \<Rightarrow> bool" where
  "is_rederive_excluded lo a st \<longleftrightarrow>
     sn_have_excl st \<and> lo \<le> a \<and> a < lo + ARENA_SIZE \<and> sn_excl st ((a - lo) div PAGE_SIZE)"

section \<open>Load\<close>

text \<open>The exchange sort of the valid slots by frame, as written.\<close>

definition sort_swap :: "(nat \<Rightarrow> int) \<Rightarrow> nat \<Rightarrow> nat \<Rightarrow> nat list \<Rightarrow> nat list" where
  "sort_swap key i j xs = (if key (xs ! j) < key (xs ! i) then xs[i := xs ! j, j := xs ! i] else xs)"

definition exchange_sort :: "(nat \<Rightarrow> int) \<Rightarrow> nat list \<Rightarrow> nat list" where
  "exchange_sort key xs =
     for_range 0 (length xs - 1) (\<lambda>i ys. for_range (i + 1) (length xs) (sort_swap key i) ys) xs"

definition ordered_slots :: "snap \<Rightarrow> nat list" where
  "ordered_slots st =
     exchange_sort (\<lambda>s. rs_frame (sn_ring st s)) (filter (\<lambda>i. rs_valid (sn_ring st i)) [0..<RING_SLOTS])"

text \<open>The windowed revert set: writes after the target, pending writes, and coherence groups.\<close>

definition revert_set :: "int \<Rightarrow> nat list \<Rightarrow> snap \<Rightarrow> nat \<Rightarrow> bool" where
  "revert_set frame order st =
     (let after = fold (\<lambda>s bits. if rs_frame (sn_ring st s) \<le> frame then bits
                                 else (\<lambda>p. bits p \<or> rs_bits (sn_ring st s) p)) order (\<lambda>_. False);
          pend = (\<lambda>p. after p \<or> p \<in> set (get_watch MAX_PAGES st) \<and> p < MAX_PAGES)
      in if sn_have_cfull st then (\<lambda>p. pend p \<or> sn_cfull st p \<and> sn_dirty st p) else pend)"

definition eff_bits :: "int \<Rightarrow> nat list \<Rightarrow> snap \<Rightarrow> nat \<Rightarrow> bool" where
  "eff_bits frame order st = (if sn_windowed st then revert_set frame order st else sn_dirty st)"

text \<open>The walk back through the ring: the newest slot at or before the target that has the page.\<close>

fun ring_source :: "snap \<Rightarrow> int \<Rightarrow> nat \<Rightarrow> nat list \<Rightarrow> (int \<times> page) option" where
  "ring_source st frame p [] = None"
| "ring_source st frame p (s # ss) =
     (let r = sn_ring st s in
      if rs_frame r \<le> frame \<and> rs_bits r p \<and> rs_map r p \<noteq> NOPAGE
      then Some (rs_frame r, rs_data r (rs_map r p)) else ring_source st frame p ss)"

definition base_source :: "snap \<Rightarrow> nat \<Rightarrow> page option" where
  "base_source st p =
     (let bl = sn_bmap st p in
      if bl = NOPAGE then None
      else if SUPP_FLAG \<le> bl then Some (sn_supp st (bl mod SUPP_FLAG)) else Some (sn_base st bl))"

definition kept_live :: "snap \<Rightarrow> nat \<Rightarrow> bool" where
  "kept_live st p \<longleftrightarrow> sn_have_excl st \<and> sn_excl st p \<and> \<not> (sn_have_cfull st \<and> sn_cfull st p)"

definition revert_page :: "int \<Rightarrow> nat list \<Rightarrow> (nat \<Rightarrow> bool) \<Rightarrow> nat \<Rightarrow> snap \<Rightarrow> snap" where
  "revert_page frame order eff p st =
     (if \<not> eff p then st\<lparr>sn_source := (sn_source st)(p := -3)\<rparr>
      else if kept_live st p then st\<lparr>sn_source := (sn_source st)(p := -3)\<rparr>
      else case ring_source st frame p (rev order) of
        Some (f, c) \<Rightarrow> st\<lparr>sn_live := (sn_live st)(p := c), sn_source := (sn_source st)(p := f)\<rparr>
      | None \<Rightarrow>
          (if sn_bbits st p then
             (case base_source st p of
                Some c \<Rightarrow> st\<lparr>sn_live := (sn_live st)(p := c), sn_source := (sn_source st)(p := -1)\<rparr>
              | None \<Rightarrow> st\<lparr>sn_live := (sn_live st)(p := zero_page_c), sn_orphan := (sn_orphan st)(p := True),
                           sn_source := (sn_source st)(p := -2)\<rparr>)
           else st\<lparr>sn_live := (sn_live st)(p := zero_page_c), sn_orphan := (sn_orphan st)(p := True)\<rparr>))"

text \<open>The dirty set after a load: the slots up to the target, read until the first later one.\<close>

definition dirty_upto :: "int \<Rightarrow> nat list \<Rightarrow> snap \<Rightarrow> nat \<Rightarrow> bool" where
  "dirty_upto frame order st =
     fold (\<lambda>s bits p. bits p \<or> rs_bits (sn_ring st s) p)
       (takeWhile (\<lambda>s. rs_frame (sn_ring st s) \<le> frame) order) (\<lambda>_. False)"

definition snap_load :: "int \<Rightarrow> snap \<Rightarrow> snap \<times> bool" where
  "snap_load frame st0 =
     (if \<not> sn_ready st0 \<or> \<not> sn_has_base st0 then (st0, False)
      else
        let order = ordered_slots st0;
            eff = eff_bits frame order st0;
            st1 = st0\<lparr>sn_orphan := (\<lambda>_. False), sn_source := (\<lambda>p. if p < MAX_PAGES then -1 else sn_source st0 p)\<rparr>;
            st2 = for_range 0 MAX_PAGES (revert_page frame order eff) st1
        in (reset_watch MAX_PAGES (st2\<lparr>sn_dirty := dirty_upto frame order st2\<rparr>), True))"

section \<open>Forensic reads\<close>

datatype peek_result = From_Ring "u8 list" | From_Base "u8 list" | From_Supp "u8 list" | Not_Present

text \<open>\<open>peek_saved\<close> at page \<open>p\<close>, offset \<open>off\<close>, length already cut to the page.\<close>

definition peek_saved :: "int \<Rightarrow> nat \<Rightarrow> nat \<Rightarrow> nat \<Rightarrow> snap \<Rightarrow> peek_result" where
  "peek_saved frame p off len st =
     (let cut = (\<lambda>c. take len (drop off c));
          hit = List.find (\<lambda>i. rs_valid (sn_ring st i) \<and> rs_frame (sn_ring st i) = frame) [0..<RING_SLOTS];
          base = (if sn_bmap st p = NOPAGE then Not_Present
                  else if SUPP_FLAG \<le> sn_bmap st p then
                    (if sn_bmap st p mod SUPP_FLAG < sn_supp_n st
                     then From_Supp (cut (sn_supp st (sn_bmap st p mod SUPP_FLAG))) else Not_Present)
                  else From_Base (cut (sn_base st (sn_bmap st p))))
      in case hit of
           None \<Rightarrow> base
         | Some i \<Rightarrow> let r = sn_ring st i in
             if rs_bits r p \<and> rs_map r p \<noteq> NOPAGE then From_Ring (cut (rs_data r (rs_map r p))) else base)"

definition last_source_frame :: "nat \<Rightarrow> nat \<Rightarrow> snap \<Rightarrow> int" where
  "last_source_frame lo a st =
     (if a < lo \<or> lo + ARENA_SIZE \<le> a then -100 else sn_source st ((a - lo) div PAGE_SIZE))"

definition was_orphaned_last_load :: "nat \<Rightarrow> nat \<Rightarrow> snap \<Rightarrow> bool" where
  "was_orphaned_last_load lo a st \<longleftrightarrow>
     lo \<le> a \<and> a < lo + ARENA_SIZE \<and> sn_orphan st ((a - lo) div PAGE_SIZE)"

datatype page_src = Src_Live | Src_Image page | Src_Absent

definition shadow_resolve_src :: "nat \<Rightarrow> int \<Rightarrow> nat list \<Rightarrow> (nat \<Rightarrow> bool) \<Rightarrow> snap \<Rightarrow> page_src" where
  "shadow_resolve_src p n order eff st =
     (if \<not> eff p then Src_Live
      else case ring_source st n p (rev order) of
        Some (_, c) \<Rightarrow> Src_Image c
      | None \<Rightarrow> (if sn_bbits st p then
                   (case base_source st p of Some c \<Rightarrow> Src_Image c | None \<Rightarrow> Src_Absent)
                 else Src_Absent))"

end
