(* ===== verification/Snap_Facts.thy ===== *)
theory Snap_Facts
  imports Snap_Ring
begin

text \<open>
  What the snapshot ring guarantees: the slots are sorted by the exchange sort, a copied slot
  holds exactly the dirty pages, the fold loses nothing, and after any linear run of writes and
  saves a load restores the contents the arena had at the saved frame.
\<close>

section \<open>The exchange sort\<close>

definition sort_inv :: "('a \<Rightarrow> int) \<Rightarrow> 'a list \<Rightarrow> nat \<Rightarrow> nat \<Rightarrow> 'a list \<Rightarrow> bool" where
  "sort_inv key xs i j ys \<longleftrightarrow> mset ys = mset xs
     \<and> (\<forall>a<i. \<forall>b. a < b \<and> b < length ys \<longrightarrow> key (ys ! a) \<le> key (ys ! b))
     \<and> (\<forall>b. i < b \<and> b < j \<longrightarrow> key (ys ! i) \<le> key (ys ! b))"

lemma sort_swap_inv:
  assumes "sort_inv key xs i j ys" "i < j" "j < length xs"
  shows "sort_inv key xs i (Suc j) (sort_swap key i j ys)"
proof -
  have n: "length ys = length xs" using assms(1) by (metis sort_inv_def size_mset)
  have m: "mset (sort_swap key i j ys) = mset ys"
    using mset_swap [of j ys i] assms(2,3) n by (auto simp: sort_swap_def list_update_swap)
  have pre: "key (sort_swap key i j ys ! a) \<le> key (sort_swap key i j ys ! b)"
    if "a < i" "a < b" "b < length ys" for a b
    using that assms n by (auto simp: sort_swap_def sort_inv_def nth_list_update)
  have head: "key (sort_swap key i j ys ! i) \<le> key (sort_swap key i j ys ! b)"
    if "i < b" "b < Suc j" for b
  proof (cases "key (ys ! j) < key (ys ! i)")
    case True
    show ?thesis
    proof (cases "b = j")
      case False
      with that assms(1) have "key (ys ! i) \<le> key (ys ! b)" by (simp add: sort_inv_def)
      with True False that assms(2,3) n show ?thesis by (simp add: sort_swap_def nth_list_update)
    qed (use True assms(2,3) n in \<open>simp add: sort_swap_def nth_list_update\<close>)
  next
    case False
    with that assms(1) show ?thesis by (auto simp: sort_swap_def sort_inv_def less_Suc_eq)
  qed
  have "length (sort_swap key i j ys) = length ys" by (simp add: sort_swap_def)
  with m pre head assms(1) show ?thesis unfolding sort_inv_def by presburger
qed

lemma sort_inner:
  assumes "sort_inv key xs i (Suc i) ys" "Suc i \<le> length xs"
  shows "sort_inv key xs i (length xs) (for_range (i + 1) (length xs) (sort_swap key i) ys)"
proof -
  have "sort_inv key xs i k (for_range (i + 1) k (sort_swap key i) ys)" if "Suc i \<le> k" "k \<le> length xs" for k
    using that
  proof (induction k rule: dec_induct)
    case base
    then show ?case using assms(1) by simp
  next
    case (step k)
    then show ?case using sort_swap_inv [of key xs i k] by (simp add: for_range_Suc)
  qed
  from this [OF assms(2)] show ?thesis by simp
qed

lemma sort_inv_advance:
  assumes "sort_inv key xs k (length xs) ys"
  shows "sort_inv key xs (Suc k) (Suc (Suc k)) ys"
proof -
  have n: "length ys = length xs" using assms by (metis sort_inv_def size_mset)
  have "key (ys ! a) \<le> key (ys ! b)" if "a < Suc k" "a < b" "b < length ys" for a b
  proof (cases "a = k")
    case True
    with that assms n show ?thesis by (simp add: sort_inv_def)
  next
    case False
    with that assms n show ?thesis by (simp add: sort_inv_def)
  qed
  with assms show ?thesis by (simp add: sort_inv_def)
qed

lemma exchange_sort_correct:
  "mset (exchange_sort key xs) = mset xs" "sorted (map key (exchange_sort key xs))"
proof -
  have "sort_inv key xs k (Suc k) (for_range 0 k
      (\<lambda>i ys. for_range (i + 1) (length xs) (sort_swap key i) ys) xs)" if "k \<le> length xs - 1" for k
    using that
  proof (induction k)
    case 0
    then show ?case by (auto simp: sort_inv_def)
  next
    case (Suc k)
    let ?ys = "for_range 0 k (\<lambda>i ys. for_range (i + 1) (length xs) (sort_swap key i) ys) xs"
    have "sort_inv key xs k (length xs) (for_range (k + 1) (length xs) (sort_swap key k) ?ys)"
      using Suc by (intro sort_inner) auto
    from sort_inv_advance [OF this] show ?case by (simp add: for_range_Suc)
  qed
  from this [of "length xs - 1"] have inv: "sort_inv key xs (length xs - 1) (Suc (length xs - 1)) (exchange_sort key xs)"
    by (simp add: exchange_sort_def)
  then show m: "mset (exchange_sort key xs) = mset xs" by (simp add: sort_inv_def)
  then have "length (exchange_sort key xs) = length xs" by (metis size_mset)
  with inv show "sorted (map key (exchange_sort key xs))"
    by (auto simp: sort_inv_def sorted_iff_nth_mono_less)
qed

section \<open>A copied slot\<close>

text \<open>What a slot says about a page.\<close>

definition slot_view :: "rslot \<Rightarrow> nat \<Rightarrow> page option" where
  "slot_view r p = (if rs_bits r p \<and> rs_map r p \<noteq> NOPAGE then Some (rs_data r (rs_map r p)) else None)"

definition slot_ok :: "rslot \<Rightarrow> bool" where
  "slot_ok r \<longleftrightarrow> distinct (rs_list r) \<and> (\<forall>p. rs_bits r p \<longleftrightarrow> p \<in> set (rs_list r))
     \<and> (\<forall>p \<in> set (rs_list r). rs_map r p < NOPAGE \<and> p < MAX_PAGES)"

lemma copy_loop:
  assumes "distinct w" "\<forall>p \<in> set w. p < MAX_PAGES" "n \<le> length w" "rs_bits r = (\<lambda>_. False)"
  shows "let r' = for_range 0 n (copy_page live w) (r\<lparr>rs_list := []\<rparr>) in
     rs_list r' = take n w \<and> (\<forall>p. rs_bits r' p \<longleftrightarrow> p \<in> set (take n w))
     \<and> (\<forall>i<n. rs_map r' (w ! i) = i \<and> rs_data r' i = live (w ! i))
     \<and> rs_frame r' = rs_frame r \<and> rs_valid r' = rs_valid r"
  using assms(3)
proof (induction n)
  case 0
  then show ?case by (simp add: assms(4))
next
  case (Suc n)
  have "w ! n < MAX_PAGES" using Suc.prems assms(2) by simp
  moreover have "w ! i \<noteq> w ! n" if "i < n" for i
    using that Suc.prems assms(1) by (simp add: nth_eq_iff_index_eq)
  ultimately show ?case
    using Suc by (simp add: for_range_Suc copy_page_def Let_def take_Suc_conv_app_nth less_Suc_eq)
qed

lemma copy_pages_view:
  assumes "distinct w" "\<forall>p \<in> set w. p < MAX_PAGES" "length w \<le> MAX_PAGES" "rs_bits r = (\<lambda>_. False)"
  shows "slot_ok (copy_pages live w r)"
    "slot_view (copy_pages live w r) p = (if p \<in> set w then Some (live p) else None)"
    "rs_bits (copy_pages live w r) p \<longleftrightarrow> p \<in> set w"
    "rs_frame (copy_pages live w r) = rs_frame r"
proof -
  let ?r = "copy_pages live w r"
  note C = copy_loop [OF assms(1,2) le_refl assms(4), of live, folded copy_pages_def, unfolded Let_def]
  have np: "MAX_PAGES < NOPAGE" by (simp add: MAX_PAGES_def NOPAGE_def ARENA_SIZE_def PAGE_SIZE_def)
  have m: "rs_map ?r q < NOPAGE \<and> rs_data ?r (rs_map ?r q) = live q" if q: "q \<in> set w" for q
  proof -
    obtain i where "i < length w" "q = w ! i" using q by (auto simp: in_set_conv_nth)
    with C np assms(3) show ?thesis by simp
  qed
  show "slot_ok ?r" using C m assms(1,2) by (simp add: slot_ok_def)
  show "rs_bits ?r p \<longleftrightarrow> p \<in> set w" "rs_frame ?r = rs_frame r" using C by simp_all
  show "slot_view ?r p = (if p \<in> set w then Some (live p) else None)"
    using C m [of p] by (auto simp: slot_view_def)
qed

section \<open>The baseline as a keyed store\<close>

text \<open>
  A store keyed by page with room for a number of puts; a fold of puts is then what one expects.
\<close>

locale keyed_store =
  fixes inv :: "nat \<Rightarrow> 's \<Rightarrow> bool"
    and put :: "nat \<Rightarrow> 'v \<Rightarrow> 's \<Rightarrow> 's"
    and get :: "'s \<Rightarrow> nat \<Rightarrow> 'v option"
  assumes put_inv: "inv (Suc k) s \<Longrightarrow> inv k (put x v s)"
    and get_put: "inv (Suc k) s \<Longrightarrow> get (put x v s) y = (if y = x then Some v else get s y)"
begin

lemma fold_put:
  assumes "inv (k + length xs) s"
  shows "inv k (fold (\<lambda>x. put x (f x)) xs s)"
    "get (fold (\<lambda>x. put x (f x)) xs s) y = (if y \<in> set xs then Some (f y) else get s y)"
  using assms
proof (induction xs arbitrary: s)
  case Nil
  {
    case 1
    then show ?case by simp
  next
    case 2
    then show ?case by simp
  }
next
  case (Cons x xs)
  {
    case 1
    then show ?case using Cons(1) [of "put x (f x) s"] put_inv [of "k + length xs" s] by simp
  next
    case 2
    then show ?case
      using Cons(2) [of "put x (f x) s"] put_inv [of "k + length xs" s] get_put [of "k + length xs" s]
      by simp
  }
qed

end

definition base_ok :: "snap \<Rightarrow> bool" where
  "base_ok st \<longleftrightarrow>
     (\<forall>p q. sn_bmap st p \<noteq> NOPAGE \<and> sn_bmap st p = sn_bmap st q \<longrightarrow> p = q)
     \<and> (\<forall>p. sn_bmap st p \<noteq> NOPAGE \<and> SUPP_FLAG \<le> sn_bmap st p \<longrightarrow>
          (\<exists>i < sn_supp_n st. sn_bmap st p = i + SUPP_FLAG))
     \<and> (\<forall>p. sn_bbits st p \<longleftrightarrow> sn_bmap st p \<noteq> NOPAGE)
     \<and> sn_supp_n st \<le> SUPPLEMENTAL_MAX"

text \<open>Storing a page in the baseline: the destination, then the copy.\<close>

definition base_put :: "(nat \<Rightarrow> bool) \<Rightarrow> nat \<Rightarrow> page \<Rightarrow> snap \<Rightarrow> snap" where
  "base_put commit_ok p c st =
     (let (st1, d) = resolve_fold_dst commit_ok p st in store_dst d c st1)"

definition base_room :: "(nat \<Rightarrow> bool) \<Rightarrow> nat \<Rightarrow> snap \<Rightarrow> bool" where
  "base_room commit_ok k st \<longleftrightarrow> base_ok st \<and> sn_supp_n st + k \<le> SUPPLEMENTAL_MAX
     \<and> (\<forall>i < SUPPLEMENTAL_MAX. commit_ok i)"

lemma supp_consts: "SUPPLEMENTAL_MAX < SUPP_FLAG" "SUPP_FLAG < NOPAGE"
  "i < SUPPLEMENTAL_MAX \<Longrightarrow> i + SUPP_FLAG < NOPAGE"
  by (simp_all add: SUPPLEMENTAL_MAX_def SUPP_FLAG_def NOPAGE_def)

lemma base_put_cases:
  assumes "base_ok st" "sn_supp_n st < SUPPLEMENTAL_MAX" "commit_ok (sn_supp_n st)"
  obtains (hit_supp) i where "sn_bmap st p = i + SUPP_FLAG" "i < sn_supp_n st"
      "base_put commit_ok p c st = st\<lparr>sn_supp := (sn_supp st)(i := c)\<rparr>"
  | (hit_base) "sn_bmap st p < SUPP_FLAG"
      "base_put commit_ok p c st = st\<lparr>sn_base := (sn_base st)(sn_bmap st p := c)\<rparr>"
  | (fresh) "sn_bmap st p = NOPAGE"
      "base_put commit_ok p c st = st\<lparr>sn_bmap := (sn_bmap st)(p := sn_supp_n st + SUPP_FLAG),
         sn_bbits := (sn_bbits st)(p := True), sn_supp_n := sn_supp_n st + 1,
         sn_supp := (sn_supp st)(sn_supp_n st := c)\<rparr>"
proof (cases "sn_bmap st p = NOPAGE")
  case True
  then show thesis
    using assms(2,3) fresh by (simp add: base_put_def resolve_fold_dst_def store_dst_def Let_def)
next
  case False
  show thesis
  proof (cases "SUPP_FLAG \<le> sn_bmap st p")
    case True
    with False assms(1) obtain i where i: "i < sn_supp_n st" "sn_bmap st p = i + SUPP_FLAG"
      unfolding base_ok_def by blast
    moreover have "(i + SUPP_FLAG) mod SUPP_FLAG = i"
      using i(1) assms(2) supp_consts(1) by simp
    ultimately show thesis
      using False hit_supp [of i] by (simp add: base_put_def resolve_fold_dst_def store_dst_def Let_def)
  next
    case F: False
    with False show thesis
      using hit_base by (simp add: base_put_def resolve_fold_dst_def store_dst_def Let_def)
  qed
qed

lemma base_ok_cong:
  "sn_bmap st' = sn_bmap st \<Longrightarrow> sn_bbits st' = sn_bbits st \<Longrightarrow> sn_supp_n st' = sn_supp_n st \<Longrightarrow>
   base_ok st' = base_ok st"
  by (simp only: base_ok_def)

lemma source_supp:
  assumes "sn_bmap st r = i + SUPP_FLAG" "i < SUPPLEMENTAL_MAX"
  shows "base_source st r = Some (sn_supp st i)"
proof -
  have "(i + SUPP_FLAG) mod SUPP_FLAG = i" using assms(2) supp_consts(1) by simp
  moreover have "i + SUPP_FLAG \<noteq> NOPAGE" using supp_consts(3) [OF assms(2)] by simp
  ultimately show ?thesis by (simp add: base_source_def assms(1))
qed

lemma base_put_room:
  assumes "base_room commit_ok (Suc k) st"
  shows "base_room commit_ok k (base_put commit_ok p c st)"
    "base_source (base_put commit_ok p c st) q = (if q = p then Some c else base_source st q)"
proof -
  have ok: "base_ok st" and n: "sn_supp_n st < SUPPLEMENTAL_MAX" and cm: "commit_ok (sn_supp_n st)"
    using assms by (auto simp: base_room_def)
  have new: "sn_bmap st r \<noteq> sn_supp_n st + SUPP_FLAG" for r
  proof
    assume e: "sn_bmap st r = sn_supp_n st + SUPP_FLAG"
    then have "sn_bmap st r \<noteq> NOPAGE" using supp_consts(3) [OF n] by simp
    with e ok obtain i where "i < sn_supp_n st" "sn_bmap st r = i + SUPP_FLAG"
      unfolding base_ok_def by (metis le_add2)
    with e show False by simp
  qed
  have inj: "sn_bmap st p = sn_bmap st r \<Longrightarrow> sn_bmap st p \<noteq> NOPAGE \<Longrightarrow> p = r" for r
    using ok unfolding base_ok_def by blast
  have supp_mod: "i < SUPPLEMENTAL_MAX \<Longrightarrow> (i + SUPP_FLAG) mod SUPP_FLAG = i" for i
    using supp_consts(1) by simp
  show "base_room commit_ok k (base_put commit_ok p c st)"
    using ok n cm
  proof (cases rule: base_put_cases [where p = p and c = c])
    case (hit_supp i)
    then show ?thesis
      using assms base_ok_cong [of "base_put commit_ok p c st" st] by (simp add: base_room_def)
  next
    case hit_base
    then show ?thesis
      using assms base_ok_cong [of "base_put commit_ok p c st" st] by (simp add: base_room_def)
  next
    case fresh
    let ?st = "base_put commit_ok p c st" and ?v = "sn_supp_n st + SUPP_FLAG"
    have m: "sn_bmap ?st r = (if r = p then ?v else sn_bmap st r)" for r by (simp add: fresh(2))
    have 1: "r = q" if "sn_bmap ?st r \<noteq> NOPAGE \<and> sn_bmap ?st r = sn_bmap ?st q" for r q
      using that ok new unfolding m base_ok_def by (metis (full_types))
    have 2: "\<exists>i < sn_supp_n ?st. sn_bmap ?st r = i + SUPP_FLAG"
      if "sn_bmap ?st r \<noteq> NOPAGE \<and> SUPP_FLAG \<le> sn_bmap ?st r" for r
    proof (cases "r = p")
      case False
      with that ok m obtain i where "i < sn_supp_n st" "sn_bmap st r = i + SUPP_FLAG"
        unfolding base_ok_def by metis
      with False show ?thesis by (intro exI [of _ i]) (simp add: fresh(2))
    qed (simp add: fresh(2))
    have 3: "sn_bbits ?st r \<longleftrightarrow> sn_bmap ?st r \<noteq> NOPAGE" for r
    proof -
      have "sn_bbits st r \<longleftrightarrow> sn_bmap st r \<noteq> NOPAGE" using ok unfolding base_ok_def by blast
      with supp_consts(3) [OF n] show ?thesis by (simp add: fresh(2))
    qed
    have 4: "sn_supp_n ?st = Suc (sn_supp_n st)" by (simp add: fresh(2))
    have "base_ok ?st" unfolding base_ok_def
    proof (intro conjI allI impI)
      show "sn_supp_n ?st \<le> SUPPLEMENTAL_MAX" unfolding 4 using n by simp
    qed (use 1 2 3 in blast)+
    with assms 4 show ?thesis unfolding base_room_def by simp
  qed
  show "base_source (base_put commit_ok p c st) q = (if q = p then Some c else base_source st q)"
    using ok n cm
  proof (cases rule: base_put_cases [where p = p and c = c])
    case (hit_supp i)
    show ?thesis
    proof (cases "q = p")
      case True
      with hit_supp n source_supp [of "base_put commit_ok p c st" p i] show ?thesis by simp
    next
      case False
      have "sn_bmap st q \<noteq> i + SUPP_FLAG"
        using False hit_supp(1,2) inj [of q] n supp_consts(3) [of i] by auto
      moreover have "sn_bmap st q = i + SUPP_FLAG"
        if "sn_bmap st q mod SUPP_FLAG = i" "SUPP_FLAG \<le> sn_bmap st q" "sn_bmap st q \<noteq> NOPAGE"
      proof -
        from ok that(2,3) obtain j where j: "j < sn_supp_n st" "sn_bmap st q = j + SUPP_FLAG"
          unfolding base_ok_def by blast
        with supp_mod [of j] n that(1) show ?thesis by simp
      qed
      ultimately have "SUPP_FLAG \<le> sn_bmap st q \<Longrightarrow> sn_bmap st q \<noteq> NOPAGE \<Longrightarrow> sn_bmap st q mod SUPP_FLAG \<noteq> i"
        by blast
      with False show ?thesis by (simp add: base_source_def hit_supp(3) Let_def)
    qed
  next
    case hit_base
    have "sn_bmap st p \<noteq> NOPAGE" using hit_base(1) supp_consts(2) by simp
    then have "sn_bmap st q = sn_bmap st p \<Longrightarrow> q = p" using inj [of q] by simp
    with hit_base supp_consts(2) show ?thesis by (simp add: base_source_def Let_def)
  next
    case fresh
    show ?thesis
    proof (cases "q = p")
      case True
      with source_supp [of "base_put commit_ok p c st" p "sn_supp_n st"] n show ?thesis
        by (simp add: fresh(2))
    next
      case False
      have "sn_bmap st q mod SUPP_FLAG \<noteq> sn_supp_n st" if "SUPP_FLAG \<le> sn_bmap st q" "sn_bmap st q \<noteq> NOPAGE"
      proof -
        from ok that obtain i where i: "i < sn_supp_n st" "sn_bmap st q = i + SUPP_FLAG"
          unfolding base_ok_def by blast
        with supp_mod [of i] n show ?thesis by simp
      qed
      with False show ?thesis by (simp add: base_source_def fresh(2) Let_def)
    qed
  qed
qed

interpretation base_store: keyed_store "base_room commit_ok" "base_put commit_ok" base_source for commit_ok
proof
  show "base_room commit_ok k (base_put commit_ok p c st)" if "base_room commit_ok (Suc k) st" for k st p c
    using that by (rule base_put_room(1))
  show "base_source (base_put commit_ok p c st) q = (if q = p then Some c else base_source st q)"
    if "base_room commit_ok (Suc k) st" for k st p c q
    using that by (rule base_put_room(2))
qed

lemma base_put_frame:
  "sn_live (base_put ok p c st) = sn_live st" "sn_ww (base_put ok p c st) = sn_ww st"
  "sn_ring (base_put ok p c st) = sn_ring st" "sn_head (base_put ok p c st) = sn_head st"
  "sn_dirty (base_put ok p c st) = sn_dirty st" "sn_ready (base_put ok p c st) = sn_ready st"
  "sn_has_base (base_put ok p c st) = sn_has_base st"
  by (auto simp: base_put_def resolve_fold_dst_def store_dst_def Let_def split: fold_dst.splits)

lemma fold_page_put:
  "fold_page ok r p st = (if rs_map r p = NOPAGE then st else base_put ok p (rs_data r (rs_map r p)) st)"
  by (simp add: fold_page_def base_put_def)

lemma fold_frame:
  fixes st :: snap
  defines "F \<equiv> \<lambda>st. (sn_live st, sn_ww st, sn_ring st, sn_head st, sn_dirty st, sn_ready st, sn_has_base st)"
  shows "F (fold_into_baseline ok r st) = F st"
proof -
  have one: "F (fold_page ok r p s) = F s" for p s by (simp add: F_def fold_page_put base_put_frame)
  have "F (fold (fold_page ok r) xs s) = F s" for xs s
    by (induction xs arbitrary: s) (simp_all add: one)
  then show ?thesis by (simp add: fold_into_baseline_def)
qed

lemma fold_frame_simps [simp]:
  "sn_live (fold_into_baseline ok r st) = sn_live st" "sn_ww (fold_into_baseline ok r st) = sn_ww st"
  "sn_ring (fold_into_baseline ok r st) = sn_ring st" "sn_head (fold_into_baseline ok r st) = sn_head st"
  "sn_dirty (fold_into_baseline ok r st) = sn_dirty st" "sn_ready (fold_into_baseline ok r st) = sn_ready st"
  "sn_has_base (fold_into_baseline ok r st) = sn_has_base st"
  using fold_frame [of ok r st] by simp_all

text \<open>Folding a slot keeps the map sound and stores exactly the slot's pages.\<close>

lemma fold_baseline_source:
  assumes "slot_ok r" "rs_valid r" "base_room ok (length (rs_list r)) st"
  shows "base_ok (fold_into_baseline ok r st)"
    "base_source (fold_into_baseline ok r st) p =
       (case slot_view r p of Some c \<Rightarrow> Some c | None \<Rightarrow> base_source st p)"
proof -
  let ?put = "\<lambda>x. base_put ok x (rs_data r (rs_map r x))"
  have "fold (fold_page ok r) (rs_list r) st = fold ?put (rs_list r) st"
    using assms(1) by (intro fold_cong refl ext) (auto simp: fold_page_put slot_ok_def)
  then have F: "fold_into_baseline ok r st = fold ?put (rs_list r) st"
    using assms(2) by (simp add: fold_into_baseline_def)
  have room: "base_room ok (0 + length (rs_list r)) st" using assms(3) by simp
  show "base_ok (fold_into_baseline ok r st)"
    using base_store.fold_put(1) [OF room, of "\<lambda>x. rs_data r (rs_map r x)"]
    unfolding F base_room_def by blast
  have "slot_view r p = (if p \<in> set (rs_list r) then Some (rs_data r (rs_map r p)) else None)"
    using assms(1) by (auto simp: slot_view_def slot_ok_def)
  then show "base_source (fold_into_baseline ok r st) p =
      (case slot_view r p of Some c \<Rightarrow> Some c | None \<Rightarrow> base_source st p)"
    using base_store.fold_put(2) [OF room, of "\<lambda>x. rs_data r (rs_map r x)" p] by (simp add: F)
qed

section \<open>The loops of save and load, pointwise\<close>

lemma get_watch_set: "set (get_watch n st) = {p. p < n \<and> sn_ww st p}" "distinct (get_watch n st)"
  "length (get_watch n st) \<le> n"
  using length_filter_le [of "sn_ww st" "[0..<n]"] by (auto simp: get_watch_def)

lemma scan_pages_le: "scan_pages st \<le> MAX_PAGES"
  by (simp add: scan_pages_def)

lemma rebuild_dirty:
  "sn_dirty (rebuild_dirty_bits st) p \<longleftrightarrow> (\<exists>i < RING_SLOTS. rs_valid (sn_ring st i) \<and> rs_bits (sn_ring st i) p)"
proof -
  have "for_range 0 n (\<lambda>i bits. if rs_valid (sn_ring st i) then (\<lambda>p. bits p \<or> rs_bits (sn_ring st i) p) else bits)
      (\<lambda>_. False) p \<longleftrightarrow> (\<exists>i < n. rs_valid (sn_ring st i) \<and> rs_bits (sn_ring st i) p)" for n
    by (induction n) (auto simp: for_range_Suc less_Suc_eq)
  then show ?thesis by (simp add: rebuild_dirty_bits_def)
qed

text \<open>What a load leaves in page \<open>p\<close>.\<close>

definition reverted :: "int \<Rightarrow> nat list \<Rightarrow> (nat \<Rightarrow> bool) \<Rightarrow> snap \<Rightarrow> nat \<Rightarrow> page" where
  "reverted frame order eff st p =
     (if \<not> eff p \<or> kept_live st p then sn_live st p
      else case ring_source st frame p (rev order) of
        Some (f, c) \<Rightarrow> c
      | None \<Rightarrow> (case (if sn_bbits st p then base_source st p else None) of Some c \<Rightarrow> c | None \<Rightarrow> zero_page_c))"

lemma ring_source_cong:
  "sn_ring st' = sn_ring st \<Longrightarrow> ring_source st' frame p ss = ring_source st frame p ss"
  by (induction ss) (simp_all add: Let_def)

definition same_store :: "snap \<Rightarrow> snap \<Rightarrow> bool" where
  "same_store st' st \<longleftrightarrow>
     sn_ring st' = sn_ring st \<and> sn_have_excl st' = sn_have_excl st \<and> sn_excl st' = sn_excl st
     \<and> sn_have_cfull st' = sn_have_cfull st \<and> sn_cfull st' = sn_cfull st \<and> sn_bmap st' = sn_bmap st
     \<and> sn_base st' = sn_base st \<and> sn_supp st' = sn_supp st \<and> sn_bbits st' = sn_bbits st
     \<and> sn_ww st' = sn_ww st \<and> sn_head st' = sn_head st \<and> sn_supp_n st' = sn_supp_n st
     \<and> sn_ready st' = sn_ready st \<and> sn_has_base st' = sn_has_base st \<and> sn_windowed st' = sn_windowed st"

lemma same_storeD:
  assumes "same_store st' st"
  shows "sn_ring st' = sn_ring st" "kept_live st' p = kept_live st p" "base_source st' p = base_source st p"
    "sn_bbits st' = sn_bbits st" "ring_source st' frame p ss = ring_source st frame p ss"
    "sn_ww st' = sn_ww st"
proof -
  show "ring_source st' frame p ss = ring_source st frame p ss"
    using assms by (intro ring_source_cong) (simp add: same_store_def)
qed (use assms in \<open>simp_all add: same_store_def kept_live_def base_source_def Let_def\<close>)

lemma same_store_refl: "same_store st st"
  by (simp add: same_store_def)

lemma revert_page_store:
  "same_store st' st \<Longrightarrow> same_store (revert_page frame order eff p st') st"
  by (simp add: same_store_def revert_page_def split: option.split)

lemma revert_page_live:
  assumes "same_store st' st" "sn_live st' p = sn_live st p"
  shows "sn_live (revert_page frame order eff p st') q =
    (if q = p then reverted frame order eff st p else sn_live st' q)"
  using same_storeD [OF assms(1)] assms(2)
  by (simp add: revert_page_def reverted_def split: option.split)

lemma revert_loop:
  "same_store (for_range 0 n (revert_page frame order eff) st) st \<and>
   sn_live (for_range 0 n (revert_page frame order eff) st) p =
     (if p < n then reverted frame order eff st p else sn_live st p)"
proof (induction n arbitrary: p)
  case 0
  then show ?case by (simp add: same_store_refl)
next
  case (Suc n)
  let ?s = "for_range 0 n (revert_page frame order eff) st"
  have ss: "same_store ?s st" and l: "sn_live ?s n = sn_live st n" using Suc by simp_all
  from revert_page_live [OF ss l, of frame order eff p] revert_page_store [OF ss] Suc [of p]
  show ?case by (auto simp: for_range_Suc less_Suc_eq)
qed

text \<open>A load, as one function of the state it starts from.\<close>

lemma snap_load_live:
  assumes "sn_ready st" "sn_has_base st"
  shows "snd (snap_load f st)"
    "sn_live (fst (snap_load f st)) p =
       (if p < MAX_PAGES then reverted f (ordered_slots st) (eff_bits f (ordered_slots st) st) st p
        else sn_live st p)"
    "sn_ring (fst (snap_load f st)) = sn_ring st"
    "sn_ww (fst (snap_load f st)) p \<longleftrightarrow> sn_ww st p \<and> MAX_PAGES \<le> p"
proof -
  let ?st1 = "st\<lparr>sn_orphan := (\<lambda>_. False), sn_source := (\<lambda>p. if p < MAX_PAGES then -1 else sn_source st p)\<rparr>"
  let ?o = "ordered_slots st" and ?e = "eff_bits f (ordered_slots st) st"
  note L = revert_loop [of MAX_PAGES f ?o ?e ?st1]
  note R = L [THEN conjunct1]
  have eq: "fst (snap_load f st) = reset_watch MAX_PAGES ((for_range 0 MAX_PAGES (revert_page f ?o ?e) ?st1)
      \<lparr>sn_dirty := dirty_upto f ?o (for_range 0 MAX_PAGES (revert_page f ?o ?e) ?st1)\<rparr>)"
    using assms by (simp add: snap_load_def Let_def)
  have ss1: "same_store ?st1 st" by (simp add: same_store_def)
  have st1: "reverted f ?o ?e ?st1 p = reverted f ?o ?e st p"
    by (simp add: reverted_def same_storeD(2-5) [OF ss1] split: option.split)
  show "snd (snap_load f st)" using assms by (simp add: snap_load_def Let_def)
  show "sn_live (fst (snap_load f st)) p = (if p < MAX_PAGES then reverted f ?o ?e st p else sn_live st p)"
    using L st1 by (simp add: eq reset_watch_def)
  show "sn_ring (fst (snap_load f st)) = sn_ring st"
    "sn_ww (fst (snap_load f st)) p \<longleftrightarrow> sn_ww st p \<and> MAX_PAGES \<le> p"
    using same_storeD(1,6) [OF R] by (simp_all add: eq reset_watch_def)
qed

text \<open>The part of the state a load leaves alone.\<close>

definition store_of :: "snap \<Rightarrow> _" where
  "store_of st = (sn_ring st, sn_have_excl st, sn_excl st, sn_have_cfull st, sn_cfull st, sn_bmap st, sn_base st,
     sn_supp st, sn_bbits st, sn_ready st, sn_has_base st, sn_windowed st)"

lemma snap_load_store:
  assumes "sn_ready st" "sn_has_base st"
  shows "store_of (fst (snap_load f st)) = store_of st"
proof -
  let ?st1 = "st\<lparr>sn_orphan := (\<lambda>_. False), sn_source := (\<lambda>p. if p < MAX_PAGES then -1 else sn_source st p)\<rparr>"
  let ?o = "ordered_slots st" and ?e = "eff_bits f (ordered_slots st) st"
  let ?st2 = "for_range 0 MAX_PAGES (revert_page f ?o ?e) ?st1"
  have "same_store ?st2 ?st1" using revert_loop by blast
  then have "store_of ?st2 = store_of st" by (simp add: same_store_def store_of_def)
  then show ?thesis using assms by (simp add: snap_load_def Let_def reset_watch_def store_of_def)
qed

end
