(* ===== verification/Snap_Run.thy ===== *)
theory Snap_Run
  imports Snap_Facts
begin

text \<open>
  Runs of the snapshot ring: a baseline, then writes, commits and saves in any order. A history
  lists the saved frames newest first with the arena's contents at each save. The invariant says
  what each slot, the baseline and the unwritten pages hold in terms of the history, and the
  load of a saved frame is then the contents recorded for it.
\<close>

section \<open>The baseline\<close>

definition map_inj :: "snap \<Rightarrow> bool" where
  "map_inj st \<longleftrightarrow> (\<forall>p q. sn_bmap st p \<noteq> NOPAGE \<and> sn_bmap st p = sn_bmap st q \<longrightarrow> p = q)"

text \<open>After the copy loop has passed \<open>n\<close> pages.\<close>

definition copied :: "snap \<Rightarrow> nat \<Rightarrow> snap \<times> nat \<Rightarrow> bool" where
  "copied st0 n sb \<longleftrightarrow> snd sb = card {p. p < n \<and> sn_committed st0 p}
     \<and> (\<forall>p. sn_bbits (fst sb) p \<longleftrightarrow> p < n \<and> sn_committed st0 p)
     \<and> (\<forall>p. p < n \<and> sn_committed st0 p \<longrightarrow>
           sn_bmap (fst sb) p < snd sb \<and> sn_base (fst sb) (sn_bmap (fst sb) p) = sn_live st0 p)
     \<and> (\<forall>p. \<not> (p < n \<and> sn_committed st0 p) \<longrightarrow> sn_bmap (fst sb) p = NOPAGE)
     \<and> map_inj (fst sb)
     \<and> sn_live (fst sb) = sn_live st0 \<and> sn_committed (fst sb) = sn_committed st0
     \<and> sn_committed_n (fst sb) = sn_committed_n st0 \<and> sn_supp_n (fst sb) = sn_supp_n st0
     \<and> sn_ready (fst sb) = sn_ready st0 \<and> sn_ww (fst sb) = sn_ww st0 \<and> sn_ring (fst sb) = sn_ring st0"

lemma card_less_Suc:
  "card {p. p < Suc n \<and> P p} = card {p. p < n \<and> P p} + (if P n then 1 else 0)"
proof -
  have "{p. p < Suc n \<and> P p} = (if P n then insert n {p. p < n \<and> P p} else {p. p < n \<and> P p})"
    by (auto simp: less_Suc_eq)
  then show ?thesis by simp
qed

lemma card_committed_le: "card {p. p < n \<and> P p} \<le> n"
  by (induction n) (auto simp: card_less_Suc)

lemma base_copy_step:
  assumes "copied st0 n sb" "n < MAX_PAGES" "card {p. p < MAX_PAGES \<and> sn_committed st0 p} \<le> sn_committed_n st0"
  shows "copied st0 (Suc n) (base_copy n sb)"
proof (cases "sn_committed st0 n")
  case False
  have same: "base_copy n sb = sb" using False assms(1) by (cases sb) (simp add: base_copy_def copied_def)
  have e: "p < Suc n \<and> sn_committed st0 p \<longleftrightarrow> p < n \<and> sn_committed st0 p" for p
    using False by (auto simp: less_Suc_eq)
  show ?thesis using assms(1) unfolding copied_def same e .
next
  case True
  obtain st bl where sb: "sb = (st, bl)" by fastforce
  have bl: "bl = card {p. p < n \<and> sn_committed st0 p}" using assms(1) by (simp add: copied_def sb)
  have "card {p. p < Suc n \<and> sn_committed st0 p} \<le> card {p. p < MAX_PAGES \<and> sn_committed st0 p}"
    using assms(2) by (intro card_mono) auto
  then have room: "bl < sn_committed_n st0" using assms(3) True by (simp add: bl card_less_Suc)
  have np: "bl < NOPAGE" using card_committed_le [of n "sn_committed st0"] assms(2)
    by (simp add: bl MAX_PAGES_def NOPAGE_def ARENA_SIZE_def PAGE_SIZE_def)
  have old: "sn_bmap st p = NOPAGE \<or> sn_bmap st p < bl" for p
    using assms(1) unfolding copied_def sb fst_conv snd_conv by metis
  have inj: "sn_bmap st p \<noteq> NOPAGE \<Longrightarrow> sn_bmap st p = sn_bmap st q \<Longrightarrow> p = q" for p q
    using assms(1) unfolding copied_def map_inj_def sb fst_conv by blast
  have step: "base_copy n sb = (st\<lparr>sn_base := (sn_base st)(bl := sn_live st n), sn_bbits := (sn_bbits st)(n := True),
      sn_bmap := (sn_bmap st)(n := bl)\<rparr>, bl + 1)"
    using True room assms(1) by (simp add: base_copy_def sb copied_def)
  let ?m = "\<lambda>p. if p = n then bl else sn_bmap st p"
  have in1: "p < n \<Longrightarrow> sn_committed st0 p \<Longrightarrow> sn_bmap st p < bl \<and> sn_base st (sn_bmap st p) = sn_live st0 p"
    and out1: "\<not> (p < n \<and> sn_committed st0 p) \<Longrightarrow> sn_bmap st p = NOPAGE" for p
    using assms(1) unfolding copied_def sb fst_conv snd_conv by blast+
  have map1: "?m p < bl + 1 \<and> (if ?m p = bl then sn_live st n else sn_base st (?m p)) = sn_live st0 p"
    if "p < Suc n \<and> sn_committed st0 p" for p
  proof (cases "p = n")
    case True
    have "sn_live st = sn_live st0" using assms(1) unfolding copied_def sb fst_conv by blast
    with True show ?thesis by simp
  next
    case False
    with that have "p < n" by simp
    with that in1 [of p] False show ?thesis by simp
  qed
  have map2: "?m p = NOPAGE" if "\<not> (p < Suc n \<and> sn_committed st0 p)" for p
    using that out1 [of p] True by auto
  have inj1: "p = q" if "(if p = n then bl else sn_bmap st p) \<noteq> NOPAGE"
      "(if p = n then bl else sn_bmap st p) = (if q = n then bl else sn_bmap st q)" for p q
    using that inj [of p q] old [of p] old [of q] np by (auto split: if_splits)
  have "sn_bbits st p \<longleftrightarrow> p < n \<and> sn_committed st0 p" for p using assms(1) by (simp add: copied_def sb)
  then have bits1: "(p = n \<or> sn_bbits st p) \<longleftrightarrow> p < Suc n \<and> sn_committed st0 p" for p
    using True by (auto simp: less_Suc_eq)
  have rest: "sn_live st = sn_live st0 \<and> sn_committed st = sn_committed st0
     \<and> sn_committed_n st = sn_committed_n st0 \<and> sn_supp_n st = sn_supp_n st0
     \<and> sn_ready st = sn_ready st0 \<and> sn_ww st = sn_ww st0 \<and> sn_ring st = sn_ring st0"
    using assms(1) by (simp add: copied_def sb)
  show ?thesis
    unfolding copied_def step fst_conv snd_conv
  proof (intro conjI allI impI)
    show "bl + 1 = card {p. p < Suc n \<and> sn_committed st0 p}" using True by (simp add: bl card_less_Suc)
  next
    let ?st = "st\<lparr>sn_base := (sn_base st)(bl := sn_live st n), sn_bbits := (sn_bbits st)(n := True),
        sn_bmap := (sn_bmap st)(n := bl)\<rparr>"
    have bm: "sn_bmap ?st p = ?m p" for p by simp
    have "p = q" if e: "sn_bmap ?st p \<noteq> NOPAGE" "sn_bmap ?st p = sn_bmap ?st q" for p q
      using e [unfolded bm] by (rule inj1)
    then show "map_inj ?st" unfolding map_inj_def by blast
  next
    fix p
    show "sn_bbits (st\<lparr>sn_base := (sn_base st)(bl := sn_live st n), sn_bbits := (sn_bbits st)(n := True),
        sn_bmap := (sn_bmap st)(n := bl)\<rparr>) p \<longleftrightarrow> p < Suc n \<and> sn_committed st0 p"
      using bits1 [of p] True by auto
  next
    fix p
    assume "p < Suc n \<and> sn_committed st0 p"
    from map1 [OF this] rest
    show "sn_base (st\<lparr>sn_base := (sn_base st)(bl := sn_live st n), sn_bbits := (sn_bbits st)(n := True),
        sn_bmap := (sn_bmap st)(n := bl)\<rparr>) (sn_bmap (st\<lparr>sn_base := (sn_base st)(bl := sn_live st n),
        sn_bbits := (sn_bbits st)(n := True), sn_bmap := (sn_bmap st)(n := bl)\<rparr>) p) = sn_live st0 p"
      by (cases "p = n") (simp_all split: if_splits)
  qed (use map1 map2 rest in \<open>simp_all\<close>)
qed

lemma base_copy_all:
  assumes "card {p. p < MAX_PAGES \<and> sn_committed st p} \<le> sn_committed_n st"
    "sn_bbits st = (\<lambda>_. False)" "sn_bmap st = (\<lambda>_. NOPAGE)"
  shows "copied st MAX_PAGES (for_range 0 MAX_PAGES base_copy (st, 0))"
proof -
  have "copied st n (for_range 0 n base_copy (st, 0))" if "n \<le> MAX_PAGES" for n
    using that
  proof (induction n)
    case 0
    then show ?case by (simp add: copied_def map_inj_def assms(2,3))
  next
    case (Suc n)
    then show ?case using base_copy_step [of st n] assms(1) by (simp add: for_range_Suc)
  qed
  then show ?thesis by blast
qed

definition base_img :: "snap \<Rightarrow> nat \<Rightarrow> page" where
  "base_img st p = (case base_source st p of Some c \<Rightarrow> c | None \<Rightarrow> zero_page_c)"

lemma capture_facts:
  assumes "sn_ready st0" "sn_committed_n st0 \<noteq> 0"
    "card {p. p < MAX_PAGES \<and> sn_committed st0 p} \<le> sn_committed_n st0"
    "capture_baseline True st0 = (st, r)"
  shows "r" "sn_ready st" "sn_has_base st" "base_ok st" "sn_head st = 0" "sn_live st = sn_live st0"
    "sn_supp_n st = 0" "i < RING_SLOTS \<Longrightarrow> \<not> rs_valid (sn_ring st i)"
    "base_source st p = (if p < MAX_PAGES \<and> sn_committed st0 p then Some (sn_live st0 p) else None)"
proof -
  let ?s = "(reset_watch MAX_PAGES st0)\<lparr>sn_bbits := (\<lambda>_. False), sn_bmap := (\<lambda>_. NOPAGE), sn_supp_n := 0\<rparr>"
  obtain st3 bl where st3: "for_range 0 MAX_PAGES base_copy (?s, 0) = (st3, bl)" by fastforce
  have eq: "capture_baseline True st0 = (st3\<lparr>sn_dirty := (\<lambda>_. False),
      sn_ring := (\<lambda>i. if i < RING_SLOTS then (sn_ring st3 i)\<lparr>rs_valid := False, rs_frame := -1\<rparr> else sn_ring st3 i),
      sn_head := 0, sn_has_base := True\<rparr>, True)"
    using assms(1,2) st3 by (simp add: capture_baseline_def Let_def reset_watch_def)
  have C: "copied ?s MAX_PAGES (st3, bl)"
    using base_copy_all [of ?s] assms(3) unfolding st3 by (simp add: reset_watch_def)
  have bl: "bl \<le> MAX_PAGES" using C card_committed_le by (simp add: copied_def)
  have mp: "if p < MAX_PAGES \<and> sn_committed st0 p
      then sn_bmap st3 p < bl \<and> sn_base st3 (sn_bmap st3 p) = sn_live st0 p else sn_bmap st3 p = NOPAGE" for p
    using C unfolding copied_def fst_conv snd_conv by (auto simp: reset_watch_def)
  have bb: "sn_bbits st3 p \<longleftrightarrow> p < MAX_PAGES \<and> sn_committed st0 p" for p
    using C by (simp add: copied_def reset_watch_def)
  have inj: "sn_bmap st3 p \<noteq> NOPAGE \<and> sn_bmap st3 p = sn_bmap st3 q \<longrightarrow> p = q" for p q
    using C unfolding copied_def map_inj_def fst_conv by blast
  have mx: "MAX_PAGES < SUPP_FLAG" "SUPP_FLAG < NOPAGE"
    by (simp_all add: MAX_PAGES_def ARENA_SIZE_def PAGE_SIZE_def SUPP_FLAG_def NOPAGE_def)
  have low: "sn_bmap st3 p \<noteq> NOPAGE \<Longrightarrow> sn_bmap st3 p < SUPP_FLAG" for p
    using mp [of p] bl mx(1) by (auto split: if_splits)
  have bb': "sn_bbits st3 p \<longleftrightarrow> sn_bmap st3 p \<noteq> NOPAGE" for p
    using bb [of p] mp [of p] bl mx by (auto split: if_splits)
  have st: "st = fst (capture_baseline True st0)" using assms(4) by simp
  show "r" using assms(4) eq by simp
  show "sn_ready st" "sn_has_base st" "sn_head st = 0" "sn_live st = sn_live st0" "sn_supp_n st = 0"
    "i < RING_SLOTS \<Longrightarrow> \<not> rs_valid (sn_ring st i)"
    using C assms(1) by (simp_all add: st eq copied_def reset_watch_def)
  have "base_ok st3" unfolding base_ok_def
  proof (intro conjI allI impI)
    show "sn_supp_n st3 \<le> SUPPLEMENTAL_MAX" using C by (simp add: copied_def)
  next
    fix p
    assume "sn_bmap st3 p \<noteq> NOPAGE \<and> SUPP_FLAG \<le> sn_bmap st3 p"
    with low [of p] show "\<exists>i < sn_supp_n st3. sn_bmap st3 p = i + SUPP_FLAG" by simp
  qed (use inj bb' in blast)+
  then show "base_ok st" using base_ok_cong [of st st3] by (simp add: st eq)
  show "base_source st p = (if p < MAX_PAGES \<and> sn_committed st0 p then Some (sn_live st0 p) else None)"
    using mp [of p] bl mx by (auto simp: base_source_def st eq Let_def)
qed

section \<open>Runs\<close>

text \<open>
  The history \<open>h\<close> lists saved frame numbers and contents, newest first. The pages below \<open>N\<close> are the
  ones the watermark governs: a page of them is written only once carved, so the scan of a save, which
  never goes beyond \<open>N\<close>, reaches every one written since the last. The pages from \<open>N\<close> on (the heap zone,
  committed at the top of the arena) are written at will and never scanned. A save is recorded when the
  supplemental store has room for the slot it evicts; frame numbers grow.
\<close>

type_synonym hist = "(int \<times> (nat \<Rightarrow> page)) list"

inductive snap_run :: "(nat \<Rightarrow> bool) \<Rightarrow> nat \<Rightarrow> (nat \<Rightarrow> page) \<Rightarrow> hist \<Rightarrow> snap \<Rightarrow> bool"
  for commit_ok N S0
where
  armed: "snap_run commit_ok N S0 [] st"
    if "sn_ready st0" "sn_committed_n st0 \<noteq> 0" "card {p. p < MAX_PAGES \<and> sn_committed st0 p} \<le> sn_committed_n st0"
      "\<And>p. p < MAX_PAGES \<Longrightarrow> \<not> sn_committed st0 p \<Longrightarrow> sn_live st0 p = zero_page_c"
      "S0 = sn_live st0" "N \<le> MAX_PAGES" "capture_baseline True st0 = (st, True)"
| written: "snap_run commit_ok N S0 h (st\<lparr>sn_live := (sn_live st)(p := c), sn_ww := (sn_ww st)(p := True)\<rparr>)"
    if "snap_run commit_ok N S0 h st"
| committed: "snap_run commit_ok N S0 h (st\<lparr>sn_wm := wm, sn_committed := cm, sn_committed_n := k\<rparr>)"
    if "snap_run commit_ok N S0 h st"
| tuned: "snap_run commit_ok N S0 h (st\<lparr>sn_windowed := wr, sn_excl := x, sn_have_excl := hx,
      sn_cfull := y, sn_have_cfull := hy\<rparr>)"
    if "snap_run commit_ok N S0 h st"
| saved: "snap_run commit_ok N S0 ((f, sn_live st) # h) st'"
    if "snap_run commit_ok N S0 h st" "\<And>g S. (g, S) \<in> set h \<Longrightarrow> g < f" "scan_pages st \<le> N"
      "\<And>p. p < N \<Longrightarrow> sn_ww st p \<Longrightarrow> p < scan_pages st"
      "rs_valid (sn_ring st (sn_head st)) \<Longrightarrow> base_room commit_ok (length (rs_list (sn_ring st (sn_head st)))) st"
      "snap_save True commit_ok f st = (st', True)"

text \<open>The slot of the \<open>j\<close>-th newest save, and the contents it stands for.\<close>

definition slot_at :: "hist \<Rightarrow> nat \<Rightarrow> nat" where
  "slot_at h j = (length h - 1 - j) mod RING_SLOTS"

definition img :: "(nat \<Rightarrow> page) \<Rightarrow> hist \<Rightarrow> nat \<Rightarrow> nat \<Rightarrow> page" where
  "img S0 h j = (if j < length h then snd (h ! j) else S0)"

definition slot_inv :: "nat \<Rightarrow> (nat \<Rightarrow> page) \<Rightarrow> hist \<Rightarrow> nat \<Rightarrow> snap \<Rightarrow> bool" where
  "slot_inv N S0 h j st \<longleftrightarrow>
     (let r = sn_ring st (slot_at h j) in
      slot_ok r \<and> rs_frame r = fst (h ! j) \<and> (\<forall>p. rs_bits r p \<longrightarrow> sn_dirty st p)
      \<and> (\<forall>p<N. case slot_view r p of Some c \<Rightarrow> c = img S0 h j p | None \<Rightarrow> img S0 h j p = img S0 h (Suc j) p))"

definition snap_inv :: "nat \<Rightarrow> (nat \<Rightarrow> page) \<Rightarrow> hist \<Rightarrow> snap \<Rightarrow> bool" where
  "snap_inv N S0 h st \<longleftrightarrow>
     sn_ready st \<and> sn_has_base st \<and> base_ok st \<and> N \<le> MAX_PAGES \<and> sn_head st = length h mod RING_SLOTS
     \<and> (\<forall>i<RING_SLOTS. rs_valid (sn_ring st i) \<longleftrightarrow> i < length h)
     \<and> (\<forall>j < min (length h) RING_SLOTS. slot_inv N S0 h j st)
     \<and> (\<forall>p<N. base_img st p = img S0 h RING_SLOTS p)
     \<and> (\<forall>p<N. \<not> sn_ww st p \<longrightarrow> sn_live st p = img S0 h 0 p)
     \<and> sorted_wrt (>) (map fst h)"

lemma img_Cons: "img S0 ((f, S) # h) 0 = S" "img S0 ((f, S) # h) (Suc j) = img S0 h j"
  by (simp_all add: img_def)

lemma slot_at_Cons: "slot_at (e # h) 0 = length h mod RING_SLOTS" "slot_at (e # h) (Suc j) = slot_at h j"
  by (simp_all add: slot_at_def)

lemma slot_at_neq_head:
  assumes "j < length h" "j < RING_SLOTS - 1"
  shows "slot_at h j \<noteq> length h mod RING_SLOTS"
proof
  assume "slot_at h j = length h mod RING_SLOTS"
  then have "RING_SLOTS dvd Suc j"
    using assms(1) mod_eq_dvd_iff_nat [of "length h - 1 - j" "length h" RING_SLOTS]
    by (simp add: slot_at_def)
  with assms(2) show False by (auto dest: dvd_imp_le)
qed

lemma slot_inv_cong:
  assumes "slot_inv N S0 h j st" "sn_ring st' (slot_at h j) = sn_ring st (slot_at h j)"
    "\<And>p. rs_bits (sn_ring st (slot_at h j)) p \<Longrightarrow> sn_dirty st' p"
  shows "slot_inv N S0 h j st'"
  using assms by (simp add: slot_inv_def Let_def)

lemma snap_inv_start:
  assumes "sn_ready st0" "sn_committed_n st0 \<noteq> 0" "card {p. p < MAX_PAGES \<and> sn_committed st0 p} \<le> sn_committed_n st0"
    "\<And>p. p < MAX_PAGES \<Longrightarrow> \<not> sn_committed st0 p \<Longrightarrow> sn_live st0 p = zero_page_c"
    "N \<le> MAX_PAGES" "capture_baseline True st0 = (st, True)"
  shows "snap_inv N (sn_live st0) [] st"
  using capture_facts [OF assms(1-3,6)] assms(4,5)
  by (simp add: snap_inv_def img_def base_img_def)

lemma base_img_cong:
  "sn_bmap st' = sn_bmap st \<Longrightarrow> sn_base st' = sn_base st \<Longrightarrow> sn_supp st' = sn_supp st \<Longrightarrow>
   base_img st' p = base_img st p"
  by (simp add: base_img_def base_source_def Let_def)

lemma snap_inv_write:
  assumes "snap_inv N S0 h st"
  shows "snap_inv N S0 h (st\<lparr>sn_live := (sn_live st)(p := c), sn_ww := (sn_ww st)(p := True)\<rparr>)"
    "snap_inv N S0 h (st\<lparr>sn_wm := wm, sn_committed := cm, sn_committed_n := k\<rparr>)"
    "snap_inv N S0 h (st\<lparr>sn_windowed := wr, sn_excl := x, sn_have_excl := hx, sn_cfull := y, sn_have_cfull := hy\<rparr>)"
proof -
  let ?w = "st\<lparr>sn_live := (sn_live st)(p := c), sn_ww := (sn_ww st)(p := True)\<rparr>"
  let ?c = "st\<lparr>sn_wm := wm, sn_committed := cm, sn_committed_n := k\<rparr>"
  let ?t = "st\<lparr>sn_windowed := wr, sn_excl := x, sn_have_excl := hx, sn_cfull := y, sn_have_cfull := hy\<rparr>"
  have "base_img ?w q = base_img st q" "base_img ?c q = base_img st q" "base_img ?t q = base_img st q" for q
    by (rule base_img_cong; simp)+
  moreover have "base_ok ?w = base_ok st" "base_ok ?c = base_ok st" "base_ok ?t = base_ok st"
    by (rule base_ok_cong; simp)+
  moreover have "slot_inv N S0 h j ?w = slot_inv N S0 h j st" "slot_inv N S0 h j ?c = slot_inv N S0 h j st"
    "slot_inv N S0 h j ?t = slot_inv N S0 h j st" for j
    by (simp_all add: slot_inv_def)
  ultimately show "snap_inv N S0 h ?w" "snap_inv N S0 h ?c" "snap_inv N S0 h ?t" using assms by (simp_all add: snap_inv_def)
qed

text \<open>The slots of the last saves are the valid ones, each once.\<close>

lemma slot_at_inj: "inj_on (slot_at h) {..< min (length h) RING_SLOTS}"
proof (rule inj_onI)
  fix i j
  assume ij: "i \<in> {..< min (length h) RING_SLOTS}" "j \<in> {..< min (length h) RING_SLOTS}" "slot_at h i = slot_at h j"
  have "i = j" if "i \<le> j" "i < length h" "j < length h" "j < RING_SLOTS" "slot_at h i = slot_at h j" for i j
  proof -
    have "RING_SLOTS dvd (length h - 1 - i) - (length h - 1 - j)"
      using that mod_eq_dvd_iff_nat [of "length h - 1 - j" "length h - 1 - i" RING_SLOTS]
      by (simp add: slot_at_def)
    then have "RING_SLOTS dvd j - i" using that by simp
    with that show ?thesis by (auto dest: dvd_imp_le)
  qed
  note key = this
  show "i = j"
  proof (cases "i \<le> j")
    case True
    then show ?thesis by (rule key) (use ij in simp_all)
  next
    case False
    have "j = i" by (rule key) (use False ij in simp_all)
    then show ?thesis by simp
  qed
qed

lemma slot_at_image: "slot_at h ` {..< min (length h) RING_SLOTS} = {i. i < RING_SLOTS \<and> i < length h}"
proof (rule card_subset_eq)
  show "slot_at h ` {..< min (length h) RING_SLOTS} \<subseteq> {i. i < RING_SLOTS \<and> i < length h}"
  proof
    fix i
    assume "i \<in> slot_at h ` {..< min (length h) RING_SLOTS}"
    then obtain j where j: "j < length h" "i = (length h - 1 - j) mod RING_SLOTS"
      by (auto simp: slot_at_def)
    have "(length h - 1 - j) mod RING_SLOTS \<le> length h - 1 - j" by (rule mod_less_eq_dividend)
    with j show "i \<in> {i. i < RING_SLOTS \<and> i < length h}" by (auto simp: RING_SLOTS_def)
  qed
  have "{i. i < RING_SLOTS \<and> i < length h} = {..< min (length h) RING_SLOTS}" by auto
  then show "card (slot_at h ` {..< min (length h) RING_SLOTS}) = card {i. i < RING_SLOTS \<and> i < length h}"
    by (simp add: card_image slot_at_inj)
qed simp

section \<open>Save\<close>

text \<open>The slot a save writes.\<close>

definition saved_slot :: "int \<Rightarrow> snap \<Rightarrow> rslot" where
  "saved_slot f st =
     (let old = sn_ring st (sn_head st); w = get_watch (scan_pages st) st;
          r = old\<lparr>rs_frame := f, rs_count := length w, rs_valid := False, rs_bits := (\<lambda>_. False)\<rparr>;
          r1 = (if rs_cap r < length w then r\<lparr>rs_cap := length w + length w div 4 + 64\<rparr> else r)
      in (copy_pages (sn_live st) w r1)\<lparr>rs_valid := True\<rparr>)"

definition saved_state :: "(nat \<Rightarrow> bool) \<Rightarrow> int \<Rightarrow> snap \<Rightarrow> snap" where
  "saved_state ok f st =
     (let n = scan_pages st; st2 = fold_into_baseline ok (sn_ring st (sn_head st)) (reset_watch n st)
      in st2\<lparr>sn_head := (sn_head st + 1) mod RING_SLOTS,
             sn_ring := (sn_ring st)(sn_head st := saved_slot f st),
             sn_dirty := (\<lambda>p. sn_dirty st p \<or> p \<in> set (get_watch n st) \<and> p < MAX_PAGES)\<rparr>)"

lemma reset_watch_simps [simp]:
  "sn_live (reset_watch n st) = sn_live st" "sn_ring (reset_watch n st) = sn_ring st"
  "sn_head (reset_watch n st) = sn_head st" "sn_dirty (reset_watch n st) = sn_dirty st"
  "sn_ready (reset_watch n st) = sn_ready st" "sn_has_base (reset_watch n st) = sn_has_base st"
  "sn_bmap (reset_watch n st) = sn_bmap st" "sn_bbits (reset_watch n st) = sn_bbits st"
  "sn_supp_n (reset_watch n st) = sn_supp_n st" "sn_base (reset_watch n st) = sn_base st"
  "sn_supp (reset_watch n st) = sn_supp st"
  "sn_ww (reset_watch n st) p \<longleftrightarrow> sn_ww st p \<and> n \<le> p"
  by (simp_all add: reset_watch_def)

lemma snap_save_eq:
  assumes "sn_ready st" "sn_has_base st"
  shows "\<exists>k. snap_save True ok f st =
     ((if sn_rebuild (saved_state ok f st) - 1 \<le> 0 then (rebuild_dirty_bits (saved_state ok f st))\<lparr>sn_rebuild := k\<rparr>
       else (saved_state ok f st)\<lparr>sn_rebuild := k\<rparr>), True)"
proof (cases "sn_rebuild (saved_state ok f st) - 1 \<le> 0")
  case True
  then show ?thesis
    using assms by (intro exI [of _ "int RING_SLOTS"])
      (simp add: snap_save_def saved_state_def saved_slot_def Let_def)
next
  case False
  then show ?thesis
    using assms by (intro exI [of _ "sn_rebuild (saved_state ok f st) - 1"])
      (simp add: snap_save_def saved_state_def saved_slot_def Let_def)
qed

lemma rebuild_frame:
  "sn_live (rebuild_dirty_bits st) = sn_live st" "sn_ring (rebuild_dirty_bits st) = sn_ring st"
  "sn_head (rebuild_dirty_bits st) = sn_head st" "sn_ww (rebuild_dirty_bits st) = sn_ww st"
  "sn_ready (rebuild_dirty_bits st) = sn_ready st" "sn_has_base (rebuild_dirty_bits st) = sn_has_base st"
  "base_ok (rebuild_dirty_bits st) = base_ok st" "base_img (rebuild_dirty_bits st) p = base_img st p"
proof -
  show "base_ok (rebuild_dirty_bits st) = base_ok st"
    by (rule base_ok_cong) (simp_all add: rebuild_dirty_bits_def)
  show "base_img (rebuild_dirty_bits st) p = base_img st p"
    by (rule base_img_cong) (simp_all add: rebuild_dirty_bits_def)
qed (simp_all add: rebuild_dirty_bits_def)

text \<open>What the save leaves, whichever way the dirty bits were updated.\<close>

lemma snap_save_facts:
  assumes "sn_ready st" "sn_has_base st" "snap_save True ok f st = (st', r)"
  defines "m \<equiv> saved_state ok f st"
  shows "sn_live st' = sn_live m" "sn_ring st' = sn_ring m" "sn_head st' = sn_head m" "sn_ww st' = sn_ww m"
    "sn_ready st' = sn_ready m" "sn_has_base st' = sn_has_base m" "base_ok st' = base_ok m"
    "base_img st' p = base_img m p"
    "\<lbrakk>sn_dirty m p; i < RING_SLOTS; rs_valid (sn_ring m i); rs_bits (sn_ring m i) p\<rbrakk> \<Longrightarrow> sn_dirty st' p"
proof -
  obtain k where k: "st' = (if sn_rebuild m - 1 \<le> 0 then (rebuild_dirty_bits m)\<lparr>sn_rebuild := k\<rparr>
      else m\<lparr>sn_rebuild := k\<rparr>)"
    using snap_save_eq [OF assms(1,2), of ok f] assms(3) unfolding m_def by auto
  have "base_ok (s\<lparr>sn_rebuild := k\<rparr>) = base_ok s" for s by (rule base_ok_cong) simp_all
  moreover have "base_img (s\<lparr>sn_rebuild := k\<rparr>) p = base_img s p" for s by (rule base_img_cong) simp_all
  ultimately show "sn_live st' = sn_live m" "sn_ring st' = sn_ring m" "sn_head st' = sn_head m"
    "sn_ww st' = sn_ww m" "sn_ready st' = sn_ready m" "sn_has_base st' = sn_has_base m"
    "base_ok st' = base_ok m" "base_img st' p = base_img m p"
    by (simp_all add: k rebuild_frame)
  show "sn_dirty st' p" if "sn_dirty m p" "i < RING_SLOTS" "rs_valid (sn_ring m i)" "rs_bits (sn_ring m i) p"
    using that rebuild_dirty [of m p] by (auto simp: k)
qed

text \<open>The saved slot and the folded baseline.\<close>

lemma saved_slot_view:
  "slot_ok (saved_slot f st)" "rs_frame (saved_slot f st) = f" "rs_valid (saved_slot f st)"
  "slot_view (saved_slot f st) p = (if p < scan_pages st \<and> sn_ww st p then Some (sn_live st p) else None)"
  "rs_bits (saved_slot f st) p \<longleftrightarrow> p < scan_pages st \<and> sn_ww st p"
proof -
  let ?w = "get_watch (scan_pages st) st"
  obtain r where r: "saved_slot f st = (copy_pages (sn_live st) ?w r)\<lparr>rs_valid := True\<rparr>"
      "rs_bits r = (\<lambda>_. False)" "rs_frame r = f"
    by (auto simp: saved_slot_def Let_def)
  have w: "distinct ?w" "\<forall>p \<in> set ?w. p < MAX_PAGES" "length ?w \<le> MAX_PAGES"
    using get_watch_set [of "scan_pages st" st] scan_pages_le [of st] by auto
  note C = copy_pages_view [OF w r(2), of "sn_live st"]
  show "slot_ok (saved_slot f st)" using C(1) by (simp add: r(1) slot_ok_def)
  show "rs_frame (saved_slot f st) = f" "rs_valid (saved_slot f st)" using C(4) r(3) by (simp_all add: r(1))
  show "slot_view (saved_slot f st) p = (if p < scan_pages st \<and> sn_ww st p then Some (sn_live st p) else None)"
  proof -
    have "slot_view (x\<lparr>rs_valid := True\<rparr>) p = slot_view x p" for x by (simp add: slot_view_def)
    then show ?thesis using C(2) [of p] get_watch_set(1) [of "scan_pages st" st] by (simp add: r(1))
  qed
  show "rs_bits (saved_slot f st) p \<longleftrightarrow> p < scan_pages st \<and> sn_ww st p"
    using C(3) [of p] get_watch_set(1) by (simp add: r(1))
qed

lemma saved_base:
  assumes inv: "snap_inv N S0 h st"
    and room: "rs_valid (sn_ring st (sn_head st)) \<Longrightarrow> base_room ok (length (rs_list (sn_ring st (sn_head st)))) st"
  shows "base_ok (saved_state ok f st)"
    "p < N \<Longrightarrow> base_img (saved_state ok f st) p = img S0 ((f, sn_live st) # h) RING_SLOTS p"
proof -
  let ?old = "sn_ring st (sn_head st)" and ?s1 = "reset_watch (scan_pages st) st"
  let ?s2 = "fold_into_baseline ok ?old ?s1"
  have hd: "sn_head st = length h mod RING_SLOTS" "sn_head st < RING_SLOTS"
    using inv by (simp_all add: snap_inv_def RING_SLOTS_def)
  have ok2: "base_ok (saved_state ok f st) = base_ok ?s2"
    by (rule base_ok_cong) (simp_all add: saved_state_def Let_def)
  have img2: "base_img (saved_state ok f st) p = base_img ?s2 p"
    by (rule base_img_cong) (simp_all add: saved_state_def Let_def)
  have ok1: "base_ok ?s1 = base_ok st" by (rule base_ok_cong) simp_all
  have img1: "base_img ?s1 p = base_img st p" by (rule base_img_cong) simp_all
  have old: "base_img st p = img S0 h RING_SLOTS p" if "p < N" using inv that by (simp add: snap_inv_def)
  have new: "img S0 ((f, sn_live st) # h) RING_SLOTS p = img S0 h (RING_SLOTS - 1) p"
    using img_Cons(2) [of S0 f "sn_live st" h "RING_SLOTS - 1"] by (simp add: RING_SLOTS_def)
  have valid: "rs_valid ?old \<longleftrightarrow> RING_SLOTS \<le> length h"
    using inv hd by (auto simp: snap_inv_def not_less dest: mod_less [of "length h" RING_SLOTS])
      (metis mod_less nat_less_le not_le)+
  have "base_ok ?s2 \<and> (p < N \<longrightarrow> base_img ?s2 p = img S0 h (RING_SLOTS - 1) p)"
  proof (cases "rs_valid ?old")
    case False
    then have "length h < RING_SLOTS" using valid by simp
    then have "length h \<le> RING_SLOTS - 1" "length h \<le> RING_SLOTS" by (simp_all add: RING_SLOTS_def)
    then have "img S0 h (RING_SLOTS - 1) = img S0 h RING_SLOTS" by (simp add: img_def)
    moreover have "?s2 = ?s1" using False by (simp add: fold_into_baseline_def)
    ultimately show ?thesis using ok1 img1 old inv by (simp add: snap_inv_def)
  next
    case True
    then have l: "RING_SLOTS \<le> length h" using valid by simp
    let ?j = "RING_SLOTS - 1"
    have j: "?j < min (length h) RING_SLOTS" "Suc ?j = RING_SLOTS" using l by (simp_all add: RING_SLOTS_def)
    have "length h - 1 - ?j = length h - RING_SLOTS" using l by (simp add: RING_SLOTS_def)
    then have at: "slot_at h ?j = sn_head st" using l hd(1) by (simp add: slot_at_def le_mod_geq)
    have si: "slot_inv N S0 h ?j st" using inv j(1) by (simp add: snap_inv_def)
    note si' = si [unfolded slot_inv_def at Let_def j(2)]
    have so: "slot_ok ?old" using si' by blast
    have sv: "case slot_view ?old p of Some c \<Rightarrow> c = img S0 h ?j p | None \<Rightarrow> img S0 h ?j p = img S0 h RING_SLOTS p"
      if "p < N" using si' that by blast
    have "base_room ok (length (rs_list ?old)) ?s1" using room [OF True] ok1 by (simp add: base_room_def)
    note F = fold_baseline_source [OF so True this]
    have "base_img ?s2 p = (case slot_view ?old p of Some c \<Rightarrow> c | None \<Rightarrow> base_img ?s1 p)"
      by (simp add: base_img_def F(2) split: option.split)
    with F(1) sv old img1 show ?thesis by (auto split: option.splits)
  qed
  with ok2 img2 new show "base_ok (saved_state ok f st)"
    "p < N \<Longrightarrow> base_img (saved_state ok f st) p = img S0 ((f, sn_live st) # h) RING_SLOTS p"
    by simp_all
qed

lemma snap_inv_save:
  assumes inv: "snap_inv N S0 h st"
    and room: "rs_valid (sn_ring st (sn_head st)) \<Longrightarrow> base_room ok (length (rs_list (sn_ring st (sn_head st)))) st"
    and new: "\<And>g S. (g, S) \<in> set h \<Longrightarrow> g < f" and scan: "\<And>p. p < N \<Longrightarrow> sn_ww st p \<Longrightarrow> p < scan_pages st"
    and save: "snap_save True ok f st = (st', r)"
  shows "snap_inv N S0 ((f, sn_live st) # h) st'"
proof -
  let ?m = "saved_state ok f st" and ?h = "(f, sn_live st) # h"
  have rdy: "sn_ready st" "sn_has_base st" using inv by (simp_all add: snap_inv_def)
  note F = snap_save_facts [OF rdy save]
  have hd: "sn_head st = length h mod RING_SLOTS" "sn_head st < RING_SLOTS"
    using inv by (simp_all add: snap_inv_def RING_SLOTS_def)
  have ring: "sn_ring ?m = (sn_ring st)(sn_head st := saved_slot f st)"
    and live: "sn_live ?m = sn_live st" and head: "sn_head ?m = (sn_head st + 1) mod RING_SLOTS"
    and ww: "sn_ww ?m p \<longleftrightarrow> sn_ww st p \<and> scan_pages st \<le> p"
    and dirty: "sn_dirty ?m p \<longleftrightarrow> sn_dirty st p \<or> p < scan_pages st \<and> sn_ww st p"
    and rdy': "sn_ready ?m" "sn_has_base ?m" for p
    using rdy scan_pages_le [of st]
    by (auto simp: saved_state_def Let_def get_watch_set(1))
  have slots: "slot_inv N S0 ?h j st'" if j: "j < min (length ?h) RING_SLOTS" for j
  proof (cases j)
    case 0
    have "slot_at ?h 0 = sn_head st" by (simp add: slot_at_Cons hd(1))
    moreover have "sn_dirty st' p" if "rs_bits (saved_slot f st) p" for p
      by (rule F(9) [of p "sn_head st"]) (use that hd(2) saved_slot_view in \<open>simp_all add: ring dirty\<close>)
    moreover have "sn_live st p = img S0 h 0 p" if "p < N" "\<not> sn_ww st p \<or> \<not> p < scan_pages st" for p
      using inv that scan by (auto simp: snap_inv_def)
    moreover have "img S0 ?h (Suc 0) = img S0 h 0" by (rule img_Cons(2))
    ultimately show ?thesis
      using saved_slot_view [of f st] F(2)
      by (auto simp: 0 slot_inv_def Let_def ring img_Cons(1))
  next
    case (Suc i)
    have i: "i < length h" "i < RING_SLOTS - 1" using j Suc by auto
    have si: "slot_inv N S0 h i st" using inv i by (simp add: snap_inv_def)
    have ne: "slot_at h i \<noteq> sn_head st" using slot_at_neq_head [OF i] hd(1) by simp
    have at: "slot_at h i < RING_SLOTS" by (simp add: slot_at_def RING_SLOTS_def)
    have "i \<in> {..< min (length h) RING_SLOTS}" using i by simp
    then have "slot_at h i \<in> {i. i < RING_SLOTS \<and> i < length h}"
      unfolding slot_at_image [symmetric] by (rule imageI)
    then have v: "rs_valid (sn_ring st (slot_at h i))" using inv by (simp add: snap_inv_def)
    have "sn_dirty st' p" if b: "rs_bits (sn_ring st (slot_at h i)) p" for p
    proof -
      have "sn_dirty st p" using si b unfolding slot_inv_def Let_def by blast
      then show ?thesis using F(9) [of p "slot_at h i"] b at v ne by (simp add: ring dirty)
    qed
    with si ne have "slot_inv N S0 h i st'" by (intro slot_inv_cong [OF si]) (simp_all add: F(2) ring)
    then show ?thesis unfolding Suc slot_inv_def slot_at_Cons img_Cons nth_Cons_Suc .
  qed
  have valid: "rs_valid (sn_ring st' i) \<longleftrightarrow> i < length ?h" if "i < RING_SLOTS" for i
  proof (cases "i = sn_head st")
    case True
    then have "i \<le> length h" by (simp add: hd(1))
    with True show ?thesis by (simp add: F(2) ring saved_slot_view)
  next
    case False
    then have "i \<noteq> length h" using that hd(1) by auto
    with False that inv show ?thesis by (auto simp: F(2) ring snap_inv_def)
  qed
  show ?thesis unfolding snap_inv_def
  proof (intro conjI allI impI)
    show "sn_head st' = length ?h mod RING_SLOTS" by (simp add: F(3) head hd(1) mod_Suc_eq)
    show "sorted_wrt (>) (map fst ?h)" using inv new by (auto simp: snap_inv_def)
    show "sn_live st' p = img S0 ?h 0 p" for p by (simp add: F(1) live img_Cons)
    show "base_img st' p = img S0 ?h RING_SLOTS p" if "p < N" for p
      using saved_base(2) [OF inv room that] by (simp add: F(8))
  qed (use inv F(5,6,7) rdy' saved_base(1) [OF inv room] slots valid in \<open>simp_all add: snap_inv_def\<close>)
qed

lemma snap_run_inv: "snap_run ok N S0 h st \<Longrightarrow> snap_inv N S0 h st"
proof (induction rule: snap_run.induct)
  case (armed st0 st)
  then show ?case using snap_inv_start by simp
next
  case (written h st p c)
  then show ?case by (intro snap_inv_write(1))
next
  case (committed h st wm cm k)
  then show ?case by (intro snap_inv_write(2))
next
  case (tuned h st wr x hx y hy)
  then show ?case by (intro snap_inv_write(3))
next
  case (saved h st f st')
  from snap_inv_save [OF saved.IH saved.hyps(5) _ saved.hyps(4,6)] saved.hyps(2) show ?case by blast
qed






section \<open>Load\<close>

lemma frames_decreasing:
  assumes "sorted_wrt (>) (map fst h)" "i < j" "j < length h"
  shows "fst (h ! j) < (fst (h ! i) :: int)"
  using sorted_wrt_nth_less [OF assms(1), of i j] assms(2,3) by simp

text \<open>The load sees the slots of the last saves in order.\<close>

lemma ordered_slots_run:
  assumes "snap_inv N S0 h st"
  shows "rev (ordered_slots st) = map (slot_at h) [0..<min (length h) RING_SLOTS]"
proof -
  let ?k = "\<lambda>s. rs_frame (sn_ring st s)" and ?m = "min (length h) RING_SLOTS"
  let ?L = "rev (map (slot_at h) [0..<?m])"
  have fr: "?k (slot_at h j) = fst (h ! j)" if "j < ?m" for j
    using assms that by (simp add: snap_inv_def slot_inv_def Let_def)
  have dist: "distinct (map (slot_at h) [0..<?m])"
    using slot_at_inj [of h] by (simp add: distinct_map atLeast0LessThan)
  have vs: "filter (\<lambda>i. rs_valid (sn_ring st i)) [0..<RING_SLOTS] = filter (\<lambda>i. i < length h) [0..<RING_SLOTS]"
    using assms by (intro filter_cong) (auto simp: snap_inv_def)
  have ms: "mset (ordered_slots st) = mset (filter (\<lambda>i. i < length h) [0..<RING_SLOTS])"
    by (simp add: ordered_slots_def exchange_sort_correct(1) vs)
  have set: "set (ordered_slots st) = set ?L"
    using mset_eq_setD [OF ms] slot_at_image [of h] by (auto simp: atLeast0LessThan)
  have d: "distinct (ordered_slots st)"
    using mset_eq_imp_distinct_iff [OF ms] by simp
  have less: "?k (slot_at h j) < ?k (slot_at h i)" if "i < j" "j < ?m" for i j
    using that fr frames_decreasing [of h i j] assms by (simp add: snap_inv_def)
  have sorted_wrt: "sorted_wrt (\<lambda>a b. ?k b < ?k a) (map (slot_at h) [0..<?m])"
    unfolding sorted_wrt_iff_nth_less using less by simp
  have so: "sorted (map ?k ?L)"
    using sorted_wrt by (auto simp: sorted_wrt_map sorted_wrt_rev intro: sorted_wrt_mono_rel [rotated])
  have inj: "inj_on ?k (set (ordered_slots st) \<union> set ?L)"
  proof (rule inj_onI)
    fix a b
    assume "a \<in> set (ordered_slots st) \<union> set ?L" "b \<in> set (ordered_slots st) \<union> set ?L" "?k a = ?k b"
    then obtain i j where ij: "i < ?m" "a = slot_at h i" "j < ?m" "b = slot_at h j" "?k a = ?k b"
      by (auto simp: set)
    with less [of i j] less [of j i] show "a = b" by (cases i j rule: linorder_cases) auto
  qed
  have "ordered_slots st = ?L"
  proof (rule map_sorted_distinct_set_unique [OF inj])
    show "sorted (map ?k (ordered_slots st))" by (simp add: ordered_slots_def exchange_sort_correct(2))
    show "distinct (map ?k (ordered_slots st))" "distinct (map ?k ?L)"
      using d dist inj by (simp_all add: distinct_map set)
  qed (use so set in simp_all)
  then show ?thesis by simp
qed

text \<open>The walk back through the ring finds the newest image not after the target.\<close>

lemma ring_source_view:
  "ring_source st f p ss = (case List.find (\<lambda>s. rs_frame (sn_ring st s) \<le> f \<and> slot_view (sn_ring st s) p \<noteq> None) ss of
     None \<Rightarrow> None | Some s \<Rightarrow> Some (rs_frame (sn_ring st s), the (slot_view (sn_ring st s) p)))"
  by (induction ss) (simp_all add: Let_def slot_view_def)

lemma img_unchanged:
  assumes "snap_inv N S0 h st" "p < N" "i \<le> k" "k \<le> min (length h) RING_SLOTS"
    "\<And>j. i \<le> j \<Longrightarrow> j < k \<Longrightarrow> slot_view (sn_ring st (slot_at h j)) p = None"
  shows "img S0 h i p = img S0 h k p"
  using assms(3-5)
proof (induction k rule: dec_induct)
  case (step n)
  have "slot_inv N S0 h n st" using assms(1) step by (simp add: snap_inv_def)
  moreover have "slot_view (sn_ring st (slot_at h n)) p = None" using step by simp
  ultimately have "img S0 h n p = img S0 h (Suc n) p"
    using assms(2) unfolding slot_inv_def Let_def by fastforce
  with step show ?case by simp
qed simp

text \<open>The contents a load finds for a page, whether or not it writes them.\<close>

definition source_page :: "int \<Rightarrow> snap \<Rightarrow> nat \<Rightarrow> page" where
  "source_page f st p =
     (case ring_source st f p (rev (ordered_slots st)) of
        Some (_, c) \<Rightarrow> c
      | None \<Rightarrow> (case (if sn_bbits st p then base_source st p else None) of Some c \<Rightarrow> c | None \<Rightarrow> zero_page_c))"

lemma reverted_source:
  "reverted f (ordered_slots st) eff st p = (if \<not> eff p \<or> kept_live st p then sn_live st p else source_page f st p)"
  by (simp add: reverted_def source_page_def split: option.split)

lemma source_page_store:
  assumes "store_of st' = store_of st"
  shows "source_page f st' p = source_page f st p"
proof -
  have e: "sn_ring st' = sn_ring st" "sn_bbits st' = sn_bbits st" "sn_bmap st' = sn_bmap st"
    "sn_base st' = sn_base st" "sn_supp st' = sn_supp st"
    using assms by (simp_all add: store_of_def)
  have "ordered_slots st' = ordered_slots st" by (simp add: ordered_slots_def e)
  moreover have "base_source st' p = base_source st p" by (simp add: base_source_def e Let_def)
  ultimately show ?thesis by (simp add: source_page_def ring_source_cong [OF e(1)] e(2) split: option.split)
qed

lemma source_page_run:
  assumes inv: "snap_inv N S0 h st" and j: "j < min (length h) RING_SLOTS" and p: "p < N"
  shows "source_page (fst (h ! j)) st p = snd (h ! j) p"
proof -
  let ?m = "min (length h) RING_SLOTS" and ?f = "fst (h ! j)"
  let ?P = "\<lambda>s. rs_frame (sn_ring st s) \<le> ?f \<and> slot_view (sn_ring st s) p \<noteq> None"
  have fr: "rs_frame (sn_ring st (slot_at h i)) = fst (h ! i)" if "i < ?m" for i
    using inv that by (simp add: snap_inv_def slot_inv_def Let_def)
  have le: "fst (h ! i) \<le> ?f \<longleftrightarrow> j \<le> i" if "i < ?m" for i
    using frames_decreasing [of h i j] frames_decreasing [of h j i] inv that j
    by (cases i j rule: linorder_cases) (auto simp: snap_inv_def)
  have P: "?P (slot_at h i) \<longleftrightarrow> j \<le> i \<and> slot_view (sn_ring st (slot_at h i)) p \<noteq> None" if "i < ?m" for i
    using fr [OF that] le [OF that] by simp
  have src: "ring_source st ?f p (rev (ordered_slots st)) = (case List.find ?P (map (slot_at h) [0..<?m]) of
     None \<Rightarrow> None | Some s \<Rightarrow> Some (rs_frame (sn_ring st s), the (slot_view (sn_ring st s) p)))"
    unfolding ordered_slots_run [OF inv] by (rule ring_source_view)
  have img_j: "img S0 h j p = snd (h ! j) p" using j by (simp add: img_def)
  show ?thesis
  proof (cases "List.find ?P (map (slot_at h) [0..<?m])")
    case None
    then have "\<not> ?P (slot_at h i)" if "i < ?m" for i using that by (auto simp: find_None_iff)
    then have "slot_view (sn_ring st (slot_at h i)) p = None" if "j \<le> i" "i < ?m" for i using that P by blast
    then have "img S0 h j p = img S0 h ?m p" using img_unchanged [OF inv p, of j ?m] j by simp
    moreover have "img S0 h ?m = img S0 h RING_SLOTS" by (simp add: img_def min_def)
    moreover have "sn_bbits st p \<longleftrightarrow> sn_bmap st p \<noteq> NOPAGE"
      using inv unfolding snap_inv_def base_ok_def by blast
    then have "(if sn_bbits st p then base_source st p else None) = base_source st p"
      by (simp add: base_source_def)
    ultimately show ?thesis
      using None inv p img_j by (simp add: source_page_def src snap_inv_def base_img_def)
  next
    case (Some s)
    then obtain i where i: "i < ?m" "s = slot_at h i" "?P (slot_at h i)" "\<forall>k<i. \<not> ?P (slot_at h k)"
      by (auto simp: find_Some_iff)
    then obtain c where c: "j \<le> i" "slot_view (sn_ring st s) p = Some c" using P by auto
    have "slot_view (sn_ring st (slot_at h k)) p = None" if "j \<le> k" "k < i" for k
      using i(1,4) P [of k] that by (meson less_trans)
    then have "img S0 h j p = img S0 h i p" using img_unchanged [OF inv p c(1)] i(1) by simp
    moreover have "slot_inv N S0 h i st" using inv i(1) by (simp add: snap_inv_def)
    then have "c = img S0 h i p" using p c(2) i(2) unfolding slot_inv_def Let_def by fastforce
    ultimately show ?thesis using Some c(2) img_j by (simp add: source_page_def src)
  qed
qed

lemma revert_set_after:
  "fold (\<lambda>s bits. if rs_frame (sn_ring st s) \<le> f then bits else (\<lambda>p. bits p \<or> rs_bits (sn_ring st s) p)) ss b p
   \<longleftrightarrow> b p \<or> (\<exists>s \<in> set ss. f < rs_frame (sn_ring st s) \<and> rs_bits (sn_ring st s) p)"
  by (induction ss arbitrary: b) auto

lemma revert_set_iff:
  "revert_set f ss st p \<longleftrightarrow> (\<exists>s \<in> set ss. f < rs_frame (sn_ring st s) \<and> rs_bits (sn_ring st s) p)
     \<or> p < MAX_PAGES \<and> sn_ww st p \<or> sn_have_cfull st \<and> sn_cfull st p \<and> sn_dirty st p"
  by (auto simp: revert_set_def Let_def revert_set_after get_watch_set(1))




text \<open>A concrete run: page 0 is written before each of the frames 0 and 1 is saved, and again after, with page 1,
  which no save scans.\<close>

definition demo_arena :: snap where
  "demo_arena = \<lparr>sn_ready = True, sn_has_base = False, sn_wm = PAGE_SIZE, sn_live = (\<lambda>_. zero_page_c),
     sn_ww = (\<lambda>_. False), sn_committed = (\<lambda>p. p = 0), sn_committed_n = 1,
     sn_ring = (\<lambda>_. \<lparr>rs_frame = -1, rs_count = 0, rs_bits = (\<lambda>_. False), rs_data = (\<lambda>_. []), rs_cap = 0,
       rs_map = (\<lambda>_. 0), rs_valid = False, rs_list = []\<rparr>),
     sn_head = 0, sn_dirty = (\<lambda>_. False), sn_excl = (\<lambda>_. False), sn_have_excl = False,
     sn_cfull = (\<lambda>_. False), sn_have_cfull = False, sn_base = (\<lambda>_. []), sn_bbits = (\<lambda>_. False),
     sn_bmap = (\<lambda>_. NOPAGE), sn_supp = (\<lambda>_. []), sn_supp_n = 0, sn_windowed = True, sn_rebuild = 0,
     sn_orphan = (\<lambda>_. False), sn_source = (\<lambda>_. -1)\<rparr>"

definition poke :: "nat \<Rightarrow> page \<Rightarrow> snap \<Rightarrow> snap" where
  "poke p c st = st\<lparr>sn_live := (sn_live st)(p := c), sn_ww := (sn_ww st)(p := True)\<rparr>"

definition demo_frame :: "int \<Rightarrow> u8 \<Rightarrow> snap \<Rightarrow> snap" where
  "demo_frame f c st = fst (snap_save True (\<lambda>_. True) f
     ((poke 0 [c] st)\<lparr>sn_wm := PAGE_SIZE, sn_committed := (\<lambda>p. p = 0), sn_committed_n := 1\<rparr>))"

definition demo_state :: snap where
  "demo_state = (poke 1 [9] (poke 0 [3] (demo_frame 1 2 (demo_frame 0 1 (fst (capture_baseline True demo_arena))))))
     \<lparr>sn_windowed := True, sn_excl := (\<lambda>_. False), sn_have_excl := False,
      sn_cfull := (\<lambda>_. False), sn_have_cfull := False\<rparr>"

abbreviation zeros :: "nat \<Rightarrow> page" where "zeros \<equiv> \<lambda>_. zero_page_c"

lemma demo_frame_run:
  assumes "snap_run (\<lambda>_. True) 1 zeros h st" "length h < RING_SLOTS" "\<And>g S. (g, S) \<in> set h \<Longrightarrow> g < f"
  shows "snap_run (\<lambda>_. True) 1 zeros ((f, (sn_live st)(0 := [c])) # h) (demo_frame f c st)"
    "sn_live (demo_frame f c st) = (sn_live st)(0 := [c])"
proof -
  let ?st = "(poke 0 [c] st)\<lparr>sn_wm := PAGE_SIZE, sn_committed := (\<lambda>p. p = 0), sn_committed_n := 1\<rparr>"
  have r: "snap_run (\<lambda>_. True) 1 zeros h ?st"
    unfolding poke_def by (intro snap_run.written snap_run.committed assms(1))
  have inv: "snap_inv 1 zeros h ?st" using r by (rule snap_run_inv)
  then have rdy: "sn_ready ?st" "sn_has_base ?st" by (simp_all add: snap_inv_def)
  then have save: "snap_save True (\<lambda>_. True) f ?st = (demo_frame f c st, True)"
    using snap_save_eq [OF rdy] unfolding demo_frame_def by (metis fst_conv)
  have "sn_head ?st = length h" using inv assms(2) by (simp add: snap_inv_def)
  then have "\<not> rs_valid (sn_ring ?st (sn_head ?st))"
    using inv assms(2) unfolding snap_inv_def by (metis less_irrefl)
  moreover have "scan_pages ?st = 1"
    by (simp add: scan_pages_def PAGE_SIZE_def MAX_PAGES_def ARENA_SIZE_def)
  moreover have live: "sn_live ?st = (sn_live st)(0 := [c])" by (simp add: poke_def)
  ultimately show "snap_run (\<lambda>_. True) 1 zeros ((f, (sn_live st)(0 := [c])) # h) (demo_frame f c st)"
    using snap_run.saved [OF r assms(3) _ _ _ save] by simp
  show "sn_live (demo_frame f c st) = (sn_live st)(0 := [c])"
    using snap_save_facts(1) [OF rdy save] live by (simp add: saved_state_def Let_def)
qed

lemma demo_armed:
  "snap_run (\<lambda>_. True) 1 zeros [] (fst (capture_baseline True demo_arena))"
  "sn_live (fst (capture_baseline True demo_arena)) = zeros"
proof -
  let ?st0 = "fst (capture_baseline True demo_arena)"
  have one: "{p. p < MAX_PAGES \<and> p = 0} = {0}" by (auto simp: MAX_PAGES_def ARENA_SIZE_def PAGE_SIZE_def)
  have cap: "capture_baseline True demo_arena = (?st0, snd (capture_baseline True demo_arena))" by simp
  have c: "sn_ready demo_arena" "sn_committed_n demo_arena \<noteq> 0"
    "card {p. p < MAX_PAGES \<and> sn_committed demo_arena p} \<le> sn_committed_n demo_arena"
    by (simp_all add: demo_arena_def one)
  note C = capture_facts [OF c cap]
  have mx: "1 \<le> MAX_PAGES" by (simp add: MAX_PAGES_def ARENA_SIZE_def PAGE_SIZE_def)
  show "snap_run (\<lambda>_. True) 1 zeros [] ?st0"
    by (rule snap_run.armed [OF c _ _ mx]) (use C(1) in \<open>auto simp: demo_arena_def prod_eq_iff\<close>)
  show "sn_live ?st0 = zeros" using C(6) by (simp add: demo_arena_def)
qed

lemma demo_run:
  "snap_run (\<lambda>_. True) 1 zeros [(1, zeros(0 := [2])), (0, zeros(0 := [1]))] demo_state"
  "\<not> kept_live demo_state 0" "sn_windowed demo_state" "sn_live demo_state 0 = [3]"
  "\<not> kept_live demo_state 1" "sn_live demo_state 1 = [9]"
proof -
  note r0 = demo_armed(1) and l0 = demo_armed(2)
  note F1 = demo_frame_run [OF r0, of 0 1, unfolded l0]
  note F2 = demo_frame_run [OF F1(1), of 1 2]
  show "snap_run (\<lambda>_. True) 1 zeros [(1, zeros(0 := [2])), (0, zeros(0 := [1]))] demo_state"
    unfolding demo_state_def poke_def
    by (intro snap_run.tuned snap_run.written) (use F1 F2 in \<open>simp add: RING_SLOTS_def\<close>)
  show "\<not> kept_live demo_state 0" "sn_windowed demo_state" "sn_live demo_state 0 = [3]"
    "\<not> kept_live demo_state 1" "sn_live demo_state 1 = [9]"
    by (simp_all add: demo_state_def kept_live_def poke_def)
qed


text \<open>After a rollback to a frame, the slots of the later frames stay in the ring: a page that
  the replay rewrites is, on a later load of one of those frames, given the contents of the
  timeline that was rolled back, whatever the replay wrote. (The replay itself saves nothing.)\<close>

theorem load_superseded:
  assumes "snap_run commit_ok N S0 h st" "i < j" "j < min (length h) RING_SLOTS" "(p, c) \<in> set ws" "p < N"
    "\<not> kept_live st p" "sn_windowed st"
  shows "sn_live (fst (snap_load (fst (h ! i)) (fold (\<lambda>(q, d). poke q d) ws (fst (snap_load (fst (h ! j)) st))))) p
     = snd (h ! i) p"
proof -
  let ?st1 = "fst (snap_load (fst (h ! j)) st)"
  let ?st2 = "fold (\<lambda>(q, d). poke q d) ws ?st1"
  have inv: "snap_inv N S0 h st" using assms(1) by (rule snap_run_inv)
  have rdy: "sn_ready st" "sn_has_base st" and pm: "p < MAX_PAGES"
    using inv assms(5) by (simp_all add: snap_inv_def)
  have poke: "store_of (poke q d s) = store_of s" for q d s by (simp add: poke_def store_of_def)
  have "store_of (fold (\<lambda>(q, d). poke q d) xs s) = store_of s" for xs s
    by (induction xs arbitrary: s) (auto simp: poke)
  then have same: "store_of ?st2 = store_of st" using snap_load_store [OF rdy] by simp
  have "sn_ww (fold (\<lambda>(q, d). poke q d) xs s) p" if "(p, c) \<in> set xs \<or> sn_ww s p" for xs s
    using that by (induction xs arbitrary: s) (auto simp: poke_def)
  then have ww: "sn_ww ?st2 p" using assms(4) by blast
  have "sn_windowed ?st2" using same assms(7) by (simp add: store_of_def)
  then have eff: "eff_bits f (ordered_slots ?st2) ?st2 p" for f using ww pm by (simp add: eff_bits_def revert_set_iff)
  have kept: "\<not> kept_live ?st2 p" using same assms(6) by (simp add: store_of_def kept_live_def)
  have rdy2: "sn_ready ?st2" "sn_has_base ?st2" using same rdy by (simp_all add: store_of_def)
  have im: "i < min (length h) RING_SLOTS" using assms(2,3) by simp
  have "source_page f ?st2 p = source_page f st p" for f by (rule source_page_store [OF same])
  then show ?thesis
    using snap_load_live(2) [OF rdy2] pm eff kept source_page_run [OF inv im assms(5)]
    by (simp add: reverted_source)
qed

theorem load_superseded_witness:
  "sn_live (fst (snap_load 1 (poke 0 [9] (fst (snap_load 0 demo_state))))) 0 = [2]"
  using load_superseded [OF demo_run(1), of 0 1 0 "[9]" "[(0, [9])]"] demo_run(2,3) by (simp add: RING_SLOTS_def)

text \<open>The crash-time read \<open>peek_saved\<close> returns the saved bytes only for a page that was written
  in that very frame. For any other page it returns the baseline, which holds the contents of
  the frame evicted last (or the arming state), not those of the frame asked for.\<close>

theorem peek_saved_reads:
  assumes "snap_run commit_ok N S0 h st" "j < min (length h) RING_SLOTS" "p < N"
  shows "peek_saved (fst (h ! j)) p off len st =
    (if rs_bits (sn_ring st (slot_at h j)) p then From_Ring (take len (drop off (snd (h ! j) p)))
     else if base_source st p = None then Not_Present
     else if SUPP_FLAG \<le> sn_bmap st p then From_Supp (take len (drop off (img S0 h RING_SLOTS p)))
     else From_Base (take len (drop off (img S0 h RING_SLOTS p))))"
proof -
  have inv: "snap_inv N S0 h st" using assms(1) by (rule snap_run_inv)
  let ?P = "\<lambda>i. rs_valid (sn_ring st i) \<and> rs_frame (sn_ring st i) = fst (h ! j)" and ?i = "slot_at h j"
  let ?r = "sn_ring st ?i"
  have fr: "rs_frame (sn_ring st (slot_at h k)) = fst (h ! k)" if "k < min (length h) RING_SLOTS" for k
    using inv that by (simp add: snap_inv_def slot_inv_def Let_def)
  have uniq: "k = ?i" if k: "k < RING_SLOTS" "?P k" for k
  proof -
    have "k < length h" using inv k by (simp add: snap_inv_def)
    then have "k \<in> slot_at h ` {..< min (length h) RING_SLOTS}" using k(1) unfolding slot_at_image by simp
    then obtain l where l: "l < min (length h) RING_SLOTS" "k = slot_at h l" by blast
    have "fst (h ! l) = fst (h ! j)" using fr [OF l(1)] k(2) l(2) by simp
    then have "l = j"
      using frames_decreasing [of h l j] frames_decreasing [of h j l] inv l(1) assms(2)
      by (cases l j rule: linorder_cases) (auto simp: snap_inv_def)
    with l show ?thesis by simp
  qed
  have "?i \<in> {i. i < RING_SLOTS \<and> i < length h}"
    unfolding slot_at_image [symmetric] using assms(2) by (intro imageI) simp
  then have ir: "?i < RING_SLOTS" and "?P ?i" using inv fr [OF assms(2)] by (auto simp: snap_inv_def)
  moreover have "\<not> ?P ([0..<RING_SLOTS] ! k)" if "k < ?i" for k
    using uniq [of k] that ir by (metis add_0 less_irrefl less_trans nth_upt)
  ultimately have find: "List.find ?P [0..<RING_SLOTS] = Some ?i"
    unfolding find_Some_iff using ir by (intro exI [of _ ?i]) simp
  have si: "slot_inv N S0 h j st" using inv assms(2) by (simp add: snap_inv_def)
  have view: "rs_data ?r (rs_map ?r p) = snd (h ! j) p" and np: "rs_map ?r p \<noteq> NOPAGE" if b: "rs_bits ?r p"
  proof -
    have "rs_map ?r p < NOPAGE" using si b unfolding slot_inv_def Let_def slot_ok_def by blast
    then show n: "rs_map ?r p \<noteq> NOPAGE" by simp
    with b have "slot_view ?r p = Some (rs_data ?r (rs_map ?r p))" by (simp add: slot_view_def)
    moreover have "case slot_view ?r p of Some c \<Rightarrow> c = img S0 h j p | None \<Rightarrow> img S0 h j p = img S0 h (Suc j) p"
      using si assms(3) unfolding slot_inv_def Let_def by blast
    ultimately have "rs_data ?r (rs_map ?r p) = img S0 h j p" by simp
    then show "rs_data ?r (rs_map ?r p) = snd (h ! j) p" using assms(2) by (simp add: img_def)
  qed
  have base: "the (base_source st p) = img S0 h RING_SLOTS p" if "base_source st p \<noteq> None"
  proof -
    have "base_img st p = img S0 h RING_SLOTS p" using inv assms(3) by (simp add: snap_inv_def)
    with that show ?thesis by (auto simp: base_img_def)
  qed
  have sup: "sn_bmap st p mod SUPP_FLAG < sn_supp_n st" if b: "sn_bmap st p \<noteq> NOPAGE" "SUPP_FLAG \<le> sn_bmap st p"
  proof -
    have "base_ok st" using inv by (simp add: snap_inv_def)
    then obtain k where "k < sn_supp_n st" "sn_bmap st p = k + SUPP_FLAG" "sn_supp_n st \<le> SUPPLEMENTAL_MAX"
      using b unfolding base_ok_def by blast
    then show ?thesis using supp_consts(1) by simp
  qed
  have b1: "SUPP_FLAG \<le> sn_bmap st p \<Longrightarrow> sn_bmap st p \<noteq> NOPAGE \<Longrightarrow>
      sn_supp st (sn_bmap st p mod SUPP_FLAG) = img S0 h RING_SLOTS p"
    and b2: "\<not> SUPP_FLAG \<le> sn_bmap st p \<Longrightarrow> sn_bmap st p \<noteq> NOPAGE \<Longrightarrow>
      sn_base st (sn_bmap st p) = img S0 h RING_SLOTS p"
    using base by (simp_all add: base_source_def)
  show ?thesis
    using view np b1 b2 sup by (simp add: peek_saved_def find Let_def base_source_def)
qed

theorem peek_saved_reads_witness:
  "peek_saved 0 0 0 1 demo_state = From_Ring [1]"
proof -
  let ?h = "[(1, zeros(0 := [2])), (0, zeros(0 := [1]))] :: hist"
  have "length zero_page_c \<noteq> length [1 :: u8]" by (simp add: zero_page_c_def PAGE_SIZE_def)
  then have "zero_page_c \<noteq> [1]" by metis
  then have "img zeros ?h 1 0 \<noteq> img zeros ?h 2 0" by (simp add: img_def)
  then have "slot_view (sn_ring demo_state (slot_at ?h 1)) 0 \<noteq> None"
    using img_unchanged [OF snap_run_inv [OF demo_run(1)], of 0 1 2]
    by (auto simp: RING_SLOTS_def numeral_2_eq_2 less_Suc_eq le_Suc_eq)
  then have "rs_bits (sn_ring demo_state (slot_at ?h 1)) 0" by (metis slot_view_def)
  then show ?thesis using peek_saved_reads [OF demo_run(1), of 1 0 0 1] by (simp add: RING_SLOTS_def)
qed

text \<open>The read-only resolution of a page's source, which the in-place restore prototypes use,
  names exactly what \<open>load\<close> does to every page of the arena: an image is what is written, live means
  the page is left alone, absent means it is zeroed; only the pages excluded to be kept live differ.\<close>

theorem shadow_source_agrees:
  assumes "sn_ready st" "sn_has_base st" "p < MAX_PAGES" "\<not> kept_live st p"
  shows "sn_live (fst (snap_load f st)) p =
    (case shadow_resolve_src p f (ordered_slots st) (eff_bits f (ordered_slots st) st) st of
       Src_Live \<Rightarrow> sn_live st p | Src_Image c \<Rightarrow> c | Src_Absent \<Rightarrow> zero_page_c)"
  using snap_load_live(2) [OF assms(1,2), of f p] assms(3,4)
  by (simp add: reverted_def shadow_resolve_src_def split: option.split)

theorem shadow_source_agrees_witness:
  "sn_live (fst (snap_load 0 (poke 0 [3] (demo_arena\<lparr>sn_has_base := True\<rparr>)))) 0 = zero_page_c"
proof -
  let ?st = "poke 0 [3] (demo_arena\<lparr>sn_has_base := True\<rparr>)"
  have "ordered_slots ?st = []"
    by (simp add: ordered_slots_def poke_def demo_arena_def exchange_sort_def)
  moreover have "0 < MAX_PAGES" by (simp add: MAX_PAGES_def ARENA_SIZE_def PAGE_SIZE_def)
  moreover have "sn_ready ?st" "sn_has_base ?st" "\<not> kept_live ?st 0" "sn_windowed ?st" "sn_ww ?st 0"
    "\<not> sn_bbits ?st 0"
    by (simp_all add: poke_def demo_arena_def kept_live_def)
  ultimately show ?thesis
    using shadow_source_agrees [of ?st 0 0]
    by (simp add: shadow_resolve_src_def eff_bits_def revert_set_iff)
qed

end
