(* ===== verification/Game_Memory.thy ===== *)
theory Game_Memory
  imports Heap_Zone
begin

text \<open>
  The engine's memory as the DLL reads and writes it through casts: a function from addresses
  to bytes with little-endian 32- and 64-bit accesses, an interface for cells of a fixed width,
  and open-addressed tables keyed by address, which several components keep beside the game.
\<close>

type_synonym gmem = "nat \<Rightarrow> u8"

definition rd32 :: "gmem \<Rightarrow> nat \<Rightarrow> nat" where "rd32 m a = unat (dec32 (peek_bytes a 4 m))"
definition rd64 :: "gmem \<Rightarrow> nat \<Rightarrow> nat" where "rd64 m a = unat (dec64 (peek_bytes a 8 m))"
definition wr32 :: "nat \<Rightarrow> nat \<Rightarrow> gmem \<Rightarrow> gmem" where "wr32 a v m = poke_bytes a (enc32 (of_nat v)) m"
definition wr64 :: "nat \<Rightarrow> nat \<Rightarrow> gmem \<Rightarrow> gmem" where "wr64 a v m = poke_bytes a (enc64 (of_nat v)) m"

definition apart :: "nat \<Rightarrow> nat \<Rightarrow> nat \<Rightarrow> nat \<Rightarrow> bool" where
  "apart a n b k \<longleftrightarrow> a + n \<le> b \<or> b + k \<le> a"

text \<open>Addresses of the arena and of its committed pages; game addresses resolved from the image base.\<close>

definition is_arena_addr :: "arena \<Rightarrow> nat \<Rightarrow> bool" where
  "is_arena_addr ar a \<longleftrightarrow> ar_base ar \<le> a \<and> a < ar_base ar + ARENA_SIZE"

definition is_committed_addr :: "arena \<Rightarrow> nat \<Rightarrow> bool" where
  "is_committed_addr ar a \<longleftrightarrow>
     (if a < ar_base ar \<or> ar_base ar + ARENA_SIZE \<le> a then False
      else ar_committed ar ((a - ar_base ar) div PAGE_SIZE))"

definition IMAGE_BASE :: nat where "IMAGE_BASE = 0x140000000"

definition resolve :: "nat \<Rightarrow> nat \<Rightarrow> nat" where
  "resolve base ida = (base + (ida - IMAGE_BASE)) mod 2 ^ 64"

section \<open>Cells\<close>

text \<open>What a cell of width \<open>w\<close> holding numbers below \<open>B\<close> promises.\<close>

locale cell =
  fixes rd :: "gmem \<Rightarrow> nat \<Rightarrow> nat" and wr :: "nat \<Rightarrow> nat \<Rightarrow> gmem \<Rightarrow> gmem" and w B :: nat
  assumes rd_wr: "v < B \<Longrightarrow> rd (wr a v m) a = v"
    and rd_less: "rd m a < B"
    and wr_outside: "x < a \<or> a + w \<le> x \<Longrightarrow> wr a v m x = m x"
    and rd_bytes: "(\<And>x. a \<le> x \<Longrightarrow> x < a + w \<Longrightarrow> m x = m' x) \<Longrightarrow> rd m a = rd m' a"
begin

lemma rd_other: "apart a w b w \<Longrightarrow> rd (wr b v m) a = rd m a"
  by (rule rd_bytes) (auto simp: apart_def intro!: wr_outside)

end

lemma length_enc32: "length (enc32 x) = 4"
  by (simp add: enc32_def)

lemma peek_cong: "(\<And>x. a \<le> x \<Longrightarrow> x < a + n \<Longrightarrow> m x = m' x) \<Longrightarrow> peek_bytes a n m = peek_bytes a n m'"
  by (simp add: peek_bytes_def)

interpretation c32: cell rd32 wr32 4 "2 ^ 32"
proof
  show "rd32 (wr32 a v m) a = v" if "v < 2 ^ 32" for v a m
    using that by (simp add: rd32_def wr32_def peek_poke_same length_enc32 unat_of_nat)
  show "rd32 m a < 2 ^ 32" for m a
    using unsigned_less [of "dec32 (peek_bytes a 4 m)"] by (simp add: rd32_def)
  show "wr32 a v m x = m x" if "x < a \<or> a + 4 \<le> x" for x a v m
    using that by (auto simp: wr32_def poke_bytes_def length_enc32)
  show "rd32 m a = rd32 m' a" if "\<And>x. a \<le> x \<Longrightarrow> x < a + 4 \<Longrightarrow> m x = m' x" for a m m'
    using peek_cong [OF that] by (simp add: rd32_def)
qed

interpretation c64: cell rd64 wr64 8 "2 ^ 64"
proof
  show "rd64 (wr64 a v m) a = v" if "v < 2 ^ 64" for v a m
    using that by (simp add: rd64_def wr64_def peek_poke_same unat_of_nat)
  show "rd64 m a < 2 ^ 64" for m a
    using unsigned_less [of "dec64 (peek_bytes a 8 m)"] by (simp add: rd64_def)
  show "wr64 a v m x = m x" if "x < a \<or> a + 8 \<le> x" for x a v m
    using that by (auto simp: wr64_def poke_bytes_def)
  show "rd64 m a = rd64 m' a" if "\<And>x. a \<le> x \<Longrightarrow> x < a + 8 \<Longrightarrow> m x = m' x" for a m m'
    using peek_cong [OF that] by (simp add: rd64_def)
qed

lemma rd32_wr64: "apart a 4 b 8 \<Longrightarrow> rd32 (wr64 b v m) a = rd32 m a"
  by (rule c32.rd_bytes) (auto simp: apart_def intro!: c64.wr_outside)

lemma rd64_wr32: "apart a 8 b 4 \<Longrightarrow> rd64 (wr32 b v m) a = rd64 m a"
  by (rule c64.rd_bytes) (auto simp: apart_def intro!: c32.wr_outside)

lemma rd32_back: "rd32 (wr32 a (rd32 m' b) m) a = rd32 m' b"
  by (rule c32.rd_wr [OF c32.rd_less])

lemma rd64_back: "rd64 (wr64 a (rd64 m' b) m) a = rd64 m' b"
  by (rule c64.rd_wr [OF c64.rd_less])

lemmas mem_simps = c32.rd_wr c64.rd_wr c32.rd_other c64.rd_other rd32_wr64 rd64_wr32

section \<open>Open-addressed tables\<close>

text \<open>
  A key's probe sequence and the first slot of it that is empty or holds the key. Every table of
  the program looks a key up this way, with its own hash, capacity and probe bound.
\<close>

definition probe_seq :: "nat \<Rightarrow> nat \<Rightarrow> nat \<Rightarrow> nat list" where
  "probe_seq cap bound h = map (\<lambda>i. (h + i) mod cap) [0..<bound]"

definition probe_find :: "(nat \<Rightarrow> nat) \<Rightarrow> nat \<Rightarrow> nat list \<Rightarrow> nat option" where
  "probe_find key u ks = List.find (\<lambda>k. key k = u \<or> key k = 0) ks"

definition TOMB :: nat where "TOMB = 2 ^ 64 - 1"

text \<open>Every key in the table is what its own look-up finds.\<close>

definition chains_ok :: "(nat \<Rightarrow> nat list) \<Rightarrow> (nat \<Rightarrow> nat) \<Rightarrow> bool" where
  "chains_ok seq key \<longleftrightarrow> (\<forall>k. key k \<noteq> 0 \<and> key k \<noteq> TOMB \<longrightarrow> probe_find key (key k) (seq (key k)) = Some k)"

definition has_key :: "(nat \<Rightarrow> nat list) \<Rightarrow> (nat \<Rightarrow> nat) \<Rightarrow> nat \<Rightarrow> bool" where
  "has_key seq key u \<longleftrightarrow> (case probe_find key u (seq u) of None \<Rightarrow> False | Some k \<Rightarrow> key k = u)"

lemma probe_find_key: "probe_find key u ks = Some k \<Longrightarrow> key k = u \<or> key k = 0"
  by (auto simp: probe_find_def find_Some_iff)

lemma has_key_iff:
  assumes "chains_ok seq key" "u \<noteq> 0" "u \<noteq> TOMB"
  shows "has_key seq key u \<longleftrightarrow> (\<exists>k. key k = u)"
  using assms by (auto simp: has_key_def chains_ok_def split: option.splits)

lemma find_update_skip:
  assumes "List.find P xs = Some k" "\<And>x. x \<noteq> j \<Longrightarrow> P' x = P x" "k \<noteq> j" "P j \<or> \<not> P' j"
  shows "List.find P' xs = Some k"
  using assms
proof (induction xs)
  case (Cons a xs)
  then show ?case by (cases "a = j") (auto split: if_splits)
qed simp

text \<open>Filling an empty slot that a look-up ended on, and burying a key, keep the chains.\<close>

lemma chains_insert:
  assumes "chains_ok seq key" "probe_find key u (seq u) = Some j" "key j = 0" "u \<noteq> 0"
  shows "chains_ok seq (key(j := u))"
  unfolding chains_ok_def
proof (intro allI impI)
  fix k
  assume k: "(key(j := u)) k \<noteq> 0 \<and> (key(j := u)) k \<noteq> TOMB"
  show "probe_find (key(j := u)) ((key(j := u)) k) (seq ((key(j := u)) k)) = Some k"
  proof (cases "k = j")
    case True
    have "(\<lambda>k. (key(j := u)) k = u \<or> (key(j := u)) k = 0) = (\<lambda>k. key k = u \<or> key k = 0)"
      using assms(3) by auto
    then have "probe_find (key(j := u)) u (seq u) = Some j" using assms(2) by (simp add: probe_find_def)
    then show ?thesis using True by simp
  next
    case False
    then have "probe_find key (key k) (seq (key k)) = Some k" using assms(1) k by (simp add: chains_ok_def)
    then show ?thesis
      using find_update_skip [of "\<lambda>x. key x = key k \<or> key x = 0" _ k j
          "\<lambda>x. (key(j := u)) x = key k \<or> (key(j := u)) x = 0"] False assms(3)
      by (simp add: probe_find_def)
  qed
qed

lemma chains_bury:
  assumes "chains_ok seq key" "key j \<noteq> 0"
  shows "chains_ok seq (key(j := TOMB))"
  unfolding chains_ok_def
proof (intro allI impI)
  fix k
  assume k: "(key(j := TOMB)) k \<noteq> 0 \<and> (key(j := TOMB)) k \<noteq> TOMB"
  then have ne: "k \<noteq> j" by auto
  then have "probe_find key (key k) (seq (key k)) = Some k" using assms(1) k by (simp add: chains_ok_def)
  moreover have "TOMB \<noteq> 0" by (simp add: TOMB_def)
  moreover have "key k \<noteq> TOMB" using k ne by simp
  ultimately have "probe_find (key(j := TOMB)) (key k) (seq (key k)) = Some k"
    using find_update_skip [of "\<lambda>x. key x = key k \<or> key x = 0" _ k j
        "\<lambda>x. (key(j := TOMB)) x = key k \<or> (key(j := TOMB)) x = 0"] ne
    by (simp add: probe_find_def)
  with ne show "probe_find (key(j := TOMB)) ((key(j := TOMB)) k) (seq ((key(j := TOMB)) k)) = Some k"
    by simp
qed

lemma chains_unique:
  assumes "chains_ok seq key" "key j = u" "key k = u" "u \<noteq> 0" "u \<noteq> TOMB"
  shows "j = k"
  using assms by (metis chains_ok_def option.inject)

lemma length_peek [simp]: "length (peek_bytes a n m) = n"
  by (simp add: peek_bytes_def)

end
