(* ===== verification/Death_Table.thy ===== *)
theory Death_Table
  imports Main
begin

text \<open>
  What a table of birth and death stamps promises to those who ask whether a block is dead: stamping
  clears a death, retiring sets one, and neither touches another block. Both identity spines
  provide it; the identity oracle uses it.
\<close>

datatype 'x dt_op = Put nat 'x int | Retire nat int

fun dt_user :: "'x dt_op \<Rightarrow> nat" where
  "dt_user (Put u x f) = u"
| "dt_user (Retire u f) = u"

fun dt_step :: "(nat \<Rightarrow> 'x \<Rightarrow> int \<Rightarrow> 's \<Rightarrow> 's) \<Rightarrow> (nat \<Rightarrow> int \<Rightarrow> 's \<Rightarrow> 's) \<Rightarrow> 'x dt_op \<Rightarrow> 's \<Rightarrow> 's" where
  "dt_step put retire (Put u x f) s = put u x f s"
| "dt_step put retire (Retire u f) s = retire u f s"

text \<open>The last thing that happened to a block.\<close>

definition last_op :: "nat \<Rightarrow> 'x dt_op list \<Rightarrow> 'x dt_op option" where
  "last_op u ops = List.find (\<lambda>op. dt_user op = u) (rev ops)"

lemma last_op_snoc: "last_op u (ops @ [op]) = (if dt_user op = u then Some op else last_op u ops)"
  by (simp add: last_op_def)

lemma last_op_Nil [simp]: "last_op u [] = None"
  by (simp add: last_op_def)

locale death_table =
  fixes put :: "nat \<Rightarrow> 'x \<Rightarrow> int \<Rightarrow> 's \<Rightarrow> 's" and retire :: "nat \<Rightarrow> int \<Rightarrow> 's \<Rightarrow> 's"
    and death_of :: "'s \<Rightarrow> nat \<Rightarrow> int option" and ok :: "'s \<Rightarrow> bool" and good :: "nat \<Rightarrow> bool" and never :: int
  assumes ok_put: "ok s \<Longrightarrow> good u \<Longrightarrow> ok (put u x f s)"
    and ok_retire: "ok s \<Longrightarrow> good u \<Longrightarrow> ok (retire u f s)"
    and put_same: "ok s \<Longrightarrow> good u \<Longrightarrow> death_of (put u x f s) u \<in> {None, Some never}"
    and put_other: "ok s \<Longrightarrow> good u \<Longrightarrow> good v \<Longrightarrow> v \<noteq> u \<Longrightarrow> death_of (put u x f s) v = death_of s v"
    and retire_same: "ok s \<Longrightarrow> good u \<Longrightarrow> death_of (retire u f s) u = map_option (\<lambda>_. f) (death_of s u)"
    and retire_other: "ok s \<Longrightarrow> good u \<Longrightarrow> good v \<Longrightarrow> v \<noteq> u \<Longrightarrow> death_of (retire u f s) v = death_of s v"
begin

lemma ok_run: "ok s \<Longrightarrow> \<forall>op \<in> set ops. good (dt_user op) \<Longrightarrow> ok (fold (dt_step put retire) ops s)"
proof (induction ops arbitrary: s)
  case (Cons op ops)
  have "ok (dt_step put retire op s)" using Cons.prems by (cases op) (simp_all add: ok_put ok_retire)
  then show ?case using Cons by simp
qed simp

text \<open>A death on record is the frame of the block's last event, and that event was its retirement.\<close>

lemma death_has_retire:
  assumes "ok s" "\<forall>op \<in> set ops. good (dt_user op)" "good u" "death_of s u = None"
    and "death_of (fold (dt_step put retire) ops s) u = Some d"
  shows "d = never \<or> last_op u ops = Some (Retire u d)"
  using assms(2,5)
proof (induction ops arbitrary: d rule: rev_induct)
  case Nil
  then show ?case using assms(4) by simp
next
  case (snoc op ops)
  define r where "r = fold (dt_step put retire) ops s"
  have ok: "ok r" using snoc.prems(1) ok_run [OF assms(1)] by (simp add: r_def)
  have d: "death_of (dt_step put retire op r) u = Some d" using snoc.prems(2) by (simp add: r_def)
  have good: "good (dt_user op)" using snoc.prems(1) by simp
  show ?case
  proof (cases "dt_user op = u")
      case True
    show ?thesis
    proof (cases op)
      case (Put v x f)
      then show ?thesis using d True put_same [OF ok assms(3), of x f] by auto
    next
      case (Retire v f)
      then show ?thesis using d True retire_same [OF ok assms(3), of f] by (auto simp: last_op_snoc)
    qed
  next
    case False
    then have "death_of r u = Some d"
      using d good put_other [OF ok _ assms(3)] retire_other [OF ok _ assms(3)] by (cases op) auto
    then have "d = never \<or> last_op u ops = Some (Retire u d)"
      using snoc.IH snoc.prems(1) by (simp add: r_def)
    then show ?thesis using False by (simp add: last_op_snoc)
  qed
qed

end

end
