(* ===== verification/Idspine.thy ===== *)
theory Idspine
  imports Game_Memory Death_Table
begin

text \<open>
  The birth-stamp table of \<open>src/src/idspine.cpp\<close>: an open-addressed table from allocator blocks to a
  serial number, the frames of birth and death and the live bit. Slots are written by one thread
  per block (the allocator's own critical section), so the claim by compare-and-swap succeeds.
  The address 0 is the empty slot; a slot, once claimed, keeps its block.
\<close>

definition SPINE_CAP :: nat where "SPINE_CAP = 2 ^ 18"
definition MAXPROBE :: nat where "MAXPROBE = 128"
definition FRAME_NEVER :: int where "FRAME_NEVER = 0x7FFFFFFF"

record sp_slot =
  sp_block :: nat
  sp_serial :: int
  sp_live :: bool
  sp_birth :: int
  sp_death :: int
  sp_size :: nat

record spine =
  ss_tab :: "sp_slot carray"
  ss_ctr :: int
  ss_births :: int
  ss_deaths :: int
  ss_reuses :: int
  ss_live :: int
  ss_distinct :: int
  ss_full :: int

definition spine_init :: spine where
  "spine_init = \<lparr>ss_tab = (\<lambda>_. \<lparr>sp_block = 0, sp_serial = 0, sp_live = False, sp_birth = 0, sp_death = 0,
      sp_size = 0\<rparr>), ss_ctr = 0, ss_births = 0, ss_deaths = 0, ss_reuses = 0, ss_live = 0,
      ss_distinct = 0, ss_full = 0\<rparr>"

definition hash_block :: "nat \<Rightarrow> nat" where
  "hash_block b =
     (let x = drop_bit 5 (of_nat b :: u64);
          x = xor x (drop_bit 33 x) * 0xff51afd7ed558ccd;
          x = xor x (drop_bit 33 x)
      in unat (and x 0x3FFFF))"

definition spine_seq :: "nat \<Rightarrow> nat list" where
  "spine_seq b = probe_seq SPINE_CAP MAXPROBE (hash_block b)"

abbreviation spine_key :: "spine \<Rightarrow> nat \<Rightarrow> nat" where
  "spine_key st k \<equiv> sp_block (ss_tab st k)"

definition spine_find :: "nat \<Rightarrow> spine \<Rightarrow> nat option" where
  "spine_find b st = probe_find (spine_key st) b (spine_seq b)"

text \<open>A carve: the next serial for a known block, or a fresh slot; a saturated run only counts.\<close>

definition spine_put :: "nat \<Rightarrow> nat \<Rightarrow> int \<Rightarrow> spine \<Rightarrow> spine" where
  "spine_put b sz frame st =
     (case spine_find b st of
        None \<Rightarrow> st\<lparr>ss_full := ss_full st + 1\<rparr>
      | Some s \<Rightarrow>
          (let r = ss_tab st s; c = ss_ctr st + 1;
               r' = r\<lparr>sp_block := b, sp_serial := c, sp_birth := frame, sp_death := FRAME_NEVER,
                      sp_size := sz, sp_live := True\<rparr>;
               st1 = st\<lparr>ss_tab := (ss_tab st)(s := r'), ss_ctr := c\<rparr>
           in if sp_block r = b
              then st1\<lparr>ss_reuses := ss_reuses st + 1,
                       ss_live := (if sp_live r then ss_live st else ss_live st + 1)\<rparr>
              else st1\<lparr>ss_births := ss_births st + 1, ss_live := ss_live st + 1,
                       ss_distinct := ss_distinct st + 1\<rparr>))"

definition spine_retire :: "nat \<Rightarrow> int \<Rightarrow> spine \<Rightarrow> spine" where
  "spine_retire b frame st =
     (case spine_find b st of
        None \<Rightarrow> st
      | Some s \<Rightarrow>
          (let r = ss_tab st s in
           if sp_block r = b
           then (let st1 = st\<lparr>ss_tab := (ss_tab st)(s := r\<lparr>sp_death := frame, sp_live := False\<rparr>)\<rparr>
                 in if sp_live r then st1\<lparr>ss_deaths := ss_deaths st + 1, ss_live := ss_live st - 1\<rparr> else st1)
           else st))"

definition stamp_of_block :: "spine \<Rightarrow> nat \<Rightarrow> int" where
  "stamp_of_block st b =
     (case spine_find b st of None \<Rightarrow> 0
      | Some s \<Rightarrow> if sp_block (ss_tab st s) = b then sp_serial (ss_tab st s) else 0)"

definition live_at :: "spine \<Rightarrow> nat \<Rightarrow> bool" where
  "live_at st b =
     (case spine_find b st of None \<Rightarrow> False
      | Some s \<Rightarrow> if sp_block (ss_tab st s) = b then sp_live (ss_tab st s) else False)"

definition spine_lookup :: "spine \<Rightarrow> nat \<Rightarrow> (int \<times> int \<times> int) option" where
  "spine_lookup st b =
     (case spine_find b st of None \<Rightarrow> None
      | Some s \<Rightarrow> let r = ss_tab st s in
          if sp_block r = b then Some (sp_birth r, sp_death r, sp_serial r) else None)"

text \<open>The snapshots walk the slots in order and stop when the caller's buffer is full.\<close>

definition snapshot_live :: "nat \<Rightarrow> spine \<Rightarrow> nat list" where
  "snapshot_live mx st =
     take mx (map (spine_key st) (filter (\<lambda>k. sp_live (ss_tab st k) \<and> spine_key st k \<noteq> 0) [0..<SPINE_CAP]))"

definition snapshot_live_sized :: "nat \<Rightarrow> spine \<Rightarrow> (nat \<times> nat \<times> int) list" where
  "snapshot_live_sized mx st =
     take mx (map (\<lambda>k. let r = ss_tab st k in (sp_block r, sp_size r, sp_serial r))
       (filter (\<lambda>k. sp_live (ss_tab st k) \<and> spine_key st k \<noteq> 0) [0..<SPINE_CAP]))"

definition snapshot_all :: "nat \<Rightarrow> spine \<Rightarrow> (nat \<times> int \<times> int \<times> int) list" where
  "snapshot_all mx st =
     take mx (map (\<lambda>k. let r = ss_tab st k in (sp_block r, sp_birth r, sp_death r, sp_serial r))
       (filter (\<lambda>k. spine_key st k \<noteq> 0) [0..<SPINE_CAP]))"

definition snapshot_all_sized :: "nat \<Rightarrow> spine \<Rightarrow> (nat \<times> nat \<times> int \<times> int \<times> int) list" where
  "snapshot_all_sized mx st =
     take mx (map (\<lambda>k. let r = ss_tab st k in (sp_block r, sp_size r, sp_birth r, sp_death r, sp_serial r))
       (filter (\<lambda>k. spine_key st k \<noteq> 0) [0..<SPINE_CAP]))"

section \<open>Invariant\<close>

definition live_slots :: "spine \<Rightarrow> nat set" where
  "live_slots st = {k. k < SPINE_CAP \<and> sp_live (ss_tab st k)}"

definition spine_ok :: "spine \<Rightarrow> bool" where
  "spine_ok st \<longleftrightarrow> chains_ok spine_seq (spine_key st) \<and> 0 \<le> ss_ctr st
     \<and> (\<forall>k. spine_key st k \<noteq> TOMB \<and> (spine_key st k \<noteq> 0 \<longrightarrow> k < SPINE_CAP))
     \<and> (\<forall>k. if spine_key st k = 0 then \<not> sp_live (ss_tab st k)
            else 0 < sp_serial (ss_tab st k) \<and> sp_serial (ss_tab st k) \<le> ss_ctr st)
     \<and> ss_live st = int (card (live_slots st))
     \<and> ss_distinct st = int (card {k. k < SPINE_CAP \<and> spine_key st k \<noteq> 0})"

definition block_addr :: "nat \<Rightarrow> bool" where
  "block_addr b \<longleftrightarrow> 0 < b \<and> b < TOMB"

lemma spine_seq_range: "k \<in> set (spine_seq b) \<Longrightarrow> k < SPINE_CAP"
  by (auto simp: spine_seq_def probe_seq_def SPINE_CAP_def)

lemma spine_find_range: "spine_find b st = Some k \<Longrightarrow> k < SPINE_CAP"
  unfolding spine_find_def probe_find_def find_Some_iff by (metis nth_mem spine_seq_range)

lemma spine_init_ok: "spine_ok spine_init"
  by (simp add: spine_ok_def spine_init_def chains_ok_def live_slots_def TOMB_def)

text \<open>A known block is always found, at its own slot.\<close>

lemma spine_find_known:
  assumes "spine_ok st" "spine_key st k = b" "block_addr b"
  shows "spine_find b st = Some k"
  using assms by (auto simp: spine_ok_def chains_ok_def spine_find_def block_addr_def)

lemma stamp_zero_iff:
  assumes "spine_ok st" "block_addr b"
  shows "stamp_of_block st b = 0 \<longleftrightarrow> (\<forall>k. spine_key st k \<noteq> b)"
proof (cases "\<exists>k. spine_key st k = b")
  case True
  then obtain k where k: "spine_key st k = b" by blast
  have "if spine_key st k = 0 then \<not> sp_live (ss_tab st k)
      else 0 < sp_serial (ss_tab st k) \<and> sp_serial (ss_tab st k) \<le> ss_ctr st"
    using assms(1) unfolding spine_ok_def by blast
  then have "0 < sp_serial (ss_tab st k)" using k assms(2) by (auto simp: block_addr_def split: if_splits)
  moreover have "stamp_of_block st b = sp_serial (ss_tab st k)"
    using spine_find_known [OF assms(1) k assms(2)] k by (simp add: stamp_of_block_def)
  ultimately show ?thesis using k by auto
next
  case False
  then show ?thesis by (auto simp: stamp_of_block_def split: option.splits)
qed

lemma stamp_known:
  assumes "spine_ok st" "spine_key st k = b" "block_addr b"
  shows "stamp_of_block st b = sp_serial (ss_tab st k)"
  using spine_find_known [OF assms] assms(2) by (simp add: stamp_of_block_def)

lemma serial_bounds:
  assumes "spine_ok st" "spine_key st k \<noteq> 0"
  shows "0 < sp_serial (ss_tab st k)" "sp_serial (ss_tab st k) \<le> ss_ctr st"
proof -
  have "if spine_key st k = 0 then \<not> sp_live (ss_tab st k)
      else 0 < sp_serial (ss_tab st k) \<and> sp_serial (ss_tab st k) \<le> ss_ctr st"
    using assms(1) unfolding spine_ok_def by blast
  with assms(2) show "0 < sp_serial (ss_tab st k)" "sp_serial (ss_tab st k) \<le> ss_ctr st" by simp_all
qed

lemma stamp_le_ctr: "spine_ok st \<Longrightarrow> block_addr b \<Longrightarrow> stamp_of_block st b \<le> ss_ctr st"
  using serial_bounds [of st] stamp_known [of st _ b] stamp_zero_iff [of st b]
  by (metis block_addr_def less_irrefl spine_ok_def)

lemma card_insert_live:
  assumes "s < SPINE_CAP"
  shows "int (card ({k. k < SPINE_CAP \<and> P k} \<union> {s})) = int (card {k. k < SPINE_CAP \<and> P k}) + (if P s then 0 else 1)"
proof (cases "P s")
  case True
  then have "{k. k < SPINE_CAP \<and> P k} \<union> {s} = {k. k < SPINE_CAP \<and> P k}" using assms by auto
  with True show ?thesis by simp
qed simp

lemma card_remove_live:
  assumes "s < SPINE_CAP" "P s"
  shows "int (card ({k. k < SPINE_CAP \<and> P k} - {s})) = int (card {k. k < SPINE_CAP \<and> P k}) - 1"
proof -
  have "finite {k. k < SPINE_CAP \<and> P k}" "s \<in> {k. k < SPINE_CAP \<and> P k}" using assms by simp_all
  then have "card {k. k < SPINE_CAP \<and> P k} = Suc (card ({k. k < SPINE_CAP \<and> P k} - {s}))"
    by (rule card.remove)
  then show ?thesis by linarith
qed

text \<open>A carve keeps the invariant; the block gets a serial above every earlier one.\<close>

lemma spine_put_slot:
  assumes "spine_ok st" "block_addr b" "spine_find b st = Some s"
  shows "ss_tab (spine_put b sz frame st) = (ss_tab st)(s := (ss_tab st s)\<lparr>sp_block := b, sp_serial := ss_ctr st + 1,
      sp_birth := frame, sp_death := FRAME_NEVER, sp_size := sz, sp_live := True\<rparr>)"
    "ss_ctr (spine_put b sz frame st) = ss_ctr st + 1"
    "spine_key (spine_put b sz frame st) = (spine_key st)(s := b)"
    "spine_key st s = b \<or> spine_key st s = 0" "s < SPINE_CAP"
  using assms probe_find_key [of "spine_key st" b "spine_seq b" s] spine_find_range [of b st s]
  by (auto simp: spine_put_def Let_def spine_find_def)

lemma spine_put_ok:
  assumes ok: "spine_ok st" and b: "block_addr b"
  shows "spine_ok (spine_put b sz frame st)"
proof (cases "spine_find b st")
  case None
  then show ?thesis using ok by (simp add: spine_put_def spine_ok_def live_slots_def)
next
  case (Some s)
  let ?st = "spine_put b sz frame st"
  note P = spine_put_slot [OF ok b Some]
  have bn: "b \<noteq> 0" "b \<noteq> TOMB" using b by (auto simp: block_addr_def)
  have chains: "chains_ok spine_seq (spine_key ?st)"
  proof (cases "spine_key st s = b")
    case True
    then have "(spine_key st)(s := b) = spine_key st" by auto
    then show ?thesis using ok unfolding P(3) by (simp add: spine_ok_def)
  next
    case False
    then show ?thesis
      using chains_insert [of spine_seq "spine_key st" b s] ok Some P(4) bn
      unfolding P(3) by (simp add: spine_ok_def spine_find_def)
  qed
  have range: "spine_key ?st k \<noteq> TOMB \<and> (spine_key ?st k \<noteq> 0 \<longrightarrow> k < SPINE_CAP)" for k
    using ok P(3,5) bn by (simp add: spine_ok_def fun_eq_iff)
  have serial: "if spine_key ?st k = 0 then \<not> sp_live (ss_tab ?st k)
      else 0 < sp_serial (ss_tab ?st k) \<and> sp_serial (ss_tab ?st k) \<le> ss_ctr ?st" for k
  proof (cases "k = s")
    case True
    then show ?thesis using ok bn by (simp add: P(1,2) spine_ok_def)
  next
    case False
    have "if spine_key st k = 0 then \<not> sp_live (ss_tab st k)
        else 0 < sp_serial (ss_tab st k) \<and> sp_serial (ss_tab st k) \<le> ss_ctr st"
      using ok unfolding spine_ok_def by blast
    with False show ?thesis by (auto simp: P(1,2) split: if_splits)
  qed
  have dead: "\<not> sp_live (ss_tab st s)" if "spine_key st s = 0" using ok that unfolding spine_ok_def by presburger
  have "live_slots ?st = {k. k < SPINE_CAP \<and> sp_live (ss_tab st k)} \<union> {s}"
    using P(5) by (auto simp: live_slots_def P(1))
  then have card: "int (card (live_slots ?st)) = ss_live st + (if sp_live (ss_tab st s) then 0 else 1)"
    using card_insert_live [OF P(5)] ok by (simp add: spine_ok_def live_slots_def)
  have "{k. k < SPINE_CAP \<and> spine_key ?st k \<noteq> 0} = {k. k < SPINE_CAP \<and> spine_key st k \<noteq> 0} \<union> {s}"
    using P(5) bn by (auto simp: P(1) split: if_splits)
  then have dist: "int (card {k. k < SPINE_CAP \<and> spine_key ?st k \<noteq> 0}) =
      ss_distinct st + (if spine_key st s \<noteq> 0 then 0 else 1)"
    using card_insert_live [OF P(5), of "\<lambda>k. spine_key st k \<noteq> 0"] ok by (simp add: spine_ok_def)
  have counts: "ss_live ?st = ss_live st + (if sp_live (ss_tab st s) then 0 else 1)"
    "ss_distinct ?st = ss_distinct st + (if spine_key st s \<noteq> 0 then 0 else 1)"
    using Some P(4) bn dead by (auto simp: spine_put_def Let_def cong: option.case_cong)
  have ctr: "0 \<le> ss_ctr ?st" using P(2) [of sz frame] ok by (simp add: spine_ok_def)
  show ?thesis
    unfolding spine_ok_def
  proof (intro conjI)
    show "ss_live ?st = int (card (live_slots ?st))" using card counts(1) by simp
    show "ss_distinct ?st = int (card {k. k < SPINE_CAP \<and> spine_key ?st k \<noteq> 0})" using dist counts(2) by simp
  qed (use chains ctr range serial in blast)+
qed

lemma spine_put_stamp:
  assumes ok: "spine_ok st" and b: "block_addr b" and v: "block_addr v"
  shows "stamp_of_block (spine_put b sz frame st) v =
    (if v = b \<and> spine_find b st \<noteq> None then ss_ctr st + 1 else stamp_of_block st v)"
proof (cases "spine_find b st")
  case None
  then have "ss_tab (spine_put b sz frame st) = ss_tab st" by (simp add: spine_put_def)
  then show ?thesis using None by (simp add: stamp_of_block_def spine_find_def split: option.split)
next
  case (Some s)
  let ?st = "spine_put b sz frame st"
  note P = spine_put_slot [OF ok b Some]
  have ok': "spine_ok ?st" by (rule spine_put_ok [OF ok b])
  show ?thesis
  proof (cases "v = b")
    case True
    have "spine_key ?st s = b" by (simp add: P(1))
    then show ?thesis using stamp_known [OF ok' _ b, of s] True Some by (simp add: P(1))
  next
    case False
    show ?thesis
    proof (cases "\<exists>k. spine_key st k = v")
      case True
      then obtain k where k: "spine_key st k = v" by blast
      then have "k \<noteq> s" using P(4) False v by (auto simp: block_addr_def)
      then have "spine_key ?st k = v" "ss_tab ?st k = ss_tab st k" using k by (simp_all add: P(1))
      then show ?thesis using stamp_known [OF ok' _ v, of k] stamp_known [OF ok k v] False by simp
    next
      case no: False
      then have "\<forall>k. spine_key ?st k \<noteq> v" using False P(3) by (simp add: fun_eq_iff)
      then show ?thesis using stamp_zero_iff [OF ok' v] stamp_zero_iff [OF ok v] no False by simp
    qed
  qed
qed

text \<open>A free keeps every serial and block; only the live bit and the frame of death change.\<close>

lemma spine_retire_slot:
  "ss_tab (spine_retire b frame st) k =
     (if spine_find b st = Some k \<and> spine_key st k = b
      then (ss_tab st k)\<lparr>sp_death := frame, sp_live := False\<rparr> else ss_tab st k)"
  "ss_ctr (spine_retire b frame st) = ss_ctr st"
  "spine_key (spine_retire b frame st) = spine_key st"
  "ss_distinct (spine_retire b frame st) = ss_distinct st"
  by (auto simp: spine_retire_def Let_def split: option.split)

lemma spine_retire_ok:
  assumes ok: "spine_ok st"
  shows "spine_ok (spine_retire b frame st)"
proof -
  let ?st = "spine_retire b frame st"
  note R = spine_retire_slot [of b frame st]
  have serial: "if spine_key ?st k = 0 then \<not> sp_live (ss_tab ?st k)
      else 0 < sp_serial (ss_tab ?st k) \<and> sp_serial (ss_tab ?st k) \<le> ss_ctr ?st" for k
  proof -
    have "if spine_key st k = 0 then \<not> sp_live (ss_tab st k)
        else 0 < sp_serial (ss_tab st k) \<and> sp_serial (ss_tab st k) \<le> ss_ctr st"
      using ok unfolding spine_ok_def by blast
    then show ?thesis by (auto simp: R(1,2) split: if_splits)
  qed
  have live: "ss_live ?st = int (card (live_slots ?st))"
  proof (cases "\<exists>s. spine_find b st = Some s \<and> spine_key st s = b \<and> sp_live (ss_tab st s)")
    case True
    then obtain s where s: "spine_find b st = Some s" "spine_key st s = b" "sp_live (ss_tab st s)" by blast
    have "live_slots ?st = {k. k < SPINE_CAP \<and> sp_live (ss_tab st k)} - {s}"
      using s by (auto simp: live_slots_def R(1))
    then have "int (card (live_slots ?st)) = ss_live st - 1"
      using card_remove_live [OF spine_find_range [OF s(1)], of "\<lambda>k. sp_live (ss_tab st k)"] s(3) ok
      by (simp add: spine_ok_def live_slots_def)
    then show ?thesis using s by (simp add: spine_retire_def Let_def)
  next
    case False
    then have "live_slots ?st = live_slots st" by (auto simp: live_slots_def R(1))
    moreover have "ss_live ?st = ss_live st"
      using False by (auto simp: spine_retire_def Let_def split: option.split)
    ultimately show ?thesis using ok by (simp add: spine_ok_def)
  qed
  show ?thesis
    unfolding spine_ok_def
  proof (intro conjI)
    show "chains_ok spine_seq (spine_key ?st)" using ok unfolding R(3) by (simp add: spine_ok_def)
    show "0 \<le> ss_ctr ?st" using ok R(2) by (simp add: spine_ok_def)
    show "ss_distinct ?st = int (card {k. k < SPINE_CAP \<and> spine_key ?st k \<noteq> 0})"
      using ok R(4) fun_cong [OF R(3)] by (simp add: spine_ok_def)
    show "\<forall>k. spine_key ?st k \<noteq> TOMB \<and> (spine_key ?st k \<noteq> 0 \<longrightarrow> k < SPINE_CAP)"
      using ok fun_cong [OF R(3)] by (simp add: spine_ok_def)
  qed (use live serial in blast)+
qed

lemma spine_retire_stamp: "stamp_of_block (spine_retire b frame st) v = stamp_of_block st v"
proof -
  have "spine_find v (spine_retire b frame st) = spine_find v st"
    unfolding spine_find_def spine_retire_slot(3) ..
  moreover have "sp_serial (ss_tab (spine_retire b frame st) k) = sp_serial (ss_tab st k)"
    "spine_key (spine_retire b frame st) k = spine_key st k" for k
    by (simp_all add: spine_retire_slot(1))
  ultimately show ?thesis by (simp add: stamp_of_block_def split: option.split)
qed

section \<open>Runs\<close>

datatype spine_op = Carved nat nat int | Retired nat int

fun spine_step :: "spine_op \<Rightarrow> spine \<Rightarrow> spine" where
  "spine_step (Carved b sz f) st = spine_put b sz f st"
| "spine_step (Retired b f) st = spine_retire b f st"

fun op_block :: "spine_op \<Rightarrow> nat" where
  "op_block (Carved b sz f) = b"
| "op_block (Retired b f) = b"

definition spine_run :: "spine_op list \<Rightarrow> spine \<Rightarrow> spine" where
  "spine_run ops st = fold spine_step ops st"

lemma spine_run_ok:
  assumes "spine_ok st" "\<forall>x \<in> set ops. block_addr (op_block x)"
  shows "spine_ok (spine_run ops st)"
  using assms
proof (induction ops arbitrary: st)
  case (Cons x xs)
  then have "spine_ok (spine_step x st)"
    by (cases x) (simp_all add: spine_put_ok spine_retire_ok)
  with Cons show ?case by (simp add: spine_run_def)
qed (simp add: spine_run_def)

lemma spine_run_grows:
  assumes "spine_ok st" "\<forall>x \<in> set ops. block_addr (op_block x)" "block_addr b"
  shows "stamp_of_block st b \<le> stamp_of_block (spine_run ops st) b"
  using assms
proof (induction ops arbitrary: st)
  case (Cons x xs)
  have ok: "spine_ok (spine_step x st)" using Cons.prems spine_run_ok [of st "[x]"] by (simp add: spine_run_def)
  have "stamp_of_block st b \<le> stamp_of_block (spine_step x st) b"
    using Cons.prems stamp_le_ctr [of st b]
    by (cases x) (auto simp: spine_put_stamp spine_retire_stamp)
  also have "\<dots> \<le> stamp_of_block (spine_run xs (spine_step x st)) b"
    using Cons ok by simp
  finally show ?case by (simp add: spine_run_def)
qed (simp add: spine_run_def)

fun carves_of :: "nat \<Rightarrow> spine_op list \<Rightarrow> nat" where
  "carves_of b [] = 0"
| "carves_of b (Carved c sz f # ops) = (if c = b then 1 else 0) + carves_of b ops"
| "carves_of b (Retired c f # ops) = carves_of b ops"

lemma stamp_known_find: "spine_ok st \<Longrightarrow> block_addr b \<Longrightarrow> stamp_of_block st b \<noteq> 0 \<Longrightarrow> spine_find b st \<noteq> None"
  using stamp_zero_iff spine_find_known by fastforce

lemma spine_run_same:
  assumes "spine_ok st" "\<forall>x \<in> set ops. block_addr (op_block x)" "block_addr b" "stamp_of_block st b \<noteq> 0"
  shows "stamp_of_block (spine_run ops st) b = stamp_of_block st b \<longleftrightarrow> carves_of b ops = 0"
  using assms
proof (induction ops arbitrary: st)
  case (Cons x xs)
  have ok: "spine_ok (spine_step x st)" using Cons.prems spine_run_ok [of st "[x]"] by (simp add: spine_run_def)
  have run: "spine_run (x # xs) st = spine_run xs (spine_step x st)" by (simp add: spine_run_def)
  have grow: "stamp_of_block (spine_step x st) b \<le> stamp_of_block (spine_run xs (spine_step x st)) b"
    using spine_run_grows [OF ok] Cons.prems by simp
  show ?case
  proof (cases "\<exists>sz f. x = Carved b sz f")
    case True
    then have "stamp_of_block (spine_step x st) b = ss_ctr st + 1"
      using spine_put_stamp [OF Cons.prems(1,3,3)] stamp_known_find [OF Cons.prems(1,3,4)] by auto
    then have "stamp_of_block st b < stamp_of_block (spine_run xs (spine_step x st)) b"
      using stamp_le_ctr [OF Cons.prems(1,3)] grow by simp
    with True show ?thesis by (auto simp: run)
  next
    case False
    then have same: "stamp_of_block (spine_step x st) b = stamp_of_block st b"
      using Cons.prems by (cases x) (auto simp: spine_put_stamp spine_retire_stamp)
    have "stamp_of_block (spine_run xs (spine_step x st)) b = stamp_of_block (spine_step x st) b \<longleftrightarrow> carves_of b xs = 0"
      using Cons.IH [OF ok] Cons.prems same by simp
    moreover have "carves_of b (x # xs) = carves_of b xs" using False by (cases x) auto
    ultimately show ?thesis by (simp add: run same)
  qed
qed (simp add: spine_run_def)

lemma spine_find_init: "spine_find b spine_init = Some (hash_block b mod SPINE_CAP)"
  by (simp add: spine_find_def spine_init_def probe_find_def spine_seq_def probe_seq_def MAXPROBE_def
      upt_conv_Cons)

section \<open>The stamps as a death table\<close>

definition spine_death :: "spine \<Rightarrow> nat \<Rightarrow> int option" where
  "spine_death st b = map_option (\<lambda>(_, d, _). d) (spine_lookup st b)"

lemma spine_death_known:
  "spine_ok st \<Longrightarrow> block_addr b \<Longrightarrow> spine_key st k = b \<Longrightarrow> spine_death st b = Some (sp_death (ss_tab st k))"
  using spine_find_known [of st k b] by (simp add: spine_death_def spine_lookup_def Let_def)

lemma spine_death_unknown: "\<forall>k. spine_key st k \<noteq> b \<Longrightarrow> spine_death st b = None"
  by (simp add: spine_death_def spine_lookup_def Let_def split: option.split)

text \<open>A change of one slot that leaves every other block's record alone.\<close>

lemma spine_death_other:
  assumes "spine_ok st" "spine_ok st'" "block_addr v"
    and "\<And>k. spine_key st k = v \<or> spine_key st' k = v \<Longrightarrow> ss_tab st' k = ss_tab st k"
  shows "spine_death st' v = spine_death st v"
proof (cases "\<exists>k. spine_key st k = v \<or> spine_key st' k = v")
  case True
  then obtain k where k: "spine_key st k = v \<or> spine_key st' k = v" by blast
  then have "spine_key st k = v" "spine_key st' k = v" "ss_tab st' k = ss_tab st k" using assms(4) [of k] by auto
  then show ?thesis using spine_death_known assms(1-3) by metis
next
  case False
  then show ?thesis by (simp add: spine_death_unknown)
qed

interpretation sd: death_table "\<lambda>b sz f. spine_put b sz f" spine_retire spine_death spine_ok block_addr FRAME_NEVER
proof
  show "spine_ok (spine_put u x f s)" if "spine_ok s" "block_addr u" for s u x f
    using that by (rule spine_put_ok)
  show "spine_ok (spine_retire u f s)" if "spine_ok s" for s u f
    using that by (rule spine_retire_ok)
  show "spine_death (spine_put u x f s) u \<in> {None, Some FRAME_NEVER}" if "spine_ok s" "block_addr u" for s u x f
  proof (cases "spine_find u s")
    case None
    then show ?thesis by (simp add: spine_death_def spine_lookup_def spine_find_def spine_put_def Let_def cong: option.case_cong)
  next
    case (Some k)
    note P = spine_put_slot [OF that Some]
    have "spine_key (spine_put u x f s) k = u" by (simp add: P(1))
    from spine_death_known [OF spine_put_ok [OF that] that(2) this] show ?thesis by (simp add: P(1))
  qed
  show "spine_death (spine_put u x f s) v = spine_death s v"
    if "spine_ok s" "block_addr u" "block_addr v" "v \<noteq> u" for s u v x f
  proof (cases "spine_find u s")
    case None
    then show ?thesis by (simp add: spine_death_def spine_lookup_def spine_find_def spine_put_def Let_def cong: option.case_cong)
  next
    case (Some k)
    note P = spine_put_slot [OF that(1,2) Some]
    show ?thesis
      using that(3,4) P(4)
      by (intro spine_death_other [OF that(1) spine_put_ok [OF that(1,2)] that(3)])
        (auto simp: P(1) block_addr_def split: if_splits)
  qed
  show "spine_death (spine_retire u f s) u = map_option (\<lambda>_. f) (spine_death s u)" if "spine_ok s" "block_addr u" for s u f
  proof (cases "\<exists>k. spine_key s k = u")
    case True
    then obtain k where k: "spine_key s k = u" by blast
    have "spine_key (spine_retire u f s) k = u" by (simp add: spine_retire_slot(1) k)
    from spine_death_known [OF spine_retire_ok [OF that(1)] that(2) this]
    show ?thesis
      using spine_death_known [OF that k] spine_find_known [OF that(1) k that(2)] k
      by (simp add: spine_retire_slot(1))
  next
    case False
    then show ?thesis by (simp add: spine_death_unknown spine_retire_slot(1))
  qed
  show "spine_death (spine_retire u f s) v = spine_death s v"
    if "spine_ok s" "block_addr u" "block_addr v" "v \<noteq> u" for s u v f
    using that(4)
    by (intro spine_death_other [OF that(1) spine_retire_ok [OF that(1)] that(3)])
      (auto simp: spine_retire_slot(1) split: if_splits)
qed

text \<open>Identity by serial: over any run of carves and frees a block known to the table keeps its
  serial exactly until it is carved again, and serials never fall, so an equal serial means the
  same object; the live count and the occupancy counter are exact.\<close>

theorem serial_identifies:
  assumes "\<forall>x \<in> set (past @ ops). block_addr (op_block x)" "block_addr b"
    "stamp_of_block (spine_run past spine_init) b \<noteq> 0"
  shows "(stamp_of_block (spine_run (past @ ops) spine_init) b = stamp_of_block (spine_run past spine_init) b
      \<longleftrightarrow> carves_of b ops = 0)
    \<and> stamp_of_block (spine_run past spine_init) b \<le> stamp_of_block (spine_run (past @ ops) spine_init) b
    \<and> ss_live (spine_run (past @ ops) spine_init) = int (card (live_slots (spine_run (past @ ops) spine_init)))
    \<and> ss_distinct (spine_run (past @ ops) spine_init)
        = int (card {k. k < SPINE_CAP \<and> spine_key (spine_run (past @ ops) spine_init) k \<noteq> 0})"
proof -
  have run: "spine_run (past @ ops) spine_init = spine_run ops (spine_run past spine_init)"
    by (simp add: spine_run_def)
  have ok: "spine_ok (spine_run past spine_init)" "spine_ok (spine_run (past @ ops) spine_init)"
    using assms(1) by (auto intro: spine_run_ok spine_init_ok)
  then show ?thesis
    using spine_run_same [OF ok(1) _ assms(2,3), of ops] spine_run_grows [OF ok(1) _ assms(2), of ops] assms(1)
    by (simp add: run spine_ok_def)
qed

theorem serial_identifies_witness:
  "stamp_of_block (spine_run [Carved 0x20000 64 0] spine_init) 0x20000 = 1
   \<and> stamp_of_block (spine_run ([Carved 0x20000 64 0] @ [Retired 0x20000 3, Carved 0x20000 64 5]) spine_init) 0x20000 \<noteq> 1"
proof -
  have "stamp_of_block (spine_run [Carved 0x20000 64 0] spine_init) 0x20000 = 1"
    using spine_put_stamp [OF spine_init_ok, of "0x20000" "0x20000" 64 0]
    by (simp add: spine_run_def block_addr_def TOMB_def spine_find_init) (simp add: spine_init_def)
  then show ?thesis
    using serial_identifies [of "[Carved 0x20000 64 0]" "[Retired 0x20000 3, Carved 0x20000 64 5]" "0x20000"]
    by (simp add: block_addr_def TOMB_def)
qed

end
