(* ===== verification/Sound_Resource.thy ===== *)
theory Sound_Resource
  imports Game_Memory
begin

text \<open>
  The sound resources kept live across a load, \<open>src/src/sound_resource_preserve.cpp\<close>: objects register
  when they are acquired, are snapshotted before the arena is reverted and written back after.
  The game's reference-count function and the message log are outside; the vtable table is the
  one of \<open>src/src/sound_resource_vtables.h\<close> without its type names.
\<close>

definition SOUND_RES_VTABLES :: "(nat \<times> nat) list" where
  "SOUND_RES_VTABLES =
   [(0x140bb41b8, 0x10), (0x140bb41c8, 0x10), (0x140bb41f0, 0x38), (0x140bb4200, 0x38),
    (0x140bb4240, 0xb0), (0x140bb43a8, 0x10), (0x140bb43b8, 0x10), (0x140bb43e0, 0x38),
    (0x140bb43f0, 0x38), (0x140bb4430, 0x98), (0x140bb45c0, 0xa0), (0x140bb4680, 0xe8),
    (0x140bb4690, 0xe8), (0x140bb4760, 0x100), (0x140bb4818, 0x18), (0x140bb4828, 0x18),
    (0x140bb4838, 0x18), (0x140bb4860, 0x18), (0x140bb4870, 0x18), (0x140bb4898, 0x20),
    (0x140bb48a8, 0x20), (0x140bb48d0, 0x20), (0x140bb48e0, 0x20), (0x140bb4908, 0x20),
    (0x140bb4918, 0x20), (0x140bb4940, 0x670), (0x140bb4c08, 0x20), (0x140bb4c18, 0x20),
    (0x140bb4c28, 0x20), (0x140bb4c50, 0x298), (0x140bb4d60, 0x20), (0x140bb4d70, 0x20),
    (0x140bb4d80, 0x20), (0x140bb4db0, 0x1030), (0x140bbdb80, 0x48), (0x140bbdb90, 0x48),
    (0x140bbdba0, 0x48), (0x140bbdbd0, 0xb0), (0x140bbdd68, 0x50), (0x140bbdd78, 0x50),
    (0x140bbdd88, 0x50), (0x140bbddc0, 0xb0), (0x140bbdf80, 0xa0), (0x140bc3b50, 0xa0),
    (0x140bc3ce0, 0x168), (0x140bc3e40, 0x168), (0x140bc3fa0, 0x1a0), (0x140bc40f0, 0x170),
    (0x140bc4100, 0x170), (0x140bc43a0, 0x2b0), (0x140bc43b0, 0x2b0), (0x140bc4620, 0x170)]"

definition MAX_REG :: nat where "MAX_REG = 4096"
definition SNAP_CAP :: nat where "SNAP_CAP = 16 * 1024 * 1024"

record sound_res =
  sr_vt :: "(nat \<times> nat) list"
  sr_lo :: nat
  sr_hi :: nat
  sr_reg :: "(nat \<times> nat) list"
  sr_overflow :: nat
  sr_buf_ok :: bool
  sr_buf :: "nat \<Rightarrow> u8"
  sr_snaps :: "(nat \<times> nat \<times> nat) list"
  sr_used :: nat
  sr_comprehensive :: bool

definition size_for_vt :: "sound_res \<Rightarrow> nat \<Rightarrow> nat" where
  "size_for_vt st vt =
     (if vt < sr_lo st \<or> sr_hi st < vt then 0
      else case List.find (\<lambda>e. fst e = vt) (sr_vt st) of None \<Rightarrow> 0 | Some e \<Rightarrow> snd e)"

definition is_sound_vtable :: "sound_res \<Rightarrow> nat \<Rightarrow> bool" where
  "is_sound_vtable st vt \<longleftrightarrow> size_for_vt st vt \<noteq> 0"

definition register_obj :: "nat \<Rightarrow> nat \<Rightarrow> sound_res \<Rightarrow> sound_res" where
  "register_obj obj sz st =
     (case List.find (\<lambda>i. fst (sr_reg st ! i) = obj) [0..<length (sr_reg st)] of
        Some i \<Rightarrow> st\<lparr>sr_reg := (sr_reg st)[i := (obj, sz)]\<rparr>
      | None \<Rightarrow>
          if length (sr_reg st) < MAX_REG then st\<lparr>sr_reg := sr_reg st @ [(obj, sz)]\<rparr>
          else st\<lparr>sr_overflow := sr_overflow st + 1\<rparr>)"

definition canon :: "nat \<Rightarrow> bool" where
  "canon p \<longleftrightarrow> 0x10000 \<le> p \<and> p < 0x7FFFFFFFFFFF"

definition hk_inc :: "arena \<Rightarrow> gmem \<Rightarrow> nat \<Rightarrow> sound_res \<Rightarrow> sound_res" where
  "hk_inc ar m obj st =
     (if \<not> canon obj \<or> \<not> is_arena_addr ar obj then st
      else let sz = size_for_vt st (rd64 m obj)
           in if sz \<noteq> 0 then register_obj obj sz st else st)"

definition sound_init :: "nat \<Rightarrow> bool \<Rightarrow> sound_res" where
  "sound_init base buf_ok =
     (let vts = map (\<lambda>e. (resolve base (fst e), snd e)) SOUND_RES_VTABLES
      in \<lparr>sr_vt = vts, sr_lo = fold (\<lambda>e lo. min (fst e) lo) vts (2 ^ 64 - 1),
          sr_hi = fold (\<lambda>e hi. max (fst e) hi) vts 0, sr_reg = [], sr_overflow = 0,
          sr_buf_ok = buf_ok, sr_buf = (\<lambda>_. 0), sr_snaps = [], sr_used = 0, sr_comprehensive = False\<rparr>)"

section \<open>The block walk\<close>

definition rd_ok :: "arena \<Rightarrow> nat \<Rightarrow> nat \<Rightarrow> bool" where
  "rd_ok ar p n \<longleftrightarrow> canon p \<and> is_committed_addr ar p \<and> is_committed_addr ar (p + n - 1)"

definition blk_total :: "gmem \<Rightarrow> nat \<Rightarrow> nat" where "blk_total m b = (rd32 m (b + 0x38) div 2) * 16"
definition blk_alloc :: "gmem \<Rightarrow> nat \<Rightarrow> bool" where "blk_alloc m b \<longleftrightarrow> rd32 m (b + 0x38) mod 2 \<noteq> 0"

text \<open>The first sound vtable among the 8-byte cells of a block's first kilobyte.\<close>

function scan_block :: "arena \<Rightarrow> gmem \<Rightarrow> nat \<Rightarrow> nat \<Rightarrow> sound_res \<Rightarrow> sound_res" where
  "scan_block ar m p swend st =
     (if swend < p + 8 \<or> \<not> rd_ok ar p 8 then st
      else let sz = size_for_vt st (rd64 m p)
           in if sz \<noteq> 0 then register_obj p sz st else scan_block ar m (p + 8) swend st)"
  by pat_completeness auto
termination by (relation "measure (\<lambda>(ar, m, p, swend, st). swend - p)") auto

text \<open>One allocator's pool; the budget counts blocks and is returned.\<close>

function walk_pool :: "arena \<Rightarrow> gmem \<Rightarrow> nat \<Rightarrow> nat \<Rightarrow> nat \<Rightarrow> sound_res \<Rightarrow> sound_res \<times> nat" where
  "walk_pool ar m bk rhi budget st =
     (if rhi \<le> bk \<or> budget = 0 \<or> \<not> rd_ok ar (bk + 0x40) 8 then (st, budget)
      else let bt = blk_total m bk; nb = bk + bt in
        if bt = 0 \<or> rhi < nb then (st, budget)
        else walk_pool ar m nb rhi (budget - 1)
               (if blk_alloc m bk then scan_block ar m bk (min (bk + 0x400) nb) st else st))"
  by pat_completeness auto
termination by (relation "measure (\<lambda>(ar, m, bk, rhi, budget, st). budget)") auto

definition walk_entry :: "arena \<Rightarrow> gmem \<Rightarrow> nat \<Rightarrow> nat \<Rightarrow> nat list \<times> nat \<times> sound_res \<Rightarrow> nat list \<times> nat \<times> sound_res" where
  "walk_entry ar m tab i acc =
     (let (seen, budget, st) = acc; control = rd64 m (tab + 8 * i) in
      if budget = 0 \<or> \<not> canon control \<or> \<not> is_arena_addr ar control \<or> \<not> rd_ok ar (control + 0x98) 8
         \<or> control \<in> set seen then acc
      else let seen' = (if length seen < 64 then seen @ [control] else seen);
               rlo = rd64 m (control + 0x90); rhi = rd64 m (control + 0x98)
           in if \<not> canon rlo \<or> rhi \<le> rlo \<or> 0x40000000 < rhi - rlo then (seen', budget, st)
              else let (st', budget') = walk_pool ar m rlo rhi budget st in (seen', budget', st'))"

definition register_all_live :: "nat \<Rightarrow> arena \<Rightarrow> gmem \<Rightarrow> sound_res \<Rightarrow> sound_res" where
  "register_all_live base ar m st =
     snd (snd (for_range 0 64 (walk_entry ar m (resolve base 0x140D762F0)) ([], 4000000, st)))"

section \<open>Save and restore\<close>

definition save_entry :: "gmem \<Rightarrow> nat \<times> nat \<Rightarrow> (nat \<times> nat) list \<times> sound_res \<Rightarrow> (nat \<times> nat) list \<times> sound_res" where
  "save_entry m e acc =
     (let (live, st) = acc; a = fst e in
      if \<not> canon a then acc
      else let sz = size_for_vt st (rd64 m a) in
        if sz = 0 then acc
        else if SNAP_CAP < sr_used st + sz then (live @ [(a, sz)], st)
        else (live @ [(a, sz)],
              st\<lparr>sr_buf := poke_bytes (sr_used st) (peek_bytes a sz m) (sr_buf st),
                 sr_snaps := sr_snaps st @ [(a, sz, sr_used st)], sr_used := sr_used st + sz\<rparr>))"

definition sound_save :: "bool \<Rightarrow> nat \<Rightarrow> arena \<Rightarrow> gmem \<Rightarrow> sound_res \<Rightarrow> sound_res" where
  "sound_save engine_on base ar m st0 =
     (if \<not> engine_on \<or> \<not> sr_buf_ok st0 then st0
      else let st = (if sr_comprehensive st0 then register_all_live base ar m st0 else st0);
               (live, st') = fold (save_entry m) (sr_reg st) ([], st\<lparr>sr_snaps := [], sr_used := 0\<rparr>)
           in st'\<lparr>sr_reg := live\<rparr>)"

definition restore_entry :: "sound_res \<Rightarrow> nat \<times> nat \<times> nat \<Rightarrow> gmem \<Rightarrow> gmem" where
  "restore_entry st e m =
     (let (a, sz, off) = e; src = peek_bytes off sz (sr_buf st)
      in if peek_bytes a sz m = src then m else poke_bytes a src m)"

definition sound_restore :: "bool \<Rightarrow> sound_res \<Rightarrow> gmem \<Rightarrow> gmem" where
  "sound_restore engine_on st m =
     (if \<not> engine_on \<or> \<not> sr_buf_ok st then m else fold (restore_entry st) (sr_snaps st) m)"

section \<open>Facts\<close>

lemma peek_eq_iff: "peek_bytes a n m = peek_bytes b n m' \<longleftrightarrow> (\<forall>i<n. m (a + i) = m' (b + i))"
  by (auto simp: peek_bytes_def map_eq_conv)

lemma nth_peek [simp]: "i < n \<Longrightarrow> peek_bytes a n m ! i = m (a + i)"
  by (simp add: peek_bytes_def)

definition in_range :: "nat \<Rightarrow> nat \<Rightarrow> nat \<Rightarrow> bool" where
  "in_range a n x \<longleftrightarrow> a \<le> x \<and> x < a + n"

text \<open>What the snapshot holds of memory \<open>m\<close>.\<close>

definition snaps_of :: "gmem \<Rightarrow> sound_res \<Rightarrow> bool" where
  "snaps_of m st \<longleftrightarrow> sr_used st \<le> SNAP_CAP \<and>
     (\<forall>(a, sz, off) \<in> set (sr_snaps st). off + sz \<le> sr_used st \<and> peek_bytes off sz (sr_buf st) = peek_bytes a sz m)"

lemma save_entry_snaps:
  assumes "snaps_of m (snd acc)"
  shows "snaps_of m (snd (save_entry m e acc))"
proof -
  obtain live st where acc: "acc = (live, st)" by fastforce
  let ?sz = "size_for_vt st (rd64 m (fst e))"
  let ?buf = "poke_bytes (sr_used st) (peek_bytes (fst e) ?sz m) (sr_buf st)"
  have old: "peek_bytes off sz ?buf = peek_bytes a sz m \<and> off + sz \<le> sr_used st + ?sz"
    if "(a, sz, off) \<in> set (sr_snaps st)" for a sz off
  proof -
    have "off + sz \<le> sr_used st" "peek_bytes off sz (sr_buf st) = peek_bytes a sz m"
      using assms that by (auto simp: acc snaps_of_def)
    then show ?thesis by (simp add: peek_poke_other)
  qed
  have new: "peek_bytes (sr_used st) ?sz ?buf = peek_bytes (fst e) ?sz m" by (simp add: peek_poke_same)
  show ?thesis
    using assms old new by (auto simp: acc save_entry_def Let_def snaps_of_def)
qed

lemma save_loop_snaps:
  "snaps_of m (snd acc) \<Longrightarrow> snaps_of m (snd (fold (save_entry m) es acc))"
  by (induction es arbitrary: acc) (simp_all add: save_entry_snaps)

text \<open>The registry after a save: the entries whose vtable is still one of the table's.\<close>

definition still_sound :: "sound_res \<Rightarrow> gmem \<Rightarrow> (nat \<times> nat) list \<Rightarrow> (nat \<times> nat) list" where
  "still_sound st m es =
     map (\<lambda>e. (fst e, size_for_vt st (rd64 m (fst e))))
       (filter (\<lambda>e. canon (fst e) \<and> size_for_vt st (rd64 m (fst e)) \<noteq> 0) es)"

lemma size_for_vt_cong:
  "sr_vt st' = sr_vt st \<Longrightarrow> sr_lo st' = sr_lo st \<Longrightarrow> sr_hi st' = sr_hi st \<Longrightarrow> size_for_vt st' = size_for_vt st"
  by (simp add: size_for_vt_def fun_eq_iff)

abbreviation snap_ids :: "sound_res \<Rightarrow> (nat \<times> nat) list" where
  "snap_ids st \<equiv> map (\<lambda>(a, sz, off). (a, sz)) (sr_snaps st)"

lemma save_loop_reg:
  assumes "fold (save_entry m) es (live, st) = (live', st')"
  shows "live' = live @ still_sound st m es \<and> sr_buf_ok st' = sr_buf_ok st
    \<and> (sr_used st + sum_list (map snd (still_sound st m es)) \<le> SNAP_CAP
        \<longrightarrow> snap_ids st' = snap_ids st @ still_sound st m es)"
  using assms
proof (induction es arbitrary: live st)
  case Nil
  then show ?case by (simp add: still_sound_def)
next
  case (Cons e es)
  obtain live1 st1 where step: "save_entry m e (live, st) = (live1, st1)" by fastforce
  let ?sz = "size_for_vt st (rd64 m (fst e))"
  have same: "size_for_vt st1 = size_for_vt st" "sr_buf_ok st1 = sr_buf_ok st"
    using step by (auto simp: save_entry_def Let_def split: if_splits intro: size_for_vt_cong)
  then have tail: "still_sound st1 m es = still_sound st m es" by (simp add: still_sound_def)
  have head: "still_sound st m (e # es) = (if canon (fst e) \<and> ?sz \<noteq> 0 then [(fst e, ?sz)] else []) @ still_sound st m es"
    by (simp add: still_sound_def)
  have l1: "live1 = live @ (if canon (fst e) \<and> ?sz \<noteq> 0 then [(fst e, ?sz)] else [])"
    using step by (auto simp: save_entry_def Let_def split: if_splits)
  have "fold (save_entry m) es (live1, st1) = (live', st')" using Cons.prems by (simp add: step)
  note IH = Cons.IH [OF this]
  have "snap_ids st' = snap_ids st @ still_sound st m (e # es)"
    if fits: "sr_used st + sum_list (map snd (still_sound st m (e # es))) \<le> SNAP_CAP"
  proof (cases "canon (fst e) \<and> ?sz \<noteq> 0")
    case True
    then have fit: "sr_used st + ?sz \<le> SNAP_CAP" using fits by (simp add: head)
    with True step have st1: "sr_snaps st1 = sr_snaps st @ [(fst e, ?sz, sr_used st)]" "sr_used st1 = sr_used st + ?sz"
      by (auto simp: save_entry_def Let_def)
    have "sr_used st1 + sum_list (map snd (still_sound st1 m es)) \<le> SNAP_CAP"
      using fits True by (simp add: head tail st1)
    with IH True show ?thesis by (simp add: head tail st1)
  next
    case False
    then have "st1 = st" using step by (auto simp: save_entry_def Let_def split: if_splits)
    with IH fits False show ?thesis by (simp add: head)
  qed
  then show ?case using IH same by (simp add: l1 tail head)
qed

lemma restore_loop:
  assumes "\<forall>(a, sz, off) \<in> set es. peek_bytes off sz (sr_buf st) = peek_bytes a sz m"
  shows "fold (restore_entry st) es m' x = (if \<exists>(a, sz, off) \<in> set es. in_range a sz x then m x else m' x)"
  using assms
proof (induction es arbitrary: m')
  case (Cons e es)
  obtain a sz off where e: "e = (a, sz, off)" by (cases e) auto
  have src: "peek_bytes off sz (sr_buf st) = peek_bytes a sz m" using Cons.prems by (simp add: e)
  have one: "restore_entry st e m' y = (if in_range a sz y then m y else m' y)" for y
  proof (cases "peek_bytes a sz m' = peek_bytes a sz m")
    case True
    then have "\<forall>i < sz. m' (a + i) = m (a + i)" by (simp add: peek_eq_iff)
    from spec [OF this, of "y - a"] have "m' y = m y" if "in_range a sz y"
      using that by (auto simp: in_range_def)
    with True show ?thesis by (auto simp: restore_entry_def e src)
  next
    case False
    then show ?thesis by (auto simp: restore_entry_def e src poke_bytes_def in_range_def)
  qed
  show ?case using Cons by (auto simp: e one [unfolded e])
qed simp

text \<open>Sound resources survive a load: whatever the revert does to memory in between, restoring
  after a save puts back, byte for byte, every snapshotted object, and touches nothing else, so
  skipping the unchanged objects is the same as writing them all. The snapshot holds every
  registered object whose vtable is still a sound resource's, as long as they fit the buffer.\<close>

theorem sound_survives_load:
  assumes "sr_buf_ok st" "\<not> sr_comprehensive st"
    "sum_list (map snd (still_sound st m (sr_reg st))) \<le> SNAP_CAP"
  shows "sr_reg (sound_save True base ar m st) = still_sound st m (sr_reg st)
    \<and> sound_restore True (sound_save True base ar m st) m' x =
        (if list_ex (\<lambda>(a, sz). in_range a sz x) (still_sound st m (sr_reg st)) then m x else m' x)"
proof -
  let ?st0 = "st\<lparr>sr_snaps := [], sr_used := 0\<rparr>"
  obtain live st' where f: "fold (save_entry m) (sr_reg st) ([], ?st0) = (live, st')" by fastforce
  have ss: "still_sound ?st0 m es = still_sound st m es" for es
    by (simp add: still_sound_def size_for_vt_def)
  have sv: "sound_save True base ar m st = st'\<lparr>sr_reg := live\<rparr>"
    using assms(1,2) f by (simp add: sound_save_def)
  have reg: "live = still_sound st m (sr_reg st)" using save_loop_reg [OF f] by (simp add: ss)
  have snaps: "map (\<lambda>(a, sz, off). (a, sz)) (sr_snaps st') = still_sound st m (sr_reg st)"
    using save_loop_reg [OF f] assms(3) by (simp add: ss)
  have ok: "sr_buf_ok st'" using save_loop_reg [OF f] assms(1) by simp
  have "snaps_of m (snd ([] :: (nat \<times> nat) list, ?st0))" by (simp add: snaps_of_def)
  from save_loop_snaps [OF this, of "sr_reg st"] have "snaps_of m st'" by (simp add: f)
  then have src: "\<forall>(a, sz, off) \<in> set (sr_snaps st'). peek_bytes off sz (sr_buf st') = peek_bytes a sz m"
    by (auto simp: snaps_of_def)
  have "list_ex (\<lambda>(a, sz). in_range a sz x) (still_sound st m (sr_reg st))
      \<longleftrightarrow> (\<exists>(a, sz, off) \<in> set (sr_snaps st'). in_range a sz x)"
    unfolding snaps [symmetric] by (force simp: list_ex_iff split_def)
  moreover have "restore_entry (st'\<lparr>sr_reg := live\<rparr>) = restore_entry st'"
    by (simp add: restore_entry_def fun_eq_iff)
  ultimately show ?thesis
    using restore_loop [OF src, of m' x] reg ok by (simp add: sv sound_restore_def)
qed

definition demo_sound :: sound_res where
  "demo_sound = (sound_init 0x140000000 True)\<lparr>sr_reg := [(0x20000, 0x10)]\<rparr>"

definition demo_mem :: gmem where "demo_mem = wr64 0x20000 0x140bb41b8 (\<lambda>_. 7)"

theorem sound_survives_load_witness:
  "\<forall>ar. sr_reg (sound_save True 0x140000000 ar demo_mem demo_sound) = [(0x20000, 0x10)]
   \<and> sound_restore True (sound_save True 0x140000000 ar demo_mem demo_sound) (\<lambda>_. 0) 0x20008 = 7
   \<and> sound_restore True (sound_save True 0x140000000 ar demo_mem demo_sound) (\<lambda>_. 0) 0x20010 = 0"
proof -
  have "rd64 demo_mem 0x20000 = 0x140bb41b8" by (simp add: demo_mem_def c64.rd_wr)
  moreover have "size_for_vt demo_sound 0x140bb41b8 = 0x10"
    by (simp add: demo_sound_def sound_init_def size_for_vt_def SOUND_RES_VTABLES_def resolve_def IMAGE_BASE_def Let_def)
  moreover have "sr_reg demo_sound = [(0x20000, 0x10)]" "sr_buf_ok demo_sound" "\<not> sr_comprehensive demo_sound"
    by (simp_all add: demo_sound_def sound_init_def Let_def)
  ultimately have s: "still_sound demo_sound demo_mem (sr_reg demo_sound) = [(0x20000, 0x10)]"
    by (simp add: still_sound_def canon_def)
  have b: "sr_buf_ok demo_sound" "\<not> sr_comprehensive demo_sound"
    by (simp_all add: demo_sound_def sound_init_def Let_def)
  have d: "demo_mem 0x20008 = 7" by (simp add: demo_mem_def c64.wr_outside)
  show ?thesis
  proof
    fix ar
    show "sr_reg (sound_save True 0x140000000 ar demo_mem demo_sound) = [(0x20000, 0x10)]
      \<and> sound_restore True (sound_save True 0x140000000 ar demo_mem demo_sound) (\<lambda>_. 0) 0x20008 = 7
      \<and> sound_restore True (sound_save True 0x140000000 ar demo_mem demo_sound) (\<lambda>_. 0) 0x20010 = 0"
      using sound_survives_load [OF b, of demo_mem "0x140000000" ar "\<lambda>_. 0" "0x20008"]
        sound_survives_load [OF b, of demo_mem "0x140000000" ar "\<lambda>_. 0" "0x20010"] d
      by (simp add: s SNAP_CAP_def in_range_def)
  qed
qed

end
