(* ===== verification/Quarantine.thy ===== *)
theory Quarantine
  imports Idspine Sound_Resource
begin

text \<open>
  The reuse quarantine of \<open>src/src/quarantine.cpp\<close>: frees inside the rollback window are held in a
  table instead of reaching the allocator, the table is saved per frame and restored on rollback,
  and entries past the horizon are really freed. The engine's free function, the in-use bit it
  clears and the identity stamps are arguments; the counters that are only logged are left out.
\<close>

definition GRACE :: int where "GRACE = 32"
definition QCAP :: nat where "QCAP = 2 ^ 18"
definition QU_RING :: nat where "QU_RING = 10"
definition QU_MAX :: nat where "QU_MAX = 16384"
definition HUSK_CAP :: nat where "HUSK_CAP = 2 ^ 17"
definition FRING :: nat where "FRING = 2 ^ 13"
definition DH_CAP :: nat where "DH_CAP = 2 ^ 18"

record qent =
  qe_control :: nat
  qe_user :: nat
  qe_block :: nat
  qe_frame :: int
  qe_deferred :: bool
  qe_serial :: int

record quar =
  qu_mode :: int
  qu_scope :: nat
  qu_defer_all :: bool
  qu_defer_zerovt :: bool
  qu_audio :: bool
  qu_cs :: bool
  qu_free :: bool
  qu_ents :: "qent list"
  qu_husk :: "nat carray"
  qu_fr_block :: "nat carray"
  qu_fr_frame :: "int carray"
  qu_stale :: nat
  qu_ring_ents :: "qent list carray"
  qu_ring_frame :: "int carray"
  qu_ring_ok :: "bool carray"
  qu_depth :: int
  qu_newest :: int
  qu_dh_addr :: "nat carray"
  qu_dh_death :: "int carray"
  qu_dh_added :: nat
  qu_tick :: nat

definition quar_init :: quar where
  "quar_init = \<lparr>qu_mode = 2, qu_scope = 0, qu_defer_all = True, qu_defer_zerovt = False, qu_audio = False,
     qu_cs = True, qu_free = True, qu_ents = [], qu_husk = (\<lambda>_. 0), qu_fr_block = (\<lambda>_. 0),
     qu_fr_frame = (\<lambda>_. 0), qu_stale = 0, qu_ring_ents = (\<lambda>_. []), qu_ring_frame = (\<lambda>_. -1),
     qu_ring_ok = (\<lambda>_. False), qu_depth = 0, qu_newest = 0, qu_dh_addr = (\<lambda>_. 0),
     qu_dh_death = (\<lambda>_. 0), qu_dh_added = 0, qu_tick = 0\<rparr>"

text \<open>\<open>(uint32_t)((u >> 4) * 2654435761u) & (cap - 1)\<close>.\<close>

definition addr_hash :: "nat \<Rightarrow> nat \<Rightarrow> nat" where
  "addr_hash cap u = unat (ucast (drop_bit 4 (of_nat u :: u64) * 2654435761) :: u32) mod cap"

section \<open>Husk set\<close>

definition husk_seq :: "nat \<Rightarrow> nat list" where
  "husk_seq u = probe_seq HUSK_CAP 16 (addr_hash HUSK_CAP u)"

definition husk_add :: "nat \<Rightarrow> nat carray \<Rightarrow> nat carray" where
  "husk_add u t =
     (if u = 0 then t
      else case probe_find t u (husk_seq u) of
        None \<Rightarrow> t
      | Some k \<Rightarrow> if t k = u then t else t(k := u))"

definition husk_del :: "nat \<Rightarrow> nat carray \<Rightarrow> nat carray" where
  "husk_del u t =
     (if u = 0 then t
      else case probe_find t u (husk_seq u) of
        None \<Rightarrow> t
      | Some k \<Rightarrow> if t k = u then t(k := TOMB) else t)"

definition husk_rebuild :: "qent list \<Rightarrow> nat carray" where
  "husk_rebuild es = fold (\<lambda>e t. if qe_deferred e then husk_add (qe_user e) t else t) es (\<lambda>_. 0)"

section \<open>Last real frees\<close>

definition fr_seq :: "nat \<Rightarrow> nat list" where
  "fr_seq b = probe_seq FRING 8 (addr_hash FRING b)"

definition fr_note :: "nat \<Rightarrow> int \<Rightarrow> quar \<Rightarrow> quar" where
  "fr_note b frame st =
     (let k = (case probe_find (qu_fr_block st) b (fr_seq b) of Some k \<Rightarrow> k | None \<Rightarrow> addr_hash FRING b)
      in st\<lparr>qu_fr_block := (qu_fr_block st)(k := b), qu_fr_frame := (qu_fr_frame st)(k := frame)\<rparr>)"

definition fr_stale :: "nat \<Rightarrow> int \<Rightarrow> quar \<Rightarrow> bool" where
  "fr_stale b frame st =
     (case probe_find (qu_fr_block st) b (fr_seq b) of
        None \<Rightarrow> False
      | Some k \<Rightarrow> qu_fr_block st k = b \<and> frame < qu_fr_frame st k)"

section \<open>Holding a free\<close>

text \<open>A module vtable at the base of the object.\<close>

definition is_typed_at :: "nat \<Rightarrow> arena \<Rightarrow> gmem \<Rightarrow> nat \<Rightarrow> bool" where
  "is_typed_at base ar m a =
     (if a < 0x10000 \<or> \<not> is_committed_addr ar a then False
      else let vt = rd64 m a in
        if vt < base then False
        else let ida = (vt - base + IMAGE_BASE) mod 2 ^ 64
             in IMAGE_BASE \<le> ida \<and> ida < 0x141000000)"

definition AUDIO_VTABLES :: "nat list" where
  "AUDIO_VTABLES = [0x140bad660, 0x140bad7d0, 0x140bad4b0, 0x140bc4100, 0x140bc40f0, 0x140A6A510]"

definition is_audio_vtable :: "nat \<Rightarrow> sound_res \<Rightarrow> nat \<Rightarrow> bool" where
  "is_audio_vtable base sr vt \<longleftrightarrow> is_sound_vtable sr vt \<or> vt \<in> set (map (resolve base) AUDIO_VTABLES)"

text \<open>The free is of a kind the quarantine holds.\<close>

definition wanted :: "nat \<Rightarrow> arena \<Rightarrow> gmem \<Rightarrow> sound_res \<Rightarrow> nat \<Rightarrow> quar \<Rightarrow> bool" where
  "wanted base ar m sr user st =
     (if \<not> is_typed_at base ar m user
      then let uv = (if 0x10000 < user \<and> user < 2 ^ 63 \<and> is_committed_addr ar user then rd64 m user else 1)
           in qu_defer_all st \<or> (qu_defer_zerovt st \<and> uv = 0)
      else \<not> (qu_audio st \<and> is_audio_vtable base sr (rd64 m user)))"

definition on_free ::
  "bool \<Rightarrow> nat \<Rightarrow> arena \<Rightarrow> gmem \<Rightarrow> sound_res \<Rightarrow> (nat \<Rightarrow> int) \<Rightarrow> nat \<Rightarrow> nat \<Rightarrow> nat \<Rightarrow> int \<Rightarrow> quar \<Rightarrow> quar \<times> bool" where
  "on_free engine_on base ar m sr stamp control user block frame st =
     (if qu_mode st = 0 \<or> \<not> qu_cs st then (st, False)
      else if \<not> engine_on then (st, False)
      else if qu_scope st \<noteq> 0 \<and> control \<noteq> qu_scope st then (st, False)
      else if \<not> wanted base ar m sr user st then (st, False)
      else let defer = (qu_mode st = 2);
               e = \<lparr>qe_control = control, qe_user = user, qe_block = block, qe_frame = frame,
                    qe_deferred = defer, qe_serial = stamp block\<rparr>
           in (if length (qu_ents st) < QCAP
               then st\<lparr>qu_ents := qu_ents st @ [e],
                       qu_husk := (if defer then husk_add user (qu_husk st) else qu_husk st)\<rparr>
               else st, defer))"

section \<open>Flush\<close>

definition horizon :: "quar \<Rightarrow> int" where
  "horizon st = (if GRACE < qu_depth st + 8 then qu_depth st + 8 else GRACE)"

text \<open>The sweep of the table: what is due leaves it, and leaves the husk set.\<close>

definition sweep_entry :: "(qent \<Rightarrow> bool) \<Rightarrow> qent \<Rightarrow> qent list \<times> qent list \<times> nat carray \<Rightarrow> qent list \<times> qent list \<times> nat carray" where
  "sweep_entry due e acc =
     (let (keep, buf, husk) = acc in
      if due e then
        (if qe_deferred e \<and> length buf < QCAP then (keep, buf @ [e], husk_del (qe_user e) husk)
         else (keep, buf, husk))
      else (keep @ [e], buf, husk))"

text \<open>
  One real free: skipped when the block carries another serial, or is already free. \<open>in_use m b\<close>
  is the in-use bit at \<open>b + 0x38\<close>, which can only be read where memory is committed.
\<close>

definition flush_one ::
  "arena \<Rightarrow> (nat \<Rightarrow> int) \<Rightarrow> (nat \<Rightarrow> nat \<Rightarrow> gmem \<Rightarrow> gmem) \<Rightarrow> (qent \<Rightarrow> int) \<Rightarrow> qent \<Rightarrow> quar \<times> gmem \<times> qent list
     \<Rightarrow> quar \<times> gmem \<times> qent list" where
  "flush_one ar stamp g_free note_frame e acc =
     (let (st, m, freed) = acc in
      if stamp (qe_block e) \<noteq> qe_serial e then acc
      else if is_committed_addr ar (qe_block e + 0x38) \<and> rd32 m (qe_block e + 0x38) mod 2 = 0 then acc
      else (fr_note (qe_block e) (note_frame e)
              (if fr_stale (qe_block e) (qe_frame e) st then st\<lparr>qu_stale := qu_stale st + 1\<rparr> else st),
            g_free (qe_control e) (qe_user e) m, freed @ [e]))"

definition quar_flush ::
  "arena \<Rightarrow> (nat \<Rightarrow> int) \<Rightarrow> (nat \<Rightarrow> nat \<Rightarrow> gmem \<Rightarrow> gmem) \<Rightarrow> int \<Rightarrow> bool \<Rightarrow> quar \<times> gmem \<Rightarrow> quar \<times> gmem \<times> qent list" where
  "quar_flush ar stamp g_free current safe sm =
     (let (st, m) = sm in
      if qu_mode st = 0 \<or> \<not> qu_cs st \<or> \<not> safe \<or> \<not> qu_free st then (st, m, [])
      else let (keep, buf, husk) =
                 fold (sweep_entry (\<lambda>e. horizon st < current - qe_frame e)) (qu_ents st) ([], [], qu_husk st)
           in fold (flush_one ar stamp g_free (\<lambda>e. current)) buf (st\<lparr>qu_ents := keep, qu_husk := husk\<rparr>, m, []))"

text \<open>Engine off: everything held is returned and the table is cleared.\<close>

definition quar_flush_all ::
  "arena \<Rightarrow> (nat \<Rightarrow> int) \<Rightarrow> (nat \<Rightarrow> nat \<Rightarrow> gmem \<Rightarrow> gmem) \<Rightarrow> quar \<times> gmem \<Rightarrow> quar \<times> gmem \<times> qent list" where
  "quar_flush_all ar stamp g_free sm =
     (let (st, m) = sm in
      if \<not> qu_cs st then (st, m, [])
      else let (keep, buf, husk) =
                 (if qu_free st then fold (sweep_entry (\<lambda>_. True)) (qu_ents st) ([], [], qu_husk st)
                  else ([], [], qu_husk st))
           in fold (flush_one ar stamp g_free qe_frame) buf (st\<lparr>qu_ents := [], qu_husk := husk\<rparr>, m, []))"

section \<open>Save, restore, reconcile\<close>

definition save_table :: "int \<Rightarrow> int \<Rightarrow> bool \<Rightarrow> quar \<Rightarrow> quar" where
  "save_table frame slot cs_held st =
     (if slot < 0 \<or> int QU_RING \<le> slot then st
      else let s = nat slot;
               st1 = st\<lparr>qu_ring_frame := (qu_ring_frame st)(s := frame), qu_ring_ok := (qu_ring_ok st)(s := False),
                        qu_ring_ents := (qu_ring_ents st)(s := [])\<rparr>
           in if \<not> cs_held \<or> \<not> qu_cs st then st1
              else if length (qu_ents st) \<le> QU_MAX
              then st1\<lparr>qu_ring_ents := (qu_ring_ents st1)(s := qu_ents st), qu_ring_ok := (qu_ring_ok st1)(s := True)\<rparr>
              else st1)"

definition restore_slot :: "int \<Rightarrow> quar \<Rightarrow> nat option" where
  "restore_slot target st = List.find (\<lambda>s. qu_ring_frame st s = target \<and> qu_ring_ok st s) [0..<QU_RING]"

definition restore_table :: "int \<Rightarrow> quar \<Rightarrow> quar \<times> bool" where
  "restore_table target st =
     (if \<not> qu_cs st then (st, False)
      else case restore_slot target st of
        None \<Rightarrow> (st, False)
      | Some s \<Rightarrow> (st\<lparr>qu_ents := qu_ring_ents st s, qu_husk := husk_rebuild (qu_ring_ents st s)\<rparr>, True))"

definition reconcile :: "int \<Rightarrow> quar \<Rightarrow> quar" where
  "reconcile target st =
     (if qu_mode st = 0 \<or> \<not> qu_cs st then st
      else let d = qu_newest st - target;
               depth = (if 0 < d \<and> d < 100000 \<and> qu_depth st < d then d else qu_depth st);
               keep = filter (\<lambda>e. qe_frame e \<le> target) (qu_ents st)
           in st\<lparr>qu_depth := depth, qu_ents := keep, qu_husk := husk_rebuild keep\<rparr>)"

section \<open>Default husks\<close>

definition dh_seq :: "nat \<Rightarrow> nat list" where
  "dh_seq a = probe_seq DH_CAP 16 (addr_hash DH_CAP a)"

definition note_default_husk :: "nat \<Rightarrow> int \<Rightarrow> quar \<Rightarrow> quar" where
  "note_default_husk a death st =
     (if a = 0 then st
      else case List.find (\<lambda>k. qu_dh_addr st k = a \<or> qu_dh_addr st k = 0 \<or> qu_dh_addr st k = TOMB) (dh_seq a) of
        None \<Rightarrow> st
      | Some k \<Rightarrow>
          (if qu_dh_addr st k = a then st\<lparr>qu_dh_death := (qu_dh_death st)(k := death)\<rparr>
           else st\<lparr>qu_dh_addr := (qu_dh_addr st)(k := a), qu_dh_death := (qu_dh_death st)(k := death),
                   qu_dh_added := qu_dh_added st + 1\<rparr>))"

definition drop_default_husk :: "nat \<Rightarrow> quar \<Rightarrow> quar" where
  "drop_default_husk a st =
     (if a = 0 then st
      else case probe_find (qu_dh_addr st) a (dh_seq a) of
        None \<Rightarrow> st
      | Some k \<Rightarrow> if qu_dh_addr st k = a then st\<lparr>qu_dh_addr := (qu_dh_addr st)(k := TOMB)\<rparr> else st)"

text \<open>A signed reading above zero.\<close>

definition positive64 :: "nat \<Rightarrow> bool" where "positive64 a \<longleftrightarrow> 0 < a \<and> a < 2 ^ 63"

definition bury_default_husks :: "(int \<Rightarrow> bool) \<Rightarrow> quar \<Rightarrow> quar" where
  "bury_default_husks old st =
     st\<lparr>qu_dh_addr := (\<lambda>k. if k < DH_CAP \<and> positive64 (qu_dh_addr st k) \<and> old (qu_dh_death st k)
                             then TOMB else qu_dh_addr st k)\<rparr>"

definition prune_default_husks :: "int \<Rightarrow> quar \<Rightarrow> quar" where
  "prune_default_husks target st =
     (if qu_dh_added st = 0 then st else bury_default_husks (\<lambda>d. target < d) st)"

definition is_default_husk :: "nat \<Rightarrow> quar \<Rightarrow> bool" where
  "is_default_husk a st \<longleftrightarrow> a \<noteq> 0 \<and> has_key dh_seq (qu_dh_addr st) a"

definition is_held_husk :: "nat \<Rightarrow> quar \<Rightarrow> bool" where
  "is_held_husk user st =
     (if user = 0 then False
      else if has_key husk_seq (qu_husk st) user then True else is_default_husk user st)"

definition quar_on_frame ::
  "arena \<Rightarrow> (nat \<Rightarrow> int) \<Rightarrow> (nat \<Rightarrow> nat \<Rightarrow> gmem \<Rightarrow> gmem) \<Rightarrow> int \<Rightarrow> bool \<Rightarrow> quar \<times> gmem \<Rightarrow> quar \<times> gmem \<times> qent list" where
  "quar_on_frame ar stamp g_free frame resim sm =
     (let (st, m) = sm;
          st1 = st\<lparr>qu_newest := max (qu_newest st) frame\<rparr>;
          (st2, m2, freed) = quar_flush ar stamp g_free frame (\<not> resim) (st1, m);
          st3 = (if qu_tick st2 mod 300 = 0 \<and> \<not> resim then bury_default_husks (\<lambda>d. d < frame - 300) st2 else st2)
      in (st3\<lparr>qu_tick := qu_tick st3 + 1\<rparr>, m2, freed))"

end
