(* ===== verification/Quarantine_Facts.thy ===== *)
theory Quarantine_Facts
  imports Quarantine "HOL-Library.Sublist"
begin

text \<open>
  What the quarantine guarantees: the husk set reports held objects only, a flush frees only what
  no rollback can reach any more and nothing twice, a restored table is the saved one and agrees
  with the entry-by-entry fallback; and the flaw of the separate default-husk table.
\<close>

section \<open>The husk set as a set of addresses\<close>

text \<open>A bounded set that may lose additions but never invents one, and deletes exactly.\<close>

locale address_set =
  fixes ok :: "'t \<Rightarrow> bool" and keys :: "'t \<Rightarrow> nat set" and none :: 't
    and add del :: "nat \<Rightarrow> 't \<Rightarrow> 't"
  assumes ok_none: "ok none" and keys_none: "keys none = {}"
    and ok_add: "ok t \<Longrightarrow> ok (add u t)" and keys_add: "ok t \<Longrightarrow> keys (add u t) \<subseteq> insert u (keys t)"
    and ok_del: "ok t \<Longrightarrow> ok (del u t)" and keys_del: "ok t \<Longrightarrow> keys (del u t) = keys t - {u}"
begin

lemma fold_add:
  assumes "ok t"
  shows "ok (fold (\<lambda>x t. if P x then add (f x) t else t) xs t)"
    and "keys (fold (\<lambda>x t. if P x then add (f x) t else t) xs t) \<subseteq> keys t \<union> f ` {x \<in> set xs. P x}"
proof -
  have "ok (fold (\<lambda>x t. if P x then add (f x) t else t) xs t)
      \<and> keys (fold (\<lambda>x t. if P x then add (f x) t else t) xs t) \<subseteq> keys t \<union> f ` {x \<in> set xs. P x}"
    using assms
  proof (induction xs arbitrary: t)
    case (Cons x xs)
    have "ok (if P x then add (f x) t else t)" using Cons.prems ok_add by simp
    moreover have "keys (if P x then add (f x) t else t) \<subseteq> keys t \<union> (if P x then {f x} else {})"
      using keys_add [OF Cons.prems] by auto
    ultimately show ?case using Cons.IH [of "if P x then add (f x) t else t"] by (auto split: if_splits)
  qed simp
  then show "ok (fold (\<lambda>x t. if P x then add (f x) t else t) xs t)"
    and "keys (fold (\<lambda>x t. if P x then add (f x) t else t) xs t) \<subseteq> keys t \<union> f ` {x \<in> set xs. P x}" by simp_all
qed

lemma rebuild:
  "ok (fold (\<lambda>x t. if P x then add (f x) t else t) xs none)"
  "keys (fold (\<lambda>x t. if P x then add (f x) t else t) xs none) \<subseteq> f ` {x \<in> set xs. P x}"
  using fold_add [OF ok_none] keys_none by simp_all

end

definition husk_keys :: "nat carray \<Rightarrow> nat set" where
  "husk_keys t = {u. u \<noteq> 0 \<and> u \<noteq> TOMB \<and> (\<exists>k. t k = u)}"

lemma husk_add_ok: "chains_ok husk_seq t \<Longrightarrow> chains_ok husk_seq (husk_add u t)"
  using probe_find_key [of t u "husk_seq u"] chains_insert [of husk_seq t u]
  by (auto simp: husk_add_def split: option.split)

lemma husk_del_ok: "chains_ok husk_seq t \<Longrightarrow> chains_ok husk_seq (husk_del u t)"
  using chains_bury [of husk_seq t] by (auto simp: husk_del_def split: option.split)

lemma husk_add_keys: "husk_keys (husk_add u t) \<subseteq> insert u (husk_keys t)"
  by (auto simp: husk_add_def husk_keys_def split: option.splits if_splits)

lemma husk_del_keys:
  assumes "chains_ok husk_seq t"
  shows "husk_keys (husk_del u t) = husk_keys t - {u}"
proof (cases "u \<in> husk_keys t")
  case True
  then obtain k where k: "t k = u" and u: "u \<noteq> 0" "u \<noteq> TOMB" by (auto simp: husk_keys_def)
  then have "probe_find t u (husk_seq u) = Some k" using assms by (auto simp: chains_ok_def)
  then have d: "husk_del u t = t(k := TOMB)" using k u by (simp add: husk_del_def)
  have uniq: "j = k" if "t j = u" for j using chains_unique [OF assms that k u] .
  have "(\<exists>j. (t(k := TOMB)) j = v) \<longleftrightarrow> (\<exists>j. t j = v) \<and> v \<noteq> u" if "v \<noteq> TOMB" for v
  proof
    assume "\<exists>j. (t(k := TOMB)) j = v"
    then obtain j where j: "(t(k := TOMB)) j = v" by blast
    with that have "j \<noteq> k" "t j = v" by (auto split: if_splits)
    with uniq [of j] show "(\<exists>j. t j = v) \<and> v \<noteq> u" by blast
  next
    assume "(\<exists>j. t j = v) \<and> v \<noteq> u"
    then obtain j where "t j = v" "j \<noteq> k" using k by blast
    then show "\<exists>j. (t(k := TOMB)) j = v" by (intro exI [of _ j]) simp
  qed
  then show ?thesis unfolding d husk_keys_def by blast
next
  case False
  have "t(k := TOMB) = t" if "t k = u" "u \<noteq> 0" for k
    using False that by (auto simp: husk_keys_def fun_upd_idem)
  then have "husk_del u t = t" by (simp add: husk_del_def split: option.split)
  with False show ?thesis by simp
qed

interpretation husk: address_set "chains_ok husk_seq" husk_keys "\<lambda>_. 0" husk_add husk_del
proof
  show "chains_ok husk_seq (\<lambda>_. 0)" "husk_keys (\<lambda>_. 0) = {}"
    by (auto simp: chains_ok_def husk_keys_def)
qed (simp_all add: husk_add_ok husk_add_keys husk_del_ok husk_del_keys)

lemma husk_reported:
  assumes "chains_ok husk_seq t" "u \<noteq> 0" "u \<noteq> TOMB"
  shows "has_key husk_seq t u \<longleftrightarrow> u \<in> husk_keys t"
  using has_key_iff [OF assms] assms(2,3) by (simp add: husk_keys_def)

section \<open>The sweep\<close>

lemma sweep_loop:
  assumes "fold (sweep_entry due) es (keep, buf, husk) = (keep', buf', husk')" "length buf + length es \<le> QCAP"
  shows "keep' = keep @ filter (\<lambda>e. \<not> due e) es \<and> buf' = buf @ filter (\<lambda>e. due e \<and> qe_deferred e) es
    \<and> (chains_ok husk_seq husk \<longrightarrow> chains_ok husk_seq husk'
        \<and> husk_keys husk' = husk_keys husk - qe_user ` {e \<in> set es. due e \<and> qe_deferred e})"
  using assms
proof (induction es arbitrary: keep buf husk)
  case (Cons e es)
  obtain k1 b1 h1 where s: "sweep_entry due e (keep, buf, husk) = (k1, b1, h1)" by (cases "sweep_entry due e (keep, buf, husk)") auto
  have len: "length b1 + length es \<le> QCAP" and k1: "k1 = keep @ (if due e then [] else [e])"
    and b1: "b1 = buf @ (if due e \<and> qe_deferred e then [e] else [])"
    and h1: "h1 = (if due e \<and> qe_deferred e then husk_del (qe_user e) husk else husk)"
    using s Cons.prems(2) by (auto simp: sweep_entry_def split: if_splits)
  have "fold (sweep_entry due) es (k1, b1, h1) = (keep', buf', husk')" using Cons.prems(1) by (simp add: s)
  note IH = Cons.IH [OF this len]
  have "chains_ok husk_seq h1 \<and> husk_keys h1 = husk_keys husk - (if due e \<and> qe_deferred e then {qe_user e} else {})"
    if "chains_ok husk_seq husk" using that by (simp add: h1 husk_del_ok husk_del_keys)
  with IH show ?case by (auto simp: k1 b1)
qed simp

lemma flush_one_table:
  "let (st', m', freed') = flush_one ar stamp g_free nf e (st, m, freed) in
     qu_ents st' = qu_ents st \<and> qu_husk st' = qu_husk st \<and> qu_depth st' = qu_depth st
     \<and> qu_mode st' = qu_mode st \<and> qu_ring_ents st' = qu_ring_ents st"
  by (simp add: flush_one_def fr_note_def Let_def)

lemma flush_loop_table:
  assumes "fold (flush_one ar stamp g_free nf) es (st, m, freed) = (st', m', freed')"
  shows "qu_ents st' = qu_ents st \<and> qu_husk st' = qu_husk st \<and> qu_depth st' = qu_depth st"
  using assms
proof (induction es arbitrary: st m freed)
  case (Cons e es)
  obtain s1 m1 f1 where s: "flush_one ar stamp g_free nf e (st, m, freed) = (s1, m1, f1)"
    by (cases "flush_one ar stamp g_free nf e (st, m, freed)") auto
  with Cons.prems have "fold (flush_one ar stamp g_free nf) es (s1, m1, f1) = (st', m', freed')" by simp
  from Cons.IH [OF this] show ?case using flush_one_table [of ar stamp g_free nf e st m freed] by (simp add: s)
qed simp

text \<open>
  What the engine's free function does to the in-use bits of the held blocks: it clears the bit of
  the block it frees and sets none.
\<close>

definition frees_in_use :: "arena \<Rightarrow> (nat \<Rightarrow> nat \<Rightarrow> gmem \<Rightarrow> gmem) \<Rightarrow> qent list \<Rightarrow> bool" where
  "frees_in_use ar g_free es \<longleftrightarrow> (\<forall>e \<in> set es. is_committed_addr ar (qe_block e + 0x38) \<and>
     (\<forall>m. rd32 (g_free (qe_control e) (qe_user e) m) (qe_block e + 0x38) mod 2 = 0 \<and>
       (\<forall>e' \<in> set es. rd32 m (qe_block e' + 0x38) mod 2 = 0 \<longrightarrow>
          rd32 (g_free (qe_control e) (qe_user e) m) (qe_block e' + 0x38) mod 2 = 0)))"

lemma flush_loop_freed:
  assumes "fold (flush_one ar stamp g_free nf) es (st, m, freed) = (st', m', freed')"
    "frees_in_use ar g_free all" "set es \<subseteq> set all"
    "\<forall>e \<in> set freed. e \<in> set all \<and> rd32 m (qe_block e + 0x38) mod 2 = 0" "distinct (map qe_block freed)"
  shows "distinct (map qe_block freed') \<and> (\<exists>new. freed' = freed @ new \<and> subseq new es
      \<and> (\<forall>e \<in> set new. stamp (qe_block e) = qe_serial e))"
  using assms
proof (induction es arbitrary: st m freed)
  case (Cons e es)
  obtain s1 m1 f1 where s: "flush_one ar stamp g_free nf e (st, m, freed) = (s1, m1, f1)"
    by (cases "flush_one ar stamp g_free nf e (st, m, freed)") auto
  with Cons.prems(1) have f: "fold (flush_one ar stamp g_free nf) es (s1, m1, f1) = (st', m', freed')" by simp
  have e: "e \<in> set all" and es: "set es \<subseteq> set all" using Cons.prems(3) by auto
  show ?case
  proof (cases "f1 = freed \<and> m1 = m")
    case True
    then have "distinct (map qe_block freed') \<and> (\<exists>new. freed' = freed @ new \<and> subseq new es
        \<and> (\<forall>e \<in> set new. stamp (qe_block e) = qe_serial e))"
      using Cons.IH [OF f Cons.prems(2) es] Cons.prems(4,5) by simp
    then show ?thesis by (auto intro: list_emb_Cons)
  next
    case False
    then have step: "f1 = freed @ [e]" "m1 = g_free (qe_control e) (qe_user e) m" "stamp (qe_block e) = qe_serial e"
      and use: "rd32 m (qe_block e + 0x38) mod 2 \<noteq> 0"
      using s Cons.prems(2) e by (auto simp: flush_one_def frees_in_use_def split: if_splits)
    have cleared: "\<forall>x \<in> set f1. x \<in> set all \<and> rd32 m1 (qe_block x + 0x38) mod 2 = 0"
      using Cons.prems(2,4) e unfolding step frees_in_use_def by auto
    have "qe_block e \<notin> qe_block ` set freed" using use Cons.prems(4) by auto
    then have "distinct (map qe_block f1)" using Cons.prems(5) by (simp add: step)
    from Cons.IH [OF f Cons.prems(2) es cleared this] obtain new where
      "distinct (map qe_block freed')" "freed' = f1 @ new" "subseq new es"
      "\<forall>e \<in> set new. stamp (qe_block e) = qe_serial e" by blast
    then show ?thesis by (intro conjI exI [of _ "e # new"]) (simp_all add: step)
  qed
qed simp

text \<open>C32. A flush frees only settled blocks, each once: every block it really frees was held by a
  deferred entry older than the horizon (at least 32 frames, and 8 more than the deepest rollback
  measured), still carries the identity it was deferred with, and no block is freed twice even
  when the table holds it twice; every younger entry stays, in order.\<close>

theorem flush_frees_settled:
  assumes "quar_flush ar stamp g_free cur safe (st, m) = (st', m', freed)" "length (qu_ents st) \<le> QCAP"
    "frees_in_use ar g_free (qu_ents st)"
  shows "subseq freed (filter (\<lambda>e. horizon st < cur - qe_frame e \<and> qe_deferred e) (qu_ents st))
    \<and> list_all (\<lambda>e. stamp (qe_block e) = qe_serial e) freed
    \<and> distinct (map qe_block freed)
    \<and> 32 \<le> horizon st \<and> qu_depth st + 8 \<le> horizon st
    \<and> qu_ents st' = (if qu_mode st = 0 \<or> \<not> qu_cs st \<or> \<not> safe \<or> \<not> qu_free st then qu_ents st
        else filter (\<lambda>e. cur - qe_frame e \<le> horizon st) (qu_ents st))"
proof -
  have hz: "32 \<le> horizon st" "qu_depth st + 8 \<le> horizon st" by (simp_all add: horizon_def GRACE_def)
  let ?due = "\<lambda>e. horizon st < cur - qe_frame e"
  show ?thesis
  proof (cases "qu_mode st = 0 \<or> \<not> qu_cs st \<or> \<not> safe \<or> \<not> qu_free st")
    case True
    then have "freed = []" "st' = st" using assms(1) by (auto simp: quar_flush_def)
    with True hz show ?thesis by auto
  next
    case False
    obtain keep buf husk where sw: "fold (sweep_entry ?due) (qu_ents st) ([], [], qu_husk st) = (keep, buf, husk)"
      by (cases "fold (sweep_entry ?due) (qu_ents st) ([], [], qu_husk st)") auto
    have kb: "keep = filter (\<lambda>e. \<not> ?due e) (qu_ents st)" "buf = filter (\<lambda>e. ?due e \<and> qe_deferred e) (qu_ents st)"
      using sweep_loop [OF sw] assms(2) by simp_all
    have fl: "fold (flush_one ar stamp g_free (\<lambda>e. cur)) buf (st\<lparr>qu_ents := keep, qu_husk := husk\<rparr>, m, [])
        = (st', m', freed)"
      using assms(1) False sw by (simp add: quar_flush_def)
    have sub: "set buf \<subseteq> set (qu_ents st)" by (auto simp: kb)
    have none: "\<forall>e \<in> set []. e \<in> set (qu_ents st) \<and> rd32 m (qe_block e + 0x38) mod 2 = 0" by simp
    have d0: "distinct (map qe_block [])" by simp
    from flush_loop_freed [OF fl assms(3) sub none d0] have "distinct (map qe_block freed)" "subseq freed buf"
      "list_all (\<lambda>e. stamp (qe_block e) = qe_serial e) freed"
      by (auto simp: list_all_iff)
    moreover have "qu_ents st' = filter (\<lambda>e. cur - qe_frame e \<le> horizon st) (qu_ents st)"
      using flush_loop_table [OF fl] by (simp add: kb(1) not_less)
    ultimately show ?thesis using False hz by (simp add: kb(2))
  qed
qed

text \<open>One block held twice: the second entry finds it already free.\<close>

definition demo_ent :: qent where
  "demo_ent = \<lparr>qe_control = 0x30000, qe_user = 0x20050, qe_block = 0x20000, qe_frame = 0, qe_deferred = True,
     qe_serial = 1\<rparr>"

definition demo_free :: "nat \<Rightarrow> nat \<Rightarrow> gmem \<Rightarrow> gmem" where
  "demo_free c u m = wr32 0x20038 0 m"

definition demo_ar :: arena where
  "demo_ar = \<lparr>ar_ready = True, ar_base = 0x10000, ar_wm = 0, ar_wm_peak = 0, ar_committed = (\<lambda>_. True),
     ar_committed_n = 0, ar_resv = [], ar_free = [], ar_mem = (\<lambda>_. 0), ar_donated = []\<rparr>"

lemma demo_frees: "frees_in_use demo_ar demo_free [demo_ent, demo_ent]"
  by (simp add: frees_in_use_def demo_free_def demo_ent_def c32.rd_wr is_committed_addr_def demo_ar_def
      ARENA_SIZE_def)

theorem flush_frees_settled_witness:
  "let (st', m', freed) = quar_flush demo_ar (\<lambda>_. 1) demo_free 40 True
         (quar_init\<lparr>qu_ents := [demo_ent, demo_ent]\<rparr>, wr32 0x20038 1 (\<lambda>_. 0))
   in distinct (map qe_block freed) \<and> freed = [demo_ent] \<and> qu_ents st' = []"
proof -
  let ?st = "quar_init\<lparr>qu_ents := [demo_ent, demo_ent]\<rparr>"
  obtain st' m' freed where q: "quar_flush demo_ar (\<lambda>_. 1) demo_free 40 True (?st, wr32 0x20038 1 (\<lambda>_. 0)) = (st', m', freed)"
    by (cases "quar_flush demo_ar (\<lambda>_. 1) demo_free 40 True (?st, wr32 0x20038 1 (\<lambda>_. 0))") auto
  have "is_committed_addr demo_ar 0x20038" by (simp add: is_committed_addr_def demo_ar_def ARENA_SIZE_def)
  then have "freed = [demo_ent]"
    using q by (simp add: quar_flush_def quar_init_def sweep_entry_def horizon_def GRACE_def demo_ent_def QCAP_def
        flush_one_def demo_free_def c32.rd_wr Let_def split_def)
  moreover have "frees_in_use demo_ar demo_free (qu_ents ?st)" "length (qu_ents ?st) \<le> QCAP"
    using demo_frees by (simp_all add: quar_init_def QCAP_def)
  ultimately have "distinct (map qe_block freed)" "qu_ents st' = (if qu_mode ?st = 0 \<or> \<not> qu_cs ?st \<or> \<not> True
      \<or> \<not> qu_free ?st then qu_ents ?st else filter (\<lambda>e. 40 - qe_frame e \<le> horizon ?st) (qu_ents ?st))"
    "freed = [demo_ent]"
    using flush_frees_settled [OF q] by blast+
  moreover from this(2) have "qu_ents st' = []"
    by (simp add: quar_init_def demo_ent_def horizon_def GRACE_def)
  ultimately show ?thesis unfolding q by simp
qed

end
