(* ===== verification/Quarantine_Run.thy ===== *)
theory Quarantine_Run
  imports Quarantine_Facts
begin

text \<open>
  The quarantine over whole runs: its operations as a step relation, the saved tables that
  survive any number of steps, the husk set that never reports a live object, the agreement of
  the two ways to roll the table back, and the duplicate that the default-husk table can hold.
\<close>

inductive quar_step :: "(int \<Rightarrow> int \<Rightarrow> bool) \<Rightarrow> quar \<Rightarrow> quar \<Rightarrow> bool" for may :: "int \<Rightarrow> int \<Rightarrow> bool" where
  free: "quar_step may st (fst (on_free eng base ar m sr stamp c u b fr st))"
| frame: "quar_step may st (fst (quar_on_frame ar stamp g fr resim (st, m)))"
| drain: "quar_step may st (fst (quar_flush_all ar stamp g (st, m)))"
| rollback: "quar_step may st (reconcile t st)"
| restore: "quar_step may st (fst (restore_table t st))"
| save: "may fr slot \<Longrightarrow> quar_step may st (save_table fr slot held st)"
| husk_note: "quar_step may st (note_default_husk a d st)"
| husk_drop: "quar_step may st (drop_default_husk a st)"
| husk_prune: "quar_step may st (prune_default_husks t st)"

inductive_cases quar_stepE: "quar_step may st st'"

section \<open>What an operation leaves alone\<close>

definition qring :: "quar \<Rightarrow> qent list carray \<times> int carray \<times> bool carray \<times> bool \<times> bool" where
  "qring st = (qu_ring_ents st, qu_ring_frame st, qu_ring_ok st, qu_cs st, qu_free st)"

definition held :: "quar \<Rightarrow> qent list \<times> nat carray" where
  "held st = (qu_ents st, qu_husk st)"

lemma fr_note_keeps: "qring (fr_note b f st) = qring st" "held (fr_note b f st) = held st"
  by (simp_all add: fr_note_def qring_def held_def Let_def)

lemma flush_loop_keeps:
  "qring (fst (fold (flush_one ar stamp g nf) es (st, m, freed))) = qring st \<and>
   held (fst (fold (flush_one ar stamp g nf) es (st, m, freed))) = held st"
proof (induction es arbitrary: st m freed)
  case (Cons e es)
  obtain s1 m1 f1 where s: "flush_one ar stamp g nf e (st, m, freed) = (s1, m1, f1)"
    by (cases "flush_one ar stamp g nf e (st, m, freed)") auto
  then have "qring s1 = qring st \<and> held s1 = held st"
    by (auto simp: flush_one_def fr_note_keeps split: if_splits) (simp_all add: qring_def held_def)
  then show ?case using Cons.IH [of s1 m1 f1] by (simp add: s)
qed simp

lemma flush_keeps:
  "qring (fst (quar_flush ar stamp g cur safe (st, m))) = qring st"
  "qring (fst (quar_flush_all ar stamp g (st, m))) = qring st"
proof -
  have upd: "qring (st\<lparr>qu_ents := k, qu_husk := h\<rparr>) = qring st" for k h by (simp add: qring_def)
  show "qring (fst (quar_flush ar stamp g cur safe (st, m))) = qring st"
    "qring (fst (quar_flush_all ar stamp g (st, m))) = qring st"
    by (simp_all add: quar_flush_def quar_flush_all_def split_def Let_def flush_loop_keeps upd)
qed

lemma bury_keeps: "qring (bury_default_husks P st) = qring st" "held (bury_default_husks P st) = held st"
  by (simp_all add: bury_default_husks_def qring_def held_def)

lemma on_frame_keeps:
  "qring (fst (quar_on_frame ar stamp g fr resim (st, m))) = qring st"
  "held (fst (quar_on_frame ar stamp g fr resim (st, m)))
     = held (fst (quar_flush ar stamp g fr (\<not> resim) (st\<lparr>qu_newest := max (qu_newest st) fr\<rparr>, m)))"
proof -
  let ?s = "st\<lparr>qu_newest := max (qu_newest st) fr\<rparr>"
  obtain st2 m2 freed where f: "quar_flush ar stamp g fr (\<not> resim) (?s, m) = (st2, m2, freed)"
    by (cases "quar_flush ar stamp g fr (\<not> resim) (?s, m)") auto
  have tick: "qring (s\<lparr>qu_tick := t\<rparr>) = qring s" "held (s\<lparr>qu_tick := t\<rparr>) = held s" for s t
    by (simp_all add: qring_def held_def)
  have "qring st2 = qring ?s" using flush_keeps(1) [of ar stamp g fr "\<not> resim" ?s m] by (simp add: f)
  moreover have "qring ?s = qring st" by (simp add: qring_def)
  ultimately show "qring (fst (quar_on_frame ar stamp g fr resim (st, m))) = qring st"
    by (simp add: quar_on_frame_def f tick bury_keeps Let_def)
  show "held (fst (quar_on_frame ar stamp g fr resim (st, m))) = held (fst (quar_flush ar stamp g fr (\<not> resim) (?s, m)))"
    by (simp add: quar_on_frame_def f tick bury_keeps Let_def)
qed

lemma prune_keeps:
  "qring (prune_default_husks t st) = qring st" "held (prune_default_husks t st) = held st"
  by (simp_all add: prune_default_husks_def bury_keeps)

lemma table_ops_keep:
  "qring (fst (on_free eng base ar m sr stamp c u b fr st)) = qring st"
  "qring (reconcile t st) = qring st"
  "qring (fst (restore_table t st)) = qring st"
  "qring (note_default_husk a d st) = qring st"
  "qring (drop_default_husk a st) = qring st"
  by (simp_all add: on_free_def reconcile_def restore_table_def note_default_husk_def drop_default_husk_def
      qring_def Let_def split: option.split)

lemma dh_ops_keep:
  "held (note_default_husk a d st) = held st"
  "held (drop_default_husk a st) = held st"
  by (simp_all add: note_default_husk_def drop_default_husk_def held_def split: option.split)

lemma save_keeps: "held (save_table fr slot h st) = held st"
  by (simp add: save_table_def held_def Let_def)

section \<open>Saved tables\<close>

text \<open>Slot \<open>s\<close> holds the table \<open>es\<close> of frame \<open>f\<close>, and no slot searched before it is valid for \<open>f\<close>.\<close>

definition slot_holds :: "int \<Rightarrow> nat \<Rightarrow> qent list \<Rightarrow> quar \<Rightarrow> bool" where
  "slot_holds f s es st \<longleftrightarrow> s < QU_RING \<and> qu_cs st \<and> qu_ring_frame st s = f \<and> qu_ring_ok st s
     \<and> qu_ring_ents st s = es \<and> (\<forall>s' < s. \<not> (qu_ring_frame st s' = f \<and> qu_ring_ok st s'))"

lemma slot_holds_qring: "qring st' = qring st \<Longrightarrow> slot_holds f s es st' = slot_holds f s es st"
  by (simp add: slot_holds_def qring_def)

lemma save_other_slot:
  assumes "slot_holds f s es st" "fr \<noteq> f" "slot \<noteq> int s"
  shows "slot_holds f s es (save_table fr slot h st)"
proof (cases "slot < 0 \<or> int QU_RING \<le> slot")
  case True
  then show ?thesis using assms(1) by (auto simp: save_table_def)
next
  case False
  then have "s \<noteq> nat slot" using assms(3) by (cases "slot < 0") auto
  with assms show ?thesis by (auto simp: save_table_def slot_holds_def Let_def)
qed

lemma slot_holds_step:
  assumes "quar_step (\<lambda>fr slot. fr \<noteq> f \<and> slot \<noteq> int s) st st'" "slot_holds f s es st"
  shows "slot_holds f s es st'"
  using assms
proof cases
  case (save fr slot h)
  then show ?thesis using save_other_slot [OF assms(2), of fr slot h] by simp
qed (simp_all add: slot_holds_qring [OF table_ops_keep(1)] slot_holds_qring [OF table_ops_keep(2)]
    slot_holds_qring [OF table_ops_keep(3)] slot_holds_qring [OF table_ops_keep(4)]
    slot_holds_qring [OF table_ops_keep(5)] slot_holds_qring [OF prune_keeps(1)]
    slot_holds_qring [OF on_frame_keeps(1)] slot_holds_qring [OF flush_keeps(2)])

lemma slot_holds_run:
  assumes "(quar_step (\<lambda>fr slot. fr \<noteq> f \<and> slot \<noteq> int s))\<^sup>*\<^sup>* st st'" "slot_holds f s es st"
  shows "slot_holds f s es st'"
  using assms by (induction rule: rtranclp_induct) (auto intro: slot_holds_step)

lemma restore_from_slot:
  assumes "slot_holds f s es st"
  shows "restore_table f st = (st\<lparr>qu_ents := es, qu_husk := husk_rebuild es\<rparr>, True)"
proof -
  have "restore_slot f st = Some s"
    unfolding restore_slot_def find_Some_iff
    using assms by (intro exI [of _ s]) (auto simp: slot_holds_def)
  then show ?thesis using assms by (simp add: restore_table_def slot_holds_def)
qed

lemma save_fills_slot:
  assumes "s < QU_RING" "qu_cs st" "length (qu_ents st) \<le> QU_MAX"
    "\<forall>s' < s. \<not> (qu_ring_frame st s' = f \<and> qu_ring_ok st s')"
  shows "slot_holds f s (qu_ents st) (save_table f (int s) True st)"
  using assms by (auto simp: save_table_def slot_holds_def Let_def)

text \<open>C29. A rollback gets the saved table back while its slot stands. The table of frame \<open>f\<close>, of at most 16384
  entries, is saved under the lock into a slot of the ring of ten, no earlier slot holding the same frame.
  Whatever frees, frames, flushes, drains, rollbacks, and saves of other frames into other slots follow,
  restoring \<open>f\<close> replaces the table by exactly the saved entries, in order, and the husk set by the one of
  those entries. (A later save into the same slot, ten saves on, or of the same frame replaces the record;
  a save without the lock or of a longer table is marked unusable.)\<close>

theorem table_restored:
  assumes "s < QU_RING" "qu_cs st" "length (qu_ents st) \<le> QU_MAX"
    "\<forall>s' < s. \<not> (qu_ring_frame st s' = f \<and> qu_ring_ok st s')"
    "(quar_step (\<lambda>fr slot. fr \<noteq> f \<and> slot \<noteq> int s))\<^sup>*\<^sup>* (save_table f (int s) True st) st'"
  shows "restore_table f st' = (st'\<lparr>qu_ents := qu_ents st, qu_husk := husk_rebuild (qu_ents st)\<rparr>, True)"
  by (rule restore_from_slot [OF slot_holds_run [OF assms(5) save_fills_slot [OF assms(1-4)]]])

text \<open>Saved with one entry, drained, restored.\<close>

theorem table_restored_witness:
  "fst (restore_table 7 (fst (quar_flush_all demo_ar (\<lambda>_. 1) demo_free
      (save_table 7 2 True (quar_init\<lparr>qu_ents := [demo_ent]\<rparr>), \<lambda>_. 0))))
   = (fst (quar_flush_all demo_ar (\<lambda>_. 1) demo_free
      (save_table 7 2 True (quar_init\<lparr>qu_ents := [demo_ent]\<rparr>), \<lambda>_. 0)))
     \<lparr>qu_ents := [demo_ent], qu_husk := husk_rebuild [demo_ent]\<rparr>"
proof -
  let ?st = "quar_init\<lparr>qu_ents := [demo_ent]\<rparr>"
  let ?st' = "fst (quar_flush_all demo_ar (\<lambda>_. 1) demo_free (save_table 7 (int 2) True ?st, \<lambda>_. 0))"
  have run: "(quar_step (\<lambda>fr slot. fr \<noteq> 7 \<and> slot \<noteq> int 2))\<^sup>*\<^sup>* (save_table 7 (int 2) True ?st) ?st'"
    by (rule r_into_rtranclp) (rule quar_step.drain)
  have "(2::nat) < QU_RING" "qu_cs ?st" "length (qu_ents ?st) \<le> QU_MAX"
    "\<forall>s' < 2. \<not> (qu_ring_frame ?st s' = 7 \<and> qu_ring_ok ?st s')" "qu_ents ?st = [demo_ent]"
    by (simp_all add: QU_RING_def QU_MAX_def quar_init_def)
  from table_restored [OF this(1-4) run] this(5) show ?thesis by simp
qed

section \<open>The husk set never reports a live object\<close>

definition held_users :: "qent list \<Rightarrow> nat set" where
  "held_users es = qe_user ` {e \<in> set es. qe_deferred e}"

definition husks_sound :: "quar \<Rightarrow> bool" where
  "husks_sound st \<longleftrightarrow> chains_ok husk_seq (qu_husk st) \<and> husk_keys (qu_husk st) \<subseteq> held_users (qu_ents st)
     \<and> length (qu_ents st) \<le> QCAP \<and> (\<forall>s. length (qu_ring_ents st s) \<le> QCAP) \<and> qu_free st"

lemma husks_sound_held:
  "held st' = held st \<Longrightarrow> qring st' = qring st \<Longrightarrow> husks_sound st' = husks_sound st"
  by (simp add: husks_sound_def held_def qring_def)

lemma rebuild_sound:
  "chains_ok husk_seq (husk_rebuild es)" "husk_keys (husk_rebuild es) \<subseteq> held_users es"
  using husk.rebuild [of qe_deferred qe_user es] by (simp_all add: husk_rebuild_def held_users_def)

lemma replaced_sound:
  assumes "husks_sound st" "length es \<le> QCAP"
  shows "husks_sound (st\<lparr>qu_ents := es, qu_husk := husk_rebuild es\<rparr>)"
  using assms rebuild_sound [of es] by (simp add: husks_sound_def)

lemma depth_sound: "husks_sound (st\<lparr>qu_depth := d\<rparr>) = husks_sound st"
  "husks_sound (st\<lparr>qu_newest := d\<rparr>) = husks_sound st"
  by (simp_all add: husks_sound_def)

lemma held_users_snoc:
  "held_users (es @ [e]) = held_users es \<union> (if qe_deferred e then {qe_user e} else {})"
  by (auto simp: held_users_def)

lemma pushed_sound:
  assumes "husks_sound st" "length (qu_ents st) < QCAP" "qe_deferred e = d" "qe_user e = u"
  shows "husks_sound (st\<lparr>qu_ents := qu_ents st @ [e], qu_husk := (if d then husk_add u (qu_husk st) else qu_husk st)\<rparr>)"
proof -
  have "chains_ok husk_seq (qu_husk st)" using assms(1) by (simp add: husks_sound_def)
  note husk_add_ok [OF this, of u] husk.keys_add [OF this, of u]
  with assms show ?thesis by (cases d) (auto simp: husks_sound_def held_users_snoc)
qed

lemma on_free_sound:
  assumes "husks_sound st"
  shows "husks_sound (fst (on_free eng base ar m sr stamp c u b fr st))"
  using pushed_sound [OF assms, of _ "qu_mode st = 2" u] assms
  by (auto simp: on_free_def Let_def simp del: if_image_distrib)

lemma swept_sound:
  assumes "husks_sound st" "fold (sweep_entry due) (qu_ents st) ([], [], qu_husk st) = (keep, buf, husk)"
  shows "husks_sound (st\<lparr>qu_ents := keep, qu_husk := husk\<rparr>)"
proof -
  have "length (qu_ents st) \<le> QCAP" "chains_ok husk_seq (qu_husk st)" using assms(1) by (simp_all add: husks_sound_def)
  then have k: "keep = filter (\<lambda>e. \<not> due e) (qu_ents st)" "chains_ok husk_seq husk"
    "husk_keys husk = husk_keys (qu_husk st) - qe_user ` {e \<in> set (qu_ents st). due e \<and> qe_deferred e}"
    using sweep_loop [OF assms(2)] by simp_all
  have "length keep \<le> QCAP"
    unfolding k(1) by (rule le_trans [OF length_filter_le \<open>length (qu_ents st) \<le> QCAP\<close>])
  moreover have "husk_keys husk \<subseteq> held_users keep"
  proof
    fix x assume x: "x \<in> husk_keys husk"
    then have "x \<in> held_users (qu_ents st)" using assms(1) by (auto simp: husks_sound_def k(3))
    then obtain e where "e \<in> set (qu_ents st)" "qe_deferred e" "qe_user e = x" by (auto simp: held_users_def)
    with x show "x \<in> held_users keep" by (auto simp: held_users_def k(1,3))
  qed
  ultimately show ?thesis using assms(1) k(2) by (simp add: husks_sound_def)
qed

lemma loop_sound:
  "husks_sound (fst (fold (flush_one ar stamp g nf) es (st, m, freed))) = husks_sound st"
  using flush_loop_keeps [of ar stamp g nf es st m freed] by (intro husks_sound_held) simp_all

lemma flush_sound:
  assumes "husks_sound st"
  shows "husks_sound (fst (quar_flush ar stamp g cur safe (st, m)))"
proof -
  obtain keep buf husk where sw: "fold (sweep_entry (\<lambda>e. horizon st < cur - qe_frame e)) (qu_ents st) ([], [], qu_husk st)
      = (keep, buf, husk)"
    by (cases "fold (sweep_entry (\<lambda>e. horizon st < cur - qe_frame e)) (qu_ents st) ([], [], qu_husk st)") auto
  from swept_sound [OF assms this] assms sw show ?thesis by (simp add: quar_flush_def loop_sound)
qed

lemma drain_sound:
  assumes "husks_sound st"
  shows "husks_sound (fst (quar_flush_all ar stamp g (st, m)))"
proof (cases "qu_cs st")
  case True
  obtain keep buf husk where sw: "fold (sweep_entry (\<lambda>_. True)) (qu_ents st) ([], [], qu_husk st) = (keep, buf, husk)"
    by (cases "fold (sweep_entry (\<lambda>_. True)) (qu_ents st) ([], [], qu_husk st)") auto
  have "keep = []" using sweep_loop [OF sw] assms by (simp add: husks_sound_def)
  moreover have "qu_free st" using assms by (simp add: husks_sound_def)
  ultimately show ?thesis using swept_sound [OF assms sw] True sw by (simp add: quar_flush_all_def loop_sound)
next
  case False
  then show ?thesis using assms by (simp add: quar_flush_all_def)
qed
lemma sound_step:
  assumes "quar_step may st st'" "husks_sound st"
  shows "husks_sound st'"
  using assms(1)
proof cases
  case (free eng base ar m sr stamp c u b fr)
  then show ?thesis using on_free_sound [OF assms(2)] by simp
next
  case (frame ar stamp g fr resim m)
  let ?s = "st\<lparr>qu_newest := max (qu_newest st) fr\<rparr>"
  have "husks_sound (fst (quar_flush ar stamp g fr (\<not> resim) (?s, m)))"
    by (rule flush_sound) (simp add: depth_sound assms(2))
  moreover have "husks_sound st' = husks_sound (fst (quar_flush ar stamp g fr (\<not> resim) (?s, m)))"
    unfolding frame
    by (rule husks_sound_held) (simp_all add: on_frame_keeps flush_keeps, simp add: qring_def)
  ultimately show ?thesis by simp
next
  case (drain ar stamp g m)
  then show ?thesis using drain_sound [OF assms(2)] by simp
next
  case (rollback t)
  have "length (filter (\<lambda>e. qe_frame e \<le> t) (qu_ents st)) \<le> QCAP"
    using assms(2) by (intro le_trans [OF length_filter_le]) (simp add: husks_sound_def)
  from replaced_sound [OF _ this] show ?thesis
    using assms(2) unfolding rollback by (simp add: reconcile_def Let_def depth_sound)
next
  case (restore t)
  have "length (qu_ring_ents st s) \<le> QCAP" for s using assms(2) by (simp add: husks_sound_def)
  from replaced_sound [OF assms(2) this] show ?thesis
    using assms(2) unfolding restore by (simp add: restore_table_def split: option.split)
next
  case (save fr slot h)
  then show ?thesis using assms(2)
    by (auto simp: save_table_def husks_sound_def Let_def)
next
  case (husk_note a d)
  show ?thesis unfolding husk_note using husks_sound_held [OF dh_ops_keep(1) table_ops_keep(4)] assms(2) by blast
next
  case (husk_drop a)
  show ?thesis unfolding husk_drop using husks_sound_held [OF dh_ops_keep(2) table_ops_keep(5)] assms(2) by blast
next
  case (husk_prune t)
  show ?thesis unfolding husk_prune using husks_sound_held [OF prune_keeps(2) prune_keeps(1)] assms(2) by blast
qed

lemma sound_run:
  assumes "(quar_step may)\<^sup>*\<^sup>* quar_init st"
  shows "husks_sound st"
  using assms
proof (induction rule: rtranclp_induct)
  case base
  show ?case using husk.ok_none husk.keys_none by (simp add: husks_sound_def quar_init_def)
qed (rule sound_step)

text \<open>The husk query never calls a live object dead: after any sequence of frees, frames,
  flushes, drains, rollbacks, saves and restores, an address reported as a husk is the user
  address of an entry the table holds and defers at that moment, or stands in the separate
  default-husk table.\<close>

theorem husk_query_sound:
  assumes "(quar_step (\<lambda>_ _. True))\<^sup>*\<^sup>* quar_init st" "is_held_husk u st" "u < TOMB"
  shows "(\<exists>e. e \<in> set (qu_ents st) \<and> qe_deferred e \<and> qe_user e = u) \<or> is_default_husk u st"
proof (cases "has_key husk_seq (qu_husk st) u")
  case True
  have ok: "husks_sound st" using sound_run [OF assms(1)] .
  have "u \<noteq> 0" using assms(2) by (simp add: is_held_husk_def split: if_splits)
  with ok assms(3) True have "u \<in> husk_keys (qu_husk st)"
    using husk_reported [of "qu_husk st" u] by (simp add: husks_sound_def)
  then show ?thesis using ok by (auto simp: husks_sound_def held_users_def)
next
  case False
  then show ?thesis using assms(2) by (auto simp: is_held_husk_def split: if_splits)
qed

text \<open>One free held, then asked for.\<close>

definition one_held :: quar where
  "one_held = fst (on_free True 0 demo_ar (\<lambda>_. 0) (sound_init 0 True) (\<lambda>_. 1) 0x30000 0x20050 0x20000 5 quar_init)"

lemma one_held_ents: "map qe_user (qu_ents one_held) = [0x20050]" "is_held_husk 0x20050 one_held"
proof -
  have w: "wanted 0 demo_ar (\<lambda>_. 0) (sound_init 0 True) 0x20050 quar_init"
    by (simp add: wanted_def quar_init_def)
  show "map qe_user (qu_ents one_held) = [0x20050]" "is_held_husk 0x20050 one_held"
    using w by (simp_all add: one_held_def on_free_def quar_init_def Let_def QCAP_def is_held_husk_def has_key_def
        husk_add_def probe_find_def husk_seq_def probe_seq_def upt_rec)
qed

theorem husk_query_sound_witness:
  "is_held_husk 0x20050 one_held \<and> ((\<exists>e. e \<in> set (qu_ents one_held) \<and> qe_deferred e \<and> qe_user e = 0x20050)
     \<or> is_default_husk 0x20050 one_held)"
proof -
  have "(quar_step (\<lambda>_ _. True))\<^sup>*\<^sup>* quar_init one_held"
    unfolding one_held_def by (rule r_into_rtranclp) (rule quar_step.free)
  from husk_query_sound [OF this one_held_ents(2)] one_held_ents(2) show ?thesis by (simp add: TOMB_def)
qed
section \<open>The two ways back\<close>

text \<open>Only frees, stamped after frame \<open>f\<close>.\<close>

inductive frees_after :: "int \<Rightarrow> quar \<Rightarrow> quar \<Rightarrow> bool" for f :: int where
  stop: "frees_after f st st"
| more: "f < fr \<Longrightarrow> frees_after f st st' \<Longrightarrow> frees_after f st (fst (on_free eng base ar m sr stamp c u b fr st'))"

lemma on_free_appends:
  "\<exists>new. qu_ents (fst (on_free eng base ar m sr stamp c u b fr st)) = qu_ents st @ new \<and> (\<forall>e \<in> set new. qe_frame e = fr)"
  by (simp add: on_free_def Let_def)

lemma on_free_mode: "qu_mode (fst (on_free eng base ar m sr stamp c u b fr st)) = qu_mode st"
  by (simp add: on_free_def Let_def)

lemma frees_after_ents:
  assumes "frees_after f st st'"
  shows "(\<exists>new. qu_ents st' = qu_ents st @ new \<and> (\<forall>e \<in> set new. f < qe_frame e)) \<and> qu_mode st' = qu_mode st
    \<and> qring st' = qring st"
  using assms
proof induction
  case (stop st)
  then show ?case by simp
next
  case (more fr st st' eng base ar m sr stamp c u b)
  obtain new where n: "qu_ents st' = qu_ents st @ new" "\<forall>e \<in> set new. f < qe_frame e" using more.IH by blast
  obtain new' where n': "qu_ents (fst (on_free eng base ar m sr stamp c u b fr st')) = qu_ents st' @ new'"
    "\<forall>e \<in> set new'. qe_frame e = fr" using on_free_appends by blast
  have "\<exists>l. qu_ents (fst (on_free eng base ar m sr stamp c u b fr st')) = qu_ents st @ l \<and> (\<forall>e \<in> set l. f < qe_frame e)"
    using n n' more.hyps(1) by (intro exI [of _ "new @ new'"]) auto
  then show ?case using more.IH by (simp add: on_free_mode table_ops_keep(1))
qed

text \<open>Where both apply they agree: when nothing but frees of later frames happened since the
  table was saved, dropping the later entries one by one (the fallback) leaves exactly the entries
  and the husk set that restoring the saved table gives.\<close>

theorem reconcile_agrees:
  assumes "s < QU_RING" "qu_cs st" "length (qu_ents st) \<le> QU_MAX"
    "\<forall>s' < s. \<not> (qu_ring_frame st s' = f \<and> qu_ring_ok st s')"
    "qu_mode st \<noteq> 0" "\<forall>e \<in> set (qu_ents st). qe_frame e \<le> f" "frees_after f (save_table f (int s) True st) st'"
  shows "held (reconcile f st') = held (fst (restore_table f st'))"
proof -
  let ?st = "save_table f (int s) True st"
  obtain new where n: "qu_ents st' = qu_ents ?st @ new" "\<forall>e \<in> set new. f < qe_frame e"
    and keep: "qring st' = qring ?st" "qu_mode st' = qu_mode ?st" using frees_after_ents [OF assms(7)] by blast
  have "qu_ents ?st = qu_ents st" "qu_mode ?st = qu_mode st" "qu_cs ?st"
    using assms(2) by (simp_all add: save_table_def Let_def)
  moreover have "qu_cs st'" using keep(1) \<open>qu_cs ?st\<close> by (simp add: qring_def)
  moreover have "filter (\<lambda>e. qe_frame e \<le> f) (qu_ents st @ new) = qu_ents st"
    using assms(6) n(2) by (simp add: filter_True filter_empty_conv not_le)
  moreover have "slot_holds f s (qu_ents st) st'"
    using save_fills_slot [OF assms(1-4)] slot_holds_qring [OF keep(1)] by simp
  ultimately show ?thesis
    using restore_from_slot [of f s "qu_ents st" st'] assms(5) n(1) keep(2)
    by (simp add: reconcile_def held_def Let_def)
qed

text \<open>An empty table saved at frame 3, one free at frame 5, back to 3.\<close>

theorem reconcile_agrees_witness:
  "held (reconcile 3 (fst (on_free True 0 demo_ar (\<lambda>_. 0) (sound_init 0 True) (\<lambda>_. 1) 0x30000 0x20050 0x20000 5
      (save_table 3 0 True quar_init))))
   = held (fst (restore_table 3 (fst (on_free True 0 demo_ar (\<lambda>_. 0) (sound_init 0 True) (\<lambda>_. 1) 0x30000 0x20050 0x20000 5
      (save_table 3 0 True quar_init)))))"
proof -
  have run: "frees_after 3 (save_table 3 (int 0) True quar_init)
      (fst (on_free True 0 demo_ar (\<lambda>_. 0) (sound_init 0 True) (\<lambda>_. 1) 0x30000 0x20050 0x20000 5
        (save_table 3 (int 0) True quar_init)))"
    by (rule frees_after.more [OF _ frees_after.stop]) simp
  have "0 < QU_RING" "qu_cs quar_init" "length (qu_ents quar_init) \<le> QU_MAX"
    "\<forall>s' < 0. \<not> (qu_ring_frame quar_init s' = 3 \<and> qu_ring_ok quar_init s')" "qu_mode quar_init \<noteq> 0"
    "\<forall>e \<in> set (qu_ents quar_init). qe_frame e \<le> 3"
    by (simp_all add: QU_RING_def QU_MAX_def quar_init_def)
  from reconcile_agrees [OF this run] show ?thesis by simp
qed

section \<open>The default-husk table\<close>

lemma probe_two: "probe_seq cap (Suc (Suc n)) h = h mod cap # (h + 1) mod cap # map (\<lambda>i. (h + i) mod cap) [2..<Suc (Suc n)]"
  by (simp add: probe_seq_def upt_conv_Cons numeral_2_eq_2 del: upt_Suc)

lemma dh_probe: "\<exists>ks. dh_seq a = addr_hash DH_CAP a # Suc (addr_hash DH_CAP a) mod DH_CAP # ks"
  using probe_two [of DH_CAP 14 "addr_hash DH_CAP a"]
  by (simp add: dh_seq_def addr_hash_def)

text \<open>A revived address can stay reported dead: when two default-zone addresses share a hash,
  noting the second, dropping the first and noting the second again stores it a second time (the
  search stops at the first free slot, before it reaches the address), so dropping it on
  reallocation removes one copy and the query still calls the live object a husk.\<close>

theorem default_husk_sticks:
  assumes "qu_dh_addr st = (\<lambda>_. 0)" "addr_hash DH_CAP x = addr_hash DH_CAP y" "x \<noteq> y" "0 < x" "0 < y" "x < TOMB" "y < TOMB"
  shows "is_default_husk y (drop_default_husk y (note_default_husk y d3 (drop_default_husk x
     (note_default_husk y d2 (note_default_husk x d1 st)))))"
proof -
  let ?h = "addr_hash DH_CAP y" and ?h' = "Suc (addr_hash DH_CAP y) mod DH_CAP"
  obtain kx where kx: "dh_seq x = ?h # ?h' # kx" using dh_probe [of x] assms(2) by auto
  obtain ky where ky: "dh_seq y = ?h # ?h' # ky" using dh_probe [of y] by auto
  have ne: "?h' \<noteq> ?h" by (auto simp: addr_hash_def DH_CAP_def mod_Suc split: if_splits)
  define s1 where "s1 = note_default_husk x d1 st"
  have s1: "qu_dh_addr s1 = (\<lambda>_. 0)(?h := x)" using assms by (simp add: s1_def note_default_husk_def kx)
  define s2 where "s2 = note_default_husk y d2 s1"
  have s2: "qu_dh_addr s2 = (\<lambda>_. 0)(?h := x, ?h' := y)"
    using assms ne by (simp add: s2_def note_default_husk_def ky s1)
  define s3 where "s3 = drop_default_husk x s2"
  have s3: "qu_dh_addr s3 = (\<lambda>_. 0)(?h := TOMB, ?h' := y)"
    using assms ne by (simp add: s3_def drop_default_husk_def kx s2 probe_find_def fun_upd_twist [OF ne])
  define s4 where "s4 = note_default_husk y d3 s3"
  have s4: "qu_dh_addr s4 = (\<lambda>_. 0)(?h := y, ?h' := y)"
    using assms ne by (simp add: s4_def note_default_husk_def ky s3 fun_upd_twist [OF ne])
  define s5 where "s5 = drop_default_husk y s4"
  have s5: "qu_dh_addr s5 = (\<lambda>_. 0)(?h := TOMB, ?h' := y)"
    using assms ne by (simp add: s5_def drop_default_husk_def ky s4 probe_find_def fun_upd_twist [OF ne])
  have "is_default_husk y s5"
    using assms ne by (simp add: is_default_husk_def has_key_def probe_find_def ky s5 TOMB_def)
  then show ?thesis by (simp add: s5_def s4_def s3_def s2_def s1_def)
qed

theorem default_husk_sticks_witness:
  "is_default_husk 0x500000 (drop_default_husk 0x500000 (note_default_husk 0x500000 30 (drop_default_husk 0x100000
     (note_default_husk 0x500000 20 (note_default_husk 0x100000 10 quar_init)))))"
proof (rule default_husk_sticks)
  show "addr_hash DH_CAP 0x100000 = addr_hash DH_CAP 0x500000"
    by (simp add: addr_hash_def DH_CAP_def)
qed (simp_all add: quar_init_def TOMB_def)

end
