(* ===== verification/Free_Hook.thy ===== *)
theory Free_Hook
  imports Quarantine_Run
begin

text \<open>
  The two allocator hooks of \<open>src/src/idspine.cpp\<close>: what a carve records and what a free does
  before, or instead of, the engine's own free. The composition with the quarantine: which frees
  reach the engine, and when a held block is given back.
\<close>

section \<open>Recent frees\<close>

definition FR_RING :: nat where "FR_RING = 16384"

record free_rec =
  fr_node :: nat
  fr_caller :: nat
  fr_eff :: nat
  fr_at :: int

record free_ring =
  rg_tab :: "free_rec carray"
  rg_head :: nat

definition free_ring_init :: free_ring where
  "free_ring_init = \<lparr>rg_tab = (\<lambda>_. \<lparr>fr_node = 0, fr_caller = 0, fr_eff = 0, fr_at = 0\<rparr>), rg_head = 0\<rparr>"

definition image_ida :: "nat \<Rightarrow> nat \<Rightarrow> nat" where
  "image_ida base a = (if base \<noteq> 0 \<and> base < a then a - base + IMAGE_BASE else a)"

definition is_eff_ida :: "nat \<Rightarrow> bool" where
  "is_eff_ida a \<longleftrightarrow> 0x140800000 \<le> a \<and> a < 0x1408A0000"

text \<open>The return address and the stack words up to its top are arguments.\<close>

definition record_free :: "nat \<Rightarrow> nat \<Rightarrow> nat list \<Rightarrow> int \<Rightarrow> nat \<Rightarrow> free_ring \<Rightarrow> free_ring" where
  "record_free base ret0 stack now node rg =
     (let eff = (if base = 0 then None
                 else List.find is_eff_ida (map (\<lambda>v. v - base + IMAGE_BASE)
                        (filter (\<lambda>v. base < v \<and> v < base + 0x1000000) (take 64 stack))));
          r = \<lparr>fr_node = node, fr_caller = image_ida base ret0,
               fr_eff = (case eff of None \<Rightarrow> 0 | Some v \<Rightarrow> v), fr_at = now\<rparr>
      in \<lparr>rg_tab = (rg_tab rg)(rg_head rg mod FR_RING := r), rg_head = rg_head rg + 1\<rparr>)"

text \<open>Newest first; \<open>(unsigned long)(h - i)\<close> wraps at 32 bits, a multiple of the ring.\<close>

definition recent_free :: "nat \<Rightarrow> free_ring \<Rightarrow> (nat \<times> nat \<times> int) option" where
  "recent_free node rg =
     map_option (\<lambda>i. let r = rg_tab rg (nat ((int (rg_head rg) - int i) mod 2 ^ 32) mod FR_RING)
                     in (fr_caller r, fr_eff r, fr_at r))
       (List.find (\<lambda>i. fr_node (rg_tab rg (nat ((int (rg_head rg) - int i) mod 2 ^ 32) mod FR_RING)) = node)
          [1..<FR_RING + 1])"

section \<open>Double-insert detector\<close>

datatype listed = Listed | Cyclic | Unlisted

definition class_of :: "nat \<Rightarrow> nat" where "class_of flags = flags div 4 mod 32"

definition class_desc :: "nat \<Rightarrow> nat \<Rightarrow> nat" where
  "class_desc manager idx = manager + 0xD8 + (idx - 1) * 0xA8"

text \<open>The walk of a class's free list: \<open>n\<close> steps are left before it counts as cyclic.\<close>

fun list_walk :: "arena \<Rightarrow> gmem \<Rightarrow> nat \<Rightarrow> nat \<Rightarrow> nat \<Rightarrow> listed" where
  "list_walk ar m block n cur =
     (if \<not> (0x10000 < cur \<and> is_arena_addr ar cur \<and> is_committed_addr ar (cur + 0x20)) then Unlisted
      else if cur = block then Listed
      else case n of 0 \<Rightarrow> Cyclic | Suc n' \<Rightarrow> list_walk ar m block n' (rd64 m (cur + 0x20)))"

definition detect_double_insert :: "arena \<Rightarrow> gmem \<Rightarrow> nat \<Rightarrow> nat \<Rightarrow> listed option" where
  "detect_double_insert ar m manager block =
     (if \<not> is_committed_addr ar (block + 0x3c) \<or> \<not> is_committed_addr ar (block + 0x38) then None
      else let idx = class_of (rd32 m (block + 0x3c)) in
        if idx = 0 then None
        else let desc = class_desc manager idx in
          if \<not> is_arena_addr ar desc \<or> \<not> is_committed_addr ar (desc + 0x58) \<or> \<not> is_committed_addr ar (desc + 0x68)
          then None
          else case list_walk ar m block 2048 (rd64 m (desc + 0x58)) of Unlisted \<Rightarrow> None | v \<Rightarrow> Some v)"

section \<open>The hooks\<close>

record hook_env =
  he_engine :: bool
  he_resim :: bool
  he_frame :: int
  he_shadow :: bool
  he_gfg :: bool
  he_dealloc :: bool
  he_class0 :: bool
  he_link :: bool
  he_base :: nat
  he_sound :: sound_res

text \<open>\<open>spine_record_on\<close>; the carve, with the block the engine returned.\<close>

definition spine_record_on :: "hook_env \<Rightarrow> bool" where
  "spine_record_on en \<longleftrightarrow> he_shadow en \<or> he_engine en"

definition hk_carve :: "hook_env \<Rightarrow> arena \<Rightarrow> gmem \<Rightarrow> nat \<Rightarrow> spine \<Rightarrow> spine" where
  "hk_carve en ar m block sp =
     (if spine_record_on en \<and> 0x10000 < block \<and> is_arena_addr ar block
      then let bsize = (if is_committed_addr ar (block + 0x38) then rd32 m (block + 0x38) div 2 * 16 mod 2 ^ 32 else 0)
           in spine_put block bsize (he_frame en) sp
      else sp)"

datatype fate = Declined | DoubleFree | ClassZero | BrokenLinks | Held | Freed

text \<open>
  The global guard: a torn back offset or a class above 8 in the arena, a block the operating
  system no longer maps outside it (\<open>os_free\<close>: the query succeeded and says not committed).
\<close>

definition guard_declines :: "hook_env \<Rightarrow> arena \<Rightarrow> (nat \<Rightarrow> bool) \<Rightarrow> gmem \<Rightarrow> nat \<Rightarrow> nat \<Rightarrow> bool" where
  "guard_declines en ar os_free m p1 raw \<longleftrightarrow>
     he_gfg en \<and> 0x10000 < raw \<and> he_engine en \<and> is_committed_addr ar (p1 + 0x90) \<and> rd64 m (p1 + 0x90) \<noteq> 0 \<and>
     (if is_arena_addr ar raw
      then 8 \<le> raw mod 0x1000 \<and>
        (let adj = rd64 m (raw - 8)
         in if \<not> (0 < adj \<and> adj < 0x1000) then True else 8 < class_of (rd32 m (raw - adj + 0x3c)))
      else os_free raw)"

text \<open>\<open>prev\<close>, \<open>next\<close> and the physical neighbours of a block that is about to be freed in a replay.\<close>

definition links_corrupt :: "arena \<Rightarrow> gmem \<Rightarrow> nat \<Rightarrow> bool" where
  "links_corrupt ar m block =
     (let prv = rd64 m (block + 0x18); nxt = rd64 m (block + 0x20);
          pphys = rd64 m (block + 0x28); nphys = rd64 m (block + 0x30)
      in prv \<noteq> 0 \<and> \<not> is_committed_addr ar prv
       \<or> nxt \<noteq> 0 \<and> \<not> is_committed_addr ar nxt
       \<or> pphys \<noteq> 0 \<and> \<not> is_committed_addr ar pphys
       \<or> nphys \<noteq> 0 \<and> \<not> is_committed_addr ar nphys
       \<or> prv \<noteq> 0 \<and> is_committed_addr ar (prv + 0x20) \<and> rd64 m (prv + 0x20) \<noteq> block
       \<or> nxt \<noteq> 0 \<and> is_committed_addr ar (nxt + 0x18) \<and> rd64 m (nxt + 0x18) \<noteq> block)"

definition block_guard :: "hook_env \<Rightarrow> arena \<Rightarrow> gmem \<Rightarrow> nat \<Rightarrow> fate option" where
  "block_guard en ar m block =
     (if he_dealloc en \<and> he_engine en \<and> is_committed_addr ar (block + 0x38) \<and> rd32 m (block + 0x38) mod 2 = 0
      then Some DoubleFree
      else if he_class0 en \<and> he_engine en \<and> is_committed_addr ar (block + 0x3c) \<and> class_of (rd32 m (block + 0x3c)) = 0
      then Some ClassZero
      else if he_link en \<and> he_resim en \<and> is_committed_addr ar (block + 0x30) \<and> links_corrupt ar m block
      then Some BrokenLinks
      else None)"

text \<open>A user address the hook looks behind, and the block it finds there.\<close>

definition free_block :: "arena \<Rightarrow> gmem \<Rightarrow> nat \<Rightarrow> nat option" where
  "free_block ar m raw =
     (if 0x10000 < raw \<and> is_arena_addr ar raw \<and> 8 \<le> raw mod 0x1000
      then let adj = rd64 m (raw - 8)
           in if 0 < adj \<and> adj < 0x1000 \<and> is_arena_addr ar (raw - adj) then Some (raw - adj) else None
      else None)"

text \<open>The serial of an object, by the same look behind its address.\<close>

definition stamp_of_object :: "spine \<Rightarrow> arena \<Rightarrow> gmem \<Rightarrow> nat \<Rightarrow> int" where
  "stamp_of_object sp ar m obj =
     (if obj \<le> 0x10000 \<or> \<not> is_arena_addr ar obj \<or> obj mod 0x1000 < 8 then 0
      else let adj = rd64 m (obj - 8)
           in if \<not> (0 < adj \<and> adj < 0x1000) then 0 else stamp_of_block sp (obj - adj))"

definition hk_free ::
  "hook_env \<Rightarrow> arena \<Rightarrow> (nat \<Rightarrow> bool) \<Rightarrow> gmem \<Rightarrow> nat \<Rightarrow> nat \<Rightarrow> spine \<times> quar \<Rightarrow> (spine \<times> quar) \<times> fate" where
  "hk_free en ar os_free m p1 raw s =
     (let (sp, q) = s in
      if guard_declines en ar os_free m p1 raw then (s, Declined)
      else case free_block ar m raw of
        None \<Rightarrow> (s, Freed)
      | Some block \<Rightarrow>
          (let sp1 = (if spine_record_on en then spine_retire block (he_frame en) sp else sp)
           in case block_guard en ar m block of
                Some v \<Rightarrow> ((sp1, q), v)
              | None \<Rightarrow>
                  (let (q1, defer) = on_free (he_engine en) (he_base en) ar m (he_sound en) (stamp_of_block sp1)
                                       p1 raw block (he_frame en) q
                   in ((sp1, q1), if defer then Held else Freed))))"

section \<open>What reaches the engine\<close>

lemma class_of_less: "class_of f < 32"
  by (simp add: class_of_def)

text \<open>The guards on, the engine on, and the block's header and its neighbours' links readable.\<close>

definition guarded :: "hook_env \<Rightarrow> arena \<Rightarrow> gmem \<Rightarrow> nat \<Rightarrow> nat \<Rightarrow> bool" where
  "guarded en ar m p1 block \<longleftrightarrow> he_engine en \<and> he_gfg en \<and> he_dealloc en \<and> he_class0 en \<and> he_link en
     \<and> is_committed_addr ar (p1 + 0x90) \<and> rd64 m (p1 + 0x90) \<noteq> 0
     \<and> is_committed_addr ar (block + 0x30) \<and> is_committed_addr ar (block + 0x38) \<and> is_committed_addr ar (block + 0x3c)"

lemma hk_free_block:
  assumes "free_block ar m raw = Some b" "hk_free en ar os_free m p1 raw (sp, q) = ((sp', q'), v)"
  shows "guard_declines en ar os_free m p1 raw \<and> v = Declined \<and> sp' = sp \<and> q' = q
    \<or> \<not> guard_declines en ar os_free m p1 raw
      \<and> sp' = (if spine_record_on en then spine_retire b (he_frame en) sp else sp)
      \<and> (block_guard en ar m b = Some v \<and> q' = q
        \<or> block_guard en ar m b = None
          \<and> (\<exists>d. on_free (he_engine en) (he_base en) ar m (he_sound en) (stamp_of_block sp') p1 raw b (he_frame en) q = (q', d)
             \<and> v = (if d then Held else Freed)))"
proof (cases "guard_declines en ar os_free m p1 raw")
  case True
  then show ?thesis using assms(2) by (simp add: hk_free_def)
next
  case False
  let ?sp = "if spine_record_on en then spine_retire b (he_frame en) sp else sp"
  obtain q1 d where o: "on_free (he_engine en) (he_base en) ar m (he_sound en) (stamp_of_block ?sp) p1 raw b (he_frame en) q = (q1, d)"
    by (cases "on_free (he_engine en) (he_base en) ar m (he_sound en) (stamp_of_block ?sp) p1 raw b (he_frame en) q")
  show ?thesis
  proof (cases "block_guard en ar m b")
    case None
    have "hk_free en ar os_free m p1 raw (sp, q) = ((?sp, q1), if d then Held else Freed)"
      unfolding hk_free_def Let_def by (simp only: prod.case assms(1) False None option.case o if_False)
    with assms(2) have "sp' = ?sp" "q' = q1" "v = (if d then Held else Freed)" by simp_all
    with False None o show ?thesis by (intro disjI2 conjI) blast+
  next
    case (Some w)
    have "hk_free en ar os_free m p1 raw (sp, q) = ((?sp, q), w)"
      unfolding hk_free_def Let_def by (simp only: prod.case assms(1) False Some option.case if_False)
    with assms(2) have "sp' = ?sp" "q' = q" "v = w" by simp_all
    with False Some show ?thesis by blast
  qed
qed

lemma block_guard_fates: "block_guard en ar m b = Some v \<Longrightarrow> v \<noteq> Freed \<and> v \<noteq> Held \<and> v \<noteq> Declined"
  by (auto simp: block_guard_def split: if_splits)

lemma block_guard_none:
  assumes "block_guard en ar m b = None" "guarded en ar m p1 b"
  shows "rd32 m (b + 0x38) mod 2 = 1 \<and> class_of (rd32 m (b + 0x3c)) \<noteq> 0 \<and> (he_resim en \<longrightarrow> \<not> links_corrupt ar m b)"
  using assms by (auto simp: block_guard_def guarded_def split: if_splits)

lemma guard_class:
  assumes "\<not> guard_declines en ar os_free m p1 raw" "free_block ar m raw = Some b" "guarded en ar m p1 b"
  shows "class_of (rd32 m (b + 0x3c)) \<le> 8"
  using assms by (auto simp: guard_declines_def free_block_def guarded_def Let_def split: if_splits)

text \<open>With the guards on, a free reaches the engine's allocator, or is held for it, only for a
  block whose in-use bit is set, whose class is one of 1 to 8, and, during a replay, whose
  neighbours are committed and point back at it; every refused free leaves the quarantine as it
  was. The exception is spelt out: an address in the first eight bytes of a page is passed
  on unlooked at, whatever lies behind it.\<close>

theorem free_reaches_engine:
  assumes "hk_free en ar os_free m p1 raw (sp, q) = ((sp', q'), v)"
  shows "(v \<noteq> Freed \<and> v \<noteq> Held \<longrightarrow> q' = q)
    \<and> (\<forall>b. free_block ar m raw = Some b \<and> guarded en ar m p1 b \<and> (v = Freed \<or> v = Held) \<longrightarrow>
         rd32 m (b + 0x38) mod 2 = 1 \<and> 1 \<le> class_of (rd32 m (b + 0x3c)) \<and> class_of (rd32 m (b + 0x3c)) \<le> 8
         \<and> (he_resim en \<longrightarrow> \<not> links_corrupt ar m b))
    \<and> (is_arena_addr ar raw \<and> raw mod 0x1000 < 8 \<longrightarrow> v = Freed \<and> sp' = sp \<and> q' = q)"
proof -
  have declined: "q' = q" if "v \<noteq> Freed" "v \<noteq> Held"
  proof (cases "free_block ar m raw")
    case None
    then show ?thesis using assms by (auto simp: hk_free_def split: if_splits)
  next
    case (Some b)
    from hk_free_block [OF Some assms] that show ?thesis by (auto split: if_splits)
  qed
  moreover have "rd32 m (b + 0x38) mod 2 = 1 \<and> 1 \<le> class_of (rd32 m (b + 0x3c)) \<and> class_of (rd32 m (b + 0x3c)) \<le> 8
      \<and> (he_resim en \<longrightarrow> \<not> links_corrupt ar m b)"
    if b: "free_block ar m raw = Some b" and g: "guarded en ar m p1 b" and v: "v = Freed \<or> v = Held" for b
  proof -
    have "\<not> guard_declines en ar os_free m p1 raw" "block_guard en ar m b = None"
      using hk_free_block [OF b assms] v block_guard_fates [of en ar m b v] by auto
    with block_guard_none [OF _ g] guard_class [OF _ b g] show ?thesis by (simp add: Suc_le_eq)
  qed
  moreover have "v = Freed \<and> sp' = sp \<and> q' = q" if "is_arena_addr ar raw" "raw mod 0x1000 < 8"
    using assms that by (simp add: hk_free_def guard_declines_def free_block_def)
  ultimately show ?thesis by blast
qed
text \<open>A well-formed block of class 1, held by the quarantine.\<close>

definition demo_mem :: gmem where
  "demo_mem = wr64 0x20048 0x50 (wr32 0x20038 11 (wr32 0x2003c 4 (wr64 0x30090 1 (\<lambda>_. 0))))"

definition demo_env :: hook_env where
  "demo_env = \<lparr>he_engine = True, he_resim = False, he_frame = 5, he_shadow = False, he_gfg = True, he_dealloc = True,
     he_class0 = True, he_link = True, he_base = IMAGE_BASE, he_sound = sound_init 0 True\<rparr>"

lemma demo_reads:
  "rd64 demo_mem 0x20048 = 0x50" "rd32 demo_mem 0x20038 = 11" "rd32 demo_mem 0x2003c = 4" "rd64 demo_mem 0x30090 = 1"
  by (simp_all add: demo_mem_def mem_simps apart_def)

lemma demo_committed: "is_committed_addr demo_ar a" "is_arena_addr demo_ar a" if "0x10000 \<le> a" "a < 0x80000"
  using that by (simp_all add: is_committed_addr_def is_arena_addr_def demo_ar_def ARENA_SIZE_def)

lemma demo_block: "free_block demo_ar demo_mem 0x20050 = Some 0x20000" "guarded demo_env demo_ar demo_mem 0x30000 0x20000"
  "\<not> guard_declines demo_env demo_ar (\<lambda>_. False) demo_mem 0x30000 0x20050"
  "block_guard demo_env demo_ar demo_mem 0x20000 = None"
  by (simp_all add: free_block_def guarded_def guard_declines_def block_guard_def demo_committed demo_reads demo_env_def
      class_of_def)

lemma demo_wanted: "wanted IMAGE_BASE demo_ar demo_mem (sound_init 0 True) 0x20050 quar_init"
proof -
  have "rd64 demo_mem 0x20050 = rd64 (\<lambda>_. 0) 0x20050"
    by (simp add: demo_mem_def mem_simps rd64_wr32 apart_def)
  moreover have "rd64 (\<lambda>_. 0) 0x20050 = 0"
    by (simp add: rd64_def peek_bytes_def dec64_def upt_rec)
  ultimately show ?thesis by (simp add: wanted_def is_typed_at_def quar_init_def IMAGE_BASE_def Let_def)
qed

lemma demo_hold:
  "hk_free demo_env demo_ar (\<lambda>_. False) demo_mem 0x30000 0x20050 (sp, quar_init)
   = ((spine_retire 0x20000 5 sp, fst (on_free True IMAGE_BASE demo_ar demo_mem (sound_init 0 True)
        (stamp_of_block (spine_retire 0x20000 5 sp)) 0x30000 0x20050 0x20000 5 quar_init)), Held)"
  unfolding hk_free_def demo_block(1) using demo_block(3,4) demo_wanted
  by (simp add: spine_record_on_def demo_env_def on_free_def quar_init_def Let_def)

theorem free_reaches_engine_witness:
  "snd (hk_free demo_env demo_ar (\<lambda>_. False) demo_mem 0x30000 0x20050 (spine_init, quar_init)) = Held
   \<and> rd32 demo_mem 0x20038 mod 2 = 1 \<and> class_of (rd32 demo_mem 0x2003c) \<le> 8
   \<and> snd (hk_free demo_env demo_ar (\<lambda>_. False) demo_mem 0x30000 0x21000 (spine_init, quar_init)) = Freed"
proof -
  obtain sp q v where h: "hk_free demo_env demo_ar (\<lambda>_. False) demo_mem 0x30000 0x21000 (spine_init, quar_init) = ((sp, q), v)"
    by (metis prod.collapse)
  have "v = Freed" using free_reaches_engine [OF h] by (simp add: demo_committed)
  moreover have "rd32 demo_mem (0x20000 + 0x38) mod 2 = 1 \<and> class_of (rd32 demo_mem (0x20000 + 0x3c)) \<le> 8"
    using free_reaches_engine [OF demo_hold] demo_block(1,2) by blast
  ultimately show ?thesis by (simp add: h demo_hold)
qed

section \<open>Identity across the hold\<close>

lemma flush_loop_serials:
  assumes "fold (flush_one ar stamp g nf) es (st, m, freed) = (st', m', freed')"
    "\<forall>e \<in> set freed. stamp (qe_block e) = qe_serial e"
  shows "\<forall>e \<in> set freed'. stamp (qe_block e) = qe_serial e"
  using assms
proof (induction es arbitrary: st m freed)
  case (Cons e es)
  obtain s1 m1 f1 where s: "flush_one ar stamp g nf e (st, m, freed) = (s1, m1, f1)"
    by (cases "flush_one ar stamp g nf e (st, m, freed)") auto
  then have "\<forall>e \<in> set f1. stamp (qe_block e) = qe_serial e"
    using Cons.prems(2) by (auto simp: flush_one_def split: if_splits)
  from Cons.IH [OF _ this] Cons.prems(1) show ?case by (simp add: s)
qed simp

lemma flush_serials:
  assumes "quar_flush ar stamp g cur safe (st, m) = (st', m', freed)"
  shows "\<forall>e \<in> set freed. stamp (qe_block e) = qe_serial e"
proof (cases "qu_mode st = 0 \<or> \<not> qu_cs st \<or> \<not> safe \<or> \<not> qu_free st")
  case True
  then have "freed = []" using assms by (auto simp: quar_flush_def)
  then show ?thesis by simp
next
  case False
  obtain keep buf husk where sw: "fold (sweep_entry (\<lambda>e. horizon st < cur - qe_frame e)) (qu_ents st) ([], [], qu_husk st) = (keep, buf, husk)"
    by (cases "fold (sweep_entry (\<lambda>e. horizon st < cur - qe_frame e)) (qu_ents st) ([], [], qu_husk st)") auto
  have "fold (flush_one ar stamp g (\<lambda>e. cur)) buf (st\<lparr>qu_ents := keep, qu_husk := husk\<rparr>, m, []) = (st', m', freed)"
    using assms False sw by (simp add: quar_flush_def)
  from flush_loop_serials [OF this] show ?thesis by simp
qed

lemma on_free_held_entry:
  assumes "on_free eng base ar m sr stamp c u b fr q = (q', True)" "length (qu_ents q) < QCAP"
  shows "qu_ents q' = qu_ents q @ [\<lparr>qe_control = c, qe_user = u, qe_block = b, qe_frame = fr, qe_deferred = True,
     qe_serial = stamp b\<rparr>]"
proof -
  have "qu_mode q = 2" using assms by (auto simp: on_free_def Let_def split: if_splits)
  with assms show ?thesis by (auto simp: on_free_def Let_def split: if_splits)
qed

text \<open>C13. The identity gate: when the hook holds a free, the entry it records carries the serial the
  block has at that moment; if the block is carved again before the flush, no entry with that
  serial for that block is ever given back to the engine, however often the table holds it.\<close>

theorem recarved_never_freed:
  assumes "\<forall>x \<in> set (past @ ops). block_addr (op_block x)" "block_addr b" "sp = spine_run past spine_init"
    "stamp_of_block sp b \<noteq> 0" "free_block ar m raw = Some b" "length (qu_ents q) < QCAP"
    "hk_free en ar os_free m p1 raw (sp, q) = ((sp', q'), Held)" "0 < carves_of b ops"
    "quar_flush ar' (stamp_of_block (spine_run ops sp')) g cur safe (q2, m2) = (q3, m3, freed)"
  shows "qu_ents q' = qu_ents q @ [\<lparr>qe_control = p1, qe_user = raw, qe_block = b, qe_frame = he_frame en,
      qe_deferred = True, qe_serial = stamp_of_block sp b\<rparr>]
    \<and> (\<forall>e \<in> set freed. \<not> (qe_block e = b \<and> qe_serial e = stamp_of_block sp b))"
proof -
  obtain d where sp': "sp' = (if spine_record_on en then spine_retire b (he_frame en) sp else sp)"
    and d: "on_free (he_engine en) (he_base en) ar m (he_sound en) (stamp_of_block sp') p1 raw b (he_frame en) q = (q', d)"
      "Held = (if d then Held else Freed)"
    using hk_free_block [OF assms(5,7)] block_guard_fates [of en ar m b Held] by blast
  have same: "stamp_of_block sp' v = stamp_of_block sp v" for v
    by (simp add: sp' spine_retire_stamp)
  have ok: "spine_ok sp" using assms(1,3) spine_run_ok [OF spine_init_ok, of past] by simp
  then have ok': "spine_ok sp'" by (simp add: sp' spine_retire_ok)
  have "d" using d(2) by (cases d) simp_all
  with d(1) on_free_held_entry [OF _ assms(6)] have "qu_ents q' = qu_ents q @ [\<lparr>qe_control = p1, qe_user = raw,
      qe_block = b, qe_frame = he_frame en, qe_deferred = True, qe_serial = stamp_of_block sp b\<rparr>]"
    by (simp add: same)
  moreover have "stamp_of_block (spine_run ops sp') b \<noteq> stamp_of_block sp b"
    using spine_run_same [OF ok' _ assms(2), of ops] assms(1,4,8) by (simp add: same)
  ultimately show ?thesis using flush_serials [OF assms(9)] by fastforce
qed
text \<open>Carved, held with serial 1, carved again: the flush gives nothing back.\<close>

lemma demo_stamp: "stamp_of_block (spine_run [Carved 0x20000 64 0] spine_init) 0x20000 = 1"
  using spine_put_stamp [OF spine_init_ok, of "0x20000" "0x20000" 64 0]
  by (simp add: spine_run_def block_addr_def TOMB_def spine_find_init) (simp add: spine_init_def)

theorem recarved_never_freed_witness:
  "let sp = spine_run [Carved 0x20000 64 0] spine_init;
       s = fst (hk_free demo_env demo_ar (\<lambda>_. False) demo_mem 0x30000 0x20050 (sp, quar_init));
       r = quar_flush demo_ar (stamp_of_block (spine_run [Carved 0x20000 64 9] (fst s))) demo_free 50 True (snd s, demo_mem)
   in map qe_serial (qu_ents (snd s)) = [1] \<and> (\<nexists>e. e \<in> set (snd (snd r)) \<and> qe_block e = 0x20000 \<and> qe_serial e = 1)"
proof -
  let ?sp = "spine_run [Carved 0x20000 64 0] spine_init"
  obtain sp' q' where h: "hk_free demo_env demo_ar (\<lambda>_. False) demo_mem 0x30000 0x20050 (?sp, quar_init) = ((sp', q'), Held)"
    using demo_hold by blast
  obtain q3 m3 freed where r: "quar_flush demo_ar (stamp_of_block (spine_run [Carved 0x20000 64 9] sp')) demo_free 50 True
      (q', demo_mem) = (q3, m3, freed)"
    by (cases "quar_flush demo_ar (stamp_of_block (spine_run [Carved 0x20000 64 9] sp')) demo_free 50 True (q', demo_mem)") auto
  have b: "block_addr 0x20000" by (simp add: block_addr_def TOMB_def)
  have "qu_ents q' = qu_ents quar_init @ [\<lparr>qe_control = 0x30000, qe_user = 0x20050, qe_block = 0x20000,
      qe_frame = he_frame demo_env, qe_deferred = True, qe_serial = stamp_of_block ?sp 0x20000\<rparr>]
    \<and> (\<forall>e \<in> set freed. \<not> (qe_block e = 0x20000 \<and> qe_serial e = stamp_of_block ?sp 0x20000))"
    by (rule recarved_never_freed [OF _ b refl _ demo_block(1) _ h _ r])
      (simp_all add: b demo_stamp quar_init_def QCAP_def)
  moreover have "qu_ents quar_init = []" by (simp add: quar_init_def)
  ultimately show ?thesis by (auto simp: Let_def h r demo_stamp)
qed

text \<open>The gate is blind where the serial table is full: for a block whose whole probe run is
  taken by other blocks, no carve is ever recorded, its serial stays 0, and a hold recorded
  before a new carve still matches after it.\<close>

theorem gate_blind_when_full:
  assumes "spine_find b sp = None"
  shows "stamp_of_block (spine_run ops sp) b = 0
    \<and> qe_serial (\<lparr>qe_control = c, qe_user = u, qe_block = b, qe_frame = fr, qe_deferred = True,
        qe_serial = stamp_of_block sp b\<rparr>) = stamp_of_block (spine_run (ops @ [Carved b sz fr']) sp) b"
proof -
  have step: "spine_find b (spine_step x st) = None" if "spine_find b st = None" for x st
  proof (cases x)
    case (Retired v f)
    then show ?thesis using that by (simp add: spine_find_def spine_retire_slot(3))
  next
    case (Carved v z f)
    show ?thesis
    proof (cases "spine_find v st")
      case None
      then show ?thesis using that Carved by (simp add: spine_put_def spine_find_def)
    next
      case (Some k)
      have full: "spine_key st j \<noteq> b \<and> spine_key st j \<noteq> 0" if "j \<in> set (spine_seq b)" for j
        using \<open>spine_find b st = None\<close> that unfolding spine_find_def probe_find_def find_None_iff by blast
      have keys: "spine_key (spine_put v z f st) = (spine_key st)(k := v)"
        using Some by (auto simp: spine_put_def Let_def fun_eq_iff)
      have new: "((spine_key st)(k := v)) j \<noteq> b \<and> ((spine_key st)(k := v)) j \<noteq> 0" if "j \<in> set (spine_seq b)" for j
        using full [OF that] probe_find_key [of "spine_key st" v "spine_seq v" k] Some that
        by (auto simp: spine_find_def)
      show ?thesis
        unfolding Carved spine_step.simps spine_find_def probe_find_def keys find_None_iff using new by blast
    qed
  qed
  have run: "spine_find b (spine_run ops sp) = None" for ops
    using assms step by (induction ops arbitrary: sp) (simp_all add: spine_run_def)
  show ?thesis using assms run by (simp add: stamp_of_block_def)
qed

theorem gate_blind_when_full_witness:
  "let sp = spine_init\<lparr>ss_tab := (\<lambda>_. \<lparr>sp_block = 7, sp_serial = 1, sp_live = True, sp_birth = 0, sp_death = 0, sp_size = 0\<rparr>)\<rparr>
   in stamp_of_block (spine_run [Carved 0x20000 64 0, Carved 0x20000 64 9] sp) 0x20000 = 0"
proof -
  let ?sp = "spine_init\<lparr>ss_tab := (\<lambda>_. \<lparr>sp_block = 7, sp_serial = 1, sp_live = True, sp_birth = 0, sp_death = 0, sp_size = 0\<rparr>)\<rparr>"
  have "spine_find 0x20000 ?sp = None"
    by (simp add: spine_find_def probe_find_def find_None_iff)
  from gate_blind_when_full [OF this] show ?thesis by (simp add: Let_def)
qed

section \<open>Every held block comes back\<close>

text \<open>The engine's free leaves the in-use bits of other blocks alone.\<close>

definition frees_apart :: "(nat \<Rightarrow> nat \<Rightarrow> gmem \<Rightarrow> gmem) \<Rightarrow> qent list \<Rightarrow> bool" where
  "frees_apart g es \<longleftrightarrow> (\<forall>e \<in> set es. \<forall>e' \<in> set es. \<forall>m. qe_block e' \<noteq> qe_block e \<longrightarrow>
     rd32 (g (qe_control e) (qe_user e) m) (qe_block e' + 0x38) mod 2 = rd32 m (qe_block e' + 0x38) mod 2)"

lemma flush_loop_all:
  assumes "fold (flush_one ar stamp g nf) es (st, m, freed) = (st', m', freed')" "distinct (map qe_block es)"
    "frees_apart g es" "\<forall>e \<in> set es. stamp (qe_block e) = qe_serial e \<and> rd32 m (qe_block e + 0x38) mod 2 = 1"
  shows "freed' = freed @ es"
  using assms
proof (induction es arbitrary: st m freed)
  case (Cons e es)
  obtain s1 m1 f1 where s: "flush_one ar stamp g nf e (st, m, freed) = (s1, m1, f1)"
    by (cases "flush_one ar stamp g nf e (st, m, freed)") auto
  have f1: "f1 = freed @ [e]" "m1 = g (qe_control e) (qe_user e) m"
    using s Cons.prems(4) by (auto simp: flush_one_def split: if_splits)
  have "rd32 m1 (qe_block x + 0x38) mod 2 = 1" if "x \<in> set es" for x
  proof -
    have "qe_block x \<in> qe_block ` set es" using that by simp
    then have "qe_block x \<noteq> qe_block e" using Cons.prems(2) by auto
    then have "rd32 m1 (qe_block x + 0x38) mod 2 = rd32 m (qe_block x + 0x38) mod 2"
      using Cons.prems(3) that unfolding frees_apart_def f1(2) by simp
    then show ?thesis using Cons.prems(4) that by simp
  qed
  moreover have "frees_apart g es" using Cons.prems(3) by (simp add: frees_apart_def)
  ultimately show ?case using Cons.IH [of s1 m1 f1] Cons.prems(1,2,4) by (simp add: s f1(1))
qed simp

text \<open>Nothing is held for ever: when more than the horizon has passed since every hold, one frame
  of forward play gives every deferred block back to the engine, in the order the frees came,
  and leaves the table empty, provided each block still has its identity and its in-use bit.\<close>

theorem held_blocks_return:
  assumes "quar_on_frame ar stamp g fr False (st, m) = (st', m', freed)"
    "qu_mode st \<noteq> 0" "qu_cs st" "qu_free st" "length (qu_ents st) \<le> QCAP"
    "\<forall>e \<in> set (qu_ents st). qe_deferred e \<and> horizon st < fr - qe_frame e \<and> stamp (qe_block e) = qe_serial e
        \<and> rd32 m (qe_block e + 0x38) mod 2 = 1"
    "distinct (map qe_block (qu_ents st))" "frees_apart g (qu_ents st)"
  shows "freed = qu_ents st \<and> qu_ents st' = []"
proof -
  let ?s = "st\<lparr>qu_newest := max (qu_newest st) fr\<rparr>"
  let ?due = "\<lambda>e. horizon st < fr - qe_frame e"
  have hz: "horizon ?s = horizon st" by (simp add: horizon_def)
  obtain keep buf husk where sw: "fold (sweep_entry ?due) (qu_ents st) ([], [], qu_husk st) = (keep, buf, husk)"
    by (cases "fold (sweep_entry ?due) (qu_ents st) ([], [], qu_husk st)") auto
  have kb: "keep = []" "buf = qu_ents st"
    using sweep_loop [OF sw] assms(5,6) by (simp_all add: filter_empty_conv filter_id_conv)
  obtain s2 m2 f2 where fl: "fold (flush_one ar stamp g (\<lambda>e. fr)) (qu_ents st) (?s\<lparr>qu_ents := [], qu_husk := husk\<rparr>, m, []) = (s2, m2, f2)"
    by (cases "fold (flush_one ar stamp g (\<lambda>e. fr)) (qu_ents st) (?s\<lparr>qu_ents := [], qu_husk := husk\<rparr>, m, [])") auto
  have q: "quar_flush ar stamp g fr True (?s, m) = (s2, m2, f2)"
    using assms(2-4) sw fl by (simp add: quar_flush_def hz kb)
  have "f2 = qu_ents st" using flush_loop_all [OF fl assms(7,8)] assms(6) by simp
  moreover have "qu_ents s2 = []" using flush_loop_table [OF fl] by simp
  moreover have "freed = f2" "qu_ents st' = qu_ents s2"
    using assms(1) by (auto simp: quar_on_frame_def q bury_default_husks_def Let_def split: if_splits)
  ultimately show ?thesis by simp
qed

theorem held_blocks_return_witness:
  "let (st', m', freed) = quar_on_frame demo_ar (\<lambda>_. 1) demo_free 40 False
         (quar_init\<lparr>qu_ents := [demo_ent]\<rparr>, wr32 0x20038 1 (\<lambda>_. 0))
   in freed = [demo_ent] \<and> qu_ents st' = []"
proof -
  let ?st = "quar_init\<lparr>qu_ents := [demo_ent]\<rparr>"
  obtain st' m' freed where q: "quar_on_frame demo_ar (\<lambda>_. 1) demo_free 40 False (?st, wr32 0x20038 1 (\<lambda>_. 0)) = (st', m', freed)"
    by (cases "quar_on_frame demo_ar (\<lambda>_. 1) demo_free 40 False (?st, wr32 0x20038 1 (\<lambda>_. 0))") auto
  have "freed = qu_ents ?st \<and> qu_ents st' = []"
    by (rule held_blocks_return [OF q])
      (simp_all add: quar_init_def demo_ent_def QCAP_def horizon_def GRACE_def frees_apart_def c32.rd_wr)
  then show ?thesis unfolding q by simp
qed

end
