(* ===== verification/Alloc_Lists.thy ===== *)
theory Alloc_Lists
  imports Game_Memory
begin

text \<open>
  The engine allocator's free lists as the DLL checks, repairs and rebuilds them:
  \<open>src/src/alloc_invariants.cpp\<close> (check and repair) and \<open>src/src/flist_rebuild.cpp\<close> (the sweep of
  the pool and the rebuild). \<open>os p n\<close> says that \<open>VirtualQuery\<close> finds the \<open>n\<close> bytes at \<open>p\<close>
  committed and accessible; the messages and provenance dumps are left out.
\<close>

section \<open>Checking a list\<close>

datatype verdict = Pass | Broken | Unreadable

definition readable :: "arena \<Rightarrow> (nat \<Rightarrow> nat \<Rightarrow> bool) \<Rightarrow> nat \<Rightarrow> nat \<Rightarrow> bool" where
  "readable ar os p n =
     (if p = 0 \<or> n = 0 then False
      else if is_arena_addr ar p \<and> is_arena_addr ar (p + n - 1)
      then is_committed_addr ar p \<and> is_committed_addr ar (p + n - 1)
      else os p n)"

definition inv_canon :: "nat \<Rightarrow> bool" where
  "inv_canon p \<longleftrightarrow> 0x10000 \<le> p \<and> p < 0x7FFFFFFFFFFF"

definition node_in_pool :: "(nat \<Rightarrow> bool) \<Rightarrow> nat \<Rightarrow> nat \<Rightarrow> nat \<Rightarrow> bool" where
  "node_in_pool own lo hi node \<longleftrightarrow>
     inv_canon node \<and> \<not> (lo \<noteq> 0 \<and> hi \<noteq> 0 \<and> (node < lo \<or> hi \<le> node) \<and> \<not> own node)"

text \<open>The walk: \<open>Inl\<close> a verdict, or the number of nodes visited.\<close>

function check_walk ::
  "(nat \<Rightarrow> nat \<Rightarrow> bool) \<Rightarrow> (nat \<Rightarrow> bool) \<Rightarrow> gmem \<Rightarrow> nat \<Rightarrow> nat \<Rightarrow> nat \<Rightarrow> nat \<Rightarrow> verdict + nat" where
  "check_walk rdb inp m cap node prv walked =
     (if node = 0 then Inr walked
      else if cap < walked then Inl Broken
      else if \<not> inp node then Inl Broken
      else if \<not> rdb (node + 0x18) 8 \<or> \<not> rdb (node + 0x20) 8 then Inl Unreadable
      else if rd64 m (node + 0x18) \<noteq> prv then Inl Broken
      else check_walk rdb inp m cap (rd64 m (node + 0x20)) node (walked + 1))"
  by pat_completeness auto
termination by (relation "measure (\<lambda>(rdb, inp, m, cap, node, prv, walked). cap + 1 - walked)") auto

declare check_walk.simps [simp del]

definition check_list ::
  "(nat \<Rightarrow> nat \<Rightarrow> bool) \<Rightarrow> (nat \<Rightarrow> bool) \<Rightarrow> gmem \<Rightarrow> nat \<Rightarrow> nat \<Rightarrow> nat \<Rightarrow> nat \<Rightarrow> nat \<Rightarrow> verdict" where
  "check_list rdb own m mgr head_off count_off lo hi =
     (if \<not> rdb (mgr + head_off) 8 \<or> \<not> rdb (mgr + count_off) 4 then Unreadable
      else let head = rd64 m (mgr + head_off); cnt = rd32 m (mgr + count_off) in
        if head = 0 then (if cnt \<noteq> 0 then Broken else Pass)
        else if \<not> rdb (head + 0x18) 8 then Unreadable
        else if rd64 m (head + 0x18) \<noteq> 0 then Broken
        else case check_walk rdb (node_in_pool own lo hi) m ((cnt + 2) mod 2 ^ 32) head 0 0 of
          Inl v \<Rightarrow> v
        | Inr walked \<Rightarrow> if walked \<noteq> cnt then Broken else Pass)"

section \<open>Repairing a list\<close>

text \<open>The forward chain, when every node of it is in the pool, readable and free.\<close>

function fwd_walk ::
  "(nat \<Rightarrow> nat \<Rightarrow> bool) \<Rightarrow> nat \<Rightarrow> nat \<Rightarrow> gmem \<Rightarrow> nat \<Rightarrow> nat \<Rightarrow> nat \<Rightarrow> nat list option" where
  "fwd_walk rdb lo hi m cap node walked =
     (if node = 0 then Some []
      else if cap < walked then None
      else if \<not> inv_canon node \<or> (lo \<noteq> 0 \<and> hi \<noteq> 0 \<and> (node < lo \<or> hi \<le> node)) then None
      else if \<not> rdb (node + 0x18) 8 \<or> \<not> rdb (node + 0x20) 8 \<or> \<not> rdb (node + 0x38) 4 then None
      else if rd32 m (node + 0x38) mod 2 \<noteq> 0 then None
      else map_option ((#) node) (fwd_walk rdb lo hi m cap (rd64 m (node + 0x20)) (walked + 1)))"
  by pat_completeness auto
termination by (relation "measure (\<lambda>(rdb, lo, hi, m, cap, node, walked). cap + 1 - walked)") auto

declare fwd_walk.simps [simp del]

text \<open>A write that happens, and counts, only when the field disagrees.\<close>

definition fix64 :: "nat \<Rightarrow> nat \<Rightarrow> gmem \<times> nat \<Rightarrow> gmem \<times> nat" where
  "fix64 a v mf = (let (m, fixes) = mf in if rd64 m a \<noteq> v then (wr64 a v m, fixes + 1) else (m, fixes))"

definition fix32 :: "nat \<Rightarrow> nat \<Rightarrow> gmem \<times> nat \<Rightarrow> gmem \<times> nat" where
  "fix32 a v mf = (let (m, fixes) = mf in if rd32 m a \<noteq> v then (wr32 a v m, fixes + 1) else (m, fixes))"

text \<open>The second pass follows the links of the memory it writes; \<open>None\<close> when the fuel runs out.\<close>

fun relink :: "nat \<Rightarrow> nat \<Rightarrow> nat \<Rightarrow> nat \<Rightarrow> nat \<Rightarrow> nat \<Rightarrow> gmem \<times> nat \<Rightarrow> ((gmem \<times> nat) \<times> nat \<times> nat \<times> nat) option" where
  "relink fuel node prv lst walked ssum mf =
     (if node = 0 then Some (mf, lst, walked, ssum)
      else case fuel of 0 \<Rightarrow> None
      | Suc n \<Rightarrow>
          let mf1 = fix64 (node + 0x18) prv mf
          in relink n (rd64 (fst mf1) (node + 0x20)) node node (walked + 1)
               ((ssum + rd32 (fst mf1) (node + 0x38) div 2) mod 2 ^ 64) mf1)"

declare relink.simps [simp del]

datatype repair = Unfit | Fixed nat gmem | Endless

text \<open>Tail, count and size sum of the descriptor; the bound on the walk.\<close>

definition fix_desc :: "(nat \<Rightarrow> nat \<Rightarrow> bool) \<Rightarrow> nat \<Rightarrow> nat \<Rightarrow> nat \<Rightarrow> nat \<Rightarrow> nat \<Rightarrow> nat \<Rightarrow> gmem \<times> nat \<Rightarrow> gmem \<times> nat" where
  "fix_desc rdb mgr head_off count_off lst walked ssum mf =
     (let mf1 = fix64 (mgr + head_off + 8) lst mf;
          mf2 = fix32 (mgr + count_off) walked mf1
      in if rdb (mgr + head_off + 0x14) 4 then fix32 (mgr + head_off + 0x14) (ssum mod 2 ^ 32) mf2 else mf2)"

definition repair_cap :: "nat \<Rightarrow> nat" where
  "repair_cap cnt = max 4 ((cnt + 2) mod 2 ^ 32)"

definition repair_list :: "(nat \<Rightarrow> nat \<Rightarrow> bool) \<Rightarrow> gmem \<Rightarrow> nat \<Rightarrow> nat \<Rightarrow> nat \<Rightarrow> nat \<Rightarrow> nat \<Rightarrow> repair" where
  "repair_list rdb m mgr head_off count_off lo hi =
     (if \<not> rdb (mgr + head_off) 8 \<or> \<not> rdb (mgr + count_off) 4 then Unfit
      else let head = rd64 m (mgr + head_off); cnt = rd32 m (mgr + count_off) in
        if head = 0 then (if cnt = 0 then Fixed 0 m else Unfit)
        else if 200000 < repair_cap cnt then Unfit
        else if \<not> rdb (head + 0x18) 8 then Unfit
        else case fwd_walk rdb lo hi m (repair_cap cnt) head 0 of
          None \<Rightarrow> Unfit
        | Some _ \<Rightarrow>
            (case relink (repair_cap cnt + 1) head 0 head 0 0 (m, 0) of
               None \<Rightarrow> Endless
             | Some (mf, lst, walked, ssum) \<Rightarrow>
                 let mf3 = fix_desc rdb mgr head_off count_off lst walked ssum mf in Fixed (snd mf3) (fst mf3)))"

section \<open>All the managers\<close>

text \<open>
  The registry of allocators, and for each one with the right vtable its size classes. \<open>f\<close> gets
  the allocator, the class's manager and the pool bounds, read from the state as it is then.
\<close>

definition visit_managers ::
  "(nat \<Rightarrow> nat \<Rightarrow> bool) \<Rightarrow> nat \<Rightarrow> ('s \<Rightarrow> gmem) \<Rightarrow> (nat \<Rightarrow> nat \<Rightarrow> nat \<Rightarrow> nat \<Rightarrow> 's \<Rightarrow> 's) \<Rightarrow> 's \<Rightarrow> 's" where
  "visit_managers rdb base mem f s =
     (let count_addr = resolve base 0x140D760E0; array_addr = resolve base 0x140D760F0;
          target_vt = resolve base 0x140B08620
      in if \<not> rdb count_addr 4 \<or> \<not> rdb array_addr 8 then s
      else fold (\<lambda>i s.
             let ctrl = (if rdb (array_addr + i * 8) 8 then rd64 (mem s) (array_addr + i * 8) else 0)
             in if ctrl = 0 \<or> \<not> rdb ctrl 8 \<or> rd64 (mem s) ctrl \<noteq> target_vt then s
             else let lo = (if rdb (ctrl + 0x90) 8 then rd64 (mem s) (ctrl + 0x90) else 0);
                      hi = (if rdb (ctrl + 0x98) 8 then rd64 (mem s) (ctrl + 0x98) else 0);
                      n = (if rdb (ctrl + 0x648) 4 then rd32 (mem s) (ctrl + 0x648) else 8);
                      ncls = (if n < 1 \<or> 8 < n then 8 else n)
                  in fold (\<lambda>k s. f ctrl (ctrl + 0xd8 + k * 0xa8) lo hi s) [0..<ncls] s)
           [0..<min 64 (rd32 (mem s) count_addr)] s)"

text \<open>One check of all the free lists: how many are broken, how many unreadable.\<close>

definition check_freelists :: "(nat \<Rightarrow> nat \<Rightarrow> bool) \<Rightarrow> nat \<Rightarrow> arena \<Rightarrow> bool \<Rightarrow> gmem \<Rightarrow> nat \<times> nat" where
  "check_freelists rdb base ar off m =
     (if off then (0, 0)
      else visit_managers rdb base (\<lambda>_. m)
        (\<lambda>ctrl mgr lo hi (broke, unread).
           case check_list rdb (\<lambda>x. in_owned_pool (\<lambda>c. (rd64 m (c + 0x90), rd64 m (c + 0x98))) ctrl x ar)
                  m mgr 0x58 0x68 lo hi of
             Pass \<Rightarrow> (broke, unread) | Broken \<Rightarrow> (broke + 1, unread) | Unreadable \<Rightarrow> (broke, unread + 1))
        (0, 0))"

text \<open>One repair of all the free lists: the memory, lists and fields fixed, lists left alone.\<close>

definition repair_freelists :: "(nat \<Rightarrow> nat \<Rightarrow> bool) \<Rightarrow> nat \<Rightarrow> bool \<Rightarrow> gmem \<Rightarrow> gmem \<times> nat \<times> nat \<times> nat" where
  "repair_freelists rdb base on m =
     (if \<not> on then (m, 0, 0, 0)
      else visit_managers rdb base fst
        (\<lambda>ctrl mgr lo hi (m, lists, links, unfit).
           case repair_list rdb m mgr 0x58 0x68 lo hi of
             Fixed n m' \<Rightarrow> if 0 < n then (m', lists + 1, links + n, unfit) else (m', lists, links, unfit)
           | _ \<Rightarrow> (m, lists, links, unfit + 1))
        (m, 0, 0, 0))"

section \<open>The sweep of a pool\<close>

definition REBUILD_MAX :: nat where "REBUILD_MAX = 65536"

definition pblk_total :: "gmem \<Rightarrow> nat \<Rightarrow> nat" where "pblk_total m b = rd32 m (b + 0x38) div 2 * 16"
definition pblk_free :: "gmem \<Rightarrow> nat \<Rightarrow> bool" where "pblk_free m b \<longleftrightarrow> rd32 m (b + 0x38) mod 2 = 0"
definition pblk_class :: "gmem \<Rightarrow> nat \<Rightarrow> nat" where "pblk_class m b = rd32 m (b + 0x3c) div 4 mod 32"
definition pblk_kind :: "gmem \<Rightarrow> nat \<Rightarrow> nat" where "pblk_kind m b = rd32 m (b + 0x3c) mod 4"

definition blk_canon :: "nat \<Rightarrow> bool" where "blk_canon p \<longleftrightarrow> 0x10000 \<le> p \<and> p mod 8 = 0"

definition rd_blk :: "arena \<Rightarrow> (nat \<Rightarrow> nat \<Rightarrow> bool) \<Rightarrow> nat \<Rightarrow> nat \<Rightarrow> bool" where
  "rd_blk ar os p n =
     (if \<not> blk_canon p then False
      else if is_arena_addr ar p then is_committed_addr ar p \<and> is_committed_addr ar (p + n - 1)
      else os p n)"

text \<open>Collecting a block, unless the table is full.\<close>

definition collect :: "bool \<Rightarrow> nat \<Rightarrow> nat list \<Rightarrow> nat list option" where
  "collect want b acc = (if \<not> want then Some acc else if REBUILD_MAX \<le> length acc then None else Some (acc @ [b]))"

definition wants_sub :: "gmem \<Rightarrow> nat \<Rightarrow> nat \<Rightarrow> bool" where
  "wants_sub m cls b \<longleftrightarrow> pblk_free m b \<and> pblk_kind m b \<noteq> 2 \<and> pblk_class m b = cls"

function sweep_sub :: "arena \<Rightarrow> (nat \<Rightarrow> nat \<Rightarrow> bool) \<Rightarrow> gmem \<Rightarrow> nat \<Rightarrow> nat \<Rightarrow> nat \<Rightarrow> nat list \<Rightarrow> nat list option" where
  "sweep_sub ar os m cls nb sub acc =
     (if nb \<le> sub then Some acc
      else if \<not> rd_blk ar os sub 0x40 then None
      else let nsub = (sub + pblk_total m sub) mod 2 ^ 64
        in if pblk_total m sub = 0 \<or> nsub \<le> sub \<or> nb < nsub then None
        else case collect (wants_sub m cls sub) sub acc of
          None \<Rightarrow> None
        | Some acc' \<Rightarrow> sweep_sub ar os m cls nb nsub acc')"
  by pat_completeness auto
termination by (relation "measure (\<lambda>(ar, os, m, cls, nb, sub, acc). nb - sub)") auto

declare sweep_sub.simps [simp del]

function sweep_top :: "arena \<Rightarrow> (nat \<Rightarrow> nat \<Rightarrow> bool) \<Rightarrow> gmem \<Rightarrow> nat \<Rightarrow> nat \<Rightarrow> nat \<Rightarrow> nat list \<Rightarrow> nat list option" where
  "sweep_top ar os m cls hi b acc =
     (if hi \<le> b then Some acc
      else if \<not> rd_blk ar os b 0x40 then None
      else let nb = (b + pblk_total m b) mod 2 ^ 64
        in if pblk_total m b = 0 \<or> nb \<le> b \<or> hi < nb then None
        else case (if pblk_kind m b = 2
                   then (if pblk_class m b = cls then sweep_sub ar os m cls nb (b + 0x50) acc else Some acc)
                   else collect (pblk_free m b \<and> pblk_class m b = cls) b acc) of
          None \<Rightarrow> None
        | Some acc' \<Rightarrow> sweep_top ar os m cls hi nb acc')"
  by pat_completeness auto
termination by (relation "measure (\<lambda>(ar, os, m, cls, hi, b, acc). hi - b)") auto

declare sweep_top.simps [simp del]

definition sweep_range :: "arena \<Rightarrow> (nat \<Rightarrow> nat \<Rightarrow> bool) \<Rightarrow> gmem \<Rightarrow> nat \<Rightarrow> nat \<Rightarrow> nat \<Rightarrow> nat list \<Rightarrow> nat list option" where
  "sweep_range ar os m lo hi cls acc =
     (if \<not> blk_canon lo \<or> hi \<le> lo \<or> 0x40000000 < hi - lo then None else sweep_top ar os m cls hi lo acc)"

section \<open>The rebuild\<close>

text \<open>The primary pool and the regions donated to this allocator.\<close>

definition donated_ranges :: "arena \<Rightarrow> nat \<Rightarrow> (nat \<times> nat) list" where
  "donated_ranges ar ctrl =
     map (\<lambda>(c, b, n). (b, b + n)) (filter (\<lambda>(c, b, n). c = ctrl \<and> b \<noteq> 0 \<and> n \<noteq> 0) (ar_donated ar))"

fun sweep_all :: "arena \<Rightarrow> (nat \<Rightarrow> nat \<Rightarrow> bool) \<Rightarrow> gmem \<Rightarrow> nat \<Rightarrow> (nat \<times> nat) list \<Rightarrow> nat list \<Rightarrow> nat list option" where
  "sweep_all ar os m cls [] acc = Some acc"
| "sweep_all ar os m cls ((lo, hi) # rs) acc =
     (case sweep_range ar os m lo hi cls acc of None \<Rightarrow> None | Some acc' \<Rightarrow> sweep_all ar os m cls rs acc')"

fun commit_chain :: "nat \<Rightarrow> nat list \<Rightarrow> gmem \<times> nat \<Rightarrow> gmem \<times> nat" where
  "commit_chain prv [] ms = ms"
| "commit_chain prv (b # bs) (m, ssum) =
     (let m1 = wr64 (b + 0x18) prv m;
          m2 = wr64 (b + 0x20) (case bs of [] \<Rightarrow> 0 | c # _ \<Rightarrow> c) m1
      in commit_chain b bs (m2, (ssum + rd32 m2 (b + 0x38) div 2) mod 2 ^ 64))"

definition rebuild_free_list_from_pool ::
  "arena \<Rightarrow> (nat \<Rightarrow> nat \<Rightarrow> bool) \<Rightarrow> nat \<Rightarrow> nat \<Rightarrow> gmem \<Rightarrow> gmem \<times> nat option" where
  "rebuild_free_list_from_pool ar os ctrl k m =
     (let mgr = ctrl + 0xd8 + k * 0xa8
      in if \<not> rd_blk ar os (mgr + 0x58) 0x20 \<or> \<not> rd_blk ar os (ctrl + 0x90) 0x10 then (m, None)
      else let cls = rd32 m (mgr + 0x70); prior = rd32 m (mgr + 0x68)
        in if cls < 1 \<or> 8 < cls then (m, None)
        else case sweep_all ar os m cls ((rd64 m (ctrl + 0x90), rd64 m (ctrl + 0x98)) # donated_ranges ar ctrl) [] of
          None \<Rightarrow> (m, None)
        | Some bs \<Rightarrow>
            (if 0 < prior \<and> bs = [] then (m, None)
             else let (m1, ssum) = commit_chain 0 bs (m, 0);
                      m2 = wr64 (mgr + 0x58) (if bs = [] then 0 else hd bs) m1;
                      m3 = wr64 (mgr + 0x60) (if bs = [] then 0 else last bs) m2;
                      m4 = wr32 (mgr + 0x68) (length bs) m3
                  in (wr32 (mgr + 0x6c) ssum m4, Some (length bs))))"

end
