(* ===== verification/Alloc_Facts.thy ===== *)
theory Alloc_Facts
  imports Alloc_Lists
begin

text \<open>
  A repaired or rebuilt free list passes the check; the sweep of a pool is the reference
  enumeration of its blocks; a list with a donated node is never repaired.
\<close>

section \<open>Chains\<close>

text \<open>The nodes from \<open>node\<close> to the end, and their backward links.\<close>

fun path :: "gmem \<Rightarrow> nat \<Rightarrow> nat list \<Rightarrow> bool" where
  "path m node [] \<longleftrightarrow> node = 0"
| "path m node (n # ns) \<longleftrightarrow> node = n \<and> n \<noteq> 0 \<and> path m (rd64 m (n + 0x20)) ns"

fun backs :: "gmem \<Rightarrow> nat \<Rightarrow> nat list \<Rightarrow> bool" where
  "backs m prv [] \<longleftrightarrow> True"
| "backs m prv (n # ns) \<longleftrightarrow> rd64 m (n + 0x18) = prv \<and> backs m n ns"

lemma path_unique: "path m x ns \<Longrightarrow> path m x ns' \<Longrightarrow> ns = ns'"
proof (induction ns arbitrary: x ns')
  case Nil
  then show ?case by (cases ns') auto
next
  case (Cons n ns)
  then show ?case by (cases ns') auto
qed

lemma path_suffix: "path m x (ys @ n # zs) \<Longrightarrow> path m n (n # zs)"
  by (induction ys arbitrary: x) auto

lemma path_distinct:
  assumes "path m x ns"
  shows "distinct ns"
  using assms
proof (induction ns arbitrary: x)
  case (Cons n ns)
  have "n \<notin> set ns"
  proof
    assume "n \<in> set ns"
    then obtain ys zs where ns: "ns = ys @ n # zs" by (auto simp: in_set_conv_decomp)
    have "path m n (n # zs)" using Cons.prems path_suffix [of m x "n # ys" n zs] by (simp add: ns)
    moreover have "path m n (n # ns)" using Cons.prems by simp
    ultimately have "n # zs = n # ns" by (rule path_unique)
    then show False by (simp add: ns)
  qed
  with Cons show ?case by auto
qed simp

lemma path_cong:
  assumes "\<forall>n \<in> set ns. rd64 m' (n + 0x20) = rd64 m (n + 0x20)"
  shows "path m' x ns = path m x ns"
  using assms by (induction ns arbitrary: x) auto

lemma backs_cong:
  assumes "\<forall>n \<in> set ns. rd64 m' (n + 0x18) = rd64 m (n + 0x18)"
  shows "backs m' p ns = backs m p ns"
  using assms by (induction ns arbitrary: p) auto

lemma fwd_walk_path:
  assumes "fwd_walk rdb lo hi m cap node walked = Some ns"
  shows "path m node ns \<and> length ns + walked \<le> cap + 1 + walked \<and> (node \<noteq> 0 \<longrightarrow> length ns + walked \<le> cap + 1)
    \<and> (\<forall>n \<in> set ns. node_in_pool (\<lambda>_. False) lo hi n \<and> rdb (n + 0x18) 8 \<and> rdb (n + 0x20) 8)"
  using assms
proof (induction rdb lo hi m cap node walked arbitrary: ns rule: fwd_walk.induct)
  case (1 rdb lo hi m cap node walked)
  show ?case
  proof (cases "node = 0")
    case True
    then show ?thesis using "1.prems" by (simp add: fwd_walk.simps)
  next
    case False
    have c: "\<not> cap < walked" "\<not> (\<not> inv_canon node \<or> (lo \<noteq> 0 \<and> hi \<noteq> 0 \<and> (node < lo \<or> hi \<le> node)))"
      "\<not> (\<not> rdb (node + 0x18) 8 \<or> \<not> rdb (node + 0x20) 8 \<or> \<not> rdb (node + 0x38) 4)"
      "\<not> rd32 m (node + 0x38) mod 2 \<noteq> 0"
      using "1.prems" False by (auto simp: fwd_walk.simps [of rdb lo hi m cap node] split: if_splits)
    then obtain ns' where r: "fwd_walk rdb lo hi m cap (rd64 m (node + 0x20)) (walked + 1) = Some ns'" and ns: "ns = node # ns'"
      using "1.prems" False by (auto simp: fwd_walk.simps [of rdb lo hi m cap node])
    from "1.IH" [OF False c r] have I: "path m (rd64 m (node + 0x20)) ns'"
      "rd64 m (node + 0x20) \<noteq> 0 \<longrightarrow> length ns' + (walked + 1) \<le> cap + 1"
      "\<forall>n \<in> set ns'. node_in_pool (\<lambda>_. False) lo hi n \<and> rdb (n + 0x18) 8 \<and> rdb (n + 0x20) 8" by auto
    have "length ns' + (walked + 1) \<le> cap + 1"
      using I(1,2) c(1) by (cases "rd64 m (node + 0x20) = 0") (cases ns', auto)+
    then show ?thesis using I False c by (auto simp: ns node_in_pool_def)
  qed
qed

lemma check_walk_pass:
  assumes "path m node ns" "backs m prv ns" "length ns + walked \<le> cap + 1"
    "\<forall>n \<in> set ns. inp n \<and> rdb (n + 0x18) 8 \<and> rdb (n + 0x20) 8"
  shows "check_walk rdb inp m cap node prv walked = Inr (walked + length ns)"
  using assms
proof (induction ns arbitrary: node prv walked)
  case Nil
  then show ?case by (simp add: check_walk.simps)
next
  case (Cons n ns)
  then show ?case by (simp add: check_walk.simps [of rdb inp m cap n])
qed

lemma check_list_pass:
  assumes "path m (rd64 m (mgr + ho)) ns" "backs m 0 ns" "rd32 m (mgr + co) = length ns" "length ns + 2 < 2 ^ 32"
    "\<forall>n \<in> set ns. node_in_pool own lo hi n \<and> rdb (n + 0x18) 8 \<and> rdb (n + 0x20) 8"
    "rdb (mgr + ho) 8" "rdb (mgr + co) 4"
  shows "check_list rdb own m mgr ho co lo hi = Pass"
proof (cases ns)
  case Nil
  then show ?thesis using assms by (simp add: check_list_def)
next
  case (Cons h t)
  have h: "rd64 m (mgr + ho) = h" "h \<noteq> 0" "rd64 m (h + 0x18) = 0" "rdb (h + 0x18) 8" using assms by (simp_all add: Cons)
  have "check_walk rdb (node_in_pool own lo hi) m (length ns + 2) (rd64 m (mgr + ho)) 0 0 = Inr (0 + length ns)"
    by (rule check_walk_pass [where ns = ns]) (use assms in simp_all)
  then show ?thesis using assms(3,4,6,7) h by (simp add: check_list_def Let_def)
qed

section \<open>Repair\<close>

lemma fix64_eq: "fix64 a v (m, f) = (if rd64 m a \<noteq> v then (wr64 a v m, f + 1) else (m, f))"
  by (simp add: fix64_def)

text \<open>After a fix the field holds the value, and nothing outside it changed.\<close>

lemma fix64_facts:
  assumes "v < 2 ^ 64"
  shows "rd64 (fst (fix64 a v mf)) a = v"
    and "x < a \<or> a + 8 \<le> x \<Longrightarrow> fst (fix64 a v mf) x = fst mf x"
  using assms by (auto simp: fix64_def split_def c64.rd_wr c64.wr_outside)

lemma fix32_facts:
  assumes "v < 2 ^ 32"
  shows "rd32 (fst (fix32 a v mf)) a = v"
    and "x < a \<or> a + 4 \<le> x \<Longrightarrow> fst (fix32 a v mf) x = fst mf x"
  using assms by (auto simp: fix32_def split_def c32.rd_wr c32.wr_outside)

lemma rd64_same: "(\<And>x. a \<le> x \<Longrightarrow> x < a + 8 \<Longrightarrow> m' x = m x) \<Longrightarrow> rd64 m' a = rd64 m a"
  by (rule c64.rd_bytes)

text \<open>The windows of the links of 16-aligned nodes.\<close>

lemma aligned_apart:
  assumes "n mod 16 = 0" "k mod 16 = 0"
  shows "apart (n + 0x20) 8 (k + 0x18) 8" "n \<noteq> k \<Longrightarrow> apart (n + 0x18) 8 (k + 0x18) 8"
  using assms unfolding apart_def by presburger+

lemma relink_chain:
  assumes "path m node ns" "\<forall>n \<in> set ns. n mod 16 = 0 \<and> n < 2 ^ 64" "length ns \<le> fuel" "prv < 2 ^ 64"
  shows "\<exists>m' f ssum. relink fuel node prv lst walked s (m, f0)
      = Some ((m', f), (if ns = [] then lst else last ns), walked + length ns, ssum)
    \<and> path m' node ns \<and> backs m' prv ns
    \<and> (\<forall>x. (\<forall>n \<in> set ns. x < n + 0x18 \<or> n + 0x20 \<le> x) \<longrightarrow> m' x = m x)"
  using assms
proof (induction ns arbitrary: m node prv lst walked s f0 fuel)
  case Nil
  then show ?case by (simp add: relink.simps)
next
  case (Cons n ns)
  from Cons.prems have node: "node = n" "n \<noteq> 0" and p: "path m (rd64 m (n + 0x20)) ns"
    and al: "n mod 16 = 0" "n < 2 ^ 64" by auto
  obtain k where k: "fuel = Suc k" using Cons.prems(3) by (cases fuel) auto
  obtain m1 f1 where m1: "fix64 (n + 0x18) prv (m, f0) = (m1, f1)" by (cases "fix64 (n + 0x18) prv (m, f0)")
  have out: "m1 x = m x" if "x < n + 0x18 \<or> n + 0x20 \<le> x" for x
  proof -
    have "x < n + 0x18 \<or> n + 0x18 + 8 \<le> x" using that by (auto simp: add.commute)
    from fix64_facts(2) [OF Cons.prems(4), OF this, of "(m, f0)"] show ?thesis by (simp add: m1)
  qed
  have self: "rd64 m1 (n + 0x18) = prv" using fix64_facts(1) [OF Cons.prems(4), of "n + 0x18" "(m, f0)"] by (simp add: m1)
  have fwd: "rd64 m1 (j + 0x20) = rd64 m (j + 0x20)" if "j mod 16 = 0" for j
    using aligned_apart(1) [OF that al(1)] by (intro rd64_same out) (auto simp: apart_def)
  have "path m1 (rd64 m1 (n + 0x20)) ns"
    using p path_cong [of ns m1 m] fwd Cons.prems(2) al(1) by simp
  then obtain m' f ssum where I:
    "relink k (rd64 m1 (n + 0x20)) n n (walked + 1) ((s + rd32 m1 (n + 0x38) div 2) mod 2 ^ 64) (m1, f1)
       = Some ((m', f), (if ns = [] then n else last ns), walked + 1 + length ns, ssum)"
    "path m' (rd64 m1 (n + 0x20)) ns" "backs m' n ns"
    "\<forall>x. (\<forall>j \<in> set ns. x < j + 0x18 \<or> j + 0x20 \<le> x) \<longrightarrow> m' x = m1 x"
    using Cons.IH [of m1 "rd64 m1 (n + 0x20)" k n n "walked + 1" "(s + rd32 m1 (n + 0x38) div 2) mod 2 ^ 64" f1]
      Cons.prems(2,3) al(2) k by auto
  have r: "relink fuel node prv lst walked s (m, f0) = Some ((m', f), last (n # ns), walked + length (n # ns), ssum)"
    using I(1) node by (simp add: relink.simps [of "Suc k"] k m1)
  have keep: "m' x = m x" if "\<forall>j \<in> set (n # ns). x < j + 0x18 \<or> j + 0x20 \<le> x" for x
    using I(4) out [of x] that by simp
  have "rd64 m' (n + 0x18) = prv"
  proof -
    have "n \<notin> set ns" using path_distinct [OF Cons.prems(1)] by simp
    have "rd64 m' (n + 0x18) = rd64 m1 (n + 0x18)"
    proof (rule rd64_same)
      fix x assume x: "n + 0x18 \<le> x" "x < n + 0x18 + 8"
      have "x < j + 0x18 \<or> j + 0x20 \<le> x" if "j \<in> set ns" for j
        using aligned_apart(2) [OF al(1), of j] Cons.prems(2) that \<open>n \<notin> set ns\<close> x unfolding apart_def by fastforce
      then show "m' x = m1 x" using I(4) by blast
    qed
    then show ?thesis using self by simp
  qed
  moreover have "rd64 m' (n + 0x20) = rd64 m1 (n + 0x20)"
  proof (rule rd64_same)
    fix x assume x: "n + 0x20 \<le> x" "x < n + 0x20 + 8"
    have "x < j + 0x18 \<or> j + 0x20 \<le> x" if "j \<in> set ns" for j
      using aligned_apart(1) [OF al(1), of j] Cons.prems(2) that x unfolding apart_def by fastforce
    then show "m' x = m1 x" using I(4) by blast
  qed
  ultimately show ?case using r I(2,3) keep node by (intro exI conjI) auto
qed
text \<open>The descriptor of a class, clear of the pool whose nodes it lists.\<close>

definition desc_apart :: "nat \<Rightarrow> nat \<Rightarrow> nat \<Rightarrow> bool" where
  "desc_apart mgr lo hi \<longleftrightarrow> mgr + 0x70 \<le> lo \<or> hi + 0x28 \<le> mgr + 0x58"

lemma fix_chain:
  assumes "fst mf' = m'" "\<forall>x. \<not> (mgr + 0x58 \<le> x \<and> x < mgr + 0x70) \<longrightarrow> m' x = m x"
    "\<forall>n \<in> set ns. lo \<le> n \<and> n < hi" "desc_apart mgr lo hi"
  shows "path m' x ns = path m x ns" "backs m' p ns = backs m p ns"
proof -
  have "rd64 m' (n + 0x20) = rd64 m (n + 0x20)" "rd64 m' (n + 0x18) = rd64 m (n + 0x18)" if "n \<in> set ns" for n
    using assms(2-4) that unfolding desc_apart_def by (intro rd64_same; fastforce)+
  then show "path m' x ns = path m x ns" "backs m' p ns = backs m p ns"
    by (simp_all add: path_cong backs_cong)
qed

text \<open>The three scalars of the descriptor.\<close>

lemma desc_fixes:
  assumes "lst < 2 ^ 64" "cnt < 2 ^ 32" "ssum < 2 ^ 32"
    "mf3 = (if r then fix32 (mgr + 0x6c) ssum (fix32 (mgr + 0x68) cnt (fix64 (mgr + 0x60) lst mf))
            else fix32 (mgr + 0x68) cnt (fix64 (mgr + 0x60) lst mf))"
  shows "rd32 (fst mf3) (mgr + 0x68) = cnt \<and> rd64 (fst mf3) (mgr + 0x60) = lst
    \<and> rd64 (fst mf3) (mgr + 0x58) = rd64 (fst mf) (mgr + 0x58)
    \<and> (\<forall>x. \<not> (mgr + 0x58 \<le> x \<and> x < mgr + 0x70) \<longrightarrow> fst mf3 x = fst mf x)"
proof -
  define mf1 where "mf1 = fix64 (mgr + 0x60) lst mf"
  define mf2 where "mf2 = fix32 (mgr + 0x68) cnt mf1"
  have mf3: "mf3 = (if r then fix32 (mgr + 0x6c) ssum mf2 else mf2)" by (simp add: assms(4) mf1_def mf2_def)
  have o1: "fst mf1 x = fst mf x" if "x < mgr + 0x60 \<or> mgr + 0x68 \<le> x" for x
    using fix64_facts(2) [OF assms(1), of x "mgr + 0x60" mf] that by (simp add: mf1_def add.commute)
  have o2: "fst mf2 x = fst mf1 x" if "x < mgr + 0x68 \<or> mgr + 0x6c \<le> x" for x
    using fix32_facts(2) [OF assms(2), of x "mgr + 0x68" mf1] that by (simp add: mf2_def add.commute)
  have o3: "fst mf3 x = fst mf2 x" if "x < mgr + 0x6c \<or> mgr + 0x70 \<le> x" for x
    using fix32_facts(2) [OF assms(3), of x "mgr + 0x6c" mf2] that by (simp add: mf3 add.commute)
  have "rd32 (fst mf3) (mgr + 0x68) = rd32 (fst mf2) (mgr + 0x68)" by (rule c32.rd_bytes) (auto intro: o3)
  moreover have "rd32 (fst mf2) (mgr + 0x68) = cnt" unfolding mf2_def by (rule fix32_facts(1) [OF assms(2)])
  moreover have "rd64 (fst mf3) (mgr + 0x60) = rd64 (fst mf1) (mgr + 0x60)" by (rule rd64_same) (auto simp: o3 o2)
  moreover have "rd64 (fst mf1) (mgr + 0x60) = lst" unfolding mf1_def by (rule fix64_facts(1) [OF assms(1)])
  moreover have "rd64 (fst mf3) (mgr + 0x58) = rd64 (fst mf) (mgr + 0x58)" by (rule rd64_same) (auto simp: o3 o2 o1)
  ultimately show ?thesis by (auto simp: o3 o2 o1)
qed

lemma repair_cases:
  assumes "rd64 m (mgr + 0x58) \<noteq> 0"
  shows "repair_list rdb m mgr 0x58 0x68 lo hi = Unfit
    \<or> (\<exists>ns. fwd_walk rdb lo hi m (repair_cap (rd32 m (mgr + 0x68))) (rd64 m (mgr + 0x58)) 0 = Some ns
        \<and> rdb (mgr + 0x58) 8 \<and> rdb (mgr + 0x68) 4 \<and> repair_cap (rd32 m (mgr + 0x68)) \<le> 200000
        \<and> (\<forall>mf lst walked ssum. relink (repair_cap (rd32 m (mgr + 0x68)) + 1) (rd64 m (mgr + 0x58)) 0
              (rd64 m (mgr + 0x58)) 0 0 (m, 0) = Some (mf, lst, walked, ssum) \<longrightarrow>
            repair_list rdb m mgr 0x58 0x68 lo hi = Fixed (snd (fix_desc rdb mgr 0x58 0x68 lst walked ssum mf))
              (fst (fix_desc rdb mgr 0x58 0x68 lst walked ssum mf))))"
  using assms by (cases "fwd_walk rdb lo hi m (repair_cap (rd32 m (mgr + 0x68))) (rd64 m (mgr + 0x58)) 0")
    (simp_all add: repair_list_def Let_def)

text \<open>C39. The repair repairs: a free list of 16-aligned nodes whose descriptor lies clear of the pool is
  either refused without a write, or relinked in memory that then passes the check, with the same
  forward chain, the right tail and count; it never loops, not even on a cyclic chain.\<close>

theorem repaired_list_passes:
  assumes "lo \<noteq> 0" "hi \<noteq> 0" "hi < 2 ^ 47" "desc_apart mgr lo hi"
    "\<forall>ns. path m (rd64 m (mgr + 0x58)) ns \<longrightarrow> (\<forall>n \<in> set ns. n mod 16 = 0)"
  shows "repair_list rdb m mgr 0x58 0x68 lo hi = Unfit
    \<or> (\<exists>k m' ns. repair_list rdb m mgr 0x58 0x68 lo hi = Fixed k m'
        \<and> path m (rd64 m (mgr + 0x58)) ns \<and> path m' (rd64 m' (mgr + 0x58)) ns
        \<and> rd32 m' (mgr + 0x68) = length ns
        \<and> check_list rdb own m' mgr 0x58 0x68 lo hi = Pass)"
proof (cases "rd64 m (mgr + 0x58) = 0")
  case True
  then show ?thesis by (auto simp: repair_list_def check_list_def Let_def)
next
  case False
  let ?h = "rd64 m (mgr + 0x58)" and ?cap = "repair_cap (rd32 m (mgr + 0x68))"
  from repair_cases [OF False, of rdb lo hi] show ?thesis
  proof (elim disjE exE conjE)
    assume "repair_list rdb m mgr 0x58 0x68 lo hi = Unfit"
    then show ?thesis ..
  next
    fix ns
    assume ns: "fwd_walk rdb lo hi m ?cap ?h 0 = Some ns" "rdb (mgr + 0x58) 8" "rdb (mgr + 0x68) 4" "?cap \<le> 200000"
      and rep: "\<forall>mf lst walked ssum. relink (?cap + 1) ?h 0 ?h 0 0 (m, 0) = Some (mf, lst, walked, ssum) \<longrightarrow>
            repair_list rdb m mgr 0x58 0x68 lo hi = Fixed (snd (fix_desc rdb mgr 0x58 0x68 lst walked ssum mf))
              (fst (fix_desc rdb mgr 0x58 0x68 lst walked ssum mf))"
    from fwd_walk_path [OF ns(1)] False have W: "path m ?h ns" "length ns \<le> ?cap + 1"
      "\<forall>n \<in> set ns. node_in_pool (\<lambda>_. False) lo hi n \<and> rdb (n + 0x18) 8 \<and> rdb (n + 0x20) 8" by auto
    have range: "\<forall>n \<in> set ns. lo \<le> n \<and> n < hi" using assms(1,2) W(3) by (auto simp: node_in_pool_def)
    have al: "\<forall>n \<in> set ns. n mod 16 = 0 \<and> n < 2 ^ 64" using assms(3,5) W(1) range by fastforce
    obtain m1 f ssum where R: "relink (?cap + 1) ?h 0 ?h 0 0 (m, 0) = Some ((m1, f), (if ns = [] then ?h else last ns), 0 + length ns, ssum)"
      "path m1 ?h ns" "backs m1 0 ns" "\<forall>x. (\<forall>n \<in> set ns. x < n + 0x18 \<or> n + 0x20 \<le> x) \<longrightarrow> m1 x = m x"
      using relink_chain [OF W(1) al W(2), of 0 ?h 0 0 0] by auto
    define lst where "lst = (if ns = [] then ?h else last ns)"
    define mf where "mf = fix_desc rdb mgr 0x58 0x68 lst (length ns) ssum (m1, f)"
    have lst: "lst < 2 ^ 64" using al c64.rd_less [of m "mgr + 0x58"] by (auto simp: lst_def)
    have len: "length ns < 2 ^ 32" using W(2) ns(4) by simp
    have "rd32 (fst mf) (mgr + 0x68) = length ns \<and> rd64 (fst mf) (mgr + 0x60) = lst
        \<and> rd64 (fst mf) (mgr + 0x58) = rd64 (fst (m1, f)) (mgr + 0x58)
        \<and> (\<forall>x. \<not> (mgr + 0x58 \<le> x \<and> x < mgr + 0x70) \<longrightarrow> fst mf x = fst (m1, f) x)"
      by (rule desc_fixes [OF lst len, of "ssum mod 2 ^ 32" _ "rdb (mgr + 0x6c) 4"]) (simp_all add: mf_def fix_desc_def Let_def add.assoc)
    then have D: "rd32 (fst mf) (mgr + 0x68) = length ns" "rd64 (fst mf) (mgr + 0x58) = rd64 m1 (mgr + 0x58)"
      "\<forall>x. \<not> (mgr + 0x58 \<le> x \<and> x < mgr + 0x70) \<longrightarrow> fst mf x = m1 x" by simp_all
    have "rd64 m1 (mgr + 0x58) = ?h"
    proof (rule rd64_same)
      fix x assume x: "mgr + 0x58 \<le> x" "x < mgr + 0x58 + 8"
      have "x < n + 0x18 \<or> n + 0x20 \<le> x" if "n \<in> set ns" for n
        using range that x assms(4) unfolding desc_apart_def by fastforce
      then show "m1 x = m x" using R(4) by blast
    qed
    then have head: "rd64 (fst mf) (mgr + 0x58) = ?h" using D(2) by simp
    have pb: "path (fst mf) ?h ns" "backs (fst mf) 0 ns"
      using fix_chain [OF refl D(3) range assms(4)] R(2,3) by simp_all
    have ok: "\<forall>n \<in> set ns. node_in_pool own lo hi n \<and> rdb (n + 0x18) 8 \<and> rdb (n + 0x20) 8"
      using W(3) by (auto simp: node_in_pool_def)
    have "check_list rdb own (fst mf) mgr 0x58 0x68 lo hi = Pass"
      by (rule check_list_pass [OF _ pb(2) D(1) _ ok ns(2,3)]) (use pb(1) head W(2) ns(4) in simp_all)
    moreover have "repair_list rdb m mgr 0x58 0x68 lo hi = Fixed (snd mf) (fst mf)"
      using rep R(1) by (simp add: mf_def lst_def)
    ultimately show ?thesis using W(1) pb(1) head D(1) by (intro disjI2 exI conjI) auto
  qed
qed
text \<open>Two nodes, the second one's backward link lost, the count too high.\<close>

definition torn_list :: gmem where
  "torn_list = wr64 0x30058 0x20000 (wr32 0x30068 5 (wr64 0x20020 0x20040 (\<lambda>_. 0)))"

lemma rd_zero: "rd64 (\<lambda>_. 0) a = 0" "rd32 (\<lambda>_. 0) a = 0"
  by (simp_all add: rd64_def rd32_def peek_bytes_def dec64_def upt_rec)

lemma torn_reads:
  "rd64 torn_list 0x30058 = 0x20000" "rd32 torn_list 0x30068 = 5" "rd64 torn_list 0x20020 = 0x20040"
  "rd64 torn_list 0x20060 = 0" "rd32 torn_list 0x20038 = 0" "rd32 torn_list 0x20078 = 0"
  by (simp_all add: torn_list_def mem_simps rd_zero rd64_wr32 apart_def)

lemma torn_walk: "fwd_walk (\<lambda>_ _. True) 0x20000 0x30000 torn_list 7 0x20000 0 = Some [0x20000, 0x20040]"
  by (simp add: fwd_walk.simps torn_reads inv_canon_def)

lemma torn_path: "path torn_list 0x20000 [0x20000, 0x20040]"
  by (simp add: torn_reads)

lemma torn_len: "path torn_list 0x20000 ns \<Longrightarrow> length ns = 2"
  using path_unique [OF _ torn_path, of ns] by simp

theorem repaired_list_passes_witness:
  "\<exists>k m'. repair_list (\<lambda>_ _. True) torn_list 0x30000 0x58 0x68 0x20000 0x30000 = Fixed k m' \<and> rd32 m' 0x30068 = 2
     \<and> check_list (\<lambda>_ _. True) (\<lambda>_. False) torn_list 0x30000 0x58 0x68 0x20000 0x30000 = Broken
     \<and> check_list (\<lambda>_ _. True) (\<lambda>_. False) m' 0x30000 0x58 0x68 0x20000 0x30000 = Pass"
proof -
  have al: "\<forall>ns. path torn_list (rd64 torn_list (0x30000 + 0x58)) ns \<longrightarrow> (\<forall>n \<in> set ns. n mod 16 = 0)"
  proof (intro allI impI)
    fix ns assume "path torn_list (rd64 torn_list (0x30000 + 0x58)) ns"
    then have "ns = [0x20000, 0x20040]" using path_unique [OF _ torn_path] by (simp add: torn_reads)
    then show "\<forall>n \<in> set ns. n mod 16 = 0" by simp
  qed
  have "repair_list (\<lambda>_ _. True) torn_list 0x30000 0x58 0x68 0x20000 0x30000 \<noteq> Unfit"
    using torn_walk by (simp add: repair_list_def torn_reads repair_cap_def Let_def split: option.split)
  moreover have "check_list (\<lambda>_ _. True) (\<lambda>_. False) torn_list 0x30000 0x58 0x68 0x20000 0x30000 = Broken"
  proof -
    have "rd64 torn_list 0x20018 = 0" "rd64 torn_list 0x20058 = 0"
      by (simp_all add: torn_list_def mem_simps rd_zero rd64_wr32 apart_def)
    then show ?thesis by (simp add: check_list_def torn_reads check_walk.simps node_in_pool_def inv_canon_def)
  qed
  ultimately show ?thesis
    using repaired_list_passes [where lo = "0x20000" and hi = "0x30000" and rdb = "\<lambda>_ _. True" and own = "\<lambda>_. False", OF _ _ _ _ al]
      torn_len by (auto simp: desc_apart_def torn_reads)
qed

text \<open>The repair does not know donated regions: a list with a node outside the primary pool is
  never repaired, although the check accepts such a node, and the whole list, when it lies in a
  region donated to the allocator.\<close>

theorem donated_list_unfit:
  assumes "path m (rd64 m (mgr + 0x58)) ns" "n \<in> set ns" "n < lo \<or> hi \<le> n" "lo \<noteq> 0" "hi \<noteq> 0"
    "length ns + 2 < 2 ^ 32" "\<forall>x \<in> set ns. inv_canon x \<and> (lo \<le> x \<and> x < hi \<or> own x) \<and> rdb (x + 0x18) 8 \<and> rdb (x + 0x20) 8"
    "rdb (mgr + 0x58) 8" "rdb (mgr + 0x68) 4"
  shows "repair_list rdb m mgr 0x58 0x68 lo hi = Unfit
    \<and> (backs m 0 ns \<and> rd32 m (mgr + 0x68) = length ns \<longrightarrow> check_list rdb own m mgr 0x58 0x68 lo hi = Pass)"
proof
  have "rd64 m (mgr + 0x58) \<noteq> 0" using assms(1,2) by (cases ns) auto
  moreover have "fwd_walk rdb lo hi m c (rd64 m (mgr + 0x58)) 0 = None" for c
  proof (rule ccontr)
    assume "fwd_walk rdb lo hi m c (rd64 m (mgr + 0x58)) 0 \<noteq> None"
    then obtain ns' where w: "fwd_walk rdb lo hi m c (rd64 m (mgr + 0x58)) 0 = Some ns'" by blast
    from fwd_walk_path [OF this] path_unique [OF assms(1)] have "node_in_pool (\<lambda>_. False) lo hi n" using assms(2) by auto
    then show False using assms(3-5) by (auto simp: node_in_pool_def)
  qed
  ultimately show "repair_list rdb m mgr 0x58 0x68 lo hi = Unfit" by (simp add: repair_list_def Let_def)
  have ok: "\<forall>x \<in> set ns. node_in_pool own lo hi x \<and> rdb (x + 0x18) 8 \<and> rdb (x + 0x20) 8"
    using assms(7) by (auto simp: node_in_pool_def)
  show "backs m 0 ns \<and> rd32 m (mgr + 0x68) = length ns \<longrightarrow> check_list rdb own m mgr 0x58 0x68 lo hi = Pass"
    using check_list_pass [OF assms(1) _ _ assms(6) ok assms(8,9)] by blast
qed

theorem donated_list_unfit_witness:
  "repair_list (\<lambda>_ _. True) torn_list 0x30000 0x58 0x68 0x20000 0x20040 = Unfit"
proof -
  have "path torn_list (rd64 torn_list (0x30000 + 0x58)) [0x20000, 0x20040]" using torn_path by (simp add: torn_reads)
  from donated_list_unfit [OF this, of "0x20040" "0x20000" "0x20040" "\<lambda>_. True" "\<lambda>_ _. True"] show ?thesis
    by (simp add: inv_canon_def)
qed
section \<open>The sweep\<close>

text \<open>
  The reference: the blocks that tile a range by their own sizes, and for each slab of the class the
  blocks that tile its inside.
\<close>

fun tiling :: "gmem \<Rightarrow> nat \<Rightarrow> nat \<Rightarrow> nat list \<Rightarrow> bool" where
  "tiling m b e [] \<longleftrightarrow> e \<le> b"
| "tiling m b e (x # xs) \<longleftrightarrow>
     x = b \<and> b < e \<and> 0 < pblk_total m b \<and> b + pblk_total m b \<le> e \<and> tiling m (b + pblk_total m b) e xs"

fun slabs :: "gmem \<Rightarrow> nat \<Rightarrow> nat \<Rightarrow> nat \<Rightarrow> (nat \<times> nat list) list \<Rightarrow> bool" where
  "slabs m cls b e [] \<longleftrightarrow> e \<le> b"
| "slabs m cls b e ((x, ys) # xs) \<longleftrightarrow>
     x = b \<and> b < e \<and> 0 < pblk_total m b \<and> b + pblk_total m b \<le> e
     \<and> (if pblk_kind m b = 2 \<and> pblk_class m b = cls then tiling m (b + 0x50) (b + pblk_total m b) ys else ys = [])
     \<and> slabs m cls (b + pblk_total m b) e xs"

fun collected :: "gmem \<Rightarrow> nat \<Rightarrow> nat \<times> nat list \<Rightarrow> nat list" where
  "collected m cls (x, ys) =
     (if pblk_kind m x = 2 then filter (wants_sub m cls) ys
      else if pblk_free m x \<and> pblk_class m x = cls then [x] else [])"

lemma collect_eq:
  assumes "length acc \<le> REBUILD_MAX" "a = acc @ (if w then [b] else [])"
  shows "collect w b acc = (if length a \<le> REBUILD_MAX then Some a else None)"
  using assms by (auto simp: collect_def)

lemma nowrap:
  fixes b t nb :: nat
  assumes "nb < 2 ^ 64" "b < nb"
  shows "\<not> (t = 0 \<or> (b + t) mod 2 ^ 64 \<le> b \<or> nb < (b + t) mod 2 ^ 64) \<and> t < 2 ^ 40 \<longleftrightarrow> 0 < t \<and> b + t \<le> nb \<and> t < 2 ^ 40"
proof (cases "b + t < 2 ^ 64")
  case False
  have "(b + t) mod 2 ^ 64 \<le> b" if "t < 2 ^ 40"
  proof -
    have "(b + t) mod 2 ^ 64 = b + t - 2 ^ 64" using False assms that by (simp add: mod_if)
    then show ?thesis using that by simp
  qed
  with False assms show ?thesis by auto
qed auto

lemma pblk_total_less: "pblk_total m b < 2 ^ 40"
  using c32.rd_less [of m "b + 0x38"] by (simp add: pblk_total_def)

lemma stride:
  assumes "nb < 2 ^ 64" "b < nb"
  shows "\<not> (pblk_total m b = 0 \<or> (b + pblk_total m b) mod 2 ^ 64 \<le> b \<or> nb < (b + pblk_total m b) mod 2 ^ 64)
    \<longleftrightarrow> 0 < pblk_total m b \<and> b + pblk_total m b \<le> nb"
  using nowrap [OF assms, of "pblk_total m b"] pblk_total_less by blast

lemma sweep_sub_step:
  assumes "nb < 2 ^ 64" "sub < nb" "length acc \<le> REBUILD_MAX" "a = acc @ (if wants_sub m cls sub then [sub] else [])"
  shows "sweep_sub ar os m cls nb sub acc = Some r \<longleftrightarrow>
    rd_blk ar os sub 0x40 \<and> 0 < pblk_total m sub \<and> sub + pblk_total m sub \<le> nb
    \<and> length a \<le> REBUILD_MAX \<and> sweep_sub ar os m cls nb (sub + pblk_total m sub) a = Some r"
proof (cases "rd_blk ar os sub 0x40 \<and> 0 < pblk_total m sub \<and> sub + pblk_total m sub \<le> nb")
  case True
  then have "(sub + pblk_total m sub) mod 2 ^ 64 = sub + pblk_total m sub" using assms(1) by simp
  with True assms(2) stride [OF assms(1,2), of m]
  have "sweep_sub ar os m cls nb sub acc = (if length a \<le> REBUILD_MAX
      then sweep_sub ar os m cls nb (sub + pblk_total m sub) a else None)"
    by (simp add: sweep_sub.simps [of ar os m cls nb sub acc] Let_def collect_eq [OF assms(3,4)])
  then show ?thesis using True by simp
next
  case False
  then have "sweep_sub ar os m cls nb sub acc = None"
    using assms(2) stride [OF assms(1,2), of m] unfolding sweep_sub.simps [of ar os m cls nb sub acc] Let_def
    by (smt (verit) not_le)
  with False show ?thesis by auto
qed

lemma sweep_sub_iff:
  assumes "nb < 2 ^ 64" "length acc \<le> REBUILD_MAX"
  shows "sweep_sub ar os m cls nb sub acc = Some r \<longleftrightarrow>
    (\<exists>xs. tiling m sub nb xs \<and> (\<forall>x \<in> set xs. rd_blk ar os x 0x40) \<and> r = acc @ filter (wants_sub m cls) xs
      \<and> length r \<le> REBUILD_MAX)"
  using assms(2)
proof (induction "nb - sub" arbitrary: sub acc rule: less_induct)
  case less
  show ?case
  proof (cases "nb \<le> sub")
    case True
    have "tiling m sub nb xs \<longleftrightarrow> xs = []" for xs using True by (cases xs) auto
    then show ?thesis using True less.prems by (auto simp: sweep_sub.simps [of ar os m cls nb sub])
  next
    case False
    define a where "a = acc @ (if wants_sub m cls sub then [sub] else [])"
    have app: "acc @ filter (wants_sub m cls) (sub # xs) = a @ filter (wants_sub m cls) xs" for xs by (simp add: a_def)
    have unf: "(\<exists>xs. tiling m sub nb xs \<and> Q xs) \<longleftrightarrow> 0 < pblk_total m sub \<and> sub + pblk_total m sub \<le> nb
        \<and> (\<exists>xs. tiling m (sub + pblk_total m sub) nb xs \<and> Q (sub # xs))" for Q
    proof
      assume "\<exists>xs. tiling m sub nb xs \<and> Q xs"
      then obtain xs where "tiling m sub nb xs" "Q xs" by blast
      with False show "0 < pblk_total m sub \<and> sub + pblk_total m sub \<le> nb
        \<and> (\<exists>xs. tiling m (sub + pblk_total m sub) nb xs \<and> Q (sub # xs))" by (cases xs) auto
    next
      assume "0 < pblk_total m sub \<and> sub + pblk_total m sub \<le> nb
        \<and> (\<exists>xs. tiling m (sub + pblk_total m sub) nb xs \<and> Q (sub # xs))"
      then show "\<exists>xs. tiling m sub nb xs \<and> Q xs" using False by (metis not_le tiling.simps(2))
    qed
    have "sweep_sub ar os m cls nb (sub + pblk_total m sub) a = Some r \<longleftrightarrow>
        (\<exists>xs. tiling m (sub + pblk_total m sub) nb xs \<and> (\<forall>x \<in> set xs. rd_blk ar os x 0x40)
          \<and> r = a @ filter (wants_sub m cls) xs \<and> length r \<le> REBUILD_MAX)"
      if "0 < pblk_total m sub" "length a \<le> REBUILD_MAX"
      using less.hyps [of "sub + pblk_total m sub" a] False that by simp
    note IH = this
    note step = sweep_sub_step [OF assms(1) _ less.prems a_def, of ar os r]
    show ?thesis
    proof (cases "0 < pblk_total m sub \<and> sub + pblk_total m sub \<le> nb \<and> length a \<le> REBUILD_MAX")
      case True
      then show ?thesis unfolding unf app using step IH False by (simp del: filter.simps) blast
    next
      case F: False
      then have "sweep_sub ar os m cls nb sub acc \<noteq> Some r" using step False by auto
      moreover have "\<not> (r = a @ filter (wants_sub m cls) xs \<and> length r \<le> REBUILD_MAX)"
        if "\<not> length a \<le> REBUILD_MAX" for xs using that by auto
      ultimately show ?thesis unfolding unf app using F by blast
    qed
  qed
qed
text \<open>What one block of the range adds.\<close>

definition top_step :: "arena \<Rightarrow> (nat \<Rightarrow> nat \<Rightarrow> bool) \<Rightarrow> gmem \<Rightarrow> nat \<Rightarrow> nat \<Rightarrow> nat list \<Rightarrow> nat list option" where
  "top_step ar os m cls b acc =
     (if pblk_kind m b = 2
      then (if pblk_class m b = cls then sweep_sub ar os m cls (b + pblk_total m b) (b + 0x50) acc else Some acc)
      else collect (pblk_free m b \<and> pblk_class m b = cls) b acc)"

lemma top_step_iff:
  assumes "b + pblk_total m b < 2 ^ 64" "length acc \<le> REBUILD_MAX"
  shows "top_step ar os m cls b acc = Some r \<longleftrightarrow>
    (\<exists>ys. (if pblk_kind m b = 2 \<and> pblk_class m b = cls then tiling m (b + 0x50) (b + pblk_total m b) ys else ys = [])
      \<and> (\<forall>y \<in> set ys. rd_blk ar os y 0x40) \<and> r = acc @ collected m cls (b, ys) \<and> length r \<le> REBUILD_MAX)"
  using sweep_sub_iff [OF assms, of ar os m cls "b + 0x50" r] assms(2)
  by (auto simp: top_step_def collect_def)

lemma sweep_top_step:
  assumes "hi < 2 ^ 64" "b < hi"
  shows "sweep_top ar os m cls hi b acc = Some r \<longleftrightarrow>
    rd_blk ar os b 0x40 \<and> 0 < pblk_total m b \<and> b + pblk_total m b \<le> hi
    \<and> (\<exists>a. top_step ar os m cls b acc = Some a \<and> sweep_top ar os m cls hi (b + pblk_total m b) a = Some r)"
proof (cases "rd_blk ar os b 0x40 \<and> 0 < pblk_total m b \<and> b + pblk_total m b \<le> hi")
  case True
  then have "(b + pblk_total m b) mod 2 ^ 64 = b + pblk_total m b" using assms(1) by simp
  with True assms(2) stride [OF assms(1,2), of m]
  have "sweep_top ar os m cls hi b acc = (case top_step ar os m cls b acc of None \<Rightarrow> None
      | Some a \<Rightarrow> sweep_top ar os m cls hi (b + pblk_total m b) a)"
    by (simp add: sweep_top.simps [of ar os m cls hi b acc] Let_def top_step_def)
  with True show ?thesis by (auto split: option.split)
next
  case False
  then have "sweep_top ar os m cls hi b acc = None"
    using assms(2) stride [OF assms(1,2), of m] unfolding sweep_top.simps [of ar os m cls hi b acc] Let_def
    by (smt (verit) not_le)
  with False show ?thesis by auto
qed

definition slabs_readable :: "arena \<Rightarrow> (nat \<Rightarrow> nat \<Rightarrow> bool) \<Rightarrow> (nat \<times> nat list) list \<Rightarrow> bool" where
  "slabs_readable ar os xs \<longleftrightarrow> (\<forall>(x, ys) \<in> set xs. rd_blk ar os x 0x40 \<and> (\<forall>y \<in> set ys. rd_blk ar os y 0x40))"

lemma sweep_top_iff:
  assumes "hi < 2 ^ 64" "length acc \<le> REBUILD_MAX"
  shows "sweep_top ar os m cls hi b acc = Some r \<longleftrightarrow>
    (\<exists>xs. slabs m cls b hi xs \<and> slabs_readable ar os xs \<and> r = acc @ concat (map (collected m cls) xs)
      \<and> length r \<le> REBUILD_MAX)"
  using assms(2)
proof (induction "hi - b" arbitrary: b acc rule: less_induct)
  case less
  show ?case
  proof (cases "hi \<le> b")
    case True
    have "slabs m cls b hi xs \<longleftrightarrow> xs = []" for xs using True by (cases xs) auto
    then show ?thesis using True less.prems by (auto simp: sweep_top.simps [of ar os m cls hi b] slabs_readable_def)
  next
    case False
    let ?nb = "b + pblk_total m b"
    let ?in = "\<lambda>ys. if pblk_kind m b = 2 \<and> pblk_class m b = cls then tiling m (b + 0x50) ?nb ys else ys = []"
    show ?thesis
    proof (cases "0 < pblk_total m b \<and> ?nb \<le> hi")
      case True
      have IH: "sweep_top ar os m cls hi ?nb a = Some r \<longleftrightarrow>
        (\<exists>xs. slabs m cls ?nb hi xs \<and> slabs_readable ar os xs \<and> r = a @ concat (map (collected m cls) xs)
          \<and> length r \<le> REBUILD_MAX)" if "length a \<le> REBUILD_MAX" for a
      proof -
        have "hi - ?nb < hi - b" using True False by linarith
        from less.hyps [OF this that] show ?thesis .
      qed
      have top: "top_step ar os m cls b acc = Some a \<longleftrightarrow> (\<exists>ys. ?in ys \<and> (\<forall>y \<in> set ys. rd_blk ar os y 0x40)
          \<and> a = acc @ collected m cls (b, ys) \<and> length a \<le> REBUILD_MAX)" for a
        using top_step_iff [OF _ less.prems, of b m ar os cls a] True assms(1) by simp
      show ?thesis
      proof
        assume "sweep_top ar os m cls hi b acc = Some r"
        then obtain a where "rd_blk ar os b 0x40" and a: "top_step ar os m cls b acc = Some a"
          "sweep_top ar os m cls hi ?nb a = Some r"
          using sweep_top_step [OF assms(1), of b ar os m cls acc r] False by (auto simp: not_le)
        moreover obtain ys where ys: "?in ys" "\<forall>y \<in> set ys. rd_blk ar os y 0x40"
          "a = acc @ collected m cls (b, ys)" "length a \<le> REBUILD_MAX" using top a(1) by blast
        moreover obtain xs where "slabs m cls ?nb hi xs" "slabs_readable ar os xs"
          "r = a @ concat (map (collected m cls) xs)" "length r \<le> REBUILD_MAX" using IH [OF ys(4)] a(2) by blast
        ultimately show "\<exists>xs. slabs m cls b hi xs \<and> slabs_readable ar os xs
            \<and> r = acc @ concat (map (collected m cls) xs) \<and> length r \<le> REBUILD_MAX"
          using True False by (intro exI [of _ "(b, ys) # xs"]) (simp add: slabs_readable_def del: collected.simps)
      next
        assume "\<exists>xs. slabs m cls b hi xs \<and> slabs_readable ar os xs
            \<and> r = acc @ concat (map (collected m cls) xs) \<and> length r \<le> REBUILD_MAX"
        then obtain zs where zs: "slabs m cls b hi zs" "slabs_readable ar os zs"
          "r = acc @ concat (map (collected m cls) zs)" "length r \<le> REBUILD_MAX" by blast
        then obtain ys xs where z: "zs = (b, ys) # xs" using False by (cases zs) auto
        have rest: "?in ys" "slabs m cls ?nb hi xs" "rd_blk ar os b 0x40" "\<forall>y \<in> set ys. rd_blk ar os y 0x40"
          "slabs_readable ar os xs" using zs(1,2) by (simp_all add: z slabs_readable_def)
        define a where "a = acc @ collected m cls (b, ys)"
        have r: "r = a @ concat (map (collected m cls) xs)" using zs(3) by (simp add: z a_def del: collected.simps)
        then have len: "length a \<le> REBUILD_MAX" using zs(4) by simp
        then have "top_step ar os m cls b acc = Some a" using top rest(1,4) a_def by blast
        moreover have "sweep_top ar os m cls hi ?nb a = Some r" using IH [OF len] rest(2,5) r zs(4) by blast
        ultimately show "sweep_top ar os m cls hi b acc = Some r"
          using sweep_top_step [OF assms(1), of b ar os m cls acc r] rest(3) True False by (simp add: not_le)
      qed
    next
      case no: False
      then have "sweep_top ar os m cls hi b acc \<noteq> Some r" using sweep_top_step [OF assms(1), of b ar os m cls acc r] False by (auto simp: not_le)
      moreover have "\<not> slabs m cls b hi xs" for xs using no False by (cases xs) auto
      ultimately show ?thesis by blast
    qed
  qed
qed

text \<open>The sweep is exactly the enumeration it stands for: it succeeds just when the range is
  tiled by readable blocks (and the inside of each slab of the class by readable sub-blocks) and
  the free blocks of the class fit the table, and then it returns those blocks, in address order.\<close>

theorem sweep_is_enumeration:
  assumes "blk_canon lo" "lo < hi" "hi - lo \<le> 0x40000000" "hi < 2 ^ 64"
  shows "sweep_range ar os m lo hi cls [] = Some r \<longleftrightarrow>
    (\<exists>xs. slabs m cls lo hi xs \<and> slabs_readable ar os xs \<and> r = concat (map (collected m cls) xs)
      \<and> length r \<le> REBUILD_MAX)"
  using assms sweep_top_iff [OF assms(4), of "[]" ar os m cls lo r] by (simp add: sweep_range_def)

text \<open>One slab of class 1 with one free sub-block.\<close>

definition one_slab :: gmem where
  "one_slab = wr32 0x20038 0x41 (wr32 0x2003c 6 (wr32 0x20088 0x36 (wr32 0x2008c 5
     (wr64 0x30090 0x20000 (wr64 0x30098 0x20200 (wr32 0x30148 1 (\<lambda>_. 0)))))))"

lemma slab_reads:
  "rd32 one_slab 0x20038 = 0x41" "rd32 one_slab 0x2003c = 6" "rd32 one_slab 0x20088 = 0x36" "rd32 one_slab 0x2008c = 5"
  "rd64 one_slab 0x30090 = 0x20000" "rd64 one_slab 0x30098 = 0x20200" "rd32 one_slab 0x30148 = 1"
  "rd32 one_slab 0x30140 = 0"
  by (simp_all add: one_slab_def mem_simps rd_zero rd64_wr32 rd32_wr64 apart_def)

definition slab_arena :: arena where
  "slab_arena = \<lparr>ar_ready = True, ar_base = 0x10000, ar_wm = 0, ar_wm_peak = 0, ar_committed = (\<lambda>_. True),
     ar_committed_n = 0, ar_resv = [], ar_free = [], ar_mem = (\<lambda>_. 0), ar_donated = []\<rparr>"

lemma slab_rd: "blk_canon p \<Longrightarrow> p < 0x40000 \<Longrightarrow> 0 < n \<Longrightarrow> n < 0x1000 \<Longrightarrow> rd_blk slab_arena os p n"
  by (auto simp: rd_blk_def blk_canon_def is_arena_addr_def is_committed_addr_def slab_arena_def ARENA_SIZE_def)

lemma slab_tiles: "slabs one_slab 1 0x20000 0x20200 [(0x20000, [0x20050])]"
  "slabs_readable slab_arena os [(0x20000, [0x20050])]" "collected one_slab 1 (0x20000, [0x20050]) = [0x20050]"
  by (simp_all add: pblk_total_def pblk_kind_def pblk_class_def pblk_free_def wants_sub_def slab_reads
      slabs_readable_def slab_rd blk_canon_def)

theorem sweep_is_enumeration_witness:
  "sweep_range slab_arena (\<lambda>_ _. False) one_slab 0x20000 0x20200 1 [] = Some [0x20050]"
  using slab_tiles(1) slab_tiles(2) [of "\<lambda>_ _. False"] slab_tiles(3)
  by (subst sweep_is_enumeration) (auto simp: blk_canon_def REBUILD_MAX_def intro!: exI [of _ "[(0x20000, [0x20050])]"]
      simp del: slabs.simps collected.simps)

section \<open>The rebuild\<close>

abbreviation clear :: "nat \<Rightarrow> nat \<Rightarrow> bool" where
  "clear b c \<equiv> b + 16 \<le> c \<or> c + 16 \<le> b"

lemma tiling_blocks:
  assumes "tiling m b e xs"
  shows "(\<forall>x \<in> set xs. b \<le> x \<and> x + 16 \<le> e) \<and> sorted_wrt clear xs"
  using assms
proof (induction xs arbitrary: b)
  case (Cons x xs)
  have "16 \<le> pblk_total m b" using Cons.prems by (auto simp: pblk_total_def)
  moreover have "\<forall>y \<in> set xs. b + pblk_total m b \<le> y \<and> y + 16 \<le> e" "sorted_wrt clear xs"
    using Cons.IH [of "b + pblk_total m b"] Cons.prems by auto
  ultimately show ?case using Cons.prems by fastforce
qed simp

lemma slabs_blocks:
  assumes "slabs m cls b e xs"
  shows "(\<forall>x \<in> set (concat (map (collected m cls) xs)). b \<le> x \<and> x + 16 \<le> e)
    \<and> sorted_wrt clear (concat (map (collected m cls) xs))"
  using assms
proof (induction xs arbitrary: b)
  case (Cons p xs)
  obtain x ys where p: "p = (x, ys)" by (cases p)
  let ?nb = "b + pblk_total m b"
  have nb: "b + 16 \<le> ?nb" "?nb \<le> e" using Cons.prems by (auto simp: p pblk_total_def)
  have rest: "\<forall>y \<in> set (concat (map (collected m cls) xs)). ?nb \<le> y \<and> y + 16 \<le> e"
    "sorted_wrt clear (concat (map (collected m cls) xs))" using Cons.IH [of ?nb] Cons.prems by (auto simp: p)
  have "(\<forall>y \<in> set (collected m cls (x, ys)). b \<le> y \<and> y + 16 \<le> ?nb) \<and> sorted_wrt clear (collected m cls (x, ys))"
    using Cons.prems tiling_blocks [of m "b + 0x50" ?nb ys] nb(1)
    by (auto simp: p sorted_wrt_filter split: if_splits)
  with rest nb(2) show ?case by (fastforce simp: p sorted_wrt_append simp del: collected.simps)
qed simp

lemma collected_subset:
  "slabs_readable ar os xs \<Longrightarrow> y \<in> set (concat (map (collected m cls) xs)) \<Longrightarrow> rd_blk ar os y 0x40"
  by (fastforce simp: slabs_readable_def split: if_splits)

lemma sweep_range_blocks:
  assumes "sweep_range ar os m lo hi cls acc = Some r" "hi < 2 ^ 64" "length acc \<le> REBUILD_MAX"
  shows "\<exists>new. r = acc @ new \<and> length r \<le> REBUILD_MAX \<and> sorted_wrt clear new
    \<and> (\<forall>b \<in> set new. lo \<le> b \<and> b + 16 \<le> hi \<and> rd_blk ar os b 0x40)"
proof -
  have "sweep_top ar os m cls hi lo acc = Some r" using assms(1) by (auto simp: sweep_range_def split: if_splits)
  then obtain xs where xs: "slabs m cls lo hi xs" "slabs_readable ar os xs"
    "r = acc @ concat (map (collected m cls) xs)" "length r \<le> REBUILD_MAX"
    using sweep_top_iff [OF assms(2,3)] by blast
  then show ?thesis using slabs_blocks [OF xs(1)] collected_subset [OF xs(2)] by blast
qed

text \<open>The ranges of one allocator: inside the arena and disjoint.\<close>

definition ranges_ok :: "arena \<Rightarrow> (nat \<times> nat) list \<Rightarrow> bool" where
  "ranges_ok ar rs \<longleftrightarrow> list_all (\<lambda>(l, h). ar_base ar \<le> l \<and> h \<le> ar_base ar + ARENA_SIZE) rs
     \<and> sorted_wrt (\<lambda>(l, h) (l', h'). h \<le> l' \<or> h' \<le> l) rs"

lemma sweep_all_blocks:
  assumes "sweep_all ar os m cls rs acc = Some r" "ranges_ok ar rs" "ar_base ar + ARENA_SIZE < 2 ^ 64"
    "length acc \<le> REBUILD_MAX"
  shows "\<exists>new. r = acc @ new \<and> length r \<le> REBUILD_MAX \<and> sorted_wrt clear new
    \<and> (\<forall>b \<in> set new. \<exists>(l, h) \<in> set rs. l \<le> b \<and> b + 16 \<le> h \<and> rd_blk ar os b 0x40)"
  using assms(1,2,4)
proof (induction rs arbitrary: acc)
  case (Cons p rs)
  obtain l h where p: "p = (l, h)" by (cases p)
  have h: "h < 2 ^ 64" "ranges_ok ar rs" using Cons.prems(2) assms(3) by (auto simp: p ranges_ok_def)
  obtain a where a: "sweep_range ar os m l h cls acc = Some a" "sweep_all ar os m cls rs a = Some r"
    using Cons.prems(1) by (auto simp: p split: option.splits)
  obtain n1 where n1: "a = acc @ n1" "length a \<le> REBUILD_MAX" "sorted_wrt clear n1"
    "\<forall>b \<in> set n1. l \<le> b \<and> b + 16 \<le> h \<and> rd_blk ar os b 0x40"
    using sweep_range_blocks [OF a(1) h(1) Cons.prems(3)] by blast
  obtain n2 where n2: "r = a @ n2" "length r \<le> REBUILD_MAX" "sorted_wrt clear n2"
    "\<forall>b \<in> set n2. \<exists>(l, h) \<in> set rs. l \<le> b \<and> b + 16 \<le> h \<and> rd_blk ar os b 0x40"
    using Cons.IH [OF a(2) h(2) n1(2)] by blast
  have "clear b c" if bc: "b \<in> set n1" "c \<in> set n2" for b c
  proof -
    obtain l' h' where lh: "(l', h') \<in> set rs" "l' \<le> c" "c + 16 \<le> h'" using n2(4) bc(2) by blast
    then have "h \<le> l' \<or> h' \<le> l" using Cons.prems(2) by (auto simp: p ranges_ok_def)
    then show ?thesis using lh n1(4) bc(1) by fastforce
  qed
  then have "sorted_wrt clear (n1 @ n2)" using n1(3) n2(3) by (simp add: sorted_wrt_append)
  moreover have "\<forall>b \<in> set (n1 @ n2). \<exists>(l, h) \<in> set (p # rs). l \<le> b \<and> b + 16 \<le> h \<and> rd_blk ar os b 0x40"
    using n1(4) n2(4) by (auto simp: p)
  ultimately show ?case using n1(1) n2(1,2) by (intro exI [of _ "n1 @ n2"]) simp
qed simp

lemma commit_chain_linked:
  assumes "sorted_wrt clear bs" "\<forall>b \<in> set bs. 0 < b \<and> b < 2 ^ 64" "prv < 2 ^ 64"
  shows "\<exists>m' ssum. commit_chain prv bs (m, s) = (m', ssum) \<and> path m' (if bs = [] then 0 else hd bs) bs \<and> backs m' prv bs
    \<and> (\<forall>x. (\<forall>b \<in> set bs. x < b + 0x18 \<or> b + 0x28 \<le> x) \<longrightarrow> m' x = m x)"
  using assms
proof (induction bs arbitrary: prv m s)
  case (Cons b bs)
  define nxt where "nxt = (case bs of [] \<Rightarrow> 0 | c # _ \<Rightarrow> c)"
  have nxt: "nxt = (if bs = [] then 0 else hd bs)" by (cases bs) (simp_all add: nxt_def)
  have nxt64: "nxt < 2 ^ 64" using Cons.prems(2) by (cases bs) (auto simp: nxt_def)
  define m2 where "m2 = wr64 (b + 0x20) nxt (wr64 (b + 0x18) prv m)"
  have out: "m2 x = m x" if "x < b + 0x18 \<or> b + 0x28 \<le> x" for x
  proof -
    have "x < b + 0x20 \<or> b + 0x20 + 8 \<le> x" "x < b + 0x18 \<or> b + 0x18 + 8 \<le> x" using that by auto
    then show ?thesis by (simp only: m2_def c64.wr_outside)
  qed
  have own: "rd64 m2 (b + 0x18) = prv" "rd64 m2 (b + 0x20) = nxt"
    using Cons.prems(3) nxt64 by (simp_all add: m2_def mem_simps apart_def)
  obtain m' ssum where I: "commit_chain b bs (m2, (s + rd32 m2 (b + 0x38) div 2) mod 2 ^ 64) = (m', ssum)"
    "path m' (if bs = [] then 0 else hd bs) bs" "backs m' b bs"
    "\<forall>x. (\<forall>b \<in> set bs. x < b + 0x18 \<or> b + 0x28 \<le> x) \<longrightarrow> m' x = m2 x"
    using Cons.IH [of b m2 "(s + rd32 m2 (b + 0x38) div 2) mod 2 ^ 64"] Cons.prems(1,2) by auto
  have same: "m' x = m2 x" if "b + 0x18 \<le> x" "x < b + 0x28" for x
  proof -
    have "x < c + 0x18 \<or> c + 0x28 \<le> x" if "c \<in> set bs" for c
    proof -
      have "clear b c" using Cons.prems(1) that by simp
      then show ?thesis using \<open>b + 0x18 \<le> x\<close> \<open>x < b + 0x28\<close> by linarith
    qed
    then show ?thesis using I(4) by blast
  qed
  have "rd64 m' (b + 0x18) = prv" "rd64 m' (b + 0x20) = nxt"
    using rd64_same [of "b + 0x18" m' m2] rd64_same [of "b + 0x20" m' m2] same own by simp_all
  then have "path m' b (b # bs)" "backs m' prv (b # bs)" using I(2,3) Cons.prems(2) by (simp_all add: nxt)
  moreover have "m' x = m x" if "\<forall>c \<in> set (b # bs). x < c + 0x18 \<or> c + 0x28 \<le> x" for x
    using I(4) out [of x] that by simp
  moreover have "commit_chain prv (b # bs) (m, s) = (m', ssum)"
    using I(1) by (simp add: m2_def nxt_def Let_def)
  ultimately show ?case by (intro exI conjI) auto
qed simp

lemma committed_between:
  assumes "is_committed_addr ar a" "is_committed_addr ar (a + n)" "a \<le> x" "x \<le> a + n" "n < PAGE_SIZE"
  shows "is_committed_addr ar x \<and> is_arena_addr ar x"
proof -
  have r: "ar_base ar \<le> a" "a + n < ar_base ar + ARENA_SIZE" using assms(1,2) by (auto simp: is_committed_addr_def split: if_splits)
  have "(a - ar_base ar) div PAGE_SIZE \<le> (x - ar_base ar) div PAGE_SIZE" using assms(3) by (intro div_le_mono) simp
  moreover have "(x - ar_base ar) div PAGE_SIZE \<le> (a + n - ar_base ar) div PAGE_SIZE" using assms(4) by (intro div_le_mono) simp
  moreover have "(a + n - ar_base ar) div PAGE_SIZE \<le> (a - ar_base ar) div PAGE_SIZE + 1"
  proof -
    have "a + n - ar_base ar \<le> (a - ar_base ar) + PAGE_SIZE" using assms(5) r(1) by simp
    from div_le_mono [OF this, of PAGE_SIZE] show ?thesis by (simp add: PAGE_SIZE_def)
  qed
  ultimately have "(x - ar_base ar) div PAGE_SIZE = (a - ar_base ar) div PAGE_SIZE
    \<or> (x - ar_base ar) div PAGE_SIZE = (a + n - ar_base ar) div PAGE_SIZE" by linarith
  then show ?thesis using assms r by (auto simp: is_committed_addr_def is_arena_addr_def split: if_splits)
qed

lemma block_readable:
  assumes "rd_blk ar os b 0x40" "is_arena_addr ar b"
  shows "readable ar os' (b + 0x18) 8 \<and> readable ar os' (b + 0x20) 8 \<and> 0x10000 \<le> b"
proof -
  have c: "is_committed_addr ar b" "is_committed_addr ar (b + 0x3f)" "0x10000 \<le> b"
    using assms by (auto simp: rd_blk_def blk_canon_def add.commute split: if_splits)
  have "is_committed_addr ar x \<and> is_arena_addr ar x" if "b \<le> x" "x \<le> b + 0x3f" for x
    using committed_between [OF c(1,2) that] by (simp add: PAGE_SIZE_def)
  then show ?thesis using c(3) by (simp add: readable_def)
qed

definition desc_writes :: "nat \<Rightarrow> nat \<Rightarrow> nat \<Rightarrow> nat \<Rightarrow> nat \<Rightarrow> gmem \<Rightarrow> gmem" where
  "desc_writes mgr h l n ssum m =
     wr32 (mgr + 0x6c) ssum (wr32 (mgr + 0x68) n (wr64 (mgr + 0x60) l (wr64 (mgr + 0x58) h m)))"

lemma desc_writes_facts:
  assumes "h < 2 ^ 64" "n < 2 ^ 32"
  shows "rd64 (desc_writes mgr h l n ssum m) (mgr + 0x58) = h" "rd32 (desc_writes mgr h l n ssum m) (mgr + 0x68) = n"
    "\<not> (mgr + 0x58 \<le> x \<and> x < mgr + 0x70) \<Longrightarrow> desc_writes mgr h l n ssum m x = m x"
proof -
  show "rd64 (desc_writes mgr h l n ssum m) (mgr + 0x58) = h" "rd32 (desc_writes mgr h l n ssum m) (mgr + 0x68) = n"
    using assms by (simp_all add: desc_writes_def mem_simps rd64_wr32 rd32_wr64 apart_def)
  assume "\<not> (mgr + 0x58 \<le> x \<and> x < mgr + 0x70)"
  then have "x < mgr + 0x6c \<or> mgr + 0x6c + 4 \<le> x" "x < mgr + 0x68 \<or> mgr + 0x68 + 4 \<le> x"
    "x < mgr + 0x60 \<or> mgr + 0x60 + 8 \<le> x" "x < mgr + 0x58 \<or> mgr + 0x58 + 8 \<le> x" by auto
  then show "desc_writes mgr h l n ssum m x = m x"
    by (simp only: desc_writes_def c32.wr_outside c64.wr_outside)
qed

lemma rebuild_result:
  assumes "rebuild_free_list_from_pool ar os ctrl k m = (m', Some n)" "mgr = ctrl + 0xd8 + k * 0xa8"
  shows "\<exists>bs m1 ssum. sweep_all ar os m (rd32 m (mgr + 0x70))
      ((rd64 m (ctrl + 0x90), rd64 m (ctrl + 0x98)) # donated_ranges ar ctrl) [] = Some bs
    \<and> commit_chain 0 bs (m, 0) = (m1, ssum) \<and> n = length bs
    \<and> m' = desc_writes mgr (if bs = [] then 0 else hd bs) (if bs = [] then 0 else last bs) (length bs) ssum m1"
  using assms(1) unfolding rebuild_free_list_from_pool_def Let_def assms(2) [symmetric]
  by (auto simp: desc_writes_def split: if_splits option.splits prod.splits)

text \<open>A committed rebuild: the chain is the swept blocks, linked both ways, with their number.\<close>

lemma rebuild_chain:
  assumes "rebuild_free_list_from_pool ar os ctrl k m = (m', Some n)" "mgr = ctrl + 0xd8 + k * 0xa8"
    "rs = (rd64 m (ctrl + 0x90), rd64 m (ctrl + 0x98)) # donated_ranges ar ctrl"
    "ranges_ok ar rs" "ar_base ar + ARENA_SIZE \<le> 0x7FFFFFFFFFFF" "\<forall>(l, h) \<in> set rs. desc_apart mgr l h"
  shows "\<exists>bs. sweep_all ar os m (rd32 m (mgr + 0x70)) rs [] = Some bs \<and> n = length bs \<and> n \<le> REBUILD_MAX
    \<and> path m' (rd64 m' (mgr + 0x58)) bs \<and> backs m' 0 bs \<and> rd32 m' (mgr + 0x68) = n
    \<and> (\<forall>b \<in> set bs. inv_canon b \<and> (\<forall>os'. readable ar os' (b + 0x18) 8 \<and> readable ar os' (b + 0x20) 8)
        \<and> (\<exists>(l, h) \<in> set rs. l \<le> b \<and> b + 16 \<le> h))"
proof -
  obtain bs m1 ssum where B: "sweep_all ar os m (rd32 m (mgr + 0x70)) rs [] = Some bs"
    "commit_chain 0 bs (m, 0) = (m1, ssum)" "n = length bs"
    "m' = desc_writes mgr (if bs = [] then 0 else hd bs) (if bs = [] then 0 else last bs) (length bs) ssum m1"
    using rebuild_result [OF assms(1,2)] assms(3) by blast
  have "length [] \<le> REBUILD_MAX" "ar_base ar + ARENA_SIZE < 2 ^ 64" using assms(5) by simp_all
  from sweep_all_blocks [OF B(1) assms(4) this(2,1)] have S: "length bs \<le> REBUILD_MAX" "sorted_wrt clear bs"
    "\<forall>b \<in> set bs. \<exists>(l, h) \<in> set rs. l \<le> b \<and> b + 16 \<le> h \<and> rd_blk ar os b 0x40" by auto
  have blk: "inv_canon b \<and> (\<forall>os'. readable ar os' (b + 0x18) 8 \<and> readable ar os' (b + 0x20) 8)
      \<and> (mgr + 0x70 \<le> b + 0x18 \<or> b + 0x28 \<le> mgr + 0x58) \<and> b < 2 ^ 64" if b: "b \<in> set bs" for b
  proof -
    obtain l h where lh: "(l, h) \<in> set rs" "l \<le> b" "b + 16 \<le> h" "rd_blk ar os b 0x40" using S(3) b by blast
    have "ar_base ar \<le> l" "h \<le> ar_base ar + ARENA_SIZE" using assms(4) lh(1) by (auto simp: ranges_ok_def list_all_iff)
    then have "is_arena_addr ar b" "b < 0x7FFFFFFFFFFF" using lh(2,3) assms(5) by (auto simp: is_arena_addr_def)
    moreover have "desc_apart mgr l h" using assms(6) lh(1) by blast
    ultimately show ?thesis using block_readable [OF lh(4)] lh(2,3) by (auto simp: inv_canon_def desc_apart_def)
  qed
  have "\<forall>b \<in> set bs. 0 < b \<and> b < 2 ^ 64" using blk by (fastforce simp: inv_canon_def)
  from commit_chain_linked [OF S(2) this, of 0 m 0] B(2) have C: "path m1 (if bs = [] then 0 else hd bs) bs" "backs m1 0 bs"
    by auto
  have hd64: "(if bs = [] then 0 else hd bs) < 2 ^ 64" and len: "length bs < 2 ^ 32"
    using blk [of "hd bs"] S(1) by (auto simp: REBUILD_MAX_def)
  note D = desc_writes_facts [OF hd64 len, where mgr = mgr and l = "if bs = [] then 0 else last bs" and ssum = ssum and m = m1,
      folded B(4)]
  have keep: "rd64 m' (b + 0x20) = rd64 m1 (b + 0x20)" "rd64 m' (b + 0x18) = rd64 m1 (b + 0x18)" if "b \<in> set bs" for b
    using blk [OF that] by (intro rd64_same D(3); force)+
  have "path m' (rd64 m' (mgr + 0x58)) bs" "backs m' 0 bs"
    using C path_cong [of bs m' m1] backs_cong [of bs m' m1] keep D(1) by simp_all
  then show ?thesis using B(1,3) D(2) S(1,3) blk by (intro exI [of _ bs]) blast
qed

text \<open>C11. The rebuild rebuilds: whenever it commits, the class's free list passes the check, and it
  lists, in order, exactly the blocks the sweep of the allocator's pools collected, however the
  old links looked; the descriptor has their number.\<close>

theorem rebuilt_list_passes:
  assumes "rebuild_free_list_from_pool ar os ctrl k m = (m', Some n)" "mgr = ctrl + 0xd8 + k * 0xa8"
    "rs = (rd64 m (ctrl + 0x90), rd64 m (ctrl + 0x98)) # donated_ranges ar ctrl"
    "ranges_ok ar rs" "ar_base ar + ARENA_SIZE \<le> 0x7FFFFFFFFFFF" "\<forall>(l, h) \<in> set rs. desc_apart mgr l h"
    "readable ar os' (mgr + 0x58) 8" "readable ar os' (mgr + 0x68) 4"
  shows "check_list (readable ar os') (\<lambda>x. in_owned_pool pool ctrl x ar) m' mgr 0x58 0x68
      (rd64 m (ctrl + 0x90)) (rd64 m (ctrl + 0x98)) = Pass
    \<and> rd32 m' (mgr + 0x68) = n
    \<and> (\<exists>bs. sweep_all ar os m (rd32 m (mgr + 0x70)) rs [] = Some bs \<and> length bs = n
        \<and> path m' (rd64 m' (mgr + 0x58)) bs)"
proof -
  obtain bs where B: "sweep_all ar os m (rd32 m (mgr + 0x70)) rs [] = Some bs" "n = length bs" "n \<le> REBUILD_MAX"
    and P: "path m' (rd64 m' (mgr + 0x58)) bs" "backs m' 0 bs" "rd32 m' (mgr + 0x68) = n"
    and blk: "\<forall>b \<in> set bs. inv_canon b \<and> (\<forall>os'. readable ar os' (b + 0x18) 8 \<and> readable ar os' (b + 0x20) 8)
        \<and> (\<exists>(l, h) \<in> set rs. l \<le> b \<and> b + 16 \<le> h)"
    using rebuild_chain [OF assms(1-6)] by blast
  have ok: "\<forall>b \<in> set bs. node_in_pool (\<lambda>x. in_owned_pool pool ctrl x ar) (rd64 m (ctrl + 0x90)) (rd64 m (ctrl + 0x98)) b
      \<and> readable ar os' (b + 0x18) 8 \<and> readable ar os' (b + 0x20) 8"
  proof
    fix b assume b: "b \<in> set bs"
    then obtain l h where lh: "(l, h) \<in> set rs" "l \<le> b" "b + 16 \<le> h" using blk by blast
    have rd: "inv_canon b" "readable ar os' (b + 0x18) 8" "readable ar os' (b + 0x20) 8" using blk b by blast+
    from lh have "(l, h) = (rd64 m (ctrl + 0x90), rd64 m (ctrl + 0x98)) \<or> in_owned_pool pool ctrl b ar"
      using assms(3) by (fastforce simp: donated_ranges_def in_owned_pool_def list_ex_iff)
    then show "node_in_pool (\<lambda>x. in_owned_pool pool ctrl x ar) (rd64 m (ctrl + 0x90)) (rd64 m (ctrl + 0x98)) b
      \<and> readable ar os' (b + 0x18) 8 \<and> readable ar os' (b + 0x20) 8"
      using rd lh by (auto simp: node_in_pool_def)
  qed
  have "rd32 m' (mgr + 0x68) = length bs" "length bs + 2 < 2 ^ 32" using P(3) B by (simp_all add: REBUILD_MAX_def)
  from check_list_pass [OF P(1,2) this ok assms(7,8)] show ?thesis
    using P(1,3) B(1,2) by (intro conjI exI [of _ bs]) simp_all
qed

theorem rebuilt_list_passes_witness:
  "\<exists>m'. rebuild_free_list_from_pool slab_arena (\<lambda>_ _. False) 0x30000 0 one_slab = (m', Some 1)
     \<and> rd32 m' 0x30140 = 1
     \<and> check_list (readable slab_arena (\<lambda>_ _. False)) (\<lambda>x. in_owned_pool (\<lambda>_. (0, 0)) 0x30000 x slab_arena) m'
         0x300d8 0x58 0x68 0x20000 0x20200 = Pass"
proof -
  have d: "donated_ranges slab_arena 0x30000 = []" by (simp add: donated_ranges_def slab_arena_def)
  have "sweep_range slab_arena (\<lambda>_ _. False) one_slab 0x20000 0x20200 1 [] = Some [0x20050]"
    using sweep_top_iff [of "0x20200" "[]" slab_arena "\<lambda>_ _. False" one_slab 1 "0x20000" "[0x20050]"]
      slab_tiles(1) slab_tiles(2) [of "\<lambda>_ _. False"] slab_tiles(3)
    by (auto simp: sweep_range_def blk_canon_def REBUILD_MAX_def intro!: exI [of _ "[(0x20000, [0x20050])]"]
        simp del: slabs.simps collected.simps)
  then obtain m' where r: "rebuild_free_list_from_pool slab_arena (\<lambda>_ _. False) 0x30000 0 one_slab = (m', Some 1)"
    by (simp add: rebuild_free_list_from_pool_def slab_reads d slab_rd blk_canon_def Let_def split_def)
  have rd: "readable slab_arena (\<lambda>_ _. False) p n" if "0x10000 \<le> p" "p < 0x40000" "0 < n" "n < 0x100" for p n
    using that by (auto simp: readable_def is_arena_addr_def is_committed_addr_def slab_arena_def ARENA_SIZE_def)
  have "ranges_ok slab_arena [(0x20000, 0x20200)]" "ar_base slab_arena + ARENA_SIZE \<le> 0x7FFFFFFFFFFF"
    by (simp_all add: ranges_ok_def slab_arena_def ARENA_SIZE_def)
  with rebuilt_list_passes [OF r refl refl, where os' = "\<lambda>_ _. False" and pool = "\<lambda>_. (0, 0)"] r show ?thesis
    by (simp add: slab_reads d rd desc_apart_def)
qed

end
