(* ===== verification/Frame_Rings.thy ===== *)
theory Frame_Rings
  imports Game_Memory
begin

text \<open>
  The ten-slot rings that \<open>src/src/resim.cpp\<close> keeps beside the page ring: the whole .data section
  of the game with the operating-system fields that survive a restore, and the offset of the heap
  zone. A restore takes the newest slot that is not later than its target.
\<close>

definition DATA_RING_SLOTS :: nat where "DATA_RING_SLOTS = 10"

text \<open>The scan for the newest admissible slot; among equals the first one wins.\<close>

definition newer_slot :: "(int \<Rightarrow> bool) \<Rightarrow> int carray \<Rightarrow> nat \<Rightarrow> nat option \<Rightarrow> nat option" where
  "newer_slot ok fr s best =
     (if \<not> ok (fr s) then best
      else case best of None \<Rightarrow> Some s | Some b \<Rightarrow> if fr b < fr s then Some s else best)"

definition best_slot :: "(int \<Rightarrow> bool) \<Rightarrow> int carray \<Rightarrow> nat option" where
  "best_slot ok fr = fold (newer_slot ok fr) [0..<DATA_RING_SLOTS] None"

section \<open>The .data section\<close>

text \<open>Fields the C runtime and the operating system own: offset from the image base, size.\<close>

definition PRESERVE_LIST :: "(nat \<times> nat) list" where
  "PRESERVE_LIST =
    [(0xD41D40, 16), (0xD420DC, 4), (0xD420E0, 8), (0xD4215C, 4), (0xD42160, 4), (0xD42378, 8),
     (0xD42970, 8), (0xD42DE0, 24), (0xD437A8, 8), (0xD766F8, 40), (0xE16AB4, 4), (0xE16E80, 40),
     (0xE21308, 8), (0xE2131C, 4), (0xE21320, 8), (0xE21330, 8), (0xE21338, 8), (0xE21370, 4),
     (0xE21BD0, 8), (0xE21F60, 40), (0xE21FB0, 8), (0xE21FB8, 4), (0xE22070, 0x198), (0xE22600, 40),
     (0xE22F20, 0xF8), (0xE24028, 16), (0xE1C5F0, 8)]"

record data_ring =
  dr_start :: nat
  dr_size :: nat
  dr_frames :: "int carray"
  dr_bytes :: "u8 list carray"
  dr_head :: nat
  dr_hz_frames :: "int carray"
  dr_hz :: "int carray"
  dr_hz_head :: nat

definition init_data_ring :: "data_ring \<Rightarrow> data_ring" where
  "init_data_ring st =
     st\<lparr>dr_bytes := (\<lambda>i. if i < DATA_RING_SLOTS then replicate (dr_size st) 0 else dr_bytes st i),
        dr_frames := (\<lambda>i. if i < DATA_RING_SLOTS then -1 else dr_frames st i),
        dr_hz_frames := (\<lambda>i. if i < DATA_RING_SLOTS then -1 else dr_hz_frames st i)\<rparr>"

definition save_data :: "int \<Rightarrow> gmem \<Rightarrow> data_ring \<Rightarrow> data_ring" where
  "save_data frame m st =
     (if dr_start st = 0 then st
      else let slot = dr_head st in
        st\<lparr>dr_frames := (dr_frames st)(slot := frame),
           dr_bytes := (dr_bytes st)(slot := peek_bytes (dr_start st) (dr_size st) m),
           dr_head := (slot + 1) mod DATA_RING_SLOTS\<rparr>)"

text \<open>The live bytes of the preserved fields, in list order, and their way back.\<close>

definition read_preserved :: "nat \<Rightarrow> gmem \<Rightarrow> u8 list list" where
  "read_preserved base m = map (\<lambda>(off, sz). peek_bytes (base + off) sz m) PRESERVE_LIST"

definition write_preserved :: "nat \<Rightarrow> u8 list list \<Rightarrow> gmem \<Rightarrow> gmem" where
  "write_preserved base bufs m =
     fold (\<lambda>((off, sz), bs). poke_bytes (base + off) bs) (zip PRESERVE_LIST bufs) m"

definition restore_data :: "nat \<Rightarrow> int \<Rightarrow> data_ring \<Rightarrow> gmem \<Rightarrow> gmem" where
  "restore_data base target st m =
     (if dr_start st = 0 then m
      else case best_slot (\<lambda>f. 0 \<le> f \<and> f \<le> target) (dr_frames st) of
        None \<Rightarrow> m
      | Some s \<Rightarrow>
          write_preserved base (read_preserved base m) (poke_bytes (dr_start st) (dr_bytes st s) m))"

section \<open>The heap zone's offset\<close>

definition save_heap_zone :: "int \<Rightarrow> int \<Rightarrow> data_ring \<Rightarrow> data_ring" where
  "save_heap_zone frame off st =
     (let slot = dr_hz_head st in
      st\<lparr>dr_hz_frames := (dr_hz_frames st)(slot := frame), dr_hz := (dr_hz st)(slot := off),
         dr_hz_head := (slot + 1) mod DATA_RING_SLOTS\<rparr>)"

text \<open>The offset to go back to, when a slot fits; \<open>off\<close> is the present one.\<close>

definition restore_heap_zone :: "int \<Rightarrow> data_ring \<Rightarrow> int \<Rightarrow> int" where
  "restore_heap_zone target st off =
     (case best_slot (\<lambda>f. 0 \<le> f \<and> f \<le> target) (dr_hz_frames st) of None \<Rightarrow> off | Some s \<Rightarrow> dr_hz st s)"

section \<open>Facts\<close>

text \<open>The scan yields an admissible slot no other admissible slot is newer than, or none exists.\<close>

definition scanned :: "(int \<Rightarrow> bool) \<Rightarrow> int carray \<Rightarrow> nat set \<Rightarrow> nat option \<Rightarrow> bool" where
  "scanned ok fr S b =
     (case b of None \<Rightarrow> \<forall>s \<in> S. \<not> ok (fr s)
      | Some b \<Rightarrow> b \<in> S \<and> ok (fr b) \<and> (\<forall>s \<in> S. ok (fr s) \<longrightarrow> fr s \<le> fr b))"

lemma newer_slot_scanned: "scanned ok fr S b \<Longrightarrow> scanned ok fr (insert s S) (newer_slot ok fr s b)"
  by (cases b) (auto simp: scanned_def newer_slot_def)

lemma best_slot_scan: "scanned ok fr S b \<Longrightarrow> scanned ok fr (set xs \<union> S) (fold (newer_slot ok fr) xs b)"
proof (induction xs arbitrary: S b)
  case (Cons x xs)
  from Cons.IH [OF newer_slot_scanned [OF Cons.prems, of x]] show ?case by simp
qed simp

lemma best_slot_scanned: "scanned ok fr {..<DATA_RING_SLOTS} (best_slot ok fr)"
  using best_slot_scan [of ok fr "{}" None "[0..<DATA_RING_SLOTS]"]
  by (simp add: best_slot_def scanned_def atLeast0LessThan)

lemma best_slot_None: "best_slot ok fr = None \<longleftrightarrow> (\<forall>s < DATA_RING_SLOTS. \<not> ok (fr s))"
  using best_slot_scanned [of ok fr]
  by (cases "best_slot ok fr") (auto simp: scanned_def)

lemma best_slot_Some:
  "best_slot ok fr = Some b \<Longrightarrow>
     b < DATA_RING_SLOTS \<and> ok (fr b) \<and> (\<forall>s < DATA_RING_SLOTS. ok (fr s) \<longrightarrow> fr s \<le> fr b)"
  using best_slot_scanned [of ok fr] by (auto simp: scanned_def)

text \<open>With one slot for the target itself, that slot is the one taken.\<close>

lemma best_slot_exact:
  assumes "s < DATA_RING_SLOTS" "fr s = target" "ok target" "\<And>f. ok f \<Longrightarrow> f \<le> target"
    "\<And>s'. s' < DATA_RING_SLOTS \<Longrightarrow> fr s' = target \<Longrightarrow> s' = s"
  shows "best_slot ok fr = Some s"
proof (cases "best_slot ok fr")
  case None
  then show ?thesis using assms(1-3) by (auto simp: best_slot_None)
next
  case (Some b)
  from best_slot_Some [OF this] have b: "b < DATA_RING_SLOTS" "ok (fr b)" "fr s \<le> fr b"
    using assms(1-3) by auto
  then have "fr b = target" using assms(2,4) by (simp add: order_antisym)
  then show ?thesis using Some assms(5) b(1) by simp
qed

lemma peek_bytes_nth: "i < n \<Longrightarrow> peek_bytes a n m ! i = m (a + i)"
  by (simp add: peek_bytes_def)

text \<open>Writing back what was read from a memory puts that memory's bytes there.\<close>

lemma poke_peek: "poke_bytes a (peek_bytes a n m') m x = (if a \<le> x \<and> x < a + n then m' x else m x)"
  by (auto simp: poke_bytes_def length_peek peek_bytes_nth)

lemma poke_peeks:
  "fold (\<lambda>((off, sz), bs). poke_bytes (base + off) bs)
     (zip ps (map (\<lambda>(off, sz). peek_bytes (base + off) sz m') ps)) m x
   = (if list_ex (\<lambda>(off, sz). base + off \<le> x \<and> x < base + off + sz) ps then m' x else m x)"
  by (induction ps arbitrary: m) (auto simp: poke_peek split_def)

definition preserved :: "nat \<Rightarrow> nat \<Rightarrow> bool" where
  "preserved base x \<longleftrightarrow> list_ex (\<lambda>(off, sz). base + off \<le> x \<and> x < base + off + sz) PRESERVE_LIST"

lemma write_read_preserved:
  "write_preserved base (read_preserved base m') m x = (if preserved base x then m' x else m x)"
  by (simp add: write_preserved_def read_preserved_def poke_peeks preserved_def)

text \<open>The buffer the fields pass through is large enough.\<close>

lemma preserve_buf_fits: "sum_list (map length (read_preserved base m)) \<le> 2048"
  by (simp add: read_preserved_def PRESERVE_LIST_def length_peek)

text \<open>A run of saves, one per frame: frame \<open>f + i\<close> saves memory \<open>ms ! i\<close>.\<close>

fun save_frames :: "int \<Rightarrow> gmem list \<Rightarrow> data_ring \<Rightarrow> data_ring" where
  "save_frames f [] st = st"
| "save_frames f (m # ms) st = save_frames (f + 1) ms (save_data f m st)"

lemma save_data_proj:
  assumes "dr_start st \<noteq> 0"
  shows "dr_start (save_data f m st) = dr_start st" "dr_size (save_data f m st) = dr_size st"
    "dr_head (save_data f m st) = (dr_head st + 1) mod DATA_RING_SLOTS"
    "dr_frames (save_data f m st) = (dr_frames st)(dr_head st := f)"
    "dr_bytes (save_data f m st) = (dr_bytes st)(dr_head st := peek_bytes (dr_start st) (dr_size st) m)"
  using assms by (simp_all add: save_data_def Let_def)

lemma save_frames_proj:
  assumes "dr_start st \<noteq> 0"
  shows "dr_start (save_frames f ms st) = dr_start st \<and> dr_size (save_frames f ms st) = dr_size st"
  using assms by (induction ms arbitrary: f st) (auto simp: save_data_proj)

text \<open>Slots the run does not reach keep their frame and bytes.\<close>

lemma save_frames_far:
  assumes "dr_start st \<noteq> 0" "dr_head st < 10"
    "\<And>i. i < length ms \<Longrightarrow> (dr_head st + i) mod 10 \<noteq> s"
  shows "dr_frames (save_frames f ms st) s = dr_frames st s \<and> dr_bytes (save_frames f ms st) s = dr_bytes st s"
  using assms
proof (induction ms arbitrary: f st)
  case (Cons m ms)
  let ?s1 = "save_data f m st"
  have h: "dr_head st \<noteq> s" using Cons.prems(3) [of 0] Cons.prems(2) by simp
  have "(dr_head ?s1 + i) mod 10 \<noteq> s" if "i < length ms" for i
  proof -
    have "(dr_head ?s1 + i) mod 10 = (dr_head st + Suc i) mod 10"
      using Cons.prems(1) by (simp add: save_data_proj DATA_RING_SLOTS_def mod_simps)
    then show ?thesis using Cons.prems(3) [of "Suc i"] that by simp
  qed
  moreover have "dr_start ?s1 \<noteq> 0" "dr_head ?s1 < 10"
    using Cons.prems(1) by (simp_all add: save_data_proj DATA_RING_SLOTS_def)
  ultimately have "dr_frames (save_frames (f + 1) ms ?s1) s = dr_frames ?s1 s
      \<and> dr_bytes (save_frames (f + 1) ms ?s1) s = dr_bytes ?s1 s"
    using Cons.IH by blast
  then show ?case using Cons.prems(1) h by (simp add: save_data_proj)
qed simp

lemma save_frames_append:
  "save_frames f (xs @ ys) st = save_frames (f + int (length xs)) ys (save_frames f xs st)"
  by (induction xs arbitrary: f st) (simp_all add: add.assoc)

lemma save_frames_head:
  assumes "dr_start st \<noteq> 0" "dr_head st < 10"
  shows "dr_head (save_frames f ms st) = (dr_head st + length ms) mod 10"
  using assms
proof (induction ms arbitrary: f st)
  case (Cons m ms)
  have "dr_start (save_data f m st) \<noteq> 0" "dr_head (save_data f m st) < 10"
    using Cons.prems by (simp_all add: save_data_proj DATA_RING_SLOTS_def)
  from Cons.IH [OF this, of "f + 1"] show ?case
    using Cons.prems by (simp add: save_data_proj DATA_RING_SLOTS_def mod_simps)
qed simp

lemma ring10_apart:
  assumes "i < j" "j < i + 10"
  shows "(h + i) mod 10 \<noteq> (h + j :: nat) mod 10"
proof
  assume "(h + i) mod 10 = (h + j) mod 10"
  then have "10 dvd (h + j) - (h + i)" using assms(1) by (intro mod_eq_dvd_iff_nat [THEN iffD1]) auto
  then have "10 \<le> j - i" using assms(1) by (intro dvd_imp_le) auto
  with assms show False by simp
qed

text \<open>The slot a run of at most ten saves gives to its \<open>k\<close>-th frame.\<close>

lemma save_frames_at:
  assumes "dr_start st \<noteq> 0" "dr_head st < 10" "k < length ms" "length ms \<le> 10"
  shows "dr_frames (save_frames f ms st) ((dr_head st + k) mod 10) = f + int k
    \<and> dr_bytes (save_frames f ms st) ((dr_head st + k) mod 10) = peek_bytes (dr_start st) (dr_size st) (ms ! k)"
proof -
  define st1 where "st1 = save_frames f (take k ms) st"
  define st2 where "st2 = save_data (f + int k) (ms ! k) st1"
  have ms: "ms = take k ms @ ms ! k # drop (Suc k) ms" using assms(3) by (rule id_take_nth_drop)
  have run: "save_frames f ms st = save_frames (f + int k + 1) (drop (Suc k) ms) st2"
    using assms(3) by (subst ms, subst save_frames_append) (simp add: st1_def st2_def)
  have s1: "dr_start st1 = dr_start st" "dr_size st1 = dr_size st" "dr_head st1 = (dr_head st + k) mod 10"
    using save_frames_proj [OF assms(1), of f "take k ms"] save_frames_head [OF assms(1,2), of f "take k ms"] assms(3)
    by (simp_all add: st1_def)
  then have st1: "dr_start st1 \<noteq> 0" using assms(1) by simp
  have s2: "dr_start st2 = dr_start st" "dr_head st2 = (dr_head st + k + 1) mod 10"
    "dr_frames st2 ((dr_head st + k) mod 10) = f + int k"
    "dr_bytes st2 ((dr_head st + k) mod 10) = peek_bytes (dr_start st) (dr_size st) (ms ! k)"
    using s1 by (simp_all add: st2_def save_data_proj [OF st1] DATA_RING_SLOTS_def mod_simps)
  have far: "(dr_head st2 + i) mod 10 \<noteq> (dr_head st + k) mod 10" if "i < length (drop (Suc k) ms)" for i
  proof -
    have "i < 9" using that assms(4) by simp
    then have "(dr_head st + k) mod 10 \<noteq> (dr_head st + (k + 1 + i)) mod 10" by (intro ring10_apart) simp_all
    then show ?thesis using s2(2) by (simp add: mod_simps add.assoc)
  qed
  have h2: "dr_start st2 \<noteq> 0" "dr_head st2 < 10" using s2 assms(1) by simp_all
  have "dr_frames (save_frames (f + int k + 1) (drop (Suc k) ms) st2) ((dr_head st + k) mod 10)
        = dr_frames st2 ((dr_head st + k) mod 10)
      \<and> dr_bytes (save_frames (f + int k + 1) (drop (Suc k) ms) st2) ((dr_head st + k) mod 10)
        = dr_bytes st2 ((dr_head st + k) mod 10)"
    by (rule save_frames_far [OF h2]) (rule far)
  then show ?thesis using s2(3,4) by (simp add: run)
qed

text \<open>A rollback brings the game's own data back and leaves the machine's alone: after one save a
  frame, restoring to any of the last ten frames gives every byte of the section the value it had
  at that frame, gives the fields of the C runtime and the operating system the value they have
  now, and touches nothing outside.\<close>

theorem data_restored:
  assumes "dr_start st \<noteq> 0" "dr_head st < 10" "\<forall>s < 10. dr_frames st s < f" "0 \<le> f"
    "k < length ms" "length ms \<le> 10"
  shows "restore_data base (f + int k) (save_frames f ms st) m x =
    (if preserved base x then m x
     else if dr_start st \<le> x \<and> x < dr_start st + dr_size st then (ms ! k) x else m x)"
proof -
  let ?st = "save_frames f ms st"
  let ?s = "(dr_head st + k) mod 10"
  have at: "dr_frames ?st ?s = f + int k" "dr_bytes ?st ?s = peek_bytes (dr_start st) (dr_size st) (ms ! k)"
    using save_frames_at [OF assms(1,2,5,6)] by simp_all
  have unique: "s' = ?s" if s': "s' < DATA_RING_SLOTS" and fr: "dr_frames ?st s' = f + int k" for s'
  proof -
    obtain j where j: "j < 10" "(dr_head st + j) mod 10 = s'"
    proof
      show "(s' + 10 - dr_head st) mod 10 < 10" by simp
      show "(dr_head st + (s' + 10 - dr_head st) mod 10) mod 10 = s'"
        using s' assms(2) by (simp add: mod_simps DATA_RING_SLOTS_def)
    qed
    show ?thesis
    proof (cases "j < length ms")
      case True
      with save_frames_at [OF assms(1,2) _ assms(6)] j fr have "f + int j = f + int k" by force
      then show ?thesis using j by simp
    next
      case False
      have "(dr_head st + i) mod 10 \<noteq> s'" if "i < length ms" for i
      proof -
        have "i < j" "j < 10" using that False j(1) by simp_all
        then have "(dr_head st + i) mod 10 \<noteq> (dr_head st + j) mod 10" by (intro ring10_apart) simp_all
        then show ?thesis using j(2) by simp
      qed
      from save_frames_far [OF assms(1,2) this, where f = f] have "dr_frames ?st s' < f"
        using assms(3) s' by (simp add: DATA_RING_SLOTS_def)
      then show ?thesis using fr by simp
    qed
  qed
  have "best_slot (\<lambda>g. 0 \<le> g \<and> g \<le> f + int k) (dr_frames ?st) = Some ?s"
    by (rule best_slot_exact [where target = "f + int k"])
      (use at(1) unique assms(4) in \<open>simp_all add: DATA_RING_SLOTS_def\<close>)
  moreover have "dr_start ?st = dr_start st" using save_frames_proj [OF assms(1)] by simp
  ultimately show ?thesis using assms(1) at(2)
    by (simp add: restore_data_def write_read_preserved poke_peek)
qed

definition demo_ring :: data_ring where
  "demo_ring = init_data_ring \<lparr>dr_start = 0x140D40000, dr_size = 0x2000, dr_frames = (\<lambda>_. 0), dr_bytes = (\<lambda>_. []),
     dr_head = 9, dr_hz_frames = (\<lambda>_. 0), dr_hz = (\<lambda>_. 0), dr_hz_head = 0\<rparr>"

theorem data_restored_witness:
  "restore_data 0x140000000 5 (save_frames 4 [\<lambda>_. 1, \<lambda>_. 2, \<lambda>_. 3] demo_ring) (\<lambda>_. 9) 0x140D40010 = 2
   \<and> restore_data 0x140000000 5 (save_frames 4 [\<lambda>_. 1, \<lambda>_. 2, \<lambda>_. 3] demo_ring) (\<lambda>_. 9) 0x140D41D48 = 9"
proof -
  have d: "dr_start demo_ring = 0x140D40000" "dr_size demo_ring = 0x2000" "dr_head demo_ring = 9"
    "\<forall>s < 10. dr_frames demo_ring s < 4"
    by (simp_all add: demo_ring_def init_data_ring_def DATA_RING_SLOTS_def)
  have p: "\<not> preserved 0x140000000 0x140D40010" "preserved 0x140000000 0x140D41D48"
    by (simp_all add: preserved_def PRESERVE_LIST_def)
  show ?thesis
    using data_restored [of demo_ring 4 1 "[\<lambda>_. 1, \<lambda>_. 2, \<lambda>_. 3]" "0x140000000" "\<lambda>_. 9" "0x140D40010"]
      data_restored [of demo_ring 4 1 "[\<lambda>_. 1, \<lambda>_. 2, \<lambda>_. 3]" "0x140000000" "\<lambda>_. 9" "0x140D41D48"] d p
    by simp
qed

end
