(* ===== verification/Flist_Unit.thy ===== *)
theory Flist_Unit
  imports Frame_Rings Alloc_Lists Quarantine Snap_Ring
begin

text \<open>
  The allocator group of \<open>src/src/resim.cpp\<close>: the control objects of the engine's scalable
  allocators, saved per frame without their critical sections; the donation of fresh capacity to
  a reserve that runs low; and the free-list unit, which captures every listed node's links at the
  instant the descriptors are saved, rebuilding or healing what it finds torn, and replays them
  over a restored frame. Diagnostics and high-water marks are left out; the critical-section
  canary only reads.
\<close>

definition MAX_ALLOCS :: nat where "MAX_ALLOCS = 16"
definition ALLOC_RING_SLOTS :: nat where "ALLOC_RING_SLOTS = 10"
definition FLIST_MAX_NODES :: nat where "FLIST_MAX_NODES = 16384"
definition ALIST_MAX_NODES :: nat where "ALIST_MAX_NODES = 32768"
definition CTRL_SIZE :: nat where "CTRL_SIZE = 0x660"

text \<open>The critical sections inside a control object; the live-keeping table is the same.\<close>

definition CS_RANGES :: "(nat \<times> nat) list" where
  "CS_RANGES = [(0x060, 0x28), (0x158, 0x28), (0x200, 0x28), (0x2A8, 0x28), (0x350, 0x28),
     (0x3F8, 0x28), (0x4A0, 0x28), (0x548, 0x28), (0x5F0, 0x28), (0x620, 0x28)]"

record flnode =
  fn_addr :: nat
  fn_f8 :: nat
  fn_f18 :: nat
  fn_f20 :: nat
  fn_f28 :: nat
  fn_f30 :: nat
  fn_f38 :: nat
  fn_f3c :: nat

record units =
  un_found :: bool
  un_ctrls :: "nat list"
  un_unit :: nat
  un_frames :: "int carray"
  un_blobs :: "nat \<Rightarrow> u8 list carray"
  un_head :: nat
  un_cs :: "nat \<Rightarrow> u8 list carray"
  un_don :: "nat carray"
  un_don_total :: nat
  un_fl_frames :: "int carray"
  un_fl_nodes :: "flnode list carray"
  un_fl_valid :: "bool carray"
  un_al_nodes :: "flnode list carray"
  un_al_valid :: "bool carray"

definition units_init :: units where
  "units_init = \<lparr>un_found = False, un_ctrls = [], un_unit = 0, un_frames = (\<lambda>_. -1),
     un_blobs = (\<lambda>_ _. replicate CTRL_SIZE 0), un_head = 0, un_cs = (\<lambda>_ _. []), un_don = (\<lambda>_. 0),
     un_don_total = 0, un_fl_frames = (\<lambda>_. -1), un_fl_nodes = (\<lambda>_. []), un_fl_valid = (\<lambda>_. False),
     un_al_nodes = (\<lambda>_. []), un_al_valid = (\<lambda>_. False)\<rparr>"

section \<open>Discovery\<close>

text \<open>\<open>strcmp(name, "Unit") == 0\<close> on the name at \<open>+0x21\<close>.\<close>

definition named_unit :: "gmem \<Rightarrow> nat \<Rightarrow> bool" where
  "named_unit m a \<longleftrightarrow> peek_bytes (a + 0x21) 5 m = [85, 110, 105, 116, 0]"

definition discover_entry :: "nat \<Rightarrow> gmem \<Rightarrow> nat \<Rightarrow> nat list \<times> nat \<Rightarrow> nat list \<times> nat" where
  "discover_entry base m i ct =
     (let (ctrls, tgt) = ct; a = rd64 m (resolve base 0x140D760F0 + i * 8) in
      if MAX_ALLOCS \<le> length ctrls \<or> a = 0 \<or> rd64 m a \<noteq> resolve base 0x140B08620 then ct
      else (ctrls @ [a], if named_unit m a then a else tgt))"

definition discover_allocators :: "nat \<Rightarrow> gmem \<Rightarrow> units \<Rightarrow> units" where
  "discover_allocators base m un =
     (let (ctrls, tgt) = fold (discover_entry base m)
            [0..<min 64 (rd32 m (resolve base 0x140D760E0))] ([], un_unit un)
      in un\<lparr>un_ctrls := ctrls, un_unit := tgt, un_found := True\<rparr>)"

definition ensure_found :: "nat \<Rightarrow> gmem \<Rightarrow> units \<Rightarrow> units" where
  "ensure_found base m un = (if un_found un then un else discover_allocators base m un)"

section \<open>Donation\<close>

definition DSZ :: nat where "DSZ = 512 * 1024"
definition RESERVE_FLOOR :: nat where "RESERVE_FLOOR = 16 * 2 ^ 20"
definition DON_PER_CTRL :: nat where "DON_PER_CTRL = 128 * 2 ^ 20"
definition DON_TOTAL :: nat where "DON_TOTAL = 512 * 2 ^ 20"

text \<open>A region becomes the last free block of the reserve list at \<open>ctrl + 0xc0\<close>.\<close>

definition splice_region :: "nat \<Rightarrow> nat \<Rightarrow> gmem \<Rightarrow> gmem" where
  "splice_region ctrl region m =
     (let rcnt = rd32 m (ctrl + 0xd0); rbytes = rd32 m (ctrl + 0xd4) * 16;
          m2 = wr32 (region + 0x3c) 1 (wr32 (region + 0x38) (DSZ div 16 * 2) m);
          tail = rd64 m2 (ctrl + 0xc8);
          m3 = (if tail \<noteq> 0 then wr64 (tail + 0x20) region (wr64 (region + 0x18) tail m2)
                else wr64 (ctrl + 0xc0) region (wr64 (region + 0x18) 0 m2));
          m5 = wr64 (ctrl + 0xc8) region (wr64 (region + 0x20) 0 m3)
      in wr32 (ctrl + 0xd4) ((rbytes + DSZ) div 16) (wr32 (ctrl + 0xd0) (rcnt + 1) m5))"

text \<open>
  One top-up of allocator number \<open>i\<close>, and whether to go on. \<open>commit_ok\<close>: the system commits the
  carved pages.
\<close>

definition donate_step ::
  "bool \<Rightarrow> nat \<Rightarrow> nat \<Rightarrow> gmem \<times> arena \<times> units \<Rightarrow> (gmem \<times> arena \<times> units) \<times> bool" where
  "donate_step commit_ok i ctrl s =
     (let (m, ar, un) = s in
      if RESERVE_FLOOR \<le> rd32 m (ctrl + 0xd4) * 16 then (s, False)
      else if DON_PER_CTRL \<le> un_don un i \<or> DON_TOTAL \<le> un_don_total un then (s, False)
      else case carve_donation_region commit_ok DSZ ar of
        (ar1, None) \<Rightarrow> ((m, ar1, un), False)
      | (ar1, Some region) \<Rightarrow>
          ((splice_region ctrl region m, note_donated_region ctrl region DSZ ar1,
            un\<lparr>un_don := (un_don un)(i := un_don un i + DSZ), un_don_total := un_don_total un + DSZ\<rparr>), True))"

fun donate_ctrl :: "(nat \<Rightarrow> bool) \<Rightarrow> nat \<Rightarrow> nat \<Rightarrow> nat list \<Rightarrow> gmem \<times> arena \<times> units \<Rightarrow> gmem \<times> arena \<times> units" where
  "donate_ctrl commit_ok i ctrl [] s = s"
| "donate_ctrl commit_ok i ctrl (t # ts) s =
     (case donate_step (commit_ok t) i ctrl s of
        (s', True) \<Rightarrow> donate_ctrl commit_ok i ctrl ts s'
      | (s', False) \<Rightarrow> s')"

definition donate_all :: "(nat \<Rightarrow> nat \<Rightarrow> bool) \<Rightarrow> nat list \<Rightarrow> gmem \<times> arena \<times> units \<Rightarrow> gmem \<times> arena \<times> units" where
  "donate_all commit_ok ctrls s =
     fold (\<lambda>i. donate_ctrl (commit_ok i) i (ctrls ! i) [0..<4]) [0..<length ctrls] s"

section \<open>Walking the lists\<close>

datatype walk_fault = Cycle | Unreachable | Overflow | Violator

definition node_at :: "gmem \<Rightarrow> nat \<Rightarrow> flnode" where
  "node_at m n =
     \<lparr>fn_addr = n, fn_f8 = rd64 m (n + 0x8), fn_f18 = rd64 m (n + 0x18), fn_f20 = rd64 m (n + 0x20),
      fn_f28 = rd64 m (n + 0x28), fn_f30 = rd64 m (n + 0x30), fn_f38 = rd32 m (n + 0x38), fn_f3c = rd32 m (n + 0x3c)\<rparr>"

text \<open>Both walks: along \<open>link\<close>, at most \<open>lim\<close> steps past the first, \<open>n\<close> nodes stored already.\<close>

function unit_walk ::
  "arena \<Rightarrow> gmem \<Rightarrow> nat \<Rightarrow> nat \<Rightarrow> bool \<Rightarrow> nat \<Rightarrow> nat \<Rightarrow> nat \<Rightarrow> nat \<Rightarrow> walk_fault + flnode list" where
  "unit_walk ar m cap lim viol link node n walked =
     (if node = 0 then Inr []
      else if lim < walked then Inl Cycle
      else if node < 0x10000 \<or> \<not> is_committed_addr ar node \<or> \<not> is_committed_addr ar (node + 0x40) then Inl Unreachable
      else if cap \<le> n then Inl Overflow
      else if viol \<and> rd32 m (node + 0x38) mod 2 \<noteq> 0 then Inl Violator
      else map_sum id ((#) (node_at m node))
             (unit_walk ar m cap lim viol link (rd64 m (node + link)) (n + 1) (walked + 1)))"
  by pat_completeness auto
termination by (relation "measure (\<lambda>(ar, m, cap, lim, viol, link, node, n, walked). cap - n)") auto

declare unit_walk.simps [simp del]

definition flist_walk_list :: "arena \<Rightarrow> gmem \<Rightarrow> nat \<Rightarrow> nat \<Rightarrow> nat \<Rightarrow> bool \<Rightarrow> walk_fault + flnode list" where
  "flist_walk_list ar m head cnt n flag_violator =
     unit_walk ar m FLIST_MAX_NODES ((cnt + 2) mod 2 ^ 32) flag_violator 0x20 head n 0"

definition alist_walk_list :: "arena \<Rightarrow> gmem \<Rightarrow> nat \<Rightarrow> nat \<Rightarrow> nat \<Rightarrow> walk_fault + flnode list" where
  "alist_walk_list ar m head cnt n = unit_walk ar m ALIST_MAX_NODES ((cnt + 2) mod 2 ^ 32) False 0x18 head n 0"

section \<open>Capturing the unit\<close>

text \<open>The memory, the descriptors of the slot, and the nodes captured so far.\<close>

record capture_state =
  cp_mem :: gmem
  cp_blobs :: "u8 list carray"
  cp_nodes :: "flnode list"
  cp_anodes :: "flnode list"
  cp_abad :: bool

definition blob_of :: "gmem \<Rightarrow> nat \<Rightarrow> u8 list" where "blob_of m ctrl = peek_bytes ctrl CTRL_SIZE m"

definition size_sum :: "flnode list \<Rightarrow> nat" where
  "size_sum es = fold (\<lambda>e s. (s + fn_f38 e div 2) mod 2 ^ 32) es 0"

text \<open>A list that walked cleanly: its count and size sum are set right, the descriptor taken again.\<close>

definition heal_count :: "nat \<Rightarrow> nat \<Rightarrow> nat \<Rightarrow> flnode list \<Rightarrow> capture_state \<Rightarrow> capture_state" where
  "heal_count i ctrl mgr es st =
     (if length es = rd32 (cp_mem st) (mgr + 0x68) then st
      else let m' = wr32 (mgr + 0x6c) (size_sum es) (wr32 (mgr + 0x68) (length es) (cp_mem st))
           in st\<lparr>cp_mem := m', cp_blobs := (cp_blobs st)(i := blob_of m' ctrl)\<rparr>)"

text \<open>The in-use list of the same class, only for the allocator named "Unit".\<close>

definition capture_alist :: "arena \<Rightarrow> nat \<Rightarrow> nat \<Rightarrow> nat \<Rightarrow> capture_state \<Rightarrow> capture_state" where
  "capture_alist ar tgt ctrl mgr st =
     (if cp_abad st \<or> ctrl \<noteq> tgt then st
      else case alist_walk_list ar (cp_mem st) (rd64 (cp_mem st) (mgr + 0x48)) (rd32 (cp_mem st) (mgr + 0x50))
                  (length (cp_anodes st)) of
        Inl _ \<Rightarrow> st\<lparr>cp_abad := True\<rparr>
      | Inr es \<Rightarrow> st\<lparr>cp_anodes := cp_anodes st @ es\<rparr>)"

text \<open>A torn list is rebuilt from the pool and walked again; the flag says whether to go on.\<close>

definition capture_rebuilt ::
  "arena \<Rightarrow> (nat \<Rightarrow> nat \<Rightarrow> bool) \<Rightarrow> nat \<Rightarrow> nat \<Rightarrow> nat \<Rightarrow> nat \<Rightarrow> capture_state \<Rightarrow> capture_state \<times> bool" where
  "capture_rebuilt ar os i ctrl k mgr st =
     (case rebuild_free_list_from_pool ar os ctrl k (cp_mem st) of
        (_, None) \<Rightarrow> (st, False)
      | (m', Some _) \<Rightarrow>
          (case flist_walk_list ar m' (rd64 m' (mgr + 0x58)) (rd32 m' (mgr + 0x68)) (length (cp_nodes st)) True of
             Inl _ \<Rightarrow> (st\<lparr>cp_mem := m'\<rparr>, False)
           | Inr es \<Rightarrow> (st\<lparr>cp_mem := m', cp_nodes := cp_nodes st @ es,
                           cp_blobs := (cp_blobs st)(i := blob_of m' ctrl), cp_abad := True\<rparr>, True)))"

definition capture_class ::
  "arena \<Rightarrow> (nat \<Rightarrow> nat \<Rightarrow> bool) \<Rightarrow> nat \<Rightarrow> nat \<Rightarrow> nat \<Rightarrow> nat \<Rightarrow> capture_state \<Rightarrow> capture_state \<times> bool" where
  "capture_class ar os tgt i ctrl k st =
     (let m = cp_mem st; mgr = ctrl + 0xd8 + k * 0xa8 in
      case flist_walk_list ar m (rd64 m (mgr + 0x58)) (rd32 m (mgr + 0x68)) (length (cp_nodes st)) True of
        Inl Overflow \<Rightarrow> (st, False)
      | Inl _ \<Rightarrow> capture_rebuilt ar os i ctrl k mgr st
      | Inr es \<Rightarrow>
          (capture_alist ar tgt ctrl mgr (heal_count i ctrl mgr es (st\<lparr>cp_nodes := cp_nodes st @ es\<rparr>)), True))"

text \<open>A reserve list, whose nodes are not tested for being in use.\<close>

definition capture_reserve :: "arena \<Rightarrow> nat \<Rightarrow> capture_state \<Rightarrow> capture_state \<times> bool" where
  "capture_reserve ar ctrl st =
     (let m = cp_mem st in
      case flist_walk_list ar m (rd64 m (ctrl + 0xc0)) (rd32 m (ctrl + 0xd0)) (length (cp_nodes st)) False of
        Inl _ \<Rightarrow> (st, False)
      | Inr es \<Rightarrow> (st\<lparr>cp_nodes := cp_nodes st @ es\<rparr>, True))"

fun until_false :: "('a \<Rightarrow> 's \<Rightarrow> 's \<times> bool) \<Rightarrow> 'a list \<Rightarrow> 's \<Rightarrow> 's \<times> bool" where
  "until_false f [] s = (s, True)"
| "until_false f (x # xs) s = (case f x s of (s', True) \<Rightarrow> until_false f xs s' | (s', False) \<Rightarrow> (s', False))"

definition class_count :: "gmem \<Rightarrow> nat \<Rightarrow> nat" where
  "class_count m ctrl = (let n = rd32 m (ctrl + 0x648) in if n < 1 \<or> 8 < n then 8 else n)"

definition capture_ctrl ::
  "arena \<Rightarrow> (nat \<Rightarrow> nat \<Rightarrow> bool) \<Rightarrow> nat \<Rightarrow> nat list \<Rightarrow> nat \<Rightarrow> capture_state \<Rightarrow> capture_state \<times> bool" where
  "capture_ctrl ar os tgt ctrls i st =
     (let ctrl = ctrls ! i in
      case until_false (capture_class ar os tgt i ctrl) [0..<class_count (cp_mem st) ctrl] st of
        (st', True) \<Rightarrow> capture_reserve ar ctrl st'
      | (st', False) \<Rightarrow> (st', False))"

text \<open>\<open>held\<close>: every critical section of the allocators is ours; without that nothing is captured.\<close>

definition save_freelists ::
  "arena \<Rightarrow> (nat \<Rightarrow> nat \<Rightarrow> bool) \<Rightarrow> bool \<Rightarrow> int \<Rightarrow> nat \<Rightarrow> gmem \<times> units \<Rightarrow> gmem \<times> units" where
  "save_freelists ar os held frame slot mu =
     (let (m, un) = mu;
          un1 = un\<lparr>un_fl_frames := (un_fl_frames un)(slot := frame), un_fl_valid := (un_fl_valid un)(slot := False),
                   un_fl_nodes := (un_fl_nodes un)(slot := []), un_al_nodes := (un_al_nodes un)(slot := []),
                   un_al_valid := (un_al_valid un)(slot := False)\<rparr>
      in if \<not> held then (m, un1)
         else let (st, ok) = until_false (capture_ctrl ar os (un_unit un) (un_ctrls un)) [0..<length (un_ctrls un)]
                    \<lparr>cp_mem = m, cp_blobs = un_blobs un slot, cp_nodes = [], cp_anodes = [], cp_abad = False\<rparr>;
                  un2 = un1\<lparr>un_blobs := (un_blobs un)(slot := cp_blobs st)\<rparr>
              in (cp_mem st,
                  if \<not> ok then un2
                  else un2\<lparr>un_fl_nodes := (un_fl_nodes un2)(slot := cp_nodes st),
                           un_fl_valid := (un_fl_valid un2)(slot := True),
                           un_al_nodes := (un_al_nodes un2)(slot := cp_anodes st),
                           un_al_valid := (un_al_valid un2)(slot := (\<not> cp_abad st \<and> un_unit un \<noteq> 0))\<rparr>))"

definition save_blobs :: "nat \<Rightarrow> gmem \<Rightarrow> units \<Rightarrow> units" where
  "save_blobs slot m un =
     un\<lparr>un_blobs := (un_blobs un)(slot := (\<lambda>i. if i < length (un_ctrls un) then blob_of m (un_ctrls un ! i)
                                              else un_blobs un slot i))\<rparr>"

text \<open>
  One save of the allocators. \<open>revert\<close>: the page ring owns the control objects and nothing is saved
  here; \<open>owned\<close>: the arena serves the engine's heap.
\<close>

definition save_allocators ::
  "nat \<Rightarrow> (nat \<Rightarrow> nat \<Rightarrow> bool) \<Rightarrow> (nat \<Rightarrow> nat \<Rightarrow> bool) \<Rightarrow> bool \<Rightarrow> bool \<Rightarrow> bool \<Rightarrow> int
     \<Rightarrow> gmem \<times> arena \<times> units \<times> quar \<Rightarrow> gmem \<times> arena \<times> units \<times> quar" where
  "save_allocators base os commit_ok revert owned held frame s =
     (let (m, ar, un0, q) = s; un = ensure_found base m un0 in
      if revert then (m, ar, un, q)
      else
        let slot = un_head un;
            un1 = un\<lparr>un_frames := (un_frames un)(slot := frame)\<rparr>;
            (m2, ar2, un2) = (if held \<and> owned then donate_all commit_ok (un_ctrls un1) (m, ar, un1) else (m, ar, un1));
            (m3, un3) = save_freelists ar2 os held frame slot (m2, save_blobs slot m2 un2)
        in (m3, ar2, un3\<lparr>un_head := (slot + 1) mod ALLOC_RING_SLOTS\<rparr>, save_table frame (int slot) held q))"

definition flist_invalidate_frame :: "int \<Rightarrow> units \<Rightarrow> units" where
  "flist_invalidate_frame frame un =
     un\<lparr>un_fl_valid := (\<lambda>s. if s < ALLOC_RING_SLOTS \<and> un_fl_frames un s = frame then False else un_fl_valid un s)\<rparr>"

section \<open>Restoring the unit\<close>

text \<open>A descriptor goes back around its critical sections.\<close>

definition skip_cs :: "nat \<Rightarrow> u8 list \<Rightarrow> nat \<times> nat \<Rightarrow> nat \<times> gmem \<Rightarrow> nat \<times> gmem" where
  "skip_cs dst src r pm =
     (let (off, len) = r; (pos, m) = pm in
      (off + len, if pos < off then poke_bytes (dst + pos) (take (off - pos) (drop pos src)) m else m))"

definition restore_blob :: "nat \<Rightarrow> u8 list \<Rightarrow> gmem \<Rightarrow> gmem" where
  "restore_blob dst src m =
     (let (pos, m') = fold (skip_cs dst src) CS_RANGES (0, m) in
      if pos < CTRL_SIZE then poke_bytes (dst + pos) (take (CTRL_SIZE - pos) (drop pos src)) m' else m')"

definition restore_allocators :: "bool \<Rightarrow> int \<Rightarrow> units \<Rightarrow> gmem \<Rightarrow> gmem" where
  "restore_allocators revert target un m =
     (if revert then m
      else case best_slot (\<lambda>f. f \<le> target) (un_frames un) of
        None \<Rightarrow> m
      | Some s \<Rightarrow> fold (\<lambda>i. restore_blob (un_ctrls un ! i) (un_blobs un s i)) [0..<length (un_ctrls un)] m)"

definition cs_cells :: "units \<Rightarrow> (nat \<times> nat) list" where
  "cs_cells un = List.product [0..<length (un_ctrls un)] [0..<length CS_RANGES]"

definition cs_keeplive_snapshot :: "gmem \<Rightarrow> units \<Rightarrow> units" where
  "cs_keeplive_snapshot m un =
     un\<lparr>un_cs := (\<lambda>i c. if i < length (un_ctrls un) \<and> c < length CS_RANGES
                        then peek_bytes (un_ctrls un ! i + fst (CS_RANGES ! c)) (snd (CS_RANGES ! c)) m
                        else un_cs un i c)\<rparr>"

definition cs_keeplive_restore :: "units \<Rightarrow> gmem \<Rightarrow> gmem" where
  "cs_keeplive_restore un m =
     fold (\<lambda>(i, c). poke_bytes (un_ctrls un ! i + fst (CS_RANGES ! c)) (un_cs un i c)) (cs_cells un) m"

text \<open>One node's fields, unless its memory is no longer committed.\<close>

definition replay_node :: "arena \<Rightarrow> flnode \<Rightarrow> gmem \<Rightarrow> gmem" where
  "replay_node ar e m =
     (if \<not> is_committed_addr ar (fn_addr e) \<or> \<not> is_committed_addr ar (fn_addr e + 0x40) then m
      else wr32 (fn_addr e + 0x3c) (fn_f3c e) (wr32 (fn_addr e + 0x38) (fn_f38 e)
            (wr64 (fn_addr e + 0x8) (fn_f8 e) (wr64 (fn_addr e + 0x30) (fn_f30 e)
              (wr64 (fn_addr e + 0x28) (fn_f28 e) (wr64 (fn_addr e + 0x20) (fn_f20 e)
                (wr64 (fn_addr e + 0x18) (fn_f18 e) m)))))))"

definition flist_slot :: "int \<Rightarrow> units \<Rightarrow> nat option" where
  "flist_slot target un =
     List.find (\<lambda>s. un_fl_frames un s = target \<and> un_fl_valid un s) [0..<ALLOC_RING_SLOTS]"

definition restore_freelists :: "arena \<Rightarrow> int \<Rightarrow> units \<Rightarrow> gmem \<Rightarrow> gmem" where
  "restore_freelists ar target un m =
     (case flist_slot target un of
        None \<Rightarrow> m
      | Some s \<Rightarrow>
          let m1 = fold (replay_node ar) (un_fl_nodes un s) m
          in if un_al_valid un s then fold (replay_node ar) (un_al_nodes un s) m1 else m1)"

text \<open>The three steps in the order of the rollback; the snapshot of the sections is taken before the pages.\<close>

definition restore_group :: "bool \<Rightarrow> arena \<Rightarrow> int \<Rightarrow> units \<Rightarrow> gmem \<Rightarrow> gmem" where
  "restore_group revert ar target un m =
     (let m1 = cs_keeplive_restore un (restore_allocators revert target un m)
      in if revert then m1 else restore_freelists ar target un m1)"

end
