(* ===== verification/Flist_Facts.thy ===== *)
theory Flist_Facts
  imports Flist_Unit Alloc_Facts
begin

text \<open>
  What the allocator group restores: the replayed fields, descriptors and critical sections byte by
  byte; the free lists of a clean save come back whole; counts are right after every capture; the
  budgets of the donation; and what a restore does when nothing was ever saved.
\<close>

section \<open>Writing back what was read\<close>

lemma byte_bit: "bit (b :: u8) n \<Longrightarrow> n < 8"
  using bit_imp_le_length [of b n] by simp

lemma enc32_dec32:
  assumes "length bs = 4"
  shows "enc32 (dec32 bs) = bs"
proof -
  obtain a b c d where bs: "bs = [a, b, c, d]"
    using assms by (auto simp: numeral_eq_Suc length_Suc_conv)
  have "ucast (dec32 bs) = a" "ucast (drop_bit 8 (dec32 bs)) = b" "ucast (drop_bit 16 (dec32 bs)) = c"
    "ucast (drop_bit 24 (dec32 bs)) = d"
    by (rule bit_word_eqI; auto simp: bs bit_simps dest: byte_bit)+
  then show ?thesis by (simp add: bs enc32_def)
qed

lemma enc64_dec64:
  assumes "length bs = 8"
  shows "enc64 (dec64 bs) = bs"
proof -
  let ?l = "dec32 (take 4 bs)" and ?h = "dec32 (drop 4 bs)"
  have "ucast (dec64 bs) = ?l"
    by (rule bit_word_eqI) (auto simp: dec64_def bit_simps)
  moreover have "ucast (drop_bit 32 (dec64 bs)) = ?h"
  proof (rule bit_word_eqI)
    fix n assume "n < LENGTH(32)"
    moreover have "\<not> bit ?l (32 + n)" using bit_imp_le_length [of ?l "32 + n"] by auto
    ultimately show "bit (ucast (drop_bit 32 (dec64 bs)) :: u32) n = bit ?h n"
      by (auto simp: dec64_def bit_simps)
  qed
  ultimately show ?thesis using assms by (simp add: enc64_def enc32_dec32)
qed

lemma wr32_rd32: "wr32 a (rd32 m' a) m x = (if a \<le> x \<and> x < a + 4 then m' x else m x)"
  using poke_peek [of a 4 m' m x] by (simp add: wr32_def rd32_def enc32_dec32 length_peek)

lemma wr64_rd64: "wr64 a (rd64 m' a) m x = (if a \<le> x \<and> x < a + 8 then m' x else m x)"
  using poke_peek [of a 8 m' m x] by (simp add: wr64_def rd64_def enc64_dec64 length_peek)

text \<open>The bytes of a block the unit carries.\<close>

definition node_cell :: "nat \<Rightarrow> nat \<Rightarrow> bool" where
  "node_cell n x \<longleftrightarrow> n + 0x8 \<le> x \<and> x < n + 0x10 \<or> n + 0x18 \<le> x \<and> x < n + 0x40"

definition replayed :: "arena \<Rightarrow> flnode list \<Rightarrow> nat \<Rightarrow> bool" where
  "replayed ar es x \<longleftrightarrow>
     list_ex (\<lambda>e. is_committed_addr ar (fn_addr e) \<and> is_committed_addr ar (fn_addr e + 0x40)
                \<and> node_cell (fn_addr e) x) es"

lemma replay_node_at:
  "replay_node ar (node_at m' n) m x =
     (if is_committed_addr ar n \<and> is_committed_addr ar (n + 0x40) \<and> node_cell n x then m' x else m x)"
  by (auto simp: replay_node_def node_at_def wr32_rd32 wr64_rd64 node_cell_def)

lemma replay_nodes:
  assumes "\<forall>e \<in> set es. e = node_at m' (fn_addr e)"
  shows "fold (replay_node ar) es m x = (if replayed ar es x then m' x else m x)"
  using assms
proof (induction es arbitrary: m)
  case (Cons e es)
  then have "replay_node ar (node_at m' (fn_addr e)) m x = replay_node ar e m x" by simp
  with replay_node_at [of ar m' "fn_addr e" m x] show ?case using Cons by (auto simp: replayed_def)
qed (simp add: replayed_def)

text \<open>The bytes of a control object, with and without its critical sections.\<close>

definition cs_byte :: "nat \<Rightarrow> nat \<Rightarrow> bool" where
  "cs_byte ctrl x \<longleftrightarrow> list_ex (\<lambda>(off, len). ctrl + off \<le> x \<and> x < ctrl + off + len) CS_RANGES"

definition ctrl_byte :: "nat \<Rightarrow> nat \<Rightarrow> bool" where
  "ctrl_byte ctrl x \<longleftrightarrow> ctrl \<le> x \<and> x < ctrl + CTRL_SIZE"

lemma poke_part:
  assumes "pos \<le> off" "off \<le> CTRL_SIZE"
  shows "poke_bytes (dst + pos) (take (off - pos) (drop pos (blob_of m' dst))) m x
    = (if dst + pos \<le> x \<and> x < dst + off then m' x else m x)"
  using assms by (auto simp: poke_bytes_def blob_of_def length_peek peek_bytes_nth)

fun ranges_from :: "nat \<Rightarrow> (nat \<times> nat) list \<Rightarrow> bool" where
  "ranges_from pos [] \<longleftrightarrow> pos \<le> CTRL_SIZE"
| "ranges_from pos ((off, len) # rs) \<longleftrightarrow> pos \<le> off \<and> off + len \<le> CTRL_SIZE \<and> ranges_from (off + len) rs"

lemma ranges_from_le: "ranges_from pos rs \<Longrightarrow> pos \<le> CTRL_SIZE"
  by (induction pos rs rule: ranges_from.induct) auto

lemma ranges_from_after: "ranges_from pos rs \<Longrightarrow> (off, len) \<in> set rs \<Longrightarrow> pos \<le> off"
  by (induction pos rs rule: ranges_from.induct) auto

lemma skip_cs_bytes:
  assumes "ranges_from pos rs"
  shows "\<exists>pos' m2. fold (skip_cs dst (blob_of m' dst)) rs (pos, m) = (pos', m2) \<and> pos \<le> pos' \<and> pos' \<le> CTRL_SIZE
    \<and> (\<forall>(off, len) \<in> set rs. off + len \<le> pos')
    \<and> (\<forall>x. m2 x = (if dst + pos \<le> x \<and> x < dst + pos' \<and> \<not> list_ex (\<lambda>(off, len). dst + off \<le> x \<and> x < dst + off + len) rs
                  then m' x else m x))"
  using assms
proof (induction rs arbitrary: pos m)
  case Nil
  then show ?case by auto
next
  case (Cons r rs)
  obtain off len where r: "r = (off, len)" by (cases r)
  have rf: "pos \<le> off" "off + len \<le> CTRL_SIZE" "ranges_from (off + len) rs" using Cons.prems by (simp_all add: r)
  define m1 where "m1 = (if pos < off then poke_bytes (dst + pos) (take (off - pos) (drop pos (blob_of m' dst))) m else m)"
  have m1: "m1 x = (if dst + pos \<le> x \<and> x < dst + off then m' x else m x)" for x
    using poke_part [of pos off dst m' m x] rf(1,2) by (auto simp: m1_def)
  obtain pos' m2 where I: "fold (skip_cs dst (blob_of m' dst)) rs (off + len, m1) = (pos', m2)" "off + len \<le> pos'" "pos' \<le> CTRL_SIZE"
    "\<forall>(off, len) \<in> set rs. off + len \<le> pos'"
    "\<And>x. m2 x = (if dst + (off + len) \<le> x \<and> x < dst + pos' \<and> \<not> list_ex (\<lambda>(off, len). dst + off \<le> x \<and> x < dst + off + len) rs
             then m' x else m1 x)"
    using Cons.IH [OF rf(3), of m1] by blast
  have after: "\<not> list_ex (\<lambda>(off, len). dst + off \<le> x \<and> x < dst + off + len) rs" if "x < dst + (off + len)" for x
    using ranges_from_after [OF rf(3)] that by (force simp: list_ex_iff)
  have "fold (skip_cs dst (blob_of m' dst)) (r # rs) (pos, m) = (pos', m2)"
    using I(1) by (simp add: r skip_cs_def m1_def)
  moreover have "m2 x = (if dst + pos \<le> x \<and> x < dst + pos'
        \<and> \<not> list_ex (\<lambda>(off, len). dst + off \<le> x \<and> x < dst + off + len) (r # rs) then m' x else m x)" for x
    using I(2) I(5) [of x] after [of x] rf(1) by (auto simp: r m1)
  moreover have "\<forall>(off, len) \<in> set (r # rs). off + len \<le> pos'" using I(2,4) by (auto simp: r)
  ultimately show ?case using I(2,3) rf(1) by (intro exI [of _ pos'] exI [of _ m2]) auto
qed

lemma restore_blob_bytes:
  "restore_blob dst (blob_of m' dst) m x = (if ctrl_byte dst x \<and> \<not> cs_byte dst x then m' x else m x)"
proof -
  have "ranges_from 0 CS_RANGES" by (simp add: CS_RANGES_def CTRL_SIZE_def)
  from skip_cs_bytes [OF this, of dst m' m] obtain pos' m2 where
    f: "fold (skip_cs dst (blob_of m' dst)) CS_RANGES (0, m) = (pos', m2)" "pos' \<le> CTRL_SIZE"
    "\<forall>(off, len) \<in> set CS_RANGES. off + len \<le> pos'"
    "\<And>x. m2 x = (if dst \<le> x \<and> x < dst + pos' \<and> \<not> cs_byte dst x then m' x else m x)"
    by (auto simp: cs_byte_def)
  have e: "restore_blob dst (blob_of m' dst) m =
      (if pos' < CTRL_SIZE then poke_bytes (dst + pos') (take (CTRL_SIZE - pos') (drop pos' (blob_of m' dst))) m2 else m2)"
    by (simp add: restore_blob_def f(1))
  have "\<not> cs_byte dst x" if "dst + pos' \<le> x" for x
    using f(3) that by (fastforce simp: cs_byte_def list_ex_iff)
  then show ?thesis
    using poke_part [of pos' CTRL_SIZE dst m' m2 x] f(2) f(4) [of x] by (auto simp: e ctrl_byte_def)
qed

lemma restore_blobs_bytes:
  "fold (\<lambda>c. restore_blob c (blob_of m' c)) cs m x
    = (if list_ex (\<lambda>c. ctrl_byte c x \<and> \<not> cs_byte c x) cs then m' x else m x)"
  by (induction cs arbitrary: m) (auto simp: restore_blob_bytes)

lemma keeplive_bytes:
  "cs_keeplive_restore (cs_keeplive_snapshot ml un) m x
    = (if list_ex (\<lambda>c. cs_byte c x) (un_ctrls un) then ml x else m x)"
proof -
  let ?un = "cs_keeplive_snapshot ml un"
  have f: "fold (\<lambda>(i, c). poke_bytes (un_ctrls ?un ! i + fst (CS_RANGES ! c)) (un_cs ?un i c)) ics m x
      = (if list_ex (\<lambda>(i, c). un_ctrls un ! i + fst (CS_RANGES ! c) \<le> x
                          \<and> x < un_ctrls un ! i + fst (CS_RANGES ! c) + snd (CS_RANGES ! c)) ics then ml x else m x)"
    if "set ics \<subseteq> {..<length (un_ctrls un)} \<times> {..<length CS_RANGES}" for ics
    using that
  proof (induction ics arbitrary: m)
    case (Cons ic ics)
    obtain i c where ic: "ic = (i, c)" by (cases ic)
    then show ?case using Cons by (auto simp: cs_keeplive_snapshot_def poke_peek)
  qed simp
  have "set (cs_cells ?un) \<subseteq> {..<length (un_ctrls un)} \<times> {..<length CS_RANGES}"
    by (auto simp: cs_cells_def cs_keeplive_snapshot_def)
  moreover have "list_ex (\<lambda>(i, c). un_ctrls un ! i + fst (CS_RANGES ! c) \<le> x
        \<and> x < un_ctrls un ! i + fst (CS_RANGES ! c) + snd (CS_RANGES ! c)) (cs_cells ?un)
      \<longleftrightarrow> list_ex (\<lambda>c. cs_byte c x) (un_ctrls un)"
    by (force simp: list_ex_iff cs_cells_def cs_keeplive_snapshot_def cs_byte_def in_set_conv_nth split_def)
  ultimately show ?thesis by (simp add: cs_keeplive_restore_def f)
qed

section \<open>What a walk returns\<close>

text \<open>A list a walk gets to the end of, and what the walk demands of each node.\<close>

fun chained :: "gmem \<Rightarrow> nat \<Rightarrow> nat \<Rightarrow> flnode list \<Rightarrow> bool" where
  "chained m link node [] \<longleftrightarrow> node = 0"
| "chained m link node (e # es) \<longleftrightarrow> node \<noteq> 0 \<and> e = node_at m node \<and> chained m link (rd64 m (node + link)) es"

definition walkable :: "arena \<Rightarrow> bool \<Rightarrow> flnode \<Rightarrow> bool" where
  "walkable ar viol e \<longleftrightarrow> 0x10000 \<le> fn_addr e \<and> is_committed_addr ar (fn_addr e)
     \<and> is_committed_addr ar (fn_addr e + 0x40) \<and> \<not> (viol \<and> fn_f38 e mod 2 \<noteq> 0)"

lemma unit_walk_iff:
  "unit_walk ar m cap lim viol link node n w = Inr es \<longleftrightarrow>
     chained m link node es \<and> (\<forall>e \<in> set es. walkable ar viol e)
     \<and> (es = [] \<or> n + length es \<le> cap \<and> w + length es \<le> lim + 1)"
proof (induction es arbitrary: node n w)
  case Nil
  show ?case by (subst unit_walk.simps) (auto split: sum.splits simp: map_sum_def)
next
  case (Cons e es)
  show ?case
  proof (cases "node = 0 \<or> lim < w \<or> node < 0x10000 \<or> \<not> is_committed_addr ar node
      \<or> \<not> is_committed_addr ar (node + 0x40) \<or> cap \<le> n \<or> viol \<and> rd32 m (node + 0x38) mod 2 \<noteq> 0")
    case True
    have "unit_walk ar m cap lim viol link node n w \<noteq> Inr (e # es)" by (subst unit_walk.simps) (use True in auto)
    moreover have "\<not> (chained m link node (e # es) \<and> (\<forall>e \<in> set (e # es). walkable ar viol e)
        \<and> (e # es = [] \<or> n + length (e # es) \<le> cap \<and> w + length (e # es) \<le> lim + 1))"
      using True by (auto simp: walkable_def node_at_def)
    ultimately show ?thesis by blast
  next
    case False
    have u: "unit_walk ar m cap lim viol link node n w =
        map_sum id ((#) (node_at m node)) (unit_walk ar m cap lim viol link (rd64 m (node + link)) (n + 1) (w + 1))"
      by (subst unit_walk.simps) (use False in auto)
    have "unit_walk ar m cap lim viol link node n w = Inr (e # es)
        \<longleftrightarrow> e = node_at m node \<and> unit_walk ar m cap lim viol link (rd64 m (node + link)) (n + 1) (w + 1) = Inr es"
      by (cases "unit_walk ar m cap lim viol link (rd64 m (node + link)) (n + 1) (w + 1)") (auto simp: u)
    moreover have "walkable ar viol (node_at m node)" using False by (auto simp: walkable_def node_at_def)
    ultimately show ?thesis using Cons.IH [of "rd64 m (node + link)" "n + 1" "w + 1"] False by auto
  qed
qed

lemma chained_nodes: "chained m link node es \<Longrightarrow> \<forall>e \<in> set es. e = node_at m (fn_addr e)"
  by (induction es arbitrary: node) (auto simp: node_at_def)

lemma chained_cong:
  assumes "\<forall>e \<in> set es. node_at m' (fn_addr e) = node_at m (fn_addr e) \<and> rd64 m' (fn_addr e + link) = rd64 m (fn_addr e + link)"
  shows "chained m' link node es = chained m link node es"
  using assms
proof (induction es arbitrary: node)
  case (Cons e es)
  show ?case
  proof (cases "fn_addr e = node")
    case True
    then show ?thesis using Cons by auto
  next
    case False
    then show ?thesis by (auto simp: node_at_def)
  qed
qed simp

lemma node_at_cong:
  assumes "\<And>x. node_cell n x \<Longrightarrow> m' x = m x"
  shows "node_at m' n = node_at m n"
proof -
  have "rd64 m' (n + k) = rd64 m (n + k)" if "k = 8 \<or> k = 0x18 \<or> k = 0x20 \<or> k = 0x28 \<or> k = 0x30" for k
    by (rule c64.rd_bytes, rule assms) (use that in \<open>auto simp: node_cell_def\<close>)
  moreover have "rd32 m' (n + k) = rd32 m (n + k)" if "k = 0x38 \<or> k = 0x3c" for k
    by (rule c32.rd_bytes, rule assms) (use that in \<open>auto simp: node_cell_def\<close>)
  ultimately show ?thesis by (simp add: node_at_def)
qed

section \<open>A clean save\<close>

text \<open>Every list of every allocator walks to its end and has the count it says.\<close>

definition list_clean :: "arena \<Rightarrow> gmem \<Rightarrow> bool \<Rightarrow> nat \<Rightarrow> nat \<Rightarrow> flnode list \<Rightarrow> bool" where
  "list_clean ar m viol head cnt es \<longleftrightarrow> chained m 0x20 head es \<and> length es = cnt \<and> (\<forall>e \<in> set es. walkable ar viol e)"

lemma list_clean_walk:
  assumes "list_clean ar m viol head cnt es" "n + length es \<le> FLIST_MAX_NODES"
  shows "flist_walk_list ar m head cnt n viol = Inr es"
proof -
  have "(cnt + 2) mod 2 ^ 32 = cnt + 2" using assms by (simp add: list_clean_def FLIST_MAX_NODES_def)
  then show ?thesis using assms by (simp add: flist_walk_list_def unit_walk_iff list_clean_def)
qed

text \<open>The lists of one allocator: its classes in order, then the reserve.\<close>

definition mgr_of :: "nat \<Rightarrow> nat \<Rightarrow> nat" where "mgr_of ctrl k = ctrl + 0xd8 + k * 0xa8"

definition ctrl_clean :: "arena \<Rightarrow> gmem \<Rightarrow> nat \<Rightarrow> flnode list list \<Rightarrow> flnode list \<Rightarrow> bool" where
  "ctrl_clean ar m ctrl ess rs \<longleftrightarrow> length ess = class_count m ctrl
     \<and> (\<forall>k < length ess. list_clean ar m True (rd64 m (mgr_of ctrl k + 0x58)) (rd32 m (mgr_of ctrl k + 0x68)) (ess ! k))
     \<and> list_clean ar m False (rd64 m (ctrl + 0xc0)) (rd32 m (ctrl + 0xd0)) rs"

lemma capture_alist_proj:
  "cp_mem (capture_alist ar tgt ctrl mgr st) = cp_mem st \<and> cp_blobs (capture_alist ar tgt ctrl mgr st) = cp_blobs st
   \<and> cp_nodes (capture_alist ar tgt ctrl mgr st) = cp_nodes st"
  by (simp add: capture_alist_def split: sum.split)

lemma capture_alist_nodes:
  assumes "\<forall>e \<in> set (cp_anodes st). e = node_at (cp_mem st) (fn_addr e)"
  shows "\<forall>e \<in> set (cp_anodes (capture_alist ar tgt ctrl mgr st)). e = node_at (cp_mem st) (fn_addr e)"
proof (cases "alist_walk_list ar (cp_mem st) (rd64 (cp_mem st) (mgr + 0x48)) (rd32 (cp_mem st) (mgr + 0x50)) (length (cp_anodes st))")
  case (Inl f)
  then show ?thesis using assms by (simp add: capture_alist_def)
next
  case (Inr es)
  then have "chained (cp_mem st) 0x18 (rd64 (cp_mem st) (mgr + 0x48)) es" by (simp add: alist_walk_list_def unit_walk_iff)
  from chained_nodes [OF this] Inr show ?thesis using assms by (auto simp: capture_alist_def)
qed

lemma until_false_range:
  assumes "a \<le> b" "P a s" "\<And>i s. a \<le> i \<Longrightarrow> i < b \<Longrightarrow> P i s \<Longrightarrow> \<exists>s'. f i s = (s', True) \<and> P (Suc i) s'"
  shows "\<exists>s'. until_false f [a..<b] s = (s', True) \<and> P b s'"
  using assms
proof (induction "b - a" arbitrary: a s)
  case (Suc d)
  then have ab: "a < b" by simp
  then obtain s1 where s1: "f a s = (s1, True)" "P (Suc a) s1" using Suc.prems(2) Suc.prems(3) [of a s] by auto
  have "\<exists>s'. until_false f [Suc a..<b] s1 = (s', True) \<and> P b s'"
    using Suc.hyps(1) [of "Suc a" s1] Suc.hyps(2) Suc.prems(3) s1(2) ab by auto
  then show ?case using s1(1) ab by (simp add: upt_conv_Cons)
qed simp

definition captured :: "gmem \<Rightarrow> u8 list carray \<Rightarrow> flnode list \<Rightarrow> capture_state \<Rightarrow> bool" where
  "captured m bl ns st \<longleftrightarrow> cp_mem st = m \<and> cp_blobs st = bl \<and> cp_nodes st = ns
     \<and> (\<forall>e \<in> set (cp_anodes st). e = node_at m (fn_addr e))"

lemma capture_class_clean:
  assumes "captured m bl ns st" "list_clean ar m True (rd64 m (mgr_of ctrl k + 0x58)) (rd32 m (mgr_of ctrl k + 0x68)) es"
    "length ns + length es \<le> FLIST_MAX_NODES"
  shows "\<exists>st'. capture_class ar os tgt i ctrl k st = (st', True) \<and> captured m bl (ns @ es) st'"
proof -
  let ?st1 = "st\<lparr>cp_nodes := ns @ es\<rparr>"
  have st: "cp_mem st = m" "cp_nodes st = ns" "cp_blobs st = bl" using assms(1) by (simp_all add: captured_def)
  have len: "length es = rd32 m (mgr_of ctrl k + 0x68)" using assms(2) by (simp add: list_clean_def)
  have "heal_count i ctrl (mgr_of ctrl k) es ?st1 = ?st1" by (simp add: heal_count_def len st)
  then have "capture_class ar os tgt i ctrl k st = (capture_alist ar tgt ctrl (mgr_of ctrl k) ?st1, True)"
    using list_clean_walk [OF assms(2), of "length ns"] assms(3)
    by (simp add: capture_class_def Let_def st mgr_of_def [symmetric])
  moreover have "captured m bl (ns @ es) (capture_alist ar tgt ctrl (mgr_of ctrl k) ?st1)"
    using capture_alist_proj [of ar tgt ctrl "mgr_of ctrl k" ?st1] capture_alist_nodes [where st = ?st1 and ar = ar and tgt = tgt and ctrl = ctrl and mgr = "mgr_of ctrl k"]
      assms(1) by (simp add: captured_def)
  ultimately show ?thesis by blast
qed

lemma length_concat_take: "length (concat (take k xss)) \<le> length (concat xss)"
  by (metis append_take_drop_id concat_append le_add1 length_append)

lemma take_Suc_concat: "k < length xss \<Longrightarrow> concat (take (Suc k) xss) = concat (take k xss) @ xss ! k"
  by (simp add: take_Suc_conv_app_nth)

lemma capture_ctrl_clean:
  assumes "captured m bl ns st" "ctrl_clean ar m (ctrls ! i) ess rs"
    "length ns + length (concat ess @ rs) \<le> FLIST_MAX_NODES"
  shows "\<exists>st'. capture_ctrl ar os tgt ctrls i st = (st', True) \<and> captured m bl (ns @ concat ess @ rs) st'"
proof -
  let ?c = "ctrls ! i"
  define P where "P = (\<lambda>k. captured m bl (ns @ concat (take k ess)))"
  have step: "\<exists>s'. capture_class ar os tgt i ?c k s = (s', True) \<and> P (Suc k) s'"
    if "k < class_count m ?c" "P k s" for k s
  proof -
    have k: "k < length ess" using that(1) assms(2) by (simp add: ctrl_clean_def)
    have "length (concat (take (Suc k) ess)) \<le> length (concat ess)" by (rule length_concat_take)
    then have "length (ns @ concat (take k ess)) + length (ess ! k) \<le> FLIST_MAX_NODES"
      using assms(3) k by (simp add: take_Suc_concat)
    moreover have "list_clean ar m True (rd64 m (mgr_of ?c k + 0x58)) (rd32 m (mgr_of ?c k + 0x68)) (ess ! k)"
      using assms(2) k by (simp add: ctrl_clean_def)
    ultimately show ?thesis
      using capture_class_clean [of m bl "ns @ concat (take k ess)" s ar ?c k "ess ! k" os tgt i] that(2) k
      by (simp add: P_def take_Suc_concat)
  qed
  have mem: "cp_mem st = m" using assms(1) by (simp add: captured_def)
  have "\<exists>s'. until_false (capture_class ar os tgt i ?c) [0..<class_count m ?c] st = (s', True) \<and> P (class_count m ?c) s'"
    by (rule until_false_range) (use assms(1) step in \<open>auto simp: P_def\<close>)
  then obtain s' where s': "until_false (capture_class ar os tgt i ?c) [0..<class_count m ?c] st = (s', True)"
    "captured m bl (ns @ concat ess) s'"
    using assms(2) by (auto simp: P_def ctrl_clean_def)
  have "flist_walk_list ar m (rd64 m (?c + 0xc0)) (rd32 m (?c + 0xd0)) (length (ns @ concat ess)) False = Inr rs"
    by (rule list_clean_walk) (use assms(2,3) in \<open>simp_all add: ctrl_clean_def\<close>)
  then have "capture_reserve ar ?c s' = (s'\<lparr>cp_nodes := cp_nodes s' @ rs\<rparr>, True)"
    using s'(2) by (simp add: capture_reserve_def captured_def Let_def)
  then have "capture_ctrl ar os tgt ctrls i st = (s'\<lparr>cp_nodes := cp_nodes s' @ rs\<rparr>, True)"
    using s'(1) by (simp add: capture_ctrl_def mem Let_def)
  moreover have "captured m bl (ns @ concat ess @ rs) (s'\<lparr>cp_nodes := cp_nodes s' @ rs\<rparr>)"
    using s'(2) by (simp add: captured_def)
  ultimately show ?thesis by blast
qed

text \<open>All the allocators, with the lists \<open>ls ! i\<close> of the \<open>i\<close>-th one.\<close>

definition unit_nodes :: "(flnode list list \<times> flnode list) list \<Rightarrow> flnode list" where
  "unit_nodes ls = concat (map (\<lambda>(ess, rs). concat ess @ rs) ls)"

lemma set_unit_nodes: "set (unit_nodes ls) = (\<Union>p \<in> set ls. set (concat (fst p) @ snd p))"
  by (auto simp: unit_nodes_def split_def)

definition group_clean :: "arena \<Rightarrow> gmem \<Rightarrow> nat list \<Rightarrow> (flnode list list \<times> flnode list) list \<Rightarrow> bool" where
  "group_clean ar m ctrls ls \<longleftrightarrow> length ls = length ctrls
     \<and> (\<forall>i < length ls. ctrl_clean ar m (ctrls ! i) (fst (ls ! i)) (snd (ls ! i)))
     \<and> length (unit_nodes ls) \<le> FLIST_MAX_NODES"

lemma save_freelists_clean:
  assumes "group_clean ar m (un_ctrls un) ls"
  shows "\<exists>un'. save_freelists ar os True frame slot (m, un) = (m, un')
    \<and> un_fl_valid un' slot \<and> un_fl_frames un' slot = frame \<and> un_fl_nodes un' slot = unit_nodes ls
    \<and> (\<forall>e \<in> set (un_al_nodes un' slot). e = node_at m (fn_addr e))
    \<and> un_blobs un' = un_blobs un \<and> un_frames un' = un_frames un \<and> un_ctrls un' = un_ctrls un
    \<and> un_head un' = un_head un \<and> un_found un' = un_found un
    \<and> (\<forall>s. s \<noteq> slot \<longrightarrow> un_fl_frames un' s = un_fl_frames un s)"
proof -
  let ?bl = "un_blobs un slot"
  let ?st0 = "\<lparr>cp_mem = m, cp_blobs = ?bl, cp_nodes = [], cp_anodes = [], cp_abad = False\<rparr>"
  define P where "P = (\<lambda>i. captured m ?bl (unit_nodes (take i ls)))"
  have step: "\<exists>s'. capture_ctrl ar os (un_unit un) (un_ctrls un) i s = (s', True) \<and> P (Suc i) s'"
    if "i < length (un_ctrls un)" "P i s" for i s
  proof -
    have i: "i < length ls" using that(1) assms by (simp add: group_clean_def)
    obtain ess rs where lsi: "ls ! i = (ess, rs)" by (cases "ls ! i")
    have ts: "unit_nodes (take (Suc i) ls) = unit_nodes (take i ls) @ concat ess @ rs"
      using i lsi by (simp add: unit_nodes_def take_Suc_conv_app_nth)
    have "length (unit_nodes (take (Suc i) ls)) \<le> length (unit_nodes ls)"
      unfolding unit_nodes_def take_map [symmetric] by (rule length_concat_take)
    then have "length (unit_nodes (take i ls)) + length (concat ess @ rs) \<le> FLIST_MAX_NODES"
      using assms by (simp add: ts group_clean_def)
    moreover have "ctrl_clean ar m (un_ctrls un ! i) ess rs" using assms i lsi by (auto simp: group_clean_def)
    ultimately show ?thesis
      using capture_ctrl_clean [of m ?bl "unit_nodes (take i ls)" s ar "un_ctrls un" i ess rs os "un_unit un"] that(2)
      by (simp add: P_def ts)
  qed
  have "\<exists>s'. until_false (capture_ctrl ar os (un_unit un) (un_ctrls un)) [0..<length (un_ctrls un)] ?st0 = (s', True)
      \<and> P (length (un_ctrls un)) s'"
    by (rule until_false_range) (use step in \<open>auto simp: P_def captured_def unit_nodes_def\<close>)
  then obtain s' where s': "until_false (capture_ctrl ar os (un_unit un) (un_ctrls un)) [0..<length (un_ctrls un)] ?st0 = (s', True)"
    "captured m ?bl (unit_nodes ls) s'"
    using assms by (auto simp: P_def group_clean_def)
  show ?thesis using s'(2) by (simp add: save_freelists_def s'(1) captured_def)
qed

section \<open>What later saves leave\<close>

definition slot_view :: "nat \<Rightarrow> units \<Rightarrow> int \<times> u8 list carray \<times> int \<times> bool \<times> flnode list \<times> flnode list \<times> bool" where
  "slot_view s un = (un_frames un s, un_blobs un s, un_fl_frames un s, un_fl_valid un s, un_fl_nodes un s,
     un_al_nodes un s, un_al_valid un s)"

definition reg_view :: "units \<Rightarrow> bool \<times> nat list \<times> nat \<times> nat" where
  "reg_view un = (un_found un, un_ctrls un, un_unit un, un_head un)"

lemma save_freelists_other:
  assumes "save_freelists ar os held frame slot (m, un) = (m', un')"
  shows "reg_view un' = reg_view un \<and> un_frames un' = un_frames un \<and> un_fl_frames un' slot = frame
    \<and> (\<forall>s. s \<noteq> slot \<longrightarrow> slot_view s un' = slot_view s un)"
  using assms
  by (auto simp: save_freelists_def Let_def slot_view_def reg_view_def split: if_splits prod.splits)

lemma donate_step_other:
  "donate_step c i ctrl (m, ar, un) = ((m', ar', un'), go) \<Longrightarrow>
     reg_view un' = reg_view un \<and> (\<forall>s. slot_view s un' = slot_view s un)"
  by (auto simp: donate_step_def Let_def slot_view_def reg_view_def split: if_splits prod.splits option.splits)

lemma donate_ctrl_other:
  "donate_ctrl c i ctrl ts (m, ar, un) = (m', ar', un') \<Longrightarrow>
     reg_view un' = reg_view un \<and> (\<forall>s. slot_view s un' = slot_view s un)"
proof (induction ts arbitrary: m ar un)
  case (Cons t ts)
  obtain m1 ar1 un1 go where d: "donate_step (c t) i ctrl (m, ar, un) = ((m1, ar1, un1), go)"
    by (metis prod_cases3 surj_pair)
  then show ?case using Cons.IH [of m1 ar1 un1] Cons.prems donate_step_other [OF d] by (cases go) auto
qed simp

lemma donate_fold_other:
  "fold (\<lambda>i. donate_ctrl (c i) i (ctrls ! i) ts) is (m, ar, un) = (m', ar', un') \<Longrightarrow>
     reg_view un' = reg_view un \<and> (\<forall>s. slot_view s un' = slot_view s un)"
proof (induction "is" arbitrary: m ar un)
  case (Cons i "is")
  obtain m1 ar1 un1 where d: "donate_ctrl (c i) i (ctrls ! i) ts (m, ar, un) = (m1, ar1, un1)"
    by (metis prod_cases3)
  then show ?case using Cons.IH [of m1 ar1 un1] Cons.prems donate_ctrl_other [OF d] by auto
qed simp

text \<open>The state the capture starts from: the frame noted, the donations made.\<close>

definition donated ::
  "(nat \<Rightarrow> nat \<Rightarrow> bool) \<Rightarrow> bool \<Rightarrow> int \<Rightarrow> gmem \<times> arena \<times> units \<Rightarrow> gmem \<times> arena \<times> units" where
  "donated commit_ok on frame s =
     (let (m, ar, un) = s; un1 = un\<lparr>un_frames := (un_frames un)(un_head un := frame)\<rparr>
      in if on then donate_all commit_ok (un_ctrls un1) (m, ar, un1) else (m, ar, un1))"

lemma donated_other:
  assumes "donated c on frame (m, ar, un) = (m', ar', un')"
  shows "reg_view un' = reg_view un \<and> un_frames un' (un_head un) = frame
    \<and> (\<forall>s. s \<noteq> un_head un \<longrightarrow> slot_view s un' = slot_view s un) \<and> (\<forall>s. un_fl_frames un' s = un_fl_frames un s)"
proof -
  let ?u = "un\<lparr>un_frames := (un_frames un)(un_head un := frame)\<rparr>"
  have "reg_view un' = reg_view ?u \<and> (\<forall>s. slot_view s un' = slot_view s ?u)"
    using assms donate_fold_other [of c "un_ctrls ?u" "[0..<4]" "[0..<length (un_ctrls ?u)]" m ar ?u m' ar' un']
    by (cases on) (auto simp: donated_def donate_all_def Let_def)
  then show ?thesis by (auto simp: slot_view_def reg_view_def)
qed

lemma save_allocators_eq:
  assumes "un_found un" "donated c (held \<and> owned) frame (m, ar, un) = (m2, ar2, un2)"
    "save_freelists ar2 os held frame (un_head un) (m2, save_blobs (un_head un) m2 un2) = (m3, un3)"
  shows "save_allocators base os c False owned held frame (m, ar, un, q) =
    (m3, ar2, un3\<lparr>un_head := (un_head un + 1) mod ALLOC_RING_SLOTS\<rparr>, save_table frame (int (un_head un)) held q)"
  using assms by (cases "held \<and> owned") (auto simp: save_allocators_def ensure_found_def donated_def Let_def)

lemma save_allocators_other:
  assumes "un_found un" "save_allocators base os c False owned held frame (m, ar, un, q) = (m', ar', un', q')"
  shows "un_found un' \<and> un_ctrls un' = un_ctrls un \<and> un_head un' = (un_head un + 1) mod 10
    \<and> un_frames un' (un_head un) = frame \<and> un_fl_frames un' (un_head un) = frame
    \<and> (\<forall>s. s \<noteq> un_head un \<longrightarrow> slot_view s un' = slot_view s un)"
proof -
  obtain m2 ar2 un2 where d: "donated c (held \<and> owned) frame (m, ar, un) = (m2, ar2, un2)" by (metis prod_cases3)
  obtain m3 un3 where f: "save_freelists ar2 os held frame (un_head un) (m2, save_blobs (un_head un) m2 un2) = (m3, un3)"
    by (metis surj_pair)
  have un': "un' = un3\<lparr>un_head := (un_head un + 1) mod ALLOC_RING_SLOTS\<rparr>"
    using save_allocators_eq [OF assms(1) d f] assms(2) by simp
  have b: "reg_view (save_blobs s m2 un2) = reg_view un2" "un_frames (save_blobs s m2 un2) = un_frames un2"
    "s' \<noteq> s \<Longrightarrow> slot_view s' (save_blobs s m2 un2) = slot_view s' un2" for s s'
    by (simp_all add: save_blobs_def reg_view_def slot_view_def)
  from donated_other [OF d] save_freelists_other [OF f] assms(1) show ?thesis
    by (auto simp: un' b reg_view_def slot_view_def ALLOC_RING_SLOTS_def save_blobs_def)
qed

text \<open>Saves of later frames, each with its own memory, arena, quarantine and conditions.\<close>

record save_input =
  si_os :: "nat \<Rightarrow> nat \<Rightarrow> bool"
  si_commit :: "nat \<Rightarrow> nat \<Rightarrow> bool"
  si_owned :: bool
  si_held :: bool
  si_frame :: int
  si_mem :: gmem
  si_arena :: arena
  si_quar :: quar

fun later_saves :: "nat \<Rightarrow> save_input list \<Rightarrow> units \<Rightarrow> units" where
  "later_saves base [] un = un"
| "later_saves base (i # is) un =
     (case save_allocators base (si_os i) (si_commit i) False (si_owned i) (si_held i) (si_frame i)
             (si_mem i, si_arena i, un, si_quar i) of
        (_, _, un', _) \<Rightarrow> later_saves base is un')"

lemma later_saves_step:
  assumes "un_found un"
  shows "\<exists>un'. later_saves base (i # is) un = later_saves base is un'
    \<and> un_found un' \<and> un_ctrls un' = un_ctrls un \<and> un_head un' = (un_head un + 1) mod 10
    \<and> un_frames un' (un_head un) = si_frame i \<and> un_fl_frames un' (un_head un) = si_frame i
    \<and> (\<forall>s. s \<noteq> un_head un \<longrightarrow> slot_view s un' = slot_view s un)"
proof -
  obtain m' ar' un' q' where s: "save_allocators base (si_os i) (si_commit i) False (si_owned i) (si_held i) (si_frame i)
      (si_mem i, si_arena i, un, si_quar i) = (m', ar', un', q')" by (metis prod_cases4)
  show ?thesis using save_allocators_other [OF assms s] by (intro exI [of _ un']) (simp add: s)
qed

lemma later_saves_keep:
  assumes "un_found un" "un_head un < 10" "\<And>j. j < length is \<Longrightarrow> (un_head un + j) mod 10 \<noteq> s"
  shows "slot_view s (later_saves base is un) = slot_view s un \<and> un_ctrls (later_saves base is un) = un_ctrls un"
  using assms
proof (induction "is" arbitrary: un)
  case (Cons i "is")
  obtain un' where u: "later_saves base (i # is) un = later_saves base is un'" "un_found un'" "un_ctrls un' = un_ctrls un"
    "un_head un' = (un_head un + 1) mod 10" "\<forall>s. s \<noteq> un_head un \<longrightarrow> slot_view s un' = slot_view s un"
    using later_saves_step [OF Cons.prems(1)] by blast
  have "(un_head un' + j) mod 10 \<noteq> s" if "j < length is" for j
    using Cons.prems(3) [of "Suc j"] that by (simp add: u(4) mod_simps)
  moreover have "s \<noteq> un_head un" using Cons.prems(2) Cons.prems(3) [of 0] by auto
  ultimately show ?case using Cons.IH [OF u(2)] u(1,3,4,5) by simp
qed simp

lemma later_saves_frames:
  assumes "un_found un" "\<forall>i \<in> set is. f < si_frame i" "\<forall>s. s \<noteq> t \<longrightarrow> un_frames un s \<noteq> f \<and> un_fl_frames un s \<noteq> f"
  shows "\<forall>s. s \<noteq> t \<longrightarrow> un_frames (later_saves base is un) s \<noteq> f \<and> un_fl_frames (later_saves base is un) s \<noteq> f"
  using assms
proof (induction "is" arbitrary: un)
  case (Cons i "is")
  obtain un' where u: "later_saves base (i # is) un = later_saves base is un'" "un_found un'"
    "un_frames un' (un_head un) = si_frame i" "un_fl_frames un' (un_head un) = si_frame i"
    "\<forall>s. s \<noteq> un_head un \<longrightarrow> slot_view s un' = slot_view s un"
    using later_saves_step [OF Cons.prems(1)] by blast
  have "un_frames un' s \<noteq> f \<and> un_fl_frames un' s \<noteq> f" if "s \<noteq> t" for s
  proof (cases "s = un_head un")
    case True
    then show ?thesis using u(3,4) Cons.prems(2) by auto
  next
    case False
    then have "slot_view s un' = slot_view s un" using u(5) by simp
    then show ?thesis using Cons.prems(3) that by (simp add: slot_view_def)
  qed
  then show ?case unfolding u(1) using Cons.IH [OF u(2)] Cons.prems(2) by simp
qed simp

section \<open>The group comes back\<close>

definition carried :: "units \<Rightarrow> nat \<Rightarrow> flnode list" where
  "carried un s = un_fl_nodes un s @ (if un_al_valid un s then un_al_nodes un s else [])"

lemma restore_freelists_bytes:
  assumes "flist_slot f un = Some s" "\<forall>e \<in> set (carried un s). e = node_at m1 (fn_addr e)"
  shows "restore_freelists ar f un m x = (if replayed ar (carried un s) x then m1 x else m x)"
proof -
  have r: "restore_freelists ar f un m = fold (replay_node ar) (carried un s) m"
    by (simp add: restore_freelists_def assms(1) carried_def Let_def)
  show ?thesis using replay_nodes [OF assms(2), of ar m x] by (simp add: r)
qed

lemma flist_slot_unique:
  assumes "s < 10" "un_fl_frames un s = f" "un_fl_valid un s" "\<And>s'. s' \<noteq> s \<Longrightarrow> un_fl_frames un s' \<noteq> f"
  shows "flist_slot f un = Some s"
proof -
  have "List.find (\<lambda>s. un_fl_frames un s = f \<and> un_fl_valid un s) [0..<10] = Some s"
    unfolding find_Some_iff using assms by (intro exI [of _ s]) auto
  then show ?thesis by (simp add: flist_slot_def ALLOC_RING_SLOTS_def)
qed

text \<open>The exact bytes after the three steps, for a slot that holds a capture of memory \<open>m1\<close>.\<close>

lemma restore_group_bytes:
  assumes "best_slot (\<lambda>g. g \<le> f) (un_frames un) = Some s" "flist_slot f un = Some s"
    "\<forall>i < length (un_ctrls un). un_blobs un s i = blob_of m1 (un_ctrls un ! i)"
    "\<forall>e \<in> set (carried un s). e = node_at m1 (fn_addr e)"
  shows "restore_group False ar f (cs_keeplive_snapshot ml un) m x =
    (if replayed ar (carried un s) x then m1 x
     else if list_ex (\<lambda>c. cs_byte c x) (un_ctrls un) then ml x
     else if list_ex (\<lambda>c. ctrl_byte c x) (un_ctrls un) then m1 x else m x)"
proof -
  let ?un = "cs_keeplive_snapshot ml un"
  let ?cs = "un_ctrls un"
  have same: "un_frames ?un = un_frames un" "un_ctrls ?un = ?cs" "un_blobs ?un = un_blobs un"
    "flist_slot f ?un = flist_slot f un" "carried ?un s = carried un s"
    by (simp_all add: cs_keeplive_snapshot_def flist_slot_def carried_def)
  have "fold (\<lambda>i. restore_blob (?cs ! i) (un_blobs un s i)) [0..<length ?cs] m
      = fold (\<lambda>i. restore_blob (?cs ! i) (blob_of m1 (?cs ! i))) [0..<length ?cs] m"
    by (rule fold_cong) (use assms(3) in auto)
  also have "\<dots> = fold (\<lambda>c. restore_blob c (blob_of m1 c)) (map ((!) ?cs) [0..<length ?cs]) m"
    by (simp add: fold_map comp_def)
  finally have "restore_allocators False f ?un m = fold (\<lambda>c. restore_blob c (blob_of m1 c)) ?cs m"
    by (simp add: restore_allocators_def same assms(1) map_nth)
  then have a: "restore_allocators False f ?un m x
      = (if list_ex (\<lambda>c. ctrl_byte c x \<and> \<not> cs_byte c x) ?cs then m1 x else m x)"
    by (simp add: restore_blobs_bytes)
  have "flist_slot f ?un = Some s" "\<forall>e \<in> set (carried ?un s). e = node_at m1 (fn_addr e)"
    using assms(2,4) by (simp_all add: same)
  from restore_freelists_bytes [OF this, of ar "cs_keeplive_restore ?un (restore_allocators False f ?un m)" x]
  have "restore_group False ar f ?un m x = (if replayed ar (carried un s) x then m1 x
      else if list_ex (\<lambda>c. cs_byte c x) ?cs then ml x
      else if list_ex (\<lambda>c. ctrl_byte c x \<and> \<not> cs_byte c x) ?cs then m1 x else m x)"
    by (simp add: restore_group_def Let_def keeplive_bytes a same)
  then show ?thesis by (auto simp: list_ex_iff)
qed

text \<open>Lists are clean again wherever the bytes they live in are the old ones.\<close>

lemma list_clean_again:
  assumes "list_clean ar1 m1 viol head cnt es"
    "\<And>e x. e \<in> set es \<Longrightarrow> node_cell (fn_addr e) x \<Longrightarrow> m x = m1 x"
    "\<forall>e \<in> set es. is_committed_addr ar (fn_addr e) \<and> is_committed_addr ar (fn_addr e + 0x40)"
  shows "list_clean ar m viol head cnt es"
proof -
  have "node_at m (fn_addr e) = node_at m1 (fn_addr e) \<and> rd64 m (fn_addr e + 0x20) = rd64 m1 (fn_addr e + 0x20)"
    if "e \<in> set es" for e
  proof -
    have "node_at m (fn_addr e) = node_at m1 (fn_addr e)" by (rule node_at_cong) (rule assms(2) [OF that])
    then show ?thesis by (simp add: node_at_def)
  qed
  then have "chained m 0x20 head es = chained m1 0x20 head es" by (intro chained_cong) blast
  then show ?thesis using assms(1,3) by (auto simp: list_clean_def walkable_def)
qed

definition ctrls_apart :: "nat list \<Rightarrow> bool" where
  "ctrls_apart cs \<longleftrightarrow> (\<forall>c \<in> set cs. \<forall>c' \<in> set cs. c \<noteq> c' \<longrightarrow> apart c CTRL_SIZE c' CTRL_SIZE)"

lemma cs_byte_ctrl: "cs_byte c x \<Longrightarrow> ctrl_byte c x"
  by (auto simp: cs_byte_def ctrl_byte_def CS_RANGES_def CTRL_SIZE_def)

lemma desc_byte:
  assumes "ctrls_apart cs" "c \<in> set cs" "ctrl_byte c x" "\<not> cs_byte c x"
  shows "\<not> list_ex (\<lambda>c. cs_byte c x) cs"
proof
  assume "list_ex (\<lambda>c. cs_byte c x) cs"
  then obtain c' where c': "c' \<in> set cs" "cs_byte c' x" by (auto simp: list_ex_iff)
  then have "c' \<noteq> c" using assms(4) by auto
  then have "apart c CTRL_SIZE c' CTRL_SIZE" using assms(1,2) c'(1) by (auto simp: ctrls_apart_def)
  then show False using cs_byte_ctrl [OF c'(2)] assms(3) by (auto simp: ctrl_byte_def apart_def)
qed

text \<open>Where the heads and counts of a control object are.\<close>

definition list_field :: "nat \<Rightarrow> nat \<Rightarrow> bool" where
  "list_field ctrl x \<longleftrightarrow> (\<exists>k < 8. mgr_of ctrl k + 0x58 \<le> x \<and> x < mgr_of ctrl k + 0x6c)
     \<or> ctrl + 0xc0 \<le> x \<and> x < ctrl + 0xd4 \<or> ctrl + 0x648 \<le> x \<and> x < ctrl + 0x64c"

lemma cs_byte_offset:
  "cs_byte ctrl (ctrl + y) \<longleftrightarrow> list_ex (\<lambda>(off, len). off \<le> y \<and> y < off + len) CS_RANGES"
  by (simp add: cs_byte_def add.assoc)

lemma mgr_field_desc:
  assumes "k < 8" "0x130 + k * 0xa8 \<le> y" "y < 0x144 + k * 0xa8"
  shows "y < CTRL_SIZE \<and> \<not> cs_byte ctrl (ctrl + y)"
proof -
  from assms(1) consider "k = 0" | "k = 1" | "k = 2" | "k = 3" | "k = 4" | "k = 5" | "k = 6" | "k = 7" by linarith
  then show ?thesis
    by cases (use assms(2,3) in \<open>simp_all add: cs_byte_offset CS_RANGES_def CTRL_SIZE_def\<close>)
qed

lemma list_field_desc: "list_field ctrl x \<Longrightarrow> ctrl_byte ctrl x \<and> \<not> cs_byte ctrl x"
proof -
  assume lf: "list_field ctrl x"
  have le: "ctrl \<le> x" using lf by (auto simp: list_field_def mgr_of_def)
  define y where "y = x - ctrl"
  have x: "x = ctrl + y" using le by (simp add: y_def)
  from lf consider k where "k < 8" "0x130 + k * 0xa8 \<le> y" "y < 0x144 + k * 0xa8"
    | "0xc0 \<le> y" "y < 0xd4" | "0x648 \<le> y" "y < 0x64c"
    by (auto simp: list_field_def mgr_of_def x)
  then have "y < CTRL_SIZE \<and> \<not> cs_byte ctrl (ctrl + y)"
  proof cases
    case 1
    then show ?thesis by (rule mgr_field_desc)
  qed (simp_all add: cs_byte_offset CS_RANGES_def CTRL_SIZE_def)
  then show ?thesis by (simp add: ctrl_byte_def x)
qed

lemma class_count_le: "class_count m ctrl \<le> 8"
  by (auto simp: class_count_def Let_def)

lemma group_clean_again:
  assumes "group_clean ar1 m1 ctrls ls"
    "\<And>e x. e \<in> set (unit_nodes ls) \<Longrightarrow> node_cell (fn_addr e) x \<Longrightarrow> m x = m1 x"
    "\<And>c x. c \<in> set ctrls \<Longrightarrow> list_field c x \<Longrightarrow> m x = m1 x"
    "\<forall>e \<in> set (unit_nodes ls). is_committed_addr ar (fn_addr e) \<and> is_committed_addr ar (fn_addr e + 0x40)"
  shows "group_clean ar m ctrls ls"
proof -
  have again: "list_clean ar m viol head cnt es"
    if "list_clean ar1 m1 viol head cnt es" "set es \<subseteq> set (unit_nodes ls)" for viol head cnt es
    by (rule list_clean_again [OF that(1)], rule assms(2)) (use that(2) assms(4) in auto)
  have "ctrl_clean ar m (ctrls ! i) (fst (ls ! i)) (snd (ls ! i))" if i: "i < length ls" for i
  proof -
    let ?c = "ctrls ! i"
    obtain ess rs where lsi: "ls ! i = (ess, rs)" by (cases "ls ! i")
    have c: "?c \<in> set ctrls" using assms(1) i by (simp add: group_clean_def)
    have C: "ctrl_clean ar1 m1 ?c ess rs" using assms(1) i lsi by (auto simp: group_clean_def)
    have "set (concat (fst (ls ! i)) @ snd (ls ! i)) \<subseteq> set (unit_nodes ls)"
      unfolding set_unit_nodes by (rule UN_upper [OF nth_mem [OF i]])
    then have sub: "set (concat ess @ rs) \<subseteq> set (unit_nodes ls)" by (simp only: lsi fst_conv snd_conv)
    have "rd32 m (?c + 0x648) = rd32 m1 (?c + 0x648)"
      by (rule c32.rd_bytes, rule assms(3) [OF c]) (simp add: list_field_def)
    then have n: "class_count m ?c = class_count m1 ?c" by (simp add: class_count_def)
    have "list_clean ar m True (rd64 m (mgr_of ?c k + 0x58)) (rd32 m (mgr_of ?c k + 0x68)) (ess ! k)"
      if k: "k < length ess" for k
    proof -
      have k8: "k < 8" using k C class_count_le [of m1 ?c] by (simp add: ctrl_clean_def)
      have "rd64 m (mgr_of ?c k + 0x58) = rd64 m1 (mgr_of ?c k + 0x58)"
        by (rule c64.rd_bytes, rule assms(3) [OF c]) (use k8 in \<open>auto simp: list_field_def intro!: exI [of _ k]\<close>)
      moreover have "rd32 m (mgr_of ?c k + 0x68) = rd32 m1 (mgr_of ?c k + 0x68)"
        by (rule c32.rd_bytes, rule assms(3) [OF c]) (use k8 in \<open>auto simp: list_field_def intro!: exI [of _ k]\<close>)
      moreover have "set (ess ! k) \<subseteq> set (unit_nodes ls)" using sub nth_mem [OF k] by auto
      ultimately show ?thesis using again C k by (simp add: ctrl_clean_def)
    qed
    moreover have "list_clean ar m False (rd64 m (?c + 0xc0)) (rd32 m (?c + 0xd0)) rs"
    proof -
      have "rd64 m (?c + 0xc0) = rd64 m1 (?c + 0xc0)"
        by (rule c64.rd_bytes, rule assms(3) [OF c]) (simp add: list_field_def)
      moreover have "rd32 m (?c + 0xd0) = rd32 m1 (?c + 0xd0)"
        by (rule c32.rd_bytes, rule assms(3) [OF c]) (simp add: list_field_def)
      ultimately show ?thesis using again C sub by (simp add: ctrl_clean_def)
    qed
    ultimately show ?thesis using C by (simp add: ctrl_clean_def n lsi)
  qed
  then show ?thesis using assms(1) by (simp add: group_clean_def)
qed

text \<open>C2. A rollback brings the allocators back as one instant: if every free list was sound when frame
  \<open>f\<close> was saved, then after up to nine later saves and whatever the engine, the page revert and the
  replay did to memory, the restore of \<open>f\<close> puts every list back node for node with its count. Byte
  for byte, the links of captured blocks and the control objects are those of the save, the
  critical sections those of the machine now, and nothing else changes.\<close>

theorem unit_restored:
  assumes "un_found un" "un_head un < 10" "\<forall>s. un_frames un s < f \<and> un_fl_frames un s < f"
    "donated c owned f (m0, ar0, un) = (m1, ar1, und)" "group_clean ar1 m1 (un_ctrls un) ls"
    "save_allocators base os c False owned True f (m0, ar0, un, q) = (m', ar', un1, q')"
    "length is < 10" "\<forall>i \<in> set is. f < si_frame i" "ctrls_apart (un_ctrls un)"
    "\<forall>e \<in> set (unit_nodes ls). is_committed_addr ar (fn_addr e) \<and> is_committed_addr ar (fn_addr e + 0x40)"
    "un2 = later_saves base is un1" "R = restore_group False ar f (cs_keeplive_snapshot ml un2) m"
  shows "m' = m1 \<and> group_clean ar R (un_ctrls un) ls
    \<and> R x = (if replayed ar (carried un2 (un_head un)) x then m1 x
             else if list_ex (\<lambda>c. cs_byte c x) (un_ctrls un) then ml x
             else if list_ex (\<lambda>c. ctrl_byte c x) (un_ctrls un) then m1 x else m x)"
proof -
  let ?h = "un_head un"
  let ?und = "save_blobs ?h m1 und"
  have D: "reg_view und = reg_view un" "un_frames und ?h = f" "\<forall>s. s \<noteq> ?h \<longrightarrow> slot_view s und = slot_view s un"
    using donated_other [OF assms(4)] by simp_all
  have ctrls: "un_ctrls ?und = un_ctrls un" using D(1) by (simp add: save_blobs_def reg_view_def)
  have "group_clean ar1 m1 (un_ctrls ?und) ls" using assms(5) ctrls by simp
  from save_freelists_clean [OF this, where os = os and slot = ?h and frame = f] obtain un' where S: "save_freelists ar1 os True f ?h (m1, ?und) = (m1, un')"
    "un_fl_valid un' ?h" "un_fl_frames un' ?h = f" "un_fl_nodes un' ?h = unit_nodes ls"
    "\<forall>e \<in> set (un_al_nodes un' ?h). e = node_at m1 (fn_addr e)" "un_blobs un' = un_blobs ?und"
    "un_frames un' = un_frames ?und"
    by blast
  have "donated c (True \<and> owned) f (m0, ar0, un) = (m1, ar1, und)" using assms(4) by simp
  from save_allocators_eq [OF assms(1) this S(1), of base q] assms(6)
  have m': "m' = m1" and un1: "un1 = un'\<lparr>un_head := (?h + 1) mod ALLOC_RING_SLOTS\<rparr>" by simp_all
  have O: "un_found un1" "un_ctrls un1 = un_ctrls un" "un_head un1 = (?h + 1) mod 10"
    "\<forall>s. s \<noteq> ?h \<longrightarrow> slot_view s un1 = slot_view s un" "un_frames un1 ?h = f"
    using save_allocators_other [OF assms(1,6)] by simp_all
  have at1: "slot_view ?h un1 = (f, un_blobs ?und ?h, f, True, unit_nodes ls, un_al_nodes un' ?h, un_al_valid un' ?h)"
    using S O(5) by (simp add: un1 slot_view_def)
  have far: "(un_head un1 + j) mod 10 \<noteq> ?h" if "j < length is" for j
    using ring10_apart [of 0 "1 + j" ?h] that assms(2,7) by (simp add: O(3) mod_simps)
  have "un_head un1 < 10" by (simp add: O(3))
  from later_saves_keep [where s = ?h, OF O(1) this far] have K: "slot_view ?h un2 = slot_view ?h un1" "un_ctrls un2 = un_ctrls un"
    using O(2) by (simp_all add: assms(11))
  have "un_frames un1 s \<noteq> f \<and> un_fl_frames un1 s \<noteq> f" if "s \<noteq> ?h" for s
    using O(4) that assms(3) by (auto simp: slot_view_def)
  then have "\<forall>s. s \<noteq> ?h \<longrightarrow> un_frames un1 s \<noteq> f \<and> un_fl_frames un1 s \<noteq> f" by blast
  from later_saves_frames [OF O(1) assms(8) this] have U: "\<forall>s. s \<noteq> ?h \<longrightarrow> un_frames un2 s \<noteq> f \<and> un_fl_frames un2 s \<noteq> f"
    by (simp add: assms(11))
  have V: "un_frames un2 ?h = f" "un_blobs un2 ?h = un_blobs ?und ?h" "un_fl_frames un2 ?h = f" "un_fl_valid un2 ?h"
    "carried un2 ?h = unit_nodes ls @ (if un_al_valid un2 ?h then un_al_nodes un' ?h else [])"
    using K(1) at1 by (simp_all add: slot_view_def carried_def)
  have best: "best_slot (\<lambda>g. g \<le> f) (un_frames un2) = Some ?h"
    by (rule best_slot_exact [where target = f]) (use V(1) U assms(2) in \<open>auto simp: DATA_RING_SLOTS_def\<close>)
  have slot: "flist_slot f un2 = Some ?h" by (rule flist_slot_unique) (use V(3,4) U assms(2) in auto)
  have blobs: "\<forall>i < length (un_ctrls un2). un_blobs un2 ?h i = blob_of m1 (un_ctrls un2 ! i)"
    using ctrls K(2) by (simp add: V(2)) (simp add: save_blobs_def)
  have unodes: "\<forall>e \<in> set (unit_nodes ls). e = node_at m1 (fn_addr e)"
  proof
    fix e assume "e \<in> set (unit_nodes ls)"
    then obtain p where p: "p \<in> set ls" "e \<in> set (concat (fst p) @ snd p)" by (auto simp: set_unit_nodes)
    then obtain i where i: "i < length ls" "e \<in> set (concat (fst (ls ! i)) @ snd (ls ! i))"
      by (metis in_set_conv_nth)
    then have C: "ctrl_clean ar1 m1 (un_ctrls un ! i) (fst (ls ! i)) (snd (ls ! i))" using assms(5) by (simp add: group_clean_def)
    have "\<exists>viol head cnt es. e \<in> set es \<and> list_clean ar1 m1 viol head cnt es"
      using i(2) C by (fastforce simp: ctrl_clean_def in_set_conv_nth)
    then show "e = node_at m1 (fn_addr e)" using chained_nodes by (auto simp: list_clean_def)
  qed
  then have nodes: "\<forall>e \<in> set (carried un2 ?h). e = node_at m1 (fn_addr e)" using S(5) by (auto simp: V(5))
  note bytes = restore_group_bytes [OF best slot blobs nodes, of ar ml m, folded assms(12), unfolded K(2)]
  have "R y = m1 y" if "e \<in> set (unit_nodes ls)" "node_cell (fn_addr e) y" for e y
  proof -
    have "replayed ar (carried un2 ?h) y"
      using that assms(10) by (auto simp: replayed_def V(5) list_ex_iff)
    then show ?thesis by (simp add: bytes)
  qed
  moreover have "R y = m1 y" if c: "k \<in> set (un_ctrls un)" "list_field k y" for k y
    using desc_byte [OF assms(9) c(1)] list_field_desc [OF c(2)] c(1) by (auto simp: bytes list_ex_iff)
  ultimately have "group_clean ar R (un_ctrls un) ls" using group_clean_again [OF assms(5)] assms(10) by blast
  then show ?thesis using m' bytes by blast
qed

text \<open>One allocator with one free block, one later save of zeroed memory.\<close>

definition unit_mem :: gmem where
  "unit_mem = wr32 0x30648 1 (wr64 0x30130 0x20000 (wr32 0x30140 1 (\<lambda>_. 0)))"

definition unit_start :: units where
  "unit_start = units_init\<lparr>un_found := True, un_ctrls := [0x30000]\<rparr>"

definition unit_later :: save_input where
  "unit_later = \<lparr>si_os = (\<lambda>_ _. False), si_commit = (\<lambda>_ _. True), si_owned = True, si_held = True, si_frame = 6,
     si_mem = (\<lambda>_. 0), si_arena = slab_arena, si_quar = quar_init\<rparr>"

lemma unit_reads:
  "rd32 unit_mem 0x30648 = 1" "rd64 unit_mem 0x30130 = 0x20000" "rd32 unit_mem 0x30140 = 1"
  "rd64 unit_mem 0x20020 = 0" "rd32 unit_mem 0x20038 = 0" "rd64 unit_mem 0x300c0 = 0" "rd32 unit_mem 0x300d0 = 0"
  by (simp_all add: unit_mem_def mem_simps rd_zero rd64_wr32 rd32_wr64 apart_def)

lemma unit_group: "group_clean slab_arena unit_mem [0x30000] [([[node_at unit_mem 0x20000]], [])]"
  by (simp add: group_clean_def ctrl_clean_def list_clean_def class_count_def unit_reads mgr_of_def walkable_def
      node_at_def unit_nodes_def FLIST_MAX_NODES_def is_committed_addr_def slab_arena_def ARENA_SIZE_def)

theorem unit_restored_witness:
  "\<exists>m' ar' un1 q'. save_allocators 0 (\<lambda>_ _. False) (\<lambda>_ _. True) False False True 5 (unit_mem, slab_arena, unit_start, quar_init)
      = (m', ar', un1, q')
    \<and> group_clean slab_arena
        (restore_group False slab_arena 5 (cs_keeplive_snapshot (\<lambda>_. 7) (later_saves 0 [unit_later] un1)) (\<lambda>_. 0))
        [0x30000] [([[node_at unit_mem 0x20000]], [])]"
proof -
  obtain m' ar' un1 q' where s: "save_allocators 0 (\<lambda>_ _. False) (\<lambda>_ _. True) False False True 5
      (unit_mem, slab_arena, unit_start, quar_init) = (m', ar', un1, q')" by (metis prod_cases4)
  obtain und where d: "donated (\<lambda>_ _. True) False 5 (unit_mem, slab_arena, unit_start) = (unit_mem, slab_arena, und)"
    by (simp add: donated_def Let_def)
  have u: "un_found unit_start" "un_head unit_start < 10" "un_ctrls unit_start = [0x30000]"
    "\<forall>s. un_frames unit_start s < 5 \<and> un_fl_frames unit_start s < 5"
    by (simp_all add: unit_start_def units_init_def)
  have n: "\<forall>e \<in> set (unit_nodes [([[node_at unit_mem 0x20000]], [])]).
      is_committed_addr slab_arena (fn_addr e) \<and> is_committed_addr slab_arena (fn_addr e + 0x40)"
    by (simp add: unit_nodes_def node_at_def is_committed_addr_def slab_arena_def ARENA_SIZE_def)
  have g: "group_clean slab_arena unit_mem (un_ctrls unit_start) [([[node_at unit_mem 0x20000]], [])]"
    using unit_group by (simp add: u)
  have l: "length [unit_later] < 10" "\<forall>i \<in> set [unit_later]. 5 < si_frame i" "ctrls_apart (un_ctrls unit_start)"
    by (simp_all add: unit_later_def u ctrls_apart_def)
  from unit_restored [OF u(1,2,4) d g s l n refl refl, where ml = "\<lambda>_. 7" and m = "\<lambda>_. 0"] s show ?thesis
    by (simp add: u(3))
qed

section \<open>Counts after a capture\<close>

text \<open>What a class's capture leaves, on both of its ways to go on.\<close>

definition class_listed :: "arena \<Rightarrow> gmem \<Rightarrow> nat \<Rightarrow> flnode list \<Rightarrow> bool" where
  "class_listed ar m mgr es \<longleftrightarrow>
     chained m 0x20 (rd64 m (mgr + 0x58)) es \<and> rd32 m (mgr + 0x68) = length es \<and> (\<forall>e \<in> set es. walkable ar True e)"

lemma class_listed_again:
  assumes "chained m 0x20 head es" "\<forall>e \<in> set es. walkable ar True e" "\<forall>e \<in> set es. apart (fn_addr e) 0x40 (mgr + 0x68) 8"
    "rd64 m (mgr + 0x58) = head" "length es < 2 ^ 32"
    "m' = wr32 (mgr + 0x6c) s (wr32 (mgr + 0x68) (length es) m)"
  shows "class_listed ar m' mgr es"
proof -
  have m': "m' x = m x" if "x < mgr + 0x68 \<or> mgr + 0x70 \<le> x" for x
  proof -
    have "x < mgr + 0x6c \<or> mgr + 0x6c + 4 \<le> x" "x < mgr + 0x68 \<or> mgr + 0x68 + 4 \<le> x" using that by auto
    then show ?thesis by (simp only: assms(6) c32.wr_outside)
  qed
  have "node_at m' (fn_addr e) = node_at m (fn_addr e) \<and> rd64 m' (fn_addr e + 0x20) = rd64 m (fn_addr e + 0x20)"
    if e: "e \<in> set es" for e
  proof -
    have "node_at m' (fn_addr e) = node_at m (fn_addr e)"
      by (rule node_at_cong, rule m') (use assms(3) e in \<open>auto simp: apart_def node_cell_def\<close>)
    then show ?thesis by (simp add: node_at_def)
  qed
  then have "chained m' 0x20 head es = chained m 0x20 head es" by (intro chained_cong) blast
  moreover have "rd64 m' (mgr + 0x58) = rd64 m (mgr + 0x58)" by (rule c64.rd_bytes, rule m') simp
  moreover have "rd32 m' (mgr + 0x68) = length es"
    using assms(5) by (simp add: assms(6) mem_simps apart_def)
  ultimately show ?thesis using assms(1,2,4) by (simp add: class_listed_def)
qed

lemma chained_path: "chained m 0x20 head es \<Longrightarrow> path m head (map fn_addr es)"
  by (induction es arbitrary: head) (auto simp: node_at_def)

text \<open>The size sums of the two ways: of the walked nodes, and of the blocks as the rebuild links them.\<close>

lemma rd32_wr32_mod: "rd32 (wr32 a v m) a = v mod 2 ^ 32"
  by (simp add: rd32_def wr32_def peek_poke_same length_enc32 unat_of_nat)

lemma size_sum_eq: "size_sum es = (\<Sum>e\<leftarrow>es. fn_f38 e div 2) mod 2 ^ 32"
proof -
  have "fold (\<lambda>e s. (s + fn_f38 e div 2) mod 2 ^ 32) es s mod 2 ^ 32 = (s + (\<Sum>e\<leftarrow>es. fn_f38 e div 2)) mod 2 ^ 32" for s
    by (induction es arbitrary: s) (simp_all add: mod_simps add.assoc)
  from this [of 0] have "fold (\<lambda>e s. (s + fn_f38 e div 2) mod 2 ^ 32) es 0 mod 2 ^ 32 = (\<Sum>e\<leftarrow>es. fn_f38 e div 2) mod 2 ^ 32"
    by simp
  moreover have "fold (\<lambda>e s. (s + fn_f38 e div 2) mod 2 ^ 32) es 0 < 2 ^ 32"
    by (cases es rule: rev_cases) simp_all
  ultimately show ?thesis by (simp add: size_sum_def)
qed

lemma commit_chain_sum:
  assumes "sorted_wrt (\<lambda>a b. apart a 0x40 b 0x40) bs" "s < 2 ^ 64" "commit_chain prv bs (m, s) = (m', ssum)"
  shows "ssum = (s + (\<Sum>b\<leftarrow>bs. rd32 m (b + 0x38) div 2)) mod 2 ^ 64
    \<and> (\<forall>x. (\<forall>b \<in> set bs. x < b + 0x18 \<or> b + 0x28 \<le> x) \<longrightarrow> m' x = m x)"
  using assms
proof (induction bs arbitrary: prv m s)
  case (Cons b bs)
  define nxt where "nxt = (case bs of [] \<Rightarrow> 0 | c # _ \<Rightarrow> c)"
  define m2 where "m2 = wr64 (b + 0x20) nxt (wr64 (b + 0x18) prv m)"
  have out: "m2 x = m x" if "x < b + 0x18 \<or> b + 0x28 \<le> x" for x
  proof -
    have "x < b + 0x20 \<or> b + 0x20 + 8 \<le> x" "x < b + 0x18 \<or> b + 0x18 + 8 \<le> x" using that by auto
    then show ?thesis by (simp only: m2_def c64.wr_outside)
  qed
  let ?s = "(s + rd32 m2 (b + 0x38) div 2) mod 2 ^ 64"
  have c: "commit_chain b bs (m2, ?s) = (m', ssum)" using Cons.prems(3) by (simp add: m2_def nxt_def Let_def)
  have I: "ssum = (?s + (\<Sum>c\<leftarrow>bs. rd32 m2 (c + 0x38) div 2)) mod 2 ^ 64"
    "\<forall>x. (\<forall>c \<in> set bs. x < c + 0x18 \<or> c + 0x28 \<le> x) \<longrightarrow> m' x = m2 x"
    using Cons.IH [OF _ _ c] Cons.prems(1) by auto
  have sz: "rd32 m2 (c + 0x38) = rd32 m (c + 0x38)" if "c \<in> set (b # bs)" for c
    using that Cons.prems(1) by (intro c32.rd_bytes out) (auto simp: apart_def)
  have "(\<Sum>c\<leftarrow>bs. rd32 m2 (c + 0x38) div 2) = (\<Sum>c\<leftarrow>bs. rd32 m (c + 0x38) div 2)"
    by (rule arg_cong [of _ _ sum_list], rule map_cong) (simp_all add: sz)
  then have "ssum = (s + (\<Sum>c\<leftarrow>b # bs. rd32 m (c + 0x38) div 2)) mod 2 ^ 64"
    using I(1) sz [of b] by (simp add: mod_simps add.assoc)
  then show ?case using I(2) out by simp
qed simp

lemma chained_sizes:
  "chained m 0x20 h es \<Longrightarrow> (\<Sum>e\<leftarrow>es. fn_f38 e div 2) = (\<Sum>b\<leftarrow>map fn_addr es. rd32 m (b + 0x38) div 2)"
  by (induction es arbitrary: h) (auto simp: node_at_def)

text \<open>The rebuild's size sum, for blocks that do not overlap one another or the descriptor.\<close>

lemma rebuild_size:
  assumes "rebuild_free_list_from_pool ar os ctrl k m = (m', Some n)" "mgr = ctrl + 0xd8 + k * 0xa8"
    "sweep_all ar os m (rd32 m (mgr + 0x70)) ((rd64 m (ctrl + 0x90), rd64 m (ctrl + 0x98)) # donated_ranges ar ctrl) [] = Some bs"
    "sorted_wrt (\<lambda>a b. apart a 0x40 b 0x40) bs" "\<forall>b \<in> set bs. apart b 0x40 (mgr + 0x58) 0x18"
  shows "rd32 m' (mgr + 0x6c) = (\<Sum>b\<leftarrow>bs. rd32 m' (b + 0x38) div 2) mod 2 ^ 32"
proof -
  obtain m1 ssum where B: "commit_chain 0 bs (m, 0) = (m1, ssum)"
    "m' = desc_writes mgr (if bs = [] then 0 else hd bs) (if bs = [] then 0 else last bs) (length bs) ssum m1"
    using rebuild_result [OF assms(1,2)] assms(3) by auto
  have S: "ssum = (\<Sum>b\<leftarrow>bs. rd32 m (b + 0x38) div 2) mod 2 ^ 64"
    "\<forall>x. (\<forall>b \<in> set bs. x < b + 0x18 \<or> b + 0x28 \<le> x) \<longrightarrow> m1 x = m x"
    using commit_chain_sum [OF assms(4) _ B(1)] by simp_all
  have D: "m' x = m1 x" if "\<not> (mgr + 0x58 \<le> x \<and> x < mgr + 0x70)" for x
  proof -
    have "x < mgr + 0x6c \<or> mgr + 0x6c + 4 \<le> x" "x < mgr + 0x68 \<or> mgr + 0x68 + 4 \<le> x"
      "x < mgr + 0x60 \<or> mgr + 0x60 + 8 \<le> x" "x < mgr + 0x58 \<or> mgr + 0x58 + 8 \<le> x" using that by auto
    then show ?thesis by (simp only: B(2) desc_writes_def c32.wr_outside c64.wr_outside)
  qed
  have "rd32 m' (b + 0x38) = rd32 m (b + 0x38)" if b: "b \<in> set bs" for b
  proof (rule c32.rd_bytes)
    fix x assume x: "b + 0x38 \<le> x" "x < b + 0x38 + 4"
    have "apart b 0x40 c 0x40 \<or> c = b" if "c \<in> set bs" for c
      using assms(4) b that
      by (induction bs) (auto simp: apart_def)
    then have "x < c + 0x18 \<or> c + 0x28 \<le> x" if "c \<in> set bs" for c using x that by (fastforce simp: apart_def)
    moreover have "\<not> (mgr + 0x58 \<le> x \<and> x < mgr + 0x70)" using assms(5) b x by (fastforce simp: apart_def)
    ultimately show "m' x = m x" using D S(2) by simp
  qed
  then have "(\<Sum>b\<leftarrow>bs. rd32 m' (b + 0x38) div 2) = (\<Sum>b\<leftarrow>bs. rd32 m (b + 0x38) div 2)"
    by (intro arg_cong [of _ _ sum_list] map_cong) simp_all
  moreover have "rd32 m' (mgr + 0x6c) = ssum mod 2 ^ 32" by (simp add: B(2) desc_writes_def rd32_wr32_mod)
  ultimately show ?thesis by (simp add: S(1) mod_mod_cancel)
qed

text \<open>C27. After a capture that goes on, count and chain of the class agree again, whatever drift or tear
  the save found: a walked list gets its count corrected, a cyclic, dangling or violated one is
  rebuilt from the pool. The captured nodes are the chain, none is in use; unless the count was right and
  nothing was written, the size sum is the sum of the sizes of the nodes; and the descriptor saved for
  the slot is the one in memory, with both corrected. Nodes lie outside the descriptor, and for the
  size sum apart from one another. (A wrong size sum beside a right count stays as it is.)\<close>

theorem capture_heals:
  assumes "capture_class ar os tgt i ctrl k st = (st', True)" "mgr = mgr_of ctrl k"
    "cp_blobs st i = blob_of (cp_mem st) ctrl"
    "\<forall>e \<in> set (cp_nodes st'). apart (fn_addr e) 0x40 (mgr + 0x58) 0x18"
    "sorted_wrt (\<lambda>d e. apart (fn_addr d) 0x40 (fn_addr e) 0x40) (cp_nodes st')"
    "rs = (rd64 (cp_mem st) (ctrl + 0x90), rd64 (cp_mem st) (ctrl + 0x98)) # donated_ranges ar ctrl"
    "ranges_ok ar rs" "ar_base ar + ARENA_SIZE \<le> 0x7FFFFFFFFFFF" "\<forall>(l, h) \<in> set rs. desc_apart mgr l h"
  shows "\<exists>es. cp_nodes st' = cp_nodes st @ es \<and> class_listed ar (cp_mem st') mgr es
    \<and> (cp_mem st' = cp_mem st \<or> rd32 (cp_mem st') (mgr + 0x6c) = (\<Sum>e\<leftarrow>es. fn_f38 e div 2) mod 2 ^ 32)
    \<and> cp_blobs st' i = blob_of (cp_mem st') ctrl"
proof -
  let ?m = "cp_mem st"
  let ?walk = "flist_walk_list ar ?m (rd64 ?m (mgr + 0x58)) (rd32 ?m (mgr + 0x68)) (length (cp_nodes st)) True"
  have mgr: "ctrl + 0xd8 + k * 0xa8 = mgr" by (simp add: assms(2) mgr_of_def)
  show ?thesis
  proof (cases ?walk)
    case (Inr es)
    then have w: "chained ?m 0x20 (rd64 ?m (mgr + 0x58)) es" "\<forall>e \<in> set es. walkable ar True e"
      "length es \<le> FLIST_MAX_NODES" by (auto simp: flist_walk_list_def unit_walk_iff)
    let ?st1 = "st\<lparr>cp_nodes := cp_nodes st @ es\<rparr>"
    let ?st2 = "heal_count i ctrl mgr es ?st1"
    have st': "st' = capture_alist ar tgt ctrl mgr ?st2"
      using assms(1) Inr by (simp add: capture_class_def Let_def mgr)
    then have p: "cp_mem st' = cp_mem ?st2" "cp_blobs st' = cp_blobs ?st2" "cp_nodes st' = cp_nodes ?st2"
      using capture_alist_proj [of ar tgt ctrl mgr ?st2] by simp_all
    have n: "cp_nodes st' = cp_nodes st @ es" by (simp add: p heal_count_def Let_def)
    show ?thesis
    proof (cases "length es = rd32 ?m (mgr + 0x68)")
      case True
      then show ?thesis using w n p assms(3) by (simp add: heal_count_def class_listed_def)
    next
      case False
      have "apart (fn_addr e) 0x40 (mgr + 0x68) 8" if "e \<in> set es" for e
      proof -
        have "apart (fn_addr e) 0x40 (mgr + 0x58) 0x18" using assms(4) n that by simp
        then show ?thesis by (auto simp: apart_def)
      qed
      moreover have "length es < 2 ^ 32" using w(3) by (simp add: FLIST_MAX_NODES_def)
      ultimately have "class_listed ar (cp_mem st') mgr es"
        using class_listed_again [OF w(1,2) _ refl] False by (simp add: p heal_count_def Let_def)
      moreover have "rd32 (cp_mem st') (mgr + 0x6c) = (\<Sum>e\<leftarrow>es. fn_f38 e div 2) mod 2 ^ 32"
        using False by (simp add: p heal_count_def Let_def rd32_wr32_mod size_sum_eq)
      ultimately show ?thesis using n False by (simp add: p heal_count_def Let_def)
    qed
  next
    case (Inl fault)
    then have r: "capture_rebuilt ar os i ctrl k mgr st = (st', True)"
      using assms(1) by (cases fault) (simp_all add: capture_class_def Let_def mgr)
    obtain m' cnt where rb: "rebuild_free_list_from_pool ar os ctrl k ?m = (m', Some cnt)"
      using r by (auto simp: capture_rebuilt_def split: prod.splits option.splits)
    obtain es where es: "flist_walk_list ar m' (rd64 m' (mgr + 0x58)) (rd32 m' (mgr + 0x68)) (length (cp_nodes st)) True = Inr es"
      and st': "st' = st\<lparr>cp_mem := m', cp_nodes := cp_nodes st @ es, cp_blobs := (cp_blobs st)(i := blob_of m' ctrl), cp_abad := True\<rparr>"
      using r by (auto simp: capture_rebuilt_def rb split: sum.splits)
    from es have w: "chained m' 0x20 (rd64 m' (mgr + 0x58)) es" "\<forall>e \<in> set es. walkable ar True e"
      by (auto simp: flist_walk_list_def unit_walk_iff)
    obtain bs where bs: "sweep_all ar os ?m (rd32 ?m (mgr + 0x70)) rs [] = Some bs" "cnt = length bs"
        "path m' (rd64 m' (mgr + 0x58)) bs" "rd32 m' (mgr + 0x68) = cnt"
      using rebuild_chain [OF rb mgr [symmetric] assms(6-9)] by blast
    have eb: "map fn_addr es = bs" using path_unique [OF chained_path [OF w(1)] bs(3)] .
    then have len: "length es = cnt" using bs(2) by auto
    have "sorted_wrt (\<lambda>a b. apart a 0x40 b 0x40) bs" "\<forall>b \<in> set bs. apart b 0x40 (mgr + 0x58) 0x18"
      using assms(4,5) by (auto simp: st' sorted_wrt_append sorted_wrt_map simp flip: eb)
    from rebuild_size [OF rb mgr [symmetric] bs(1) [unfolded assms(6)] this]
    have "rd32 m' (mgr + 0x6c) = (\<Sum>e\<leftarrow>es. fn_f38 e div 2) mod 2 ^ 32"
      by (simp only: chained_sizes [OF w(1)] eb)
    then show ?thesis using w bs(4) len by (simp add: st' class_listed_def)
  qed
qed

text \<open>A class of one block whose count says three.\<close>

definition drift_mem :: gmem where
  "drift_mem = wr32 0x30140 3 (wr64 0x30090 0x20000 (wr64 0x30098 0x20200 (wr64 0x30130 0x20000 (\<lambda>_. 0))))"

definition drift_state :: capture_state where
  "drift_state = \<lparr>cp_mem = drift_mem, cp_blobs = (\<lambda>_. blob_of drift_mem 0x30000), cp_nodes = [], cp_anodes = [], cp_abad = False\<rparr>"

lemma drift_reads:
  "rd32 drift_mem 0x30140 = 3" "rd64 drift_mem 0x30130 = 0x20000" "rd64 drift_mem 0x20020 = 0" "rd32 drift_mem 0x20038 = 0"
  "rd64 drift_mem 0x30090 = 0x20000" "rd64 drift_mem 0x30098 = 0x20200"
  by (simp_all add: drift_mem_def mem_simps rd_zero rd64_wr32 rd32_wr64 apart_def)

theorem capture_heals_witness:
  "\<exists>st' es. capture_class slab_arena (\<lambda>_ _. False) 0 0 0x30000 0 drift_state = (st', True)
    \<and> class_listed slab_arena (cp_mem st') 0x300d8 es \<and> map fn_addr es = [0x20000]
    \<and> cp_blobs st' 0 = blob_of (cp_mem st') 0x30000"
proof -
  let ?es = "[node_at drift_mem 0x20000]"
  have wk: "flist_walk_list slab_arena drift_mem 0x20000 3 0 True = Inr ?es"
    by (simp add: flist_walk_list_def unit_walk_iff drift_reads walkable_def node_at_def is_committed_addr_def
        slab_arena_def ARENA_SIZE_def FLIST_MAX_NODES_def)
  define st2 where "st2 = heal_count 0 0x30000 0x300d8 ?es (drift_state\<lparr>cp_nodes := ?es\<rparr>)"
  have c: "capture_class slab_arena (\<lambda>_ _. False) 0 0 0x30000 0 drift_state = (capture_alist slab_arena 0 0x30000 0x300d8 st2, True)"
    using wk by (simp add: capture_class_def drift_state_def drift_reads Let_def st2_def)
  have n: "cp_nodes (capture_alist slab_arena 0 0x30000 0x300d8 st2) = ?es"
    using capture_alist_proj [of slab_arena 0 "0x30000" "0x300d8" st2] by (simp add: st2_def heal_count_def Let_def)
  have d: "cp_mem drift_state = drift_mem" "cp_nodes drift_state = []" by (simp_all add: drift_state_def)
  have a: "cp_blobs drift_state 0 = blob_of (cp_mem drift_state) 0x30000" by (simp add: drift_state_def)
  have b: "\<forall>e \<in> set (cp_nodes (capture_alist slab_arena 0 0x30000 0x300d8 st2)). apart (fn_addr e) 0x40 (0x300d8 + 0x58) 0x18"
    "sorted_wrt (\<lambda>d e. apart (fn_addr d) 0x40 (fn_addr e) 0x40) (cp_nodes (capture_alist slab_arena 0 0x30000 0x300d8 st2))"
    by (simp_all add: n node_at_def apart_def)
  have g: "donated_ranges slab_arena 0x30000 = []" by (simp add: donated_ranges_def slab_arena_def)
  have r: "ranges_ok slab_arena [(0x20000, 0x20200)]" "ar_base slab_arena + ARENA_SIZE \<le> 0x7FFFFFFFFFFF"
    "\<forall>(l, h) \<in> set [(0x20000, 0x20200)]. desc_apart 0x300d8 l h"
    by (simp_all add: ranges_ok_def slab_arena_def ARENA_SIZE_def desc_apart_def)
  have m: "0x300d8 = mgr_of 0x30000 0" by (simp add: mgr_of_def)
  have rs: "[(0x20000, 0x20200)] = (rd64 (cp_mem drift_state) (0x30000 + 0x90), rd64 (cp_mem drift_state) (0x30000 + 0x98))
      # donated_ranges slab_arena 0x30000" by (simp add: d g drift_reads)
  obtain es where "cp_nodes (capture_alist slab_arena 0 0x30000 0x300d8 st2) = [] @ es"
    "class_listed slab_arena (cp_mem (capture_alist slab_arena 0 0x30000 0x300d8 st2)) 0x300d8 es"
    "cp_blobs (capture_alist slab_arena 0 0x30000 0x300d8 st2) 0 = blob_of (cp_mem (capture_alist slab_arena 0 0x30000 0x300d8 st2)) 0x30000"
    using capture_heals [OF c m a b rs r] d(2) by auto
  then show ?thesis using c n by (intro exI conjI) (auto simp: node_at_def)
qed

section \<open>Donation\<close>

lemma apart_sub: "apart a n b k \<Longrightarrow> i + n' \<le> n \<Longrightarrow> j + k' \<le> k \<Longrightarrow> apart (a + i) n' (b + j) k'"
  by (auto simp: apart_def)

lemma apart_sym: "apart a n b k = apart b k a n"
  by (auto simp: apart_def)

text \<open>The reserve of an allocator: its blocks in order, linked both ways, with tail and count right.\<close>

definition reserve :: "gmem \<Rightarrow> nat \<Rightarrow> nat list \<Rightarrow> bool" where
  "reserve m ctrl ns \<longleftrightarrow> path m (rd64 m (ctrl + 0xc0)) ns \<and> backs m 0 ns
     \<and> rd64 m (ctrl + 0xc8) = (if ns = [] then 0 else last ns) \<and> rd32 m (ctrl + 0xd0) = length ns
     \<and> (\<forall>n \<in> set ns. n < 2 ^ 64 \<and> apart n 0x40 ctrl CTRL_SIZE) \<and> sorted_wrt (\<lambda>a b. apart a 0x40 b 0x40) ns"

lemma path_snoc:
  assumes "path m x (ns @ [t])" "r \<noteq> 0" "rd64 m' (t + 0x20) = r" "rd64 m' (r + 0x20) = 0"
    "\<forall>n \<in> set ns. rd64 m' (n + 0x20) = rd64 m (n + 0x20)"
  shows "path m' x (ns @ [t, r])"
  using assms by (induction ns arbitrary: x) auto

lemma backs_snoc: "backs m p (ns @ [r]) \<longleftrightarrow> backs m p ns \<and> rd64 m (r + 0x18) = (if ns = [] then p else last ns)"
  by (induction ns arbitrary: p) auto

lemma splice_reserve:
  assumes "reserve m ctrl ns" "apart r 0x40 ctrl CTRL_SIZE" "\<forall>n \<in> set ns. apart n 0x40 r 0x40"
    "0 < r" "r < 2 ^ 64" "length ns + 1 < 2 ^ 32"
  shows "reserve (splice_region ctrl r m) ctrl (ns @ [r]) \<and> rd32 (splice_region ctrl r m) (r + 0x38) = DSZ div 16 * 2"
proof -
  let ?m = "splice_region ctrl r m"
  have A: "apart (ctrl + i) a (r + j) b" "apart (r + j) b (ctrl + i) a" if "i + a \<le> CTRL_SIZE" "j + b \<le> 0x40" for i a j b
    using assms(2) that by (auto simp: apart_def)
  note ctrl_r = A [unfolded CTRL_SIZE_def]
  have R: "apart (r + i) a (r + j) b" if "i + a \<le> j \<or> j + b \<le> i" for i a j b using that by (auto simp: apart_def)
  have C: "apart (ctrl + i) a (ctrl + j) b" if "i + a \<le> j \<or> j + b \<le> i" for i a j b using that by (auto simp: apart_def)
  have D: "DSZ div 16 * 2 < 2 ^ 32" by (simp add: DSZ_def)
  show ?thesis
  proof (cases ns rule: rev_cases)
    case Nil
    have z: "rd64 m (ctrl + 0xc8) = 0" "rd32 m (ctrl + 0xd0) = 0" using assms(1) Nil by (simp_all add: reserve_def)
    have t0: "rd64 (wr32 (r + 0x3c) w (wr32 (r + 0x38) v m)) (ctrl + 0xc8) = 0" for v w
      using z by (simp add: rd64_wr32 ctrl_r)
    have "rd64 ?m (ctrl + 0xc0) = r" "rd64 ?m (ctrl + 0xc8) = r" "rd32 ?m (ctrl + 0xd0) = 1" "rd64 ?m (r + 0x20) = 0"
      "rd64 ?m (r + 0x18) = 0" "rd32 ?m (r + 0x38) = DSZ div 16 * 2"
      using assms(4,5) D z by (simp_all add: splice_region_def Let_def t0 mem_simps ctrl_r R C)
    then show ?thesis using assms(2,4,5) Nil by (simp add: reserve_def)
  next
    case (snoc us t)
    have rs: "rd64 m (ctrl + 0xc8) = t" "rd32 m (ctrl + 0xd0) = length us + 1" "t \<noteq> 0" "t < 2 ^ 64"
      "apart t 0x40 ctrl CTRL_SIZE" "\<forall>u \<in> set us. apart u 0x40 t 0x40" "\<forall>u \<in> set us. apart u 0x40 ctrl CTRL_SIZE"
      using assms(1) path_suffix [of m _ us t "[]"] by (auto simp: reserve_def snoc sorted_wrt_append)
    have T: "apart (ctrl + i) a (t + j) b" "apart (t + j) b (ctrl + i) a" if "i + a \<le> CTRL_SIZE" "j + b \<le> 0x40" for i a j b
      using rs(5) that by (auto simp: apart_def)
    note ctrl_t = T [unfolded CTRL_SIZE_def]
    have TT: "apart (t + i) a (t + j) b" if "i + a \<le> j \<or> j + b \<le> i" for i a j b using that by (auto simp: apart_def)
    have tr: "apart (t + i) a (r + j) b" "apart (r + j) b (t + i) a" if "i + a \<le> 0x40" "j + b \<le> 0x40" for i a j b
      using assms(3) that by (auto simp: apart_def snoc)
    have t0: "rd64 (wr32 (r + 0x3c) w (wr32 (r + 0x38) v m)) (ctrl + 0xc8) = t" for v w
      using rs(1) by (simp add: rd64_wr32 ctrl_r)
    have new: "rd64 ?m (ctrl + 0xc0) = rd64 m (ctrl + 0xc0)" "rd64 ?m (ctrl + 0xc8) = r" "rd32 ?m (ctrl + 0xd0) = length us + 2"
      "rd64 ?m (t + 0x20) = r" "rd64 ?m (t + 0x18) = rd64 m (t + 0x18)"
      "rd64 ?m (r + 0x20) = 0" "rd64 ?m (r + 0x18) = t" "rd32 ?m (r + 0x38) = DSZ div 16 * 2"
      using assms(4-6) D rs(2,3,4) snoc by (simp_all add: splice_region_def Let_def t0 mem_simps ctrl_r ctrl_t tr R C TT)
    have old: "rd64 ?m (u + k) = rd64 m (u + k)" if u: "u \<in> set us" and k: "k + 8 \<le> 0x40" for u k
    proof -
      have "apart (u + k) 8 (r + j) b" if "j + b \<le> 0x40" for j b using assms(3) u k that by (auto simp: apart_def snoc)
      moreover have "apart (u + k) 8 (t + j) b" if "j + b \<le> 0x40" for j b using rs(6) u k that by (auto simp: apart_def)
      moreover have "apart (u + k) 8 (ctrl + j) b" if "j + b \<le> 0x660" for j b
        using rs(7) u k that by (auto simp: apart_def CTRL_SIZE_def)
      ultimately show ?thesis using rs(3) by (simp add: splice_region_def Let_def t0 mem_simps)
    qed
    have "path ?m (rd64 ?m (ctrl + 0xc0)) (us @ [t, r])"
      unfolding new(1) by (rule path_snoc [where m = m]) (use assms(1,4) new old in \<open>simp_all add: reserve_def snoc\<close>)
    moreover have "backs ?m 0 (us @ [t])"
    proof -
      have "backs m 0 (us @ [t])" using assms(1) by (simp add: reserve_def snoc)
      moreover have "backs ?m 0 (us @ [t]) = backs m 0 (us @ [t])"
        by (rule backs_cong) (use old new(5) in auto)
      ultimately show ?thesis by simp
    qed
    moreover have "backs ?m 0 ((us @ [t]) @ [r])" using \<open>backs ?m 0 (us @ [t])\<close> new(7) by (simp only: backs_snoc) simp
    ultimately show ?thesis using assms(1-3,5) new snoc by (simp add: reserve_def sorted_wrt_append)
  qed
qed

text \<open>A donation keeps the reserve a list and the budgets: a top-up that goes on appends one free
  region, linked both ways, with tail and count right, notes it as donated to that allocator, and
  leaves the donor within 128 MB for the allocator and 512 MB in all; it happens only below the
  16 MB floor.\<close>

theorem donation_extends_reserve:
  assumes "donate_step ok i ctrl (m, ar, un) = ((m', ar', un'), True)" "reserve m ctrl ns"
    "carve_donation_region ok DSZ ar = (ar1, Some r)" "apart r 0x40 ctrl CTRL_SIZE" "\<forall>n \<in> set ns. apart n 0x40 r 0x40"
    "0 < r" "r < 2 ^ 64" "length ns + 1 < 2 ^ 32" "DSZ dvd un_don un i" "DSZ dvd un_don_total un"
  shows "reserve m' ctrl (ns @ [r]) \<and> rd32 m' (r + 0x38) mod 2 = 0
    \<and> ar' = note_donated_region ctrl r DSZ ar1 \<and> rd32 m (ctrl + 0xd4) * 16 < RESERVE_FLOOR
    \<and> un_don un' i \<le> DON_PER_CTRL \<and> un_don_total un' \<le> DON_TOTAL
    \<and> DSZ dvd un_don un' i \<and> DSZ dvd un_don_total un'"
proof -
  have g: "rd32 m (ctrl + 0xd4) * 16 < RESERVE_FLOOR" "un_don un i < DON_PER_CTRL" "un_don_total un < DON_TOTAL"
    and e: "m' = splice_region ctrl r m" "ar' = note_donated_region ctrl r DSZ ar1"
      "un' = un\<lparr>un_don := (un_don un)(i := un_don un i + DSZ), un_don_total := un_don_total un + DSZ\<rparr>"
    using assms(1) by (auto simp: donate_step_def assms(3) Let_def split: if_splits)
  have up: "a + DSZ \<le> b" if "DSZ dvd a" "DSZ dvd b" "a < b" for a b :: nat
  proof -
    have "DSZ dvd b - a" using that by simp
    then have "DSZ \<le> b - a" using that(3) by (intro dvd_imp_le) auto
    then show ?thesis using that(3) by simp
  qed
  have "DSZ dvd DON_PER_CTRL" "DSZ dvd DON_TOTAL" by (simp_all add: DSZ_def DON_PER_CTRL_def DON_TOTAL_def)
  then have "un_don un i + DSZ \<le> DON_PER_CTRL" "un_don_total un + DSZ \<le> DON_TOTAL" using up g(2,3) assms(9,10) by blast+
  moreover have "reserve m' ctrl (ns @ [r])" "rd32 m' (r + 0x38) = DSZ div 16 * 2"
    using splice_reserve [OF assms(2,4-8)] by (simp_all add: e)
  ultimately show ?thesis using g(1) e assms(9,10) by simp
qed

definition donor_arena :: arena where "donor_arena = arena_init 0x10000000"

theorem donation_extends_reserve_witness:
  "\<exists>m' ar' un' r. donate_step True 0 0x30000 (\<lambda>_. 0, donor_arena, unit_start) = ((m', ar', un'), True)
    \<and> reserve m' 0x30000 [r] \<and> un_don un' 0 \<le> DON_PER_CTRL"
proof -
  have "\<exists>ar1 r. carve_donation_region True DSZ donor_arena = (ar1, Some r) \<and> 0x10000000 \<le> r \<and> r < 0x20000000"
    by (simp add: carve_donation_region_def donor_arena_def arena_init_def DSZ_def align_up_def ALLOC_GRANULARITY_def carve_def
        alloc_from_free_list_def ARENA_SIZE_def HEAP_ZONE_SIZE_def add64_def commit_pages_def Let_def)
  then obtain ar1 r where c: "carve_donation_region True DSZ donor_arena = (ar1, Some r)" "0x10000000 \<le> r" "r < 0x20000000" by blast
  have u: "un_don unit_start 0 = 0" "un_don_total unit_start = 0" by (simp_all add: unit_start_def units_init_def)
  have z: "rd32 (\<lambda>_. 0) (0x30000 + 0xd4) * 16 < RESERVE_FLOOR" by (simp add: rd_zero RESERVE_FLOOR_def)
  obtain m' ar' un' where d: "donate_step True 0 0x30000 (\<lambda>_. 0, donor_arena, unit_start) = ((m', ar', un'), True)"
    using z by (simp add: donate_step_def c(1) u DON_PER_CTRL_def DON_TOTAL_def Let_def)
  have "reserve (\<lambda>_. 0) 0x30000 []" by (simp add: reserve_def rd_zero)
  moreover have "apart r 0x40 0x30000 CTRL_SIZE" using c by (simp add: apart_def CTRL_SIZE_def)
  ultimately show ?thesis
    using donation_extends_reserve [OF d _ c(1), where ns = "[]"] c d u by (intro exI [of _ r] exI [of _ m'] exI [of _ ar'] exI [of _ un']) auto
qed

section \<open>Restoring what was never saved\<close>

text \<open>A restore to a frame nothing was saved for wipes the allocators: a fresh slot carries the
  frame -1, the scan admits it for every target, and the control objects become zero outside
  their critical sections; the data ring's scan refuses such slots.\<close>

theorem restore_unsaved_zeroes:
  assumes "\<forall>s < 10. un_frames un s = -1 \<or> f < un_frames un s" "s < 10" "un_frames un s = -1" "0 \<le> f"
    "\<forall>s < 10. un_frames un s = -1 \<longrightarrow> un_blobs un s = un_blobs units_init s"
    "i < length (un_ctrls un)" "un_ctrls un ! i + y = x" "y < CTRL_SIZE" "\<not> cs_byte (un_ctrls un ! i) x"
  shows "restore_allocators False f un m x = 0
    \<and> best_slot (\<lambda>g. 0 \<le> g \<and> g \<le> f) (un_frames un) = None"
proof -
  obtain b where b: "best_slot (\<lambda>g. g \<le> f) (un_frames un) = Some b"
    using assms(2-4) best_slot_None [of "\<lambda>g. g \<le> f" "un_frames un"] by (cases "best_slot (\<lambda>g. g \<le> f) (un_frames un)")
      (auto simp: DATA_RING_SLOTS_def)
  from best_slot_Some [OF b] have "b < 10" "un_frames un b \<le> f" by (simp_all add: DATA_RING_SLOTS_def)
  then have ub: "un_blobs un b = un_blobs units_init b" using assms(1,5) by force
  have blob: "un_blobs un b j = blob_of (\<lambda>_. 0) c" for j c
    by (simp add: ub units_init_def blob_of_def peek_bytes_def map_replicate_const)
  have step: "restore_blob (un_ctrls un ! j) (un_blobs un b j)
      = restore_blob (un_ctrls un ! j) (blob_of (\<lambda>_. 0) (un_ctrls un ! j))" for j
    using blob [of j "un_ctrls un ! j"] by simp
  have "restore_allocators False f un m
      = fold (\<lambda>j. restore_blob (un_ctrls un ! j) (blob_of (\<lambda>_. 0) (un_ctrls un ! j))) [0..<length (un_ctrls un)] m"
    unfolding restore_allocators_def b by (simp add: step)
  also have "\<dots> = fold (\<lambda>c. restore_blob c (blob_of (\<lambda>_. 0) c)) (map ((!) (un_ctrls un)) [0..<length (un_ctrls un)]) m"
    by (simp add: fold_map comp_def)
  finally have "restore_allocators False f un m x
      = (if list_ex (\<lambda>c. ctrl_byte c x \<and> \<not> cs_byte c x) (un_ctrls un) then 0 else m x)"
    by (simp add: map_nth restore_blobs_bytes)
  moreover have "ctrl_byte (un_ctrls un ! i) x" using assms(7,8) by (auto simp: ctrl_byte_def)
  moreover have "best_slot (\<lambda>g. 0 \<le> g \<and> g \<le> f) (un_frames un) = None"
    unfolding best_slot_None using assms(1) by (force simp: DATA_RING_SLOTS_def)
  ultimately show ?thesis using assms(6,9) nth_mem [OF assms(6)] by (auto simp: list_ex_iff)
qed

theorem restore_unsaved_zeroes_witness:
  "restore_allocators False 100 unit_start (\<lambda>_. 7) 0x30130 = 0"
proof -
  have u: "\<forall>s < 10. un_frames unit_start s = -1 \<or> 100 < un_frames unit_start s" "un_frames unit_start 0 = -1"
    "\<forall>s < 10. un_frames unit_start s = -1 \<longrightarrow> un_blobs unit_start s = un_blobs units_init s"
    "0 < length (un_ctrls unit_start)" "un_ctrls unit_start ! 0 + 0x130 = 0x30130"
    by (simp_all add: unit_start_def units_init_def)
  have "\<not> cs_byte (un_ctrls unit_start ! 0) 0x30130" "0x130 < CTRL_SIZE"
    by (simp_all add: unit_start_def cs_byte_def CS_RANGES_def CTRL_SIZE_def)
  then show ?thesis
    using restore_unsaved_zeroes [OF u(1) _ u(2) _ u(3,4,5), where m = "\<lambda>_. 7"] by simp
qed

end
