(* ===== verification/Pad_Ring.thy ===== *)
theory Pad_Ring
  imports Net_Input
begin

text \<open>
  The pad-block ring of \<open>src/src/input.cpp\<close>: each frame's two 0x2E0-byte input blocks are captured
  after the frame and put back before its replay. A frame is its own slot modulo 128; the ring is
  an instance of the contract the input queues have. The game's buffer is the pair of blocks.
\<close>

definition RING_SIZE :: int where "RING_SIZE = 128"

type_synonym pads = "u8 list \<times> u8 list"

record pad_ring =
  pr_frame :: "int carray"
  pr_pads :: "pads carray"
  pr_ref :: bool
  pr_injecting :: bool

definition pad_slot :: "int \<Rightarrow> nat" where "pad_slot f = nat (f mod RING_SIZE)"

definition pad_init :: pad_ring where
  "pad_init = \<lparr>pr_frame = (\<lambda>_. -1), pr_pads = (\<lambda>_. ([], [])), pr_ref = False, pr_injecting = False\<rparr>"

definition pad_put :: "int \<Rightarrow> pads \<Rightarrow> pad_ring \<Rightarrow> pad_ring" where
  "pad_put f p st = st\<lparr>pr_frame := (pr_frame st)(pad_slot f := f), pr_pads := (pr_pads st)(pad_slot f := p)\<rparr>"

definition pad_get :: "pad_ring \<Rightarrow> int \<Rightarrow> pads option" where
  "pad_get st f = (if pr_frame st (pad_slot f) = f then Some (pr_pads st (pad_slot f)) else None)"

text \<open>\<open>capture(frame)\<close>: the buffer's address is known only after the first dispatch.\<close>

definition pad_capture :: "int \<Rightarrow> pads \<Rightarrow> pad_ring \<Rightarrow> pad_ring" where
  "pad_capture f buf st = (if \<not> pr_ref st then st else pad_put f buf st)"

text \<open>\<open>inject(frame)\<close>: the buffer as it is before the game runs, and the mode.\<close>

definition pad_inject :: "int \<Rightarrow> pads \<Rightarrow> pad_ring \<Rightarrow> pads \<times> pad_ring" where
  "pad_inject f buf st =
     (if \<not> pr_ref st then (buf, st)
      else case pad_get st f of None \<Rightarrow> (buf, st) | Some p \<Rightarrow> (p, st\<lparr>pr_injecting := True\<rparr>))"

definition stop_inject :: "pad_ring \<Rightarrow> pad_ring" where "stop_inject st = st\<lparr>pr_injecting := False\<rparr>"

text \<open>
  The dispatch hook: the buffer's address is taken; with an injected block and no session the game
  does not poll; otherwise the net step runs first. The flag tells whether the game polls.
\<close>

definition hk_input_dispatch ::
  "bool \<Rightarrow> frame_env \<Rightarrow> pad_ring \<times> net_input \<Rightarrow> (pad_ring \<times> net_input) \<times> bool" where
  "hk_input_dispatch session_armed e s =
     (let (pr, ni) = s; pr1 = pr\<lparr>pr_ref := True\<rparr> in
      if pr_injecting pr1 \<and> \<not> session_armed then ((pr1, ni), False)
      else ((pr1, fst (on_frame_begin e ni)), True))"

text \<open>What the pad hook answers for a slot while a session is armed.\<close>

definition pad_answer :: "bool \<Rightarrow> bool \<Rightarrow> bool \<Rightarrow> int \<Rightarrow> int \<Rightarrow> net_input \<Rightarrow> blob" where
  "pad_answer is_p2 replaying both_running eff slot ni =
     (case (if replaying then pad_for_engine_frame is_p2 slot eff ni
            else if both_running then pad_present slot ni else None) of
        Some b \<Rightarrow> b | None \<Rightarrow> neutral)"

lemma pad_slot_apart:
  assumes "f \<noteq> g" "\<bar>f - g\<bar> < RING_SIZE"
  shows "pad_slot f \<noteq> pad_slot g"
proof
  assume "pad_slot f = pad_slot g"
  then have "f mod RING_SIZE = g mod RING_SIZE" by (simp add: pad_slot_def RING_SIZE_def eq_nat_nat_iff)
  then have "RING_SIZE dvd f - g" by (simp add: mod_eq_dvd_iff)
  with assms show False using dvd_imp_le_int [of "f - g" RING_SIZE] by (auto simp: RING_SIZE_def)
qed

interpretation pads: frame_ring RING_SIZE pad_put pad_get
proof
  show "0 < RING_SIZE" by (simp add: RING_SIZE_def)
  show "pad_get (pad_put f b r) f = Some b" for f b r by (simp add: pad_get_def pad_put_def)
  show "pad_get (pad_put f b r) g = pad_get r g" if "f \<noteq> g" "\<bar>f - g\<bar> < RING_SIZE" for f g b r
    using pad_slot_apart [OF that] by (auto simp: pad_get_def pad_put_def)
qed

end
