(* ===== verification/Frame_Loop.thy ===== *)
theory Frame_Loop
  imports Pad_Ring Engine_Arm
begin

text \<open>
  The frame driver of \<open>src/src/resim.cpp\<close>: the hook around the game's main procedure with its
  order of steps (drain, service a requested rollback, TimeSync give-back, prediction barrier,
  arm and disarm edges, save, run the game), and the replay of a rollback. The game's state is
  \<open>'w\<close> and what the saves hold is \<open>'r\<close>; the game itself and the save, load and sweep passes, which the
  theories \<open>Snap_Ring\<close>, \<open>Frame_Rings\<close>, \<open>Flist_Unit\<close> and \<open>Quarantine\<close> model, are the fields of a \<open>host\<close>.
  Statics that only throttle messages, the diagnostic keys and the render gates are left out.
\<close>

definition MAX_ROLLBACK_DEPTH :: int where "MAX_ROLLBACK_DEPTH = 6"
definition MAX_PREDICTION :: int where "MAX_PREDICTION = 8"
definition STALL_MAX :: int where "STALL_MAX = 180"
definition TS_RECOMMEND_INTERVAL :: int where "TS_RECOMMEND_INTERVAL = 60"
definition AUTO_INTERVAL :: int where "AUTO_INTERVAL = 180"
definition NET_ENGINE_SETTLE_FRAMES :: int where "NET_ENGINE_SETTLE_FRAMES = 60"

text \<open>What the game reads in a frame: blocks left standing, or the two pads as it polls them.\<close>

datatype game_input = Standing pads | Polled "blob option" "blob option"

record ('w, 'r) host =
  ho_game :: "game_input \<Rightarrow> 'w \<Rightarrow> 'w"
  ho_blocks :: "'w \<Rightarrow> pads"
  ho_set_blocks :: "pads \<Rightarrow> 'w \<Rightarrow> 'w"
  ho_save :: "int \<Rightarrow> 'w \<times> 'r \<Rightarrow> 'w \<times> 'r"
  ho_load :: "int \<Rightarrow> 'w \<times> 'r \<Rightarrow> 'w \<times> 'r"
  ho_baseline :: "'w \<times> 'r \<Rightarrow> ('w \<times> 'r) \<times> bool"
  ho_on_frame :: "int \<Rightarrow> 'w \<Rightarrow> 'w"
  ho_drain :: "'w \<Rightarrow> 'w"

record ('w, 'r) loop =
  lp_engine :: bool
  lp_counter :: int
  lp_request :: int
  lp_last_target :: int
  lp_resim :: bool
  lp_replay :: int
  lp_hold :: int
  lp_next :: int
  lp_stall :: int
  lp_clock :: bool
  lp_fight_run :: int
  lp_auto :: bool
  lp_last_auto :: int
  lp_depth :: int
  lp_net :: net_input
  lp_arm :: engine_arm
  lp_pads :: pad_ring
  lp_world :: 'w
  lp_ring :: 'r

text \<open>What one tick finds outside: packets, keys, the session, the fight, clocks, the gates.\<close>

record tick_env =
  tk_recv :: "(u32 \<times> input_packet) list"
  tk_rnd :: "rat \<Rightarrow> rat"
  tk_frame :: frame_env
  tk_pad2 :: "blob option"
  tk_armed :: bool
  tk_running :: bool
  tk_both :: bool
  tk_in_fight :: bool
  tk_phase5 :: bool
  tk_autoarm :: bool
  tk_arm_off :: bool
  tk_now :: u32
  tk_link :: link_env
  tk_key_f5 :: bool
  tk_key_f6 :: bool
  tk_key_auto :: bool
  tk_busy :: bool

section \<open>Frames and requests\<close>

definition effective_frame :: "('w, 'r) loop \<Rightarrow> int" where
  "effective_frame lp = (if lp_resim lp \<and> 0 \<le> lp_replay lp then lp_replay lp else lp_counter lp)"

definition request_rollback_to :: "int \<Rightarrow> int \<Rightarrow> int" where
  "request_rollback_to f cur = (if f < 0 \<or> 0 \<le> cur \<and> cur \<le> f then cur else f)"

text \<open>The datagrams drained at the top of the tick, each with its arrival time.\<close>

definition drain_one :: "u32 \<times> input_packet \<Rightarrow> ('w, 'r) loop \<Rightarrow> ('w, 'r) loop" where
  "drain_one tp lp =
     (let (ni, reqs) = on_recv_input (fst tp) (snd tp) (lp_net lp)
      in lp\<lparr>lp_net := ni, lp_request := fold request_rollback_to reqs (lp_request lp)\<rparr>)"

definition drain :: "tick_env \<Rightarrow> ('w, 'r) loop \<Rightarrow> ('w, 'r) loop" where
  "drain e lp = fold drain_one (tk_recv e) lp"

section \<open>Running the game\<close>

text \<open>
  The game's main procedure with our input hooks inside it. Without a session it polls the two
  local pads, or reads the standing blocks when a replay has injected them.
\<close>

definition run_game :: "('w, 'r) host \<Rightarrow> tick_env \<Rightarrow> ('w, 'r) loop \<Rightarrow> ('w, 'r) loop" where
  "run_game h e lp =
     (let fe = (tk_frame e)\<lparr>fe_engine_frame := lp_counter lp\<rparr>;
          ((pr, ni), polls) = hk_input_dispatch (tk_armed e) fe (lp_pads lp, lp_net lp);
          ans = (\<lambda>slot. Some (pad_answer (fe_is_p2 fe) (lp_resim lp) (tk_both e) (effective_frame lp) slot ni));
          inp = (if \<not> polls then Standing (ho_blocks h (lp_world lp))
                 else if tk_armed e then Polled (ans 0) (ans 1)
                 else Polled (fe_pad fe) (tk_pad2 e))
      in lp\<lparr>lp_pads := pr, lp_net := ni, lp_world := ho_game h inp (lp_world lp)\<rparr>)"

text \<open>One replayed frame: its blocks go in, the game runs as that frame.\<close>

definition replay_one :: "('w, 'r) host \<Rightarrow> tick_env \<Rightarrow> int \<Rightarrow> ('w, 'r) loop \<Rightarrow> ('w, 'r) loop" where
  "replay_one h e f lp =
     (let (buf, pr) = pad_inject f (ho_blocks h (lp_world lp)) (lp_pads lp)
      in (run_game h e (lp\<lparr>lp_pads := pr, lp_world := ho_set_blocks h buf (lp_world lp), lp_replay := f\<rparr>))
           \<lparr>lp_replay := -1\<rparr>)"

text \<open>
  \<open>do_rollback\<close>: given up without trace when the gate finds a worker inside an allocator; else the
  saved frame comes back and every frame up to the present one is run again. Nothing is saved
  during the replay.
\<close>

definition do_rollback :: "('w, 'r) host \<Rightarrow> tick_env \<Rightarrow> int \<Rightarrow> ('w, 'r) loop \<Rightarrow> ('w, 'r) loop" where
  "do_rollback h e target lp0 =
     (let lp = lp0\<lparr>lp_last_target := target\<rparr> in
      if tk_busy e then lp
      else
        let (w, r) = ho_load h target (lp_world lp, lp_ring lp);
            lp1 = fold (replay_one h e) [target..lp_counter lp - 1] (lp\<lparr>lp_world := w, lp_ring := r, lp_resim := True\<rparr>)
        in lp1\<lparr>lp_resim := False, lp_pads := stop_inject (lp_pads lp1)\<rparr>)"

definition service_request :: "('w, 'r) host \<Rightarrow> tick_env \<Rightarrow> ('w, 'r) loop \<Rightarrow> ('w, 'r) loop" where
  "service_request h e lp =
     (if \<not> lp_engine lp then lp
      else let want = lp_request lp; lp1 = lp\<lparr>lp_request := -1\<rparr> in
        if 0 \<le> want \<and> want < lp_counter lp \<and> lp_counter lp - want \<le> MAX_ROLLBACK_DEPTH
        then do_rollback h e want lp1 else lp1)"

section \<open>Holding a tick back\<close>

definition ts_gate :: "tick_env \<Rightarrow> ('w, 'r) loop \<Rightarrow> ('w, 'r) loop" where
  "ts_gate e lp =
     (if lp_hold lp = 0 \<and> ni_active (lp_net lp) \<and> lp_next lp \<le> ni_net_frame (lp_net lp)
      then let (give, ni) = recommend_wait (tk_rnd e) (lp_net lp)
           in if 0 < give
              then lp\<lparr>lp_net := ni, lp_hold := give, lp_next := ni_net_frame ni + TS_RECOMMEND_INTERVAL\<rparr>
              else lp\<lparr>lp_net := ni\<rparr>
      else lp)"

definition pump_and_note :: "tick_env \<Rightarrow> net_input \<Rightarrow> net_input" where
  "pump_and_note e ni = note_stall (fst (pump_stalled (tk_now e) (fe_rtt (tk_frame e)) (fe_cfg (tk_frame e)) ni))"

definition must_wait :: "tick_env \<Rightarrow> net_input \<Rightarrow> bool" where
  "must_wait e ni \<longleftrightarrow> ni_active ni \<and> MAX_PREDICTION \<le> frames_ahead ni
     \<or> ni_active ni \<and> tk_in_fight e \<and> \<not> remote_ready ni"

text \<open>The two early returns; the flag tells whether the tick goes on.\<close>

definition hold_gate :: "tick_env \<Rightarrow> ('w, 'r) loop \<Rightarrow> ('w, 'r) loop \<times> bool" where
  "hold_gate e lp0 =
     (let lp = ts_gate e lp0 in
      if 0 < lp_hold lp
      then (lp\<lparr>lp_hold := lp_hold lp - 1, lp_net := pump_and_note e (lp_net lp)\<rparr>, False)
      else if must_wait e (lp_net lp) \<and> lp_stall lp < STALL_MAX
      then (lp\<lparr>lp_stall := lp_stall lp + 1, lp_net := pump_and_note e (lp_net lp)\<rparr>, False)
      else (lp\<lparr>lp_stall := 0\<rparr>, True))"

section \<open>Arming and disarming\<close>

text \<open>A successful arm: the baseline is taken and the frame clock is zeroed the first time only.\<close>

definition arm_engine :: "('w, 'r) host \<Rightarrow> ('w, 'r) loop \<Rightarrow> ('w, 'r) loop \<times> bool" where
  "arm_engine h lp =
     (let ((w, r), ok) = ho_baseline h (lp_world lp, lp_ring lp) in
      if \<not> ok then (lp\<lparr>lp_world := w, lp_ring := r\<rparr>, False)
      else let c = (if lp_clock lp then lp_counter lp else 0)
           in (lp\<lparr>lp_world := w, lp_ring := r, lp_engine := True, lp_counter := c, lp_clock := True, lp_last_auto := c\<rparr>, True))"

definition drop_engine :: "('w, 'r) host \<Rightarrow> ('w, 'r) loop \<Rightarrow> ('w, 'r) loop" where
  "drop_engine h lp = lp\<lparr>lp_engine := False, lp_world := ho_drain h (lp_world lp)\<rparr>"

definition auto_edge :: "('w, 'r) host \<Rightarrow> tick_env \<Rightarrow> ('w, 'r) loop \<Rightarrow> ('w, 'r) loop" where
  "auto_edge h e lp0 =
     (let lp = lp0\<lparr>lp_fight_run := (if tk_phase5 e then lp_fight_run lp0 + 1 else 0)\<rparr> in
      if \<not> lp_engine lp
      then (if tk_phase5 e \<and> NET_ENGINE_SETTLE_FRAMES \<le> lp_fight_run lp \<and> \<not> tk_arm_off e \<and> tk_autoarm e
            then fst (arm_engine h lp) else lp)
      else if \<not> tk_phase5 e \<and> tk_autoarm e then drop_engine h lp else lp)"

definition key_f5 :: "tick_env \<Rightarrow> ('w, 'r) loop \<Rightarrow> ('w, 'r) loop" where
  "key_f5 e lp =
     (if \<not> tk_key_f5 e then lp
      else if lp_engine lp then lp\<lparr>lp_arm := fst (propose_disarm (tk_running e) (lp_arm lp))\<rparr>
      else lp\<lparr>lp_arm := fst (propose (tk_running e) (ni_net_frame (lp_net lp)) (tk_now e) (lp_arm lp))\<rparr>)"

definition disarm_edge :: "('w, 'r) host \<Rightarrow> ('w, 'r) loop \<Rightarrow> ('w, 'r) loop" where
  "disarm_edge h lp =
     (let (ea, req) = consume_disarm (lp_arm lp); lp1 = lp\<lparr>lp_arm := ea\<rparr>
      in if req \<and> lp_engine lp1 then drop_engine h lp1 else lp1)"

definition arm_edge :: "('w, 'r) host \<Rightarrow> tick_env \<Rightarrow> ('w, 'r) loop \<Rightarrow> ('w, 'r) loop" where
  "arm_edge h e lp =
     (if lp_engine lp then lp
      else let (ea, _, now) = tick_should_arm (ni_net_frame (lp_net lp)) (tk_now e) (lp_arm lp);
               lp1 = lp\<lparr>lp_arm := ea\<rparr>
           in if now \<or> \<not> tk_running e \<and> ea_pending ea
              then (case arm_engine h lp1 of
                      (lp2, True) \<Rightarrow> lp2\<lparr>lp_net := fst (propose_epoch (tk_link e) 2 True (lp_net lp2))\<rparr>
                    | (lp2, False) \<Rightarrow> lp2)
              else lp1)"

text \<open>The test keys: one rollback now, or one every \<open>AUTO_INTERVAL\<close> frames; never in a net match.\<close>

definition key_f6 :: "('w, 'r) host \<Rightarrow> tick_env \<Rightarrow> bool \<Rightarrow> ('w, 'r) loop \<Rightarrow> ('w, 'r) loop" where
  "key_f6 h e has_baseline lp =
     (if tk_key_f6 e \<and> lp_engine lp \<and> has_baseline \<and> \<not> ni_active (lp_net lp) \<and> 0 \<le> lp_counter lp - lp_depth lp
      then (do_rollback h e (lp_counter lp - lp_depth lp) lp)\<lparr>lp_last_auto := lp_counter lp\<rparr> else lp)"

definition key_auto :: "tick_env \<Rightarrow> ('w, 'r) loop \<Rightarrow> ('w, 'r) loop" where
  "key_auto e lp = (if tk_key_auto e then lp\<lparr>lp_auto := \<not> lp_auto lp, lp_last_auto := lp_counter lp\<rparr> else lp)"

definition auto_rollback :: "('w, 'r) host \<Rightarrow> tick_env \<Rightarrow> ('w, 'r) loop \<Rightarrow> ('w, 'r) loop" where
  "auto_rollback h e lp =
     (if lp_auto lp \<and> \<not> ni_active (lp_net lp) \<and> AUTO_INTERVAL \<le> lp_counter lp - lp_last_auto lp
         \<and> 0 \<le> lp_counter lp - lp_depth lp
      then (do_rollback h e (lp_counter lp - lp_depth lp) lp)\<lparr>lp_last_auto := lp_counter lp\<rparr> else lp)"

section \<open>The tick\<close>

text \<open>The engine's part of a frame: save, perhaps roll back, count.\<close>

definition forward_save :: "('w, 'r) host \<Rightarrow> tick_env \<Rightarrow> ('w, 'r) loop \<Rightarrow> ('w, 'r) loop" where
  "forward_save h e lp =
     (if \<not> lp_engine lp then lp
      else let (w, r) = ho_save h (lp_counter lp) (lp_world lp, lp_ring lp);
               lp1 = auto_rollback h e (lp\<lparr>lp_world := w, lp_ring := r\<rparr>)
           in lp1\<lparr>lp_counter := lp_counter lp1 + 1\<rparr>)"

definition run_forward :: "('w, 'r) host \<Rightarrow> tick_env \<Rightarrow> ('w, 'r) loop \<Rightarrow> ('w, 'r) loop" where
  "run_forward h e lp =
     (let lp1 = run_game h e lp; lp2 = lp1\<lparr>lp_net := advance_frame (lp_net lp1)\<rparr>
      in if lp_engine lp2
         then lp2\<lparr>lp_pads := pad_capture (lp_counter lp2 - 1) (ho_blocks h (lp_world lp2)) (lp_pads lp2)\<rparr>
         else lp2)"

definition edges :: "('w, 'r) host \<Rightarrow> tick_env \<Rightarrow> bool \<Rightarrow> ('w, 'r) loop \<Rightarrow> ('w, 'r) loop" where
  "edges h e has_baseline lp =
     key_f6 h e has_baseline (key_auto e (arm_edge h e (disarm_edge h (key_f5 e (auto_edge h e lp)))))"

text \<open>One call of the hook on the main thread, and whether the game ran.\<close>

definition hk_main_proc :: "('w, 'r) host \<Rightarrow> tick_env \<Rightarrow> bool \<Rightarrow> ('w, 'r) loop \<Rightarrow> ('w, 'r) loop \<times> bool" where
  "hk_main_proc h e has_baseline lp =
     (case hold_gate e (service_request h e (drain e lp)) of
        (lp1, False) \<Rightarrow> (lp1, False)
      | (lp1, True) \<Rightarrow>
          let lp2 = lp1\<lparr>lp_world := ho_on_frame h (lp_counter lp1) (lp_world lp1)\<rparr>
          in (run_forward h e (forward_save h e (edges h e has_baseline lp2)), True))"

end
