(* ===== verification/Frame_Loop_Facts.thy ===== *)
theory Frame_Loop_Facts
  imports Frame_Loop Net_Input_Facts
begin

text \<open>
  What the frame driver guarantees: which rollbacks it performs and which requests it drops, that
  no sequence of holds stops the game for good, that a solo replay is faithful, and where the
  replay of a net match goes wrong.
\<close>

section \<open>The engine-frame map\<close>

definition map_base :: "net_input \<Rightarrow> int carray" where
  "map_base st = (if ni_efmap_ready st then ni_net_for_engine st
                  else (\<lambda>i. if i < 256 then -1 else ni_net_for_engine st i))"

lemma stamp_map:
  "ni_efmap_ready (stamp_engine_frame ef st)"
  "0 \<le> ef \<Longrightarrow> ni_net_for_engine (stamp_engine_frame ef st) = (map_base st)(idx ef := ni_net_frame st)"
  by (simp_all add: stamp_engine_frame_def map_base_def RING_def Let_def)

lemma capture_maps:
  "ni_net_for_engine (fst (capture pad rtt cfg st)) = ni_net_for_engine st"
  "ni_efmap_ready (fst (capture pad rtt cfg st)) = ni_efmap_ready st"
  by (simp_all add: capture_def Let_def split_def)

lemma feed_timesync_maps:
  "ni_net_for_engine (feed_timesync rtt st) = ni_net_for_engine st"
  "ni_efmap_ready (feed_timesync rtt st) = ni_efmap_ready st"
  "ni_net_frame (feed_timesync rtt st) = ni_net_frame st"
  "ni_active (feed_timesync rtt st) = ni_active st"
  by (simp_all add: feed_timesync_def Let_def)

lemma stamp_fields:
  "ni_net_frame (stamp_engine_frame ef st) = ni_net_frame st"
  "ni_active (stamp_engine_frame ef st) = ni_active st"
  by (simp_all add: stamp_engine_frame_def Let_def)

lemma resolve_maps:
  "ni_net_for_engine (fst (resolve_local st)) = ni_net_for_engine st" "ni_efmap_ready (fst (resolve_local st)) = ni_efmap_ready st"
  "ni_net_frame (fst (resolve_local st)) = ni_net_frame st" "ni_active (fst (resolve_local st)) = ni_active st"
  "ni_net_for_engine (fst (resolve_remote st)) = ni_net_for_engine st" "ni_efmap_ready (fst (resolve_remote st)) = ni_efmap_ready st"
  "ni_net_frame (fst (resolve_remote st)) = ni_net_frame st" "ni_active (fst (resolve_remote st)) = ni_active st"
  by (simp_all add: resolve_local_def resolve_remote_def Let_def split: option.splits)

lemma on_frame_begin_map:
  assumes "ni_active st" "0 \<le> fe_engine_frame e"
  shows "ni_active (fst (on_frame_begin e st))" "ni_net_frame (fst (on_frame_begin e st)) = ni_net_frame st"
    "ni_efmap_ready (fst (on_frame_begin e st))"
    "ni_net_for_engine (fst (on_frame_begin e st)) = (map_base st)(idx (fe_engine_frame e) := ni_net_frame st)"
proof -
  let ?s0 = "st\<lparr>ni_present_valid := False\<rparr>"
  let ?c = "fst (capture (fe_pad e) (fe_rtt e) (fe_cfg e) ?s0)"
  let ?d = "stamp_engine_frame (fe_engine_frame e) (feed_timesync (fe_rtt e) ?c)"
  have eq: "fst (on_frame_begin e st) = present_slots (fe_is_p2 e) (snd (resolve_local ?d))
      (snd (resolve_remote (fst (resolve_local ?d)))) (fst (resolve_remote (fst (resolve_local ?d))))"
    using assms(1) by (simp add: on_frame_begin_def Let_def split_def)
  have b: "map_base (feed_timesync (fe_rtt e) ?c) = map_base st"
    by (simp add: map_base_def capture_maps feed_timesync_maps cong: if_cong)
  show "ni_active (fst (on_frame_begin e st))" "ni_net_frame (fst (on_frame_begin e st)) = ni_net_frame st"
    "ni_efmap_ready (fst (on_frame_begin e st))"
    "ni_net_for_engine (fst (on_frame_begin e st)) = (map_base st)(idx (fe_engine_frame e) := ni_net_frame st)"
    using assms by (simp_all add: eq present_slots_def resolve_maps stamp_map b feed_timesync_maps stamp_fields)
qed

section \<open>Live frames\<close>

text \<open>The two steps of a tick that goes on, with the engine armed.\<close>

definition live_frame :: "('w, 'r) host \<Rightarrow> tick_env \<Rightarrow> ('w, 'r) loop \<Rightarrow> ('w, 'r) loop" where
  "live_frame h e lp = run_forward h e (forward_save h e lp)"

definition armed_live :: "('w, 'r) loop \<Rightarrow> bool" where
  "armed_live lp \<longleftrightarrow> lp_engine lp \<and> \<not> lp_auto lp \<and> \<not> lp_resim lp \<and> ni_active (lp_net lp) \<and> \<not> pr_injecting (lp_pads lp)"

lemma forward_save_armed:
  assumes "lp_engine lp" "\<not> lp_auto lp"
  shows "\<exists>w r. ho_save h (lp_counter lp) (lp_world lp, lp_ring lp) = (w, r)
    \<and> forward_save h e lp = lp\<lparr>lp_world := w, lp_ring := r, lp_counter := lp_counter lp + 1\<rparr>"
  using assms by (auto simp: forward_save_def auto_rollback_def split: prod.split)

lemma run_game_live:
  assumes "\<not> pr_injecting (lp_pads lp)"
  shows "run_game h e lp = lp\<lparr>lp_pads := (lp_pads lp)\<lparr>pr_ref := True\<rparr>,
    lp_net := fst (on_frame_begin ((tk_frame e)\<lparr>fe_engine_frame := lp_counter lp\<rparr>) (lp_net lp)),
    lp_world := lp_world (run_game h e lp)\<rparr>"
  using assms by (simp add: run_game_def hk_input_dispatch_def Let_def)

lemma pad_capture_injecting: "pr_injecting (pad_capture f buf st) = pr_injecting st"
  by (simp add: pad_capture_def pad_put_def)

lemma advance_frame_fields:
  "ni_active (advance_frame st) = ni_active st" "ni_efmap_ready (advance_frame st) = ni_efmap_ready st"
  "ni_net_for_engine (advance_frame st) = ni_net_for_engine st"
  "ni_active st \<Longrightarrow> ni_net_frame (advance_frame st) = ni_net_frame st + 1"
  by (simp_all add: advance_frame_def)

lemma live_frame_step:
  assumes "armed_live lp" "0 \<le> lp_counter lp"
  shows "armed_live (live_frame h e lp)" "lp_counter (live_frame h e lp) = lp_counter lp + 1"
    "ni_net_frame (lp_net (live_frame h e lp)) = ni_net_frame (lp_net lp) + 1"
    "ni_efmap_ready (lp_net (live_frame h e lp))"
    "ni_net_for_engine (lp_net (live_frame h e lp))
      = (map_base (lp_net lp))(idx (lp_counter lp + 1) := ni_net_frame (lp_net lp))"
proof -
  obtain w r where f: "forward_save h e lp = lp\<lparr>lp_world := w, lp_ring := r, lp_counter := lp_counter lp + 1\<rparr>"
    using forward_save_armed [of lp h e] assms(1) by (auto simp: armed_live_def)
  let ?fe = "(tk_frame e)\<lparr>fe_engine_frame := lp_counter lp + 1\<rparr>"
  let ?ni = "fst (on_frame_begin ?fe (lp_net lp))"
  let ?l1 = "lp\<lparr>lp_world := w, lp_ring := r, lp_counter := lp_counter lp + 1\<rparr>"
  define w' where "w' = lp_world (run_game h e ?l1)"
  have g: "run_game h e ?l1 = ?l1\<lparr>lp_pads := (lp_pads lp)\<lparr>pr_ref := True\<rparr>, lp_net := ?ni, lp_world := w'\<rparr>"
    unfolding w'_def using run_game_live [of ?l1 h e] assms(1) by (simp add: armed_live_def)
  have b: "ni_active ?ni" "ni_net_frame ?ni = ni_net_frame (lp_net lp)" "ni_efmap_ready ?ni"
    "ni_net_for_engine ?ni = (map_base (lp_net lp))(idx (lp_counter lp + 1) := ni_net_frame (lp_net lp))"
    using on_frame_begin_map [of "lp_net lp" ?fe] assms by (auto simp: armed_live_def)
  show "armed_live (live_frame h e lp)" "lp_counter (live_frame h e lp) = lp_counter lp + 1"
    "ni_net_frame (lp_net (live_frame h e lp)) = ni_net_frame (lp_net lp) + 1"
    "ni_efmap_ready (lp_net (live_frame h e lp))"
    "ni_net_for_engine (lp_net (live_frame h e lp))
      = (map_base (lp_net lp))(idx (lp_counter lp + 1) := ni_net_frame (lp_net lp))"
    using assms b by (simp_all add: live_frame_def run_forward_def g f armed_live_def advance_frame_fields
        pad_capture_injecting Let_def)
qed

lemma live_frames:
  assumes "armed_live lp" "0 \<le> lp_counter lp" "length es \<le> 256"
  shows "armed_live (fold (live_frame h) es lp) \<and> lp_counter (fold (live_frame h) es lp) = lp_counter lp + int (length es)
    \<and> ni_net_frame (lp_net (fold (live_frame h) es lp)) = ni_net_frame (lp_net lp) + int (length es)
    \<and> (es \<noteq> [] \<longrightarrow> ni_efmap_ready (lp_net (fold (live_frame h) es lp)))
    \<and> (\<forall>j < length es. map_base (lp_net (fold (live_frame h) es lp)) (idx (lp_counter lp + 1 + int j)) = ni_net_frame (lp_net lp) + int j)
    \<and> (\<forall>i < 256. (\<forall>j < length es. i \<noteq> idx (lp_counter lp + 1 + int j))
        \<longrightarrow> map_base (lp_net (fold (live_frame h) es lp)) i = map_base (lp_net lp) i)"
  using assms(3)
proof (induction es rule: rev_induct)
  case Nil
  show ?case using assms(1) by simp
next
  case (snoc e es)
  let ?l = "fold (live_frame h) es lp"
  have I: "armed_live ?l" "lp_counter ?l = lp_counter lp + int (length es)"
    "ni_net_frame (lp_net ?l) = ni_net_frame (lp_net lp) + int (length es)"
    "\<forall>j < length es. map_base (lp_net ?l) (idx (lp_counter lp + 1 + int j)) = ni_net_frame (lp_net lp) + int j"
    "\<forall>i < 256. (\<forall>j < length es. i \<noteq> idx (lp_counter lp + 1 + int j)) \<longrightarrow> map_base (lp_net ?l) i = map_base (lp_net lp) i"
    using snoc by simp_all
  have c: "0 \<le> lp_counter ?l" using I(2) assms(2) by simp
  note S = live_frame_step [OF I(1) c, of h e]
  let ?k = "idx (lp_counter lp + 1 + int (length es))"
  have m: "map_base (lp_net (live_frame h e ?l)) = (map_base (lp_net ?l))(?k := ni_net_frame (lp_net lp) + int (length es))"
    using S(4,5) I(2,3) by (simp add: map_base_def add.commute add.left_commute)
  have ne: "idx (lp_counter lp + 1 + int j) \<noteq> ?k" if "j < length es" for j
    using idx_inj [of "lp_counter lp + 1 + int j" "lp_counter lp + 1 + int (length es)"] that snoc.prems by auto
  have "\<forall>j < length (es @ [e]). map_base (lp_net (live_frame h e ?l)) (idx (lp_counter lp + 1 + int j)) = ni_net_frame (lp_net lp) + int j"
    using I(4) ne by (auto simp: m less_Suc_eq)
  moreover have "\<forall>i < 256. (\<forall>j < length (es @ [e]). i \<noteq> idx (lp_counter lp + 1 + int j))
      \<longrightarrow> map_base (lp_net (live_frame h e ?l)) i = map_base (lp_net lp) i"
    using I(5) by (auto simp: m less_Suc_eq)
  ultimately show ?case using S I(2,3) by simp
qed

section \<open>Replay with the map of engine frames\<close>

lemma live_frames_map:
  assumes "armed_live lp" "0 \<le> lp_counter lp" "length es \<le> 256" "j < length es"
  shows "ni_efmap_ready (lp_net (fold (live_frame h) es lp))"
    "ni_net_for_engine (lp_net (fold (live_frame h) es lp)) (idx (lp_counter lp + 1 + int j)) = ni_net_frame (lp_net lp) + int j"
proof -
  note L = live_frames [OF assms(1-3), of h]
  show r: "ni_efmap_ready (lp_net (fold (live_frame h) es lp))" using L assms(4) by auto
  have "map_base (lp_net (fold (live_frame h) es lp)) (idx (lp_counter lp + 1 + int j)) = ni_net_frame (lp_net lp) + int j"
    using L assms(4) by blast
  then show "ni_net_for_engine (lp_net (fold (live_frame h) es lp)) (idx (lp_counter lp + 1 + int j)) = ni_net_frame (lp_net lp) + int j"
    using r by (simp add: map_base_def)
qed

text \<open>Among the entries written, a net frame is found at one index only.\<close>

lemma live_frames_request:
  assumes "armed_live lp" "0 \<le> lp_counter lp" "length es \<le> 256" "j < length es"
    "\<And>i. i < 256 \<Longrightarrow> map_base (lp_net lp) i < ni_net_frame (lp_net lp)"
  shows "rollback_request (lp_net (fold (live_frame h) es lp)) (ni_net_frame (lp_net lp) + int j)
    = Some (int (idx (lp_counter lp + 1 + int j)))"
proof -
  let ?ni = "lp_net (fold (live_frame h) es lp)"
  note L = live_frames [OF assms(1-3), of h]
  note R = live_frames_map [OF assms(1-4), of h]
  have base: "map_base ?ni i = ni_net_for_engine ?ni i" for i using R(1) by (simp add: map_base_def)
  have only: "i = idx (lp_counter lp + 1 + int j)"
    if "i < 256" "ni_net_for_engine ?ni i = ni_net_frame (lp_net lp) + int j" for i
  proof (rule ccontr)
    assume ne: "i \<noteq> idx (lp_counter lp + 1 + int j)"
    have "\<not> (\<forall>j' < length es. i \<noteq> idx (lp_counter lp + 1 + int j'))"
      using L that assms(5) [of i] unfolding base by force
    then obtain j' where "j' < length es" "i = idx (lp_counter lp + 1 + int j')" by blast
    then show False using L that ne unfolding base by auto
  qed
  have "ni_net_for_engine ?ni i \<noteq> ni_net_frame (lp_net lp) + int j" if "i < idx (lp_counter lp + 1 + int j)" for i
    using only [of i] that idx_less [of "lp_counter lp + 1 + int j"] by (metis less_irrefl less_trans)
  then show ?thesis unfolding rollback_request_Some using R by (intro conjI exI [of _ "idx (lp_counter lp + 1 + int j)"]) auto
qed

text \<open>C3. The frame saved as engine frame \<open>c + j\<close> plays net frame \<open>n + j\<close>, since the counter is raised
  between the save and the game, after which the net step stamps the map. So a rollback to that
  save replays it with the pads of net frame \<open>n + j - 1\<close>, and a wrong prediction of net frame
  \<open>n + j\<close> asks for the save made one frame too late, which for the newest frame is no save at all.\<close>
theorem replay_off_by_one:
  assumes "armed_live lp" "0 \<le> lp_counter lp" "0 \<le> ni_net_frame (lp_net lp)" "length es \<le> 256" "0 < j" "j < length es"
    "\<And>i. i < 256 \<Longrightarrow> map_base (lp_net lp) i < ni_net_frame (lp_net lp)"
  shows "let before = fold (live_frame h) (take j es) lp; after = fold (live_frame h) es lp;
             c = lp_counter lp; n = ni_net_frame (lp_net lp)
         in lp_counter before = c + int j \<and> ni_net_frame (lp_net before) = n + int j
            \<and> pad_for_engine_frame False 1 (c + int j) (lp_net after)
                = Some (case q_get (ni_remote (lp_net after)) (n + int j - 1) of Some b \<Rightarrow> b | None \<Rightarrow> neutral)
            \<and> rollback_request (lp_net after) (n + int j) = Some (int (idx (c + int j + 1)))
            \<and> lp_counter after = c + int (length es)"
proof -
  note B = live_frames [OF assms(1,2), of "take j es" h]
  note L = live_frames [OF assms(1,2,4), of h]
  have "j - 1 < length es" using assms(6) by simp
  note M = live_frames_map [OF assms(1,2,4) this, of h]
  have k: "lp_counter lp + 1 + int (j - 1) = lp_counter lp + int j" "ni_net_frame (lp_net lp) + int (j - 1) = ni_net_frame (lp_net lp) + int j - 1"
    using assms(5) by simp_all
  have "pad_for_engine_frame False 1 (lp_counter lp + int j) (lp_net (fold (live_frame h) es lp))
      = Some (case q_get (ni_remote (lp_net (fold (live_frame h) es lp))) (ni_net_frame (lp_net lp) + int j - 1) of Some b \<Rightarrow> b | None \<Rightarrow> neutral)"
    using L M(1) M(2) [unfolded k] assms(2,3,5) by (simp add: pad_for_engine_frame_def armed_live_def Let_def)
  then show ?thesis
    using B L assms(4,6) live_frames_request [OF assms(1,2,4,6,7), of h] by (simp add: Let_def add.commute add.left_commute)
qed

section \<open>Serving a request\<close>

lemma run_game_fields [simp]:
  "lp_request (run_game h e lp) = lp_request lp" "lp_engine (run_game h e lp) = lp_engine lp"
  "lp_counter (run_game h e lp) = lp_counter lp" "lp_hold (run_game h e lp) = lp_hold lp"
  "lp_next (run_game h e lp) = lp_next lp" "lp_stall (run_game h e lp) = lp_stall lp"
  "lp_resim (run_game h e lp) = lp_resim lp" "lp_replay (run_game h e lp) = lp_replay lp"
  "lp_last_target (run_game h e lp) = lp_last_target lp" "lp_arm (run_game h e lp) = lp_arm lp"
  "lp_ring (run_game h e lp) = lp_ring lp"
  by (simp_all add: run_game_def Let_def split_def)

lemma replay_one_fields [simp]:
  "lp_request (replay_one h e f lp) = lp_request lp" "lp_engine (replay_one h e f lp) = lp_engine lp"
  "lp_counter (replay_one h e f lp) = lp_counter lp" "lp_hold (replay_one h e f lp) = lp_hold lp"
  "lp_next (replay_one h e f lp) = lp_next lp" "lp_stall (replay_one h e f lp) = lp_stall lp"
  "lp_arm (replay_one h e f lp) = lp_arm lp" "lp_ring (replay_one h e f lp) = lp_ring lp"
  by (simp_all add: replay_one_def Let_def split_def)

lemma replay_fold_fields [simp]:
  "lp_request (fold (replay_one h e) fs lp) = lp_request lp" "lp_engine (fold (replay_one h e) fs lp) = lp_engine lp"
  "lp_counter (fold (replay_one h e) fs lp) = lp_counter lp" "lp_hold (fold (replay_one h e) fs lp) = lp_hold lp"
  "lp_next (fold (replay_one h e) fs lp) = lp_next lp" "lp_stall (fold (replay_one h e) fs lp) = lp_stall lp"
  "lp_arm (fold (replay_one h e) fs lp) = lp_arm lp" "lp_ring (fold (replay_one h e) fs lp) = lp_ring lp"
  by (induction fs arbitrary: lp) simp_all

lemma do_rollback_fields [simp]:
  "lp_request (do_rollback h e t lp) = lp_request lp" "lp_engine (do_rollback h e t lp) = lp_engine lp"
  "lp_counter (do_rollback h e t lp) = lp_counter lp" "lp_hold (do_rollback h e t lp) = lp_hold lp"
  "lp_next (do_rollback h e t lp) = lp_next lp" "lp_stall (do_rollback h e t lp) = lp_stall lp"
  "lp_arm (do_rollback h e t lp) = lp_arm lp"
  by (simp_all add: do_rollback_def Let_def split_def)

text \<open>A request is served only with the engine armed, for a frame before the present one and
  at most 6 back, and it is consumed either way. When the gate finds a worker inside an allocator
  the game and the saves stay as they are, and no later tick, whatever it finds, brings the
  request back.\<close>
theorem deferred_request_lost:
  "(let lp' = service_request h e lp; want = lp_request lp in
      (lp_engine lp \<longrightarrow> lp_request lp' = -1)
      \<and> (lp_world lp' \<noteq> lp_world lp \<or> lp_ring lp' \<noteq> lp_ring lp \<or> lp_net lp' \<noteq> lp_net lp \<longrightarrow>
           lp_engine lp \<and> \<not> tk_busy e \<and> 0 \<le> want \<and> lp_counter lp - 6 \<le> want \<and> want < lp_counter lp)
      \<and> (lp_engine lp \<and> tk_busy e \<longrightarrow>
           (\<exists>t. lp' = lp\<lparr>lp_request := -1, lp_last_target := t\<rparr>) \<and> service_request h e' lp' = lp'))"
proof -
  let ?lp' = "service_request h e lp"
  have "lp_engine lp \<longrightarrow> lp_request ?lp' = -1" by (simp add: service_request_def Let_def)
  moreover have "lp_world ?lp' \<noteq> lp_world lp \<or> lp_ring ?lp' \<noteq> lp_ring lp \<or> lp_net ?lp' \<noteq> lp_net lp \<longrightarrow>
      lp_engine lp \<and> \<not> tk_busy e \<and> 0 \<le> lp_request lp \<and> lp_counter lp - 6 \<le> lp_request lp \<and> lp_request lp < lp_counter lp"
    by (auto simp: service_request_def do_rollback_def Let_def MAX_ROLLBACK_DEPTH_def split: if_splits)
  moreover have "(\<exists>t. ?lp' = lp\<lparr>lp_request := -1, lp_last_target := t\<rparr>) \<and> service_request h e' ?lp' = ?lp'"
    if busy: "lp_engine lp" "tk_busy e"
  proof -
    have "?lp' = lp\<lparr>lp_request := -1, lp_last_target := lp_last_target ?lp'\<rparr>"
      using busy by (simp add: service_request_def do_rollback_def Let_def)
    moreover have "service_request h e' ?lp' = ?lp'"
      using busy by (simp add: service_request_def do_rollback_def Let_def)
    ultimately show ?thesis by blast
  qed
  ultimately show ?thesis by (simp add: Let_def)
qed

section \<open>No hold stops the game for good\<close>

text \<open>The net frame moves forward in \<open>advance_frame\<close> only; outside it stays or falls back to 0.\<close>

definition stays_or_zero :: "int \<Rightarrow> int \<Rightarrow> bool" where "stays_or_zero a b \<longleftrightarrow> b = a \<or> b = 0"

lemma stays_refl [simp]: "stays_or_zero a a" by (simp add: stays_or_zero_def)

lemma stays_trans: "stays_or_zero a b \<Longrightarrow> stays_or_zero b c \<Longrightarrow> stays_or_zero a c"
  by (auto simp: stays_or_zero_def)

lemma stays_activate: "stays_or_zero (ni_net_frame st) (ni_net_frame (activate_epoch now d ep st))"
  by (simp add: stays_or_zero_def activate_epoch_def do_reset_def seed_neutral_def set_delay_def Let_def)

lemma stays_recv: "stays_or_zero (ni_net_frame st) (ni_net_frame (fst (on_recv_input now p st)))"
proof -
  define s where "s = (if ni_epoch st < ip_want_epoch p then activate_epoch now (ni_delay st) (ip_want_epoch p) st else st)"
  have "stays_or_zero (ni_net_frame st) (ni_net_frame s)" using stays_activate by (simp add: s_def)
  moreover have "accepts s p \<Longrightarrow> ni_net_frame (fst (on_recv_input now p s)) = ni_net_frame s"
    by (rule on_recv_input_accepted_fields)
  ultimately show ?thesis by (subst on_recv_input_cases) (simp add: Let_def flip: s_def)
qed

lemma stays_drain: "stays_or_zero (ni_net_frame (lp_net lp)) (ni_net_frame (lp_net (drain e lp)))"
proof -
  have "stays_or_zero (ni_net_frame (lp_net lp)) (ni_net_frame (lp_net (fold drain_one ps lp)))" for ps
  proof (induction ps arbitrary: lp)
    case (Cons q ps)
    have "stays_or_zero (ni_net_frame (lp_net lp)) (ni_net_frame (lp_net (drain_one q lp)))"
      using stays_recv [of "lp_net lp" "fst q" "snd q"] by (simp add: drain_one_def split_def Let_def)
    then show ?case using stays_trans [OF _ Cons.IH [of "drain_one q lp"]] by simp
  qed simp
  then show ?thesis by (simp add: drain_def)
qed

lemma on_frame_begin_frame: "ni_net_frame (fst (on_frame_begin e st)) = ni_net_frame st"
  by (simp add: on_frame_begin_def present_slots_def resolve_maps feed_timesync_maps stamp_fields Let_def split_def)

lemma run_game_frame [simp]: "ni_net_frame (lp_net (run_game h e lp)) = ni_net_frame (lp_net lp)"
  by (simp add: run_game_def hk_input_dispatch_def on_frame_begin_frame Let_def split_def)

lemma do_rollback_frame [simp]: "ni_net_frame (lp_net (do_rollback h e t lp)) = ni_net_frame (lp_net lp)"
proof -
  have "ni_net_frame (lp_net (fold (replay_one h e) fs lp)) = ni_net_frame (lp_net lp)" for fs and lp :: "('a, 'b) loop"
    by (induction fs arbitrary: lp) (simp_all add: replay_one_def Let_def split_def)
  then show ?thesis by (simp add: do_rollback_def Let_def split_def)
qed

lemma service_fields:
  "lp_hold (service_request h e lp) = lp_hold lp" "lp_stall (service_request h e lp) = lp_stall lp"
  "lp_next (service_request h e lp) = lp_next lp" "ni_net_frame (lp_net (service_request h e lp)) = ni_net_frame (lp_net lp)"
  by (simp_all add: service_request_def Let_def)

lemma drain_fields:
  "lp_hold (drain e lp) = lp_hold lp" "lp_stall (drain e lp) = lp_stall lp" "lp_next (drain e lp) = lp_next lp"
proof -
  have "lp_hold (fold drain_one ps lp) = lp_hold lp \<and> lp_stall (fold drain_one ps lp) = lp_stall lp \<and> lp_next (fold drain_one ps lp) = lp_next lp"
    for ps
    by (induction ps arbitrary: lp) (simp_all add: drain_one_def split_def Let_def)
  then show "lp_hold (drain e lp) = lp_hold lp" "lp_stall (drain e lp) = lp_stall lp" "lp_next (drain e lp) = lp_next lp"
    by (simp_all add: drain_def)
qed

lemma recommend_give:
  "fst (recommend_wait rnd st) = 0 \<or> 2 \<le> fst (recommend_wait rnd st) \<and> fst (recommend_wait rnd st) \<le> 9"
  using ts_decide_range [of rnd] unfolding recommend_wait_def Let_def TS_MIN_def TS_MAX_def by (auto simp: split_def Let_def)

lemma recommend_frame: "ni_net_frame (snd (recommend_wait rnd st)) = ni_net_frame st"
  by (simp add: recommend_wait_def Let_def)

lemma pump_frame: "ni_net_frame (pump_and_note e ni) = ni_net_frame ni"
  by (simp add: pump_and_note_def note_stall_def pump_stalled_def send_input_def Let_def)

text \<open>How many ticks can still be held back: what is left of the give-back, one more give-back of
  at most 9 frames if the net frame allows it, and what is left of the waits.\<close>

definition hold_budget :: "('w, 'r) loop \<Rightarrow> int" where
  "hold_budget lp = lp_hold lp + (if lp_next lp \<le> ni_net_frame (lp_net lp) then 9 else 0) + (180 - lp_stall lp)"

definition loop_ok :: "('w, 'r) loop \<Rightarrow> bool" where
  "loop_ok lp \<longleftrightarrow> 0 \<le> lp_hold lp \<and> lp_hold lp \<le> 9 \<and> 0 \<le> lp_stall lp \<and> lp_stall lp \<le> 180 \<and> 0 \<le> ni_net_frame (lp_net lp)"

lemma ts_gate_effect:
  assumes "loop_ok lp"
  shows "loop_ok (ts_gate e lp)" "hold_budget (ts_gate e lp) \<le> hold_budget lp"
proof -
  have "loop_ok (ts_gate e lp) \<and> hold_budget (ts_gate e lp) \<le> hold_budget lp"
    using assms recommend_give [of "tk_rnd e" "lp_net lp"]
    by (auto simp: ts_gate_def loop_ok_def hold_budget_def TS_RECOMMEND_INTERVAL_def recommend_frame split_def Let_def)
  then show "loop_ok (ts_gate e lp)" "hold_budget (ts_gate e lp) \<le> hold_budget lp" by auto
qed

lemma hold_gate_effect:
  assumes "loop_ok lp"
  shows "loop_ok (fst (hold_gate e lp))"
    "\<not> snd (hold_gate e lp) \<Longrightarrow> hold_budget (fst (hold_gate e lp)) < hold_budget lp"
  using ts_gate_effect [OF assms, of e]
  by (auto simp: hold_gate_def loop_ok_def hold_budget_def STALL_MAX_def pump_frame Let_def)

text \<open>The rest of a tick that goes on leaves the hold counters alone.\<close>

definition same_holds :: "('w, 'r) loop \<Rightarrow> ('w, 'r) loop \<Rightarrow> bool" where
  "same_holds lp lp' \<longleftrightarrow> lp_hold lp' = lp_hold lp \<and> lp_stall lp' = lp_stall lp
     \<and> (0 \<le> ni_net_frame (lp_net lp) \<longrightarrow> 0 \<le> ni_net_frame (lp_net lp'))"

lemma same_holds_refl [simp]: "same_holds lp lp" by (simp add: same_holds_def)

lemma same_holds_trans: "same_holds a b \<Longrightarrow> same_holds b c \<Longrightarrow> same_holds a c"
  by (simp add: same_holds_def)

lemma same_holds_ok: "same_holds lp lp' \<Longrightarrow> loop_ok lp \<Longrightarrow> loop_ok lp'"
  by (simp add: same_holds_def loop_ok_def)

lemma arm_engine_holds: "same_holds lp (fst (arm_engine h lp))"
  by (simp add: arm_engine_def same_holds_def Let_def split_def)

lemma propose_epoch_frame: "ni_net_frame (fst (propose_epoch l d f st)) = ni_net_frame st"
  by (simp add: propose_epoch_def set_delay_def Let_def)

lemma edge_holds:
  "same_holds lp (auto_edge h e lp)" "same_holds lp (key_f5 e lp)" "same_holds lp (disarm_edge h lp)"
  "same_holds lp (arm_edge h e lp)" "same_holds lp (key_auto e lp)" "same_holds lp (key_f6 h e hb lp)"
proof -
  have a: "lp_hold (fst (arm_engine h l)) = lp_hold l" "lp_stall (fst (arm_engine h l)) = lp_stall l"
    "lp_net (fst (arm_engine h l)) = lp_net l" for l :: "('a, 'b) loop"
    by (simp_all add: arm_engine_def Let_def split_def)
  show "same_holds lp (auto_edge h e lp)" by (simp add: auto_edge_def same_holds_def drop_engine_def a Let_def)
  show "same_holds lp (key_f5 e lp)" by (simp add: key_f5_def same_holds_def)
  show "same_holds lp (disarm_edge h lp)" by (simp add: disarm_edge_def same_holds_def drop_engine_def Let_def split_def)
  show "same_holds lp (arm_edge h e lp)"
    by (simp add: arm_edge_def same_holds_def Let_def split_def a propose_epoch_frame split: bool.split)
  show "same_holds lp (key_auto e lp)" by (simp add: key_auto_def same_holds_def)
  show "same_holds lp (key_f6 h e hb lp)" by (simp add: key_f6_def same_holds_def)
qed

lemma edges_holds: "same_holds lp (edges h e hb lp)"
  unfolding edges_def by (intro same_holds_trans [OF _ edge_holds(6)] same_holds_trans [OF _ edge_holds(5)]
    same_holds_trans [OF _ edge_holds(4)] same_holds_trans [OF _ edge_holds(3)] same_holds_trans [OF _ edge_holds(2)] edge_holds(1))

lemma forward_save_holds: "same_holds lp (forward_save h e lp)"
  by (simp add: forward_save_def auto_rollback_def same_holds_def Let_def split_def)

lemma run_forward_holds: "same_holds lp (run_forward h e lp)"
  by (simp add: run_forward_def same_holds_def advance_frame_def Let_def)

lemma tick_ok:
  assumes "loop_ok lp"
  shows "loop_ok (fst (hk_main_proc h e hb lp))"
    "\<not> snd (hk_main_proc h e hb lp) \<Longrightarrow> hold_budget (fst (hk_main_proc h e hb lp)) < hold_budget lp"
proof -
  let ?s = "service_request h e (drain e lp)"
  have s: "loop_ok ?s" "hold_budget ?s \<le> hold_budget lp"
    using assms stays_drain [of lp e] by (auto simp: loop_ok_def hold_budget_def service_fields drain_fields stays_or_zero_def)
  note G = hold_gate_effect [OF s(1), of e]
  obtain l b where g: "hold_gate e ?s = (l, b)" by (cases "hold_gate e ?s") auto
  let ?l2 = "l\<lparr>lp_world := ho_on_frame h (lp_counter l) (lp_world l)\<rparr>"
  have "same_holds l ?l2" by (simp add: same_holds_def)
  then have "same_holds l (run_forward h e (forward_save h e (edges h e hb ?l2)))"
    by (rule same_holds_trans [OF same_holds_trans [OF same_holds_trans] run_forward_holds])
      (rule edges_holds forward_save_holds)+
  then show "loop_ok (fst (hk_main_proc h e hb lp))"
    using G(1) same_holds_ok by (cases b) (simp_all add: hk_main_proc_def g Let_def)
  show "\<not> snd (hk_main_proc h e hb lp) \<Longrightarrow> hold_budget (fst (hk_main_proc h e hb lp)) < hold_budget lp"
    using G(2) s(2) by (cases b) (simp_all add: hk_main_proc_def g Let_def)
qed

text \<open>The state before tick \<open>k\<close> of a run in which tick \<open>k\<close> finds \<open>env k\<close>.\<close>

primrec tick_state :: "('w, 'r) host \<Rightarrow> (nat \<Rightarrow> tick_env \<times> bool) \<Rightarrow> ('w, 'r) loop \<Rightarrow> nat \<Rightarrow> ('w, 'r) loop" where
  "tick_state h env lp 0 = lp"
| "tick_state h env lp (Suc k) = fst (hk_main_proc h (fst (env k)) (snd (env k)) (tick_state h env lp k))"

definition game_ran :: "('w, 'r) host \<Rightarrow> (nat \<Rightarrow> tick_env \<times> bool) \<Rightarrow> ('w, 'r) loop \<Rightarrow> nat \<Rightarrow> bool" where
  "game_ran h env lp k = snd (hk_main_proc h (fst (env k)) (snd (env k)) (tick_state h env lp k))"

lemma tick_state_ok: "loop_ok lp \<Longrightarrow> loop_ok (tick_state h env lp k)"
  by (induction k) (simp_all add: tick_ok)

lemma hold_budget_range: "loop_ok lp \<Longrightarrow> 0 \<le> hold_budget lp \<and> hold_budget lp \<le> 198"
  by (auto simp: loop_ok_def hold_budget_def)

lemma budget_spent:
  assumes "loop_ok lp" "\<And>k. m \<le> k \<Longrightarrow> k < m + n \<Longrightarrow> \<not> game_ran h env lp k"
  shows "hold_budget (tick_state h env lp (m + n)) + int n \<le> hold_budget (tick_state h env lp m)"
  using assms(2)
proof (induction n)
  case (Suc n)
  have "\<not> game_ran h env lp (m + n)" using Suc.prems by simp
  then have "hold_budget (tick_state h env lp (Suc (m + n))) < hold_budget (tick_state h env lp (m + n))"
    using tick_ok(2) [OF tick_state_ok [OF assms(1)]] by (simp add: game_ran_def)
  then show ?case using Suc by simp
qed simp

text \<open>C24. However the packets, the peer and the gates behave, among any 199 consecutive ticks at
  least one runs the game: give-backs hold at most 9 frames each and only one can start while the
  net frame stands still, and the barrier and the wait for the peer are given up after 180 ticks.\<close>
theorem frame_runs:
  assumes "loop_ok lp"
  shows "\<exists>k. m \<le> k \<and> k < m + 199 \<and> game_ran h env lp k"
proof (rule ccontr)
  assume "\<not> ?thesis"
  then have "hold_budget (tick_state h env lp (m + 199)) + 199 \<le> hold_budget (tick_state h env lp m)"
    using budget_spent [OF assms, of m 199 h env] by auto
  then show False
    using hold_budget_range [OF tick_state_ok [OF assms], of h env m] hold_budget_range [OF tick_state_ok [OF assms], of h env "m + 199"]
    by simp
qed

section \<open>The properties on a concrete driver\<close>

text \<open>A game that adds up what the first pad sends, its saves a function from frames.\<close>

definition demo_blocks :: "game_input \<Rightarrow> pads" where
  "demo_blocks i = (case i of Standing b \<Rightarrow> b | Polled p q \<Rightarrow> (case p of Some x \<Rightarrow> x | None \<Rightarrow> [], case q of Some x \<Rightarrow> x | None \<Rightarrow> []))"

definition demo_host :: "(nat \<times> pads, int \<Rightarrow> (nat \<times> pads) option) host" where
  "demo_host = \<lparr>ho_game = (\<lambda>i w. (fst w + length (fst (demo_blocks i)), demo_blocks i)), ho_blocks = snd,
     ho_set_blocks = (\<lambda>b w. (fst w, b)), ho_save = (\<lambda>f s. (fst s, (snd s)(f := Some (fst s)))),
     ho_load = (\<lambda>f s. case snd s f of Some w \<Rightarrow> (w, snd s) | None \<Rightarrow> s), ho_baseline = (\<lambda>s. (s, True)),
     ho_on_frame = (\<lambda>_ w. w), ho_drain = (\<lambda>w. w)\<rparr>"

definition demo_loop :: "(nat \<times> pads, int \<Rightarrow> (nat \<times> pads) option) loop" where
  "demo_loop = \<lparr>lp_engine = True, lp_counter = 10, lp_request = 8, lp_last_target = -1, lp_resim = False, lp_replay = -1,
     lp_hold = 0, lp_next = 0, lp_stall = 0, lp_clock = True, lp_fight_run = 0, lp_auto = False, lp_last_auto = 0,
     lp_depth = 4, lp_net = ni_init\<lparr>ni_active := True, ni_net_frame := 5\<rparr>, lp_arm = arm_init, lp_pads = pad_init,
     lp_world = (0, ([], [])), lp_ring = (\<lambda>_. None)\<rparr>"

definition demo_tick :: tick_env where
  "demo_tick = \<lparr>tk_recv = [], tk_rnd = (\<lambda>x. x),
     tk_frame = \<lparr>fe_is_p2 = False, fe_pad = Some [1, 2], fe_rtt = 0, fe_cfg = 0, fe_engine_frame = 0\<rparr>,
     tk_pad2 = None, tk_armed = False, tk_running = False, tk_both = False, tk_in_fight = False, tk_phase5 = False,
     tk_autoarm = False, tk_arm_off = False, tk_now = 0,
     tk_link = \<lparr>le_rtt = 0, le_direct = True, le_armed = False, le_armed_delay = 2, le_now = 0\<rparr>,
     tk_key_f5 = False, tk_key_f6 = False, tk_key_auto = False, tk_busy = False\<rparr>"

lemma demo_live: "armed_live demo_loop" "0 \<le> lp_counter demo_loop" "0 \<le> ni_net_frame (lp_net demo_loop)"
  "i < 256 \<Longrightarrow> map_base (lp_net demo_loop) i < ni_net_frame (lp_net demo_loop)" "loop_ok demo_loop"
  by (simp_all add: armed_live_def demo_loop_def pad_init_def map_base_def ni_init_def loop_ok_def)

theorem replay_off_by_one_witness:
  "lp_counter (fold (live_frame demo_host) [demo_tick] demo_loop) = 11
   \<and> ni_net_frame (lp_net (fold (live_frame demo_host) [demo_tick] demo_loop)) = 6
   \<and> rollback_request (lp_net (fold (live_frame demo_host) [demo_tick, demo_tick] demo_loop)) 6 = Some 12"
  using replay_off_by_one [OF demo_live(1-3), where es = "[demo_tick, demo_tick]" and j = 1 and h = demo_host] demo_live(4)
  by (simp add: demo_loop_def Let_def idx_small)

theorem deferred_request_lost_witness:
  "\<exists>t. service_request demo_host (demo_tick\<lparr>tk_busy := True\<rparr>) demo_loop = demo_loop\<lparr>lp_request := -1, lp_last_target := t\<rparr>"
  using deferred_request_lost [of demo_host "demo_tick\<lparr>tk_busy := True\<rparr>" demo_loop demo_tick]
  by (simp add: demo_loop_def Let_def)

theorem frame_runs_witness:
  "\<exists>k. 7 \<le> k \<and> k < 206 \<and> game_ran demo_host (\<lambda>_. (demo_tick, True)) demo_loop k"
  using frame_runs [OF demo_live(5), of 7 demo_host "\<lambda>_. (demo_tick, True)"] by simp

end
