(* ===== verification/Suspend.thy ===== *)
theory Suspend
  imports Prelude
begin

text \<open>
  Stopping the world, \<open>src/src/suspend.cpp\<close>: the thread cache, \<open>freeze\<close>, \<open>thaw\<close> and
  \<open>resume_held\<close>. A thread is known by its id and a handle is the thread it opens; the operating
  system is the set of threads that can be suspended with their suspend counts. The locks held
  across the loop and the render diagnostics are left out.
\<close>

type_synonym tid = u32

record os_threads =
  os_live :: "tid \<Rightarrow> bool"
  os_count :: "tid \<Rightarrow> nat"

definition MAXIMUM_SUSPEND_COUNT :: nat where "MAXIMUM_SUSPEND_COUNT = 127"

text \<open>\<open>SuspendThread\<close>, \<open>None\<close> where it returns -1; and \<open>ResumeThread\<close>.\<close>

definition suspend_thread :: "tid \<Rightarrow> os_threads \<Rightarrow> os_threads option" where
  "suspend_thread t os =
     (if os_live os t \<and> os_count os t < MAXIMUM_SUSPEND_COUNT
      then Some (os\<lparr>os_count := (os_count os)(t := os_count os t + 1)\<rparr>) else None)"

definition resume_thread :: "tid \<Rightarrow> os_threads \<Rightarrow> os_threads" where
  "resume_thread t os = os\<lparr>os_count := (os_count os)(t := os_count os t - 1)\<rparr>"

record suspender =
  sp_main :: tid
  sp_whitelist :: "tid list"
  sp_cached :: "tid list"
  sp_suspended :: "tid list"
  sp_window :: tid
  sp_held :: "tid list"

text \<open>
  What an enumeration finds: the process's threads by \<open>NtGetNextThread\<close> when it resolves, and the
  system-wide snapshot with owner and whether the thread opens.
\<close>

record thread_env =
  th_next :: "tid list option"
  th_snapshot :: "(u32 \<times> tid \<times> bool) list"
  th_pid :: u32
  th_caller :: tid

section \<open>The operations\<close>

definition is_whitelisted :: "suspender \<Rightarrow> tid \<Rightarrow> bool" where
  "is_whitelisted sp t \<longleftrightarrow> t = sp_main sp \<or> t \<in> set (sp_whitelist sp)"

definition sp_init :: "tid \<Rightarrow> suspender \<Rightarrow> suspender" where
  "sp_init caller sp = sp\<lparr>sp_main := caller\<rparr>"

definition note_window_thread :: "tid \<Rightarrow> suspender \<Rightarrow> suspender" where
  "note_window_thread t sp = sp\<lparr>sp_window := t\<rparr>"

definition whitelist :: "tid \<Rightarrow> suspender \<Rightarrow> suspender" where
  "whitelist t sp =
     (if length (sp_whitelist sp) < 16 then sp\<lparr>sp_whitelist := sp_whitelist sp @ [t]\<rparr> else sp)"

definition CACHE_MAX :: nat where "CACHE_MAX = 256"

definition cache_next :: "tid \<Rightarrow> tid \<Rightarrow> suspender \<Rightarrow> suspender" where
  "cache_next caller t sp =
     (if t = caller \<or> is_whitelisted sp t \<or> CACHE_MAX \<le> length (sp_cached sp) then sp
      else sp\<lparr>sp_cached := sp_cached sp @ [t]\<rparr>)"

definition cache_toolhelp :: "u32 \<Rightarrow> tid \<Rightarrow> u32 \<times> tid \<times> bool \<Rightarrow> suspender \<Rightarrow> suspender" where
  "cache_toolhelp pid caller e sp =
     (case e of (owner, t, opens) \<Rightarrow>
        if owner \<noteq> pid \<or> t = caller then sp
        else if is_whitelisted sp t \<or> CACHE_MAX \<le> length (sp_cached sp) then sp
        else if opens then sp\<lparr>sp_cached := sp_cached sp @ [t]\<rparr> else sp)"

definition build_cache :: "thread_env \<Rightarrow> suspender \<Rightarrow> suspender" where
  "build_cache e sp =
     (let sp1 = sp\<lparr>sp_cached := []\<rparr>;
          sp2 = (case th_next e of None \<Rightarrow> sp1 | Some ts \<Rightarrow> fold (cache_next (th_caller e)) ts sp1)
      in if sp_cached sp2 = [] then fold (cache_toolhelp (th_pid e) (th_caller e)) (th_snapshot e) sp2 else sp2)"

definition freeze_one :: "tid \<Rightarrow> suspender \<times> os_threads \<Rightarrow> suspender \<times> os_threads" where
  "freeze_one t s =
     (case s of (sp, os) \<Rightarrow>
        case suspend_thread t os of None \<Rightarrow> (sp, os)
        | Some os1 \<Rightarrow> (sp\<lparr>sp_suspended := sp_suspended sp @ [t]\<rparr>, os1))"

definition freeze :: "thread_env \<Rightarrow> suspender \<times> os_threads \<Rightarrow> suspender \<times> os_threads" where
  "freeze e s =
     (case s of (sp, os) \<Rightarrow>
        let sp1 = build_cache e sp in fold freeze_one (sp_cached sp1) (sp1\<lparr>sp_suspended := []\<rparr>, os))"

definition thaw_one :: "tid \<Rightarrow> suspender \<times> os_threads \<Rightarrow> suspender \<times> os_threads" where
  "thaw_one t s =
     (case s of (sp, os) \<Rightarrow>
        if (sp_window sp \<noteq> 0 \<and> t = sp_window sp) \<and> length (sp_held sp) < 16
        then (sp\<lparr>sp_held := sp_held sp @ [t]\<rparr>, os)
        else (sp, resume_thread t os))"

definition thaw :: "suspender \<times> os_threads \<Rightarrow> suspender \<times> os_threads" where
  "thaw s =
     (case s of (sp, os) \<Rightarrow>
        let (sp1, os1) = fold thaw_one (sp_suspended sp) (sp\<lparr>sp_held := []\<rparr>, os) in (sp1\<lparr>sp_suspended := []\<rparr>, os1))"

definition resume_held :: "suspender \<times> os_threads \<Rightarrow> suspender \<times> os_threads" where
  "resume_held s = (case s of (sp, os) \<Rightarrow> (sp\<lparr>sp_held := []\<rparr>, fold resume_thread (sp_held sp) os))"

section \<open>Who is stopped\<close>

lemma fold_cache_next:
  "fold (cache_next c) ts sp = sp\<lparr>sp_cached := sp_cached sp @
     take (CACHE_MAX - length (sp_cached sp)) (filter (\<lambda>t. t \<noteq> c \<and> \<not> is_whitelisted sp t) ts)\<rparr>"
proof (induction ts arbitrary: sp)
  case (Cons t ts)
  have w: "is_whitelisted (sp\<lparr>sp_cached := xs\<rparr>) u = is_whitelisted sp u" for xs u by (simp add: is_whitelisted_def)
  consider "t = c \<or> is_whitelisted sp t" | "\<not> (t = c \<or> is_whitelisted sp t)" "length (sp_cached sp) < CACHE_MAX"
    | "\<not> (t = c \<or> is_whitelisted sp t)" "CACHE_MAX \<le> length (sp_cached sp)" by linarith
  then show ?case
  proof cases
    case 1
    then show ?thesis using Cons by (auto simp: cache_next_def)
  next
    case 2
    then have "CACHE_MAX - length (sp_cached sp) = Suc (CACHE_MAX - Suc (length (sp_cached sp)))" by simp
    with 2 show ?thesis using Cons [of "sp\<lparr>sp_cached := sp_cached sp @ [t]\<rparr>"] by (simp add: cache_next_def w)
  next
    case 3
    then show ?thesis using Cons by (auto simp: cache_next_def)
  qed
qed simp

lemma freeze_one_fields:
  "sp_window (fst (fold freeze_one ts s)) = sp_window (fst s)"
  "sp_cached (fst (fold freeze_one ts s)) = sp_cached (fst s)"
  by (induction ts arbitrary: s) (auto simp: freeze_one_def split: prod.splits option.splits)

lemma fold_freeze_count:
  "(let (sp1, os1) = fold freeze_one ts (sp, os) in
     os_count os1 t + count_list (sp_suspended sp) t = os_count os t + count_list (sp_suspended sp1) t)"
proof (induction ts arbitrary: sp os)
  case (Cons u ts)
  show ?case
  proof (cases "suspend_thread u os")
    case None
    then show ?thesis using Cons [of sp os] by (simp add: freeze_one_def)
  next
    case (Some os1)
    then have "os_count os1 t = os_count os t + (if t = u then 1 else 0)"
      by (auto simp: suspend_thread_def split: if_splits)
    then show ?thesis using Cons [of "sp\<lparr>sp_suspended := sp_suspended sp @ [u]\<rparr>" os1] Some
      by (auto simp: freeze_one_def count_list_append split: if_splits)
  qed
qed simp

lemma fold_resume: "os_count (fold resume_thread ts os) t = os_count os t - count_list ts t"
  by (induction ts arbitrary: os) (auto simp: resume_thread_def)

lemma fold_thaw:
  "(let (sp1, os1) = fold thaw_one ts (sp, os) in
     os_count os1 t - (count_list (sp_held sp1) t - count_list (sp_held sp) t) = os_count os t - count_list ts t
     \<and> count_list (sp_held sp) t \<le> count_list (sp_held sp1) t)"
proof (induction ts arbitrary: sp os)
  case (Cons u ts)
  show ?case
  proof (cases "(sp_window sp \<noteq> 0 \<and> u = sp_window sp) \<and> length (sp_held sp) < 16")
    case True
    then show ?thesis using Cons [of "sp\<lparr>sp_held := sp_held sp @ [u]\<rparr>" os]
      by (auto simp: thaw_one_def count_list_append Let_def split: prod.splits if_splits)
  next
    case False
    then have t: "thaw_one u (sp, os) = (sp, resume_thread u os)" by (simp only: thaw_one_def prod.case if_False)
    show ?thesis using Cons [of sp "resume_thread u os"]
      by (auto simp: t resume_thread_def Let_def split: prod.splits if_splits)
  qed
qed simp

text \<open>Stopping the world is balanced: freeze, thaw and the resumption leave every suspend count as it was.\<close>

lemma freeze_balanced:
  "os_count (snd (resume_held (thaw (freeze e (sp, os))))) t = os_count os t"
proof -
  obtain sp1 os1 where f: "freeze e (sp, os) = (sp1, os1)" by (cases "freeze e (sp, os)")
  have 1: "os_count os1 t = os_count os t + count_list (sp_suspended sp1) t"
    using fold_freeze_count [of "sp_cached (build_cache e sp)" "(build_cache e sp)\<lparr>sp_suspended := []\<rparr>" os t] f
    by (simp add: freeze_def Let_def)
  obtain sp2 os2 where th: "fold thaw_one (sp_suspended sp1) (sp1\<lparr>sp_held := []\<rparr>, os1) = (sp2, os2)"
    by (cases "fold thaw_one (sp_suspended sp1) (sp1\<lparr>sp_held := []\<rparr>, os1)")
  have 2: "os_count os2 t - count_list (sp_held sp2) t = os_count os1 t - count_list (sp_suspended sp1) t"
    using fold_thaw [of "sp_suspended sp1" "sp1\<lparr>sp_held := []\<rparr>" os1 t] th by simp
  show ?thesis using 1 2 by (simp add: f thaw_def th resume_held_def fold_resume)
qed

text \<open>A thaw of distinct threads resumes each of them but the window thread, which it lists.\<close>

lemma thaw_other: "sp_window sp \<notin> set ts \<or> sp_window sp = 0 \<Longrightarrow> fold thaw_one ts (sp, os) = (sp, fold resume_thread ts os)"
  by (induction ts arbitrary: os) (auto simp: thaw_one_def)

lemma count_distinct: "distinct ts \<Longrightarrow> count_list ts t = (if t \<in> set ts then 1 else 0)"
  by (induction ts) (auto simp: count_list_0_iff)

lemma thaw_all:
  assumes "distinct ts" "sp_held sp = []"
  shows "os_count (snd (fold thaw_one ts (sp, os))) u
      = os_count os u - (if u \<in> set ts \<and> \<not> (u = sp_window sp \<and> u \<noteq> 0) then 1 else 0)"
    "sp_held (fst (fold thaw_one ts (sp, os)))
      = (if sp_window sp \<in> set ts \<and> sp_window sp \<noteq> 0 then [sp_window sp] else [])"
proof -
  let ?w = "sp_window sp"
  have "os_count (snd (fold thaw_one ts (sp, os))) u
      = os_count os u - (if u \<in> set ts \<and> \<not> (u = ?w \<and> u \<noteq> 0) then 1 else 0)
    \<and> sp_held (fst (fold thaw_one ts (sp, os))) = (if ?w \<in> set ts \<and> ?w \<noteq> 0 then [?w] else [])"
  proof (cases "?w \<in> set ts \<and> ?w \<noteq> 0")
    case True
    then obtain xs ys where ts: "ts = xs @ ?w # ys" using split_list by metis
    with assms(1) have d: "distinct xs" "distinct ys" "?w \<notin> set xs" "?w \<notin> set ys" "set xs \<inter> set ys = {}" by auto
    have "fold thaw_one ts (sp, os) = (sp\<lparr>sp_held := [?w]\<rparr>, fold resume_thread (xs @ ys) os)"
      using True assms(2) d(3,4)
      by (subst ts) (simp add: thaw_other thaw_one_def)
    moreover have "set ts = insert ?w (set xs \<union> set ys)" by (subst ts) auto
    moreover have "count_list (xs @ ys) v = (if v \<in> set xs \<union> set ys then 1 else 0)" for v
      using d by (subst count_distinct) auto
    ultimately show ?thesis using True d(3,4) by (simp only: fst_conv snd_conv fold_resume) auto
  next
    case False
    then show ?thesis using thaw_other [of sp ts os] assms by (auto simp: fold_resume count_distinct)
  qed
  then show "os_count (snd (fold thaw_one ts (sp, os))) u
      = os_count os u - (if u \<in> set ts \<and> \<not> (u = sp_window sp \<and> u \<noteq> 0) then 1 else 0)"
    "sp_held (fst (fold thaw_one ts (sp, os)))
      = (if sp_window sp \<in> set ts \<and> sp_window sp \<noteq> 0 then [sp_window sp] else [])" by blast+
qed

lemma freeze_all:
  assumes "distinct ts" "\<forall>u \<in> set ts. os_live os u \<and> os_count os u < MAXIMUM_SUSPEND_COUNT"
  shows "sp_suspended (fst (fold freeze_one ts (sp, os))) = sp_suspended sp @ ts"
  using assms
proof (induction ts arbitrary: sp os)
  case (Cons u ts)
  then show ?case by (auto simp: freeze_one_def suspend_thread_def)
qed simp

text \<open>The threads a freeze is to stop: all it finds but the caller, the main thread and the whitelisted ones.\<close>

definition to_stop :: "thread_env \<Rightarrow> suspender \<Rightarrow> tid list \<Rightarrow> tid set" where
  "to_stop e sp ts = {u \<in> set ts. u \<noteq> th_caller e \<and> u \<noteq> sp_main sp \<and> u \<notin> set (sp_whitelist sp)}"

text \<open>
  C40. What a freeze covers, in a process with at most 256 other threads, none at the maximal
  count: it raises by one the suspend count of every thread but the caller, the main thread and the
  whitelisted ones, and of these alone; the thaw takes that back for every one of them but the
  window thread, which stays stopped and is the only one listed to be resumed later. (If there is nothing to stop in the
  first enumeration the freeze falls back on the system-wide snapshot.)
\<close>
theorem freeze_covers:
  assumes "th_next e = Some ts" "distinct ts" "length ts \<le> CACHE_MAX"
    and "\<forall>u \<in> set ts. os_live os u \<and> os_count os u < MAXIMUM_SUSPEND_COUNT"
    and "to_stop e sp ts \<noteq> {}"
  shows "os_count (snd (freeze e (sp, os))) t = os_count os t + (if t \<in> to_stop e sp ts then 1 else 0)
    \<and> os_count (snd (thaw (freeze e (sp, os)))) t
        = os_count os t + (if t \<in> to_stop e sp ts \<and> t = sp_window sp \<and> t \<noteq> 0 then 1 else 0)
    \<and> sp_held (fst (thaw (freeze e (sp, os))))
        = (if sp_window sp \<in> to_stop e sp ts \<and> sp_window sp \<noteq> 0 then [sp_window sp] else [])"
proof -
  define cs where "cs = filter (\<lambda>t. t \<noteq> th_caller e \<and> \<not> is_whitelisted sp t) ts"
  have cs: "set cs = to_stop e sp ts" by (auto simp: cs_def to_stop_def is_whitelisted_def)
  have "length cs \<le> CACHE_MAX" using assms(3) by (simp add: cs_def le_trans [OF length_filter_le])
  moreover have "cs \<noteq> []" using assms(5) cs by auto
  moreover have "is_whitelisted (sp\<lparr>sp_cached := xs\<rparr>) u = is_whitelisted sp u" for xs u
    by (simp add: is_whitelisted_def)
  ultimately have bc: "build_cache e sp = sp\<lparr>sp_cached := cs\<rparr>"
    by (auto simp: build_cache_def assms(1) fold_cache_next cs_def [symmetric] Let_def)
  obtain sp1 os1 where s: "fold freeze_one cs (sp\<lparr>sp_cached := cs, sp_suspended := []\<rparr>, os) = (sp1, os1)" by fastforce
  have fz: "freeze e (sp, os) = (sp1, os1)" by (simp add: freeze_def bc s)
  have dc: "distinct cs" using assms(2) by (simp add: cs_def)
  have lv: "\<forall>u \<in> set cs. os_live os u \<and> os_count os u < MAXIMUM_SUSPEND_COUNT" using assms(4) by (simp add: cs_def)
  have susp: "sp_suspended sp1 = cs" using freeze_all [OF dc lv, of "sp\<lparr>sp_cached := cs, sp_suspended := []\<rparr>"] s by simp
  have win: "sp_window sp1 = sp_window sp"
    using freeze_one_fields(1) [of cs "(sp\<lparr>sp_cached := cs, sp_suspended := []\<rparr>, os)"] s by simp
  have up: "os_count os1 u = os_count os u + (if u \<in> set cs then 1 else 0)" for u
    using fold_freeze_count [of cs "sp\<lparr>sp_cached := cs, sp_suspended := []\<rparr>" os u] s
    by (simp add: susp count_distinct [OF dc])
  note T = thaw_all [OF dc, of "sp1\<lparr>sp_held := []\<rparr>" os1]
  have "thaw (sp1, os1) = (let (a, b) = fold thaw_one cs (sp1\<lparr>sp_held := []\<rparr>, os1) in (a\<lparr>sp_suspended := []\<rparr>, b))"
    by (simp add: thaw_def susp)
  then have "snd (thaw (sp1, os1)) = snd (fold thaw_one cs (sp1\<lparr>sp_held := []\<rparr>, os1))"
    "sp_held (fst (thaw (sp1, os1))) = sp_held (fst (fold thaw_one cs (sp1\<lparr>sp_held := []\<rparr>, os1)))"
    by (simp_all add: split_def Let_def)
  then show ?thesis using T(1) [of t] T(2) up [of t] by (simp add: fz win cs)
qed

definition os_demo :: os_threads where "os_demo = \<lparr>os_live = (\<lambda>_. True), os_count = (\<lambda>_. 0)\<rparr>"

definition sp_demo :: suspender where
  "sp_demo = \<lparr>sp_main = 1, sp_whitelist = [], sp_cached = [], sp_suspended = [], sp_window = 7, sp_held = []\<rparr>"

definition th_demo :: thread_env where
  "th_demo = \<lparr>th_next = Some [1, 5, 7], th_snapshot = [], th_pid = 9, th_caller = 1\<rparr>"

lemma freeze_covers_witness:
  "os_count (snd (freeze th_demo (sp_demo, os_demo))) 5 = 1 \<and> os_count (snd (thaw (freeze th_demo (sp_demo, os_demo)))) 5 = 0
   \<and> os_count (snd (thaw (freeze th_demo (sp_demo, os_demo)))) 7 = 1 \<and> sp_held (fst (thaw (freeze th_demo (sp_demo, os_demo)))) = [7]"
proof -
  have stop: "to_stop th_demo sp_demo [1, 5, 7] = {5, 7}" by (auto simp: to_stop_def th_demo_def sp_demo_def)
  have "th_next th_demo = Some [1, 5, 7]" "os_count os_demo t = 0" "sp_window sp_demo = 7" for t
    by (simp_all add: th_demo_def os_demo_def sp_demo_def)
  then show ?thesis
    using freeze_covers [of th_demo "[1, 5, 7]" os_demo sp_demo 5] freeze_covers [of th_demo "[1, 5, 7]" os_demo sp_demo 7]
    by (simp add: stop CACHE_MAX_def MAXIMUM_SUSPEND_COUNT_def os_demo_def)
qed

end
