(* ===== verification/Voice_Pool.thy ===== *)
theory Voice_Pool
  imports Alloc_Lists "HOL-Library.Multiset"
begin

text \<open>
  The deferred destruction of audio voices, \<open>src/src/voice_pool.cpp\<close>: the pool with its flush
  timer, the hooks on the engine's voice destructors and on the channel manager. The voice library
  is not under \<open>src/\<close>: a call of \<open>Stop\<close> or \<open>DestroyVoice\<close> is an entry of a log, made
  only when the voice has a vtable; the hooked originals are arguments.
\<close>

definition MAX_RETAINED :: nat where "MAX_RETAINED = 256"
definition FLUSH_DELAY :: int where "FLUSH_DELAY = 9"

datatype voice_call = Stop_Voice nat | Destroy_Voice nat

record voice_pool =
  vp_pool :: "(nat \<times> u32) list"
  vp_frame :: int
  vp_paused :: bool
  vp_calls :: "voice_call list"

definition vp_init :: voice_pool where
  "vp_init = \<lparr>vp_pool = [], vp_frame = 0, vp_paused = False, vp_calls = []\<rparr>"

section \<open>The pool\<close>

definition actually_destroy_voice :: "gmem \<Rightarrow> nat \<Rightarrow> voice_pool \<Rightarrow> voice_pool" where
  "actually_destroy_voice m v vp =
     (if v = 0 then vp
      else if rd64 m v \<noteq> 0 then vp\<lparr>vp_calls := vp_calls vp @ [Destroy_Voice v]\<rparr> else vp)"

definition stop_voice :: "gmem \<Rightarrow> nat \<Rightarrow> voice_pool \<Rightarrow> voice_pool" where
  "stop_voice m v vp = (if rd64 m v \<noteq> 0 then vp\<lparr>vp_calls := vp_calls vp @ [Stop_Voice v]\<rparr> else vp)"

definition defer_destroy_voice :: "bool \<Rightarrow> gmem \<Rightarrow> nat \<Rightarrow> voice_pool \<Rightarrow> voice_pool" where
  "defer_destroy_voice engine m v vp =
     (if v = 0 then vp
      else if \<not> engine then actually_destroy_voice m v vp
      else
        let vp1 = stop_voice m v vp; e = (v, word_of_int (vp_frame vp)) in
        if length (vp_pool vp1) < MAX_RETAINED then vp1\<lparr>vp_pool := vp_pool vp1 @ [e]\<rparr>
        else
          let vp2 = actually_destroy_voice m (fst (hd (vp_pool vp1))) vp1
          in vp2\<lparr>vp_pool := tl (vp_pool vp2) @ [e]\<rparr>)"

definition flush_voice :: "gmem \<Rightarrow> int \<Rightarrow> nat \<times> u32 \<Rightarrow> voice_pool \<Rightarrow> voice_pool" where
  "flush_voice m frame e vp =
     (if frame - sint (snd e) \<le> FLUSH_DELAY then vp\<lparr>vp_pool := vp_pool vp @ [e]\<rparr>
      else actually_destroy_voice m (fst e) vp)"

definition on_frame :: "gmem \<Rightarrow> int \<Rightarrow> voice_pool \<Rightarrow> voice_pool" where
  "on_frame m frame vp =
     (let vp1 = vp\<lparr>vp_frame := frame\<rparr> in
      if vp_paused vp1 then vp1
      else fold (flush_voice m frame) (vp_pool vp1) (vp1\<lparr>vp_pool := []\<rparr>))"

definition pause_flush :: "voice_pool \<Rightarrow> voice_pool" where "pause_flush vp = vp\<lparr>vp_paused := True\<rparr>"
definition resume_flush :: "voice_pool \<Rightarrow> voice_pool" where "resume_flush vp = vp\<lparr>vp_paused := False\<rparr>"

definition on_rollback :: "int \<Rightarrow> voice_pool \<Rightarrow> voice_pool" where
  "on_rollback target vp = vp\<lparr>vp_pool := map (\<lambda>(v, _). (v, word_of_int (vp_frame vp))) (vp_pool vp)\<rparr>"

definition flush_all :: "gmem \<Rightarrow> voice_pool \<Rightarrow> voice_pool" where
  "flush_all m vp = (fold (\<lambda>e. actually_destroy_voice m (fst e)) (vp_pool vp) vp)\<lparr>vp_pool := []\<rparr>"

section \<open>The hooks\<close>

type_synonym voices = "gmem \<times> voice_pool"

definition defer_and_null :: "bool \<Rightarrow> nat \<Rightarrow> voices \<Rightarrow> voices" where
  "defer_and_null engine a s =
     (if \<not> engine then s
      else case s of (m, vp) \<Rightarrow>
        let v = rd64 m a in
        if v \<noteq> 0 then (wr64 a 0 m, defer_destroy_voice engine m v vp) else (m, vp))"

text \<open>Each destructor hook walks the voice fields of its object and then lets the original run.\<close>

definition defer_fields :: "bool \<Rightarrow> nat list \<Rightarrow> voices \<Rightarrow> voices" where
  "defer_fields engine as s = fold (defer_and_null engine) as s"

definition run_orig :: "(gmem \<Rightarrow> gmem) \<Rightarrow> voices \<Rightarrow> voices" where
  "run_orig orig s = (orig (fst s), snd s)"

definition hk_1405d5810 :: "bool \<Rightarrow> (gmem \<Rightarrow> gmem) \<Rightarrow> nat \<Rightarrow> voices \<Rightarrow> voices" where
  "hk_1405d5810 engine orig p s = run_orig orig (defer_fields engine [p + 0x18] s)"

definition hk_1405c1340 :: "bool \<Rightarrow> (gmem \<Rightarrow> gmem) \<Rightarrow> nat \<Rightarrow> voices \<Rightarrow> voices" where
  "hk_1405c1340 engine orig p s = run_orig orig (defer_fields engine [p + 0x18] s)"

definition hk_1405c7040 :: "bool \<Rightarrow> (gmem \<Rightarrow> gmem) \<Rightarrow> nat \<Rightarrow> voices \<Rightarrow> voices" where
  "hk_1405c7040 engine orig p s = run_orig orig (defer_fields engine [p + 0x20, p + 0x28, p + 0x30] s)"

definition hk_1405c70a0 :: "bool \<Rightarrow> (gmem \<Rightarrow> gmem) \<Rightarrow> nat \<Rightarrow> voices \<Rightarrow> voices" where
  "hk_1405c70a0 engine orig p s = run_orig orig (defer_fields engine [p + 0x20, p + 0x28, p + 0x30] s)"

definition extended_fields :: "nat \<Rightarrow> nat list" where
  "extended_fields p = map (\<lambda>i. p + 0x88 + i * 8) [0..<16] @ map (\<lambda>i. p + 0x108 + i * 8) [0..<4]
     @ map (\<lambda>i. p + 0x68 + i * 8) [0..<4] @ [p + 0x60, p + 0x58]"

definition hk_1405cd440 :: "bool \<Rightarrow> (gmem \<Rightarrow> gmem) \<Rightarrow> nat \<Rightarrow> voices \<Rightarrow> voices" where
  "hk_1405cd440 engine orig p s = run_orig orig (defer_fields engine (extended_fields p) s)"

text \<open>The channel manager hangs off a singleton that can hold garbage during a teardown.\<close>

definition saudio :: "nat \<Rightarrow> gmem \<Rightarrow> nat" where "saudio base m = rd64 m (resolve base 0x140E18520)"

definition chanmgr_ok :: "nat \<Rightarrow> gmem \<Rightarrow> bool" where
  "chanmgr_ok base m \<longleftrightarrow> inv_canon (saudio base m) \<and> inv_canon (rd64 m (saudio base m + 0x38))"

definition channel_fields :: "bool \<Rightarrow> nat \<Rightarrow> voices \<Rightarrow> voices" where
  "channel_fields engine slot s =
     (let ch = rd64 (fst s) slot in
      if \<not> inv_canon ch then s else defer_fields engine [ch + 0x20, ch + 0x28, ch + 0x30] s)"

definition batch_walk :: "bool \<Rightarrow> nat \<Rightarrow> nat \<Rightarrow> nat \<Rightarrow> voices \<Rightarrow> voices" where
  "batch_walk engine base off n s =
     (let sa = saudio base (fst s) in
      if \<not> inv_canon sa then s
      else
        let mg = rd64 (fst s) (sa + 0x38) in
        if \<not> inv_canon mg then s
        else fold (\<lambda>i. channel_fields engine (mg + off + i * 8)) [0..<n] s)"

definition hk_1405cd300 :: "bool \<Rightarrow> bool \<Rightarrow> nat \<Rightarrow> (gmem \<Rightarrow> gmem) \<Rightarrow> voices \<Rightarrow> voices" where
  "hk_1405cd300 guard engine base orig s =
     (if guard \<and> \<not> chanmgr_ok base (fst s) then s
      else run_orig orig (batch_walk engine base 0x08 32 s))"

definition hk_1405cd3a0 :: "bool \<Rightarrow> bool \<Rightarrow> nat \<Rightarrow> (gmem \<Rightarrow> gmem) \<Rightarrow> voices \<Rightarrow> voices" where
  "hk_1405cd3a0 guard engine base orig s =
     (if guard \<and> \<not> chanmgr_ok base (fst s) then s
      else run_orig orig (batch_walk engine base 0x108 8 s))"

definition extra_channel :: "bool \<Rightarrow> nat \<Rightarrow> voices \<Rightarrow> voices" where
  "extra_channel engine base s =
     (let sa = saudio base (fst s) in
      if \<not> inv_canon sa then s
      else
        let mg = rd64 (fst s) (sa + 0x38) in
        if \<not> inv_canon mg then s
        else
          let extra = rd64 (fst s) (mg + 0x148) in
          if inv_canon extra then defer_and_null engine (extra + 0x18) s else s)"

definition hk_1405c6c10 :: "bool \<Rightarrow> bool \<Rightarrow> nat \<Rightarrow> (gmem \<Rightarrow> gmem) \<Rightarrow> nat \<Rightarrow> voices \<Rightarrow> voices" where
  "hk_1405c6c10 guard engine base orig p s =
     (let s1 = defer_and_null engine (p + 0x40) (extra_channel engine base s) in
      if guard \<and> \<not> chanmgr_ok base (fst s1) then s1 else run_orig orig s1)"

text \<open>The three play-path guards: silent during a replay and on a poisoned manager.\<close>

definition hk_1405be310 :: "bool \<Rightarrow> bool \<Rightarrow> bool \<Rightarrow> nat \<Rightarrow> (gmem \<Rightarrow> gmem) \<Rightarrow> gmem \<Rightarrow> gmem" where
  "hk_1405be310 sblock resim guard base orig m =
     (if sblock \<and> resim then m else if guard \<and> \<not> chanmgr_ok base m then m else orig m)"

definition hk_1405d43f0 :: "bool \<Rightarrow> bool \<Rightarrow> bool \<Rightarrow> nat \<Rightarrow> (gmem \<Rightarrow> gmem \<times> nat) \<Rightarrow> gmem \<Rightarrow> gmem \<times> nat" where
  "hk_1405d43f0 sblock resim guard base orig m =
     (if sblock \<and> resim then (m, 0) else if guard \<and> \<not> chanmgr_ok base m then (m, 0) else orig m)"

definition hk_1405d4380 :: "bool \<Rightarrow> bool \<Rightarrow> bool \<Rightarrow> nat \<Rightarrow> (gmem \<Rightarrow> gmem \<times> nat) \<Rightarrow> gmem \<Rightarrow> gmem \<times> nat" where
  "hk_1405d4380 sblock resim guard base orig m =
     (if sblock \<and> resim then (m, 0) else if guard \<and> \<not> chanmgr_ok base m then (m, 0) else orig m)"

section \<open>What happens to a voice\<close>

text \<open>A life of the pool: the calls the hooks and the frame driver make on it.\<close>

datatype vp_op = Defer bool nat | Frame int | Pause | Resume | Rollback int | Flush_All

fun vp_step :: "gmem \<Rightarrow> vp_op \<Rightarrow> voice_pool \<Rightarrow> voice_pool" where
  "vp_step m (Defer engine v) vp = defer_destroy_voice engine m v vp"
| "vp_step m (Frame f) vp = on_frame m f vp"
| "vp_step m Pause vp = pause_flush vp"
| "vp_step m Resume vp = resume_flush vp"
| "vp_step m (Rollback t) vp = on_rollback t vp"
| "vp_step m Flush_All vp = flush_all m vp"

fun destroyed :: "voice_call list \<Rightarrow> nat list" where
  "destroyed [] = []"
| "destroyed (Destroy_Voice v # cs) = v # destroyed cs"
| "destroyed (Stop_Voice v # cs) = destroyed cs"

fun handed :: "vp_op list \<Rightarrow> nat list" where
  "handed [] = []"
| "handed (Defer e v # ops) = (if v = 0 then handed ops else v # handed ops)"
| "handed (op # ops) = handed ops"

text \<open>All the voices the pool knows of: waiting or destroyed.\<close>

definition vp_known :: "voice_pool \<Rightarrow> nat multiset" where
  "vp_known vp = mset (map fst (vp_pool vp)) + mset (destroyed (vp_calls vp))"

definition vp_wf :: "gmem \<Rightarrow> voice_pool \<Rightarrow> bool" where
  "vp_wf m vp \<longleftrightarrow> length (vp_pool vp) \<le> MAX_RETAINED \<and> (\<forall>e \<in> set (vp_pool vp). rd64 m (fst e) \<noteq> 0 \<and> fst e \<noteq> 0)"

lemma destroyed_append [simp]: "destroyed (cs @ ds) = destroyed cs @ destroyed ds"
  by (induction cs rule: destroyed.induct) auto

lemma handed_append: "handed (xs @ ys) = handed xs @ handed ys"
  by (induction xs rule: handed.induct) auto

lemma destroy_fields [simp]:
  "vp_pool (actually_destroy_voice m v vp) = vp_pool vp"
  "vp_frame (actually_destroy_voice m v vp) = vp_frame vp"
  "vp_paused (actually_destroy_voice m v vp) = vp_paused vp"
  "vp_pool (stop_voice m v vp) = vp_pool vp"
  "vp_frame (stop_voice m v vp) = vp_frame vp"
  "destroyed (vp_calls (stop_voice m v vp)) = destroyed (vp_calls vp)"
  by (simp_all add: actually_destroy_voice_def stop_voice_def)

lemma destroyed_destroy [simp]:
  "v \<noteq> 0 \<Longrightarrow> rd64 m v \<noteq> 0 \<Longrightarrow>
   destroyed (vp_calls (actually_destroy_voice m v vp)) = destroyed (vp_calls vp) @ [v]"
  by (simp add: actually_destroy_voice_def)

text \<open>The flush is a split of the pool by age.\<close>

definition young :: "int \<Rightarrow> nat \<times> u32 \<Rightarrow> bool" where
  "young frame e \<longleftrightarrow> frame - sint (snd e) \<le> FLUSH_DELAY"

lemma fold_flush:
  assumes "\<forall>e \<in> set es. rd64 m (fst e) \<noteq> 0 \<and> fst e \<noteq> 0"
  shows "vp_pool (fold (flush_voice m frame) es vp) = vp_pool vp @ filter (young frame) es \<and>
    vp_frame (fold (flush_voice m frame) es vp) = vp_frame vp \<and>
    destroyed (vp_calls (fold (flush_voice m frame) es vp))
      = destroyed (vp_calls vp) @ map fst (filter (\<lambda>e. \<not> young frame e) es)"
  using assms
proof (induction es arbitrary: vp)
  case (Cons e es)
  show ?case
  proof (cases "young frame e")
    case True
    then have e: "flush_voice m frame e vp = vp\<lparr>vp_pool := vp_pool vp @ [e]\<rparr>"
      by (simp add: flush_voice_def young_def)
    show ?thesis using Cons.IH [of "vp\<lparr>vp_pool := vp_pool vp @ [e]\<rparr>"] Cons.prems True by (simp add: e)
  next
    case False
    then have e: "flush_voice m frame e vp = actually_destroy_voice m (fst e) vp"
      by (simp add: flush_voice_def young_def)
    show ?thesis using Cons.IH [of "actually_destroy_voice m (fst e) vp"] Cons.prems False by (simp add: e)
  qed
qed simp

lemma on_frame_pool:
  assumes "vp_wf m vp"
  shows "vp_pool (on_frame m frame vp) = (if vp_paused vp then vp_pool vp else filter (young frame) (vp_pool vp))"
    "vp_frame (on_frame m frame vp) = frame"
    "destroyed (vp_calls (on_frame m frame vp)) = destroyed (vp_calls vp)
       @ (if vp_paused vp then [] else map fst (filter (\<lambda>e. \<not> young frame e) (vp_pool vp)))"
  using fold_flush [of "vp_pool vp" m frame "vp\<lparr>vp_frame := frame, vp_pool := []\<rparr>"] assms
  by (auto simp: on_frame_def vp_wf_def Let_def)

lemma flush_all_calls:
  assumes "\<forall>e \<in> set es. rd64 m (fst e) \<noteq> 0 \<and> fst e \<noteq> 0"
  shows "destroyed (vp_calls (fold (\<lambda>e. actually_destroy_voice m (fst e)) es vp)) = destroyed (vp_calls vp) @ map fst es"
  using assms by (induction es arbitrary: vp) auto

lemma mset_split: "mset xs = mset (filter P xs) + mset (filter (\<lambda>x. \<not> P x) xs)"
  by (induction xs) auto

lemma known_on_frame:
  assumes "vp_wf m vp"
  shows "vp_known (on_frame m f vp) = vp_known vp"
proof -
  have "mset (map fst (vp_pool vp)) = mset (map fst (filter (young f) (vp_pool vp)))
      + mset (map fst (filter (\<lambda>e. \<not> young f e) (vp_pool vp)))"
    using mset_split [of "vp_pool vp" "young f"] by (metis image_mset_union mset_map)
  then show ?thesis by (simp add: vp_known_def on_frame_pool [OF assms])
qed

lemma known_defer:
  assumes "vp_wf m vp" "v \<noteq> 0" "rd64 m v \<noteq> 0"
  shows "vp_known (defer_destroy_voice engine m v vp) = vp_known vp + {#v#} \<and> vp_wf m (defer_destroy_voice engine m v vp)"
proof (cases "length (vp_pool vp) < MAX_RETAINED \<or> \<not> engine")
  case True
  then show ?thesis using assms
    by (auto simp: defer_destroy_voice_def Let_def vp_known_def vp_wf_def)
next
  case False
  then obtain e es where p: "vp_pool vp = e # es" "engine"
    by (cases "vp_pool vp") (auto simp: MAX_RETAINED_def)
  then have e: "fst e \<noteq> 0" "rd64 m (fst e) \<noteq> 0" using assms(1) by (auto simp: vp_wf_def)
  show ?thesis using False p e assms
    by (simp add: defer_destroy_voice_def Let_def vp_known_def vp_wf_def)
qed

lemma vp_step_known:
  assumes "vp_wf m vp" and "\<forall>v. v \<in> set (handed [op]) \<longrightarrow> rd64 m v \<noteq> 0"
  shows "vp_known (vp_step m op vp) = vp_known vp + mset (handed [op]) \<and> vp_wf m (vp_step m op vp)"
proof (cases op)
  case (Defer e v)
  then show ?thesis using known_defer [OF assms(1), of v e] assms
    by (cases "v = 0") (auto simp: defer_destroy_voice_def)
next
  case (Frame f)
  have "length (filter (young f) (vp_pool vp)) \<le> MAX_RETAINED"
    using assms(1) by (intro le_trans [OF length_filter_le]) (simp add: vp_wf_def)
  then have "vp_wf m (on_frame m f vp)" using assms(1) on_frame_pool(1) [OF assms(1), of f]
    by (auto simp: vp_wf_def)
  then show ?thesis using Frame known_on_frame [OF assms(1)] by simp
next
  case Flush_All
  then show ?thesis using assms flush_all_calls [of "vp_pool vp" m vp]
    by (simp add: flush_all_def vp_known_def vp_wf_def union_commute)
next
  case (Rollback t)
  have f: "fst \<circ> (\<lambda>(v, _). (v, x)) = fst" for x :: u32 by (simp add: fun_eq_iff split: prod.splits)
  have "vp_wf m (on_rollback t vp)" using assms(1) by (auto simp: vp_wf_def on_rollback_def)
  then show ?thesis using Rollback by (simp add: on_rollback_def vp_known_def f)
qed (use assms in \<open>simp_all add: pause_flush_def resume_flush_def vp_known_def vp_wf_def\<close>)

text \<open>
  C19. Conservation: over any life of the pool, a voice is waiting or destroyed exactly as many times as
  the destructors handed it over. Nothing is dropped, nothing is destroyed that was not handed over,
  and the pool never holds more than 256.
\<close>
theorem voices_conserved:
  assumes "\<forall>v \<in> set (handed ops). rd64 m v \<noteq> 0"
  shows "vp_known (fold (vp_step m) ops vp_init) = mset (handed ops)
    \<and> length (vp_pool (fold (vp_step m) ops vp_init)) \<le> MAX_RETAINED"
proof -
  have "vp_known (fold (vp_step m) ops vp) = vp_known vp + mset (handed ops) \<and> vp_wf m (fold (vp_step m) ops vp)"
    if "vp_wf m vp" for vp
    using assms that
  proof (induction ops arbitrary: vp)
    case (Cons op ops)
    have h: "handed (op # ops) = handed [op] @ handed ops" using handed_append [of "[op]" ops] by simp
    show ?case using Cons vp_step_known [of m vp op] by (auto simp: h union_assoc)
  qed simp
  from this [of vp_init] show ?thesis by (simp add: vp_wf_def vp_init_def vp_known_def)
qed

definition voice_mem :: gmem where "voice_mem = wr64 0x30000 0x40000 (wr64 0x20018 0x30000 (\<lambda>_. 0))"

lemma voice_mem_reads: "rd64 voice_mem 0x30000 = 0x40000" "rd64 voice_mem 0x20018 = 0x30000"
  by (simp_all add: voice_mem_def mem_simps apart_def)

lemma voices_conserved_witness:
  "vp_known (fold (vp_step voice_mem) [Defer True 0x30000, Frame 3, Pause, Resume] vp_init) = {#0x30000#}"
proof -
  have "\<forall>v \<in> set (handed [Defer True 0x30000, Frame 3, Pause, Resume]). rd64 voice_mem v \<noteq> 0"
    by (simp add: voice_mem_reads)
  from voices_conserved [OF this] show ?thesis by simp
qed

section \<open>A destruction that is replayed\<close>

lemma defer_and_null_on:
  assumes "rd64 m a = v" "v \<noteq> 0"
  shows "defer_and_null True a (m, vp) = (wr64 a 0 m, defer_destroy_voice True m v vp)"
  using assms by (simp add: defer_and_null_def)

text \<open>
  The pool does not notice that it already holds a voice. A destructor hands over the voice of a
  field; a rollback brings the field back with the memory it is in and the replay runs the
  destructor again: the voice is now in the pool twice, and when the timers run out it is destroyed
  twice.
\<close>
theorem voice_destroyed_twice:
  assumes "rd64 m (p + 0x18) = v" "v \<noteq> 0" "rd64 m v \<noteq> 0"
    and "0 \<le> f" "f + 10 < 2 ^ 31"
    and "vp = vp_init\<lparr>vp_frame := f\<rparr>"
  shows "let (_, vp1) = hk_1405d5810 True orig p (m, vp);
             (_, vp2) = hk_1405d5810 True orig p (m, pause_flush vp1);
             vp3 = on_rollback t (resume_flush vp2)
         in destroyed (vp_calls (on_frame m (f + 10) vp3)) = [v, v] \<and> vp_pool (on_frame m (f + 10) vp3) = []"
proof -
  define e where "e = (v, word_of_int f :: u32)"
  have fr: "sint (word_of_int f :: u32) = f"
    using assms(4,5) by simp
  have one: "snd (hk_1405d5810 True orig p (m, w)) = (stop_voice m v w)\<lparr>vp_pool := vp_pool w @ [(v, word_of_int (vp_frame w))]\<rparr>"
    if "length (vp_pool w) < MAX_RETAINED" for w
    using that assms(1,2)
    by (simp add: hk_1405d5810_def defer_fields_def run_orig_def defer_and_null_on defer_destroy_voice_def Let_def)
  define vp1 where "vp1 = snd (hk_1405d5810 True orig p (m, vp))"
  have vp1: "vp_pool vp1 = [e]" "vp_frame vp1 = f" "destroyed (vp_calls vp1) = []"
    using one [of vp] assms(6) by (simp_all add: vp1_def e_def vp_init_def MAX_RETAINED_def)
  define vp2 where "vp2 = snd (hk_1405d5810 True orig p (m, pause_flush vp1))"
  have vp2: "vp_pool vp2 = [e, e]" "vp_frame vp2 = f" "destroyed (vp_calls vp2) = []"
    using one [of "pause_flush vp1"] vp1 by (simp_all add: vp2_def e_def pause_flush_def MAX_RETAINED_def)
  define vp3 where "vp3 = on_rollback t (resume_flush vp2)"
  have vp3: "vp_pool vp3 = [e, e]" "vp_frame vp3 = f" "destroyed (vp_calls vp3) = []" "\<not> vp_paused vp3"
    using vp2 by (simp_all add: vp3_def e_def on_rollback_def resume_flush_def)
  have wf: "vp_wf m vp3" using vp3 assms(2,3) by (simp add: vp_wf_def e_def MAX_RETAINED_def)
  have old: "\<not> young (f + 10) e" by (simp add: young_def e_def fr FLUSH_DELAY_def)
  have "destroyed (vp_calls (on_frame m (f + 10) vp3)) = [v, v] \<and> vp_pool (on_frame m (f + 10) vp3) = []"
    using vp3 old by (simp add: on_frame_pool [OF wf] e_def)
  then show ?thesis by (simp add: vp1_def [symmetric] vp2_def [symmetric] vp3_def [symmetric] split_def Let_def)
qed

lemma voice_destroyed_twice_witness:
  "let (_, vp1) = hk_1405d5810 True id 0x20000 (voice_mem, vp_init\<lparr>vp_frame := 100\<rparr>);
       (_, vp2) = hk_1405d5810 True id 0x20000 (voice_mem, pause_flush vp1);
       vp3 = on_rollback 98 (resume_flush vp2)
   in destroyed (vp_calls (on_frame voice_mem 110 vp3)) = [0x30000, 0x30000] \<and> vp_pool (on_frame voice_mem 110 vp3) = []"
proof -
  have r: "rd64 voice_mem (0x20000 + 0x18) = 0x30000" by (simp add: voice_mem_reads)
  have "(0::int) \<le> 100" "(100::int) + 10 < 2 ^ 31" by simp_all
  from voice_destroyed_twice [OF r _ _ this refl, where orig = id and t = 98] show ?thesis
    by (simp add: voice_mem_reads)
qed

section \<open>The reprieve\<close>

text \<open>
  A voice handed over while the engine runs outlives the ten frames a rollback can reach back over:
  no frame up to nine past its stamp destroys it, and the first frame after that does, unless a
  rollback is under way.
\<close>
theorem voice_reprieve:
  assumes "vp_wf m vp" "length (vp_pool vp) < MAX_RETAINED" "v \<noteq> 0" "rd64 m v \<noteq> 0"
    and "0 \<le> vp_frame vp" "vp_frame vp < 2 ^ 31" "v \<notin> fst ` set (vp_pool vp)"
  shows "let vp1 = defer_destroy_voice True m v vp in
     v \<in> fst ` set (vp_pool vp1) \<and> destroyed (vp_calls vp1) = destroyed (vp_calls vp) \<and>
     (v \<in> fst ` set (vp_pool (on_frame m f vp1)) \<longleftrightarrow> f \<le> vp_frame vp + FLUSH_DELAY \<or> vp_paused vp)"
proof -
  define vp1 where "vp1 = defer_destroy_voice True m v vp"
  have p: "vp_pool vp1 = vp_pool vp @ [(v, word_of_int (vp_frame vp))]"
    "destroyed (vp_calls vp1) = destroyed (vp_calls vp)" "vp_paused vp1 = vp_paused vp"
    using assms(2,3) by (simp_all add: vp1_def defer_destroy_voice_def Let_def stop_voice_def)
  have fr: "sint (word_of_int (vp_frame vp) :: u32) = vp_frame vp"
    using assms(5,6) by simp
  have wf: "vp_wf m vp1" using known_defer [OF assms(1,3,4), of True] by (simp add: vp1_def)
  have "v \<in> fst ` set (filter (young f) (vp_pool vp1)) \<longleftrightarrow> f \<le> vp_frame vp + FLUSH_DELAY"
    using assms(7) by (auto simp: p young_def fr image_iff)
  then show ?thesis using p by (simp add: vp1_def [symmetric] Let_def on_frame_pool [OF wf])
qed

lemma voice_reprieve_witness:
  "0x30000 \<in> fst ` set (vp_pool (defer_destroy_voice True voice_mem 0x30000 vp_init))
    \<and> (0x30000 \<in> fst ` set (vp_pool (on_frame voice_mem 9 (defer_destroy_voice True voice_mem 0x30000 vp_init))))"
proof -
  have "vp_wf voice_mem vp_init" "length (vp_pool vp_init) < MAX_RETAINED" "(0x30000::nat) \<noteq> 0"
    "rd64 voice_mem 0x30000 \<noteq> 0" "0 \<le> vp_frame vp_init" "vp_frame vp_init < 2 ^ 31"
    "0x30000 \<notin> fst ` set (vp_pool vp_init)"
    by (simp_all add: vp_wf_def vp_init_def MAX_RETAINED_def voice_mem_reads)
  from voice_reprieve [OF this, of 9] show ?thesis by (simp add: Let_def vp_init_def FLUSH_DELAY_def)
qed

end
