(* ===== verification/Rollback_Guard.thy ===== *)
theory Rollback_Guard
  imports Suspend Voice_Pool Flist_Unit
begin

text \<open>
  The envelope of a rollback, \<open>do_rollback\<close> of \<open>src/src/resim.cpp\<close>: what it switches off on
  entry (frame cap, window activation flags, draw builds, the window thread, the voice flush), the
  gate that may defer it, the freeze and its recheck, and what it switches on again on exit. What is done
  to the game in between is arguments: the restore of the frozen world, the replay, the repairs of the
second freeze that follows the replay, and the last unlink pass. \<open>input::stop_inject\<close> and the diagnostics
(census, invariant checks, timing, logging) touch none of the envelope's state and are left out.
\<close>

section \<open>The gate\<close>

definition first_failing :: "(string \<times> (gmem \<Rightarrow> bool)) list \<Rightarrow> gmem \<Rightarrow> string option" where
  "first_failing pcs m = map_option fst (List.find (\<lambda>pc. \<not> snd pc m) pcs)"

definition register_precond ::
  "string \<Rightarrow> (gmem \<Rightarrow> bool) \<Rightarrow> (string \<times> (gmem \<Rightarrow> bool)) list \<Rightarrow> (string \<times> (gmem \<Rightarrow> bool)) list" where
  "register_precond nm f pcs = (if length pcs < 8 then pcs @ [(nm, f)] else pcs)"

text \<open>
  The spin: before each look the workers have run (\<open>w k\<close>); the clock allows looks up to number
  \<open>n\<close>, which is the first past the budget.
\<close>

function spin :: "(string \<times> (gmem \<Rightarrow> bool)) list \<Rightarrow> (nat \<Rightarrow> gmem \<Rightarrow> gmem) \<Rightarrow> nat \<Rightarrow> nat \<Rightarrow> gmem \<Rightarrow> string option \<times> gmem" where
  "spin pcs w n k m =
     (let m1 = w k m in
      case first_failing pcs m1 of None \<Rightarrow> (None, m1)
      | Some f \<Rightarrow> if n \<le> k then (Some f, m1) else spin pcs w n (k + 1) m1)"
  by pat_completeness auto
termination by (relation "measure (\<lambda>(pcs, w, n, k, m). n + 1 - k)") auto

declare spin.simps [simp del]

record gate =
  ga_waits :: nat
  ga_defers :: nat

definition wait_until_safe ::
  "(string \<times> (gmem \<Rightarrow> bool)) list \<Rightarrow> (nat \<Rightarrow> gmem \<Rightarrow> gmem) \<Rightarrow> nat \<Rightarrow> gmem \<times> gate \<Rightarrow> string option \<times> gmem \<times> gate" where
  "wait_until_safe pcs w n s =
     (case s of (m, g) \<Rightarrow>
        case first_failing pcs m of None \<Rightarrow> (None, m, g)
        | Some _ \<Rightarrow>
            let g1 = g\<lparr>ga_waits := ga_waits g + 1\<rparr>; (r, m1) = spin pcs w n 0 m in
            (r, m1, case r of None \<Rightarrow> g1 | Some _ \<Rightarrow> g1\<lparr>ga_defers := ga_defers g1 + 1\<rparr>))"

unbundle bit_operations_syntax

text \<open>No worker owns a free-list critical section: the class locks, then the manager's.\<close>

definition cs_free :: "nat \<Rightarrow> gmem \<Rightarrow> nat \<Rightarrow> bool" where
  "cs_free me m cs \<longleftrightarrow> \<not> (rd64 m (cs + 0x10) \<noteq> 0 \<and> rd64 m (cs + 0x10) \<noteq> me)"

definition desc_count :: "gmem \<Rightarrow> nat \<Rightarrow> nat" where
  "desc_count m ctrl = (let n = sint (word_of_int (int (rd32 m (ctrl + 0x648))) :: u32) in if n < 1 \<or> 8 < n then 8 else nat n)"

definition ctrl_free :: "nat \<Rightarrow> gmem \<Rightarrow> nat \<Rightarrow> bool" where
  "ctrl_free me m ctrl \<longleftrightarrow>
     (if ctrl < 0x10000 then True
      else if m (ctrl + 0x52) AND 6 = 0 then True
      else list_all (\<lambda>c. cs_free me m (ctrl + fst (CS_RANGES ! c))) [1..<desc_count m ctrl + 1]
           \<and> cs_free me m (ctrl + 0x620))"

definition precond_no_alloc_cs_held :: "nat \<Rightarrow> nat list \<Rightarrow> gmem \<Rightarrow> bool" where
  "precond_no_alloc_cs_held me ctrls m \<longleftrightarrow> list_all (ctrl_free me m) ctrls"

definition precond_no_loader_mid_load :: "bool \<Rightarrow> nat \<Rightarrow> gmem \<Rightarrow> bool" where
  "precond_no_loader_mid_load audio base m \<longleftrightarrow>
     (if \<not> audio then True
      else
        let body = rd64 m (resolve base 0x140E175A8) in
        if body < 0x10000 then True
        else if rd32 m (body + 0x2a0a0) \<noteq> 0 then False
        else if m (body + 0x2a0e8) \<noteq> 0 then False
        else if rd32 m (body + 0x2a1a0) \<noteq> rd32 m (body + 0x2a19c) then False
        else True)"

text \<open>The gate passes only at an instant at which every precondition holds.\<close>

lemma spin_safe: "spin pcs w n k m = (None, m1) \<Longrightarrow> first_failing pcs m1 = None"
proof (induction pcs w n k m rule: spin.induct)
  case (1 pcs w n k m)
  show ?case
  proof (cases "first_failing pcs (w k m)")
    case None
    then show ?thesis using 1(2) by (simp add: spin.simps [of pcs w n k m])
  next
    case (Some f)
    then have nk: "\<not> n \<le> k" and r: "spin pcs w n (k + 1) (w k m) = (None, m1)"
      using 1(2) by (auto simp: spin.simps [of pcs w n k m] Let_def split: if_splits)
    show ?thesis using "1.IH" [OF refl Some nk] r by simp
  qed
qed

lemma wait_safe:
  assumes "wait_until_safe pcs w n (m, g) = (None, m1, g1)"
  shows "first_failing pcs m1 = None"
  using assms spin_safe
  by (auto simp: wait_until_safe_def Let_def split: option.splits prod.splits)

lemma first_failing_None: "first_failing pcs m = None \<longleftrightarrow> (\<forall>pc \<in> set pcs. snd pc m)"
  by (force simp: first_failing_def find_None_iff)

section \<open>The envelope\<close>

record rollback =
  rb_mem :: gmem
  rb_block :: bool
  rb_os :: os_threads
  rb_susp :: suspender
  rb_voices :: voice_pool
  rb_gate :: gate
  rb_last :: int
  rb_any :: bool
  rb_monitor :: bool

record rollback_env =
  re_base :: nat
  re_smain :: nat
  re_target :: int
  re_enabled :: bool
  re_audio :: bool
  re_ctrls :: "nat list"
  re_me :: tid
  re_thread_id :: "nat \<Rightarrow> tid"
  re_at_sleep :: "nat \<Rightarrow> bool"
  re_workers :: "nat \<Rightarrow> gmem \<Rightarrow> gmem"
  re_budget :: nat
  re_catch :: "gmem \<Rightarrow> gmem"
  re_threads :: thread_env
  re_restore :: "gmem \<Rightarrow> gmem"
  re_replay :: "gmem \<times> voice_pool \<Rightarrow> gmem \<times> voice_pool"
  re_repair_on :: bool
  re_validate_on :: bool
  re_checks_off :: bool
  re_workers2 :: "nat \<Rightarrow> gmem \<Rightarrow> gmem"
  re_budget2 :: nat
  re_catch2 :: "gmem \<Rightarrow> gmem"
  re_threads2 :: thread_env
  re_repair :: "gmem \<Rightarrow> gmem"
  re_post :: "gmem \<Rightarrow> gmem"

definition wmgr :: "rollback_env \<Rightarrow> gmem \<Rightarrow> nat" where
  "wmgr e m = rd64 m (resolve (re_base e) 0x140E17758)"

definition frame_cap :: "rollback_env \<Rightarrow> nat" where "frame_cap e = re_smain e + 0x7C"

definition WM38 :: nat where "WM38 = 0x38"
definition WM2985 :: nat where "WM2985 = 0x2985"

text \<open>Suspending the window thread through its own handle, kept only where it sleeps.\<close>

fun hold_window :: "(nat \<Rightarrow> bool) \<Rightarrow> tid \<Rightarrow> nat \<Rightarrow> nat \<Rightarrow> os_threads \<Rightarrow> bool \<times> os_threads" where
  "hold_window sleeps t 0 k os = (False, os)"
| "hold_window sleeps t (Suc fuel) k os =
     (case suspend_thread t os of None \<Rightarrow> (False, os)
      | Some os1 \<Rightarrow> if sleeps k then (True, os1) else hold_window sleeps t fuel (k + 1) (resume_thread t os1))"

definition HOLD_TRIES :: nat where "HOLD_TRIES = 200"

text \<open>Entry: what is saved, and the flags cleared.\<close>

record saved =
  sv_wmgr :: nat
  sv_entry38 :: u8
  sv_entry2985 :: u8
  sv_cap :: u8
  sv_park :: nat
  sv_park38 :: u8
  sv_park2985 :: u8
  sv_held :: "tid option"

definition quiesce :: "rollback_env \<Rightarrow> saved \<times> rollback \<Rightarrow> saved \<times> rollback" where
  "quiesce e s =
     (case s of (sv0, rb) \<Rightarrow>
      let wm = wmgr e (rb_mem rb);
          sv = sv0\<lparr>sv_park := wm, sv_park38 := rb_mem rb (wm + WM38), sv_park2985 := rb_mem rb (wm + WM2985)\<rparr> in
      if wm = 0 then (sv0, rb)
      else
        let wth = rd64 (rb_mem rb) (wm + 0x2a98);
            wtid = (if wth = 0 then 0 else re_thread_id e wth);
            rb1 = rb\<lparr>rb_susp := (if wtid \<noteq> 0 then note_window_thread wtid (rb_susp rb) else rb_susp rb),
                     rb_block := True,
                     rb_mem := (rb_mem rb)(wm + WM38 := 0, wm + WM2985 := 0)\<rparr>
        in if wth = 0 \<or> wtid = re_me e then (sv, rb1)
           else
             let (safe, os) = hold_window (re_at_sleep e) wtid HOLD_TRIES 0 (rb_os rb1)
             in (if safe then sv\<lparr>sv_held := Some wtid\<rparr> else sv, rb1\<lparr>rb_os := os\<rparr>))"

definition rollback_enter :: "rollback_env \<Rightarrow> rollback \<Rightarrow> saved \<times> rollback" where
  "rollback_enter e rb0 =
     (let rb = rb0\<lparr>rb_last := re_target e, rb_any := True\<rparr>;
          wm = wmgr e (rb_mem rb);
          e38 = (if wm \<noteq> 0 then rb_mem rb (wm + WM38) else 0);
          e2985 = (if wm \<noteq> 0 then rb_mem rb (wm + WM2985) else 0);
          cap = rb_mem rb (frame_cap e);
          rb1 = rb\<lparr>rb_monitor := True, rb_voices := pause_flush (rb_voices rb),
                   rb_mem := (rb_mem rb)(frame_cap e := 0)\<rparr>
      in quiesce e (\<lparr>sv_wmgr = wm, sv_entry38 = e38, sv_entry2985 = e2985, sv_cap = cap,
                     sv_park = 0, sv_park38 = 0, sv_park2985 = 0, sv_held = None\<rparr>, rb1))"

definition preconds :: "rollback_env \<Rightarrow> (string \<times> (gmem \<Rightarrow> bool)) list" where
  "preconds e = register_precond ''no-loader-mid-load'' (precond_no_loader_mid_load (re_audio e) (re_base e))
     (register_precond ''no-alloc-cs-held'' (precond_no_alloc_cs_held (unat (re_me e)) (re_ctrls e)) [])"

text \<open>The gate and the freeze; \<open>None\<close> where the rollback is deferred.\<close>

definition rollback_gate :: "rollback_env \<Rightarrow> rollback \<Rightarrow> bool \<times> rollback" where
  "rollback_gate e rb =
     (let (blk, rb1) =
        (if re_enabled e then
           let (r, m, g) = wait_until_safe (preconds e) (re_workers e) (re_budget e) (rb_mem rb, rb_gate rb)
           in (r, rb\<lparr>rb_mem := m, rb_gate := g\<rparr>)
         else (None, rb))
      in case blk of Some _ \<Rightarrow> (False, rb1)
      | None \<Rightarrow>
          let (sp, os) = freeze (re_threads e) (rb_susp rb1, rb_os rb1);
              rb2 = rb1\<lparr>rb_susp := sp, rb_os := os, rb_mem := re_catch e (rb_mem rb1)\<rparr>
          in if re_enabled e \<and> \<not> precond_no_alloc_cs_held (unat (re_me e)) (re_ctrls e) (rb_mem rb2)
             then
               let (sp, os) = resume_held (thaw (rb_susp rb2, rb_os rb2))
               in (False, rb2\<lparr>rb_susp := sp, rb_os := os, rb_gate := (rb_gate rb2)\<lparr>ga_defers := ga_defers (rb_gate rb2) + 1\<rparr>\<rparr>)
             else (True, rb2))"

text \<open>
  After the replay: the held threads run again, the build block is lifted and the parked flags are re-armed.
\<close>

definition rearm :: "saved \<Rightarrow> rollback \<Rightarrow> rollback" where
  "rearm sv rb =
     (let (sp, os) = resume_held (rb_susp rb, rb_os rb);
          os1 = (case sv_held sv of None \<Rightarrow> os | Some t \<Rightarrow> resume_thread t os);
          m1 = (if sv_park sv \<noteq> 0
                then (rb_mem rb)(sv_park sv + WM38 := sv_park38 sv, sv_park sv + WM2985 := sv_park2985 sv) else rb_mem rb)
      in rb\<lparr>rb_susp := sp, rb_os := os1, rb_block := False, rb_mem := m1\<rparr>)"

text \<open>
  The second freeze, for the repairs after the replay: its own wait at the gate, which skips it on a
  timeout; a recheck once frozen, which thaws and skips the repairs; otherwise the repairs and the thaw.
\<close>

definition refreeze :: "rollback_env \<Rightarrow> rollback \<Rightarrow> rollback" where
  "refreeze e rb =
     (if \<not> (re_repair_on e \<or> re_validate_on e \<or> \<not> re_checks_off e) then rb
      else
        let (blk, rb1) =
          (if re_enabled e then
             let (r, m, g) = wait_until_safe (preconds e) (re_workers2 e) (re_budget2 e) (rb_mem rb, rb_gate rb)
             in (r, rb\<lparr>rb_mem := m, rb_gate := g\<rparr>)
           else (None, rb))
        in case blk of Some _ \<Rightarrow> rb1
        | None \<Rightarrow>
            let (sp, os) = freeze (re_threads2 e) (rb_susp rb1, rb_os rb1);
                m1 = re_catch2 e (rb_mem rb1);
                m2 = (if re_enabled e \<and> \<not> precond_no_alloc_cs_held (unat (re_me e)) (re_ctrls e) m1
                      then m1 else re_repair e m1);
                (sp2, os2) = resume_held (thaw (sp, os))
            in rb1\<lparr>rb_susp := sp2, rb_os := os2, rb_mem := m2\<rparr>)"

text \<open>The rest of the exit: voice flush, frame cap, the unlink pass, the monitor and the entry flags.\<close>

definition rollback_exit :: "rollback_env \<Rightarrow> saved \<Rightarrow> rollback \<Rightarrow> rollback" where
  "rollback_exit e sv rb0 =
     (let rb = refreeze e (rearm sv rb0);
          m1 = rb_mem rb;
          vp = on_rollback (re_target e) (resume_flush (rb_voices rb));
          m2 = m1(frame_cap e := sv_cap sv);
          m3 = re_post e m2;
          m4 = (if sv_wmgr sv \<noteq> 0
                then m3(sv_wmgr sv + WM38 := sv_entry38 sv, sv_wmgr sv + WM2985 := sv_entry2985 sv) else m3)
      in rb\<lparr>rb_mem := m4, rb_voices := vp, rb_monitor := False\<rparr>)"

definition guarded_rollback :: "rollback_env \<Rightarrow> rollback \<Rightarrow> bool \<times> rollback" where
  "guarded_rollback e rb =
     (let (sv, rb1) = rollback_enter e rb;
          (go, rb2) = rollback_gate e rb1
      in if \<not> go then (False, rb2)
         else
           let rb3 = rb2\<lparr>rb_mem := re_restore e (rb_mem rb2)\<rparr>;
               (sp, os) = thaw (rb_susp rb3, rb_os rb3);
               (m, vp) = re_replay e (rb_mem rb3, rb_voices rb3);
               rb4 = rb3\<lparr>rb_susp := sp, rb_os := os, rb_mem := m, rb_voices := vp\<rparr>
           in (True, rollback_exit e sv rb4))"


section \<open>What the envelope keeps\<close>

text \<open>The three bytes the envelope writes lie apart, and outside the cell that leads to two of them.\<close>

definition outside :: "nat \<Rightarrow> nat \<Rightarrow> nat \<Rightarrow> bool" where "outside a p n \<longleftrightarrow> a < p \<or> p + n \<le> a"

definition guard_layout :: "rollback_env \<Rightarrow> nat \<Rightarrow> bool" where
  "guard_layout e wm \<longleftrightarrow> wm \<noteq> 0 \<and> frame_cap e \<noteq> wm + WM38 \<and> frame_cap e \<noteq> wm + WM2985 \<and>
     list_all (\<lambda>a. outside a (resolve (re_base e) 0x140E17758) 8) [frame_cap e, wm + WM38, wm + WM2985]"

lemma rd64_byte: "outside a p 8 \<Longrightarrow> rd64 (m(a := v)) p = rd64 m p"
  by (rule c64.rd_bytes) (auto simp: outside_def)

lemma wmgr_bytes:
  assumes "guard_layout e wm" "a \<in> {frame_cap e, wm + WM38, wm + WM2985}"
  shows "wmgr e (m(a := v)) = wmgr e m"
  using assms by (auto simp: guard_layout_def wmgr_def rd64_byte)

lemma WM_apart [simp]: "WM38 \<noteq> WM2985" "WM2985 \<noteq> WM38"
  by (simp_all add: WM38_def WM2985_def)

lemma hold_window_count:
  "hold_window sleeps t fuel k os = (b, os') \<Longrightarrow> os_count os' u = os_count os u + (if b \<and> u = t then 1 else 0)"
proof (induction fuel arbitrary: k os)
  case (Suc fuel)
  then show ?case
    by (fastforce simp: suspend_thread_def resume_thread_def split: option.splits if_splits)
qed simp

lemma gate_count:
  "rollback_gate e rb = (False, rb') \<Longrightarrow> os_count (rb_os rb') t = os_count (rb_os rb) t"
  "rollback_gate e rb = (True, rb') \<Longrightarrow>
     os_count (snd (resume_held (thaw (rb_susp rb', rb_os rb')))) t = os_count (rb_os rb) t"
  using freeze_balanced [of "re_threads e" "rb_susp rb" "rb_os rb" t]
  by (auto simp: rollback_gate_def Let_def split: prod.splits option.splits if_splits)


lemma enter_fields:
  assumes "rollback_enter e rb = (sv, rb1)" "wmgr e (rb_mem rb) = wm" "guard_layout e wm"
  shows "sv_wmgr sv = wm" "sv_park sv = wm" "sv_cap sv = rb_mem rb (frame_cap e)"
    "sv_entry38 sv = rb_mem rb (wm + WM38)" "sv_entry2985 sv = rb_mem rb (wm + WM2985)"
    "rb_block rb1" "rb_monitor rb1" "vp_paused (rb_voices rb1)"
    "rb_mem rb1 = (rb_mem rb)(frame_cap e := 0, wm + WM38 := 0, wm + WM2985 := 0)"
    "os_count (rb_os rb1) t = os_count (rb_os rb) t + (if sv_held sv = Some t then 1 else 0)"
proof -
  have w: "wmgr e ((rb_mem rb)(frame_cap e := 0)) = wm" using assms(2,3) by (simp add: wmgr_bytes)
  have n: "wm \<noteq> 0" using assms(3) by (simp add: guard_layout_def)
  show "sv_wmgr sv = wm" "sv_park sv = wm" "sv_cap sv = rb_mem rb (frame_cap e)"
    "sv_entry38 sv = rb_mem rb (wm + WM38)" "sv_entry2985 sv = rb_mem rb (wm + WM2985)"
    "rb_block rb1" "rb_monitor rb1" "vp_paused (rb_voices rb1)"
    "rb_mem rb1 = (rb_mem rb)(frame_cap e := 0, wm + WM38 := 0, wm + WM2985 := 0)"
    using assms(1,2) n w
    by (auto simp: rollback_enter_def quiesce_def Let_def pause_flush_def split: prod.splits if_splits)
  show "os_count (rb_os rb1) t = os_count (rb_os rb) t + (if sv_held sv = Some t then 1 else 0)"
    using assms(1,2) n w hold_window_count
    by (auto simp: rollback_enter_def quiesce_def Let_def split: prod.splits if_splits)
qed

lemma refreeze_count: "os_count (rb_os (refreeze e rb)) t = os_count (rb_os rb) t"
  using freeze_balanced [of "re_threads2 e" "rb_susp rb" "rb_os rb" t]
  by (auto simp: refreeze_def Let_def split: prod.splits option.splits)

lemma refreeze_fields: "rb_block (refreeze e rb) = rb_block rb" "rb_voices (refreeze e rb) = rb_voices rb"
  by (auto simp: refreeze_def Let_def split: prod.splits option.splits)

lemma rearm_fields:
  "\<not> rb_block (rearm sv rb)" "rb_gate (rearm sv rb) = rb_gate rb"
  "os_count (rb_os (rearm sv rb)) t = os_count (snd (resume_held (rb_susp rb, rb_os rb))) t - (if sv_held sv = Some t then 1 else 0)"
  by (auto simp: rearm_def Let_def resume_thread_def split: prod.splits option.splits)

lemma exit_fields:
  fixes e sv rb
  defines "rb' \<equiv> rollback_exit e sv rb"
  shows "\<not> rb_block rb'" "\<not> rb_monitor rb'" "\<not> vp_paused (rb_voices rb')"
    "os_count (rb_os rb') t = os_count (snd (resume_held (rb_susp rb, rb_os rb))) t - (if sv_held sv = Some t then 1 else 0)"
  by (simp_all add: rb'_def rollback_exit_def Let_def on_rollback_def resume_flush_def refreeze_count refreeze_fields
      rearm_fields)

text \<open>The one thing asked of the unlink pass that runs after the frame cap is back: it leaves the cap's byte alone.\<close>

definition spares_cap :: "rollback_env \<Rightarrow> bool" where
  "spares_cap e \<longleftrightarrow> (\<forall>m. re_post e m (frame_cap e) = m (frame_cap e))"

lemma exit_mem:
  assumes "guard_layout e wm" "sv_wmgr sv = wm"
  shows "spares_cap e \<Longrightarrow> rb_mem (rollback_exit e sv rb) (frame_cap e) = sv_cap sv"
    "rb_mem (rollback_exit e sv rb) (wm + WM38) = sv_entry38 sv"
    "rb_mem (rollback_exit e sv rb) (wm + WM2985) = sv_entry2985 sv"
  using assms
  by (simp_all add: rollback_exit_def Let_def guard_layout_def spares_cap_def)

lemma rollback_envelope:
  assumes "guarded_rollback e rb = (True, rb')" "wmgr e (rb_mem rb) = wm" "guard_layout e wm" "spares_cap e"
  shows "rb_mem rb' (frame_cap e) = rb_mem rb (frame_cap e)
    \<and> rb_mem rb' (wm + WM38) = rb_mem rb (wm + WM38) \<and> rb_mem rb' (wm + WM2985) = rb_mem rb (wm + WM2985)
    \<and> os_count (rb_os rb') = os_count (rb_os rb)
    \<and> \<not> rb_block rb' \<and> \<not> rb_monitor rb' \<and> \<not> vp_paused (rb_voices rb')"
proof -
  obtain sv rb1 where en: "rollback_enter e rb = (sv, rb1)" by (cases "rollback_enter e rb")
  note ef = enter_fields [OF en assms(2,3)]
  obtain rb2 where ga: "rollback_gate e rb1 = (True, rb2)"
    using assms(1) en by (cases "rollback_gate e rb1") (auto simp: guarded_rollback_def split: if_splits)
  obtain rb4 where rb4: "rb' = rollback_exit e sv rb4" "(rb_susp rb4, rb_os rb4) = thaw (rb_susp rb2, rb_os rb2)"
    using assms(1) en ga by (auto simp: guarded_rollback_def Let_def split: prod.splits)
  have "os_count (rb_os rb') t = os_count (rb_os rb) t" for t
    using gate_count(2) [OF ga, of t] ef(10) [of t] by (simp add: rb4(1) exit_fields rb4(2))
  then show ?thesis
    using exit_mem(1) [OF assms(3) ef(1) assms(4)] exit_mem(2,3) [OF assms(3) ef(1)] ef(3-5) exit_fields(1-3) [of e sv rb4] by (simp add: rb4(1) fun_eq_iff)
qed

section \<open>A deferral that is never made good\<close>

definition guard_view :: "rollback_env \<Rightarrow> gmem \<Rightarrow> nat \<times> u8 \<times> u8 \<times> u8" where
  "guard_view e m = (wmgr e m, m (frame_cap e), m (wmgr e m + WM38), m (wmgr e m + WM2985))"

text \<open>Neither the workers nor the game between the rollbacks write what the envelope saved.\<close>

definition spares :: "rollback_env \<Rightarrow> bool" where
  "spares e \<longleftrightarrow> (\<forall>k m. guard_view e (re_workers e k m) = guard_view e m)
     \<and> (\<forall>m. guard_view e (re_catch e m) = guard_view e m)
     \<and> (\<forall>m vp. wmgr e (re_restore e m) = wmgr e m \<and> wmgr e (fst (re_replay e (m, vp))) = wmgr e m)
     \<and> (\<forall>k m. wmgr e (re_workers2 e k m) = wmgr e m)
     \<and> (\<forall>m. wmgr e (re_catch2 e m) = wmgr e m \<and> wmgr e (re_repair e m) = wmgr e m \<and> wmgr e (re_post e m) = wmgr e m)
     \<and> spares_cap e"














text \<open>A worker inside the manager's lock of one control object, and a window thread asleep.\<close>

definition guard_mem :: gmem where
  "guard_mem = (wr64 0x70630 5 (wr64 0xA2A98 0x44 (wr64 0xE17758 0xA0000 (\<lambda>_. 0))))(0x70052 := 2, 0x9007C := 1, 0xA0038 := 1, 0xA2985 := 1)"

definition guard_env :: rollback_env where
  "guard_env = \<lparr>re_base = 0, re_smain = 0x90000, re_target = 3, re_enabled = True, re_audio = False,
     re_ctrls = [0x70000], re_me = 1, re_thread_id = (\<lambda>_. 7), re_at_sleep = (\<lambda>_. True),
     re_workers = (\<lambda>_ m. m), re_budget = 0, re_catch = (\<lambda>m. m), re_threads = th_demo,
     re_restore = (\<lambda>m. m), re_replay = (\<lambda>s. s),
     re_repair_on = True, re_validate_on = False, re_checks_off = True, re_workers2 = (\<lambda>_ m. m), re_budget2 = 0,
     re_catch2 = (\<lambda>m. m), re_threads2 = th_demo, re_repair = (\<lambda>m. m(0x70052 := 1)),
     re_post = (\<lambda>m. m(0x70053 := 1))\<rparr>"

definition guard_start :: "gmem \<Rightarrow> rollback" where
  "guard_start m = \<lparr>rb_mem = m, rb_block = False, rb_os = os_demo, rb_susp = sp_demo, rb_voices = vp_init,
     rb_gate = \<lparr>ga_waits = 0, ga_defers = 0\<rparr>, rb_last = -1, rb_any = False, rb_monitor = False\<rparr>"

lemma guard_mem_reads:
  "rd64 guard_mem 0xE17758 = 0xA0000" "rd64 guard_mem 0xA2A98 = 0x44" "rd64 guard_mem 0x70630 = 5"
  "guard_mem 0x70052 = 2" "guard_mem 0x9007C = 1" "guard_mem 0xA0038 = 1" "guard_mem 0xA2985 = 1"
  by (simp_all add: guard_mem_def rd64_byte outside_def mem_simps apart_def)

lemma guard_env_layout: "guard_layout guard_env 0xA0000" "spares guard_env" "wmgr guard_env guard_mem = 0xA0000"
  by (simp_all add: guard_layout_def guard_env_def frame_cap_def WM38_def WM2985_def outside_def resolve_def
      IMAGE_BASE_def spares_def spares_cap_def wmgr_def rd64_byte guard_mem_reads)

lemma guard_enter:
  "rollback_enter guard_env (guard_start m) = (sv, rb1) \<Longrightarrow> wmgr guard_env m = 0xA0000 \<Longrightarrow>
     rb_mem rb1 = m(0x9007C := 0, 0xA0038 := 0, 0xA2985 := 0) \<and> rb_gate rb1 = \<lparr>ga_waits = 0, ga_defers = 0\<rparr>"
  using enter_fields(9) [of guard_env "guard_start m" sv rb1 "0xA0000"] guard_env_layout
  by (auto simp: guard_start_def guard_env_def frame_cap_def WM38_def WM2985_def rollback_enter_def quiesce_def
      Let_def split: prod.splits if_splits)


lemma guard_env_fields:
  "re_enabled guard_env" "re_workers guard_env = (\<lambda>_ m. m)" "re_budget guard_env = 0" "re_catch guard_env = (\<lambda>m. m)"
  "re_me guard_env = 1" "re_ctrls guard_env = [0x70000]" "\<not> re_audio guard_env"
  by (simp_all add: guard_env_def)

lemma gate_go:
  assumes "\<forall>pc \<in> set (preconds e). snd pc (rb_mem rb)" "precond_no_alloc_cs_held (unat (re_me e)) (re_ctrls e) (re_catch e (rb_mem rb))"
  shows "fst (rollback_gate e rb)"
proof -
  have "first_failing (preconds e) (rb_mem rb) = None" using assms(1) by (simp only: first_failing_None)
  then show ?thesis using assms(2) by (simp add: rollback_gate_def wait_until_safe_def Let_def split: prod.splits)
qed

lemma fst_guarded:
  "rollback_enter e rb = (sv, rb1) \<Longrightarrow> fst (guarded_rollback e rb) = fst (rollback_gate e rb1)"
  by (cases "rollback_gate e rb1") (auto simp: guarded_rollback_def Let_def split: prod.splits)





text \<open>
  C8. A rollback that runs to its end leaves the envelope as it found it, whatever the restore, the
  replay and the repairs of the second freeze did to the game's memory, and whichever way that second
  freeze went (switched off, skipped at its gate, thawed at its recheck, or run): frame cap and window
  activation flags have their entry values, every thread its suspend count, draw builds and the voice
  flush are on again. The last unlink pass runs after the cap is put back and is taken to leave it alone.
\<close>
theorem envelope_restored:
  assumes "guarded_rollback e rb = (True, rb')" "wmgr e (rb_mem rb) = wm" "guard_layout e wm" "spares_cap e"
  shows "rb_mem rb' (frame_cap e) = rb_mem rb (frame_cap e)
    \<and> rb_mem rb' (wm + WM38) = rb_mem rb (wm + WM38) \<and> rb_mem rb' (wm + WM2985) = rb_mem rb (wm + WM2985)
    \<and> os_count (rb_os rb') = os_count (rb_os rb)
    \<and> \<not> rb_block rb' \<and> \<not> rb_monitor rb' \<and> \<not> vp_paused (rb_voices rb')"
  using assms by (rule rollback_envelope)

lemma guard_passes: "fst (guarded_rollback guard_env (guard_start (guard_mem(0x70052 := 0))))"
proof -
  define m where "m = guard_mem(0x70052 := 0)"
  have wm: "wmgr guard_env m = 0xA0000"
    by (simp add: m_def wmgr_def guard_env_def rd64_byte outside_def resolve_def IMAGE_BASE_def guard_mem_reads)
  obtain sv rb1 where en: "rollback_enter guard_env (guard_start m) = (sv, rb1)"
    by (cases "rollback_enter guard_env (guard_start m)")
  have mem: "rb_mem rb1 (0x70052) = 0" using guard_enter [OF en wm] by (simp add: m_def)
  have "fst (rollback_gate guard_env rb1)"
    by (rule gate_go) (simp_all add: preconds_def register_precond_def guard_env_fields
        precond_no_loader_mid_load_def precond_no_alloc_cs_held_def ctrl_free_def mem)
  then show ?thesis by (simp add: fst_guarded [OF en] flip: m_def)
qed

lemma envelope_restored_witness:
  "rb_mem (snd (guarded_rollback guard_env (guard_start (guard_mem(0x70052 := 0))))) 0x9007C = 1"
proof -
  have g: "guarded_rollback guard_env (guard_start (guard_mem(0x70052 := 0)))
      = (True, snd (guarded_rollback guard_env (guard_start (guard_mem(0x70052 := 0)))))"
    using guard_passes by (cases "guarded_rollback guard_env (guard_start (guard_mem(0x70052 := 0)))") simp
  have m: "wmgr guard_env (rb_mem (guard_start (guard_mem(0x70052 := 0)))) = 0xA0000"
    by (simp add: guard_start_def wmgr_def guard_env_def rd64_byte outside_def resolve_def IMAGE_BASE_def guard_mem_reads)
  have "spares_cap guard_env" using guard_env_layout(2) by (simp add: spares_def)
  from envelope_restored [OF g m guard_env_layout(1) this] show ?thesis
    by (simp add: guard_start_def guard_mem_reads frame_cap_def guard_env_def)
qed

text \<open>
  The freeze never lands inside an allocator: when a rollback goes on past the gate, no worker owns a
  free-list critical section of any allocator in the frozen memory the restore starts from.
\<close>
theorem frozen_outside_allocators:
  assumes "rollback_gate e rb = (True, rb')" "re_enabled e" "ctrl \<in> set (re_ctrls e)"
  shows "ctrl_free (unat (re_me e)) (rb_mem rb') ctrl"
  using assms
  by (auto simp: rollback_gate_def Let_def precond_no_alloc_cs_held_def list_all_iff
      split: prod.splits option.splits if_splits)

lemma frozen_outside_allocators_witness:
  "ctrl_free 1 (rb_mem (snd (rollback_gate guard_env (guard_start (\<lambda>_. 0))))) 0x70000"
proof -
  have "fst (rollback_gate guard_env (guard_start (\<lambda>_. 0)))"
    by (rule gate_go) (simp_all add: preconds_def register_precond_def guard_env_fields guard_start_def
        precond_no_loader_mid_load_def precond_no_alloc_cs_held_def ctrl_free_def)
  then have "rollback_gate guard_env (guard_start (\<lambda>_. 0)) = (True, snd (rollback_gate guard_env (guard_start (\<lambda>_. 0))))"
    by (cases "rollback_gate guard_env (guard_start (\<lambda>_. 0))") simp
  from frozen_outside_allocators [OF this, of "0x70000"] show ?thesis by (simp add: guard_env_fields)
qed

end
