(* ===== verification/Render_Gates.thy ===== *)
theory Render_Gates
  imports Rollback_Guard
begin

text \<open>
  The hooks that keep the engine single-threaded and the renderer parked while a rollback replays
  frames (\<open>src/src/resim.cpp\<close>): each forces one field around the original and puts it back; the
  suppressed render kick replays its scalars from a ring recorded at the saves.
\<close>

text \<open>What a hook does around the original: force a field, run it, write the saved value back.\<close>

definition forced32 :: "nat \<Rightarrow> nat \<Rightarrow> (gmem \<Rightarrow> gmem) \<Rightarrow> gmem \<Rightarrow> gmem" where
  "forced32 a v orig m = wr32 a (rd32 m a) (orig (wr32 a v m))"

definition forced8 :: "nat \<Rightarrow> u8 \<Rightarrow> (gmem \<Rightarrow> gmem) \<Rightarrow> gmem \<Rightarrow> gmem" where
  "forced8 a v orig m = (orig (m(a := v)))(a := m a)"

definition hk_run_and_wait :: "bool \<Rightarrow> bool \<Rightarrow> nat \<Rightarrow> (gmem \<Rightarrow> gmem) \<Rightarrow> gmem \<Rightarrow> gmem" where
  "hk_run_and_wait resim single p orig m = (if resim \<and> single \<and> p \<noteq> 0 then forced32 (p + 0xa4) 1 orig m else orig m)"

definition hk_parallel_for :: "bool \<Rightarrow> bool \<Rightarrow> nat \<Rightarrow> (gmem \<Rightarrow> gmem) \<Rightarrow> gmem \<Rightarrow> gmem" where
  "hk_parallel_for resim single p orig m = (if resim \<and> single \<and> p \<noteq> 0 then forced8 (p + 0xB0) 0 orig m else orig m)"

section \<open>The render kick\<close>

record kick_rec =
  kr_frame :: int
  kr_counter :: nat
  kr_toggle :: nat
  kr_threaded :: u8

type_synonym kick_ring = "nat \<Rightarrow> kick_rec"

definition kick_ring_init :: kick_ring where
  "kick_ring_init = (\<lambda>_. \<lparr>kr_frame = 0, kr_counter = 0, kr_toggle = 0, kr_threaded = 0\<rparr>)"

definition kick_slot :: "int \<Rightarrow> nat" where "kick_slot f = nat (f mod 256)"

definition K_COUNTER :: nat where "K_COUNTER = 0x6764c"
definition K_TOGGLE :: nat where "K_TOGGLE = 0x67648"

definition apply_kick_scalars :: "nat \<Rightarrow> nat \<Rightarrow> nat \<Rightarrow> nat \<Rightarrow> u8 \<Rightarrow> gmem \<Rightarrow> gmem" where
  "apply_kick_scalars base sr c t th m =
     wr32 (resolve base 0x140E1B70C) (if th \<noteq> 0 then 2 else 1) (wr32 (resolve base 0x140E1B708) c
       (wr32 (sr + K_TOGGLE) t (wr32 (sr + K_COUNTER) c m)))"

text \<open>At each forward save, before the game runs.\<close>

definition record_kick :: "nat \<Rightarrow> int \<Rightarrow> gmem \<Rightarrow> kick_ring \<Rightarrow> kick_ring" where
  "record_kick base f m ring =
     (let sr = rd64 m (resolve base 0x140E179A8) in
      if sr = 0 then ring
      else ring(kick_slot f := \<lparr>kr_frame = f, kr_counter = rd32 m (sr + K_COUNTER),
                                kr_toggle = rd32 m (sr + K_TOGGLE), kr_threaded = m (sr + 0x3d)\<rparr>))"

definition replay_scalars :: "nat \<Rightarrow> nat \<Rightarrow> int \<Rightarrow> kick_ring \<Rightarrow> gmem \<Rightarrow> gmem" where
  "replay_scalars base p replay ring m =
     (let want = replay + 1; r = ring (kick_slot want) in
      if 0 \<le> replay \<and> kr_frame r = want
      then apply_kick_scalars base p (kr_counter r) (kr_toggle r) (kr_threaded r) m
      else
        let c = (rd32 m (p + K_COUNTER) + 1) mod 2 ^ 32;
            t = (if even (rd32 m (p + K_TOGGLE)) then rd32 m (p + K_TOGGLE) + 1 else rd32 m (p + K_TOGGLE) - 1)
        in apply_kick_scalars base p c t (m (p + 0x3d)) m)"

text \<open>The final frame also sets the ring cursors, by the engine's own functions.\<close>

definition setup_cursors ::
  "(nat \<Rightarrow> gmem \<Rightarrow> nat \<times> gmem) \<Rightarrow> (nat \<Rightarrow> gmem \<Rightarrow> nat \<times> gmem) \<Rightarrow> nat \<Rightarrow> gmem \<Rightarrow> gmem" where
  "setup_cursors lock_a lock_b p m =
     (let c = rd32 m (p + K_COUNTER);
          (a, m1) = lock_a (rd64 m (p + 0x867688 + (c mod 3) * 8)) m;
          m2 = wr64 (p + 0x8676b8) a m1;
          (b, m3) = lock_b (rd64 m2 (p + 0x8676a0 + (c mod 3) * 8)) m2
      in wr64 (p + 0x8676c0) b m3)"

definition hk_go_kick ::
  "nat \<Rightarrow> bool \<Rightarrow> bool \<Rightarrow> int \<Rightarrow> kick_ring \<Rightarrow> (nat \<Rightarrow> gmem \<Rightarrow> nat \<times> gmem) \<Rightarrow> (nat \<Rightarrow> gmem \<Rightarrow> nat \<times> gmem)
   \<Rightarrow> nat \<Rightarrow> (gmem \<Rightarrow> gmem) \<Rightarrow> gmem \<Rightarrow> gmem" where
  "hk_go_kick base suppress setup replay ring lock_a lock_b p orig m =
     (if suppress \<and> p \<noteq> 0 then
        let m1 = forced8 (p + 0x38) 1 orig m;
            m2 = replay_scalars base p replay ring m1
        in if setup then setup_cursors lock_a lock_b p m2 else m2
      else orig m)"

text \<open>After the last replayed frame the scalars are checked against the ring and forced to it.\<close>

definition settle_final :: "nat \<Rightarrow> int \<Rightarrow> kick_ring \<Rightarrow> gmem \<Rightarrow> gmem" where
  "settle_final base replay ring m =
     (let sr = rd64 m (resolve base 0x140E179A8); r = ring (kick_slot (replay + 1)) in
      if sr \<noteq> 0 \<and> kr_frame r = replay + 1 then
        if rd32 m (sr + K_COUNTER) \<noteq> kr_counter r \<or> rd32 m (sr + K_TOGGLE) \<noteq> kr_toggle r
        then apply_kick_scalars base sr (kr_counter r) (kr_toggle r) (kr_threaded r) m else m
      else m)"

section \<open>The draw-build witnesses\<close>

record builds =
  bd_depth :: int
  bd_skips :: nat
  bd_susp :: suspender
  bd_mem :: gmem

definition wt_fire :: "tid \<Rightarrow> tid \<Rightarrow> builds \<Rightarrow> builds" where
  "wt_fire main t b = (if main \<noteq> 0 \<and> t \<noteq> main then b\<lparr>bd_susp := note_window_thread t (bd_susp b)\<rparr> else b)"

definition witnessed :: "(builds \<Rightarrow> builds) \<Rightarrow> builds \<Rightarrow> builds" where
  "witnessed orig b = (let b1 = orig (b\<lparr>bd_depth := bd_depth b + 1\<rparr>) in b1\<lparr>bd_depth := bd_depth b1 - 1\<rparr>)"

definition hk_window_render :: "tid \<Rightarrow> tid \<Rightarrow> bool \<Rightarrow> (builds \<Rightarrow> builds) \<Rightarrow> builds \<Rightarrow> builds" where
  "hk_window_render main t block orig b =
     (let b1 = wt_fire main t b in if block then b1\<lparr>bd_skips := bd_skips b1 + 1\<rparr> else witnessed orig b1)"

definition hk_device_reset :: "tid \<Rightarrow> tid \<Rightarrow> (builds \<Rightarrow> builds) \<Rightarrow> builds \<Rightarrow> builds" where
  "hk_device_reset main t orig b = witnessed orig (wt_fire main t b)"

definition hk_capture_path :: "tid \<Rightarrow> tid \<Rightarrow> (builds \<Rightarrow> builds) \<Rightarrow> builds \<Rightarrow> builds" where
  "hk_capture_path main t orig b = witnessed orig (wt_fire main t b)"

section \<open>What the gates promise\<close>

lemma kick_slot_mod: "kick_slot f = nat (f mod 256)" by (simp add: kick_slot_def)

lemma kick_slot_inj: "kick_slot f = kick_slot g \<Longrightarrow> \<bar>f - g\<bar> < 256 \<Longrightarrow> f = g"
  using c_wrap_inj [of 256 f g] by (simp add: kick_slot_def c_wrap_eq)

text \<open>Records of later frames keep an earlier one for the 255 frames the ring holds.\<close>

definition kick_of :: "nat \<Rightarrow> int \<Rightarrow> gmem \<Rightarrow> kick_rec" where
  "kick_of base f m = (let sr = rd64 m (resolve base 0x140E179A8) in
     \<lparr>kr_frame = f, kr_counter = rd32 m (sr + K_COUNTER), kr_toggle = rd32 m (sr + K_TOGGLE), kr_threaded = m (sr + 0x3d)\<rparr>)"

lemma record_kick_eq:
  "rd64 m (resolve base 0x140E179A8) \<noteq> 0 \<Longrightarrow> record_kick base f m ring = ring(kick_slot f := kick_of base f m)"
  by (simp add: record_kick_def kick_of_def Let_def)

lemma kick_kept:
  assumes "\<forall>g m. (g, m) \<in> set later \<longrightarrow> \<bar>g - f\<bar> < 256 \<and> g \<noteq> f"
  shows "fold (\<lambda>(g, m). record_kick base g m) later ring (kick_slot f) = ring (kick_slot f)"
  using assms
proof (induction later arbitrary: ring)
  case (Cons gm later)
  obtain g m where gm: "gm = (g, m)" by (cases gm)
  have "kick_slot g \<noteq> kick_slot f" using kick_slot_inj [of g f] Cons.prems gm by auto
  then have "record_kick base g m ring (kick_slot f) = ring (kick_slot f)"
    by (simp add: record_kick_def Let_def)
  moreover have "fold (\<lambda>(g, m). record_kick base g m) later r (kick_slot f) = r (kick_slot f)" for r
    using Cons.prems by (intro Cons.IH) auto
  ultimately show ?case by (simp add: gm)
qed simp

text \<open>The engine's lock functions write neither the scalars nor the in-flight byte.\<close>

definition spares_scalars :: "nat \<Rightarrow> (nat \<Rightarrow> gmem \<Rightarrow> nat \<times> gmem) \<Rightarrow> bool" where
  "spares_scalars p lock \<longleftrightarrow>
     (\<forall>s w a. p + K_TOGGLE \<le> a \<and> a < p + K_TOGGLE + 8 \<or> a = p + 0x38 \<longrightarrow> snd (lock s w) a = w a)"

lemma setup_cursors_keeps:
  assumes "spares_scalars p la" "spares_scalars p lb" "p + K_TOGGLE \<le> a \<and> a < p + K_TOGGLE + 8 \<or> a = p + 0x38"
  shows "setup_cursors la lb p w a = w a"
proof -
  have w8: "wr64 (p + 0x8676b8) v x a = x a" "wr64 (p + 0x8676c0) v x a = x a" for v x
    using assms(3) by (auto intro!: c64.wr_outside simp: K_TOGGLE_def)
  have "snd (la s x) a = x a" "snd (lb s x) a = x a" for s x using assms unfolding spares_scalars_def by blast+
  then show ?thesis by (simp add: setup_cursors_def Let_def split_def w8)
qed

lemma kick_scalars_read:
  assumes "list_all (\<lambda>a. apart (p + K_TOGGLE) 8 a 4 \<and> outside (p + 0x38) a 4) [resolve base 0x140E1B708, resolve base 0x140E1B70C]"
    "c < 2 ^ 32" "t < 2 ^ 32"
  shows "rd32 (apply_kick_scalars base p c t th m) (p + K_COUNTER) = c"
    "rd32 (apply_kick_scalars base p c t th m) (p + K_TOGGLE) = t"
    "apply_kick_scalars base p c t th m (p + 0x38) = m (p + 0x38)"
proof -
  have ap: "apart (p + K_COUNTER) 4 a 4" "apart (p + K_TOGGLE) 4 a 4" "outside (p + 0x38) a 4"
    if "a \<in> {resolve base 0x140E1B708, resolve base 0x140E1B70C}" for a
    using that assms(1) by (auto simp: apart_def K_COUNTER_def K_TOGGLE_def)
  have own: "apart (p + K_COUNTER) 4 (p + K_TOGGLE) 4" by (simp add: apart_def K_COUNTER_def K_TOGGLE_def)
  have byte: "wr32 a v w (p + 0x38) = w (p + 0x38)" if "outside (p + 0x38) a 4" for a v w
    using that by (intro c32.wr_outside) (auto simp: outside_def)
  have out: "outside (p + 0x38) (p + K_COUNTER) 4" "outside (p + 0x38) (p + K_TOGGLE) 4"
    by (simp_all add: outside_def K_COUNTER_def K_TOGGLE_def)
  show "rd32 (apply_kick_scalars base p c t th m) (p + K_COUNTER) = c"
    "rd32 (apply_kick_scalars base p c t th m) (p + K_TOGGLE) = t"
    "apply_kick_scalars base p c t th m (p + 0x38) = m (p + 0x38)"
    using assms(2,3) by (simp_all add: apply_kick_scalars_def c32.rd_other c32.rd_wr ap own byte out)
qed

text \<open>
  C33. A replayed frame follows the recorded trajectory. The suppressed render kick of a frame within the ring's
  reach, with or without the cursor set-up of the final replayed frame, leaves the counter and the toggle that the
  run had when it saved the next frame, and the in-flight byte of the engine as it was before; and the check
  after the final frame ends in that counter and toggle whatever the rest of the frame made of them. The
  record must be within 255 frames; the engine's lock functions leave the scalars alone.
\<close>
theorem kick_trajectory:
  assumes "rd64 mr (resolve base 0x140E179A8) = p" "p \<noteq> 0" "0 \<le> f"
    and "\<forall>g m. (g, m) \<in> set later \<longrightarrow> \<bar>g - (f + 1)\<bar> < 256 \<and> g \<noteq> f + 1"
    and "list_all (\<lambda>a. apart (p + K_TOGGLE) 8 a 4 \<and> outside (p + 0x38) a 4) [resolve base 0x140E1B708, resolve base 0x140E1B70C]"
    and "spares_scalars p la" "spares_scalars p lb" "rd64 mf (resolve base 0x140E179A8) = p"
  shows "let ring1 = fold (\<lambda>(g, m). record_kick base g m) later (record_kick base (f + 1) mr ring);
             m' = hk_go_kick base True setup f ring1 la lb p orig m;
             m'' = settle_final base f ring1 mf
         in rd32 m' (p + K_COUNTER) = rd32 mr (p + K_COUNTER)
            \<and> rd32 m' (p + K_TOGGLE) = rd32 mr (p + K_TOGGLE) \<and> m' (p + 0x38) = m (p + 0x38)
            \<and> rd32 m'' (p + K_COUNTER) = rd32 mr (p + K_COUNTER) \<and> rd32 m'' (p + K_TOGGLE) = rd32 mr (p + K_TOGGLE)"
proof -
  define ring1 where "ring1 = fold (\<lambda>(g, m). record_kick base g m) later (record_kick base (f + 1) mr ring)"
  have r: "ring1 (kick_slot (f + 1)) = kick_of base (f + 1) mr"
    using kick_kept [OF assms(4)] assms(1,2) by (simp add: ring1_def record_kick_eq)
  define k where "k = kick_of base (f + 1) mr"
  have k: "kr_frame k = f + 1" "kr_counter k = rd32 mr (p + K_COUNTER)" "kr_toggle k = rd32 mr (p + K_TOGGLE)"
    using assms(1) by (simp_all add: k_def kick_of_def Let_def)
  note S = kick_scalars_read [OF assms(5) c32.rd_less c32.rd_less, of mr "p + K_COUNTER" mr "p + K_TOGGLE" "kr_threaded k"]
  define m2 where "m2 = apply_kick_scalars base p (kr_counter k) (kr_toggle k) (kr_threaded k) (forced8 (p + 0x38) 1 orig m)"
  have go: "hk_go_kick base True setup f ring1 la lb p orig m = (if setup then setup_cursors la lb p m2 else m2)"
    using assms(2,3) by (simp add: hk_go_kick_def replay_scalars_def r k_def [symmetric] k(1) m2_def Let_def)
  have keep: "hk_go_kick base True setup f ring1 la lb p orig m a = m2 a" if "p + K_TOGGLE \<le> a \<and> a < p + K_TOGGLE + 8 \<or> a = p + 0x38" for a
    using setup_cursors_keeps [OF assms(6,7) that] by (simp add: go)
  have "rd32 (hk_go_kick base True setup f ring1 la lb p orig m) (p + K_COUNTER) = rd32 m2 (p + K_COUNTER)"
    "rd32 (hk_go_kick base True setup f ring1 la lb p orig m) (p + K_TOGGLE) = rd32 m2 (p + K_TOGGLE)"
    by (rule c32.rd_bytes, rule keep, simp add: K_COUNTER_def K_TOGGLE_def)+
  moreover have "rd32 m2 (p + K_COUNTER) = rd32 mr (p + K_COUNTER)" "rd32 m2 (p + K_TOGGLE) = rd32 mr (p + K_TOGGLE)"
    "m2 (p + 0x38) = m (p + 0x38)"
    using S by (simp_all add: m2_def k forced8_def)
  moreover have "rd32 (settle_final base f ring1 mf) (p + K_COUNTER) = rd32 mr (p + K_COUNTER)"
    "rd32 (settle_final base f ring1 mf) (p + K_TOGGLE) = rd32 mr (p + K_TOGGLE)"
    using assms(2) S(1,2) [of mf] by (auto simp: settle_final_def assms(8) r k_def [symmetric] k Let_def)
  ultimately show ?thesis using keep [of "p + 0x38"] by (simp add: ring1_def [symmetric] Let_def)
qed

definition kick_mem :: gmem where
  "kick_mem = wr32 (0xA00000 + K_TOGGLE) 1 (wr32 (0xA00000 + K_COUNTER) 77 (wr64 0xE179A8 0xA00000 (\<lambda>_. 0)))"

lemma kick_trajectory_witness:
  "let ring1 = fold (\<lambda>(g, m). record_kick 0 g m) [(13, kick_mem), (14, kick_mem)] (record_kick 0 12 kick_mem kick_ring_init);
       m' = hk_go_kick 0 True True 11 ring1 (\<lambda>s m. (s, m)) (\<lambda>s m. (s, m)) 0xA00000 id (\<lambda>_. 0);
       m'' = settle_final 0 11 ring1 (wr64 0xE179A8 0xA00000 (\<lambda>_. 0))
   in rd32 m' (0xA00000 + K_COUNTER) = 77 \<and> rd32 m' (0xA00000 + K_TOGGLE) = 1 \<and> m' (0xA00000 + 0x38) = 0
     \<and> rd32 m'' (0xA00000 + K_COUNTER) = 77"
proof -
  have r: "rd64 kick_mem 0xE179A8 = 0xA00000" "rd32 kick_mem (0xA00000 + K_COUNTER) = 77"
    "rd32 kick_mem (0xA00000 + K_TOGGLE) = 1"
    by (simp_all add: kick_mem_def mem_simps apart_def K_COUNTER_def K_TOGGLE_def)
  have res: "resolve 0 0x140E179A8 = 0xE179A8" "resolve 0 0x140E1B708 = 0xE1B708" "resolve 0 0x140E1B70C = 0xE1B70C"
    by (simp_all add: resolve_def IMAGE_BASE_def)
  have "rd64 kick_mem (resolve 0 0x140E179A8) = 0xA00000" "(0xA00000::nat) \<noteq> 0" "(0::int) \<le> 11"
    "\<forall>g m. (g :: int, m) \<in> set [(13, kick_mem), (14, kick_mem)] \<longrightarrow> \<bar>g - (11 + 1)\<bar> < 256 \<and> g \<noteq> 11 + 1"
    "list_all (\<lambda>a. apart (0xA00000 + K_TOGGLE) 8 a 4 \<and> outside (0xA00000 + 0x38) a 4)
      [resolve 0 0x140E1B708, resolve 0 0x140E1B70C]"
    "spares_scalars 0xA00000 (\<lambda>s m. (s, m))" "spares_scalars 0xA00000 (\<lambda>s m. (s, m))"
    "rd64 (wr64 0xE179A8 0xA00000 (\<lambda>_. 0)) (resolve 0 0x140E179A8) = 0xA00000"
    by (simp_all add: res r apart_def outside_def K_TOGGLE_def spares_scalars_def mem_simps)
  from kick_trajectory [OF this, of kick_ring_init True id "\<lambda>_. 0"]
  show ?thesis by (simp add: r Let_def)
qed

text \<open>
  Forcing the engine serial is invisible afterwards: the worker count and the serial byte have the
  values they had, whatever the original wrote there, and outside a replay the hooks are the originals.
\<close>
theorem forced_fields_restored:
  "rd32 (hk_run_and_wait resim single p orig m) (p + 0xa4)
      = (if resim \<and> single \<and> p \<noteq> 0 then rd32 m (p + 0xa4) else rd32 (orig m) (p + 0xa4))
   \<and> hk_parallel_for resim single p orig m (p + 0xB0)
      = (if resim \<and> single \<and> p \<noteq> 0 then m (p + 0xB0) else orig m (p + 0xB0))"
  by (simp add: hk_run_and_wait_def hk_parallel_for_def forced32_def forced8_def rd32_back)

text \<open>
  The witness depth is balanced over any original that is, so a depth of zero means that no draw build
  is under way.
\<close>

lemma depth_balanced:
  assumes "bd_depth (orig (b\<lparr>bd_depth := bd_depth b + 1\<rparr>)) = bd_depth b + 1"
  shows "bd_depth (witnessed orig b) = bd_depth b"
  using assms by (simp add: witnessed_def Let_def)

end
