(* ===== verification/Default_Spine.thy ===== *)
theory Default_Spine
  imports Quarantine
begin

text \<open>
  The birth-stamp table of the Default allocator, \<open>src/src/rdspine.cpp\<close>: the twin of
  \<open>Idspine\<close> keyed by the user pointer, with the allocation hook that redirects blocks into the
  in-arena heap zone and the free hook. Slots are claimed without contention; the counters that
  are only logged are kept with the table they count.
\<close>

definition RD_CAP :: nat where "RD_CAP = 2 ^ 19"
definition RD_MAXPROBE :: nat where "RD_MAXPROBE = 96"

record rd_slot =
  rd_user :: nat
  rd_serial :: int
  rd_live :: bool
  rd_birth :: int
  rd_death :: int
  rd_in_arena :: bool
  rd_size :: int

record rdspine =
  rs_tab :: "rd_slot carray"
  rs_ctr :: int
  rs_births :: int
  rs_reuses :: int
  rs_deaths :: int
  rs_live :: int
  rs_full :: int
  rs_distinct :: int
  rs_in_arena :: int
  rs_crt :: int
  rs_size_zero :: int
  rs_size_max :: int

definition rs_init :: rdspine where
  "rs_init = \<lparr>rs_tab = (\<lambda>_. \<lparr>rd_user = 0, rd_serial = 0, rd_live = False, rd_birth = 0, rd_death = 0,
      rd_in_arena = False, rd_size = 0\<rparr>), rs_ctr = 0, rs_births = 0, rs_reuses = 0, rs_deaths = 0, rs_live = 0,
      rs_full = 0, rs_distinct = 0, rs_in_arena = 0, rs_crt = 0, rs_size_zero = 0, rs_size_max = 0\<rparr>"

definition rd_hash :: "nat \<Rightarrow> nat" where
  "rd_hash u =
     (let x = drop_bit 4 (of_nat u :: u64);
          x = xor x (drop_bit 33 x) * 0xff51afd7ed558ccd;
          x = xor x (drop_bit 33 x)
      in unat (and x 0x7FFFF))"

definition rd_seq :: "nat \<Rightarrow> nat list" where "rd_seq u = probe_seq RD_CAP RD_MAXPROBE (rd_hash u)"

abbreviation rd_key :: "rdspine \<Rightarrow> nat \<Rightarrow> nat" where "rd_key st k \<equiv> rd_user (rs_tab st k)"

definition rd_find :: "nat \<Rightarrow> rdspine \<Rightarrow> nat option" where "rd_find u st = probe_find (rd_key st) u (rd_seq u)"

definition note_size :: "u32 \<Rightarrow> rdspine \<Rightarrow> rdspine" where
  "note_size sz st = st\<lparr>rs_size_zero := rs_size_zero st + (if sz = 0 then 1 else 0),
                        rs_size_max := max (rs_size_max st) (uint sz)\<rparr>"

text \<open>A block handed out: where, its size as the 32 bits that are stored, and the frame.\<close>

definition rd_put :: "nat \<Rightarrow> u32 \<times> bool \<Rightarrow> int \<Rightarrow> rdspine \<Rightarrow> rdspine" where
  "rd_put u x frame st0 =
     (case x of (sz, ina) \<Rightarrow>
      let st = note_size sz st0 in
      case rd_find u st of
        None \<Rightarrow> st\<lparr>rs_full := rs_full st + 1\<rparr>
      | Some s \<Rightarrow>
          (let r = rs_tab st s; c = rs_ctr st + 1;
               r' = r\<lparr>rd_user := u, rd_serial := c, rd_birth := frame, rd_death := FRAME_NEVER,
                      rd_in_arena := ina, rd_size := sint sz, rd_live := True\<rparr>;
               st1 = st\<lparr>rs_tab := (rs_tab st)(s := r'), rs_ctr := c\<rparr>
           in if rd_user r = u
              then st1\<lparr>rs_reuses := rs_reuses st + 1, rs_live := (if rd_live r then rs_live st else rs_live st + 1)\<rparr>
              else st1\<lparr>rs_births := rs_births st + 1, rs_live := rs_live st + 1, rs_distinct := rs_distinct st + 1,
                       rs_in_arena := (if ina then rs_in_arena st + 1 else rs_in_arena st),
                       rs_crt := (if ina then rs_crt st else rs_crt st + 1)\<rparr>))"

definition rd_retire :: "nat \<Rightarrow> int \<Rightarrow> rdspine \<Rightarrow> rdspine" where
  "rd_retire u frame st =
     (case rd_find u st of
        None \<Rightarrow> st
      | Some s \<Rightarrow>
          (let r = rs_tab st s in
           if rd_user r = u
           then (let st1 = st\<lparr>rs_tab := (rs_tab st)(s := r\<lparr>rd_death := frame, rd_live := False\<rparr>)\<rparr>
                 in if rd_live r then st1\<lparr>rs_deaths := rs_deaths st + 1, rs_live := rs_live st - 1\<rparr> else st1)
           else st))"

definition rd_lookup :: "rdspine \<Rightarrow> nat \<Rightarrow> (int \<times> int \<times> int \<times> bool \<times> int) option" where
  "rd_lookup st u =
     (case rd_find u st of None \<Rightarrow> None
      | Some s \<Rightarrow> let r = rs_tab st s in
          if rd_user r = u then Some (rd_birth r, rd_death r, rd_serial r, rd_in_arena r, rd_size r) else None)"

section \<open>The allocator hooks\<close>

record default_side =
  da_rs :: rdspine
  da_quar :: quar
  da_zone :: heap_zone

text \<open>
  \<open>stage\<close> is the redirect, \<open>engine\<close> whether the rollback engine is on, \<open>record\<close> whether births are
  recorded; the original allocator's answer is an argument.
\<close>

definition hk_dmalloc ::
  "arena \<Rightarrow> bool \<Rightarrow> bool \<Rightarrow> bool \<Rightarrow> int \<Rightarrow> nat \<Rightarrow> int \<Rightarrow> nat \<Rightarrow> default_side \<Rightarrow> nat \<times> default_side" where
  "hk_dmalloc ar stage engine rec frame orig sz align st =
     (let rec_on = rec \<or> engine;
          stamp = (\<lambda>p s. (if rec_on then s\<lparr>da_rs := rd_put p (word_of_int sz, is_arena_addr ar p) frame (da_rs s)\<rparr> else s));
          drop = (\<lambda>p s. s\<lparr>da_quar := drop_default_husk p (da_quar s)\<rparr>);
          crt = (\<lambda>s. (orig, if rec_on \<and> 0x10000 < orig then drop orig (stamp orig s) else s))
      in if stage \<and> engine \<and> 0 < sz \<and> 0 < align \<and> align \<le> 0x10
         then (case heap_zone_alloc_default (nat sz) (da_zone st) of (hz, res) \<Rightarrow>
                 let st1 = st\<lparr>da_zone := hz\<rparr> in
                 case res of In_Zone z \<Rightarrow> if z \<noteq> 0 then (z, drop z (stamp z st1)) else crt st1 | _ \<Rightarrow> crt st1)
         else crt st)"

text \<open>The second result is whether the original free runs.\<close>

definition hk_dfree :: "bool \<Rightarrow> bool \<Rightarrow> bool \<Rightarrow> int \<Rightarrow> nat \<Rightarrow> default_side \<Rightarrow> default_side \<times> bool" where
  "hk_dfree stage engine rec frame u st =
     (let st1 = (if engine \<and> 0x10000 < u then st\<lparr>da_quar := note_default_husk u frame (da_quar st)\<rparr> else st) in
      if stage \<and> is_heap_zone_addr u (da_zone st1) then (st1, False)
      else ((if (rec \<or> engine) \<and> 0x10000 < u then st1\<lparr>da_rs := rd_retire u frame (da_rs st1)\<rparr> else st1), True))"

section \<open>The table\<close>

definition rd_ok :: "rdspine \<Rightarrow> bool" where
  "rd_ok st \<longleftrightarrow> chains_ok rd_seq (rd_key st) \<and> TOMB \<notin> range (rd_key st)"

definition rd_addr :: "nat \<Rightarrow> bool" where "rd_addr u \<longleftrightarrow> 0 < u \<and> u < TOMB"

lemma rs_init_ok: "rd_ok rs_init"
  by (simp add: rd_ok_def rs_init_def chains_ok_def TOMB_def)

lemma note_size_tab [simp]: "rs_tab (note_size sz st) = rs_tab st" "rs_ctr (note_size sz st) = rs_ctr st"
  by (simp_all add: note_size_def)

lemma rd_find_note [simp]: "rd_find u (note_size sz st) = rd_find u st"
  by (simp add: rd_find_def)

lemma rd_find_known: "rd_ok st \<Longrightarrow> rd_key st k = u \<Longrightarrow> rd_addr u \<Longrightarrow> rd_find u st = Some k"
  by (auto simp: rd_ok_def chains_ok_def rd_find_def rd_addr_def)

lemma rd_put_tab:
  "rs_tab (rd_put u (sz, ina) frame st) =
     (case rd_find u st of None \<Rightarrow> rs_tab st
      | Some s \<Rightarrow> (rs_tab st)(s := (rs_tab st s)\<lparr>rd_user := u, rd_serial := rs_ctr st + 1, rd_birth := frame,
          rd_death := FRAME_NEVER, rd_in_arena := ina, rd_size := sint sz, rd_live := True\<rparr>))"
  by (simp add: rd_put_def Let_def split: option.split)

lemma rd_retire_tab:
  "rs_tab (rd_retire u frame st) k =
     (if rd_find u st = Some k \<and> rd_key st k = u then (rs_tab st k)\<lparr>rd_death := frame, rd_live := False\<rparr> else rs_tab st k)"
  by (auto simp: rd_retire_def Let_def split: option.split)

lemma rd_retire_key: "rd_key (rd_retire u frame st) = rd_key st"
  by (simp add: fun_eq_iff rd_retire_tab)

lemma rd_put_ok:
  assumes "rd_ok st" "rd_addr u"
  shows "rd_ok (rd_put u x frame st)"
proof (cases "rd_find u st")
  case None
  then show ?thesis using assms(1) by (cases x) (simp add: rd_ok_def rd_put_tab)
next
  case (Some s)
  have key: "rd_key (rd_put u x frame st) = (rd_key st)(s := u)"
    using Some by (cases x) (simp add: rd_put_tab fun_eq_iff)
  have s: "rd_key st s = u \<or> rd_key st s = 0"
    using Some probe_find_key [of "rd_key st" u "rd_seq u" s] by (simp add: rd_find_def)
  show ?thesis
  proof (cases "rd_key st s = u")
    case True
    then have "(rd_key st)(s := u) = rd_key st" by auto
    then show ?thesis using assms(1) unfolding rd_ok_def key by simp
  next
    case False
    then show ?thesis
      using chains_insert [of rd_seq "rd_key st" u s] assms s Some
      unfolding rd_ok_def key by (auto simp: rd_addr_def rd_find_def)
  qed
qed

lemma rd_retire_ok: "rd_ok st \<Longrightarrow> rd_ok (rd_retire u frame st)"
  unfolding rd_ok_def rd_retire_key by simp

definition rd_death_of :: "rdspine \<Rightarrow> nat \<Rightarrow> int option" where
  "rd_death_of st u = map_option (\<lambda>(_, d, _). d) (rd_lookup st u)"

lemma rd_death_known:
  "rd_ok st \<Longrightarrow> rd_addr u \<Longrightarrow> rd_key st k = u \<Longrightarrow> rd_death_of st u = Some (rd_death (rs_tab st k))"
  using rd_find_known [of st k u] by (simp add: rd_death_of_def rd_lookup_def Let_def)

lemma rd_death_unknown: "\<forall>k. rd_key st k \<noteq> u \<Longrightarrow> rd_death_of st u = None"
  by (simp add: rd_death_of_def rd_lookup_def Let_def split: option.split)

lemma rd_death_other:
  assumes "rd_ok st" "rd_ok st'" "rd_addr v"
    and "\<And>k. rd_key st k = v \<or> rd_key st' k = v \<Longrightarrow> rs_tab st' k = rs_tab st k"
  shows "rd_death_of st' v = rd_death_of st v"
proof (cases "\<exists>k. rd_key st k = v \<or> rd_key st' k = v")
  case True
  then obtain k where k: "rd_key st k = v \<or> rd_key st' k = v" by blast
  then have "rd_key st k = v" "rd_key st' k = v" "rs_tab st' k = rs_tab st k" using assms(4) [of k] by auto
  then show ?thesis using rd_death_known assms(1-3) by metis
next
  case False
  then show ?thesis by (simp add: rd_death_unknown)
qed

interpretation rdt: death_table rd_put rd_retire rd_death_of rd_ok rd_addr FRAME_NEVER
proof
  show "rd_ok (rd_put u x f s)" if "rd_ok s" "rd_addr u" for s u x f
    using that by (rule rd_put_ok)
  show "rd_ok (rd_retire u f s)" if "rd_ok s" for s u f
    using that by (rule rd_retire_ok)
  show "rd_death_of (rd_put u x f s) u \<in> {None, Some FRAME_NEVER}" if "rd_ok s" "rd_addr u" for s u x f
  proof (cases "rd_find u s")
    case None
    then have "rs_tab (rd_put u x f s) = rs_tab s" by (cases x) (simp add: rd_put_tab)
    then have "rd_find u (rd_put u x f s) = None" using None by (simp add: rd_find_def)
    then show ?thesis by (simp add: rd_death_of_def rd_lookup_def)
  next
    case (Some k)
    then have "rd_key (rd_put u x f s) k = u" "rd_death (rs_tab (rd_put u x f s) k) = FRAME_NEVER"
      by (cases x, simp add: rd_put_tab)+
    then show ?thesis using rd_death_known [OF rd_put_ok [OF that] that(2)] by simp
  qed
  show "rd_death_of (rd_put u x f s) v = rd_death_of s v"
    if "rd_ok s" "rd_addr u" "rd_addr v" "v \<noteq> u" for s u v x f
  proof (cases "rd_find u s")
    case None
    then have "rs_tab (rd_put u x f s) = rs_tab s" by (cases x) (simp add: rd_put_tab)
    then show ?thesis by (simp add: rd_death_of_def rd_lookup_def rd_find_def Let_def cong: option.case_cong)
  next
    case (Some k)
    then have "rd_key s k = u \<or> rd_key s k = 0"
      using probe_find_key [of "rd_key s" u "rd_seq u" k] by (simp add: rd_find_def)
    moreover obtain sz ina where "x = (sz, ina)" by (cases x)
    ultimately show ?thesis
      using that(3,4) Some
      by (intro rd_death_other [OF that(1) rd_put_ok [OF that(1,2)] that(3)])
        (auto simp: rd_put_tab rd_addr_def split: if_splits)
  qed
  show "rd_death_of (rd_retire u f s) u = map_option (\<lambda>_. f) (rd_death_of s u)" if "rd_ok s" "rd_addr u" for s u f
  proof (cases "\<exists>k. rd_key s k = u")
    case True
    then obtain k where k: "rd_key s k = u" by blast
    have "rd_key (rd_retire u f s) k = u" by (simp add: rd_retire_tab k)
    from rd_death_known [OF rd_retire_ok [OF that(1)] that(2) this]
    show ?thesis using rd_death_known [OF that k] rd_find_known [OF that(1) k that(2)] k by (simp add: rd_retire_tab)
  next
    case False
    then show ?thesis by (simp add: rd_death_unknown rd_retire_tab)
  qed
  show "rd_death_of (rd_retire u f s) v = rd_death_of s v"
    if "rd_ok s" "rd_addr u" "rd_addr v" "v \<noteq> u" for s u v f
    using that(4)
    by (intro rd_death_other [OF that(1) rd_retire_ok [OF that(1)] that(3)])
      (auto simp: rd_retire_tab split: if_splits)
qed

end
