(* ===== verification/Identity_Oracle.thy ===== *)
theory Identity_Oracle
  imports Default_Spine
begin

text \<open>
  The identity oracle, \<open>src/src/id_oracle.cpp\<close>: one answer to the question whether an address holds
  a live object of the right identity at a frame, from the husk set, the two identity spines, the
  engine's dead marker and the object's own generation word. It only reads; its statistics are
  left out. \<open>VirtualQuery\<close> is an argument: the readable region an address lies in.
\<close>

datatype liveness = Alive_Same | Dead_At | Aba_Recycled | Born_After | External | Unknown_Id

record id_oracle =
  or_base :: nat
  or_arena :: arena
  or_query :: "nat \<Rightarrow> (nat \<times> nat) option"
  or_sentinel :: nat
  or_quar :: quar
  or_rd :: rdspine
  or_spine :: spine
  or_mem :: gmem

definition or_canon :: "nat \<Rightarrow> bool" where "or_canon p \<longleftrightarrow> 0x10000 \<le> p \<and> p < 0x800000000000"

definition or_committed :: "id_oracle \<Rightarrow> nat \<Rightarrow> nat \<Rightarrow> bool" where
  "or_committed q p need =
     (if \<not> or_canon p then False
      else
        let last = p + (if need \<noteq> 0 then need - 1 else 0) in
        if is_arena_addr (or_arena q) p \<and> is_arena_addr (or_arena q) last
        then is_committed_addr (or_arena q) p \<and> is_committed_addr (or_arena q) last
        else case or_query q p of None \<Rightarrow> False | Some (b, n) \<Rightarrow> p + need \<le> b + n)"

definition is_domain_valid :: "id_oracle \<Rightarrow> nat \<Rightarrow> nat \<Rightarrow> bool" where
  "is_domain_valid q p need \<longleftrightarrow> or_canon p \<and> p mod 4 = 0 \<and> or_committed q p (if need \<noteq> 0 then need else 8)"

definition in_our_domain :: "id_oracle \<Rightarrow> nat \<Rightarrow> bool" where
  "in_our_domain q a \<longleftrightarrow> 0x10000 < a \<and> is_committed_addr (or_arena q) a"

definition vtable_is_garbage :: "nat \<Rightarrow> nat \<Rightarrow> bool" where
  "vtable_is_garbage base vt = (if vt = 0 then False else if vt < base then True else 0x2000000 \<le> vt - base)"

definition or_is_dead :: "id_oracle \<Rightarrow> nat \<Rightarrow> bool" where
  "or_is_dead q p =
     (if \<not> in_our_domain q p then False
      else if is_held_husk p (or_quar q) then True
      else or_sentinel q \<noteq> 0 \<and> rd64 (or_mem q) p = or_sentinel q)"

definition is_recycled_nonobject :: "id_oracle \<Rightarrow> nat \<Rightarrow> bool" where
  "is_recycled_nonobject q p =
     (if \<not> in_our_domain q p then False else vtable_is_garbage (or_base q) (rd64 (or_mem q) p))"

definition is_husk_vtable :: "id_oracle \<Rightarrow> nat \<Rightarrow> bool" where
  "is_husk_vtable q p =
     (if \<not> in_our_domain q p then False
      else
        let vt = rd64 (or_mem q) p in
        if vt = 0 then True
        else if or_sentinel q \<noteq> 0 \<and> vt = or_sentinel q then True
        else vtable_is_garbage (or_base q) vt)"

definition capture_gen8 :: "id_oracle \<Rightarrow> nat \<Rightarrow> nat" where
  "capture_gen8 q p = (if \<not> or_committed q (p + 8) 8 then 0 else rd64 (or_mem q) (p + 8))"

definition gen_changed :: "id_oracle \<Rightarrow> nat \<Rightarrow> nat \<Rightarrow> bool" where
  "gen_changed q p captured =
     (if captured = 0 then False
      else if \<not> or_committed q (p + 8) 8 then False else rd64 (or_mem q) (p + 8) \<noteq> captured)"

definition by_frames :: "int \<Rightarrow> int \<Rightarrow> int \<Rightarrow> liveness" where
  "by_frames birth death n = (if n < birth then Born_After else if death \<le> n then Dead_At else Alive_Same)"

definition liveness_at :: "id_oracle \<Rightarrow> nat \<Rightarrow> int \<Rightarrow> liveness" where
  "liveness_at q p n =
     (if \<not> or_canon p then Unknown_Id
      else case rd_lookup (or_rd q) p of
        Some (birth, death, serial, ina, sz) \<Rightarrow> if \<not> ina then External else by_frames birth death n
      | None \<Rightarrow>
          if or_committed q (p - 8) 8 then
            let hdr = rd64 (or_mem q) (p - 8) in
            if 0x10 \<le> hdr \<and> hdr < 0x10000 then
              (case spine_lookup (or_spine q) ((p + (2 ^ 64 - hdr)) mod 2 ^ 64) of
                 Some (birth, death, serial) \<Rightarrow> by_frames birth death n
               | None \<Rightarrow> Unknown_Id)
            else Unknown_Id
          else Unknown_Id)"

definition or_check :: "id_oracle \<Rightarrow> nat \<Rightarrow> int \<Rightarrow> liveness" where
  "or_check q p n =
     (if \<not> or_canon p then Unknown_Id
      else if \<not> in_our_domain q p then (if or_committed q p 8 then External else Unknown_Id)
      else if or_is_dead q p then Dead_At
      else if is_recycled_nonobject q p then Dead_At
      else
        let lv = liveness_at q p n in
        if lv = Dead_At \<or> lv = Born_After then lv else Alive_Same)"

definition check_id :: "id_oracle \<Rightarrow> nat \<Rightarrow> int \<Rightarrow> nat \<Rightarrow> liveness" where
  "check_id q p n captured =
     (let v = or_check q p n in
      if v \<noteq> Alive_Same then v
      else if captured \<noteq> 0 \<and> gen_changed q p captured then Aba_Recycled else Alive_Same)"

definition check_data :: "id_oracle \<Rightarrow> nat \<Rightarrow> int \<Rightarrow> liveness" where
  "check_data q p n =
     (if \<not> or_canon p then Unknown_Id
      else if \<not> in_our_domain q p then (if or_committed q p 8 then External else Dead_At)
      else if is_held_husk p (or_quar q) then Alive_Same
      else
        let lv = liveness_at q p n in
        if lv = Dead_At \<or> lv = Born_After then lv else Alive_Same)"

section \<open>A verdict of death has evidence\<close>

lemma rd_lookup_death: "rd_lookup st p = Some (b, d, s, i, z) \<Longrightarrow> rd_death_of st p = Some d"
  by (simp add: rd_death_of_def)

lemma spine_lookup_death: "spine_lookup st p = Some (b, d, s) \<Longrightarrow> spine_death st p = Some d"
  by (simp add: spine_death_def)

lemma liveness_dead:
  assumes "liveness_at q p n = Dead_At"
  shows "(\<exists>d \<le> n. rd_death_of (or_rd q) p = Some d) \<or>
    (\<exists>d \<le> n. spine_death (or_spine q) ((p + (2 ^ 64 - rd64 (or_mem q) (p - 8))) mod 2 ^ 64) = Some d)"
proof (cases "rd_lookup (or_rd q) p")
  case None
  show ?thesis
  proof (cases "spine_lookup (or_spine q) ((p + (2 ^ 64 - rd64 (or_mem q) (p - 8))) mod 2 ^ 64)")
    case (Some r)
    obtain b d s where r: "r = (b, d, s)" by (cases r)
    have "by_frames b d n = Dead_At"
      using assms None Some by (simp add: liveness_at_def Let_def r split: if_splits)
    then have "d \<le> n" by (simp add: by_frames_def split: if_splits)
    then show ?thesis using spine_lookup_death Some r by blast
  qed (use assms None in \<open>simp add: liveness_at_def Let_def split: if_splits\<close>)
next
  case (Some r)
  obtain b d s i z where r: "r = (b, d, s, i, z)" by (cases r)
  have "by_frames b d n = Dead_At"
    using assms Some by (simp add: liveness_at_def r split: if_splits)
  then have "d \<le> n" by (simp add: by_frames_def split: if_splits)
  then show ?thesis using rd_lookup_death Some r by blast
qed

lemma rd_unborn: "rd_addr u \<Longrightarrow> rd_death_of rs_init u = None"
  by (intro rd_death_unknown) (simp add: rs_init_def rd_addr_def)

definition default_run :: "(u32 \<times> bool) dt_op list \<Rightarrow> rdspine" where
  "default_run ops = fold (dt_step rd_put rd_retire) ops rs_init"

definition block_run :: "nat dt_op list \<Rightarrow> spine" where
  "block_run ops = fold (dt_step (\<lambda>b sz f. spine_put b sz f) spine_retire) ops spine_init"

definition block_of :: "gmem \<Rightarrow> nat \<Rightarrow> nat" where
  "block_of m p = (p + (2 ^ 64 - rd64 m (p - 8))) mod 2 ^ 64"

text \<open>
  The oracle is open to doubt: it answers that an object is dead at a frame only on evidence. The
  address is a held husk, carries the engine's dead marker or a word that is no vtable, or the
  last event either spine saw of it, or of the block its header names, is a free at or before that frame.
\<close>
theorem dead_needs_evidence:
  assumes "or_check q p n = Dead_At" "n < FRAME_NEVER"
    and "or_rd q = default_run ops" "\<forall>op \<in> set ops. rd_addr (dt_user op)"
    and "or_spine q = block_run bops" "\<forall>op \<in> set bops. block_addr (dt_user op)"
    and "rd_addr p" "block_addr (block_of (or_mem q) p)"
  shows "in_our_domain q p \<and>
    (is_held_husk p (or_quar q) \<or> rd64 (or_mem q) p = or_sentinel q
     \<or> vtable_is_garbage (or_base q) (rd64 (or_mem q) p)
     \<or> (\<exists>d \<le> n. last_op p ops = Some (Retire p d))
     \<or> (\<exists>d \<le> n. last_op (block_of (or_mem q) p) bops = Some (Retire (block_of (or_mem q) p) d)))"
proof -
  have dom: "in_our_domain q p" using assms(1) by (auto simp: or_check_def split: if_splits)
  have unborn: "spine_death spine_init u = None" if "block_addr u" for u
    using that by (intro spine_death_unknown) (simp add: spine_init_def block_addr_def)
  consider "or_is_dead q p" | "is_recycled_nonobject q p" | "liveness_at q p n = Dead_At"
    using assms(1) by (auto simp: or_check_def Let_def split: if_splits)
  then show ?thesis
  proof cases
    case 1
    then show ?thesis using dom by (auto simp: or_is_dead_def split: if_splits)
  next
    case 2
    then show ?thesis using dom by (auto simp: is_recycled_nonobject_def split: if_splits)
  next
    case 3
    from liveness_dead [OF this]
    consider d where "d \<le> n" "rd_death_of (default_run ops) p = Some d"
      | d where "d \<le> n" "spine_death (block_run bops) (block_of (or_mem q) p) = Some d"
      using assms(3,5) by (auto simp: block_of_def)
    then show ?thesis
    proof cases
      case (1 d)
      then show ?thesis
        using rdt.death_has_retire [OF rs_init_ok assms(4,7) rd_unborn [OF assms(7)], of d] assms(2) dom
        by (auto simp: default_run_def)
    next
      case (2 d)
      then show ?thesis
        using sd.death_has_retire [OF spine_init_ok assms(6,8) unborn [OF assms(8)], of d] assms(2) dom
        by (auto simp: block_run_def)
    qed
  qed
qed

definition id_demo :: id_oracle where
  "id_demo = \<lparr>or_base = 0, or_arena = \<lparr>ar_ready = True, ar_base = 0, ar_wm = 0, ar_wm_peak = 0,
       ar_committed = (\<lambda>_. True), ar_committed_n = 0, ar_resv = [], ar_free = [], ar_mem = (\<lambda>_. 0), ar_donated = []\<rparr>,
     or_query = (\<lambda>_. None), or_sentinel = 0xA6A510, or_quar = quar_init, or_rd = default_run [],
     or_spine = block_run [], or_mem = wr64 0x1FFF8 0 (wr64 0x20000 0xA6A510 (\<lambda>_. 0))\<rparr>"

lemma dead_needs_evidence_witness:
  "or_check id_demo 0x20000 7 = Dead_At \<and> in_our_domain id_demo 0x20000"
proof -
  have r: "rd64 (or_mem id_demo) 0x20000 = 0xA6A510" "rd64 (or_mem id_demo) 0x1FFF8 = 0"
    by (simp_all add: id_demo_def mem_simps apart_def)
  have dom: "in_our_domain id_demo 0x20000"
    by (simp add: in_our_domain_def id_demo_def is_committed_addr_def ARENA_SIZE_def)
  then have "or_is_dead id_demo 0x20000" using r(1) by (simp add: or_is_dead_def) (simp add: id_demo_def)
  then have d: "or_check id_demo 0x20000 7 = Dead_At" using dom by (simp add: or_check_def or_canon_def)
  moreover have "(7::int) < FRAME_NEVER" "or_rd id_demo = default_run []" "or_spine id_demo = block_run []"
    "rd_addr 0x20000" "block_addr (block_of (or_mem id_demo) 0x20000)"
    using r(2) by (simp_all add: FRAME_NEVER_def id_demo_def rd_addr_def block_addr_def block_of_def TOMB_def)
  ultimately show ?thesis using dead_needs_evidence [OF d, of "[]" "[]"] by simp
qed

section \<open>A death the spine does not see\<close>

lemma rd_put_lookup:
  assumes "rd_ok st" "rd_addr u" "rd_find u st = Some k"
  shows "rd_lookup (rd_put u (sz, ina) frame st) u = Some (frame, FRAME_NEVER, rs_ctr st + 1, ina, sint sz)"
proof -
  have "rd_find u (rd_put u (sz, ina) frame st) = Some k"
    using rd_find_known [OF rd_put_ok [OF assms(1,2)] _ assms(2)] assms(3) by (simp add: rd_put_tab)
  then show ?thesis using assms(3) by (simp add: rd_lookup_def rd_put_tab Let_def)
qed

text \<open>
  The free of a redirected block is not stamped: the free hook returns for a block of the heap zone
  before it retires it, so the oracle's frame test answers that the block is alive at every frame
  from its birth on, also at frames after it was freed.
\<close>
theorem zone_death_unrecorded:
  assumes "heap_zone_alloc_default (nat sz) (da_zone st) = (hz, In_Zone z)"
    and "0 < sz" "0 < align" "align \<le> 0x10" "is_arena_addr ar z" "or_canon z" "is_heap_zone_addr z hz"
    and "rd_ok (da_rs st)" "rd_find z (da_rs st) = Some k"
    and "b \<le> n" "n < FRAME_NEVER"
  shows "let (p, st1) = hk_dmalloc ar True True rec b orig sz align st;
             (st2, crt) = hk_dfree True True rec d p st1
         in p = z \<and> \<not> crt \<and> da_rs st2 = da_rs st1 \<and> liveness_at (q\<lparr>or_rd := da_rs st2\<rparr>) z n = Alive_Same"
proof -
  have z: "rd_addr z" "z \<noteq> 0" using assms(6) by (auto simp: or_canon_def rd_addr_def TOMB_def)
  define rs where "rs = rd_put z (word_of_int sz, True) b (da_rs st)"
  have m: "hk_dmalloc ar True True rec b orig sz align st
      = (z, st\<lparr>da_zone := hz, da_rs := rs, da_quar := drop_default_husk z (da_quar st)\<rparr>)"
    using assms(1-5) z(2) by (simp add: hk_dmalloc_def rs_def)
  have "rd_lookup rs z = Some (b, FRAME_NEVER, rs_ctr (da_rs st) + 1, True, sint (word_of_int sz :: u32))"
    unfolding rs_def by (rule rd_put_lookup [OF assms(8) z(1) assms(9)])
  then have "liveness_at (q\<lparr>or_rd := rs\<rparr>) z n = Alive_Same"
    using assms(6,10,11) by (simp add: liveness_at_def by_frames_def)
  then show ?thesis using assms(7) by (simp add: m hk_dfree_def Let_def)
qed

lemma rd_find_init: "rd_find u rs_init = Some (rd_hash u mod RD_CAP)"
  by (simp add: rd_find_def rs_init_def probe_find_def rd_seq_def probe_seq_def RD_MAXPROBE_def upt_conv_Cons)

definition zone_demo :: heap_zone where
  "zone_demo = \<lparr>hz_base = 0x100000, hz_off = 0, hz_mem = (\<lambda>_. 0), hz_fallbacks = 0, hz_redirect = True\<rparr>"

definition default_demo :: default_side where
  "default_demo = \<lparr>da_rs = rs_init, da_quar = quar_init, da_zone = zone_demo\<rparr>"

definition zone_after :: heap_zone where
  "zone_after = fst (heap_zone_alloc_default (nat 32) (da_zone default_demo))"

lemma zone_demo_facts:
  "heap_zone_alloc_default (nat 32) (da_zone default_demo) = (zone_after, In_Zone 0x100010)"
  "is_heap_zone_addr 0x100010 zone_after" "is_arena_addr (or_arena id_demo) 0x100010" "or_canon 0x100010"
  "rd_ok (da_rs default_demo)" "rd_find 0x100010 (da_rs default_demo) = Some (rd_hash 0x100010 mod RD_CAP)"
proof -
  show h: "heap_zone_alloc_default (nat 32) (da_zone default_demo) = (zone_after, In_Zone 0x100010)"
    by (simp add: zone_after_def heap_zone_alloc_default_def zone_bump_def zone_full_def align_up_def add64_def
        HEAP_HEADER_SIZE_def HEAP_ZONE_SIZE_def HEAP_ZONE_GUARD_def default_demo_def zone_demo_def Let_def)
  have "hz_base zone_after = 0x100000"
    by (simp add: zone_after_def heap_zone_alloc_default_def zone_bump_def Let_def default_demo_def zone_demo_def
        split: prod.splits)
  then show "is_heap_zone_addr 0x100010 zone_after" by (simp add: is_heap_zone_addr_def HEAP_ZONE_SIZE_def)
  show "is_arena_addr (or_arena id_demo) 0x100010" "or_canon 0x100010"
    "rd_ok (da_rs default_demo)" "rd_find 0x100010 (da_rs default_demo) = Some (rd_hash 0x100010 mod RD_CAP)"
    by (simp_all add: is_arena_addr_def id_demo_def ARENA_SIZE_def or_canon_def default_demo_def rs_init_ok rd_find_init)
qed

lemma zone_death_unrecorded_witness:
  "let (p, st1) = hk_dmalloc (or_arena id_demo) True True True 5 0 32 16 default_demo;
       (st2, crt) = hk_dfree True True True 9 p st1
   in \<not> crt \<and> liveness_at (id_demo\<lparr>or_rd := da_rs st2\<rparr>) p 40 = Alive_Same"
proof -
  have w: "let (p, st1) = hk_dmalloc (or_arena id_demo) True True True 5 0 32 16 default_demo;
       (st2, crt) = hk_dfree True True True 9 p st1
     in p = 0x100010 \<and> \<not> crt \<and> da_rs st2 = da_rs st1 \<and> liveness_at (id_demo\<lparr>or_rd := da_rs st2\<rparr>) 0x100010 40 = Alive_Same"
    by (intro zone_death_unrecorded [OF zone_demo_facts(1)]) (simp_all add: zone_demo_facts FRAME_NEVER_def)
  show ?thesis
  proof (cases "hk_dmalloc (or_arena id_demo) True True True 5 0 32 16 default_demo")
    case (Pair p st1)
    then show ?thesis using w by (cases "hk_dfree True True True 9 p st1") auto
  qed
qed

end
