(* ===== verification/Coherent_Set.thy ===== *)
theory Coherent_Set
  imports Identity_Oracle Alloc_Lists
begin

text \<open>
  The coherent-set repairer, \<open>src/src/coherent_set_repair.cpp\<close>: the catalog of holders with its
  kernels, the compaction of the renderer's object lists and the severing of torn links in the
  scheduler's lists. Counters that are only logged are left out; what \<open>VirtualQuery\<close> answers, whether a
  range is readable and whether an address lies in a loaded image, are fields of the environment.
\<close>

record coherent_env =
  ce_base :: nat
  ce_arena :: arena
  ce_os :: "nat \<Rightarrow> nat \<Rightarrow> bool"
  ce_image :: "nat \<Rightarrow> bool"
  ce_spine :: spine
  ce_rd :: rdspine

definition rdb :: "coherent_env \<Rightarrow> nat \<Rightarrow> nat \<Rightarrow> bool" where "rdb c p n = readable (ce_arena c) (ce_os c) p n"

definition to_ida :: "nat \<Rightarrow> nat \<Rightarrow> nat" where
  "to_ida base vt =
     (if vt < base then 0
      else
        let ida = (vt - base + IMAGE_BASE) mod 2 ^ 64 in
        if IMAGE_BASE \<le> ida \<and> ida < 0x141000000 then ida else 0)"

definition referent_valid :: "coherent_env \<Rightarrow> gmem \<Rightarrow> nat \<Rightarrow> bool" where
  "referent_valid c m t =
     (if \<not> inv_canon t \<or> \<not> rdb c t 8 then False
      else
        let vt = rd64 m t in
        if vt = 0 then False else to_ida (ce_base c) vt \<noteq> 0 \<or> ce_image c vt)"

section \<open>The catalog\<close>

datatype enum_kind = Enum_Sunit | Enum_Singleton | Enum_Fighter
datatype kernel = K_Null_Invalid | K_Clear_Group | K_Null_Rdspine

record desc =
  de_how :: enum_kind
  de_holder :: "nat list"
  de_singleton :: nat
  de_gate :: nat
  de_arr :: nat
  de_cnt :: nat
  de_stride :: nat
  de_group :: "nat list"
  de_group_n :: nat
  de_kind :: kernel
  de_proven :: bool
  de_enabled :: bool

text \<open>
  The rows as the initialisers fill the fields, in order. Rows three and five give no singleton
  address, so their offsets stand one field early and the stride is 0.
\<close>

definition catalog :: "desc list" where
  "catalog =
    [\<lparr>de_how = Enum_Sunit, de_holder = [0x140a7b2e0, 0, 0], de_singleton = 0, de_gate = 0x100, de_arr = 0x110,
      de_cnt = 0x118, de_stride = 8, de_group = replicate 8 0, de_group_n = 0, de_kind = K_Null_Invalid,
      de_proven = True, de_enabled = False\<rparr>,
     \<lparr>de_how = Enum_Sunit, de_holder = [0x140bae1d0, 0x140bb8e00, 0x140bb9170], de_singleton = 0, de_gate = 0, de_arr = 0,
      de_cnt = 0, de_stride = 0, de_group = [0x208, 0x210, 0x220, 0x228, 0, 0, 0, 0], de_group_n = 4,
      de_kind = K_Clear_Group, de_proven = False, de_enabled = False\<rparr>,
     \<lparr>de_how = Enum_Sunit, de_holder = [0x140b21ff0, 0, 0], de_singleton = 0x100, de_gate = 0x110, de_arr = 0x118,
      de_cnt = 8, de_stride = 0, de_group = replicate 8 0, de_group_n = 0, de_kind = K_Null_Invalid,
      de_proven = False, de_enabled = False\<rparr>,
     \<lparr>de_how = Enum_Sunit, de_holder = [0x140baa4a0, 0, 0], de_singleton = 0, de_gate = 0, de_arr = 0,
      de_cnt = 0, de_stride = 0, de_group = [0x100, 0, 0, 0, 0, 0, 0, 0], de_group_n = 1,
      de_kind = K_Clear_Group, de_proven = False, de_enabled = False\<rparr>,
     \<lparr>de_how = Enum_Sunit, de_holder = [0x140bbb5a0, 0, 0], de_singleton = 0x100, de_gate = 0x110, de_arr = 0x118,
      de_cnt = 8, de_stride = 0, de_group = replicate 8 0, de_group_n = 0, de_kind = K_Null_Invalid,
      de_proven = False, de_enabled = False\<rparr>,
     \<lparr>de_how = Enum_Fighter, de_holder = [0, 0, 0], de_singleton = 0, de_gate = 0, de_arr = 0x6428,
      de_cnt = 0, de_stride = 8, de_group = replicate 8 0, de_group_n = 0, de_kind = K_Null_Rdspine,
      de_proven = True, de_enabled = True\<rparr>]"

section \<open>The kernels\<close>

definition null_slot :: "coherent_env \<Rightarrow> nat \<Rightarrow> nat \<times> gmem \<Rightarrow> nat \<times> gmem" where
  "null_slot c slot s =
     (case s of (n, m) \<Rightarrow>
        let child = rd64 m slot in
        if child \<noteq> 0 \<and> \<not> referent_valid c m child then (n + 1, wr64 slot 0 m) else (n, m))"

definition k_null_invalid :: "coherent_env \<Rightarrow> desc \<Rightarrow> nat \<Rightarrow> gmem \<Rightarrow> nat \<times> gmem" where
  "k_null_invalid c d h m =
     (if de_gate d \<noteq> 0 \<and> (\<not> rdb c (h + de_gate d) 8 \<or> rd64 m (h + de_gate d) = 0) then (0, m)
      else if \<not> rdb c (h + de_arr d) 8 \<or> \<not> rdb c (h + de_cnt d) 4 then (0, m)
      else
        let arr = rd64 m (h + de_arr d); cnt = rd32 m (h + de_cnt d) in
        if arr = 0 \<or> cnt = 0 \<or> 0x100000 \<le> cnt \<or> \<not> rdb c arr (cnt * de_stride d) then (0, m)
        else fold (\<lambda>e. null_slot c (arr + e * de_stride d)) [0..<cnt] (0, m))"

definition clear_one :: "coherent_env \<Rightarrow> nat \<Rightarrow> nat \<times> gmem \<Rightarrow> nat \<times> gmem" where
  "clear_one c a s = (case s of (n, m) \<Rightarrow> if rdb c a 8 \<and> rd64 m a \<noteq> 0 then (n + 1, wr64 a 0 m) else (n, m))"

definition k_clear_group :: "coherent_env \<Rightarrow> desc \<Rightarrow> nat \<Rightarrow> gmem \<Rightarrow> nat \<times> gmem" where
  "k_clear_group c d h m = fold (\<lambda>g. clear_one c (h + de_group d ! g)) [0..<de_group_n d] (0, m)"

definition k_null_rdspine :: "coherent_env \<Rightarrow> desc \<Rightarrow> nat \<Rightarrow> gmem \<Rightarrow> nat \<times> gmem" where
  "k_null_rdspine c d h m =
     (let a = h + de_arr d in
      if \<not> rdb c a 8 then (0, m)
      else
        let p = rd64 m a in
        if p = 0 then (0, m)
        else if \<not> inv_canon p then (1, wr64 a 0 m)
        else case rd_death_of (ce_rd c) p of
          None \<Rightarrow> (0, m)
        | Some death \<Rightarrow> if death = FRAME_NEVER then (0, m) else (1, wr64 a 0 m))"

record coherent =
  co_master :: bool
  co_scope :: nat
  co_links :: bool
  co_holders :: nat
  co_nulled :: nat
  co_cleared :: nat
  co_removed :: nat
  co_severed :: nat
  co_heads :: nat

definition apply_row :: "coherent_env \<Rightarrow> nat \<Rightarrow> desc \<Rightarrow> coherent \<times> gmem \<Rightarrow> coherent \<times> gmem" where
  "apply_row c h d s =
     (case s of (co, m) \<Rightarrow>
        let co1 = co\<lparr>co_holders := co_holders co + 1\<rparr> in
        case de_kind d of
          K_Null_Invalid \<Rightarrow> (let (n, m1) = k_null_invalid c d h m in (co1\<lparr>co_nulled := co_nulled co1 + n\<rparr>, m1))
        | K_Null_Rdspine \<Rightarrow> (let (n, m1) = k_null_rdspine c d h m in (co1\<lparr>co_nulled := co_nulled co1 + n\<rparr>, m1))
        | K_Clear_Group \<Rightarrow> (let (n, m1) = k_clear_group c d h m in (co1\<lparr>co_cleared := co_cleared co1 + n\<rparr>, m1)))"

text \<open>The rows that a holder of a vtable, or a fighter, is given to.\<close>

definition row_on :: "enum_kind \<Rightarrow> nat \<Rightarrow> desc \<Rightarrow> bool" where
  "row_on how scope d \<longleftrightarrow> de_how d = how \<and> de_enabled d \<and> \<not> (scope = 1 \<and> \<not> de_proven d)"

definition row_matches :: "nat \<Rightarrow> desc \<Rightarrow> bool" where
  "row_matches ida d \<longleftrightarrow> ida = de_holder d ! 0 \<or> (de_holder d ! 1 \<noteq> 0 \<and> ida = de_holder d ! 1)
     \<or> (de_holder d ! 2 \<noteq> 0 \<and> ida = de_holder d ! 2)"

definition sunit :: "coherent_env \<Rightarrow> gmem \<Rightarrow> nat" where
  "sunit c m = (let a = resolve (ce_base c) 0x140E17698 in if rdb c a 8 then rd64 m a else 0)"

definition nlines :: "gmem \<Rightarrow> nat \<Rightarrow> nat" where "nlines m su = min (rd32 m (su + 0xc38)) 128"

definition head_slot :: "nat \<Rightarrow> nat \<Rightarrow> nat" where "head_slot su line = su + 0x50 + line * 0x30"
definition tail_slot :: "nat \<Rightarrow> nat \<Rightarrow> nat" where "tail_slot su line = su + 0x58 + line * 0x30"

fun walk_rows :: "(nat \<Rightarrow> coherent \<times> gmem \<Rightarrow> coherent \<times> gmem) \<Rightarrow> coherent_env \<Rightarrow> nat \<Rightarrow> nat \<Rightarrow> coherent \<times> gmem \<Rightarrow> coherent \<times> gmem" where
  "walk_rows visit c 0 node s = s"
| "walk_rows visit c (Suc k) node s =
     (if \<not> (inv_canon node \<and> rdb c node 8) then s
      else
        let s1 = visit node s in
        if \<not> rdb c (node + 0x18) 8 then s1 else walk_rows visit c k (rd64 (snd s1) (node + 0x18)) s1)"

definition visit_unit :: "coherent_env \<Rightarrow> nat \<Rightarrow> coherent \<times> gmem \<Rightarrow> coherent \<times> gmem" where
  "visit_unit c node s =
     (let ida = to_ida (ce_base c) (rd64 (snd s) node) in
      if ida = 0 then s
      else fold (\<lambda>d s. if row_on Enum_Sunit (co_scope (fst s)) d \<and> row_matches ida d then apply_row c node d s else s) catalog s)"

definition visit_fighter :: "coherent_env \<Rightarrow> nat \<Rightarrow> coherent \<times> gmem \<Rightarrow> coherent \<times> gmem" where
  "visit_fighter c node s =
     (if \<not> rdb c (node + 0x530) 4 then s
      else
        let bc = rd32 (snd s) (node + 0x530) in
        if 1 \<le> bc \<and> bc \<le> 300
        then fold (\<lambda>d s. if row_on Enum_Fighter (co_scope (fst s)) d then apply_row c node d s else s) catalog s
        else s)"

definition walk_line ::
  "(coherent_env \<Rightarrow> nat \<Rightarrow> coherent \<times> gmem \<Rightarrow> coherent \<times> gmem) \<Rightarrow> nat \<Rightarrow> coherent_env \<Rightarrow> nat \<Rightarrow> nat \<Rightarrow> coherent \<times> gmem \<Rightarrow> coherent \<times> gmem" where
  "walk_line visit fuel c su line s =
     (let node = (if rdb c (head_slot su line) 8 then rd64 (snd s) (head_slot su line) else 0)
      in walk_rows (visit c) c fuel node s)"

definition run_sunit_rows :: "coherent_env \<Rightarrow> coherent \<times> gmem \<Rightarrow> coherent \<times> gmem" where
  "run_sunit_rows c s =
     (let su = sunit c (snd s) in
      if su = 0 \<or> \<not> rdb c (su + 0xc38) 4 then s
      else fold (walk_line visit_unit 4096 c su) [0..<nlines (snd s) su] s)"

definition run_fighter_rows :: "coherent_env \<Rightarrow> coherent \<times> gmem \<Rightarrow> coherent \<times> gmem" where
  "run_fighter_rows c s =
     (let su = sunit c (snd s) in
      if su = 0 \<or> \<not> rdb c (su + 0xc38) 4 then s
      else fold (walk_line visit_fighter 16 c su) (filter (\<lambda>l. l < nlines (snd s) su) [7..<9]) s)"

section \<open>Compacting an object list\<close>

definition vtable_valid :: "coherent_env \<Rightarrow> nat \<Rightarrow> gmem \<Rightarrow> nat \<Rightarrow> bool" where
  "vtable_valid c slot m e =
     (if \<not> inv_canon e \<or> \<not> rdb c e 8 \<or> \<not> rdb c (e + 8) 8 then False
      else
        let vt = rd64 m e in
        if to_ida (ce_base c) vt = 0 then False
        else if \<not> rdb c (vt + slot) 8 \<or> rd64 m (vt + slot) = 0 then False else True)"

definition alive_at_n :: "coherent_env \<Rightarrow> int \<Rightarrow> gmem \<Rightarrow> nat \<Rightarrow> bool option" where
  "alive_at_n c n m e =
     (if \<not> is_arena_addr (ce_arena c) e \<or> e mod 0x1000 < 8 \<or> \<not> rdb c (e - 8) 8 then None
      else
        let off = rd64 m (e - 8) in
        if off = 0 \<or> 0x1000 \<le> off then None
        else case spine_lookup (ce_spine c) (e - off) of
          None \<Rightarrow> None
        | Some (birth, death, serial) \<Rightarrow> Some (birth \<le> n \<and> n < death))"

definition keep_entry :: "coherent_env \<Rightarrow> nat \<Rightarrow> bool \<Rightarrow> int \<Rightarrow> gmem \<Rightarrow> nat \<Rightarrow> bool" where
  "keep_entry c slot ident n m e =
     (if \<not> vtable_valid c slot m e then False
      else if ident \<and> alive_at_n c n m e = Some False then False else True)"

definition compact_step :: "(gmem \<Rightarrow> nat \<Rightarrow> bool) \<Rightarrow> nat \<Rightarrow> nat \<Rightarrow> nat \<times> gmem \<Rightarrow> nat \<times> gmem" where
  "compact_step keep arr i s =
     (case s of (out, m) \<Rightarrow>
        let e = rd64 m (arr + i * 8) in
        if keep m e then (out + 1, wr64 (arr + out * 8) e m) else (out, m))"

definition compact_obj_list ::
  "coherent_env \<Rightarrow> nat \<Rightarrow> nat \<Rightarrow> nat \<Rightarrow> nat \<Rightarrow> bool \<Rightarrow> int \<Rightarrow> gmem \<Rightarrow> nat \<times> gmem" where
  "compact_obj_list c sr arr_off cnt_off slot ident n m =
     (let arr = sr + arr_off; cnta = sr + cnt_off in
      if \<not> rdb c cnta 4 \<or> \<not> rdb c arr 8 then (0, m)
      else
        let k = rd32 m cnta in
        if k = 0 \<or> 0x100000 < k \<or> \<not> rdb c arr (k * 8) then (0, m)
        else
          let (out, m1) = fold (compact_step (keep_entry c slot ident n) arr) [0..<k] (0, m)
          in (k - out, if out \<noteq> k then wr32 cnta out m1 else m1))"

definition compact_srender_lists :: "coherent_env \<Rightarrow> int \<Rightarrow> bool \<Rightarrow> coherent \<times> gmem \<Rightarrow> coherent \<times> gmem" where
  "compact_srender_lists c n ident s =
     (case s of (co, m) \<Rightarrow>
        let a = resolve (ce_base c) 0x140E179A8; sr = (if rdb c a 8 then rd64 m a else 0) in
        if sr = 0 then (co, m)
        else
          let (r1, m1) = compact_obj_list c sr 0x8817b0 0x8897b0 0x20 ident n m;
              (r2, m2) = compact_obj_list c sr 0x8677b0 0x87a7b0 0x00 ident n m1
          in (co\<lparr>co_removed := co_removed co + r1 + r2\<rparr>, m2))"

section \<open>Severing torn links\<close>

definition link_torn :: "coherent_env \<Rightarrow> gmem \<Rightarrow> nat \<Rightarrow> nat \<Rightarrow> bool" where
  "link_torn c m nxt node =
     (if \<not> inv_canon nxt then True
      else if \<not> rdb c nxt 0x28 then True
      else rdb c (nxt + 0x20) 8 \<and> rd64 m (nxt + 0x20) \<noteq> node)"

fun sever_walk :: "coherent_env \<Rightarrow> nat \<Rightarrow> nat \<Rightarrow> nat \<Rightarrow> gmem \<Rightarrow> bool \<times> gmem" where
  "sever_walk c ts 0 node m = (False, m)"
| "sever_walk c ts (Suc k) node m =
     (if \<not> rdb c (node + 0x18) 8 then (False, m)
      else
        let nxt = rd64 m (node + 0x18) in
        if nxt = 0 then (False, m)
        else if link_torn c m nxt node
        then (True, let m1 = wr64 (node + 0x18) 0 m in if rdb c ts 8 then wr64 ts node m1 else m1)
        else sever_walk c ts k nxt m)"

definition LINK_GUARD :: nat where "LINK_GUARD = 4096"

definition repair_line :: "coherent_env \<Rightarrow> nat \<Rightarrow> nat \<Rightarrow> coherent \<times> gmem \<Rightarrow> coherent \<times> gmem" where
  "repair_line c su line s =
     (case s of (co, m) \<Rightarrow>
        let hs = head_slot su line; ts = tail_slot su line in
        if line = 7 \<or> line = 8 then (co, m)
        else if \<not> rdb c hs 8 then (co, m)
        else
          let h0 = rd64 m hs in
          if h0 = 0 then (co, m)
          else if \<not> inv_canon h0 \<or> \<not> rdb c h0 0x28
          then (co\<lparr>co_heads := co_heads co + 1\<rparr>,
                let m1 = wr64 hs 0 m in if rdb c ts 8 then wr64 ts 0 m1 else m1)
          else
            let (sv, m1) = sever_walk c ts LINK_GUARD h0 m
            in (if sv then co\<lparr>co_severed := co_severed co + 1\<rparr> else co, m1))"

definition repair_sunit_mtlist_links :: "coherent_env \<Rightarrow> coherent \<times> gmem \<Rightarrow> coherent \<times> gmem" where
  "repair_sunit_mtlist_links c s =
     (if \<not> co_links (fst s) then s
      else
        let su = sunit c (snd s) in
        if su = 0 \<or> \<not> rdb c (su + 0xc38) 4 then s
        else fold (repair_line c su) [0..<nlines (snd s) su] s)"

section \<open>The two passes\<close>

definition cycle_scope :: "coherent \<Rightarrow> coherent" where "cycle_scope co = co\<lparr>co_scope := (co_scope co + 1) mod 3\<rparr>"

definition run_structural :: "coherent_env \<Rightarrow> int \<Rightarrow> bool \<Rightarrow> coherent \<times> gmem \<Rightarrow> coherent \<times> gmem" where
  "run_structural c n ident s =
     (if \<not> co_master (fst s) then s else repair_sunit_mtlist_links c (compact_srender_lists c n ident s))"

definition run_catalog :: "coherent_env \<Rightarrow> coherent \<times> gmem \<Rightarrow> coherent \<times> gmem" where
  "run_catalog c s =
     (if \<not> co_master (fst s) then s
      else
        let s1 = (if co_scope (fst s) \<noteq> 0 then run_sunit_rows c s else s)
        in if co_scope (fst s1) \<noteq> 0 then run_fighter_rows c s1 else s1)"


section \<open>Compaction is a filter\<close>

definition words :: "gmem \<Rightarrow> nat \<Rightarrow> nat \<Rightarrow> nat list" where "words m a n = map (\<lambda>i. rd64 m (a + i * 8)) [0..<n]"

text \<open>Two memories that differ at most inside a range.\<close>

definition same_outside :: "nat \<Rightarrow> nat \<Rightarrow> gmem \<Rightarrow> gmem \<Rightarrow> bool" where
  "same_outside a n m m' \<longleftrightarrow> (\<forall>x. x < a \<or> a + n \<le> x \<longrightarrow> m' x = m x)"

lemma same_outside_wr:
  "same_outside a n m m' \<Longrightarrow> a \<le> b \<Longrightarrow> b + 8 \<le> a + n \<Longrightarrow> same_outside a n m (wr64 b v m')"
  by (auto simp: same_outside_def c64.wr_outside)

lemma slot_apart: "i \<noteq> j \<Longrightarrow> apart (a + i * 8) 8 (a + j * 8) 8"
  by (cases "i < j") (auto simp: apart_def)

lemma words_Suc: "words m a (Suc n) = words m a n @ [rd64 m (a + n * 8)]"
  by (simp add: words_def)

lemma words_write: "k \<le> i \<Longrightarrow> words (wr64 (a + i * 8) v m) a k = words m a k"
  by (auto simp: words_def c64.rd_other slot_apart)

lemma compact_fold:
  assumes "\<And>m' e. same_outside arr (k * 8) m m' \<Longrightarrow> e \<in> set (words m arr k) \<Longrightarrow> keep m' e = keep m e"
    and "i \<le> k"
  shows "\<exists>out m'. fold (compact_step keep arr) [0..<i] (0, m) = (out, m') \<and> out \<le> i \<and>
    same_outside arr (k * 8) m m' \<and> words m' arr out = filter (keep m) (words m arr i) \<and>
    (\<forall>j. i \<le> j \<longrightarrow> j < k \<longrightarrow> rd64 m' (arr + j * 8) = rd64 m (arr + j * 8))"
  using assms(2)
proof (induction i)
  case 0
  show ?case by (simp add: same_outside_def words_def)
next
  case (Suc i)
  then obtain out m' where IH: "fold (compact_step keep arr) [0..<i] (0, m) = (out, m')" "out \<le> i"
    "same_outside arr (k * 8) m m'" "words m' arr out = filter (keep m) (words m arr i)"
    "\<And>j. i \<le> j \<Longrightarrow> j < k \<Longrightarrow> rd64 m' (arr + j * 8) = rd64 m (arr + j * 8)"
    by fastforce
  define e where "e = rd64 m (arr + i * 8)"
  have ei: "rd64 m' (arr + i * 8) = e" using IH(5) [of i] Suc.prems by (simp add: e_def)
  have "e \<in> set (words m arr k)" using Suc.prems by (auto simp: words_def e_def)
  then have kp: "keep m' e = keep m e" by (rule assms(1) [OF IH(3)])
  have st: "fold (compact_step keep arr) [0..<Suc i] (0, m) = compact_step keep arr i (out, m')"
    by (simp add: IH(1))
  show ?case
  proof (cases "keep m e")
    case False
    then have "compact_step keep arr i (out, m') = (out, m')" by (simp add: compact_step_def ei kp)
    then show ?thesis using IH False st Suc.prems by (auto simp: words_Suc e_def)
  next
    case True
    define m2 where "m2 = wr64 (arr + out * 8) e m'"
    have s: "compact_step keep arr i (out, m') = (out + 1, m2)" using True by (simp add: compact_step_def ei kp m2_def)
    have "same_outside arr (k * 8) m m2" using IH(2,3) Suc.prems by (auto simp: m2_def intro!: same_outside_wr)
    moreover have "words m2 arr (Suc out) = filter (keep m) (words m arr (Suc i))"
    proof -
      have "rd64 m2 (arr + out * 8) = e" by (simp add: m2_def e_def rd64_back)
      moreover have "words m2 arr out = words m' arr out" by (simp add: m2_def words_write)
      ultimately show ?thesis using True IH(4) by (simp add: words_Suc e_def)
    qed
    moreover have "rd64 m2 (arr + j * 8) = rd64 m (arr + j * 8)" if "Suc i \<le> j" "j < k" for j
      using that IH(2,5) by (simp add: m2_def c64.rd_other slot_apart)
    ultimately show ?thesis using IH(2) s st by auto
  qed
qed

text \<open>
  The cells a verdict on an entry reads, besides the tables: its first word, the slot of its vtable
  and the word before it. They must not lie in the list itself.
\<close>

definition reads_apart :: "gmem \<Rightarrow> nat \<Rightarrow> nat \<Rightarrow> nat \<Rightarrow> nat \<Rightarrow> bool" where
  "reads_apart m slot arr n e \<longleftrightarrow> apart e 8 arr n \<and> apart (rd64 m e + slot) 8 arr n \<and> apart (e - 8) 8 arr n"

lemma rd64_same_outside: "same_outside a n m m' \<Longrightarrow> apart b 8 a n \<Longrightarrow> rd64 m' b = rd64 m b"
  by (rule c64.rd_bytes) (auto simp: same_outside_def apart_def)

lemma keep_entry_same:
  assumes "same_outside arr n m m'" "reads_apart m slot arr n e"
  shows "keep_entry c slot ident t m' e = keep_entry c slot ident t m e"
proof -
  have r: "rd64 m' e = rd64 m e" "rd64 m' (rd64 m e + slot) = rd64 m (rd64 m e + slot)" "rd64 m' (e - 8) = rd64 m (e - 8)"
    using assms rd64_same_outside [OF assms(1)] by (auto simp: reads_apart_def)
  then have "vtable_valid c slot m' e = vtable_valid c slot m e" "alive_at_n c t m' e = alive_at_n c t m e"
    by (simp_all add: vtable_valid_def alive_at_n_def Let_def)
  then show ?thesis by (simp add: keep_entry_def)
qed

text \<open>
  C30. Compaction in place is a filter: an object list that is read keeps exactly the entries that are
  still objects, and with the identity test lived at the target frame, in their order; the count is
  theirs and the number removed is returned.
\<close>
theorem compaction_filters:
  assumes "rdb c (sr + cnt_off) 4" "rdb c (sr + arr_off) 8" "rd32 m (sr + cnt_off) = k" "0 < k" "k \<le> 0x100000"
    and "rdb c (sr + arr_off) (k * 8)" "apart (sr + cnt_off) 4 (sr + arr_off) (k * 8)"
    and "\<forall>e \<in> set (words m (sr + arr_off) k). reads_apart m slot (sr + arr_off) (k * 8) e"
  shows "let (removed, m') = compact_obj_list c sr arr_off cnt_off slot ident n m;
             kept = filter (keep_entry c slot ident n m) (words m (sr + arr_off) k)
         in words m' (sr + arr_off) (length kept) = kept \<and> rd32 m' (sr + cnt_off) = length kept
            \<and> removed = k - length kept"
proof -
  define arr where "arr = sr + arr_off"
  define kept where "kept = filter (keep_entry c slot ident n m) (words m arr k)"
  have keep: "keep_entry c slot ident n m' e = keep_entry c slot ident n m e"
    if "same_outside arr (k * 8) m m'" "e \<in> set (words m arr k)" for m' e
    using that assms(8) by (intro keep_entry_same [where arr = arr and n = "k * 8"]) (auto simp: arr_def)
  obtain out m1 where f: "fold (compact_step (keep_entry c slot ident n) arr) [0..<k] (0, m) = (out, m1)" "out \<le> k"
    "same_outside arr (k * 8) m m1" "words m1 arr out = kept"
    using compact_fold [where keep = "keep_entry c slot ident n" and arr = arr and k = k and m = m and i = k] keep
    by (auto simp: kept_def)
  have out: "length kept = out" unfolding f(4) [symmetric] by (simp add: words_def)
  define m2 where "m2 = (if out \<noteq> k then wr32 (sr + cnt_off) out m1 else m1)"
  have res: "compact_obj_list c sr arr_off cnt_off slot ident n m = (k - out, m2)"
    using assms(1-6) f(1) by (simp add: compact_obj_list_def arr_def m2_def Let_def)
  have c1: "rd32 m1 (sr + cnt_off) = k"
    using assms(3,7) f(3) by (subst c32.rd_bytes [where m' = m]) (auto simp: same_outside_def apart_def arr_def)
  have "rd32 m2 (sr + cnt_off) = out" using c1 f(2) assms(5) by (simp add: m2_def c32.rd_wr)
  moreover have "words m2 arr out = kept"
  proof -
    have "rd64 (wr32 (sr + cnt_off) v m1) (arr + i * 8) = rd64 m1 (arr + i * 8)" if "i < out" for v i
    proof -
      have "i * 8 + 8 \<le> k * 8" using that f(2) by simp
      then show ?thesis using assms(7) by (intro rd64_wr32) (auto simp: apart_def arr_def)
    qed
    then have "words m2 arr out = words m1 arr out" by (auto simp: m2_def words_def)
    then show ?thesis by (simp add: f(4))
  qed
  ultimately show ?thesis by (simp add: res kept_def [symmetric] arr_def [symmetric] out)
qed

definition coherent_demo_env :: coherent_env where
  "coherent_demo_env = \<lparr>ce_base = 0, ce_arena = (or_arena id_demo)\<lparr>ar_base := 2 ^ 40\<rparr>, ce_os = (\<lambda>_ _. True),
     ce_image = (\<lambda>_. False), ce_spine = spine_init, ce_rd = rs_init\<rparr>"

lemma rdb_demo: "rdb coherent_demo_env p n \<longleftrightarrow> p \<noteq> 0 \<and> n \<noteq> 0" if "p < 2 ^ 40"
  using that by (simp add: rdb_def readable_def coherent_demo_env_def is_arena_addr_def id_demo_def)

lemma ce_base_demo: "ce_base coherent_demo_env = 0" by (simp add: coherent_demo_env_def)

definition compact_mem :: gmem where
  "compact_mem = wr64 0x60020 1 (wr64 0x50000 0x2000000 (wr64 0x40000 0x60000 (wr32 0x22000 2
     (wr64 0x21008 0x40000 (wr64 0x21000 0x50000 (\<lambda>_. 0))))))"

lemma compact_mem_reads:
  "rd32 compact_mem 0x22000 = 2" "rd64 compact_mem 0x21000 = 0x50000" "rd64 compact_mem 0x21008 = 0x40000"
  "rd64 compact_mem 0x40000 = 0x60000" "rd64 compact_mem 0x50000 = 0x2000000" "rd64 compact_mem 0x60020 = 1"
  by (simp_all add: compact_mem_def mem_simps apart_def)

lemma compact_mem_words: "words compact_mem 0x21000 2 = [0x50000, 0x40000]"
  by (simp add: words_def compact_mem_reads upt_conv_Cons)

lemma compaction_filters_witness:
  "let (removed, m') = compact_obj_list coherent_demo_env 0x20000 0x1000 0x2000 0x20 False 0 compact_mem
   in words m' (0x20000 + 0x1000) 1 = [0x40000] \<and> rd32 m' (0x20000 + 0x2000) = 1 \<and> removed = 1"
proof -
  have k: "\<not> keep_entry coherent_demo_env 0x20 False 0 compact_mem 0x50000"
    "keep_entry coherent_demo_env 0x20 False 0 compact_mem 0x40000"
    by (simp_all add: keep_entry_def vtable_valid_def rdb_demo inv_canon_def compact_mem_reads to_ida_def
        ce_base_demo IMAGE_BASE_def)
  have r: "\<forall>e \<in> set (words compact_mem (0x20000 + 0x1000) 2). reads_apart compact_mem 0x20 (0x20000 + 0x1000) (2 * 8) e"
    by (simp add: compact_mem_words reads_apart_def compact_mem_reads apart_def)
  have "rdb coherent_demo_env (0x20000 + 0x2000) 4" "rdb coherent_demo_env (0x20000 + 0x1000) 8"
    "rd32 compact_mem (0x20000 + 0x2000) = 2" "(0::nat) < 2" "(2::nat) \<le> 0x100000"
    "rdb coherent_demo_env (0x20000 + 0x1000) (2 * 8)" "apart (0x20000 + 0x2000) 4 (0x20000 + 0x1000) (2 * 8)"
    by (simp_all add: rdb_demo compact_mem_reads apart_def)
  from compaction_filters [OF this r, of False 0] show ?thesis by (simp add: compact_mem_words k Let_def)
qed

section \<open>A severed list is sound\<close>

text \<open>A list that runs from node to node over untorn links to a clean end.\<close>

fun linked :: "coherent_env \<Rightarrow> gmem \<Rightarrow> nat \<Rightarrow> nat list \<Rightarrow> bool" where
  "linked c m n [] \<longleftrightarrow> \<not> rdb c (n + 0x18) 8 \<or> rd64 m (n + 0x18) = 0"
| "linked c m n (k # ks) \<longleftrightarrow> rdb c (n + 0x18) 8 \<and> rd64 m (n + 0x18) = k \<and> k \<noteq> 0 \<and> \<not> link_torn c m k n \<and> linked c m k ks"

text \<open>The nodes the walk reaches with so many links to go.\<close>

fun visited :: "coherent_env \<Rightarrow> nat \<Rightarrow> nat \<Rightarrow> gmem \<Rightarrow> nat list" where
  "visited c 0 n m = [n]"
| "visited c (Suc k) n m =
     n # (if \<not> rdb c (n + 0x18) 8 then []
          else
            let nxt = rd64 m (n + 0x18) in
            if nxt = 0 then [] else if link_torn c m nxt n then [] else visited c k nxt m)"

fun spaced :: "nat \<Rightarrow> nat list \<Rightarrow> bool" where
  "spaced ts [] \<longleftrightarrow> True"
| "spaced ts (n # ns) \<longleftrightarrow> apart n 0x28 ts 8 \<and> list_all (\<lambda>x. apart n 0x28 x 0x28) ns \<and> spaced ts ns"

lemma visited_head: "\<exists>ns. visited c k n m = n # ns"
  by (cases k) simp_all

lemma sever_cells:
  assumes "sever_walk c ts k n m = (sv, m')" "list_all (\<lambda>x. apart a 8 (x + 0x18) 8) (visited c k n m)" "apart a 8 ts 8"
  shows "rd64 m' a = rd64 m a"
  using assms(1,2)
proof (induction k arbitrary: n)
  case (Suc k)
  then show ?case using assms(3)
    by (auto simp: Let_def c64.rd_other split: if_splits)
qed simp

lemma torn_canon: "\<not> link_torn c m nxt n \<Longrightarrow> inv_canon nxt"
  by (auto simp: link_torn_def split: if_splits)

lemma cut_here:
  assumes "inv_canon n" "apart n 0x28 ts 8" "m' = (let m1 = wr64 (n + 0x18) 0 m in if rdb c ts 8 then wr64 ts n m1 else m1)"
  shows "linked c m' n [] \<and> (rdb c ts 8 \<longrightarrow> rd64 m' ts = n)"
proof -
  have "apart (n + 0x18) 8 ts 8" using assms(2) by (auto simp: apart_def)
  moreover have "n < 2 ^ 64" using assms(1) by (simp add: inv_canon_def)
  ultimately show ?thesis by (simp add: assms(3) c64.rd_wr c64.rd_other Let_def)
qed

lemma sever_sound:
  assumes "sever_walk c ts k n m = (sv, m')" "length (visited c k n m) \<le> k" "spaced ts (visited c k n m)" "inv_canon n"
  shows "linked c m' n (tl (visited c k n m)) \<and> (sv \<longrightarrow> rdb c ts 8 \<longrightarrow> rd64 m' ts = last (visited c k n m))"
  using assms
proof (induction k arbitrary: n)
  case 0
  then show ?case by simp
next
  case (Suc k)
  define nxt where "nxt = rd64 m (n + 0x18)"
  consider "\<not> rdb c (n + 0x18) 8 \<or> nxt = 0" | "rdb c (n + 0x18) 8" "nxt \<noteq> 0" "link_torn c m nxt n"
    | "rdb c (n + 0x18) 8" "nxt \<noteq> 0" "\<not> link_torn c m nxt n" by blast
  then show ?case
  proof cases
    case 1
    then show ?thesis using Suc.prems by (auto simp: nxt_def)
  next
    case 2
    then have v: "visited c (Suc k) n m = [n]" by (simp add: nxt_def)
    have s: "sv" "m' = (let m1 = wr64 (n + 0x18) 0 m in if rdb c ts 8 then wr64 ts n m1 else m1)"
      using 2 Suc.prems(1) by (simp_all add: nxt_def)
    have "apart n 0x28 ts 8" using Suc.prems(3) unfolding v by simp
    from cut_here [OF Suc.prems(4) this s(2)] show ?thesis unfolding v by simp
  next
    case 3
    obtain ns where ns: "visited c k nxt m = nxt # ns" using visited_head by blast
    then have v: "visited c (Suc k) n m = n # nxt # ns" using 3 by (simp add: nxt_def)
    have w: "sever_walk c ts k nxt m = (sv, m')" using 3 Suc.prems(1) by (simp add: nxt_def)
    have sp: "spaced ts (nxt # ns)" "apart n 0x28 ts 8" "list_all (\<lambda>x. apart n 0x28 x 0x28) (nxt # ns)"
      "list_all (\<lambda>x. apart nxt 0x28 x 0x28) ns" "apart nxt 0x28 ts 8"
      using Suc.prems(3) unfolding v by simp_all
    have IH: "linked c m' nxt ns" "sv \<longrightarrow> rdb c ts 8 \<longrightarrow> rd64 m' ts = last (nxt # ns)"
      using Suc.IH [OF w] Suc.prems(2) sp(1) torn_canon [OF 3(3)] ns v by simp_all
    have "list_all (\<lambda>x. apart (n + 0x18) 8 (x + 0x18) 8) (nxt # ns)" "apart (n + 0x18) 8 ts 8"
      using sp(2,3) by (auto simp: list_all_iff apart_def)
    from sever_cells [OF w _ this(2)] this(1) have "rd64 m' (n + 0x18) = rd64 m (n + 0x18)" by (simp add: ns)
    then have link: "rd64 m' (n + 0x18) = nxt" by (simp add: nxt_def)
    have "list_all (\<lambda>x. apart (nxt + 0x20) 8 (x + 0x18) 8) (nxt # ns)" "apart (nxt + 0x20) 8 ts 8"
      using sp(4,5) by (auto simp: list_all_iff apart_def)
    from sever_cells [OF w _ this(2)] this(1) have "rd64 m' (nxt + 0x20) = rd64 m (nxt + 0x20)" by (simp add: ns)
    then have "\<not> link_torn c m' nxt n" using 3(3) by (auto simp: link_torn_def split: if_splits)
    then show ?thesis using 3 link IH unfolding v by simp
  qed
qed

text \<open>
  C14. A repaired scheduler line is sound: unless the walk ran into its bound of 4096 links, the head still
  leads, over links that are all readable and answered by their back link, to a node with a clean end;
  when a torn link was severed the tail slot names that node. Nothing before the tear is lost.
\<close>
theorem severed_list_sound:
  assumes "line \<noteq> 7" "line \<noteq> 8" "rdb c (head_slot su line) 8" "rd64 m (head_slot su line) = h0"
    and "inv_canon h0" "rdb c h0 0x28" "visited c LINK_GUARD h0 m = h0 # ns" "length ns < LINK_GUARD"
    and "spaced (tail_slot su line) (h0 # ns)"
    and "list_all (\<lambda>x. apart (head_slot su line) 8 (x + 0x18) 8) (h0 # ns)"
  shows "let (co', m') = repair_line c su line (co, m) in
     rd64 m' (head_slot su line) = h0 \<and> linked c m' h0 ns \<and>
     (co_severed co' \<noteq> co_severed co \<and> rdb c (tail_slot su line) 8 \<longrightarrow> rd64 m' (tail_slot su line) = last (h0 # ns))"
proof -
  obtain sv m' where w: "sever_walk c (tail_slot su line) LINK_GUARD h0 m = (sv, m')"
    by (cases "sever_walk c (tail_slot su line) LINK_GUARD h0 m")
  have "linked c m' h0 ns \<and> (sv \<longrightarrow> rdb c (tail_slot su line) 8 \<longrightarrow> rd64 m' (tail_slot su line) = last (h0 # ns))"
    using sever_sound [OF w] assms(5,7-9) by simp
  moreover have "apart (head_slot su line) 8 (tail_slot su line) 8" by (simp add: apart_def head_slot_def tail_slot_def)
  then have "rd64 m' (head_slot su line) = h0" using sever_cells [OF w] assms(4,7,10) by simp
  moreover have "h0 \<noteq> 0" using assms(5) by (auto simp: inv_canon_def)
  then have "repair_line c su line (co, m) = (if sv then co\<lparr>co_severed := co_severed co + 1\<rparr> else co, m')"
    using assms(1-6) by (simp add: repair_line_def w Let_def)
  ultimately show ?thesis by (cases sv) simp_all
qed

definition sever_mem :: gmem where
  "sever_mem = wr64 0x40018 0x50000 (wr64 0x40020 0x30000 (wr64 0x30018 0x40000 (wr64 0x20050 0x30000
     (wr64 0x50020 0x77777 (\<lambda>_. 0)))))"

lemma sever_mem_reads:
  "rd64 sever_mem 0x20050 = 0x30000" "rd64 sever_mem 0x30018 = 0x40000" "rd64 sever_mem 0x40020 = 0x30000"
  "rd64 sever_mem 0x40018 = 0x50000" "rd64 sever_mem 0x50020 = 0x77777"
  by (simp_all add: sever_mem_def mem_simps apart_def)

lemma sever_mem_visited: "2 < k \<Longrightarrow> visited coherent_demo_env k 0x30000 sever_mem = [0x30000, 0x40000]"
proof -
  assume "2 < k"
  then obtain j where "k = Suc (Suc j)" by (metis Suc_lessE less_imp_Suc_add numeral_2_eq_2)
  then show ?thesis by (simp add: rdb_demo sever_mem_reads link_torn_def inv_canon_def)
qed

definition co_init :: coherent where
  "co_init = \<lparr>co_master = True, co_scope = 1, co_links = True, co_holders = 0, co_nulled = 0, co_cleared = 0,
     co_removed = 0, co_severed = 0, co_heads = 0\<rparr>"

lemma severed_list_sound_witness:
  "let (co', m') = repair_line coherent_demo_env 0x20000 0 (co_init, sever_mem) in
     rd64 m' (head_slot 0x20000 0) = 0x30000 \<and> linked coherent_demo_env m' 0x30000 [0x40000]"
proof -
  have "visited coherent_demo_env LINK_GUARD 0x30000 sever_mem = 0x30000 # [0x40000]"
    by (simp add: sever_mem_visited LINK_GUARD_def)
  then show ?thesis
    using severed_list_sound [of 0 coherent_demo_env "0x20000" sever_mem "0x30000" "[0x40000]" co_init]
    by (simp add: rdb_demo sever_mem_reads head_slot_def tail_slot_def inv_canon_def LINK_GUARD_def apart_def
        Let_def split_def del: linked.simps)
qed

section \<open>A shot that was freed\<close>

text \<open>
  The one enabled row of the catalog does not see redirected blocks die: a shot allocated in the heap zone
  and freed again stays in the fighter's field, because the spine it asks still answers that the block lives.
\<close>
theorem freed_shot_kept:
  assumes "heap_zone_alloc_default (nat sz) (da_zone st) = (hz, In_Zone z)"
    and "0 < sz" "0 < align" "align \<le> 0x10" "is_arena_addr ar z" "inv_canon z" "is_heap_zone_addr z hz"
    and "rd_ok (da_rs st)" "rd_find z (da_rs st) = Some k"
    and "rd64 m (h + de_arr d) = z"
  shows "let (p, st1) = hk_dmalloc ar True True rec b orig sz align st;
             (st2, crt) = hk_dfree True True rec f p st1
         in p = z \<and> k_null_rdspine (c\<lparr>ce_rd := da_rs st2\<rparr>) d h m = (0, m)"
proof -
  have z: "rd_addr z" "z \<noteq> 0" using assms(6) by (auto simp: inv_canon_def rd_addr_def TOMB_def)
  define rs where "rs = rd_put z (word_of_int sz, True) b (da_rs st)"
  have m: "hk_dmalloc ar True True rec b orig sz align st
      = (z, st\<lparr>da_zone := hz, da_rs := rs, da_quar := drop_default_husk z (da_quar st)\<rparr>)"
    using assms(1-5) z(2) by (simp add: hk_dmalloc_def rs_def)
  have "rd_death_of rs z = Some FRAME_NEVER"
    unfolding rs_def by (rule rd_lookup_death [OF rd_put_lookup [OF assms(8) z(1) assms(9)]])
  then show ?thesis using assms(6,7,10) z(2) by (simp add: m hk_dfree_def k_null_rdspine_def Let_def)
qed

lemma freed_shot_kept_witness:
  "let (p, st1) = hk_dmalloc (or_arena id_demo) True True True 5 0 32 16 default_demo;
       (st2, crt) = hk_dfree True True True 9 p st1
   in p = 0x100010 \<and> k_null_rdspine (coherent_demo_env\<lparr>ce_rd := da_rs st2\<rparr>) (catalog ! 5) 0x30000 (wr64 0x36428 0x100010 (\<lambda>_. 0))
        = (0, wr64 0x36428 0x100010 (\<lambda>_. 0))"
  using zone_demo_facts
  by (intro freed_shot_kept [OF zone_demo_facts(1)])
    (simp_all add: inv_canon_def catalog_def c64.rd_wr)

end
