(* ===== verification/Dead_Vtable.thy ===== *)
theory Dead_Vtable
  imports Game_Memory
begin

text \<open>
  The unlinking of entities with a dead vtable from the scheduler's lines,
  \<open>src/src/dead_vtable_unlink.cpp\<close>. The counts it reports are left out.
\<close>

definition is_valid_vtable :: "nat \<Rightarrow> nat \<Rightarrow> bool" where
  "is_valid_vtable base vt \<longleftrightarrow> (vt + (2 ^ 64 - base)) mod 2 ^ 64 < 0xE00000"

definition line_head :: "nat \<Rightarrow> nat \<Rightarrow> nat" where "line_head su line = su + 0x58 + line * 0x30"
definition line_tail :: "nat \<Rightarrow> nat \<Rightarrow> nat" where "line_tail su line = su + 0x50 + line * 0x30"

text \<open>The state word after the unlink: dispatch bits and state cleared, the line a sentinel.\<close>

definition mark_dead :: "nat \<Rightarrow> gmem \<Rightarrow> gmem" where
  "mark_dead ent m =
     (let w = (of_nat (rd32 m (ent + 0x10)) :: u32)
      in wr32 (ent + 0x10) (unat (or (and w 0xFFFFF800) 0x3F8)) m)"

definition unlink_from_scheduler :: "arena \<Rightarrow> nat \<Rightarrow> nat \<Rightarrow> nat \<Rightarrow> gmem \<Rightarrow> gmem" where
  "unlink_from_scheduler ar hs ts ent m =
     (let prv = rd64 m (ent + 0x18); nxt = rd64 m (ent + 0x20);
          m1 = (if prv \<noteq> 0 \<and> is_committed_addr ar prv then wr64 (prv + 0x20) nxt m else wr64 hs nxt m);
          m2 = (if nxt \<noteq> 0 \<and> is_committed_addr ar nxt then wr64 (nxt + 0x18) prv m1 else wr64 ts prv m1);
          m3 = mark_dead ent m2
      in wr64 (ent + 0x20) 0 (wr64 (ent + 0x18) 0 m3))"

definition dead_vtable :: "nat \<Rightarrow> gmem \<Rightarrow> nat \<Rightarrow> bool" where
  "dead_vtable base m ent \<longleftrightarrow> rd64 m ent = 0 \<or> \<not> is_valid_vtable base (rd64 m ent)"

fun dead_walk :: "arena \<Rightarrow> nat \<Rightarrow> nat \<Rightarrow> nat \<Rightarrow> nat \<Rightarrow> nat \<Rightarrow> gmem \<Rightarrow> gmem" where
  "dead_walk ar base hs ts 0 ent m = m"
| "dead_walk ar base hs ts (Suc k) ent m =
     (if ent = 0 then m
      else if \<not> is_committed_addr ar ent then m
      else
        let nxt = rd64 m (ent + 0x20);
            m1 = (if dead_vtable base m ent then unlink_from_scheduler ar hs ts ent m else m)
        in dead_walk ar base hs ts k nxt m1)"

definition WALK_MAX :: nat where "WALK_MAX = 512"

definition validate_line :: "arena \<Rightarrow> nat \<Rightarrow> nat \<Rightarrow> nat \<Rightarrow> gmem \<Rightarrow> gmem" where
  "validate_line ar base su line m =
     dead_walk ar base (line_head su line) (line_tail su line) WALK_MAX (rd64 m (line_head su line)) m"

definition dead_vtable_validate :: "arena \<Rightarrow> nat \<Rightarrow> gmem \<Rightarrow> gmem" where
  "dead_vtable_validate ar base m =
     (let su = rd64 m (resolve base 0x140E17698) in
      if su = 0 then m else fold (validate_line ar base su) [0..<128] m)"

section \<open>Well-formed lines\<close>

text \<open>The cell that leads to the first node after \<open>p\<close>, and a list of nodes linked both ways.\<close>

definition link_cell :: "nat \<Rightarrow> nat \<Rightarrow> nat" where "link_cell hs p = (if p = 0 then hs else p + 0x20)"

lemma link_cell_node: "p \<noteq> 0 \<Longrightarrow> link_cell hs p = p + 0x20"
  by (simp add: link_cell_def)

lemma apart_in: "apart a 8 b k \<Longrightarrow> b \<le> c \<Longrightarrow> c + d \<le> b + k \<Longrightarrow> apart a 8 c d"
  by (auto simp: apart_def)

lemma apart_flip: "apart a n b k \<Longrightarrow> apart b k a n"
  by (auto simp: apart_def)

lemma apart_in': "apart b k a n \<Longrightarrow> b \<le> c \<Longrightarrow> c + d \<le> b + k \<Longrightarrow> apart c d a n"
  by (auto simp: apart_def)

fun line_ok :: "gmem \<Rightarrow> nat \<Rightarrow> nat \<Rightarrow> nat \<Rightarrow> nat list \<Rightarrow> bool" where
  "line_ok m hs ts p [] \<longleftrightarrow> rd64 m (link_cell hs p) = 0 \<and> rd64 m ts = p"
| "line_ok m hs ts p (n # ns) \<longleftrightarrow>
     rd64 m (link_cell hs p) = n \<and> n \<noteq> 0 \<and> rd64 m (n + 0x18) = p \<and> line_ok m hs ts n ns"

definition block_apart :: "nat \<Rightarrow> nat \<Rightarrow> bool" where "block_apart x y \<longleftrightarrow> apart x 0x28 y 0x28"

fun nodes_apart :: "nat \<Rightarrow> nat \<Rightarrow> nat list \<Rightarrow> bool" where
  "nodes_apart hs ts [] \<longleftrightarrow> apart hs 8 ts 8"
| "nodes_apart hs ts (n # ns) \<longleftrightarrow>
     apart hs 8 n 0x28 \<and> apart ts 8 n 0x28 \<and> list_all (block_apart n) ns \<and> nodes_apart hs ts ns"

text \<open>What an unlink writes to.\<close>

definition back_cell :: "nat \<Rightarrow> nat list \<Rightarrow> nat" where
  "back_cell ts ns = (case ns of [] \<Rightarrow> ts | x # _ \<Rightarrow> x + 0x18)"

lemma rd64_mark: "apart a 8 (ent + 0x10) 4 \<Longrightarrow> rd64 (mark_dead ent m) a = rd64 m a"
  by (simp add: mark_dead_def Let_def rd64_wr32)

definition links_ready :: "arena \<Rightarrow> nat \<Rightarrow> nat list \<Rightarrow> bool" where
  "links_ready ar p ns \<longleftrightarrow> (p = 0 \<or> is_committed_addr ar p) \<and> list_all (is_committed_addr ar) ns"

lemma unlink_eq:
  assumes "line_ok m hs ts p (n # ns)" "links_ready ar p (n # ns)"
  shows "unlink_from_scheduler ar hs ts n m =
    wr64 (n + 0x20) 0 (wr64 (n + 0x18) 0 (mark_dead n
      (wr64 (back_cell ts ns) p (wr64 (link_cell hs p) (case ns of [] \<Rightarrow> 0 | x # _ \<Rightarrow> x) m))))"
proof -
  have n: "n \<noteq> 0" "rd64 m (n + 0x18) = p" using assms(1) by simp_all
  have nx: "rd64 m (n + 0x20) = (case ns of [] \<Rightarrow> 0 | x # _ \<Rightarrow> x)"
    using assms(1) link_cell_node [OF n(1), of hs] by (cases ns) auto
  have "ns = x # xs \<Longrightarrow> x \<noteq> 0 \<and> is_committed_addr ar x" for x xs
    using assms by (simp add: links_ready_def)
  then show ?thesis using assms(2) n nx
    by (cases ns) (auto simp: unlink_from_scheduler_def Let_def link_cell_def back_cell_def links_ready_def)
qed

lemma unlink_frame:
  assumes "line_ok m hs ts p (n # ns)" "links_ready ar p (n # ns)"
    and "apart a 8 (link_cell hs p) 8" "apart a 8 (back_cell ts ns) 8" "apart a 8 (n + 0x10) 0x18"
  shows "rd64 (unlink_from_scheduler ar hs ts n m) a = rd64 m a"
proof -
  have "apart a 8 (n + 0x20) 8" "apart a 8 (n + 0x18) 8" "apart a 8 (n + 0x10) 4"
    using assms(5) by (auto simp: apart_def)
  then show ?thesis using assms(3,4) by (simp add: unlink_eq [OF assms(1,2)] c64.rd_other rd64_mark)
qed

text \<open>A list keeps its shape in a memory that agrees on its cells.\<close>

lemma line_ok_cong:
  assumes "line_ok m hs ts p ns" "rd64 m' (link_cell hs p) = rd64 m (link_cell hs p)" "rd64 m' ts = rd64 m ts"
    and "\<And>x. x \<in> set ns \<Longrightarrow> rd64 m' (x + 0x18) = rd64 m (x + 0x18) \<and> rd64 m' (x + 0x20) = rd64 m (x + 0x20)"
  shows "line_ok m' hs ts p ns"
  using assms
proof (induction ns arbitrary: p)
  case (Cons n ns)
  have "rd64 m' (link_cell hs n) = rd64 m (link_cell hs n)"
    using Cons.prems(1) Cons.prems(4) [of n] by (simp add: link_cell_def)
  then have "line_ok m' hs ts n ns" using Cons.prems by (intro Cons.IH) auto
  then show ?case using Cons.prems(1,2) Cons.prems(4) [of n] by simp
qed simp

lemma nodes_apart_slots: "nodes_apart hs ts ns \<Longrightarrow> x \<in> set ns \<Longrightarrow> apart hs 8 x 0x28 \<and> apart ts 8 x 0x28"
  by (induction ns) auto

lemma nodes_apart_base: "nodes_apart hs ts ns \<Longrightarrow> apart hs 8 ts 8"
  by (induction ns) auto

lemma line_ok_nonzero: "line_ok m hs ts p ns \<Longrightarrow> x \<in> set ns \<Longrightarrow> x \<noteq> 0"
  by (induction ns arbitrary: p) auto

lemma unlink_line:
  assumes ok: "line_ok m hs ts p (n # ns)" "links_ready ar p (n # ns)" and sp: "nodes_apart hs ts (n # ns)"
    and lp: "list_all (\<lambda>x. apart (link_cell hs p) 8 x 0x28) (n # ns)" "apart (link_cell hs p) 8 ts 8" and p: "p < 2 ^ 64"
  shows "line_ok (unlink_from_scheduler ar hs ts n m) hs ts p ns"
proof -
  define m' where "m' = unlink_from_scheduler ar hs ts n m"
  note eq = unlink_eq [OF ok, folded m'_def]
  note fr = unlink_frame [OF ok, folded m'_def]
  have napart: "apart n 0x28 x 0x28" if "x \<in> set ns" for x
    using that sp by (auto simp: list_all_iff block_apart_def)
  have bca: "apart (back_cell ts ns) 8 (n + 0x10) 0x18"
  proof (cases ns)
    case Nil
    have "apart ts 8 n 0x28" using sp by simp
    then show ?thesis using Nil by (simp add: back_cell_def apart_in [where b = n and k = "0x28"])
  next
    case (Cons x xs)
    have "apart (x + 0x18) 8 n 0x28"
      using Cons by (intro apart_in' [OF apart_flip [OF napart [of x]]]) simp_all
    then show ?thesis using Cons by (simp add: back_cell_def apart_in [where b = n and k = "0x28"])
  qed
  have bcl: "apart (link_cell hs p) 8 (back_cell ts ns) 8"
  proof (cases ns)
    case (Cons x xs)
    have "apart (link_cell hs p) 8 x 0x28" using lp(1) Cons by simp
    then show ?thesis using Cons by (simp add: back_cell_def apart_in [where b = x and k = "0x28"])
  qed (use lp(2) in \<open>simp add: back_cell_def\<close>)
  have lca: "apart (link_cell hs p) 8 (n + 0x10) 0x18" using lp(1) by (auto simp: apart_def)
  have cells: "rd64 m' a = rd64 (wr64 (back_cell ts ns) p (wr64 (link_cell hs p) (case ns of [] \<Rightarrow> 0 | x # _ \<Rightarrow> x) m)) a"
    if "apart a 8 (n + 0x10) 0x18" for a
  proof -
    have "apart a 8 (n + 0x20) 8" "apart a 8 (n + 0x18) 8" "apart a 8 (n + 0x10) 4" using that by (auto simp: apart_def)
    then show ?thesis by (simp add: eq c64.rd_other rd64_mark)
  qed
  have bk: "rd64 m' (back_cell ts ns) = p" using cells [OF bca] p by (simp add: c64.rd_wr)
  have vlt: "(case ns of [] \<Rightarrow> 0 | x # _ \<Rightarrow> x) < 2 ^ 64"
  proof (cases ns)
    case (Cons x xs)
    then have "x = rd64 m (link_cell hs n)" using ok(1) by simp
    then show ?thesis using Cons c64.rd_less by simp
  qed simp
  have front: "rd64 m' (link_cell hs p) = (case ns of [] \<Rightarrow> 0 | x # _ \<Rightarrow> x)"
    using cells [OF lca] bcl vlt by (simp add: c64.rd_other c64.rd_wr)
  show ?thesis
  proof (cases ns)
    case Nil
    then show ?thesis using bk front by (simp add: m'_def [symmetric] back_cell_def)
  next
    case (Cons x xs)
    have x: "x \<noteq> 0" "rd64 m' (x + 0x18) = p" using ok(1) bk Cons by (simp_all add: back_cell_def)
    have xa: "list_all (block_apart x) xs" "apart ts 8 x 0x28" "apart ts 8 n 0x28" using sp Cons by simp_all
    have keep: "rd64 m' a = rd64 m a" if "apart a 8 (link_cell hs p) 8" "apart a 8 (x + 0x18) 8" "apart a 8 (n + 0x10) 0x18" for a
      using that fr [of a] Cons by (simp add: back_cell_def)
    have lpy: "apart (link_cell hs p) 8 y 0x28" if "y \<in> set ns" for y using lp(1) that by (auto simp: list_all_iff)
    have "line_ok m' hs ts x xs"
    proof (rule line_ok_cong)
      show "line_ok m hs ts x xs" using ok(1) Cons by simp
      have "apart (x + 0x20) 8 (link_cell hs p) 8" "apart (x + 0x20) 8 (n + 0x10) 0x18"
        using lpy [of x] napart [of x] Cons by (auto simp: apart_def)
      moreover have "apart (x + 0x20) 8 (x + 0x18) 8" by (simp add: apart_def)
      ultimately show "rd64 m' (link_cell hs x) = rd64 m (link_cell hs x)" using x(1) keep by (simp add: link_cell_def)
      have "apart ts 8 (link_cell hs p) 8" "apart ts 8 (x + 0x18) 8" "apart ts 8 (n + 0x10) 0x18"
        using lp(2) xa(2,3) by (auto simp: apart_def)
      then show "rd64 m' ts = rd64 m ts" by (rule keep)
      show "rd64 m' (y + 0x18) = rd64 m (y + 0x18) \<and> rd64 m' (y + 0x20) = rd64 m (y + 0x20)" if "y \<in> set xs" for y
      proof -
        have "apart x 0x28 y 0x28" using xa(1) that by (auto simp: list_all_iff block_apart_def)
        then show ?thesis using lpy [of y] napart [of y] that Cons by (auto simp: apart_def intro!: keep)
      qed
    qed
    then show ?thesis using x front Cons by (simp add: m'_def [symmetric])
  qed
qed

section \<open>What a pass leaves\<close>

lemma back_cell_apart:
  assumes "apart a 8 ts 8" "list_all (\<lambda>x. apart a 8 (x + 0x18) 8) ns"
  shows "apart a 8 (back_cell ts ns) 8"
  using assms by (cases ns) (simp_all add: back_cell_def)

lemma unlink_vtables:
  assumes "line_ok m hs ts p (n # ns)" "links_ready ar p (n # ns)" "nodes_apart hs ts (n # ns)"
    and "list_all (\<lambda>x. apart (link_cell hs p) 8 x 0x28) (n # ns)" "x \<in> set ns"
  shows "rd64 (unlink_from_scheduler ar hs ts n m) x = rd64 m x"
proof (rule unlink_frame [OF assms(1,2)])
  have lx: "apart (link_cell hs p) 8 x 0x28" "apart n 0x28 x 0x28" "apart ts 8 x 0x28"
    using assms(3-5) nodes_apart_slots [of hs ts ns x] by (auto simp: list_all_iff block_apart_def)
  show "apart x 8 (link_cell hs p) 8" using lx(1) by (auto simp: apart_def)
  show "apart x 8 (n + 0x10) 0x18" using lx(2) by (auto simp: apart_def)
  show "apart x 8 (back_cell ts ns) 8"
  proof (cases ns)
    case Nil
    then show ?thesis using assms(5) by simp
  next
    case (Cons y ys)
    have "x = y \<or> apart y 0x28 x 0x28" using assms(3,5) Cons by (auto simp: list_all_iff block_apart_def)
    then show ?thesis by (auto simp: Cons back_cell_def apart_def)
  qed
qed

lemma dead_walk_line:
  assumes "line_ok m hs ts p ns" "links_ready ar p ns" "nodes_apart hs ts ns"
    and "list_all (\<lambda>x. apart (link_cell hs p) 8 x 0x28) ns" "apart (link_cell hs p) 8 ts 8" "p < 2 ^ 64" "length ns \<le> k"
  shows "line_ok (dead_walk ar base hs ts k (case ns of [] \<Rightarrow> 0 | x # _ \<Rightarrow> x) m) hs ts p (filter (\<lambda>x. \<not> dead_vtable base m x) ns) \<and>
    (\<forall>a. apart a 8 (link_cell hs p) 8 \<longrightarrow> apart a 8 ts 8 \<longrightarrow> list_all (\<lambda>x. apart a 8 (x + 0x10) 0x18) ns \<longrightarrow>
       rd64 (dead_walk ar base hs ts k (case ns of [] \<Rightarrow> 0 | x # _ \<Rightarrow> x) m) a = rd64 m a)"
  using assms
proof (induction ns arbitrary: p m k)
  case Nil
  then show ?case by (cases k) simp_all
next
  case (Cons n ns)
  then obtain j where k: "k = Suc j" by (cases k) simp_all
  have n: "n \<noteq> 0" "is_committed_addr ar n" using Cons.prems(1,2) by (simp_all add: links_ready_def)
  have nx: "rd64 m (n + 0x20) = (case ns of [] \<Rightarrow> 0 | x # _ \<Rightarrow> x)"
    using Cons.prems(1) link_cell_node [OF n(1), of hs] by (cases ns) auto
  define m1 where "m1 = (if dead_vtable base m n then unlink_from_scheduler ar hs ts n m else m)"
  define m2 where "m2 = dead_walk ar base hs ts j (case ns of [] \<Rightarrow> 0 | x # _ \<Rightarrow> x) m1"
  have walk: "dead_walk ar base hs ts k (case n # ns of [] \<Rightarrow> 0 | x # _ \<Rightarrow> x) m = m2"
    using n by (simp add: k nx m1_def m2_def)
  have sp: "nodes_apart hs ts ns" "apart ts 8 n 0x28" "list_all (block_apart n) ns" using Cons.prems(3) by simp_all
  have lp: "list_all (\<lambda>x. apart (link_cell hs p) 8 x 0x28) ns" "apart (link_cell hs p) 8 n 0x28"
    using Cons.prems(4) by simp_all
  show ?case
  proof (cases "dead_vtable base m n")
    case True
    then have m1: "m1 = unlink_from_scheduler ar hs ts n m" by (simp add: m1_def)
    have "line_ok m1 hs ts p ns" using unlink_line [OF Cons.prems(1-6)] by (simp add: m1)
    moreover have "links_ready ar p ns" using Cons.prems(2) by (simp add: links_ready_def)
    ultimately have IH: "line_ok m2 hs ts p (filter (\<lambda>x. \<not> dead_vtable base m1 x) ns)"
      "\<And>a. apart a 8 (link_cell hs p) 8 \<Longrightarrow> apart a 8 ts 8 \<Longrightarrow> list_all (\<lambda>x. apart a 8 (x + 0x10) 0x18) ns \<Longrightarrow>
         rd64 m2 a = rd64 m1 a"
      using Cons.IH [of m1 p j] sp(1) lp(1) Cons.prems(5,6,7) k by (simp_all add: m2_def)
    have "filter (\<lambda>x. \<not> dead_vtable base m1 x) ns = filter (\<lambda>x. \<not> dead_vtable base m x) ns"
      using unlink_vtables [OF Cons.prems(1-4)] by (intro filter_cong) (simp_all add: m1 dead_vtable_def)
    then have "line_ok m2 hs ts p (filter (\<lambda>x. \<not> dead_vtable base m x) (n # ns))" using IH(1) True by simp
    moreover have "rd64 m2 a = rd64 m a"
      if a: "apart a 8 (link_cell hs p) 8" "apart a 8 ts 8" "list_all (\<lambda>x. apart a 8 (x + 0x10) 0x18) (n # ns)" for a
    proof -
      have "list_all (\<lambda>x. apart a 8 (x + 0x18) 8) ns" using a(3) by (auto simp: list_all_iff intro: apart_in)
      then have "rd64 m1 a = rd64 m a"
        using a unfolding m1 by (intro unlink_frame [OF Cons.prems(1,2)] back_cell_apart) simp_all
      then show ?thesis using IH(2) a by simp
    qed
    ultimately show ?thesis unfolding walk by blast
  next
    case False
    then have m1: "m1 = m" by (simp add: m1_def)
    have ln: "link_cell hs n = n + 0x20" using n(1) by (rule link_cell_node)
    have blk: "list_all (\<lambda>x. apart (n + 0x20) 8 x 0x28) ns" "list_all (\<lambda>x. apart (n + 0x18) 8 x 0x28) ns"
      using sp(3) by (auto simp: list_all_iff block_apart_def apart_def)
    have nt: "apart (n + 0x20) 8 ts 8" "apart (n + 0x18) 8 ts 8" using sp(2) by (auto simp: apart_def)
    have nlt: "n < 2 ^ 64" using Cons.prems(1) c64.rd_less [of m "link_cell hs p"] by simp
    have "line_ok m hs ts n ns" "links_ready ar n ns" using Cons.prems(1,2) n by (simp_all add: links_ready_def)
    then have IH: "line_ok m2 hs ts n (filter (\<lambda>x. \<not> dead_vtable base m x) ns)"
      "\<And>a. apart a 8 (n + 0x20) 8 \<Longrightarrow> apart a 8 ts 8 \<Longrightarrow> list_all (\<lambda>x. apart a 8 (x + 0x10) 0x18) ns \<Longrightarrow>
         rd64 m2 a = rd64 m a"
      using Cons.IH [of m n j] sp(1) blk(1) nt(1) nlt Cons.prems(7) k by (simp_all add: m2_def m1 ln)
    have "rd64 m2 (link_cell hs p) = rd64 m (link_cell hs p)"
      using lp Cons.prems(5) by (intro IH(2)) (auto simp: list_all_iff intro: apart_in)
    moreover have "rd64 m2 (n + 0x18) = rd64 m (n + 0x18)"
      using blk(2) nt(2) by (intro IH(2)) (auto simp: list_all_iff intro: apart_in, simp add: apart_def)
    ultimately have "line_ok m2 hs ts p (filter (\<lambda>x. \<not> dead_vtable base m x) (n # ns))"
      using IH(1) Cons.prems(1) False by simp
    moreover have "rd64 m2 a = rd64 m a"
      if a: "apart a 8 ts 8" "list_all (\<lambda>x. apart a 8 (x + 0x10) 0x18) (n # ns)" for a
      using a by (intro IH(2)) (auto intro: apart_in)
    ultimately show ?thesis unfolding walk by blast
  qed
qed

text \<open>
  C12. After a pass no entity with a dead vtable is left on a scheduler line and nothing else is lost: a
  line that was linked both ways, of committed entities and within the walk's bound, is linked both ways again,
  with head and tail, over exactly its entities with a live vtable, in their order.
\<close>
theorem dead_entities_unlinked:
  assumes "line_ok m (line_head su line) (line_tail su line) 0 ns" "list_all (is_committed_addr ar) ns"
    and "nodes_apart (line_head su line) (line_tail su line) ns" "length ns \<le> WALK_MAX"
  shows "line_ok (validate_line ar base su line m) (line_head su line) (line_tail su line) 0
    (filter (\<lambda>x. \<not> dead_vtable base m x) ns)"
proof -
  have "rd64 m (line_head su line) = (case ns of [] \<Rightarrow> 0 | x # _ \<Rightarrow> x)"
    using assms(1) by (cases ns) (simp_all add: link_cell_def)
  moreover have "list_all (\<lambda>x. apart (link_cell (line_head su line) 0) 8 x 0x28) ns"
    "apart (link_cell (line_head su line) 0) 8 (line_tail su line) 8"
    using nodes_apart_slots [OF assms(3)] nodes_apart_base [OF assms(3)] by (auto simp: list_all_iff link_cell_def)
  ultimately show ?thesis
    using dead_walk_line [OF assms(1) _ assms(3), of ar WALK_MAX base] assms(2,4)
    by (simp add: validate_line_def links_ready_def)
qed

definition line_demo :: gmem where
  "line_demo = wr64 0x10050 0x30000 (wr64 0x10058 0x20000 (wr64 0x20020 0x30000 (wr64 0x20018 0 (wr64 0x20000 0x99999999
     (wr64 0x30020 0 (wr64 0x30018 0x20000 (wr64 0x30000 0x500000 (\<lambda>_. 0))))))))"

lemma line_demo_reads:
  "rd64 line_demo 0x10050 = 0x30000" "rd64 line_demo 0x10058 = 0x20000" "rd64 line_demo 0x20020 = 0x30000"
  "rd64 line_demo 0x20018 = 0" "rd64 line_demo 0x20000 = 0x99999999" "rd64 line_demo 0x30020 = 0"
  "rd64 line_demo 0x30018 = 0x20000" "rd64 line_demo 0x30000 = 0x500000"
  by (simp_all add: line_demo_def mem_simps apart_def)

definition arena_demo :: arena where
  "arena_demo = \<lparr>ar_ready = True, ar_base = 0, ar_wm = 0, ar_wm_peak = 0, ar_committed = (\<lambda>_. True), ar_committed_n = 0,
     ar_resv = [], ar_free = [], ar_mem = (\<lambda>_. 0), ar_donated = []\<rparr>"

lemma dead_entities_unlinked_witness:
  "line_ok (validate_line arena_demo 0x400000 0x10000 0 line_demo) 0x10058 0x10050 0 [0x30000]"
proof -
  have ok: "line_ok line_demo (line_head 0x10000 0) (line_tail 0x10000 0) 0 [0x20000, 0x30000]"
    by (simp add: line_head_def line_tail_def link_cell_def line_demo_reads)
  have "list_all (is_committed_addr arena_demo) [0x20000, 0x30000]"
    "nodes_apart (line_head 0x10000 0) (line_tail 0x10000 0) [0x20000, 0x30000]" "length [0x20000, 0x30000 :: nat] \<le> WALK_MAX"
    by (simp_all add: is_committed_addr_def arena_demo_def ARENA_SIZE_def line_head_def line_tail_def apart_def
        block_apart_def WALK_MAX_def)
  from dead_entities_unlinked [OF ok this, of "0x400000"] show ?thesis
    by (simp add: dead_vtable_def is_valid_vtable_def line_demo_reads line_head_def line_tail_def del: line_ok.simps)
qed

end
