(* ===== verification/Restore_Registry.thy ===== *)
theory Restore_Registry
  imports Dead_Vtable "HOL-Library.Multiset"
begin

text \<open>
  The preserved values of \<open>src/src/handle_preserve.cpp\<close> and the registry of restore descriptors with
  its phase driver, \<open>src/src/dynamic_restore.cpp\<close>. What a registered operation does to the world is an
  argument of the driver; the field tables, which only document, are left out.
\<close>

section \<open>Preserved values\<close>

definition SRENDER_OFFSETS :: "nat list" where
  "SRENDER_OFFSETS = [0x8, 0xB0, 0xC0, 0xE8, 0xF8, 0x100, 0x1A0, 0x1A8, 0x1B0, 0x1C0, 0x8897B8, 0x8897C0, 0x8897E0, 0x8897E8]"

record handles =
  hp_entries :: "(nat \<times> nat) list"
  hp_registered :: bool

definition hp_init :: handles where "hp_init = \<lparr>hp_entries = [], hp_registered = False\<rparr>"

definition add_entry :: "nat \<Rightarrow> handles \<Rightarrow> handles" where
  "add_entry a st = st\<lparr>hp_entries := hp_entries st @ [(a, 0)]\<rparr>"

definition hp_srender :: "nat \<Rightarrow> gmem \<Rightarrow> nat" where "hp_srender base m = rd64 m (resolve base 0x140E179A8)"
definition hp_sunit :: "nat \<Rightarrow> gmem \<Rightarrow> nat" where "hp_sunit base m = rd64 m (resolve base 0x140E17698)"

definition register_srender :: "nat \<Rightarrow> gmem \<Rightarrow> handles \<Rightarrow> handles" where
  "register_srender base m st =
     (let sr = hp_srender base m in
      if sr = 0 then st
      else (fold (\<lambda>off s. if 512 \<le> length (hp_entries s) then s else add_entry (sr + off) s) SRENDER_OFFSETS st)
             \<lparr>hp_registered := True\<rparr>)"

definition register_singleton_cs :: "nat \<Rightarrow> arena \<Rightarrow> gmem \<Rightarrow> handles \<Rightarrow> handles" where
  "register_singleton_cs base ar m st =
     (let sr = hp_srender base m;
          st1 = (if sr \<noteq> 0 \<and> is_arena_addr ar sr \<and> length (hp_entries st) < 510 then add_entry (sr + 0x20) st else st);
          su = hp_sunit base m
      in if su \<noteq> 0 \<and> is_arena_addr ar su \<and> length (hp_entries st1) < 510
         then add_entry (su + 0x20) (add_entry (su + 0x08) st1) else st1)"

definition hp_save :: "nat \<Rightarrow> arena \<Rightarrow> gmem \<Rightarrow> handles \<Rightarrow> handles" where
  "hp_save base ar m st =
     (let st1 = (if \<not> hp_registered st then register_singleton_cs base ar m (register_srender base m st) else st)
      in st1\<lparr>hp_entries := map (\<lambda>(a, _). (a, rd64 m a)) (hp_entries st1)\<rparr>)"

definition restore_handle :: "nat \<times> nat \<Rightarrow> gmem \<Rightarrow> gmem" where
  "restore_handle e m = (case e of (a, v) \<Rightarrow> if rd64 m a \<noteq> v then wr64 a v m else m)"

definition hp_restore :: "handles \<Rightarrow> gmem \<Rightarrow> gmem" where
  "hp_restore st m = fold restore_handle (hp_entries st) m"

definition get_srender :: "handles \<Rightarrow> nat" where
  "get_srender st = (if \<not> hp_registered st then 0 else fst (hp_entries st ! 0) - SRENDER_OFFSETS ! 0)"

section \<open>The registry\<close>

datatype phase = Ph_Save | Ph_Post_Load | Ph_During_Resim | Ph_Post_Resim

datatype restore_op = Handle_Save | Handle_Restore | Rtv_Save | Rtv_Restore | Unlink_Load | Unlink_Resim | Rederive_Exclude

record binding =
  bn_phase :: phase
  bn_order :: int
  bn_op :: "restore_op option"

record descriptor =
  ds_name :: string
  ds_bindings :: "binding list"
  ds_flag_gated :: bool

definition bind :: "phase \<Rightarrow> int \<Rightarrow> restore_op option \<Rightarrow> binding" where
  "bind ph ord f = \<lparr>bn_phase = ph, bn_order = ord, bn_op = f\<rparr>"

definition descriptors :: "descriptor list" where
  "descriptors =
    [\<lparr>ds_name = ''sRender_persistent_handles'',
      ds_bindings = [bind Ph_Save 10 (Some Handle_Save), bind Ph_Post_Load 10 (Some Handle_Restore)], ds_flag_gated = False\<rparr>,
     \<lparr>ds_name = ''nDraw_RenderTargetView_DepthStencilView_0x20'',
      ds_bindings = [bind Ph_Save 10 (Some Rtv_Save), bind Ph_Post_Load 20 (Some Rtv_Restore), bind Ph_During_Resim 0 None],
      ds_flag_gated = False\<rparr>,
     \<lparr>ds_name = ''scheduler_bad_vtable_unlink'',
      ds_bindings = [bind Ph_Post_Load 90 (Some Unlink_Load), bind Ph_Post_Resim 10 (Some Unlink_Resim)], ds_flag_gated = False\<rparr>,
     \<lparr>ds_name = ''sRender_body_rederive'', ds_bindings = [bind Ph_Save 5 (Some Rederive_Exclude)], ds_flag_gated = False\<rparr>]"

definition active :: "descriptor \<Rightarrow> bool" where "active d \<longleftrightarrow> \<not> ds_flag_gated d"

text \<open>Selection sort by swapping, on the indices of the phase's bindings.\<close>

definition sel_best :: "('a \<Rightarrow> int) \<Rightarrow> 'a list \<Rightarrow> nat \<Rightarrow> nat" where
  "sel_best key xs a = fold (\<lambda>b best. if key (xs ! b) < key (xs ! best) then b else best) [a + 1..<length xs] a"

definition sel_step :: "('a \<Rightarrow> int) \<Rightarrow> nat \<Rightarrow> 'a list \<Rightarrow> 'a list" where
  "sel_step key a xs = (let b = sel_best key xs a in xs[a := xs ! b, b := xs ! a])"

definition sel_sort :: "('a \<Rightarrow> int) \<Rightarrow> 'a list \<Rightarrow> 'a list" where
  "sel_sort key xs = fold (sel_step key) [0..<length xs] xs"

definition phase_bindings :: "descriptor \<Rightarrow> phase \<Rightarrow> binding list" where
  "phase_bindings d ph = take 16 (filter (\<lambda>b. bn_phase b = ph) (ds_bindings d))"

type_synonym 'w firings = "'w \<times> nat"

definition fire :: "(restore_op \<Rightarrow> 'w \<Rightarrow> 'w) \<Rightarrow> binding \<Rightarrow> 'w firings \<Rightarrow> 'w firings" where
  "fire exec b s = (case bn_op b of None \<Rightarrow> s | Some f \<Rightarrow> (exec f (fst s), snd s + 1))"

definition run_descriptor_phase :: "(restore_op \<Rightarrow> 'w \<Rightarrow> 'w) \<Rightarrow> descriptor \<Rightarrow> phase \<Rightarrow> 'w firings \<Rightarrow> 'w firings" where
  "run_descriptor_phase exec d ph s =
     (if \<not> active d then s else fold (fire exec) (sel_sort bn_order (phase_bindings d ph)) s)"

definition registry_run :: "(restore_op \<Rightarrow> 'w \<Rightarrow> 'w) \<Rightarrow> string \<Rightarrow> phase \<Rightarrow> 'w firings \<Rightarrow> 'w firings" where
  "registry_run exec nm ph s =
     (case List.find (\<lambda>d. ds_name d = nm) descriptors of None \<Rightarrow> s | Some d \<Rightarrow> run_descriptor_phase exec d ph s)"

definition run_phase :: "(restore_op \<Rightarrow> 'w \<Rightarrow> 'w) \<Rightarrow> phase \<Rightarrow> 'w firings \<Rightarrow> 'w firings" where
  "run_phase exec ph s = fold (\<lambda>d. run_descriptor_phase exec d ph) descriptors s"

definition ops_fired_and_reset :: "'w firings \<Rightarrow> nat \<times> 'w firings" where
  "ops_fired_and_reset s = (snd s, (fst s, 0))"

text \<open>The regions the render exclusion registers; without a module or a region it clears them.\<close>

definition rederive_regions :: "nat \<Rightarrow> arena \<Rightarrow> gmem \<Rightarrow> (nat \<times> nat) list" where
  "rederive_regions md ar m =
     (if md = 0 then []
      else
        let sr = rd64 m (md + 0xE179A8); hz = ar_base ar + ARENA_SIZE - 256 * 1024 * 1024
        in (if sr \<noteq> 0 \<and> is_arena_addr ar sr then [(sr, 0x889838)] else [])
           @ (if is_arena_addr ar hz then [(hz, 256 * 1024 * 1024)] else []))"

section \<open>Preserved values come back\<close>

lemma restore_handle_eq: "v < 2 ^ 64 \<Longrightarrow> rd64 (restore_handle (a, v) m) a = v"
  by (auto simp: restore_handle_def c64.rd_wr)

lemma restore_handle_other: "apart a 8 b 8 \<Longrightarrow> rd64 (restore_handle (b, v) m) a = rd64 m a"
  by (simp add: restore_handle_def c64.rd_other)

text \<open>Cells that are the same or do not overlap.\<close>

definition cells_apart :: "nat list \<Rightarrow> bool" where
  "cells_apart as \<longleftrightarrow> (\<forall>a \<in> set as. \<forall>b \<in> set as. a = b \<or> apart a 8 b 8)"

lemma fold_restore:
  assumes "cells_apart (map fst es)" "\<forall>e \<in> set es. snd e = rd64 m0 (fst e)"
  shows "(\<forall>a. a \<in> fst ` set es \<longrightarrow> rd64 (fold restore_handle es m) a = rd64 m0 a) \<and>
    (\<forall>x. (\<forall>a \<in> fst ` set es. x < a \<or> a + 8 \<le> x) \<longrightarrow> fold restore_handle es m x = m x)"
  using assms
proof (induction es rule: rev_induct)
  case (snoc e es)
  obtain b v where e: "e = (b, v)" "v = rd64 m0 b" using snoc.prems(2) by (cases e) simp
  have ca: "cells_apart (map fst es)" using snoc.prems(1) by (simp add: cells_apart_def)
  define m1 where "m1 = fold restore_handle es m"
  have IH: "\<And>a. a \<in> fst ` set es \<Longrightarrow> rd64 m1 a = rd64 m0 a"
    "\<And>x. \<forall>a \<in> fst ` set es. x < a \<or> a + 8 \<le> x \<Longrightarrow> m1 x = m x"
    using snoc.IH [OF ca] snoc.prems(2) by (simp_all add: m1_def)
  have "rd64 (restore_handle (b, v) m1) a = rd64 m0 a" if "a \<in> fst ` set (es @ [e])" for a
  proof (cases "a = b")
    case True
    then show ?thesis using e(2) restore_handle_eq [OF c64.rd_less] by simp
  next
    case False
    then have "a \<in> fst ` set es" "apart a 8 b 8" using that snoc.prems(1) by (auto simp: cells_apart_def e)
    then show ?thesis by (simp add: restore_handle_other IH(1))
  qed
  moreover have "restore_handle (b, v) m1 x = m x" if "\<forall>a \<in> fst ` set (es @ [e]). x < a \<or> a + 8 \<le> x" for x
  proof -
    have "x < b \<or> b + 8 \<le> x" using that by (simp add: e)
    then show ?thesis using that by (simp add: restore_handle_def IH(2) c64.wr_outside)
  qed
  ultimately show ?case by (simp add: e(1) m1_def)
qed simp

text \<open>
  Preserved handles survive a load: whatever memory the load leaves, the restore puts the values of the
  save back into every registered cell and touches nothing else.
\<close>
theorem handles_survive_load:
  assumes "cells_apart (map fst (hp_entries (hp_save base ar m st)))"
  shows "(\<forall>a. a \<in> fst ` set (hp_entries (hp_save base ar m st)) \<longrightarrow> rd64 (hp_restore (hp_save base ar m st) m') a = rd64 m a)
    \<and> (\<forall>x. (\<forall>a \<in> fst ` set (hp_entries (hp_save base ar m st)). x < a \<or> a + 8 \<le> x) \<longrightarrow>
          hp_restore (hp_save base ar m st) m' x = m' x)"
proof -
  have "\<forall>e \<in> set (hp_entries (hp_save base ar m st)). snd e = rd64 m (fst e)" by (auto simp: hp_save_def Let_def)
  from fold_restore [OF assms this] show ?thesis by (simp add: hp_restore_def)
qed

text \<open>
  Registration that meets no renderer goes wrong: the first save then registers the scheduler's cells, is
  taken again at the next save, and the renderer's base is read off the first entry ever made, so it is
  answered with the scheduler's address.
\<close>
theorem srender_misresolved:
  assumes "hp_srender base m1 = 0" "hp_sunit base m1 = su" "su \<noteq> 0" "is_arena_addr ar su"
    and "hp_srender base m2 = sr" "sr \<noteq> 0" "hp_sunit base m2 = su" "sr \<noteq> su"
  shows "let st = hp_save base ar m2 (hp_save base ar m1 hp_init)
         in hp_registered st \<and> get_srender st = su \<and> get_srender st \<noteq> sr \<and> \<not> distinct (map fst (hp_entries st))"
proof -
  have 1: "hp_save base ar m1 hp_init = \<lparr>hp_entries = [(su + 8, rd64 m1 (su + 8)), (su + 0x20, rd64 m1 (su + 0x20))], hp_registered = False\<rparr>"
    using assms(1-4) by (simp add: hp_save_def register_srender_def register_singleton_cs_def add_entry_def hp_init_def Let_def)
  define st1 where "st1 = register_srender base m2 (hp_save base ar m1 hp_init)"
  have st1: "map fst (hp_entries st1) = [su + 8, su + 0x20] @ map ((+) sr) SRENDER_OFFSETS" "hp_registered st1"
    using assms(5,6) by (simp_all add: st1_def 1 register_srender_def SRENDER_OFFSETS_def add_entry_def Let_def)
  have len: "length (hp_entries st1) = 16"
    using arg_cong [OF st1(1), of length] by (simp add: SRENDER_OFFSETS_def)
  define st2 where "st2 = register_singleton_cs base ar m2 st1"
  have st2: "map fst (hp_entries st2) = map fst (hp_entries st1) @ (if is_arena_addr ar sr then [sr + 0x20] else []) @ [su + 8, su + 0x20]"
    "hp_registered st2"
    using assms(3-7) len st1(2) by (simp_all add: st2_def register_singleton_cs_def add_entry_def Let_def)
  define st where "st = hp_save base ar m2 (hp_save base ar m1 hp_init)"
  have "\<not> hp_registered (hp_save base ar m1 hp_init)" by (simp add: 1)
  then have st: "st = st2\<lparr>hp_entries := map (\<lambda>(a, _). (a, rd64 m2 a)) (hp_entries st2)\<rparr>"
    unfolding st_def hp_save_def [of base ar m2] by (simp add: Let_def st1_def [symmetric] st2_def [symmetric])
  have ents: "map fst (hp_entries st) = map fst (hp_entries st2)" by (simp add: st case_prod_beta)
  have "map fst (hp_entries st) = (su + 8) # tl (map fst (hp_entries st))" by (simp add: ents st2 st1)
  then have "fst (hp_entries st ! 0) = su + 8" by (cases "hp_entries st") simp_all
  then have "get_srender st = su" using st2(2) by (simp add: get_srender_def SRENDER_OFFSETS_def st)
  moreover have "\<not> distinct (map fst (hp_entries st))" by (simp add: ents st2 st1)
  moreover have "hp_registered st" using st2(2) by (simp add: st)
  ultimately show ?thesis using assms(8) by (simp add: st_def Let_def)
qed

definition hp_mem :: "nat \<Rightarrow> gmem" where
  "hp_mem sr = wr64 0xE17698 0x600000 (wr64 0xE179A8 sr (\<lambda>_. 0))"

lemma hp_mem_reads: "sr < 2 ^ 64 \<Longrightarrow> hp_srender 0 (hp_mem sr) = sr" "hp_sunit 0 (hp_mem sr) = 0x600000"
  by (simp_all add: hp_srender_def hp_sunit_def hp_mem_def resolve_def IMAGE_BASE_def mem_simps apart_def)

lemma srender_misresolved_witness:
  "get_srender (hp_save 0 arena_demo (hp_mem 0x900000) (hp_save 0 arena_demo (hp_mem 0) hp_init)) = 0x600000"
proof -
  have "hp_srender 0 (hp_mem 0) = 0" "hp_sunit 0 (hp_mem 0) = 0x600000" "(0x600000::nat) \<noteq> 0" "is_arena_addr arena_demo 0x600000"
    "hp_srender 0 (hp_mem 0x900000) = 0x900000" "(0x900000::nat) \<noteq> 0" "hp_sunit 0 (hp_mem 0x900000) = 0x600000"
    "(0x900000::nat) \<noteq> 0x600000"
    by (simp_all add: hp_mem_reads is_arena_addr_def arena_demo_def ARENA_SIZE_def)
  from srender_misresolved [OF this] show ?thesis by (simp add: Let_def)
qed

lemma handles_survive_load_witness:
  "rd64 (hp_restore (hp_save 0 arena_demo (hp_mem 0) hp_init) (\<lambda>_. 0)) 0x600008 = rd64 (hp_mem 0) 0x600008"
proof -
  have 1: "map fst (hp_entries (hp_save 0 arena_demo (hp_mem 0) hp_init)) = [0x600008, 0x600020]"
    by (simp add: hp_save_def register_srender_def register_singleton_cs_def add_entry_def hp_init_def Let_def
        hp_mem_reads is_arena_addr_def arena_demo_def ARENA_SIZE_def)
  have "cells_apart (map fst (hp_entries (hp_save 0 arena_demo (hp_mem 0) hp_init)))"
    unfolding 1 by (simp add: cells_apart_def apart_def)
  moreover have "0x600008 \<in> fst ` set (hp_entries (hp_save 0 arena_demo (hp_mem 0) hp_init))"
    unfolding set_map [symmetric] 1 by simp
  ultimately show ?thesis using handles_survive_load by blast
qed

section \<open>The order of a phase\<close>

lemma sel_best_range: "a < length xs \<Longrightarrow> a \<le> sel_best key xs a \<and> sel_best key xs a < length xs"
proof -
  assume a: "a < length xs"
  have "a \<le> fold (\<lambda>b best. if key (xs ! b) < key (xs ! best) then b else best) bs c
      \<and> fold (\<lambda>b best. if key (xs ! b) < key (xs ! best) then b else best) bs c < length xs"
    if "\<forall>b \<in> set bs. a \<le> b \<and> b < length xs" "a \<le> c" "c < length xs" for bs c
    using that by (induction bs arbitrary: c) auto
  from this [of "[a + 1..<length xs]" a] a show ?thesis by (simp add: sel_best_def)
qed

lemma sel_best_least:
  assumes "a < length xs" "a \<le> b" "b < length xs"
  shows "key (xs ! sel_best key xs a) \<le> key (xs ! b)"
proof -
  have "key (xs ! fold (\<lambda>b best. if key (xs ! b) < key (xs ! best) then b else best) bs c) \<le> key (xs ! c) \<and>
     (\<forall>b \<in> set bs. key (xs ! fold (\<lambda>b best. if key (xs ! b) < key (xs ! best) then b else best) bs c) \<le> key (xs ! b))" for bs c
  proof (induction bs arbitrary: c)
    case (Cons b bs)
    show ?case using Cons [of "if key (xs ! b) < key (xs ! c) then b else c"] by (auto split: if_splits)
  qed simp
  from this [of "[a + 1..<length xs]" a] assms show ?thesis
    by (cases "b = a") (auto simp: sel_best_def)
qed

lemma sel_step_length [simp]: "length (sel_step key a xs) = length xs"
  by (simp add: sel_step_def Let_def)

lemma sel_step_mset: "a < length xs \<Longrightarrow> mset (sel_step key a xs) = mset xs"
  using sel_best_range [of a xs key] by (simp add: sel_step_def Let_def mset_swap)

lemma sel_step_nth:
  assumes "a < length xs" "i < length xs"
  shows "sel_step key a xs ! i = (if i = sel_best key xs a then xs ! a else if i = a then xs ! sel_best key xs a else xs ! i)"
  using assms sel_best_range [OF assms(1), of key] by (simp add: sel_step_def Let_def nth_list_update)

text \<open>After \<open>a\<close> steps the first \<open>a\<close> elements are in order and below the rest.\<close>

definition settled :: "('a \<Rightarrow> int) \<Rightarrow> nat \<Rightarrow> 'a list \<Rightarrow> bool" where
  "settled key a xs \<longleftrightarrow> (\<forall>i j. i < j \<longrightarrow> j < length xs \<longrightarrow> i < a \<longrightarrow> key (xs ! i) \<le> key (xs ! j))"

lemma sel_step_settled:
  assumes "settled key a xs" "a < length xs"
  shows "settled key (Suc a) (sel_step key a xs)"
  unfolding settled_def
proof (intro allI impI)
  fix i j
  assume ij: "i < j" "j < length (sel_step key a xs)" "i < Suc a"
  define b where "b = sel_best key xs a"
  have b: "a \<le> b" "b < length xs" using sel_best_range [OF assms(2), of key] by (simp_all add: b_def)
  have least: "a \<le> c \<Longrightarrow> c < length xs \<Longrightarrow> key (xs ! b) \<le> key (xs ! c)" for c
    using sel_best_least [OF assms(2)] by (simp add: b_def)
  have n: "sel_step key a xs ! c = (if c = b then xs ! a else if c = a then xs ! b else xs ! c)" if "c < length xs" for c
    using sel_step_nth [OF assms(2) that] by (simp add: b_def)
  have st: "c < d \<Longrightarrow> d < length xs \<Longrightarrow> c < a \<Longrightarrow> key (xs ! c) \<le> key (xs ! d)" for c d
    using assms(1) by (simp add: settled_def)
  show "key (sel_step key a xs ! i) \<le> key (sel_step key a xs ! j)"
  proof (cases "i = a")
    case True
    then have i: "sel_step key a xs ! i = xs ! b" using n [of i] assms(2) by auto
    show ?thesis using ij True least b by (auto simp: i n)
  next
    case False
    then have "i < a" using ij(3) by simp
    then have "sel_step key a xs ! i = xs ! i" using n [of i] assms(2) b by auto
    then show ?thesis using ij \<open>i < a\<close> b assms(2) st by (auto simp: n)
  qed
qed

lemma sel_sort_settled: "n \<le> length xs \<Longrightarrow>
    settled key n (fold (sel_step key) [0..<n] xs) \<and> mset (fold (sel_step key) [0..<n] xs) = mset xs
    \<and> length (fold (sel_step key) [0..<n] xs) = length xs"
proof (induction n)
  case (Suc n)
  then show ?case using sel_step_settled [of key n "fold (sel_step key) [0..<n] xs"]
      sel_step_mset [of n "fold (sel_step key) [0..<n] xs" key] by simp
qed (simp add: settled_def)

text \<open>
  A phase fires in order: of a descriptor's bindings for the phase, up to sixteen, each runs exactly once
  and in ascending order, and the tally grows by those that have an operation.
\<close>
theorem phase_fires_in_order:
  assumes "active d" "length (filter (\<lambda>b. bn_phase b = ph) (ds_bindings d)) \<le> 16"
  shows "\<exists>bs. run_descriptor_phase exec d ph s = fold (fire exec) bs s
     \<and> mset bs = mset (filter (\<lambda>b. bn_phase b = ph) (ds_bindings d)) \<and> sorted (map bn_order bs)
     \<and> snd (run_descriptor_phase exec d ph s) = snd s + length (filter (\<lambda>b. bn_op b \<noteq> None) bs)"
proof -
  define bs where "bs = sel_sort bn_order (phase_bindings d ph)"
  have "phase_bindings d ph = filter (\<lambda>b. bn_phase b = ph) (ds_bindings d)" using assms(2) by (simp add: phase_bindings_def)
  then have b: "settled bn_order (length bs) bs" "mset bs = mset (filter (\<lambda>b. bn_phase b = ph) (ds_bindings d))"
    using sel_sort_settled [of "length (phase_bindings d ph)" "phase_bindings d ph" bn_order]
    by (simp_all add: bs_def sel_sort_def)
  have "sorted (map bn_order bs)" using b(1) by (auto simp: settled_def sorted_iff_nth_mono_less)
  moreover have "snd (fold (fire exec) cs s) = snd s + length (filter (\<lambda>b. bn_op b \<noteq> None) cs)" for cs
    by (induction cs arbitrary: s) (auto simp: fire_def split: option.split)
  ultimately show ?thesis using b assms(1) by (auto simp: run_descriptor_phase_def bs_def [symmetric])
qed

text \<open>Ties are not kept: the swap carries an earlier binding behind a later one of the same order.\<close>

lemma sel_sort_not_stable:
  "sel_sort snd [(0::nat, 2::int), (1, 2), (2, 1)] = [(2, 1), (1, 2), (0, 2)]"
  by (simp add: sel_sort_def sel_step_def sel_best_def upt_conv_Cons)

lemma phase_fires_in_order_witness:
  "\<exists>bs. run_descriptor_phase (\<lambda>f w. w @ [f]) (descriptors ! 1) Ph_Post_Load ([], 0) = fold (fire (\<lambda>f w. w @ [f])) bs ([], 0)
    \<and> sorted (map bn_order bs)"
proof -
  have "active (descriptors ! 1)" "length (filter (\<lambda>b. bn_phase b = Ph_Post_Load) (ds_bindings (descriptors ! 1))) \<le> 16"
    by (simp_all add: active_def descriptors_def bind_def)
  from phase_fires_in_order [OF this] show ?thesis by blast
qed

end
