(* ===== verification/Checksum.thy ===== *)
theory Checksum
  imports Wire
begin

text \<open>
  The checksum of the determinism oracle, \<open>crc32_acc\<close> of \<open>src/src/gp_crc.cpp\<close>: chaining, linearity, and
  the errors it cannot miss.
\<close>

unbundle bit_operations_syntax

definition CRC_POLY :: u32 where "CRC_POLY = 0xEDB88320"

definition crc_bit :: "u32 \<Rightarrow> u32" where
  "crc_bit c = drop_bit 1 c XOR (CRC_POLY AND - (c AND 1))"

definition crc_byte :: "u8 \<Rightarrow> u32 \<Rightarrow> u32" where
  "crc_byte b c = (crc_bit ^^ 8) (c XOR ucast b)"

definition crc32_acc :: "u32 \<Rightarrow> u8 list \<Rightarrow> u32" where
  "crc32_acc c bs = NOT (fold crc_byte bs (NOT c))"

lemma xor_0_iff: "v XOR w = 0 \<longleftrightarrow> v = (w :: 'a :: len word)"
  by (metis xor.assoc xor.right_neutral xor_self_eq xor.left_neutral)

lemma xor_move:
  assumes "(a XOR x) XOR (b XOR y) = (w :: 'a :: len word)"
  shows "a XOR b = (x XOR y) XOR w"
  unfolding assms [symmetric] by (rule bit_word_eqI) (auto simp: bit_xor_iff)

section \<open>One bit\<close>

lemma crc_bit_alt: "crc_bit c = drop_bit 1 c XOR (if bit c 0 then CRC_POLY else 0)"
  by (simp add: crc_bit_def and_one_eq mod2_eq_if bit_0)

lemma poly_top: "bit CRC_POLY 31" by (simp add: CRC_POLY_def bit_word_iff_drop_bit_and)

lemma crc_bit_top: "bit (crc_bit c) 31 \<longleftrightarrow> bit c 0"
  by (auto simp: crc_bit_alt bit_xor_iff bit_drop_bit_eq poly_top dest: bit_imp_le_length)

lemma crc_bit_xor: "crc_bit (a XOR b) = crc_bit a XOR crc_bit b"
  by (rule bit_word_eqI) (auto simp: crc_bit_alt bit_xor_iff bit_drop_bit_eq)

lemma crc_bit_back:
  assumes "\<not> bit (crc_bit e) 31"
  shows "e = push_bit 1 (crc_bit e)"
proof -
  have z: "\<not> bit e 0" using assms by (simp add: crc_bit_top)
  then have d: "crc_bit e = drop_bit 1 e" by (simp add: crc_bit_alt)
  show ?thesis
  proof (rule bit_word_eqI)
    fix n assume "n < LENGTH(32)"
    then show "bit e n = bit (push_bit 1 (crc_bit e)) n"
      unfolding d bit_push_bit_iff bit_drop_bit_eq using z by (cases n) auto
  qed
qed

section \<open>Words that fit into a few bits\<close>

definition fits :: "nat \<Rightarrow> u32 \<Rightarrow> bool" where "fits k w \<longleftrightarrow> (\<forall>i. bit w i \<longrightarrow> i < k)"

lemma fits_push: "fits k w \<Longrightarrow> fits (k + n) (push_bit n w)"
  by (force simp: fits_def bit_push_bit_iff)

lemma fits_xor: "fits k v \<Longrightarrow> fits k w \<Longrightarrow> fits k (v XOR w)"
  by (auto simp: fits_def bit_xor_iff)

lemma fits_mono: "fits k w \<Longrightarrow> k \<le> l \<Longrightarrow> fits l w"
  by (force simp: fits_def)

lemma fits_byte: "fits 8 (ucast (b :: u8) :: u32)"
  by (auto simp: fits_def bit_ucast_iff dest: bit_imp_le_length)

lemma fits_not_top: "fits k w \<Longrightarrow> k \<le> 31 \<Longrightarrow> \<not> bit w 31"
  by (auto simp: fits_def)

lemma crc_bits_back:
  "fits k ((crc_bit ^^ n) e) \<Longrightarrow> k + n \<le> 32 \<Longrightarrow> e = push_bit n ((crc_bit ^^ n) e)"
proof (induction n arbitrary: k)
  case (Suc n)
  define d where "d = (crc_bit ^^ n) e"
  have f: "fits k (crc_bit d)" using Suc.prems(1) by (simp add: d_def)
  then have b: "d = push_bit 1 (crc_bit d)" using fits_not_top [OF f] Suc.prems(2) by (intro crc_bit_back) simp
  have "fits (k + 1) d" by (subst b) (rule fits_push [OF f])
  then have "e = push_bit n d" using Suc.IH [of "k + 1"] Suc.prems(2) by (simp add: d_def)
  also have "\<dots> = push_bit n (push_bit 1 (crc_bit d))" using b by simp
  finally show ?case by (simp add: push_bit_push_bit d_def)
qed simp

lemma crc_bits_xor: "(crc_bit ^^ n) (a XOR b) = (crc_bit ^^ n) a XOR (crc_bit ^^ n) b"
  by (induction n) (simp_all add: crc_bit_xor)

section \<open>Runs of bytes\<close>

fun le_word :: "u8 list \<Rightarrow> u32" where
  "le_word [] = 0"
| "le_word (b # bs) = ucast b XOR push_bit 8 (le_word bs)"

lemma fits_le_word: "fits (8 * length bs) (le_word bs)"
proof (induction bs)
  case Nil then show ?case by (simp add: fits_def)
next
  case (Cons b bs)
  have "fits (8 * length (b # bs)) (push_bit 8 (le_word bs))" using fits_push [OF Cons.IH, of 8] by (simp add: add.commute)
  moreover have "fits (8 * length (b # bs)) (ucast b)" by (rule fits_mono [OF fits_byte]) simp
  ultimately show ?case by (simp add: fits_xor)
qed

lemma le_word_0:
  "le_word bs = 0 \<Longrightarrow> length bs \<le> 4 \<Longrightarrow> list_all (\<lambda>b. b = 0) bs"
proof (induction bs)
  case (Cons b bs)
  have e: "bit (ucast b :: u32) n = bit (push_bit 8 (le_word bs)) n" for n
  proof -
    have "bit (le_word (b # bs)) n = False" using Cons.prems(1) by simp
    then show ?thesis by (simp add: bit_xor_iff)
  qed
  have lo: "b = 0"
  proof (rule bit_word_eqI)
    fix n assume "n < LENGTH(8)"
    then show "bit b n = bit 0 n" using e [of n] by (simp add: bit_ucast_iff bit_push_bit_iff)
  qed
  have "le_word bs = 0"
  proof (rule bit_word_eqI)
    fix n assume "n < LENGTH(32)"
    have "\<not> bit (le_word bs) n" if "n < 24" using e [of "n + 8"] that lo by (simp add: bit_push_bit_iff)
    moreover have "\<not> bit (le_word bs) n" if "\<not> n < 24"
      using fits_le_word [of bs] Cons.prems(2) that by (auto simp: fits_def)
    ultimately show "bit (le_word bs) n = bit 0 n" by auto
  qed
  with lo Cons show ?case by simp
qed simp

lemma crc_cancel:
  "length xs = length ys \<Longrightarrow> length xs \<le> 4 \<Longrightarrow> fold crc_byte xs c = fold crc_byte ys c' \<Longrightarrow>
   c XOR c' = le_word (map2 (XOR) xs ys)"
proof (induction xs ys arbitrary: c c' rule: list_induct2)
  case (Cons x xs y ys)
  let ?d = "le_word (map2 (XOR) xs ys)" and ?e = "(c XOR ucast x) XOR (c' XOR ucast y)"
  have "crc_byte x c XOR crc_byte y c' = ?d" using Cons.IH Cons.prems by simp
  then have i: "(crc_bit ^^ 8) ?e = ?d" unfolding crc_bits_xor crc_byte_def .
  have "fits 24 ?d" using fits_le_word [of "map2 (XOR) xs ys"] Cons.prems(1) Cons.hyps
    by (intro fits_mono [OF fits_le_word]) simp
  then have "?e = push_bit 8 ?d" using crc_bits_back [of 24 8 ?e] i by simp
  then have "c XOR c' = (ucast x XOR ucast y) XOR push_bit 8 ?d"
    by (rule xor_move)
  then show ?case by (simp add: unsigned_xor_eq)
qed simp

lemma crc_state_inj: "fold crc_byte xs c = fold crc_byte xs c' \<Longrightarrow> c = c'"
proof (induction xs arbitrary: c c')
  case (Cons x xs)
  have "crc_byte x c = crc_byte x c'" using Cons.IH [of "crc_byte x c" "crc_byte x c'"] Cons.prems by simp
  then have "fold crc_byte [x] c = fold crc_byte [x] c'" by simp
  from crc_cancel [OF refl _ this] show ?case by (simp add: xor_0_iff)
qed simp

lemma crc_burst:
  assumes "length xs = length ys" "length xs \<le> 4" "fold crc_byte xs c = fold crc_byte ys c"
  shows "xs = ys"
proof -
  have "list_all (\<lambda>b. b = 0) (map2 (XOR) xs ys)"
    using crc_cancel [OF assms] assms(1,2) by (intro le_word_0) simp_all
  then have "xs ! i = ys ! i" if "i < length xs" for i
    using that assms(1) by (simp add: list_all_length xor_0_iff)
  then show ?thesis using assms(1) by (intro nth_equalityI)
qed

section \<open>The checksum\<close>

lemma crc32_chain: "crc32_acc (crc32_acc c xs) ys = crc32_acc c (xs @ ys)"
  by (simp add: crc32_acc_def)

lemma crc32_inj: "crc32_acc c xs = crc32_acc c' xs \<Longrightarrow> c = c'"
  by (metis crc32_acc_def crc_state_inj bit.double_compl)

lemma crc32_burst:
  assumes "length xs = length ys" "length xs \<le> 4" "xs \<noteq> ys"
  shows "crc32_acc c (us @ xs @ vs) \<noteq> crc32_acc c (us @ ys @ vs)"
proof
  assume "crc32_acc c (us @ xs @ vs) = crc32_acc c (us @ ys @ vs)"
  then have "crc32_acc (crc32_acc (crc32_acc c us) xs) vs = crc32_acc (crc32_acc (crc32_acc c us) ys) vs"
    by (simp add: crc32_chain)
  then have "crc32_acc (crc32_acc c us) xs = crc32_acc (crc32_acc c us) ys" by (rule crc32_inj)
  then have "fold crc_byte xs (NOT (crc32_acc c us)) = fold crc_byte ys (NOT (crc32_acc c us))"
    unfolding crc32_acc_def [of "crc32_acc c us"] by (metis bit.double_compl)
  from crc_burst [OF assms(1,2) this] assms(3) show False by simp
qed

end
