(* ===== verification/Crc_Oracle.thy ===== *)
theory Crc_Oracle
  imports Checksum Game_Memory
begin

text \<open>
  The determinism oracle, \<open>src/src/gp_crc.cpp\<close>: checksums of the gameplay state recorded at each forward
  save and compared after each replayed frame, in one channel per kind of state; and the canary, which
  compares the number of random draws. Who drew, and the raw bodies kept for the log, are left out.
\<close>

record gc_env =
  gc_base :: nat
  gc_arena :: arena
  gc_readable :: "nat \<Rightarrow> nat \<Rightarrow> bool"

definition FIGHTER_SEGS :: "(nat \<times> nat) list" where
  "FIGHTER_SEGS =
   [(0x000, 0x028), (0x02C, 0x050), (0x070, 0x080), (0x0A4, 0x0B0), (0x0C0, 0x0C8), (0x0E4, 0x0F0),
    (0x100, 0x130), (0x140, 0x18C), (0x196, 0x1B0), (0x220, 0x278), (0x67C, 0x680), (0x6B0, 0x72E),
    (0x750, 0x838), (0x40E0, 0x4138), (0x4150, 0x4188), (0x6370, 0x6380), (0x6398, 0x639C), (0x63DC, 0x63E8), (0x63EC, 0x63FC)]"

definition ANIM_SEED :: "(nat \<times> nat) list" where
  "ANIM_SEED = [(0x08, 0x18), (0x1c, 0x20), (0x40, 0x50), (0x54, 0x60), (0x6c, 0x80), (0x168, 0x16c)]"

record singleton =
  sg_root :: nat
  sg_vtable :: nat
  sg_ranges :: "(nat \<times> nat) list"

definition sge :: "nat \<Rightarrow> nat \<Rightarrow> singleton" where
  "sge a b = \<lparr>sg_root = 0x140D46470, sg_vtable = 0x140A87E40, sg_ranges = [(a, b)]\<rparr>"

definition SINGLETONS :: "singleton list" where
  "SINGLETONS =
   [sge 0x0000 0x0300, sge 0x0300 0x0600, sge 0x0600 0x0900, sge 0x0900 0x0C00, sge 0x0C00 0x0F00,
    sge 0x0F00 0x1200, sge 0x1200 0x1500, sge 0x1500 0x1800, sge 0x1800 0x1B00, sge 0x1B00 0x1D50,
    \<lparr>sg_root = 0x140D47E68, sg_vtable = 0x140A92D00, sg_ranges = [(0x000, 0x08E0)]\<rparr>,
    \<lparr>sg_root = 0x140D44A70, sg_vtable = 0x140A6FC70, sg_ranges = [(0x000, 0x0040), (0x600, 0x2600)]\<rparr>]"

section \<open>The channels\<close>

text \<open>A range of scalars: eight bytes at a time, a slot that holds an arena pointer left out.\<close>

function crc_slots :: "arena \<Rightarrow> gmem \<Rightarrow> nat \<Rightarrow> nat \<Rightarrow> nat \<Rightarrow> u32 \<Rightarrow> u32" where
  "crc_slots ar m base off b crc =
     (if off + 8 \<le> b
      then crc_slots ar m base (off + 8) b
             (if is_arena_addr ar (rd64 m (base + off)) then crc else crc32_acc crc (peek_bytes (base + off) 8 m))
      else if off < b then crc32_acc crc (peek_bytes (base + off) (b - off) m) else crc)"
  by pat_completeness auto
termination by (relation "measure (\<lambda>(ar, m, base, off, b, crc). b - off)") auto

declare crc_slots.simps [simp del]

definition crc_range_ptr_aware :: "gc_env \<Rightarrow> gmem \<Rightarrow> nat \<Rightarrow> nat \<times> nat \<Rightarrow> u32 \<Rightarrow> u32" where
  "crc_range_ptr_aware c m base r crc = crc_slots (gc_arena c) m base (fst r) (snd r) crc"

fun walk16 :: "arena \<Rightarrow> gmem \<Rightarrow> (nat \<Rightarrow> 's \<Rightarrow> 's) \<Rightarrow> nat \<Rightarrow> nat \<Rightarrow> 's \<Rightarrow> 's" where
  "walk16 ar m body 0 ent s = s"
| "walk16 ar m body (Suc k) ent s =
     (if ent \<noteq> 0 \<and> is_committed_addr ar ent then walk16 ar m body k (rd64 m (ent + 0x20)) (body ent s) else s)"

definition gp_sunit :: "gc_env \<Rightarrow> gmem \<Rightarrow> nat option" where
  "gp_sunit c m =
     (let sp = resolve (gc_base c) 0x140E17698; su = rd64 m sp in
      if sp = 0 \<or> su = 0 \<or> \<not> is_committed_addr (gc_arena c) su then None else Some su)"

text \<open>The fighters hang on the scheduler's lines 7 and 8; a bone count from 1 to 300 tells them.\<close>

definition over_fighters :: "gc_env \<Rightarrow> gmem \<Rightarrow> (nat \<Rightarrow> 's \<Rightarrow> 's) \<Rightarrow> 's \<Rightarrow> 's" where
  "over_fighters c m body s =
     (case gp_sunit c m of None \<Rightarrow> s
      | Some su \<Rightarrow> fold (\<lambda>line. walk16 (gc_arena c) m body 16 (rd64 m (su + 0x58 + line * 0x30))) [7, 8] s)"

definition bone_count :: "gmem \<Rightarrow> nat \<Rightarrow> nat" where "bone_count m ent = rd32 m (ent + 0x530)"
definition is_fighter :: "gmem \<Rightarrow> nat \<Rightarrow> bool" where "is_fighter m ent \<longleftrightarrow> bone_count m ent \<noteq> 0 \<and> bone_count m ent \<le> 300"

definition seg_body :: "gc_env \<Rightarrow> gmem \<Rightarrow> nat \<Rightarrow> u32 list \<Rightarrow> u32 list" where
  "seg_body c m ent out =
     (if is_fighter m ent \<and> list_all (\<lambda>d. is_committed_addr (gc_arena c) (ent + d)) [0x2000, 0x4000, 0x6000, 0x63FF]
      then map2 (\<lambda>r crc. crc_range_ptr_aware c m ent r crc) FIGHTER_SEGS out else out)"

definition compute_fighter_segs :: "gc_env \<Rightarrow> gmem \<Rightarrow> u32 list" where
  "compute_fighter_segs c m = over_fighters c m (seg_body c m) (replicate (length FIGHTER_SEGS) 0)"

definition anim_body :: "gc_env \<Rightarrow> gmem \<Rightarrow> nat \<Rightarrow> u32 \<Rightarrow> u32" where
  "anim_body c m ent crc =
     (if is_fighter m ent \<and> is_committed_addr (gc_arena c) (ent + 0x560) \<and> is_committed_addr (gc_arena c) (ent + 0x2000)
      then for_range 0 (min 16 (rd32 m (ent + 0x554)))
             (\<lambda>i. fold (crc_range_ptr_aware c m (ent + 0x560 + i * 0x180)) ANIM_SEED) crc
      else crc)"

definition compute_anim_crc :: "gc_env \<Rightarrow> gmem \<Rightarrow> u32" where
  "compute_anim_crc c m = over_fighters c m (anim_body c m) 0"

text \<open>An array behind a pointer of the fighter, with its length, stride and range.\<close>

definition array_body :: "gc_env \<Rightarrow> gmem \<Rightarrow> nat \<Rightarrow> nat \<Rightarrow> nat \<Rightarrow> nat \<times> nat \<Rightarrow> nat \<Rightarrow> u32 \<Rightarrow> u32" where
  "array_body c m off n stride r ent crc =
     (let ar = gc_arena c; p = rd64 m (ent + off) in
      if is_committed_addr ar (ent + off) \<and> p \<noteq> 0 \<and> is_committed_addr ar p \<and> is_committed_addr ar (p + n * stride - 1)
      then for_range 0 n (\<lambda>i. crc_range_ptr_aware c m (p + i * stride) r) crc else crc)"

definition bone_body :: "gc_env \<Rightarrow> gmem \<Rightarrow> nat \<Rightarrow> u32 \<Rightarrow> u32" where
  "bone_body c m ent crc =
     (if is_fighter m ent then array_body c m 0x538 (bone_count m ent) 0xC0 (0x60, 0xA4) ent crc else crc)"

definition compute_bone_crc :: "gc_env \<Rightarrow> gmem \<Rightarrow> u32" where
  "compute_bone_crc c m = over_fighters c m (bone_body c m) 0"

definition override_body :: "gc_env \<Rightarrow> gmem \<Rightarrow> nat \<Rightarrow> u32 \<Rightarrow> u32" where
  "override_body c m ent crc =
     (let n = bone_count m ent mod 256 in
      if is_fighter m ent \<and> n \<noteq> 0 then array_body c m 0x11B0 n 0x40 (0x00, 0x08) ent crc else crc)"

definition compute_override_crc :: "gc_env \<Rightarrow> gmem \<Rightarrow> u32" where
  "compute_override_crc c m = over_fighters c m (override_body c m) 0"

definition compute_dispatch_crc :: "gc_env \<Rightarrow> gmem \<Rightarrow> u32" where
  "compute_dispatch_crc c m =
     (case gp_sunit c m of None \<Rightarrow> 0
      | Some su \<Rightarrow>
          if \<not> is_committed_addr (gc_arena c) (su + 0xC50) \<or> \<not> is_committed_addr (gc_arena c) (su + 0xC50 + 64 * 0x30 - 1) then 0
          else for_range 0 64 (\<lambda>g. crc_range_ptr_aware c m (su + 0xC50 + g * 0x30) (0x08, 0x11)) 0)"

definition singleton_crc :: "gc_env \<Rightarrow> gmem \<Rightarrow> singleton \<Rightarrow> u32" where
  "singleton_crc c m sg =
     (let rootp = resolve (gc_base c) (sg_root sg); root = rd64 m rootp;
          maxend = fold (\<lambda>r e. max (snd r) e) (sg_ranges sg) 0 in
      if rootp = 0 \<or> \<not> gc_readable c rootp 8 then 0
      else if root = 0 \<or> \<not> is_committed_addr (gc_arena c) root \<or> \<not> gc_readable c root 8 then 0
      else if rd64 m root \<noteq> resolve (gc_base c) (sg_vtable sg) then 0
      else if maxend \<noteq> 0 \<and> \<not> is_committed_addr (gc_arena c) (root + maxend - 1) then 0
      else fold (crc_range_ptr_aware c m root) (sg_ranges sg) 0)"

definition compute_singleton_segs :: "gc_env \<Rightarrow> gmem \<Rightarrow> u32 list" where
  "compute_singleton_segs c m = map (singleton_crc c m) SINGLETONS"

section \<open>The oracle\<close>

record gp_range =
  gr_ida :: nat
  gr_size :: nat
  gr_gameplay :: bool

record gp_slot =
  gs_frame :: int
  gs_valid :: bool
  gs_crc :: u32
  gs_per :: "nat \<Rightarrow> u32"
  gs_draws :: nat
  gs_fseg :: "u32 list"
  gs_anim :: u32
  gs_bone :: u32
  gs_override :: u32
  gs_dispatch :: u32
  gs_sseg :: "u32 list"

record gp_oracle =
  go_ranges :: "gp_range list"
  go_ring :: "nat \<Rightarrow> gp_slot"
  go_off :: bool
  go_draws :: nat
  go_record :: nat
  go_check :: nat
  go_match :: nat
  go_diverge :: nat
  go_miss :: nat
  go_rederive :: nat
  go_fdiv :: nat
  go_animdiv :: nat
  go_bonediv :: nat
  go_overdiv :: nat
  go_dispdiv :: nat
  go_sdiv :: "nat list"
  go_last :: int

definition MAX_RANGES :: nat where "MAX_RANGES = 64"
definition GP_RING :: nat where "GP_RING = 1024"

definition gp_index :: "int \<Rightarrow> nat" where "gp_index f = nat (f mod int GP_RING)"

definition register_range_ex :: "nat \<Rightarrow> nat \<Rightarrow> bool \<Rightarrow> gp_oracle \<Rightarrow> gp_oracle" where
  "register_range_ex ida n gp st =
     (if length (go_ranges st) < MAX_RANGES
      then st\<lparr>go_ranges := go_ranges st @ [\<lparr>gr_ida = ida, gr_size = n, gr_gameplay = gp\<rparr>]\<rparr> else st)"

definition register_range :: "nat \<Rightarrow> nat \<Rightarrow> gp_oracle \<Rightarrow> gp_oracle" where
  "register_range ida n = register_range_ex ida n True"

definition gp_init :: gp_oracle where
  "gp_init =
     (let s = \<lparr>gs_frame = -1, gs_valid = False, gs_crc = 0, gs_per = (\<lambda>_. 0), gs_draws = 0, gs_fseg = replicate 19 0,
               gs_anim = 0, gs_bone = 0, gs_override = 0, gs_dispatch = 0, gs_sseg = replicate 12 0\<rparr>;
          st = \<lparr>go_ranges = [], go_ring = (\<lambda>_. s), go_off = True, go_draws = 0, go_record = 0, go_check = 0, go_match = 0,
                go_diverge = 0, go_miss = 0, go_rederive = 0, go_fdiv = 0, go_animdiv = 0, go_bonediv = 0, go_overdiv = 0,
                go_dispdiv = 0, go_sdiv = replicate 12 0, go_last = -1\<rparr>
      in register_range_ex 0x140E1C008 8 True (register_range_ex 0x140E1B708 8 True (register_range_ex 0x140D765D8 16 False st)))"

definition gp_set_off :: "bool \<Rightarrow> gp_oracle \<Rightarrow> gp_oracle" where "gp_set_off v st = st\<lparr>go_off := v\<rparr>"

definition gp_draw :: "gp_oracle \<Rightarrow> gp_oracle" where "gp_draw st = st\<lparr>go_draws := go_draws st + 1\<rparr>"

definition range_crc :: "gc_env \<Rightarrow> gmem \<Rightarrow> gp_range \<Rightarrow> u32" where
  "range_crc c m r =
     (let a = resolve (gc_base c) (gr_ida r)
      in if gc_readable c a (gr_size r) then crc32_acc 0 (peek_bytes a (gr_size r) m) else 0)"

text \<open>The alarm checksum over the gameplay ranges, and the checksum of each range.\<close>

definition gp_compute :: "gc_env \<Rightarrow> gmem \<Rightarrow> gp_range list \<Rightarrow> u32 \<times> u32 list" where
  "gp_compute c m rs =
     (fold (\<lambda>r comb. if gr_gameplay r then crc32_acc comb (enc32 (range_crc c m r)) else comb) rs 0,
      map (range_crc c m) rs)"

definition gp_record :: "gc_env \<Rightarrow> gmem \<Rightarrow> int \<Rightarrow> gp_oracle \<Rightarrow> gp_oracle" where
  "gp_record c m f st =
     (if go_off st \<or> go_ranges st = [] then st
      else
        let (crc, per) = gp_compute c m (go_ranges st); k = gp_index f; s0 = go_ring st k;
            s = s0\<lparr>gs_frame := f, gs_valid := True, gs_crc := crc,
                   gs_fseg := compute_fighter_segs c m, gs_anim := compute_anim_crc c m, gs_bone := compute_bone_crc c m,
                   gs_override := compute_override_crc c m, gs_dispatch := compute_dispatch_crc c m,
                   gs_sseg := compute_singleton_segs c m,
                   gs_per := (\<lambda>i. if i < length per then per ! i else gs_per s0 i), gs_draws := go_draws st\<rparr>
        in st\<lparr>go_ring := (go_ring st)(k := s), go_draws := 0, go_record := go_record st + 1\<rparr>)"

text \<open>The channels beside the alarm count each difference.\<close>

definition mismatches :: "u32 list \<Rightarrow> u32 list \<Rightarrow> nat" where
  "mismatches xs ys = length (filter (\<lambda>(x, y). x \<noteq> y) (zip xs ys))"

definition check_channels :: "gc_env \<Rightarrow> gmem \<Rightarrow> gp_slot \<Rightarrow> gp_oracle \<Rightarrow> gp_oracle" where
  "check_channels c m s st =
     st\<lparr>go_fdiv := go_fdiv st + mismatches (compute_fighter_segs c m) (gs_fseg s),
        go_animdiv := go_animdiv st + (if compute_anim_crc c m \<noteq> gs_anim s then 1 else 0),
        go_bonediv := go_bonediv st + (if compute_bone_crc c m \<noteq> gs_bone s then 1 else 0),
        go_overdiv := go_overdiv st + (if compute_override_crc c m \<noteq> gs_override s then 1 else 0),
        go_dispdiv := go_dispdiv st + (if compute_dispatch_crc c m \<noteq> gs_dispatch s then 1 else 0),
        go_sdiv := map2 (\<lambda>n (x, y). if x \<noteq> y then n + 1 else n) (go_sdiv st) (zip (compute_singleton_segs c m) (gs_sseg s))\<rparr>"

definition gp_check :: "gc_env \<Rightarrow> gmem \<Rightarrow> int \<Rightarrow> gp_oracle \<Rightarrow> gp_oracle" where
  "gp_check c m f st0 =
     (if go_off st0 \<or> go_ranges st0 = [] then st0
      else
        let (crc, per) = gp_compute c m (go_ranges st0);
            st = st0\<lparr>go_draws := 0, go_check := go_check st0 + 1\<rparr>; s = go_ring st (gp_index f) in
        if \<not> gs_valid s \<or> gs_frame s \<noteq> f then st\<lparr>go_miss := go_miss st + 1\<rparr>
        else
          let st1 = check_channels c m s st in
          if gs_crc s = crc
          then st1\<lparr>go_match := go_match st1 + 1,
                   go_rederive := go_rederive st1
                     + length (filter (\<lambda>i. \<not> gr_gameplay (go_ranges st1 ! i) \<and> gs_per s i \<noteq> per ! i) [0..<length per])\<rparr>
          else st1\<lparr>go_diverge := go_diverge st1 + 1, go_last := f\<rparr>)"

section \<open>The canary\<close>

record draw_slot =
  ds_frame :: int
  ds_draws :: nat
  ds_valid :: bool

record canary =
  cn_draws :: nat
  cn_render :: nat
  cn_ring :: "nat \<Rightarrow> draw_slot"
  cn_rring :: "nat \<Rightarrow> draw_slot"
  cn_checks :: nat
  cn_diverged :: nat
  cn_last :: int
  cn_rdiverged :: nat
  cn_rlast :: int

definition CANARY_RING :: nat where "CANARY_RING = 4096"

definition cn_index :: "int \<Rightarrow> nat" where "cn_index f = nat (f mod int CANARY_RING)"

definition draw_rva :: "nat \<Rightarrow> nat \<Rightarrow> u32" where
  "draw_rva base ret = (if base \<noteq> 0 \<and> base \<le> ret then of_nat (ret - base) else 0xFFFFFFFF)"

definition is_render_draw :: "u32 \<Rightarrow> bool" where "is_render_draw rva \<longleftrightarrow> 0x5D4000 \<le> rva \<and> rva < 0x5D5000"

definition canary_draw :: "u32 \<Rightarrow> canary \<Rightarrow> canary" where
  "canary_draw rva cn =
     (if is_render_draw rva then cn\<lparr>cn_render := cn_render cn + 1\<rparr> else cn\<lparr>cn_draws := cn_draws cn + 1\<rparr>)"

definition hk_rng_draw ::
  "nat \<Rightarrow> (gmem \<Rightarrow> gmem) \<Rightarrow> nat \<Rightarrow> nat \<Rightarrow> canary \<times> gp_oracle \<times> gmem \<Rightarrow> canary \<times> gp_oracle \<times> gmem" where
  "hk_rng_draw base orig state ret s =
     (case s of (cn, st, m) \<Rightarrow>
        if state = resolve base 0x140D765D8 then (canary_draw (draw_rva base ret) cn, gp_draw st, orig m) else (cn, st, orig m))"

definition canary_record :: "int \<Rightarrow> canary \<Rightarrow> canary" where
  "canary_record f cn =
     cn\<lparr>cn_rring := (cn_rring cn)(cn_index f := \<lparr>ds_frame = f, ds_draws = cn_render cn, ds_valid = True\<rparr>),
        cn_ring := (cn_ring cn)(cn_index f := \<lparr>ds_frame = f, ds_draws = cn_draws cn, ds_valid = True\<rparr>),
        cn_render := 0, cn_draws := 0\<rparr>"

definition canary_check :: "int \<Rightarrow> canary \<Rightarrow> canary" where
  "canary_check f cn =
     (let rs = cn_rring cn (cn_index f);
          cn1 = (if ds_valid rs \<and> ds_frame rs = f \<and> ds_draws rs \<noteq> cn_render cn
                 then cn\<lparr>cn_rdiverged := cn_rdiverged cn + 1, cn_rlast := f\<rparr> else cn);
          s = cn_ring cn (cn_index f);
          cn2 = cn1\<lparr>cn_render := 0, cn_draws := 0, cn_checks := cn_checks cn + 1\<rparr> in
      if \<not> ds_valid s \<or> ds_frame s \<noteq> f then cn2
      else if ds_draws s \<noteq> cn_draws cn then cn2\<lparr>cn_diverged := cn_diverged cn + 1, cn_last := f\<rparr>
      else cn2)"

end
