(* ===== verification/Crc_Oracle_Facts.thy ===== *)
theory Crc_Oracle_Facts
  imports Crc_Oracle
begin

text \<open>
  What the determinism oracle sees: a change of up to four bytes of the gameplay ranges raises the alarm,
  a relocated pointer is invisible, and the canary is exact or raises a false alarm according to the
  place in the tick from which the rollback starts.
\<close>

section \<open>The alarm\<close>

lemma crc32_window:
  assumes len: "length xs = length ys" and win: "\<And>i. i < length xs \<Longrightarrow> xs ! i \<noteq> ys ! i \<Longrightarrow> k \<le> i \<and> i < k + 4"
    and ne: "xs \<noteq> ys"
  shows "crc32_acc c xs \<noteq> crc32_acc c ys"
proof -
  have eq: "take k xs = take k ys" "drop (k + 4) xs = drop (k + 4) ys"
    using len win by (auto intro!: nth_equalityI simp: not_le) (metis less_irrefl_nat linorder_not_less, metis add.commute add_less_cancel_left less_diff_conv not_add_less1)
  let ?x = "take 4 (drop k xs)" and ?y = "take 4 (drop k ys)"
  have dx: "xs = take k xs @ ?x @ drop (k + 4) xs" and dy: "ys = take k xs @ ?y @ drop (k + 4) xs"
    by (metis add.commute append_take_drop_id drop_drop eq)+
  have "?x \<noteq> ?y" using dx dy ne by metis
  then show ?thesis using crc32_burst [of ?x ?y] len by (subst dx, subst dy) simp
qed

text \<open>The two ranges that feed the alarm.\<close>

definition alarm_cells :: "nat \<Rightarrow> (nat \<times> nat) list" where
  "alarm_cells base = [(resolve base 0x140E1B708, 8), (resolve base 0x140E1C008, 8)]"

lemma init_ranges:
  "go_ranges gp_init =
     [\<lparr>gr_ida = 0x140D765D8, gr_size = 16, gr_gameplay = False\<rparr>,
      \<lparr>gr_ida = 0x140E1B708, gr_size = 8, gr_gameplay = True\<rparr>, \<lparr>gr_ida = 0x140E1C008, gr_size = 8, gr_gameplay = True\<rparr>]"
  by (simp add: gp_init_def register_range_ex_def MAX_RANGES_def Let_def)

lemma alarm_crc:
  assumes "list_all (\<lambda>(a, n). gc_readable c a n) (alarm_cells (gc_base c))"
  shows "fst (gp_compute c m (go_ranges gp_init)) =
     crc32_acc (crc32_acc 0 (enc32 (crc32_acc 0 (peek_bytes (resolve (gc_base c) 0x140E1B708) 8 m))))
       (enc32 (crc32_acc 0 (peek_bytes (resolve (gc_base c) 0x140E1C008) 8 m)))"
  using assms by (simp add: gp_compute_def init_ranges range_crc_def alarm_cells_def)

lemma enc32_inj: "enc32 v = enc32 w \<longleftrightarrow> v = w" by (metis dec32_enc32)

definition inside :: "nat \<times> nat \<Rightarrow> nat \<Rightarrow> bool" where "inside r x \<longleftrightarrow> fst r \<le> x \<and> x < fst r + snd r"

lemma peek_window:
  assumes "\<And>x. x < w \<or> w + 4 \<le> x \<Longrightarrow> m' x = m x" "i < n" "peek_bytes a n m ! i \<noteq> peek_bytes a n m' ! i"
  shows "w - a \<le> i \<and> i < (w - a) + 4"
proof -
  have "m (a + i) \<noteq> m' (a + i)" using assms(2,3) by (simp add: peek_bytes_def)
  then have "w \<le> a + i \<and> a + i < w + 4" using assms(1) by (metis not_le)
  then show ?thesis by linarith
qed

lemma range_crc_window:
  assumes "\<And>x. x < w \<or> w + 4 \<le> x \<Longrightarrow> m' x = m x"
  shows "crc32_acc 0 (peek_bytes a n m') = crc32_acc 0 (peek_bytes a n m) \<longleftrightarrow> (\<forall>x. inside (a, n) x \<longrightarrow> m' x = m x)"
proof (cases "peek_bytes a n m = peek_bytes a n m'")
  case True
  then have "m (a + i) = m' (a + i)" if "i < n" for i using that by (auto simp: peek_bytes_def map_eq_conv)
  then have "m' x = m x" if "inside (a, n) x" for x
    using that by (metis add_diff_inverse_nat fst_conv inside_def nat_add_left_cancel_less not_le snd_conv)
  then show ?thesis using True by simp
next
  case False
  have "crc32_acc 0 (peek_bytes a n m) \<noteq> crc32_acc 0 (peek_bytes a n m')"
    by (rule crc32_window [where k = "w - a"]) (use peek_window [OF assms] False in auto)
  moreover have "\<exists>x. inside (a, n) x \<and> m' x \<noteq> m x"
  proof (rule ccontr)
    assume "\<not> ?thesis"
    then have "peek_bytes a n m = peek_bytes a n m'" by (intro peek_cong) (auto simp: inside_def)
    with False show False ..
  qed
  ultimately show ?thesis by auto
qed

lemma alarm_window:
  assumes "list_all (\<lambda>(a, n). gc_readable c a n) (alarm_cells (gc_base c))" "gc_base c < 2 ^ 48"
    and d: "\<And>x. x < w \<or> w + 4 \<le> x \<Longrightarrow> m' x = m x"
  shows "fst (gp_compute c m' (go_ranges gp_init)) = fst (gp_compute c m (go_ranges gp_init)) \<longleftrightarrow>
    \<not> (\<exists>r \<in> set (alarm_cells (gc_base c)). \<exists>x. inside r x \<and> m' x \<noteq> m x)"
proof -
  let ?a = "resolve (gc_base c) 0x140E1B708" and ?b = "resolve (gc_base c) 0x140E1C008"
  let ?A = "\<lambda>m. crc32_acc 0 (peek_bytes ?a 8 m)" and ?B = "\<lambda>m. crc32_acc 0 (peek_bytes ?b 8 m)"
  have apart: "?a + 8 \<le> ?b - 4" using assms(2) by (simp add: resolve_def IMAGE_BASE_def)
  have one: "?A m' = ?A m \<or> ?B m' = ?B m"
  proof (rule ccontr)
    assume n: "\<not> ?thesis"
    then obtain x y where "inside (?a, 8) x" "m' x \<noteq> m x" "inside (?b, 8) y" "m' y \<noteq> m y"
      using range_crc_window [OF d] by auto
    then have "w \<le> x" "y < w + 4" "x < ?a + 8" "?b \<le> y" using d by (auto simp: inside_def not_le [symmetric])
    then show False using apart by linarith
  qed
  have eqv: "crc32_acc (crc32_acc 0 (enc32 (?A m'))) (enc32 (?B m')) = crc32_acc (crc32_acc 0 (enc32 (?A m))) (enc32 (?B m))
    \<longleftrightarrow> ?A m' = ?A m \<and> ?B m' = ?B m" (is "?L \<longleftrightarrow> ?R")
  proof
    assume l: ?L
    show ?R
    proof (cases "?A m' = ?A m")
      case True
      then show ?thesis
        using l crc32_burst [of "enc32 (?B m')" "enc32 (?B m)" "crc32_acc 0 (enc32 (?A m))" "[]" "[]"] by (auto simp: enc32_inj)
    next
      case False
      then have "?B m' = ?B m" using one by simp
      then have "crc32_acc 0 (enc32 (?A m')) = crc32_acc 0 (enc32 (?A m))" using l crc32_inj by metis
      then show ?thesis
        using False crc32_burst [of "enc32 (?A m')" "enc32 (?A m)" 0 "[]" "[]"] by (auto simp: enc32_inj)
    qed
  qed simp
  have W: "crc32_acc 0 (peek_bytes a n m') = crc32_acc 0 (peek_bytes a n m) \<longleftrightarrow> (\<forall>x. inside (a, n) x \<longrightarrow> m' x = m x)" for a n
    by (rule range_crc_window) (rule d)
  show ?thesis
    unfolding alarm_crc [OF assms(1)] eqv W by (auto simp: alarm_cells_def)
qed

section \<open>The ring of the oracle\<close>

datatype gp_op = Rec gmem int | Chk gmem int | Draw | Arm bool

fun gp_step :: "gc_env \<Rightarrow> gp_op \<Rightarrow> gp_oracle \<Rightarrow> gp_oracle" where
  "gp_step c (Rec m f) = gp_record c m f"
| "gp_step c (Chk m f) = gp_check c m f"
| "gp_step c Draw = gp_draw"
| "gp_step c (Arm v) = gp_set_off (\<not> v)"

definition spares_slot :: "int \<Rightarrow> gp_op \<Rightarrow> bool" where
  "spares_slot f op = (case op of Rec m g \<Rightarrow> gp_index g \<noteq> gp_index f | _ \<Rightarrow> True)"

lemma gp_index_apart: "g \<noteq> f \<Longrightarrow> \<bar>g - f\<bar> < int GP_RING \<Longrightarrow> gp_index g \<noteq> gp_index f"
proof
  assume "g \<noteq> f" "\<bar>g - f\<bar> < int GP_RING" "gp_index g = gp_index f"
  then have "g mod int GP_RING = f mod int GP_RING" by (simp add: gp_index_def GP_RING_def)
  then have "int GP_RING dvd g - f" by (simp add: mod_eq_dvd_iff)
  with \<open>g \<noteq> f\<close> \<open>\<bar>g - f\<bar> < int GP_RING\<close> show False using dvd_imp_le_int [of "g - f" "int GP_RING"] by simp
qed

lemma gp_check_keeps: "go_ring (gp_check c m f st) = go_ring st" "go_ranges (gp_check c m f st) = go_ranges st"
  by (simp_all add: gp_check_def check_channels_def Let_def split_def)

lemma gp_record_keeps:
  "gp_index g \<noteq> gp_index f \<Longrightarrow> go_ring (gp_record c m f st) (gp_index g) = go_ring st (gp_index g)"
  "go_ranges (gp_record c m f st) = go_ranges st"
  by (simp_all add: gp_record_def Let_def split_def)

lemma gp_step_keeps:
  assumes "spares_slot f op"
  shows "go_ring (gp_step c op st) (gp_index f) = go_ring st (gp_index f) \<and> go_ranges (gp_step c op st) = go_ranges st"
proof (cases op)
  case (Rec m g)
  then have "gp_index f \<noteq> gp_index g" using assms by (auto simp: spares_slot_def)
  then show ?thesis by (simp add: Rec gp_record_keeps)
qed (simp_all add: gp_check_keeps gp_draw_def gp_set_off_def)

lemma gp_run_keeps:
  assumes "list_all (spares_slot f) ops"
  shows "go_ring (fold (gp_step c) ops st) (gp_index f) = go_ring st (gp_index f) \<and> go_ranges (fold (gp_step c) ops st) = go_ranges st"
  using assms
proof (induction ops arbitrary: st)
  case (Cons op ops)
  then show ?case using gp_step_keeps [of f op c st] Cons.IH [of "gp_step c op st"] by simp
qed simp

lemma gp_record_slot:
  assumes "\<not> go_off st" "go_ranges st \<noteq> []"
  shows "gs_frame (go_ring (gp_record c m f st) (gp_index f)) = f" "gs_valid (go_ring (gp_record c m f st) (gp_index f))"
    "gs_crc (go_ring (gp_record c m f st) (gp_index f)) = fst (gp_compute c m (go_ranges st))"
    "go_ranges (gp_record c m f st) = go_ranges st"
  using assms by (simp_all add: gp_record_def Let_def split_def)

lemma gp_check_diverge:
  assumes "\<not> go_off st" "go_ranges st \<noteq> []" "gs_valid (go_ring st (gp_index f))" "gs_frame (go_ring st (gp_index f)) = f"
  shows "go_diverge (gp_check c m f st) =
      go_diverge st + (if gs_crc (go_ring st (gp_index f)) = fst (gp_compute c m (go_ranges st)) then 0 else 1)"
    "go_match (gp_check c m f st) =
      go_match st + (if gs_crc (go_ring st (gp_index f)) = fst (gp_compute c m (go_ranges st)) then 1 else 0)"
    "go_miss (gp_check c m f st) = go_miss st"
  using assms by (simp_all add: gp_check_def check_channels_def Let_def split_def)

text \<open>
  C15. The alarm is exact for small changes, as long as the record stands. A frame recorded in forward play is
  checked after its replay, the oracle on both times; in between come any checks, draws, switches and records
  of other frames, but no record that takes the frame's place in the ring of 1024: neither the frame recorded
  again nor one a multiple of 1024 frames off. If then the replayed memory differs within a window of four
  bytes, the check counts a divergence exactly if one of the changed bytes lies in a range the alarm covers,
  and a match otherwise; it is not a miss.
\<close>
theorem alarm_exact:
  assumes "\<not> go_off st" "go_ranges st = go_ranges gp_init" "list_all (spares_slot f) ops"
    and "st1 = fold (gp_step c) ops (gp_record c m f st)" "\<not> go_off st1"
    and "list_all (\<lambda>(a, n). gc_readable c a n) (alarm_cells (gc_base c))" "gc_base c < 2 ^ 48"
    and "\<forall>x. x < w \<or> w + 4 \<le> x \<longrightarrow> m' x = m x"
  shows "let seen = (\<exists>r \<in> set (alarm_cells (gc_base c)). \<exists>x. inside r x \<and> m' x \<noteq> m x); st2 = gp_check c m' f st1 in
     go_diverge st2 = go_diverge st1 + (if seen then 1 else 0) \<and> go_match st2 = go_match st1 + (if seen then 0 else 1)
     \<and> go_miss st2 = go_miss st1"
proof -
  let ?k = "gp_index f"
  have r: "go_ranges st \<noteq> []" using assms(2) by (simp add: init_ranges)
  note rec = gp_record_slot [OF assms(1) r, of c m f]
  have keeps: "go_ring st1 ?k = go_ring (gp_record c m f st) ?k" "go_ranges st1 = go_ranges gp_init"
    using gp_run_keeps [OF assms(3), of c "gp_record c m f st"] assms(2,4) rec(4) by simp_all
  have slot: "gs_frame (go_ring st1 ?k) = f" "gs_valid (go_ring st1 ?k)"
    "gs_crc (go_ring st1 ?k) = fst (gp_compute c m (go_ranges gp_init))"
    using rec assms(2) keeps(1) by simp_all
  have ne: "go_ranges st1 \<noteq> []" using keeps(2) by (simp add: init_ranges)
  have win: "fst (gp_compute c m' (go_ranges gp_init)) = fst (gp_compute c m (go_ranges gp_init)) \<longleftrightarrow>
    \<not> (\<exists>r \<in> set (alarm_cells (gc_base c)). \<exists>x. inside r x \<and> m' x \<noteq> m x)"
    by (rule alarm_window [where w = w]) (use assms(6-8) in auto)
  show ?thesis
    using gp_check_diverge [OF assms(5) ne slot(2,1), of c m'] win keeps(2) slot(3) by (auto simp: Let_def)
qed

definition oracle_demo :: gc_env where
  "oracle_demo = \<lparr>gc_base = IMAGE_BASE, gc_arena = arena_init 0x30000000, gc_readable = (\<lambda>_ _. True)\<rparr>"

theorem alarm_exact_witness:
  "let st1 = fold (gp_step oracle_demo) [Draw, Rec (\<lambda>_. 0) 8] (gp_record oracle_demo (\<lambda>_. 0) 7 (gp_set_off False gp_init));
       st2 = gp_check oracle_demo ((\<lambda>_. 0)(0x140E1B70A := 1)) 7 st1
   in go_diverge st2 = go_diverge st1 + 1"
proof -
  have "\<exists>r \<in> set (alarm_cells (gc_base oracle_demo)). \<exists>x. inside r x \<and> ((\<lambda>_. 0)(0x140E1B70A := 1 :: u8)) x \<noteq> 0"
    by (rule bexI [of _ "(resolve (gc_base oracle_demo) 0x140E1B708, 8)"], rule exI [of _ "0x140E1B70A"])
      (simp_all add: inside_def alarm_cells_def oracle_demo_def resolve_def IMAGE_BASE_def)
  moreover have "list_all (spares_slot 7) [Draw, Rec (\<lambda>_. 0) 8]"
    by (simp add: spares_slot_def gp_index_def GP_RING_def)
  ultimately show ?thesis
    using alarm_exact [of "gp_set_off False gp_init" 7 "[Draw, Rec (\<lambda>_. 0) 8]" _ oracle_demo "\<lambda>_. 0" "0x140E1B70A" "(\<lambda>_. 0)(0x140E1B70A := 1)", OF _ _ _ refl]
    by (auto simp: Let_def gp_set_off_def gp_draw_def gp_record_def oracle_demo_def IMAGE_BASE_def
        list_all_def alarm_cells_def split: prod.splits)
qed

section \<open>Pointers\<close>

text \<open>The bytes a range contributes: its eight-byte slots but those with an arena pointer, and the rest.\<close>

definition slot_bytes :: "arena \<Rightarrow> gmem \<Rightarrow> nat \<Rightarrow> u8 list" where
  "slot_bytes ar m p = (if is_arena_addr ar (rd64 m p) then [] else peek_bytes p 8 m)"

definition scalar_bytes :: "arena \<Rightarrow> gmem \<Rightarrow> nat \<Rightarrow> nat \<Rightarrow> u8 list" where
  "scalar_bytes ar m p n =
     concat (map (\<lambda>k. slot_bytes ar m (p + 8 * k)) [0..<n div 8]) @ peek_bytes (p + 8 * (n div 8)) (n mod 8) m"

lemma crc32_nil [simp]: "crc32_acc c [] = c" by (simp add: crc32_acc_def)

lemma peek_nil [simp]: "peek_bytes a 0 m = []" by (simp add: peek_bytes_def)

lemma scalar_bytes_step:
  "8 \<le> n \<Longrightarrow> scalar_bytes ar m p n = slot_bytes ar m p @ scalar_bytes ar m (p + 8) (n - 8)"
proof -
  assume n: "8 \<le> n"
  then have d: "n div 8 = Suc ((n - 8) div 8)" "n mod 8 = (n - 8) mod 8" by (simp_all add: le_div_geq le_mod_geq)
  show ?thesis
    unfolding scalar_bytes_def d by (simp add: upt_conv_Cons map_Suc_upt [symmetric] o_def algebra_simps del: upt_Suc)
qed

lemma crc_slots_ref: "crc_slots ar m base off b crc = crc32_acc crc (scalar_bytes ar m (base + off) (b - off))"
proof (induction ar m base off b crc rule: crc_slots.induct)
  case (1 ar m base off b crc)
  show ?case
  proof (cases "off + 8 \<le> b")
    case True
    have "scalar_bytes ar m (base + off) (b - off)
        = slot_bytes ar m (base + off) @ scalar_bytes ar m (base + (off + 8)) (b - (off + 8))"
      using scalar_bytes_step [of "b - off" ar m "base + off"] True by (simp add: add.assoc)
    then show ?thesis
      using "1.IH" True by (simp add: crc_slots.simps [of ar m base off b crc] slot_bytes_def crc32_chain [symmetric])
  next
    case False
    then have "(b - off) div 8 = 0" "(b - off) mod 8 = b - off" by simp_all
    then show ?thesis using False by (simp add: crc_slots.simps [of ar m base off b crc] scalar_bytes_def)
  qed
qed

lemma crc32_mid:
  assumes "length x = length y" "\<And>i. i < length x \<Longrightarrow> x ! i \<noteq> y ! i \<Longrightarrow> k \<le> i \<and> i < k + 4"
  shows "crc32_acc c (us @ x @ vs) = crc32_acc c (us @ y @ vs) \<longleftrightarrow> x = y"
proof
  assume "crc32_acc c (us @ x @ vs) = crc32_acc c (us @ y @ vs)"
  then have "crc32_acc (crc32_acc c us) x = crc32_acc (crc32_acc c us) y"
    by (simp add: crc32_chain [symmetric]) (rule crc32_inj)
  then show "x = y" using crc32_window [OF assms(1)] assms(2) by metis
qed simp

definition slot_agrees :: "arena \<Rightarrow> gmem \<Rightarrow> gmem \<Rightarrow> nat \<Rightarrow> bool" where
  "slot_agrees ar m m' p \<longleftrightarrow>
     peek_bytes p 8 m = peek_bytes p 8 m' \<or> is_arena_addr ar (rd64 m p) \<and> is_arena_addr ar (rd64 m' p)"

lemma slot_agrees_bytes: "slot_agrees ar m m' p \<Longrightarrow> slot_bytes ar m p = slot_bytes ar m' p"
  by (auto simp: slot_agrees_def slot_bytes_def rd64_def)

lemma scalar_split:
  assumes "k < n div 8"
  shows "scalar_bytes ar m p n =
     concat (map (\<lambda>i. slot_bytes ar m (p + 8 * i)) [0..<k]) @ slot_bytes ar m (p + 8 * k) @
     concat (map (\<lambda>i. slot_bytes ar m (p + 8 * i)) [Suc k..<n div 8]) @ peek_bytes (p + 8 * (n div 8)) (n mod 8) m"
proof -
  have "[0..<n div 8] = [0..<k] @ k # [Suc k..<n div 8]"
    using upt_add_eq_append [of 0 k "n div 8 - k"] assms by (simp add: upt_conv_Cons)
  then show ?thesis by (simp add: scalar_bytes_def)
qed

text \<open>
  C17. A channel sees scalars and only scalars: of two memories whose eight-byte slots of the range agree or
  hold arena pointers in both, but for one slot that holds no pointer and differs at most within four bytes,
  the checksums are equal exactly if that slot is. A relocated object is no alarm, a changed scalar always is.
\<close>
theorem scalars_only:
  assumes "k < (b - a) div 8"
    and "\<forall>i < (b - a) div 8. i \<noteq> k \<longrightarrow> slot_agrees (gc_arena c) m m' (base + a + 8 * i)"
    and "peek_bytes (base + a + 8 * ((b - a) div 8)) ((b - a) mod 8) m = peek_bytes (base + a + 8 * ((b - a) div 8)) ((b - a) mod 8) m'"
    and "p = base + a + 8 * k" "\<not> is_arena_addr (gc_arena c) (rd64 m p)" "\<not> is_arena_addr (gc_arena c) (rd64 m' p)"
    and "list_all (\<lambda>i. m (p + i) = m' (p + i) \<or> j \<le> i \<and> i < j + 4) [0..<8]"
  shows "crc_range_ptr_aware c m base (a, b) crc = crc_range_ptr_aware c m' base (a, b) crc
     \<longleftrightarrow> peek_bytes p 8 m = peek_bytes p 8 m'"
proof -
  let ?n = "b - a" and ?ar = "gc_arena c" and ?q = "base + a"
  have us: "map (\<lambda>i. slot_bytes ?ar m (?q + 8 * i)) [0..<k] = map (\<lambda>i. slot_bytes ?ar m' (?q + 8 * i)) [0..<k]"
    and vs: "map (\<lambda>i. slot_bytes ?ar m (?q + 8 * i)) [Suc k..<?n div 8] = map (\<lambda>i. slot_bytes ?ar m' (?q + 8 * i)) [Suc k..<?n div 8]"
    using assms(1,2) by (auto intro!: slot_agrees_bytes)
  have w: "i < length (peek_bytes p 8 m) \<Longrightarrow> peek_bytes p 8 m ! i \<noteq> peek_bytes p 8 m' ! i \<Longrightarrow> j \<le> i \<and> i < j + 4" for i
    using assms(7) by (auto simp: peek_bytes_def list_all_iff)
  show ?thesis
    unfolding crc_range_ptr_aware_def fst_conv snd_conv crc_slots_ref scalar_split [OF assms(1)] us vs assms(3)
    using crc32_mid [of "peek_bytes p 8 m" "peek_bytes p 8 m'" j] w assms(4-6) by (simp add: slot_bytes_def)
qed
definition ptr_mem :: "nat \<Rightarrow> nat \<Rightarrow> gmem" where
  "ptr_mem q v = wr64 0x1008 v (wr64 0x1000 q (\<lambda>_. 0))"

lemma ptr_mem_reads: "q < 2 ^ 64 \<Longrightarrow> rd64 (ptr_mem q v) 0x1000 = q" "v < 2 ^ 64 \<Longrightarrow> rd64 (ptr_mem q v) 0x1008 = v"
  by (simp_all add: ptr_mem_def mem_simps apart_def)

theorem scalars_only_witness:
  "crc_range_ptr_aware oracle_demo (ptr_mem 0x30000010 0) 0x1000 (0, 16) 0
   \<noteq> crc_range_ptr_aware oracle_demo (ptr_mem 0x30000100 5) 0x1000 (0, 16) 0"
proof -
  have "peek_bytes 0x1008 8 (ptr_mem 0x30000010 0) \<noteq> peek_bytes 0x1008 8 (ptr_mem 0x30000100 5)"
    using ptr_mem_reads(2) [where q = "0x30000010" and v = 0] ptr_mem_reads(2) [where q = "0x30000100" and v = 5] by (auto simp: rd64_def)
  moreover have "\<forall>i < 2. i \<noteq> 1 \<longrightarrow> slot_agrees (gc_arena oracle_demo) (ptr_mem 0x30000010 0) (ptr_mem 0x30000100 5) (0x1000 + 0 + 8 * i)"
    by (auto simp: slot_agrees_def ptr_mem_reads oracle_demo_def is_arena_addr_def arena_init_def ARENA_SIZE_def less_2_cases_iff)
  moreover have "list_all (\<lambda>i. ptr_mem 0x30000010 0 (0x1008 + i) = ptr_mem 0x30000100 5 (0x1008 + i) \<or> 0 \<le> i \<and> i < 0 + 4) [0..<8]"
    by (simp add: ptr_mem_def wr64_def poke_bytes_def enc64_def nth_append upt_rec)
  ultimately show ?thesis
    using scalars_only [where k = 1 and b = 16 and a = 0 and c = oracle_demo and m = "ptr_mem 0x30000010 0"
        and m' = "ptr_mem 0x30000100 5" and base = "0x1000" and p = "0x1008" and j = 0 and crc = 0]
    by (simp add: ptr_mem_reads oracle_demo_def is_arena_addr_def arena_init_def)
qed

section \<open>The canary\<close>

text \<open>A forward run: each frame is stamped before it is played, and draws while it is. A replay: each frame draws
  and is checked under the next number.\<close>

primrec forward :: "(int \<Rightarrow> u32 list) \<Rightarrow> int \<Rightarrow> nat \<Rightarrow> canary \<Rightarrow> canary" where
  "forward fr t 0 cn = cn"
| "forward fr t (Suc k) cn = fold canary_draw (fr (t + int k)) (canary_record (t + int k) (forward fr t k cn))"

primrec replay :: "(int \<Rightarrow> u32 list) \<Rightarrow> int \<Rightarrow> nat \<Rightarrow> canary \<Rightarrow> canary" where
  "replay re t 0 cn = cn"
| "replay re t (Suc k) cn = canary_check (t + int k + 1) (fold canary_draw (re (t + int k)) (replay re t k cn))"

definition gameplay_draws :: "u32 list \<Rightarrow> nat" where
  "gameplay_draws rs = length (filter (\<lambda>r. \<not> is_render_draw r) rs)"

lemma fold_draw:
  "cn_draws (fold canary_draw rs cn) = cn_draws cn + gameplay_draws rs \<and> cn_ring (fold canary_draw rs cn) = cn_ring cn \<and>
   cn_diverged (fold canary_draw rs cn) = cn_diverged cn"
  by (induction rs arbitrary: cn) (auto simp: canary_draw_def gameplay_draws_def)

lemma cn_index_apart: "0 < \<bar>g - f\<bar> \<Longrightarrow> \<bar>g - f\<bar> < int CANARY_RING \<Longrightarrow> cn_index g \<noteq> cn_index f"
proof
  assume "0 < \<bar>g - f\<bar>" "\<bar>g - f\<bar> < int CANARY_RING" "cn_index g = cn_index f"
  then have "g mod int CANARY_RING = f mod int CANARY_RING" by (simp add: cn_index_def CANARY_RING_def)
  then have "int CANARY_RING dvd g - f" by (simp add: mod_eq_dvd_iff)
  with \<open>0 < \<bar>g - f\<bar>\<close> \<open>\<bar>g - f\<bar> < int CANARY_RING\<close> show False using dvd_imp_le_int [of "g - f" "int CANARY_RING"] by simp
qed

definition stamped :: "canary \<Rightarrow> int \<Rightarrow> nat \<Rightarrow> bool" where
  "stamped cn f n \<longleftrightarrow> cn_ring cn (cn_index f) = \<lparr>ds_frame = f, ds_draws = n, ds_valid = True\<rparr>"

lemma stamped_fold [simp]: "stamped (fold canary_draw rs cn) f n = stamped cn f n"
  by (simp add: stamped_def fold_draw)

lemma canary_record_stamps:
  "stamped (canary_record f cn) f (cn_draws cn)" "cn_draws (canary_record f cn) = 0"
  "cn_diverged (canary_record f cn) = cn_diverged cn"
  "0 < \<bar>g - f\<bar> \<Longrightarrow> \<bar>g - f\<bar> < int CANARY_RING \<Longrightarrow> stamped (canary_record f cn) g n = stamped cn g n"
  by (simp_all add: stamped_def canary_record_def cn_index_apart)

lemma forward_stamps:
  assumes "k \<le> CANARY_RING"
  shows "(\<forall>j. 0 < j \<and> j < k \<longrightarrow> stamped (forward fr t k cn) (t + int j) (gameplay_draws (fr (t + int j - 1)))) \<and>
    (0 < k \<longrightarrow> cn_draws (forward fr t k cn) = gameplay_draws (fr (t + int k - 1)))"
  using assms
proof (induction k)
  case (Suc k)
  have "stamped (forward fr t (Suc k) cn) (t + int j) (gameplay_draws (fr (t + int j - 1)))" if j: "0 < j" "j < Suc k" for j
  proof (cases "j = k")
    case True
    then show ?thesis using Suc j canary_record_stamps(1) [of "t + int k" "forward fr t k cn"] by simp
  next
    case False
    then show ?thesis using Suc j canary_record_stamps(4) [of "t + int j" "t + int k"] by simp
  qed
  then show ?case by (simp add: fold_draw canary_record_stamps)
qed simp

lemma canary_check_facts:
  "cn_ring (canary_check f cn) = cn_ring cn" "cn_draws (canary_check f cn) = 0"
  "stamped cn f n \<Longrightarrow> cn_diverged (canary_check f cn) = cn_diverged cn + (if n \<noteq> cn_draws cn then 1 else 0)"
  "ds_frame (cn_ring cn (cn_index f)) \<noteq> f \<Longrightarrow> cn_diverged (canary_check f cn) = cn_diverged cn"
  by (auto simp: canary_check_def stamped_def Let_def)

text \<open>A replay counts the frames whose draws are not those stamped; the first also has what was drawn before it.\<close>

lemma replay_diverged:
  assumes "\<And>j. j < k \<Longrightarrow> stamped cn (t + int j + 1) (st j)"
  shows "cn_diverged (replay re t k cn) = cn_diverged cn +
      length (filter (\<lambda>j. st j \<noteq> gameplay_draws (re (t + int j)) + (if j = 0 then cn_draws cn else 0)) [0..<k])
    \<and> cn_ring (replay re t k cn) = cn_ring cn \<and> cn_draws (replay re t k cn) = (if k = 0 then cn_draws cn else 0)"
  using assms
proof (induction k)
  case (Suc k)
  let ?c = "fold canary_draw (re (t + int k)) (replay re t k cn)"
  have IH: "cn_diverged (replay re t k cn) = cn_diverged cn +
      length (filter (\<lambda>j. st j \<noteq> gameplay_draws (re (t + int j)) + (if j = 0 then cn_draws cn else 0)) [0..<k])"
    "cn_ring (replay re t k cn) = cn_ring cn" "cn_draws (replay re t k cn) = (if k = 0 then cn_draws cn else 0)"
    using Suc by auto
  have "stamped ?c (t + int k + 1) (st k)" using Suc.prems [of k] IH(2) by (simp add: stamped_def fold_draw)
  from canary_check_facts(3) [OF this] show ?case
    using IH by (simp add: canary_check_facts fold_draw add.commute)
qed simp

text \<open>
  The canary is exact where the frame has been stamped before the rollback, as in a rollback of the
  automatic interval: after a replay of the last frames it has counted exactly the frames whose number of
  gameplay draws is not that of the forward run.
\<close>
theorem canary_exact:
  assumes "k < CANARY_RING" "d \<le> k" "cn = canary_record (t + int k) (forward fr t k cn0)"
  shows "cn_diverged (replay re (t + int k - int d) d cn) = cn_diverged cn +
    length (filter (\<lambda>j. gameplay_draws (fr (t + int k - int d + int j)) \<noteq> gameplay_draws (re (t + int k - int d + int j))) [0..<d])"
proof -
  let ?s = "t + int k - int d"
  have st: "stamped cn (?s + int j + 1) (gameplay_draws (fr (?s + int j)))" if j: "j < d" for j
  proof (cases "j + 1 = d")
    case True
    then have e: "?s + int j + 1 = t + int k" "?s + int j = t + int k - 1" using assms(2) by linarith+
    have "cn_draws (forward fr t k cn0) = gameplay_draws (fr (t + int k - 1))"
      using forward_stamps [of k fr t cn0] assms(1,2) j by simp
    then show ?thesis using canary_record_stamps(1) [of "t + int k" "forward fr t k cn0"] by (simp add: assms(3) e)
  next
    case False
    define i where "i = k - d + j + 1"
    have i: "0 < i" "i < k" and e: "?s + int j + 1 = t + int i" "?s + int j = t + int i - 1"
      using assms(2) j False by (auto simp: i_def of_nat_diff)
    have "stamped (forward fr t k cn0) (t + int i) (gameplay_draws (fr (t + int i - 1)))"
      using forward_stamps [of k fr t cn0] assms(1) i by simp
    then show ?thesis
      using canary_record_stamps(4) [of "t + int i" "t + int k"] i assms(1) by (simp add: assms(3) e)
  qed
  have z: "cn_draws cn = 0" by (simp add: assms(3) canary_record_stamps)
  show ?thesis using replay_diverged [OF st, of d re] z by (simp add: if_distrib cong: if_cong)
qed

definition canary_demo :: canary where
  "canary_demo = \<lparr>cn_draws = 0, cn_render = 0, cn_ring = (\<lambda>_. \<lparr>ds_frame = 0, ds_draws = 0, ds_valid = False\<rparr>),
     cn_rring = (\<lambda>_. \<lparr>ds_frame = 0, ds_draws = 0, ds_valid = False\<rparr>), cn_checks = 0, cn_diverged = 0, cn_last = -1,
     cn_rdiverged = 0, cn_rlast = -1\<rparr>"

theorem canary_exact_witness:
  "cn_diverged (replay (\<lambda>f. if f = 12 then [1, 2] else [1]) 11 3
     (canary_record 14 (forward (\<lambda>f. [1]) 10 4 canary_demo))) = cn_diverged (canary_record 14 (forward (\<lambda>f. [1]) 10 4 canary_demo)) + 1"
  using canary_exact [of 4 3 _ 10 "\<lambda>f. [1]" canary_demo "\<lambda>f. if f = 12 then [1, 2] else [1]", OF _ _ refl]
  by (simp add: CANARY_RING_def gameplay_draws_def is_render_draw_def upt_rec)

text \<open>
  C34. A rollback served at the top of a tick, as every one asked for by the network is, raises a false alarm: the draws of
  the frame just played are still counted and go to the first replayed frame. A faithful replay of two or
  more frames is reported as diverged if that last frame drew at all, and the stamp the next save makes
  for it reads 0, so that a later faithful replay of it is reported too.
\<close>
theorem canary_false_alarm:
  assumes "k < CANARY_RING" "2 \<le> d" "d \<le> k" "cn = forward fr t k cn0" "0 < gameplay_draws (fr (t + int k - 1))"
    and "ds_frame (cn_ring cn (cn_index (t + int k))) \<noteq> t + int k"
  shows "let cn1 = replay fr (t + int k - int d) d cn in
    cn_diverged cn1 = cn_diverged cn + 1 \<and> stamped (canary_record (t + int k) cn1) (t + int k) 0"
proof -
  let ?s = "t + int k - int d"
  obtain e where d: "d = Suc e" "0 < e" using assms(2) by (cases d) auto
  have st: "stamped cn (?s + int j + 1) (gameplay_draws (fr (?s + int j)))" if j: "j < e" for j
  proof -
    define i where "i = k - d + j + 1"
    have i: "0 < i" "i < k" and r: "?s + int j + 1 = t + int i" "?s + int j = t + int i - 1"
      using assms(3) j by (auto simp: i_def d of_nat_diff)
    show ?thesis using forward_stamps [of k fr t cn0] assms(1,4) i by (simp add: r)
  qed
  have dr: "cn_draws cn = gameplay_draws (fr (t + int k - 1))" using forward_stamps [of k fr t cn0] assms(1-4) by simp
  have one: "filter (\<lambda>j. gameplay_draws (fr (?s + int j)) \<noteq> gameplay_draws (fr (?s + int j)) + (if j = 0 then cn_draws cn else 0)) [0..<e] = [0]"
    using d(2) assms(5) dr by (cases e) (auto simp: upt_conv_Cons filter_empty_conv simp del: upt_Suc)
  have r: "cn_diverged (replay fr ?s e cn) = cn_diverged cn + 1" "cn_ring (replay fr ?s e cn) = cn_ring cn"
    using replay_diverged [OF st, of e fr] one by simp_all
  have f: "?s + int e + 1 = t + int k" using d by simp
  have "ds_frame (cn_ring (fold canary_draw (fr (?s + int e)) (replay fr ?s e cn)) (cn_index (t + int k))) \<noteq> t + int k"
    using assms(6) r(2) by (simp add: fold_draw)
  from canary_check_facts(4) [OF this] have "cn_diverged (replay fr ?s d cn) = cn_diverged cn + 1"
    using r(1) f by (simp add: d(1) fold_draw)
  moreover have "cn_draws (replay fr ?s d cn) = 0" by (simp add: d(1) canary_check_facts)
  ultimately show ?thesis using canary_record_stamps(1) [of "t + int k" "replay fr ?s d cn"] by (simp add: Let_def)
qed

theorem canary_false_alarm_witness:
  "cn_diverged (replay (\<lambda>_. [5]) 12 2 (forward (\<lambda>_. [5]) 10 4 canary_demo)) = cn_diverged (forward (\<lambda>_. [5]) 10 4 canary_demo) + 1"
proof -
  have n: "(4 :: nat) = Suc (Suc (Suc (Suc 0)))" by simp
  have "ds_frame (cn_ring (forward (\<lambda>_. [5]) 10 4 canary_demo) (cn_index 14)) \<noteq> 14"
    unfolding n by (simp add: fold_draw canary_record_def canary_demo_def cn_index_def CANARY_RING_def canary_draw_def is_render_draw_def)
  then show ?thesis
    using canary_false_alarm [of 4 2 _ "\<lambda>_. [5]" 10 canary_demo, OF _ _ _ refl]
    by (simp add: CANARY_RING_def gameplay_draws_def is_render_draw_def Let_def)
qed

end
