(* ===== verification/Sound_Edges.thy ===== *)
theory Sound_Edges
  imports Game_Memory
begin

text \<open>
  The sound channels' voices after a load. \<open>src/src/sound_edge_reconcile.cpp\<close> clears the voice edges of the
  channel nodes whose voice can no longer be called, with a cache of memory regions that lives for one pass.
  What the system answers about memory is an argument. Log lines and the checks that only feed them are left out.
\<close>

unbundle bit_operations_syntax

section \<open>Asking the system about memory\<close>

text \<open>What \<open>VirtualQuery\<close> answers for an address: the run of pages of one kind that starts at its page.\<close>

record mbi =
  mb_base :: nat
  mb_size :: nat
  mb_state :: u32
  mb_protect :: u32

type_synonym os_map = "nat \<Rightarrow> mbi option"

definition MEM_COMMIT_FLAG :: u32 where "MEM_COMMIT_FLAG = 0x1000"
definition PAGE_RW_MASK :: u32 where "PAGE_RW_MASK = 0x2 OR 0x4 OR 0x20 OR 0x40 OR 0x8 OR 0x80"
definition PAGE_BARRED :: u32 where "PAGE_BARRED = 0x100 OR 0x1"

definition region_ok :: "mbi \<Rightarrow> bool" where
  "region_ok b \<longleftrightarrow> mb_state b AND MEM_COMMIT_FLAG \<noteq> 0 \<and> mb_protect b AND PAGE_RW_MASK \<noteq> 0 \<and> mb_protect b AND PAGE_BARRED = 0"

definition ed_canon :: "nat \<Rightarrow> bool" where "ed_canon p \<longleftrightarrow> 0x10000 \<le> p \<and> p < 0x7FFFFFFFFFFF"

record qregion =
  qr_base :: nat
  qr_end :: nat
  qr_ok :: bool

definition QCACHE_MAX :: nat where "QCACHE_MAX = 64"

definition committed_readable :: "os_map \<Rightarrow> nat \<Rightarrow> nat \<Rightarrow> qregion list \<Rightarrow> bool \<times> qregion list" where
  "committed_readable vq p len qr =
     (if \<not> ed_canon p then (False, qr)
      else case List.find (\<lambda>r. qr_base r \<le> p \<and> p < qr_end r) qr of
        Some r \<Rightarrow> (qr_ok r \<and> p + len \<le> qr_end r, qr)
      | None \<Rightarrow>
          (case vq p of None \<Rightarrow> (False, qr)
           | Some b \<Rightarrow>
               let r = \<lparr>qr_base = mb_base b, qr_end = mb_base b + mb_size b, qr_ok = region_ok b\<rparr> in
               (qr_ok r \<and> p + len \<le> qr_end r, if length qr < QCACHE_MAX then qr @ [r] else qr)))"

text \<open>A voice can be called: it, its vtable through slot \<open>+0x90\<close> and the target of slot \<open>+0x80\<close> are mapped.\<close>

definition voice_live :: "os_map \<Rightarrow> gmem \<Rightarrow> nat \<Rightarrow> qregion list \<Rightarrow> bool \<times> qregion list" where
  "voice_live vq m voice qr =
     (let (r1, qr1) = committed_readable vq voice 8 qr in
      if \<not> r1 then (False, qr1)
      else
        let vtbl = rd64 m voice; (r2, qr2) = committed_readable vq vtbl 0x98 qr1 in
        if \<not> r2 then (False, qr2)
        else let (r3, qr3) = committed_readable vq (rd64 m (vtbl + 0x80)) 16 qr2 in (r3, qr3))"

definition edge_offs :: "nat list" where "edge_offs = [0x18, 0x20, 0x28, 0x30]"

definition reconcile_edge :: "os_map \<Rightarrow> nat \<Rightarrow> nat \<times> gmem \<times> qregion list \<Rightarrow> nat \<times> gmem \<times> qregion list" where
  "reconcile_edge vq slot s =
     (case s of (n, m, qr) \<Rightarrow>
        let voice = rd64 m slot in
        if voice = 0 then (n, m, qr)
        else let (live, qr1) = voice_live vq m voice qr in
          if live then (n, m, qr1) else (n + 1, wr64 slot 0 m, qr1))"

definition reconcile_node :: "os_map \<Rightarrow> nat \<Rightarrow> nat \<times> gmem \<times> qregion list \<Rightarrow> nat \<times> gmem \<times> qregion list" where
  "reconcile_node vq node = fold (\<lambda>off. reconcile_edge vq (node + off)) edge_offs"

definition channel_step :: "os_map \<Rightarrow> nat \<Rightarrow> nat \<Rightarrow> nat \<Rightarrow> nat \<times> gmem \<times> qregion list \<Rightarrow> nat \<times> gmem \<times> qregion list" where
  "channel_step vq base chanmgr i s =
     (case s of (n, m, qr) \<Rightarrow>
        let node = rd64 m (chanmgr + 0x08 + i * 8) in
        if \<not> ed_canon node then (n, m, qr)
        else if rd64 m node \<noteq> resolve base 0x140BAD4B0 then (n, m, snd (committed_readable vq node 8 qr))
        else reconcile_node vq node (n, m, qr))"

definition sound_reconcile :: "os_map \<Rightarrow> nat \<Rightarrow> bool \<Rightarrow> bool \<Rightarrow> gmem \<Rightarrow> nat \<times> gmem" where
  "sound_reconcile vq base enabled engine m =
     (if \<not> enabled \<or> \<not> engine then (0, m)
      else
        let sSound = rd64 m (resolve base 0x140E18520) in
        if \<not> ed_canon sSound then (0, m)
        else
          let chanmgr = rd64 m (sSound + 0x38) in
          if \<not> ed_canon chanmgr then (0, m)
          else let (n, m1, _) = for_range 0 32 (channel_step vq base chanmgr) (0, m, []) in (n, m1))"

section \<open>A cache that does not lie\<close>

text \<open>
  A memoised question: its plain answer, and what makes a cache sound. Asking answers plainly and keeps the
  cache sound; so do questions that are asked only if the one before them is answered yes.
\<close>

locale memo =
  fixes ask :: "'k \<Rightarrow> 'c \<Rightarrow> bool \<times> 'c" and plain :: "'k \<Rightarrow> bool" and sound :: "'c \<Rightarrow> bool"
  assumes ask_plain: "sound c \<Longrightarrow> fst (ask k c) = plain k"
    and ask_sound: "sound c \<Longrightarrow> sound (snd (ask k c))"
begin

primrec ask_all :: "'k list \<Rightarrow> 'c \<Rightarrow> bool \<times> 'c" where
  "ask_all [] c = (True, c)"
| "ask_all (k # ks) c = (let (r, c1) = ask k c in if \<not> r then (False, c1) else ask_all ks c1)"

lemma ask_all_plain:
  "sound c \<Longrightarrow> fst (ask_all ks c) = list_all plain ks \<and> sound (snd (ask_all ks c))"
proof (induction ks arbitrary: c)
  case (Cons k ks)
  obtain r c1 where a: "ask k c = (r, c1)" by (cases "ask k c")
  then show ?case using ask_plain [OF Cons.prems, of k] ask_sound [OF Cons.prems, of k] Cons.IH [of c1] by simp
qed simp

end

text \<open>While the world is stopped the map stands still: each address of a run is answered with its end and kind.\<close>

definition map_stable :: "os_map \<Rightarrow> bool" where
  "map_stable vq \<longleftrightarrow>
     (\<forall>p b. vq p = Some b \<longrightarrow> mb_base b \<le> p \<and> p < mb_base b + mb_size b \<and>
        (\<forall>q. mb_base b \<le> q \<and> q < mb_base b + mb_size b \<longrightarrow>
           (\<exists>b'. vq q = Some b' \<and> mb_base b' + mb_size b' = mb_base b + mb_size b \<and> region_ok b' = region_ok b)))"

definition plain_readable :: "os_map \<Rightarrow> nat \<times> nat \<Rightarrow> bool" where
  "plain_readable vq k \<longleftrightarrow>
     ed_canon (fst k) \<and> (case vq (fst k) of None \<Rightarrow> False | Some b \<Rightarrow> region_ok b \<and> fst k + snd k \<le> mb_base b + mb_size b)"

definition cache_sound :: "os_map \<Rightarrow> qregion list \<Rightarrow> bool" where
  "cache_sound vq qr \<longleftrightarrow> map_stable vq \<and>
     (\<forall>r \<in> set qr. \<forall>q. qr_base r \<le> q \<and> q < qr_end r \<longrightarrow>
        (\<exists>b. vq q = Some b \<and> mb_base b + mb_size b = qr_end r \<and> region_ok b = qr_ok r))"

interpretation vm: memo "\<lambda>(p, len). committed_readable vq p len" "plain_readable vq" "cache_sound vq" for vq
proof (unfold_locales, goal_cases)
  case (1 c k)
  obtain p len where k: "k = (p, len)" by (cases k)
  show ?case
  proof (cases "List.find (\<lambda>r. qr_base r \<le> p \<and> p < qr_end r) c")
    case None
    then show ?thesis by (simp add: k committed_readable_def plain_readable_def Let_def split: option.split)
  next
    case (Some r)
    then have "r \<in> set c" "qr_base r \<le> p \<and> p < qr_end r" by (auto simp: find_Some_iff)
    then obtain b where "vq p = Some b" "mb_base b + mb_size b = qr_end r" "region_ok b = qr_ok r"
      using 1 by (auto simp: cache_sound_def)
    then show ?thesis using Some by (simp add: k committed_readable_def plain_readable_def)
  qed
next
  case (2 c k)
  obtain p len where k: "k = (p, len)" by (cases k)
  have "\<exists>b'. vq q = Some b' \<and> mb_base b' + mb_size b' = mb_base b + mb_size b \<and> region_ok b' = region_ok b"
    if "vq p = Some b" "mb_base b \<le> q" "q < mb_base b + mb_size b" for b q
    using 2 that by (simp add: cache_sound_def map_stable_def)
  then show ?case
    using 2 by (auto simp: k committed_readable_def Let_def cache_sound_def split: option.split)
qed

section \<open>The edges\<close>

definition voice_ok :: "os_map \<Rightarrow> gmem \<Rightarrow> nat \<Rightarrow> bool" where
  "voice_ok vq m v \<longleftrightarrow>
     list_all (plain_readable vq) [(v, 8), (rd64 m v, 0x98), (rd64 m (rd64 m v + 0x80), 16)]"

lemma voice_live_ask:
  "voice_live vq m v qr = vm.ask_all vq [(v, 8), (rd64 m v, 0x98), (rd64 m (rd64 m v + 0x80), 16)] qr"
  by (auto simp: voice_live_def Let_def split: prod.splits)

lemma voice_live_plain:
  "cache_sound vq qr \<Longrightarrow> fst (voice_live vq m v qr) = voice_ok vq m v \<and> cache_sound vq (snd (voice_live vq m v qr))"
  unfolding voice_live_ask voice_ok_def by (rule vm.ask_all_plain)

definition off_slots :: "nat list \<Rightarrow> nat \<Rightarrow> bool" where "off_slots S x \<longleftrightarrow> list_all (\<lambda>s. x < s \<or> s + 8 \<le> x) S"

definition same_off :: "nat list \<Rightarrow> gmem \<Rightarrow> gmem \<Rightarrow> bool" where
  "same_off S m m1 \<longleftrightarrow> (\<forall>x. off_slots S x \<longrightarrow> m1 x = m x)"

definition cell_off :: "nat list \<Rightarrow> nat \<Rightarrow> bool" where "cell_off S a \<longleftrightarrow> list_all (\<lambda>s. apart a 8 s 8) S"

definition slots_ready :: "gmem \<Rightarrow> nat list \<Rightarrow> bool" where
  "slots_ready m S \<longleftrightarrow> distinct S \<and> list_all (\<lambda>s. list_all (\<lambda>t. s = t \<or> apart s 8 t 8) S) S
     \<and> list_all (\<lambda>s. cell_off S (rd64 m s) \<and> cell_off S (rd64 m (rd64 m s) + 0x80)) S"

definition cleared :: "os_map \<Rightarrow> gmem \<Rightarrow> nat \<Rightarrow> nat" where
  "cleared vq m v = (if v \<noteq> 0 \<and> \<not> voice_ok vq m v then 0 else v)"

lemma rd64_same_off:
  assumes "same_off S m m1" "cell_off S a"
  shows "rd64 m1 a = rd64 m a"
proof -
  have "m1 x = m x" if "a \<le> x" "x < a + 8" for x
  proof -
    have "x < s \<or> s + 8 \<le> x" if s: "s \<in> set S" for s
      using assms(2) s \<open>a \<le> x\<close> \<open>x < a + 8\<close> by (auto simp: cell_off_def apart_def list_all_iff)
    then show ?thesis using assms(1) by (simp add: same_off_def off_slots_def list_all_iff)
  qed
  then have "peek_bytes a 8 m1 = peek_bytes a 8 m" by (rule peek_cong)
  then show ?thesis by (simp add: rd64_def)
qed

lemma voice_ok_same:
  "same_off S m m1 \<Longrightarrow> cell_off S v \<Longrightarrow> cell_off S (rd64 m v + 0x80) \<Longrightarrow> voice_ok vq m1 v = voice_ok vq m v"
  by (simp add: voice_ok_def rd64_same_off)

definition swept :: "os_map \<Rightarrow> gmem \<Rightarrow> nat list \<Rightarrow> nat list \<Rightarrow> nat \<times> gmem \<times> qregion list \<Rightarrow> bool" where
  "swept vq m S ds st \<longleftrightarrow>
     (case st of (n, m1, qr) \<Rightarrow> same_off S m m1 \<and> cache_sound vq qr \<and>
        (\<forall>s \<in> set S. rd64 m1 s = (if s \<in> set ds then cleared vq m (rd64 m s) else rd64 m s)) \<and>
        n = length (filter (\<lambda>s. cleared vq m (rd64 m s) \<noteq> rd64 m s) ds))"

lemma swept_edge:
  assumes r: "slots_ready m S" and s: "s \<in> set S" "s \<notin> set ds" and w: "swept vq m S ds (n, m1, qr)"
  shows "swept vq m S (ds @ [s]) (reconcile_edge vq s (n, m1, qr))"
proof -
  have v: "rd64 m1 s = rd64 m s" and so: "same_off S m m1" and cs: "cache_sound vq qr"
    using w s by (auto simp: swept_def)
  have co: "cell_off S (rd64 m s)" "cell_off S (rd64 m (rd64 m s) + 0x80)"
    using r s(1) by (auto simp: slots_ready_def list_all_iff)
  obtain live qr1 where l: "voice_live vq m1 (rd64 m s) qr = (live, qr1)" by (cases "voice_live vq m1 (rd64 m s) qr")
  have live: "live = voice_ok vq m (rd64 m s)" "cache_sound vq qr1"
    using voice_live_plain [OF cs, of m1 "rd64 m s"] l voice_ok_same [OF so co] by simp_all
  show ?thesis
  proof (cases "rd64 m s \<noteq> 0 \<and> \<not> live")
    case True
    then have e: "reconcile_edge vq s (n, m1, qr) = (n + 1, wr64 s 0 m1, qr1)" by (simp add: reconcile_edge_def v l)
    have c0: "cleared vq m (rd64 m s) = 0" using True live by (simp add: cleared_def)
    have "rd64 (wr64 s 0 m1) t = (if t = s then 0 else rd64 m1 t)" if "t \<in> set S" for t
    proof (cases "t = s")
      case False
      then have "apart t 8 s 8" using r s(1) that by (auto simp: slots_ready_def list_all_iff)
      then show ?thesis using False by (simp add: c64.rd_other)
    qed (simp add: c64.rd_wr)
    moreover have "same_off S m (wr64 s 0 m1)"
      using so s(1) by (auto simp: same_off_def off_slots_def list_all_iff wr64_def poke_bytes_def enc64_def)
    ultimately show ?thesis unfolding e using w s live(2) True by (auto simp: swept_def c0)
  next
    case False
    then have "\<exists>q. reconcile_edge vq s (n, m1, qr) = (n, m1, q) \<and> cache_sound vq q"
      using live(2) cs by (auto simp: reconcile_edge_def v l Let_def)
    then obtain q where e: "reconcile_edge vq s (n, m1, qr) = (n, m1, q)" "cache_sound vq q" by blast
    have "cleared vq m (rd64 m s) = rd64 m s" using False live by (auto simp: cleared_def)
    then show ?thesis unfolding e(1) using w s v e(2) by (auto simp: swept_def)
  qed
qed

lemma swept_edges:
  assumes "slots_ready m S" "set ss \<subseteq> set S" "distinct (ds @ ss)" "swept vq m S ds st"
  shows "swept vq m S (ds @ ss) (fold (reconcile_edge vq) ss st)"
  using assms
proof (induction ss arbitrary: ds st)
  case (Cons s ss)
  obtain n m1 qr where st: "st = (n, m1, qr)" by (cases st)
  have "swept vq m S (ds @ [s]) (reconcile_edge vq s st)"
    using swept_edge [OF Cons.prems(1)] Cons.prems(2-4) by (simp add: st)
  from Cons.IH [OF Cons.prems(1) _ _ this] Cons.prems(2,3) show ?case by simp
qed simp

text \<open>The slots of a pass: the four edges of each channel node that has the channel vtable.\<close>

definition node_at_ch :: "gmem \<Rightarrow> nat \<Rightarrow> nat \<Rightarrow> nat" where "node_at_ch m chanmgr i = rd64 m (chanmgr + 0x08 + i * 8)"

definition ch_qual :: "nat \<Rightarrow> gmem \<Rightarrow> nat \<Rightarrow> nat \<Rightarrow> bool" where
  "ch_qual base m chanmgr i \<longleftrightarrow>
     ed_canon (node_at_ch m chanmgr i) \<and> rd64 m (node_at_ch m chanmgr i) = resolve base 0x140BAD4B0"

definition ch_slots :: "nat \<Rightarrow> gmem \<Rightarrow> nat \<Rightarrow> nat \<Rightarrow> nat list" where
  "ch_slots base m chanmgr k =
     concat (map (\<lambda>i. map ((+) (node_at_ch m chanmgr i)) edge_offs) (filter (ch_qual base m chanmgr) [0..<k]))"

definition pass_ready :: "nat \<Rightarrow> gmem \<Rightarrow> nat \<Rightarrow> bool" where
  "pass_ready base m chanmgr \<longleftrightarrow>
     (let S = ch_slots base m chanmgr 32 in
      slots_ready m S \<and>
      list_all (\<lambda>i. cell_off S (chanmgr + 0x08 + i * 8) \<and> (ed_canon (node_at_ch m chanmgr i) \<longrightarrow> cell_off S (node_at_ch m chanmgr i))) [0..<32])"

lemma ch_slots_Suc:
  "ch_slots base m cm (Suc k) = ch_slots base m cm k @ (if ch_qual base m cm k then map ((+) (node_at_ch m cm k)) edge_offs else [])"
  by (simp add: ch_slots_def)

lemma ch_slots_prefix: "k \<le> n \<Longrightarrow> \<exists>xs. ch_slots base m cm n = ch_slots base m cm k @ xs"
proof (induction n)
  case (Suc n)
  then show ?case by (cases "k = Suc n") (auto simp: ch_slots_Suc)
qed simp

lemma swept_channels:
  assumes pr: "pass_ready base m cm" and "map_stable vq" and "k \<le> 32"
  shows "swept vq m (ch_slots base m cm 32) (ch_slots base m cm k) (for_range 0 k (channel_step vq base cm) (0, m, []))"
  using assms(3)
proof (induction k)
  case 0
  then show ?case using assms(2) by (auto simp: swept_def ch_slots_def same_off_def cache_sound_def)
next
  case (Suc k)
  let ?S = "ch_slots base m cm 32" and ?node = "node_at_ch m cm k"
  obtain n m1 qr where st: "for_range 0 k (channel_step vq base cm) (0, m, []) = (n, m1, qr)"
    by (cases "for_range 0 k (channel_step vq base cm) (0, m, [])")
  have w: "swept vq m ?S (ch_slots base m cm k) (n, m1, qr)" using Suc st by simp
  have so: "same_off ?S m m1" and cs: "cache_sound vq qr" using w by (auto simp: swept_def)
  have off: "cell_off ?S (cm + 0x08 + k * 8)" "ed_canon ?node \<Longrightarrow> cell_off ?S ?node" and rdy: "slots_ready m ?S"
    using pr Suc.prems by (auto simp: pass_ready_def Let_def list_all_iff)
  have node: "rd64 m1 (cm + 0x08 + k * 8) = ?node" using rd64_same_off [OF so off(1)] by (simp add: node_at_ch_def)
  have vt: "ed_canon ?node \<Longrightarrow> rd64 m1 ?node = rd64 m ?node" using rd64_same_off [OF so off(2)] by simp
  have step: "for_range 0 (Suc k) (channel_step vq base cm) (0, m, []) = channel_step vq base cm k (n, m1, qr)"
    by (simp add: for_range_Suc st)
  show ?case
  proof (cases "ch_qual base m cm k")
    case True
    then have e: "channel_step vq base cm k (n, m1, qr) = fold (reconcile_edge vq) (map ((+) ?node) edge_offs) (n, m1, qr)"
      using vt by (simp add: channel_step_def ch_qual_def node Let_def reconcile_node_def fold_map o_def)
    obtain xs where x: "?S = ch_slots base m cm (Suc k) @ xs" using ch_slots_prefix [OF Suc.prems] by blast
    have "distinct ?S" using rdy by (simp add: slots_ready_def)
    then have "distinct (ch_slots base m cm k @ map ((+) ?node) edge_offs)" "set (map ((+) ?node) edge_offs) \<subseteq> set ?S"
      using True by (simp_all only: x ch_slots_Suc if_True distinct_append set_append) auto
    from swept_edges [OF rdy this(2,1) w] show ?thesis using True by (simp only: step e ch_slots_Suc if_True)
  next
    case False
    then have "\<exists>q. channel_step vq base cm k (n, m1, qr) = (n, m1, q) \<and> cache_sound vq q"
      using vt node vm.ask_sound [OF cs, of "(?node, 8)"] cs by (auto simp: channel_step_def ch_qual_def Let_def)
    then obtain q where e: "channel_step vq base cm k (n, m1, qr) = (n, m1, q)" "cache_sound vq q" by blast
    then show ?thesis unfolding step e(1) using w False by (auto simp: ch_slots_Suc swept_def)
  qed
qed

text \<open>
  The pass clears exactly the stale edges: of every channel node an edge keeps its voice if the system
  says the voice, its vtable and its target are mapped, and is cleared if not; nothing else changes and
  the count is right. The cache changes no answer, as long as the map stands still.
\<close>
theorem stale_edges_cleared:
  assumes "map_stable vq" "rd64 m (resolve base 0x140E18520) = ss" "ed_canon ss" "rd64 m (ss + 0x38) = cm" "ed_canon cm"
    and "pass_ready base m cm" "S = ch_slots base m cm 32"
  shows "let (n, m') = sound_reconcile vq base True True m in
     (\<forall>s \<in> set S. rd64 m' s = (if rd64 m s \<noteq> 0 \<and> \<not> voice_ok vq m (rd64 m s) then 0 else rd64 m s)) \<and>
     (\<forall>x. off_slots S x \<longrightarrow> m' x = m x) \<and>
     n = length (filter (\<lambda>s. rd64 m s \<noteq> 0 \<and> \<not> voice_ok vq m (rd64 m s)) S)"
proof -
  obtain n m' qr where st: "for_range 0 32 (channel_step vq base cm) (0, m, []) = (n, m', qr)"
    by (cases "for_range 0 32 (channel_step vq base cm) (0, m, [])")
  have "swept vq m S S (n, m', qr)" using swept_channels [OF assms(6,1), of 32] st assms(7) by simp
  moreover have "sound_reconcile vq base True True m = (n, m')" using assms(2-5) st by (simp add: sound_reconcile_def Let_def)
  moreover have "(cleared vq m (rd64 m s) \<noteq> rd64 m s) = (rd64 m s \<noteq> 0 \<and> \<not> voice_ok vq m (rd64 m s))" for s
    by (simp add: cleared_def)
  ultimately show ?thesis by (simp add: swept_def same_off_def cleared_def)
qed

definition edge_os :: os_map where
  "edge_os p =
     (if p < 0x80000 then Some \<lparr>mb_base = p div 4096 * 4096, mb_size = 0x80000 - p div 4096 * 4096, mb_state = 0x1000, mb_protect = 0x4\<rparr>
      else None)"

definition edge_mem :: gmem where
  "edge_mem = wr64 0x140E18520 0x20000 (wr64 0x20038 0x30000 (wr64 0x30008 0x40000 (wr64 0x40000 0x140BAD4B0
     (wr64 0x40018 0x50000 (wr64 0x40020 0x80000 (wr64 0x50000 0x60000 (wr64 0x60080 0x70000 (\<lambda>_. 0))))))))"

lemma edge_os_stable: "map_stable edge_os"
proof -
  have "p div 4096 * 4096 \<le> p" "p < 0x80000 \<Longrightarrow> p div 4096 * 4096 < 0x80000" for p :: nat by simp_all
  then show ?thesis by (auto simp: map_stable_def edge_os_def region_ok_def)
qed

lemma rd64_blank: "rd64 (\<lambda>_. 0) a = 0"
  by (simp add: rd64_def peek_bytes_def dec64_def upt_rec)

lemma edge_mem_reads:
  "rd64 edge_mem 0x140E18520 = 0x20000" "rd64 edge_mem 0x20038 = 0x30000" "rd64 edge_mem 0x30008 = 0x40000"
  "rd64 edge_mem 0x40000 = 0x140BAD4B0" "rd64 edge_mem 0x40018 = 0x50000" "rd64 edge_mem 0x40020 = 0x80000"
  "rd64 edge_mem 0x40028 = 0" "rd64 edge_mem 0x40030 = 0" "rd64 edge_mem 0x50000 = 0x60000" "rd64 edge_mem 0x60080 = 0x70000"
  "rd64 edge_mem 0x80000 = 0" "rd64 edge_mem 0 = 0" "rd64 edge_mem 0x80 = 0"
  by (simp_all add: edge_mem_def mem_simps apart_def rd64_blank)

lemma edge_table: "0 < i \<Longrightarrow> i < 32 \<Longrightarrow> rd64 edge_mem (0x30008 + i * 8) = 0"
  by (simp add: edge_mem_def mem_simps apart_def rd64_blank)

lemma edge_slots: "ch_slots IMAGE_BASE edge_mem 0x30000 32 = [0x40018, 0x40020, 0x40028, 0x40030]"
proof -
  have "[0..<32] = 0 # [1..<32]" by (simp add: upt_conv_Cons)
  moreover have "filter (ch_qual IMAGE_BASE edge_mem 0x30000) [1..<32] = []"
    using edge_table by (auto simp: filter_empty_conv ch_qual_def node_at_ch_def ed_canon_def)
  ultimately show ?thesis
    by (simp add: ch_slots_def ch_qual_def node_at_ch_def edge_mem_reads ed_canon_def resolve_def IMAGE_BASE_def edge_offs_def)
qed

lemma edge_pass: "pass_ready IMAGE_BASE edge_mem 0x30000"
proof -
  have z: "node_at_ch edge_mem 0x30000 i = (if i = 0 then 0x40000 else 0)" if "i < 32" for i
    using edge_table [of i] that by (auto simp: node_at_ch_def edge_mem_reads)
  then show ?thesis
    by (auto simp: pass_ready_def edge_slots slots_ready_def cell_off_def apart_def edge_mem_reads list_all_iff ed_canon_def)
qed

lemma edge_live: "voice_ok edge_os edge_mem 0x50000" "\<not> voice_ok edge_os edge_mem 0x80000"
  by (simp_all add: voice_ok_def plain_readable_def edge_mem_reads edge_os_def ed_canon_def region_ok_def
      MEM_COMMIT_FLAG_def PAGE_RW_MASK_def PAGE_BARRED_def)

lemma edge_addr: "resolve IMAGE_BASE 0x140E18520 = 0x140E18520" "resolve IMAGE_BASE 0x140BAD4B0 = 0x140BAD4B0"
  by (simp_all add: resolve_def IMAGE_BASE_def)

theorem stale_edges_cleared_witness:
  "fst (sound_reconcile edge_os IMAGE_BASE True True edge_mem) = 1 \<and>
   rd64 (snd (sound_reconcile edge_os IMAGE_BASE True True edge_mem)) 0x40018 = 0x50000 \<and>
   rd64 (snd (sound_reconcile edge_os IMAGE_BASE True True edge_mem)) 0x40020 = 0"
  using stale_edges_cleared [OF edge_os_stable refl _ refl _ _ refl, of edge_mem IMAGE_BASE] edge_pass edge_live
  by (simp add: edge_slots edge_mem_reads edge_addr ed_canon_def Let_def split_def)

end
