(* ===== verification/Sound_Preserve.thy ===== *)
theory Sound_Preserve
  imports Sound_Edges
begin

text \<open>
  \<open>src/src/sound_preserve.cpp\<close>: the vtables of the descriptors of busy sound slots, taken before the world
  is frozen and, when the write-back is armed, put back after a load into the slots that still hold them.
  The numbers that are only logged are left out.
\<close>

unbundle bit_operations_syntax

record sp_env =
  sp_arena :: arena
  sp_os :: os_map
  sp_base :: nat

definition SP_MOD :: nat where "SP_MOD = 0x140000000"
definition SP_MGR_OFF :: nat where "SP_MGR_OFF = 0x29B0"
definition SP_SLOT0 :: nat where "SP_SLOT0 = 0x90"
definition SP_STRIDE :: nat where "SP_STRIDE = 0x180"
definition SP_BUSY :: nat where "SP_BUSY = 0x18"
definition SP_DESC :: nat where "SP_DESC = 0x168"
definition SP_NSLOT :: nat where "SP_NSLOT = 64"

definition sp_canon :: "nat \<Rightarrow> bool" where "sp_canon p \<longleftrightarrow> 0x10000 \<le> p \<and> p < 0x800000000000"

definition sp_readable8 :: "sp_env \<Rightarrow> nat \<Rightarrow> bool" where
  "sp_readable8 e p =
     (if \<not> sp_canon p then False
      else if is_arena_addr (sp_arena e) p then is_committed_addr (sp_arena e) p
      else case sp_os e p of None \<Rightarrow> False
        | Some b \<Rightarrow> if mb_state b \<noteq> MEM_COMMIT_FLAG then False
                    else if mb_protect b AND PAGE_BARRED \<noteq> 0 then False else True)"

definition sp_rd :: "sp_env \<Rightarrow> gmem \<Rightarrow> nat \<Rightarrow> nat" where
  "sp_rd e m p = (if sp_readable8 e p then rd64 m p else 0)"

definition sp_in_image :: "nat \<Rightarrow> bool" where "sp_in_image p \<longleftrightarrow> SP_MOD \<le> p \<and> p < SP_MOD + 0x1000000"

record sp_cap =
  sp_slot :: nat
  sp_desc :: nat
  sp_vtable :: nat

record sound_pres =
  sp_on :: bool
  sp_wb :: bool
  sp_caps :: "sp_cap list"

definition sp_toggle :: "sound_pres \<Rightarrow> sound_pres" where "sp_toggle st = st\<lparr>sp_wb := \<not> sp_wb st\<rparr>"

definition walk_slot :: "sp_env \<Rightarrow> gmem \<Rightarrow> (nat \<Rightarrow> nat \<Rightarrow> 's \<Rightarrow> 's) \<Rightarrow> nat \<Rightarrow> nat \<Rightarrow> 's \<Rightarrow> 's" where
  "walk_slot e m cb mgr i s =
     (let slot = mgr + SP_SLOT0 + i * SP_STRIDE in
      if \<not> sp_readable8 e (slot + SP_BUSY) then s
      else if m (slot + SP_BUSY) = 0 then s
      else
        let desc = sp_rd e m (slot + SP_DESC) in
        if \<not> sp_canon desc \<or> \<not> sp_readable8 e desc then s else cb slot desc s)"

definition walk_slots :: "sp_env \<Rightarrow> gmem \<Rightarrow> (nat \<Rightarrow> nat \<Rightarrow> 's \<Rightarrow> 's) \<Rightarrow> 's \<Rightarrow> 's" where
  "walk_slots e m cb =
     fold (\<lambda>E s. if \<not> sp_readable8 e E then s
                 else for_range 0 SP_NSLOT (walk_slot e m cb (E + SP_MGR_OFF)) s)
       [sp_rd e m (resolve (sp_base e) 0x140E18520), resolve (sp_base e) 0x140D533E0]"

definition sp_capture :: "sp_env \<Rightarrow> gmem \<Rightarrow> sound_pres \<Rightarrow> sound_pres" where
  "sp_capture e m st =
     (if \<not> sp_on st then st
      else st\<lparr>sp_caps := walk_slots e m
        (\<lambda>slot desc cs. if length cs < 256
           then cs @ [\<lparr>sp_slot = slot, sp_desc = desc, sp_vtable = sp_rd e m desc\<rparr>] else cs) []\<rparr>)"

definition sp_restore_one :: "sp_env \<Rightarrow> bool \<Rightarrow> sp_cap \<Rightarrow> gmem \<Rightarrow> gmem" where
  "sp_restore_one e wb c m =
     (if \<not> sp_readable8 e (sp_slot c + SP_BUSY) \<or> m (sp_slot c + SP_BUSY) = 0 then m
      else if sp_rd e m (sp_slot c + SP_DESC) \<noteq> sp_desc c then m
      else if \<not> sp_readable8 e (sp_desc c) then m
      else
        let cur = rd64 m (sp_desc c) in
        if cur = sp_vtable c then m
        else if wb \<and> sp_in_image (sp_vtable c) then wr64 (sp_desc c) (sp_vtable c) m else m)"

definition sp_restore :: "sp_env \<Rightarrow> sound_pres \<Rightarrow> gmem \<Rightarrow> gmem" where
  "sp_restore e st m = (if \<not> sp_on st then m else fold (sp_restore_one e (sp_wb st)) (sp_caps st) m)"

section \<open>What is captured\<close>

lemma walk_slots_inv:
  assumes "P s" "\<And>slot desc s. sp_readable8 e desc \<Longrightarrow> P s \<Longrightarrow> P (cb slot desc s)"
  shows "P (walk_slots e m cb s)"
proof -
  have one: "P (walk_slot e m cb mgr i s)" if "P s" for mgr i s
    using that assms(2) by (simp add: walk_slot_def Let_def)
  have "P (if \<not> sp_readable8 e E then s else for_range 0 SP_NSLOT (walk_slot e m cb (E + SP_MGR_OFF)) s)" if "P s" for E s
    using that one by (auto intro!: for_range_invariant [of P])
  then show ?thesis unfolding walk_slots_def using assms(1) by simp
qed

definition captured_in :: "gmem \<Rightarrow> sp_cap list \<Rightarrow> bool" where
  "captured_in m cs \<longleftrightarrow> (\<forall>c \<in> set cs. sp_vtable c = rd64 m (sp_desc c))"

lemma capture_vtables:
  assumes "sp_on st"
  shows "captured_in m (sp_caps (sp_capture e m st))"
proof -
  have "captured_in m (walk_slots e m (\<lambda>slot desc cs. if length cs < 256
     then cs @ [\<lparr>sp_slot = slot, sp_desc = desc, sp_vtable = sp_rd e m desc\<rparr>] else cs) [])"
    by (rule walk_slots_inv) (auto simp: captured_in_def sp_rd_def)
  then show ?thesis using assms by (simp add: sp_capture_def)
qed

section \<open>What is put back\<close>

text \<open>The slot is still busy and still holds the descriptor.\<close>

definition still_bound :: "sp_env \<Rightarrow> gmem \<Rightarrow> sp_cap \<Rightarrow> bool" where
  "still_bound e m c \<longleftrightarrow> sp_readable8 e (sp_slot c + SP_BUSY) \<and> m (sp_slot c + SP_BUSY) \<noteq> 0 \<and>
     sp_rd e m (sp_slot c + SP_DESC) = sp_desc c \<and> sp_readable8 e (sp_desc c)"

definition put_back :: "sp_env \<Rightarrow> gmem \<Rightarrow> bool \<Rightarrow> sp_cap \<Rightarrow> nat" where
  "put_back e m wb c =
     (if wb \<and> still_bound e m c \<and> sp_in_image (sp_vtable c) then sp_vtable c else rd64 m (sp_desc c))"

definition caps_apart :: "sp_cap list \<Rightarrow> bool" where
  "caps_apart cs \<longleftrightarrow> (let S = map sp_desc cs in
     distinct S \<and> list_all (\<lambda>s. list_all (\<lambda>t. s = t \<or> apart s 8 t 8) S) S \<and>
     list_all (\<lambda>c. off_slots S (sp_slot c + SP_BUSY) \<and> cell_off S (sp_slot c + SP_DESC)) cs)"

definition put_state :: "sp_env \<Rightarrow> gmem \<Rightarrow> bool \<Rightarrow> sp_cap list \<Rightarrow> nat set \<Rightarrow> gmem \<Rightarrow> bool" where
  "put_state e m wb cs D m1 \<longleftrightarrow> same_off (map sp_desc cs) m m1 \<and>
     (\<forall>c \<in> set cs. rd64 m1 (sp_desc c) = (if sp_desc c \<in> D then put_back e m wb c else rd64 m (sp_desc c)))"

lemma put_one:
  assumes ap: "caps_apart cs" and c: "c \<in> set cs" "sp_desc c \<notin> D" and vt: "sp_vtable c < 2 ^ 64"
    and p: "put_state e m wb cs D m1"
  shows "put_state e m wb cs (insert (sp_desc c) D) (sp_restore_one e wb c m1)"
proof -
  let ?S = "map sp_desc cs"
  have so: "same_off ?S m m1" and d: "rd64 m1 (sp_desc c) = rd64 m (sp_desc c)" using p c by (auto simp: put_state_def)
  have off: "off_slots ?S (sp_slot c + SP_BUSY)" "cell_off ?S (sp_slot c + SP_DESC)" and dis: "distinct ?S"
    using ap c(1) by (auto simp: caps_apart_def Let_def list_all_iff)
  have busy: "m1 (sp_slot c + SP_BUSY) = m (sp_slot c + SP_BUSY)" using so off(1) by (simp add: same_off_def)
  have slot: "sp_rd e m1 (sp_slot c + SP_DESC) = sp_rd e m (sp_slot c + SP_DESC)"
    using rd64_same_off [OF so off(2)] by (simp add: sp_rd_def)
  have r: "sp_restore_one e wb c m1 = (if wb \<and> still_bound e m c \<and> sp_in_image (sp_vtable c) \<and> rd64 m (sp_desc c) \<noteq> sp_vtable c
      then wr64 (sp_desc c) (sp_vtable c) m1 else m1)"
    by (simp add: sp_restore_one_def still_bound_def busy slot d Let_def)
  have same: "c' = c" if "c' \<in> set cs" "sp_desc c' = sp_desc c" for c'
    using dis that c(1) by (auto simp: distinct_map inj_on_def)
  have far: "apart (sp_desc c') 8 (sp_desc c) 8" if "c' \<in> set cs" "sp_desc c' \<noteq> sp_desc c" for c'
    using ap that c(1) by (auto simp: caps_apart_def Let_def list_all_iff)
  show ?thesis
  proof (cases "wb \<and> still_bound e m c \<and> sp_in_image (sp_vtable c) \<and> rd64 m (sp_desc c) \<noteq> sp_vtable c")
    case True
    have "rd64 (wr64 (sp_desc c) (sp_vtable c) m1) (sp_desc c') =
        (if sp_desc c' \<in> insert (sp_desc c) D then put_back e m wb c' else rd64 m (sp_desc c'))" if c': "c' \<in> set cs" for c'
    proof (cases "sp_desc c' = sp_desc c")
      case True2: True
      then show ?thesis using same [OF c' True2] True vt by (simp add: put_back_def c64.rd_wr)
    next
      case False
      then show ?thesis using p c' far [OF c' False] by (simp add: c64.rd_other put_state_def)
    qed
    moreover have "same_off ?S m (wr64 (sp_desc c) (sp_vtable c) m1)"
      using so c(1) by (auto simp: same_off_def off_slots_def list_all_iff c64.wr_outside)
    moreover have w: "sp_restore_one e wb c m1 = wr64 (sp_desc c) (sp_vtable c) m1" using True unfolding r by (rule if_P)
    ultimately show ?thesis unfolding put_state_def w by blast
  next
    case False
    then have "put_back e m wb c = rd64 m (sp_desc c)" by (auto simp: put_back_def)
    moreover have "sp_restore_one e wb c m1 = m1" using False unfolding r by (rule if_not_P)
    ultimately show ?thesis using p d by (auto simp: put_state_def dest: same)
  qed
qed

lemma put_all:
  assumes "caps_apart cs" "set ds \<subseteq> set cs" "distinct (map sp_desc ds)" "\<forall>c \<in> set cs. sp_vtable c < 2 ^ 64"
    "D \<inter> sp_desc ` set ds = {}" "put_state e m wb cs D m1"
  shows "put_state e m wb cs (D \<union> sp_desc ` set ds) (fold (sp_restore_one e wb) ds m1)"
  using assms
proof (induction ds arbitrary: D m1)
  case (Cons c ds)
  have "put_state e m wb cs (insert (sp_desc c) D) (sp_restore_one e wb c m1)"
    using Cons.prems by (intro put_one) auto
  from Cons.IH [OF Cons.prems(1) _ _ Cons.prems(4) _ this] Cons.prems(2,3,5) show ?case by (auto simp: insert_commute)
qed simp

text \<open>
  With the write-back armed a load cannot lose a captured vtable: the descriptor of a slot that is
  still busy and still holds it has, after the pass, the vtable it had before the load, if that vtable
  lies in the fixed range; every other descriptor and every other byte is what the load left.
\<close>
theorem vtables_put_back:
  assumes "sp_on st" "cs = sp_caps (sp_capture e m0 st)" "caps_apart cs" "c \<in> set cs"
  shows "rd64 (sp_restore e (sp_capture e m0 st) m) (sp_desc c) =
      (if sp_wb st \<and> still_bound e m c \<and> sp_in_image (rd64 m0 (sp_desc c)) then rd64 m0 (sp_desc c) else rd64 m (sp_desc c)) \<and>
    (\<forall>x. off_slots (map sp_desc cs) x \<longrightarrow> sp_restore e (sp_capture e m0 st) m x = m x)"
proof -
  have cap: "captured_in m0 cs" using capture_vtables [OF assms(1)] assms(2) by simp
  have "put_state e m (sp_wb st) cs ({} \<union> sp_desc ` set cs) (fold (sp_restore_one e (sp_wb st)) cs m)"
    using assms(3) cap
    by (intro put_all) (auto simp: caps_apart_def Let_def put_state_def same_off_def captured_in_def c64.rd_less [simplified])
  moreover have "sp_restore e (sp_capture e m0 st) m = fold (sp_restore_one e (sp_wb st)) cs m"
    using assms(1,2) by (simp add: sp_restore_def sp_capture_def)
  ultimately show ?thesis using cap assms(4) by (simp add: put_state_def put_back_def captured_in_def same_off_def)
qed

text \<open>One busy slot of the first engine, its descriptor's vtable lost by the load.\<close>

definition sp_demo_arena :: arena where
  "sp_demo_arena = \<lparr>ar_ready = True, ar_base = 0x10000000000, ar_wm = 0, ar_wm_peak = 0, ar_committed = (\<lambda>_. True),
     ar_committed_n = 0, ar_resv = [], ar_free = [], ar_mem = (\<lambda>_. 0), ar_donated = []\<rparr>"

definition sp_demo_env :: sp_env where
  "sp_demo_env = \<lparr>sp_arena = sp_demo_arena, sp_os = (\<lambda>_. Some \<lparr>mb_base = 0, mb_size = 2 ^ 47, mb_state = 0x1000, mb_protect = 0x4\<rparr>),
     sp_base = IMAGE_BASE\<rparr>"

definition sp_demo_mem :: gmem where
  "sp_demo_mem = wr64 0x140E18520 0x20000 (wr64 0x22A58 1 (wr64 0x22BA8 0x40000 (wr64 0x40000 0x140BB0000 (\<lambda>_. 0))))"

lemma sp_demo_readable: "sp_readable8 sp_demo_env p \<longleftrightarrow> sp_canon p"
  by (simp add: sp_readable8_def sp_demo_env_def sp_demo_arena_def is_arena_addr_def is_committed_addr_def MEM_COMMIT_FLAG_def PAGE_BARRED_def)

lemma sp_demo_reads:
  "rd64 sp_demo_mem 0x140E18520 = 0x20000" "rd64 sp_demo_mem 0x22BA8 = 0x40000" "rd64 sp_demo_mem 0x40000 = 0x140BB0000"
  by (simp_all add: sp_demo_mem_def mem_simps apart_def)

lemma sp_demo_bytes:
  "sp_demo_mem 0x22A58 = 1" "x < 0x22A58 \<or> 0x22A60 \<le> x \<and> x < 0x22BA8 \<or> 0x22BB0 \<le> x \<and> x < 0x40000 \<or> 0x40008 \<le> x \<and> x < 0x140E18520
     \<Longrightarrow> sp_demo_mem x = 0"
  by (auto simp: sp_demo_mem_def c64.wr_outside) (simp add: wr64_def poke_bytes_def enc64_def enc32_def nth_append)

lemma slot_idle: "m (mgr + SP_SLOT0 + i * SP_STRIDE + SP_BUSY) = 0 \<Longrightarrow> walk_slot e m cb mgr i s = s"
  by (simp add: walk_slot_def Let_def)

lemma sp_demo_capture:
  assumes "sp_on st"
  shows "sp_caps (sp_capture sp_demo_env sp_demo_mem st) = [\<lparr>sp_slot = 0x22A40, sp_desc = 0x40000, sp_vtable = 0x140BB0000\<rparr>]"
proof -
  let ?w = "\<lambda>E cb. for_range 0 SP_NSLOT (walk_slot sp_demo_env sp_demo_mem cb (E + SP_MGR_OFF))"
  have one: "?w 0x20000 cb s = cb 0x22A40 0x40000 s" for cb :: "nat \<Rightarrow> nat \<Rightarrow> sp_cap list \<Rightarrow> sp_cap list" and s
  proof -
    have "for_range 0 64 f s = f 0 s" if "\<And>i s. Suc 0 \<le> i \<Longrightarrow> i < 64 \<Longrightarrow> f i s = s" for f :: "nat \<Rightarrow> sp_cap list \<Rightarrow> sp_cap list"
      using that by (intro for_range_first) simp_all
    moreover have "walk_slot sp_demo_env sp_demo_mem cb (0x20000 + SP_MGR_OFF) i s = s" if "Suc 0 \<le> i" "i < 64" for i s
      using that by (intro slot_idle sp_demo_bytes(2)) (simp add: SP_MGR_OFF_def SP_SLOT0_def SP_STRIDE_def SP_BUSY_def)
    ultimately show ?thesis
      by (simp add: SP_NSLOT_def) (simp add: walk_slot_def SP_MGR_OFF_def SP_SLOT0_def SP_STRIDE_def SP_BUSY_def SP_DESC_def
          sp_demo_readable sp_demo_bytes sp_rd_def sp_canon_def sp_demo_reads)
  qed
  have two: "?w 0x140D533E0 cb s = s" for cb :: "nat \<Rightarrow> nat \<Rightarrow> sp_cap list \<Rightarrow> sp_cap list" and s
    by (intro for_range_idle slot_idle sp_demo_bytes(2)) (simp add: SP_NSLOT_def SP_MGR_OFF_def SP_SLOT0_def SP_STRIDE_def SP_BUSY_def)
  have r: "resolve (sp_base sp_demo_env) 0x140E18520 = 0x140E18520" "resolve (sp_base sp_demo_env) 0x140D533E0 = 0x140D533E0"
    by (simp_all add: sp_demo_env_def resolve_def IMAGE_BASE_def)
  show ?thesis using assms
    by (simp add: sp_capture_def walk_slots_def r one two sp_rd_def sp_demo_readable sp_canon_def sp_demo_reads)
qed

definition sp_demo_after :: gmem where "sp_demo_after = wr64 0x40000 0xF00000010 sp_demo_mem"

theorem vtables_put_back_witness:
  "rd64 sp_demo_after 0x40000 = 0xF00000010 \<and>
   rd64 (sp_restore sp_demo_env (sp_capture sp_demo_env sp_demo_mem \<lparr>sp_on = True, sp_wb = True, sp_caps = []\<rparr>) sp_demo_after) 0x40000
     = 0x140BB0000"
proof -
  let ?st = "\<lparr>sp_on = True, sp_wb = True, sp_caps = []\<rparr>" and ?c = "\<lparr>sp_slot = 0x22A40, sp_desc = 0x40000, sp_vtable = 0x140BB0000\<rparr>"
  have caps: "sp_caps (sp_capture sp_demo_env sp_demo_mem ?st) = [?c]" by (rule sp_demo_capture) simp
  have ap: "caps_apart [?c]"
    by (simp add: caps_apart_def off_slots_def cell_off_def apart_def SP_BUSY_def SP_DESC_def)
  have "sp_demo_after 0x22A58 = 1" "rd64 sp_demo_after 0x22BA8 = 0x40000" "rd64 sp_demo_after 0x40000 = 0xF00000010"
    by (simp_all add: sp_demo_after_def sp_demo_bytes(1) sp_demo_reads mem_simps apart_def c64.wr_outside)
  then have b: "still_bound sp_demo_env sp_demo_after ?c" "rd64 sp_demo_after 0x40000 = 0xF00000010"
    by (simp_all add: still_bound_def SP_BUSY_def SP_DESC_def sp_demo_readable sp_canon_def sp_rd_def)
  show ?thesis
    using vtables_put_back [of ?st "[?c]" sp_demo_env sp_demo_mem ?c sp_demo_after] caps ap b
    by (simp add: sp_demo_reads sp_in_image_def SP_MOD_def)
qed

text \<open>The range is that of the preferred load address: with the image elsewhere nothing is ever put back.\<close>

lemma moved_image_unguarded:
  assumes "\<forall>c \<in> set (sp_caps st). \<not> sp_in_image (sp_vtable c)"
  shows "sp_restore e st m = m"
proof -
  have "fold (sp_restore_one e (sp_wb st)) cs m = m" if "\<forall>c \<in> set cs. \<not> sp_in_image (sp_vtable c)" for cs
    using that by (induction cs) (simp_all add: sp_restore_one_def Let_def)
  then show ?thesis using assms by (simp add: sp_restore_def)
qed

end
