(* ===== verification/Char_Select.thy ===== *)
theory Char_Select
  imports Engine_Arm Game_Memory
begin

text \<open>
  \<open>src/src/net_charsel.cpp\<close>: where the game is (the scene manager and the flow director are read through
  fixed addresses of the image), the relay that starts with the session, and the pad assignment both
  machines must share. The probes that log what the director holds are left out.
\<close>

definition SCENE_MGR :: nat where "SCENE_MGR = 0x140E17A80"
definition SC_CHRSEL :: nat where "SC_CHRSEL = 0x140D50128"
definition DIRECTOR :: nat where "DIRECTOR = 0x140D50E58"
definition ASSIGN :: nat where "ASSIGN = 0x140D510A0"
definition DEVMAP_OFF :: nat where "DEVMAP_OFF = 0x140"
definition RAWSTATE :: nat where "RAWSTATE = 0x140E174B8"
definition MERGE_OFF :: nat where "MERGE_OFF = 0xC30"

record charsel =
  cs_relay :: bool
  cs_in :: bool
  cs_frames :: nat

definition cs_init :: charsel where "cs_init = \<lparr>cs_relay = False, cs_in = False, cs_frames = 0\<rparr>"

text \<open>What a frame finds: the session, the link, the load address, the committed pages.\<close>

record cs_env =
  cv_running :: bool
  cv_link :: link_env
  cv_base :: nat
  cv_arena :: arena

definition rd_ptr :: "nat \<Rightarrow> gmem \<Rightarrow> nat \<Rightarrow> nat" where "rd_ptr base m ida = rd64 m (resolve base ida)"

definition current_scene :: "nat \<Rightarrow> gmem \<Rightarrow> nat" where
  "current_scene base m = (let mgr = rd_ptr base m SCENE_MGR in if mgr = 0 then 0 else rd64 m (mgr + 0x7040))"

definition gate_candidate :: "cs_env \<Rightarrow> gmem \<Rightarrow> bool" where
  "gate_candidate e m =
     (let bs = rd_ptr (cv_base e) m DIRECTOR in
      if bs = 0 \<or> \<not> is_committed_addr (cv_arena e) (bs + 0x358) then False
      else rd32 m (bs + 0x34C) = 5 \<and> rd32 m (bs + 0x354) \<noteq> 0)"

definition in_match_window :: "cs_env \<Rightarrow> gmem \<Rightarrow> bool" where
  "in_match_window e m =
     (let bs = rd_ptr (cv_base e) m DIRECTOR in
      if bs = 0 \<or> \<not> is_committed_addr (cv_arena e) (bs + 0x34C) then False
      else rd32 m (bs + 0x34C) = 8 \<or> rd32 m (bs + 0x34C) = 5)"

definition in_fight :: "cs_env \<Rightarrow> gmem \<Rightarrow> bool" where
  "in_fight e m =
     (let bs = rd_ptr (cv_base e) m DIRECTOR in
      bs \<noteq> 0 \<and> is_committed_addr (cv_arena e) (bs + 0x34C) \<and> rd32 m (bs + 0x34C) = 5)"

definition merge_off :: "nat \<Rightarrow> gmem \<Rightarrow> gmem" where
  "merge_off base m = (let b = rd_ptr base m RAWSTATE in if b \<noteq> 0 then m(b + MERGE_OFF := 1) else m)"

definition is_cs_scene :: "nat \<Rightarrow> nat \<Rightarrow> bool" where
  "is_cs_scene base scene \<longleftrightarrow>
     scene \<noteq> 0 \<and> (scene = resolve base SC_CHRSEL \<or> scene = resolve base 0x140D500F0 \<or> scene = resolve base 0x140D50168)"

definition force_devmap :: "cs_env \<Rightarrow> gmem \<Rightarrow> gmem" where
  "force_devmap e m =
     (let a = rd_ptr (cv_base e) m ASSIGN in
      if a \<noteq> 0 \<and> is_committed_addr (cv_arena e) (a + DEVMAP_OFF)
      then if rd32 m (a + DEVMAP_OFF) \<noteq> 0 \<or> rd32 m (a + DEVMAP_OFF + 4) \<noteq> 1
           then wr32 (a + DEVMAP_OFF + 4) 1 (wr32 (a + DEVMAP_OFF) 0 m) else m
      else m)"

definition charsel_frame :: "cs_env \<Rightarrow> engine_arm \<Rightarrow> charsel \<times> net_input \<times> gmem \<Rightarrow> (charsel \<times> net_input \<times> gmem) \<times> packet list" where
  "charsel_frame e ea s0 =
     (case s0 of (st, ni, m) \<Rightarrow>
        if \<not> cv_running e then ((st\<lparr>cs_relay := False, cs_in := False\<rparr>, ni, m), [])
        else
          let (ni1, ps) = (if \<not> cs_relay st then propose_epoch (cv_link e) 2 False ni else (ni, []));
              m1 = merge_off (cv_base e) m;
              here = is_cs_scene (cv_base e) (current_scene (cv_base e) m1);
              m2 = (if here \<or> ea_armed ea then force_devmap e m1 else m1);
              n = (if here then cs_frames st + 1 else cs_frames st)
          in ((\<lparr>cs_relay = True, cs_in = here, cs_frames = n\<rparr>, ni1, m2), ps))"

section \<open>The sides\<close>

definition map_ok :: "gmem \<Rightarrow> nat \<Rightarrow> bool" where
  "map_ok m a \<longleftrightarrow> rd32 m (a + DEVMAP_OFF) = 0 \<and> rd32 m (a + DEVMAP_OFF + 4) = 1"

lemma force_devmap_ok:
  assumes "rd_ptr (cv_base e) m ASSIGN = a" "a \<noteq> 0" "is_committed_addr (cv_arena e) (a + DEVMAP_OFF)"
  shows "map_ok (force_devmap e m) a"
    "x < a + DEVMAP_OFF \<or> a + DEVMAP_OFF + 8 \<le> x \<Longrightarrow> force_devmap e m x = m x"
  using assms by (auto simp: force_devmap_def map_ok_def c32.rd_wr c32.rd_other apart_def c32.wr_outside Let_def)

text \<open>
  The sides agree. In character select, and while the engine is armed, a frame of a running session
  leaves the pad assignment {0, 1} (slot 0 is the host, slot 1 the guest, on either machine); outside
  those windows it leaves the assignment alone. Besides it writes one byte, the merge switch, and
  without a session nothing.
\<close>
theorem sides_agree:
  assumes "rd_ptr (cv_base e) m RAWSTATE = b" "b \<noteq> 0" "rd_ptr (cv_base e) (m(b + MERGE_OFF := 1)) ASSIGN = a" "a \<noteq> 0"
    "is_committed_addr (cv_arena e) (a + DEVMAP_OFF)" "x \<noteq> b + MERGE_OFF"
  shows "case charsel_frame e ea (st, ni, m) of ((st', ni', m'), ps) \<Rightarrow>
     (cv_running e \<and> (cs_in st' \<or> ea_armed ea) \<longrightarrow> map_ok m' a) \<and>
     (x < a + DEVMAP_OFF \<or> a + DEVMAP_OFF + 8 \<le> x \<or> \<not> cs_in st' \<and> \<not> ea_armed ea \<longrightarrow> m' x = m x) \<and>
     (\<not> cv_running e \<longrightarrow> m' = m \<and> ni' = ni \<and> ps = [] \<and> \<not> cs_relay st' \<and> \<not> cs_in st')"
proof -
  have mm: "merge_off (cv_base e) m = m(b + MERGE_OFF := 1)" using assms(1,2) by (simp add: merge_off_def)
  show ?thesis
    using force_devmap_ok [OF assms(3-5)] assms(6) by (simp add: charsel_frame_def mm Let_def split_def)
qed

text \<open>A match in progress whose two sides were bound the other way round.\<close>

definition cs_demo_arena :: arena where
  "cs_demo_arena = \<lparr>ar_ready = True, ar_base = 0, ar_wm = 0, ar_wm_peak = 0, ar_committed = (\<lambda>_. True),
     ar_committed_n = 0, ar_resv = [], ar_free = [], ar_mem = (\<lambda>_. 0), ar_donated = []\<rparr>"

definition cs_demo_env :: cs_env where
  "cs_demo_env = \<lparr>cv_running = True, cv_link = \<lparr>le_rtt = 0, le_direct = True, le_armed = True, le_armed_delay = 2, le_now = 0\<rparr>,
     cv_base = IMAGE_BASE, cv_arena = cs_demo_arena\<rparr>"

definition cs_demo_mem :: gmem where
  "cs_demo_mem = wr64 0x140E174B8 0x20000 (wr64 0x140D510A0 0x30000 (wr32 0x30140 1 (wr32 0x30144 0 (\<lambda>_. 0))))"

lemma cs_demo_reads: "rd_ptr IMAGE_BASE cs_demo_mem RAWSTATE = 0x20000"
  "rd_ptr IMAGE_BASE (cs_demo_mem(0x20C30 := 1)) ASSIGN = 0x30000"
proof -
  have r: "resolve IMAGE_BASE RAWSTATE = 0x140E174B8" "resolve IMAGE_BASE ASSIGN = 0x140D510A0"
    by (simp_all add: resolve_def IMAGE_BASE_def RAWSTATE_def ASSIGN_def)
  have "rd64 (cs_demo_mem(0x20C30 := 1)) 0x140D510A0 = rd64 cs_demo_mem 0x140D510A0" by (rule c64.rd_bytes) auto
  then show "rd_ptr IMAGE_BASE (cs_demo_mem(0x20C30 := 1)) ASSIGN = 0x30000"
    by (simp add: rd_ptr_def r cs_demo_mem_def mem_simps apart_def)
  show "rd_ptr IMAGE_BASE cs_demo_mem RAWSTATE = 0x20000"
    by (simp add: rd_ptr_def r cs_demo_mem_def mem_simps apart_def)
qed

theorem sides_agree_witness:
  "rd32 cs_demo_mem 0x30140 = 1 \<and>
   map_ok (snd (snd (fst (charsel_frame cs_demo_env (arm_init\<lparr>ea_armed := True\<rparr>) (cs_init, ni_init, cs_demo_mem))))) 0x30000"
proof -
  have "rd32 cs_demo_mem 0x30140 = 1" by (simp add: cs_demo_mem_def mem_simps apart_def rd32_wr64)
  moreover have "is_committed_addr (cv_arena cs_demo_env) (0x30000 + DEVMAP_OFF)" "cv_base cs_demo_env = IMAGE_BASE" "cv_running cs_demo_env"
    by (simp_all add: cs_demo_env_def cs_demo_arena_def is_committed_addr_def DEVMAP_OFF_def ARENA_SIZE_def)
  ultimately show ?thesis
    using sides_agree [where e = cs_demo_env and m = cs_demo_mem and b = "0x20000" and a = "0x30000" and x = 0
        and ea = "arm_init\<lparr>ea_armed := True\<rparr>" and st = cs_init and ni = ni_init] cs_demo_reads
    by (simp add: split_def MERGE_OFF_def)
qed

section \<open>The relay\<close>

text \<open>Frames of one machine, each with the session, the arm, the input exchange and the memory it finds.\<close>

fun cs_run :: "(cs_env \<times> engine_arm \<times> net_input \<times> gmem) list \<Rightarrow> charsel \<Rightarrow> packet list" where
  "cs_run [] st = []"
| "cs_run ((e, ea, ni, m) # fs) st =
     (case charsel_frame e ea (st, ni, m) of ((st', _, _), ps) \<Rightarrow> ps @ cs_run fs st')"

fun session_starts :: "bool \<Rightarrow> (cs_env \<times> engine_arm \<times> net_input \<times> gmem) list \<Rightarrow> (cs_env \<times> net_input) list" where
  "session_starts was [] = []"
| "session_starts was ((e, ea, ni, m) # fs) =
     (if cv_running e \<and> \<not> was then (e, ni) # session_starts True fs else session_starts (cv_running e) fs)"

definition debounced :: "cs_env \<Rightarrow> net_input \<Rightarrow> bool" where
  "debounced e ni \<longleftrightarrow> ni_active ni \<and> elapsed (le_now (cv_link e)) (ni_last_activate_ms ni) < EPOCH_DEBOUNCE_MS"

lemma proposal_sent: "length (snd (propose_epoch (cv_link e) 2 False ni)) = (if debounced e ni then 0 else 1)"
  by (simp add: propose_epoch_def debounced_def set_delay_def Let_def)

lemma frame_relay: "cs_relay (fst (fst (charsel_frame e ea (st, ni, m)))) = cv_running e"
  by (simp add: charsel_frame_def Let_def split_def)

lemma frame_sends:
  "length (snd (charsel_frame e ea (st, ni, m))) = (if cv_running e \<and> \<not> cs_relay st \<and> \<not> debounced e ni then 1 else 0)"
  using proposal_sent [of e ni] by (auto simp: charsel_frame_def Let_def split_def split: if_splits)

lemma run_sends:
  "length (cs_run fs st) = length (filter (\<lambda>(e, ni). \<not> debounced e ni) (session_starts (cs_relay st) fs))"
proof (induction fs arbitrary: st)
  case (Cons f fs)
  obtain e ea ni m where f: "f = (e, ea, ni, m)" by (cases f)
  obtain st' ni' m' ps where r: "charsel_frame e ea (st, ni, m) = ((st', ni', m'), ps)" by (metis surj_pair)
  have "cs_relay st' = cv_running e" using frame_relay [of e ea st ni m] r by simp
  then show ?case using Cons.IH [of st'] frame_sends [of e ea st ni m] by (auto simp: f r)
qed simp

text \<open>
  One timeline per session: over any run of frames the relay announces a timeline once for each start
  of a session, unless the exchange has been activated just before, and never again while it lasts; so
  there are at most as many announcements as starts.
\<close>
theorem one_announcement:
  "length (cs_run fs st) = length (filter (\<lambda>(e, ni). \<not> debounced e ni) (session_starts (cs_relay st) fs)) \<and>
   length (cs_run fs st) \<le> length (session_starts (cs_relay st) fs)"
  using run_sends [of fs st] by (simp add: length_filter_le)

end
