(* ===== verification/Force_Dirty.thy ===== *)
theory Force_Dirty
  imports Game_Memory
begin

text \<open>
  The pages marked before a save so that the write watch reports them: \<open>arena::force_dirty_range\<close>, and the
  walk of \<open>src/src/resim.cpp\<close> over the scheduler's entities, their scene trees, bones and effect groups.
  Every mark writes a byte back unchanged, so the memory is an argument and only the set of marked pages
  and the node budget are state. The table of render sub-objects kept for the log is left out.
\<close>

record dirty =
  fd_ww :: "nat \<Rightarrow> bool"
  fd_tree :: nat

definition page_no :: "arena \<Rightarrow> nat \<Rightarrow> nat" where "page_no ar a = (a - ar_base ar) div PAGE_SIZE"

text \<open>\<open>*p = *p\<close>: the arena is watched, the rest is not.\<close>

definition rewrite_byte :: "arena \<Rightarrow> nat \<Rightarrow> (nat \<Rightarrow> bool) \<Rightarrow> nat \<Rightarrow> bool" where
  "rewrite_byte ar a ww = (if is_arena_addr ar a then ww(page_no ar a := True) else ww)"

definition touch_loop :: "arena \<Rightarrow> nat \<Rightarrow> nat \<Rightarrow> (nat \<Rightarrow> bool) \<Rightarrow> nat \<Rightarrow> bool" where
  "touch_loop ar base sz =
     for_range 0 ((sz + 4095) div 4096)
       (\<lambda>i ww. if is_committed_addr ar (base + i * 4096) then rewrite_byte ar (base + i * 4096) ww else ww)"

definition force_dirty_range :: "arena \<Rightarrow> nat \<Rightarrow> nat \<Rightarrow> nat \<Rightarrow> (nat \<Rightarrow> bool) \<Rightarrow> nat \<Rightarrow> bool" where
  "force_dirty_range ar base sz cap = touch_loop ar base (if cap \<noteq> 0 \<and> cap < sz then cap else sz)"

definition mark :: "((nat \<Rightarrow> bool) \<Rightarrow> nat \<Rightarrow> bool) \<Rightarrow> dirty \<Rightarrow> dirty" where "mark f st = st\<lparr>fd_ww := f (fd_ww st)\<rparr>"

section \<open>Scene trees\<close>

definition FD_NODE_BUDGET :: nat where "FD_NODE_BUDGET = 200000"

text \<open>The child loop, at most 256 siblings, each given to \<open>visit\<close>.\<close>

primrec child_walk :: "(nat \<Rightarrow> dirty \<Rightarrow> dirty) \<Rightarrow> arena \<Rightarrow> gmem \<Rightarrow> nat \<Rightarrow> nat \<Rightarrow> dirty \<Rightarrow> dirty" where
  "child_walk visit ar m 0 child st = st"
| "child_walk visit ar m (Suc n) child st =
     (if child = 0 \<or> \<not> is_committed_addr ar child then st
      else child_walk visit ar m n (rd64 m (child + 0x58)) (visit child st))"

text \<open>The recursion, with the levels that are left instead of the depth.\<close>

primrec scene_levels :: "arena \<Rightarrow> gmem \<Rightarrow> nat \<Rightarrow> nat \<Rightarrow> dirty \<Rightarrow> dirty" where
  "scene_levels ar m 0 node st = st"
| "scene_levels ar m (Suc r) node st =
     (if node = 0 \<or> \<not> is_committed_addr ar node then st
      else if FD_NODE_BUDGET < fd_tree st then st
      else let st1 = (mark (touch_loop ar node 0x7000) st)\<lparr>fd_tree := fd_tree st + 1\<rparr>
           in child_walk (scene_levels ar m r) ar m 256 (rd64 m (node + 0x08)) st1)"

definition force_dirty_scene_tree :: "arena \<Rightarrow> gmem \<Rightarrow> nat \<Rightarrow> nat \<Rightarrow> dirty \<Rightarrow> dirty" where
  "force_dirty_scene_tree ar m node depth = scene_levels ar m (9 - depth) node"

section \<open>Entities\<close>

record dirty_env =
  de_arena :: arena
  de_mem :: gmem
  de_base :: nat
  de_off :: bool
  de_bone_off :: bool
  de_effect :: bool
  de_audio :: bool

definition vt_off :: "nat \<Rightarrow> nat \<Rightarrow> nat" where "vt_off base vt = nat ((int vt - int base) mod 2 ^ 64)"

definition bone_block :: "dirty_env \<Rightarrow> nat \<Rightarrow> nat \<Rightarrow> nat \<Rightarrow> dirty \<Rightarrow> dirty" where
  "bone_block e ent off stride st =
     (let p = rd64 (de_mem e) (ent + off) in
      if \<not> de_bone_off e \<and> p \<noteq> 0 \<and> is_committed_addr (de_arena e) p
      then let sz = rd32 (de_mem e) (ent + 0x530) * stride + 0x10
           in mark (touch_loop (de_arena e) p (if 0x20000 < sz then 0x20000 else sz)) st
      else st)"

definition anim_part :: "dirty_env \<Rightarrow> nat \<Rightarrow> nat \<Rightarrow> dirty \<Rightarrow> dirty" where
  "anim_part e a sz st =
     (let p = rd64 (de_mem e) a in
      if p \<noteq> 0 \<and> is_arena_addr (de_arena e) p \<and> is_committed_addr (de_arena e) p
      then mark (touch_loop (de_arena e) p sz) st else st)"

definition force_dirty_entity :: "dirty_env \<Rightarrow> nat \<Rightarrow> dirty \<Rightarrow> dirty" where
  "force_dirty_entity e ent st0 =
     (let ar = de_arena e; m = de_mem e;
          st1 = force_dirty_scene_tree ar m ent 0 st0;
          off = vt_off (de_base e) (rd64 m (ent + 0x3A0));
          st2 = (if is_committed_addr ar (ent + 0x3A0) \<and> 0xA00000 \<le> off \<and> off < 0xC00000
                 then force_dirty_scene_tree ar m (ent + 0x3A0) 0 st1 else st1);
          st3 = fold (\<lambda>o' st. if is_committed_addr ar (ent + o')
                       then let ext = rd64 m (ent + o') in
                            if ext \<noteq> 0 \<and> is_committed_addr ar ext then force_dirty_scene_tree ar m ext 0 st else st
                       else st) [0x700, 0xAA0, 0x1318] st2;
          st4 = bone_block e ent 0x538 0xC0 st3;
          st5 = bone_block e ent 0x11B0 0x80 st4;
          ctrl = rd64 m (ent + 0x538)
      in if ctrl \<noteq> 0 \<and> is_arena_addr ar ctrl \<and> is_committed_addr ar ctrl
         then anim_part e (ctrl + 0x220) 0x2000 (anim_part e (ctrl + 0x18) 0x1000 st5) else st5)"

section \<open>Effects\<close>

primrec effect_children :: "dirty_env \<Rightarrow> nat \<Rightarrow> nat \<Rightarrow> dirty \<times> nat \<Rightarrow> dirty \<times> nat" where
  "effect_children e 0 child sn = sn"
| "effect_children e (Suc k) child sn =
     (case sn of (st, n) \<Rightarrow>
        let ar = de_arena e; m = de_mem e in
        if child = 0 \<or> \<not> is_committed_addr ar child then (st, n)
        else
          let st1 = mark (force_dirty_range ar child 0x280 0x280) st;
              sub = rd64 m (child + 0x130); ssz = rd32 m (child + 0x128);
              st2 = (if sub \<noteq> 0 \<and> is_committed_addr ar sub
                     then mark (force_dirty_range ar sub (if ssz \<noteq> 0 then ssz else 0x1000) 0x4000) st1 else st1);
              nx = rd64 m (child + 0x18)
          in if nx = child then (st2, n + 1) else effect_children e k nx (st2, n + 1))"

definition rd16 :: "gmem \<Rightarrow> nat \<Rightarrow> nat" where "rd16 m a = unat (m a) + 256 * unat (m (a + 1))"

definition force_dirty_effect_group :: "dirty_env \<Rightarrow> nat \<Rightarrow> dirty \<Rightarrow> dirty \<times> nat" where
  "force_dirty_effect_group e ent st0 =
     (let ar = de_arena e; m = de_mem e;
          st1 = mark (force_dirty_range ar ent 0x250 0x250) st0;
          slab = rd64 m (ent + 0x220); sz0 = rd32 m (ent + 0x210);
          sz = (if sz0 = 0 \<or> 0x40000 < sz0 then rd16 m (ent + 0x208) * 0x150 else sz0);
          st2 = (if slab \<noteq> 0 \<and> is_committed_addr ar slab then mark (force_dirty_range ar slab sz 0x40000) st1 else st1);
          tmpl = rd64 m (ent + 0x108);
          st3 = (if tmpl \<noteq> 0 \<and> is_committed_addr ar tmpl then mark (force_dirty_range ar tmpl 0x4000 0x40000) st2 else st2);
          head = rd64 m (ent + 0x218)
      in if head \<noteq> 0 \<and> is_committed_addr ar head \<and> rd64 m (head + 0x10) = ent
         then effect_children e 512 head (st3, 0) else (st3, 0))"

section \<open>The walk before a save\<close>

primrec entity_line :: "dirty_env \<Rightarrow> nat \<Rightarrow> nat \<Rightarrow> dirty \<Rightarrow> dirty" where
  "entity_line e 0 ent st = st"
| "entity_line e (Suc k) ent st =
     (if ent = 0 then st
      else if \<not> is_committed_addr (de_arena e) ent then st
      else
        let st1 = force_dirty_entity e ent st;
            st2 = (if de_effect e \<and> rd64 (de_mem e) ent = resolve (de_base e) 0x140BAE1D0
                   then fst (force_dirty_effect_group e ent st1) else st1)
        in entity_line e k (rd64 (de_mem e) (ent + 0x20)) st2)"

text \<open>\<open>audio\<close> is \<open>audio_group::force_dirty_all\<close>.\<close>

definition save_walk :: "((nat \<Rightarrow> bool) \<Rightarrow> nat \<Rightarrow> bool) \<Rightarrow> dirty_env \<Rightarrow> dirty \<Rightarrow> dirty" where
  "save_walk audio e st =
     (if de_off e then st
      else
        let ar = de_arena e; m = de_mem e; st0 = st\<lparr>fd_tree := 0\<rparr>;
            sunit = rd64 m (resolve (de_base e) 0x140E17698);
            st1 = (if sunit \<noteq> 0
                   then for_range 0 128 (\<lambda>line. mark (rewrite_byte ar (sunit + 0x58 + line * 0x30)))
                          (for_range 0 128 (\<lambda>line. entity_line e 512 (rd64 m (sunit + 0x58 + line * 0x30))) st0)
                   else st0);
            smain = rd64 m (resolve (de_base e) 0x140E177E8);
            st2 = (if smain \<noteq> 0 then for_range 0 2 (\<lambda>i. mark (rewrite_byte ar (smain + i * 4096))) st1 else st1)
        in if de_audio e then mark audio st2 else st2)"

section \<open>One range\<close>

lemma page_no_add: "ar_base ar \<le> a \<Longrightarrow> page_no ar (a + i * 4096) = page_no ar a + i"
  by (simp add: page_no_def PAGE_SIZE_def)

lemma committed_in_arena: "is_committed_addr ar a \<Longrightarrow> is_arena_addr ar a"
  by (auto simp: is_committed_addr_def is_arena_addr_def split: if_splits)

lemma touch_loop_pages:
  "touch_loop ar base sz ww p \<longleftrightarrow>
     ww p \<or> (\<exists>i < (sz + 4095) div 4096. is_committed_addr ar (base + i * 4096) \<and> p = page_no ar (base + i * 4096))"
proof -
  have "for_range 0 n (\<lambda>i ww. if is_committed_addr ar (base + i * 4096) then rewrite_byte ar (base + i * 4096) ww else ww) ww p \<longleftrightarrow>
     ww p \<or> (\<exists>i < n. is_committed_addr ar (base + i * 4096) \<and> p = page_no ar (base + i * 4096))" for n
    by (induction n) (auto simp: for_range_Suc rewrite_byte_def committed_in_arena less_Suc_eq)
  then show ?thesis by (simp add: touch_loop_def)
qed

lemma div_split: "(q + d) div 4096 = q div 4096 + (q mod 4096 + d) div (4096::nat)"
proof -
  have "q + d = q div 4096 * 4096 + (q mod 4096 + d)" by simp
  then show ?thesis by (simp only: div_mult_self3 [of 4096] zero_neq_numeral not_False_eq_True)
qed

lemma range_page:
  assumes c: "\<forall>x. base \<le> x \<and> x < base + sz \<longrightarrow> is_committed_addr ar x" and x: "base \<le> x" "x < base + sz"
    and "cap = 0 \<or> sz \<le> cap"
  shows "force_dirty_range ar base sz cap (\<lambda>_. False) (page_no ar x) \<longleftrightarrow>
    ((base - ar_base ar) mod 4096 + (x - base)) div 4096 \<le> (sz - 1) div 4096"
proof -
  have b: "ar_base ar \<le> base" using c [rule_format, of base] x by (auto simp: is_committed_addr_def split: if_splits)
  obtain d where d: "x = base + d" "d < sz" using x by (metis le_add_diff_inverse nat_add_left_cancel_less)
  let ?o = "(base - ar_base ar) mod 4096"
  have "x - ar_base ar = (base - ar_base ar) + d" using b d by simp
  then have px: "page_no ar x = page_no ar base + (?o + d) div 4096"
    using div_split [of "base - ar_base ar" d] by (simp only: page_no_def PAGE_SIZE_def)
  have n: "(sz + 4095) div 4096 = (sz - 1) div 4096 + 1" using d(2) by (cases sz) auto
  have "base + i * 4096 < base + sz" if "i \<le> (sz - 1) div 4096" for i
  proof -
    have "i * 4096 \<le> sz - 1" using that by (simp add: less_eq_div_iff_mult_less_eq)
    then show ?thesis using d(2) by simp
  qed
  then have com: "i \<le> (sz - 1) div 4096 \<Longrightarrow> is_committed_addr ar (base + i * 4096)" for i using c by simp
  have f: "force_dirty_range ar base sz cap = touch_loop ar base sz" using assms(4) by (auto simp: force_dirty_range_def)
  have "touch_loop ar base sz (\<lambda>_. False) (page_no ar x) \<longleftrightarrow> (\<exists>i \<le> (sz - 1) div 4096. (?o + d) div 4096 = i)"
    unfolding touch_loop_pages n using com px page_no_add [OF b] by (auto simp: less_Suc_eq_le)
  then show ?thesis using d(1) f by auto
qed

text \<open>
  C22. A range that straddles a page boundary is not marked to its end. The loop steps from the first byte
  page by page and stops at the length, so the page of the last byte is marked exactly if the offset of
  the first byte in its page leaves room for the rest; every earlier page is marked.
\<close>
theorem tail_page_missed:
  assumes "\<forall>x. base \<le> x \<and> x < base + sz \<longrightarrow> is_committed_addr ar x" "0 < sz" "cap = 0 \<or> sz \<le> cap"
  shows "(force_dirty_range ar base sz cap (\<lambda>_. False) (page_no ar (base + sz - 1)) \<longleftrightarrow>
       (base - ar_base ar) mod 4096 + (sz - 1) mod 4096 < 4096) \<and>
     (\<forall>x. base \<le> x \<and> x < base + sz \<and> page_no ar x < page_no ar (base + sz - 1) \<longrightarrow>
       force_dirty_range ar base sz cap (\<lambda>_. False) (page_no ar x))"
proof -
  let ?o = "(base - ar_base ar) mod 4096" and ?s = "sz - 1"
  note f = range_page [OF assms(1) _ _ assms(3)]
  have b: "ar_base ar \<le> base" using assms(1,2) by (auto simp: is_committed_addr_def split: if_splits)
  have e: "(?o + ?s) div 4096 = ?s div 4096 + (?s mod 4096 + ?o) div 4096" using div_split [of ?s ?o] by (simp only: add.commute)
  have l: "force_dirty_range ar base sz cap (\<lambda>_. False) (page_no ar (base + sz - 1)) \<longleftrightarrow> (?o + ?s) div 4096 \<le> ?s div 4096"
    using f [of "base + sz - 1"] assms(2) by simp
  have "force_dirty_range ar base sz cap (\<lambda>_. False) (page_no ar x)"
    if x: "base \<le> x" "x < base + sz" "page_no ar x < page_no ar (base + sz - 1)" for x
  proof -
    have pg: "page_no ar y = page_no ar base + (?o + (y - base)) div 4096" if "base \<le> y" for y
      using div_split [of "base - ar_base ar" "y - base"] that b by (simp add: page_no_def PAGE_SIZE_def)
    have "(?o + (x - base)) div 4096 < (?o + ?s) div 4096" using x pg [of x] pg [of "base + sz - 1"] assms(2) by simp
    moreover have "(?s mod 4096 + ?o) div 4096 \<le> 1" by simp
    ultimately show ?thesis using f [OF x(1,2)] e by linarith
  qed
  moreover have "(?o + ?s) div 4096 \<le> ?s div 4096 \<longleftrightarrow> ?o + ?s mod 4096 < 4096" unfolding e by (auto simp: div_eq_0_iff)
  ultimately show ?thesis using l by blast
qed

text \<open>A sound table at offset \<open>0xF40\<close> of its page: the field at \<open>+0xD8\<close> lies on the page that stays clean.\<close>

definition fd_demo_arena :: arena where
  "fd_demo_arena = \<lparr>ar_ready = True, ar_base = 0x100000, ar_wm = 0, ar_wm_peak = 0, ar_committed = (\<lambda>_. True),
     ar_committed_n = 0, ar_resv = [], ar_free = [], ar_mem = (\<lambda>_. 0), ar_donated = []\<rparr>"

theorem tail_page_missed_witness:
  "\<not> force_dirty_range fd_demo_arena 0x100F40 0xE8 0xE8 (\<lambda>_. False) (page_no fd_demo_arena (0x100F40 + 0xD8))"
proof -
  have "is_committed_addr fd_demo_arena x" if "0x100F40 \<le> x" "x < 0x101028" for x
    using that by (simp add: is_committed_addr_def fd_demo_arena_def ARENA_SIZE_def)
  then show ?thesis
    using tail_page_missed [of "0x100F40" "0xE8" fd_demo_arena "0xE8"] by (simp add: page_no_def PAGE_SIZE_def fd_demo_arena_def)
qed

section \<open>The whole walk\<close>

text \<open>What every part of the walk does: it unmarks nothing and counts no node once the budget is spent.\<close>

definition adds :: "dirty \<Rightarrow> dirty \<Rightarrow> bool" where
  "adds st st' \<longleftrightarrow> (\<forall>p. fd_ww st p \<longrightarrow> fd_ww st' p) \<and> fd_tree st \<le> fd_tree st' \<and> fd_tree st' \<le> max (fd_tree st) (FD_NODE_BUDGET + 1)"

lemma adds_refl [simp]: "adds st st"
  by (simp add: adds_def)

lemma adds_trans: "adds a b \<Longrightarrow> adds b c \<Longrightarrow> adds a c"
  by (auto simp: adds_def)

lemma adds_loop: "adds s st \<Longrightarrow> (\<And>i st. adds s st \<Longrightarrow> adds s (f i st)) \<Longrightarrow> adds s (for_range a b f st)"
  by (rule for_range_invariant)

lemma adds_fold: "adds s st \<Longrightarrow> (\<And>x st. adds s st \<Longrightarrow> adds s (f x st)) \<Longrightarrow> adds s (fold f xs st)"
  by (rule fold_invariant_list)

lemma adds_mark: "adds s st \<Longrightarrow> (\<And>ww p. ww p \<Longrightarrow> f ww p) \<Longrightarrow> adds s (mark f st)"
  by (simp add: adds_def mark_def)

lemma adds_touch: "adds s st \<Longrightarrow> adds s (mark (touch_loop ar a n) st)"
  "adds s st \<Longrightarrow> adds s (mark (force_dirty_range ar a n c) st)" "adds s st \<Longrightarrow> adds s (mark (rewrite_byte ar a) st)"
  by (auto intro!: adds_mark simp: touch_loop_pages force_dirty_range_def rewrite_byte_def)

lemma adds_children:
  "adds s st \<Longrightarrow> (\<And>c st. adds s st \<Longrightarrow> adds s (visit c st)) \<Longrightarrow> adds s (child_walk visit ar m n c st)"
  by (induction n arbitrary: c st) auto

lemma adds_counted: "adds s st \<Longrightarrow> \<not> FD_NODE_BUDGET < fd_tree st \<Longrightarrow> adds s (st\<lparr>fd_tree := fd_tree st + 1\<rparr>)"
  by (auto simp: adds_def)

lemma adds_levels: "adds s st \<Longrightarrow> adds s (scene_levels ar m r node st)"
proof (induction r arbitrary: node st)
  case (Suc r)
  have "adds s ((mark (touch_loop ar node 0x7000) st)\<lparr>fd_tree := fd_tree st + 1\<rparr>)" if "\<not> FD_NODE_BUDGET < fd_tree st"
    using adds_counted [OF adds_touch(1) [OF Suc.prems]] that by (simp add: mark_def)
  then show ?case using Suc by (auto simp: Let_def intro!: adds_children)
qed simp

lemma adds_if: "adds s a \<Longrightarrow> adds s b \<Longrightarrow> adds s (if c then a else b)"
  by simp

lemma adds_tree: "adds s st \<Longrightarrow> adds s (force_dirty_scene_tree ar m node d st)"
  by (simp add: force_dirty_scene_tree_def adds_levels)

lemma adds_parts: "adds s st \<Longrightarrow> adds s (bone_block e ent off k st)" "adds s st \<Longrightarrow> adds s (anim_part e a n st)"
  by (simp_all add: bone_block_def anim_part_def Let_def adds_touch)

lemma adds_entity: "adds s st \<Longrightarrow> adds s (force_dirty_entity e ent st)"
  unfolding force_dirty_entity_def Let_def by (intro adds_if adds_parts adds_fold adds_tree)

lemma adds_effect_children: "adds s st \<Longrightarrow> adds s (fst (effect_children e k c (st, n)))"
  by (induction k arbitrary: c st n) (auto simp: Let_def adds_touch)

lemma adds_effect: "adds s st \<Longrightarrow> adds s (fst (force_dirty_effect_group e ent st))"
  by (simp add: force_dirty_effect_group_def Let_def adds_touch adds_effect_children)

lemma adds_line: "adds s st \<Longrightarrow> adds s (entity_line e k ent st)"
  by (induction k arbitrary: ent st) (auto simp: Let_def adds_entity adds_effect)

text \<open>The entities a line walk visits.\<close>

primrec line_entities :: "arena \<Rightarrow> gmem \<Rightarrow> nat \<Rightarrow> nat \<Rightarrow> nat list" where
  "line_entities ar m 0 ent = []"
| "line_entities ar m (Suc k) ent =
     (if ent = 0 \<or> \<not> is_committed_addr ar ent then [] else ent # line_entities ar m k (rd64 m (ent + 0x20)))"

definition body_marked :: "arena \<Rightarrow> nat \<Rightarrow> dirty \<Rightarrow> bool" where
  "body_marked ar ent st \<longleftrightarrow> (\<forall>i < 7. is_committed_addr ar (ent + i * 4096) \<longrightarrow> fd_ww st (page_no ar (ent + i * 4096)))"

lemma body_marked_adds: "body_marked ar ent a \<Longrightarrow> adds a b \<Longrightarrow> body_marked ar ent b"
  by (simp add: body_marked_def adds_def)

lemma entity_body:
  assumes "ent \<noteq> 0" "is_committed_addr (de_arena e) ent" "fd_tree st \<le> FD_NODE_BUDGET"
  shows "body_marked (de_arena e) ent (force_dirty_entity e ent st)"
proof -
  let ?ar = "de_arena e" and ?m = "de_mem e"
  let ?s = "(mark (touch_loop ?ar ent 0x7000) st)\<lparr>fd_tree := fd_tree st + 1\<rparr>"
  have nine: "9 - 0 = Suc 8" by simp
  have "force_dirty_scene_tree ?ar ?m ent 0 st = child_walk (scene_levels ?ar ?m 8) ?ar ?m 256 (rd64 ?m (ent + 8)) ?s"
    using assms unfolding force_dirty_scene_tree_def nine scene_levels.simps by simp
  moreover have "body_marked ?ar ent ?s" by (auto simp: body_marked_def mark_def touch_loop_pages)
  ultimately have b: "body_marked ?ar ent (force_dirty_scene_tree ?ar ?m ent 0 st)"
    by (simp add: body_marked_adds adds_children adds_levels)
  have "adds (force_dirty_scene_tree ?ar ?m ent 0 st) (force_dirty_entity e ent st)"
    unfolding force_dirty_entity_def Let_def by (intro adds_if adds_parts adds_fold adds_tree adds_refl)
  then show ?thesis by (rule body_marked_adds [OF b])
qed

lemma line_marks:
  "ent \<in> set (line_entities (de_arena e) (de_mem e) k h) \<Longrightarrow> fd_tree (entity_line e k h st) \<le> FD_NODE_BUDGET
     \<Longrightarrow> body_marked (de_arena e) ent (entity_line e k h st)"
proof (induction k arbitrary: h st)
  case (Suc k)
  let ?st1 = "force_dirty_entity e h st"
  define st2 where "st2 = (if de_effect e \<and> rd64 (de_mem e) h = resolve (de_base e) 0x140BAE1D0
    then fst (force_dirty_effect_group e h ?st1) else ?st1)"
  have h: "h \<noteq> 0" "is_committed_addr (de_arena e) h" using Suc.prems(1) by (auto split: if_splits)
  then have r: "entity_line e (Suc k) h st = entity_line e k (rd64 (de_mem e) (h + 0x20)) st2" by (simp add: st2_def Let_def)
  have a: "adds ?st1 (entity_line e (Suc k) h st)" unfolding r st2_def by (intro adds_line adds_if adds_effect adds_refl)
  show ?case
  proof (cases "ent = h")
    case True
    have "fd_tree st \<le> FD_NODE_BUDGET"
      using a Suc.prems(2) adds_entity [OF adds_refl, of st e h] by (simp add: adds_def)
    then show ?thesis using body_marked_adds [OF entity_body a] h True by simp
  next
    case False
    then show ?thesis using Suc.IH [of "rd64 (de_mem e) (h + 0x20)" st2] Suc.prems h unfolding r by simp
  qed
qed simp

lemma lines_mark:
  fixes e :: dirty_env and heads :: "nat \<Rightarrow> nat"
  defines "F \<equiv> \<lambda>n st. for_range 0 n (\<lambda>line. entity_line e 512 (heads line)) st"
  shows "fd_tree (F n st) \<le> FD_NODE_BUDGET \<Longrightarrow> line < n \<Longrightarrow> ent \<in> set (line_entities (de_arena e) (de_mem e) 512 (heads line))
    \<Longrightarrow> body_marked (de_arena e) ent (F n st)"
proof (induction n)
  case (Suc n)
  have s: "F (Suc n) st = entity_line e 512 (heads n) (F n st)" by (simp add: F_def for_range_Suc)
  have a: "adds (F n st) (F (Suc n) st)" unfolding s by (rule adds_line [OF adds_refl])
  show ?case
  proof (cases "line = n")
    case True
    then show ?thesis using line_marks [of ent e 512 "heads n" "F n st"] Suc.prems unfolding s by simp
  next
    case False
    then show ?thesis using body_marked_adds [OF Suc.IH a] Suc.prems a by (simp add: adds_def)
  qed
qed simp

text \<open>
  C35. The walk before a save, when it is switched on (it is off by default), reaches every entity and is bounded:
  it unmarks nothing and counts at most one node more than the budget, whatever the scene trees look like; and
  unless the budget is spent it marks, for each of the first 512 entities linked into each of the 128 lines, the
  pages of its first byte and of the six addresses 4096 bytes further each, where committed. That is the first
  0x6001 bytes of the entity: the page of its last bytes may be missed.
\<close>
theorem save_walk_covers:
  assumes "\<not> de_off e" "rd64 (de_mem e) (resolve (de_base e) 0x140E17698) = sunit" "sunit \<noteq> 0"
    "\<And>ww p. ww p \<Longrightarrow> audio ww p" "save_walk audio e st = st'"
  shows "fd_tree st' \<le> FD_NODE_BUDGET + 1 \<and> (\<forall>p. fd_ww st p \<longrightarrow> fd_ww st' p) \<and>
     (fd_tree st' \<le> FD_NODE_BUDGET \<longrightarrow>
       (\<forall>line < 128. \<forall>ent \<in> set (line_entities (de_arena e) (de_mem e) 512 (rd64 (de_mem e) (sunit + 0x58 + line * 0x30))).
          body_marked (de_arena e) ent st'))"
proof -
  let ?m = "de_mem e"
  let ?heads = "\<lambda>line. rd64 ?m (sunit + 0x58 + line * 0x30)"
  let ?w = "for_range 0 128 (\<lambda>line. entity_line e 512 (?heads line)) (st\<lparr>fd_tree := 0\<rparr>)"
  have "adds (st\<lparr>fd_tree := 0\<rparr>) ?w" by (intro adds_loop adds_refl adds_line)
  moreover have w: "adds ?w st'"
    unfolding assms(5) [symmetric] save_walk_def Let_def using assms(1-4)
    by (simp add: adds_if adds_mark adds_loop adds_touch)
  ultimately have "adds (st\<lparr>fd_tree := 0\<rparr>) st'" by (rule adds_trans)
  moreover have "body_marked (de_arena e) ent st'"
    if "fd_tree st' \<le> FD_NODE_BUDGET" "line < 128" "ent \<in> set (line_entities (de_arena e) ?m 512 (?heads line))" for line ent
    using that w by (intro body_marked_adds [OF lines_mark w]) (auto simp: adds_def)
  ultimately show ?thesis by (auto simp: adds_def)
qed

text \<open>One entity on the first line, with nothing below it.\<close>

definition fd_demo_mem :: gmem where "fd_demo_mem = wr64 0x140E17698 0x200000 (wr64 0x200058 0x300000 (\<lambda>_. 0))"

definition fd_demo :: dirty_env where
  "fd_demo = \<lparr>de_arena = fd_demo_arena, de_mem = fd_demo_mem, de_base = IMAGE_BASE, de_off = False, de_bone_off = False,
     de_effect = False, de_audio = False\<rparr>"

lemma fd_demo_reads:
  "rd64 fd_demo_mem 0x140E17698 = 0x200000" "rd64 fd_demo_mem 0x200058 = 0x300000"
  "apart a 8 0x140E17698 8 \<Longrightarrow> apart a 8 0x200058 8 \<Longrightarrow> rd64 fd_demo_mem a = 0"
proof -
  have z: "rd64 (\<lambda>_. 0) a = 0" by (simp add: rd64_def peek_bytes_def dec64_def upt_rec)
  show "rd64 fd_demo_mem 0x140E17698 = 0x200000" "rd64 fd_demo_mem 0x200058 = 0x300000"
    by (simp_all add: fd_demo_mem_def mem_simps apart_def)
  show "rd64 fd_demo_mem a = 0" if "apart a 8 0x140E17698 8" "apart a 8 0x200058 8"
    using that z by (simp add: fd_demo_mem_def c64.rd_other)
qed

lemma fd_demo_com: "is_committed_addr fd_demo_arena a \<longleftrightarrow> 0x100000 \<le> a \<and> a < 0x100000 + ARENA_SIZE"
  by (auto simp: is_committed_addr_def fd_demo_arena_def)

lemma line_empty: "entity_line e k 0 st = st"
  by (cases k) simp_all

lemma fd_demo_line: "fd_tree (entity_line fd_demo 512 0x300000 (st\<lparr>fd_tree := 0\<rparr>)) = 1"
proof -
  have n: "512 = Suc 511" "9 - 0 = Suc 8" "256 = Suc 255" by simp_all
  have c: "is_committed_addr fd_demo_arena 0x300000" by (simp add: fd_demo_com ARENA_SIZE_def)
  have z: "rd64 fd_demo_mem (0x300000 + k) = 0" if "k < 0x10000" for k
    using that by (intro fd_demo_reads(3)) (auto simp: apart_def)
  have t: "fd_tree (force_dirty_scene_tree fd_demo_arena fd_demo_mem 0x300000 0 (st\<lparr>fd_tree := 0\<rparr>)) = 1"
    unfolding force_dirty_scene_tree_def n scene_levels.simps child_walk.simps Let_def using c z [of 8] by (simp add: FD_NODE_BUDGET_def)
  have "vt_off IMAGE_BASE 0 = 2 ^ 64 - 0x140000000" by (simp add: vt_off_def IMAGE_BASE_def)
  then have "fd_tree (force_dirty_entity fd_demo 0x300000 (st\<lparr>fd_tree := 0\<rparr>)) = 1"
    using t z [of "0x3A0"] z [of "0x700"] z [of "0xAA0"] z [of "0x1318"] z [of "0x538"] z [of "0x11B0"]
    by (simp add: force_dirty_entity_def bone_block_def fd_demo_def Let_def)
  then show ?thesis unfolding n(1) entity_line.simps using c z [of "0x20"] by (simp add: fd_demo_def line_empty Let_def)
qed

theorem save_walk_covers_witness:
  "fd_ww (save_walk (\<lambda>ww. ww) fd_demo \<lparr>fd_ww = (\<lambda>_. False), fd_tree = 7\<rparr>) (page_no fd_demo_arena 0x306000)"
proof -
  let ?st = "\<lparr>fd_ww = (\<lambda>_. False), fd_tree = 7\<rparr>" and ?f = "\<lambda>line. entity_line fd_demo 512 (rd64 fd_demo_mem (0x200058 + line * 0x30))"
  have r: "resolve IMAGE_BASE 0x140E17698 = 0x140E17698" "resolve IMAGE_BASE 0x140E177E8 = 0x140E177E8"
    by (simp_all add: resolve_def IMAGE_BASE_def)
  have s0: "rd64 fd_demo_mem 0x140E177E8 = 0" by (rule fd_demo_reads(3)) (simp_all add: apart_def)
  have "rd64 fd_demo_mem (0x200058 + i * 0x30) = 0" if "Suc 0 \<le> i" "i < 128" for i
    using that by (intro fd_demo_reads(3)) (auto simp: apart_def)
  then have "for_range 0 128 ?f (?st\<lparr>fd_tree := 0\<rparr>) = ?f 0 (?st\<lparr>fd_tree := 0\<rparr>)"
    by (intro for_range_first) (simp_all add: line_empty)
  moreover have "fd_tree (for_range 0 128 (\<lambda>line. mark (rewrite_byte fd_demo_arena (0x200058 + line * 0x30))) st) = fd_tree st" for st
    by (rule for_range_invariant) (simp_all add: mark_def)
  ultimately have "fd_tree (save_walk (\<lambda>ww. ww) fd_demo ?st) = 1"
    using fd_demo_line [of ?st] by (simp add: save_walk_def Let_def fd_demo_def r s0 fd_demo_reads(1,2))
  moreover have "0x300000 \<in> set (line_entities fd_demo_arena fd_demo_mem 512 0x300000)"
  proof -
    have n: "512 = Suc 511" by simp
    show ?thesis unfolding n line_entities.simps by (simp add: fd_demo_com ARENA_SIZE_def)
  qed
  moreover have "is_committed_addr fd_demo_arena 0x306000" by (simp add: fd_demo_com ARENA_SIZE_def)
  moreover have "body_marked fd_demo_arena 0x300000 (save_walk (\<lambda>ww. ww) fd_demo ?st)"
    if "fd_tree (save_walk (\<lambda>ww. ww) fd_demo ?st) = 1" "0x300000 \<in> set (line_entities fd_demo_arena fd_demo_mem 512 0x300000)"
  proof -
    have "rd64 (de_mem fd_demo) (resolve (de_base fd_demo) 0x140E17698) = 0x200000" "\<not> de_off fd_demo"
      "de_arena fd_demo = fd_demo_arena" "de_mem fd_demo = fd_demo_mem"
      by (simp_all add: fd_demo_def r fd_demo_reads(1))
    from save_walk_covers [of fd_demo, OF this(2,1) _ _ refl, of "\<lambda>ww. ww" ?st] this(3,4) that
    have "\<forall>line < 128. \<forall>ent \<in> set (line_entities fd_demo_arena fd_demo_mem 512 (rd64 fd_demo_mem (0x200058 + line * 0x30))).
       body_marked fd_demo_arena ent (save_walk (\<lambda>ww. ww) fd_demo ?st)" by (simp add: FD_NODE_BUDGET_def)
    then show ?thesis using that(2) fd_demo_reads(2) by (auto dest!: spec [of _ 0])
  qed
  ultimately show ?thesis by (simp add: body_marked_def) (drule spec [of _ 6], simp)
qed

end
