(* ===== verification/Audio_Group.thy ===== *)
theory Audio_Group
  imports Force_Dirty
begin

text \<open>
  \<open>src/src/audio_group.cpp\<close>: the sound tables known to the save, two registries of one shape, and the pages
  of each table's group marked before a save. A table is registered by the hooks of the engine's look-up
  functions; the counter of pruned entries, which is only logged, is left out.
\<close>

definition MAX_TABLES :: nat where "MAX_TABLES = 256"
definition SE_VTABLE_IDA :: nat where "SE_VTABLE_IDA = 0x140BB4690"
definition SE_VTABLE_T1_IDA :: nat where "SE_VTABLE_T1_IDA = 0x140BB4760"
definition COUNT_SANITY :: nat where "COUNT_SANITY = 0x40000"

record se_registry =
  se_vtable :: nat
  se_tables :: "nat carray"
  se_count :: nat

record audio_group =
  ag_t0 :: se_registry
  ag_t1 :: se_registry
  ag_armed :: bool

definition se_fresh :: "nat \<Rightarrow> se_registry" where "se_fresh vt = \<lparr>se_vtable = vt, se_tables = (\<lambda>_. 0), se_count = 0\<rparr>"

definition ag_init :: "nat \<Rightarrow> audio_group" where
  "ag_init base = \<lparr>ag_t0 = se_fresh (resolve base SE_VTABLE_IDA), ag_t1 = se_fresh (resolve base SE_VTABLE_T1_IDA), ag_armed = True\<rparr>"

definition se_high :: "se_registry \<Rightarrow> nat" where "se_high r = (if MAX_TABLES < se_count r then MAX_TABLES else se_count r)"

definition is_live_se_table :: "arena \<Rightarrow> gmem \<Rightarrow> nat \<Rightarrow> nat \<Rightarrow> bool" where
  "is_live_se_table ar m vt t =
     (if t = 0 \<or> \<not> is_committed_addr ar t then False
      else if vt \<noteq> 0 \<and> rd64 m t \<noteq> vt then False
      else if rd64 m (t + 0x70) = 0 then False
      else if COUNT_SANITY < rd32 m (t + 0x78) then False
      else True)"

definition se_live_count :: "se_registry \<Rightarrow> nat" where
  "se_live_count r = length (filter (\<lambda>i. se_tables r i \<noteq> 0) [0..<se_high r])"

definition ag_live_count :: "audio_group \<Rightarrow> nat" where "ag_live_count st = se_live_count (ag_t0 st) + se_live_count (ag_t1 st)"

definition se_register :: "arena \<Rightarrow> gmem \<Rightarrow> bool \<Rightarrow> nat \<Rightarrow> se_registry \<Rightarrow> se_registry" where
  "se_register ar m armed table r =
     (if \<not> armed \<or> table < 0x10000 \<or> \<not> is_arena_addr ar table then r
      else if se_vtable r \<noteq> 0 \<and> rd64 m table \<noteq> se_vtable r then r
      else if table \<in> set (map (se_tables r) [0..<se_high r]) then r
      else if se_count r < MAX_TABLES
      then r\<lparr>se_tables := (se_tables r)(se_count r := table), se_count := se_count r + 1\<rparr>
      else r)"

definition register_table :: "arena \<Rightarrow> gmem \<Rightarrow> nat \<Rightarrow> audio_group \<Rightarrow> audio_group" where
  "register_table ar m t st = st\<lparr>ag_t0 := se_register ar m (ag_armed st) t (ag_t0 st)\<rparr>"

definition register_table_t1 :: "arena \<Rightarrow> gmem \<Rightarrow> nat \<Rightarrow> audio_group \<Rightarrow> audio_group" where
  "register_table_t1 ar m t st = st\<lparr>ag_t1 := se_register ar m (ag_armed st) t (ag_t1 st)\<rparr>"

section \<open>A table's group\<close>

definition sane :: "nat \<Rightarrow> nat" where "sane n = (if COUNT_SANITY < n then 0 else n)"

definition blob_part :: "arena \<Rightarrow> gmem \<Rightarrow> nat \<Rightarrow> nat \<Rightarrow> (nat \<Rightarrow> bool) \<Rightarrow> nat \<Rightarrow> bool" where
  "blob_part ar m stride t ww =
     (let blob = rd64 m (t + 0x70) in
      if blob \<noteq> 0 \<and> is_committed_addr ar blob
      then let sz = 0x48 + sane (rd32 m (t + 0x78)) * stride + 0x20000
           in force_dirty_range ar blob (if 0x100000 < sz then 0x100000 else sz) 0x100000 ww
      else ww)"

definition index_part :: "arena \<Rightarrow> gmem \<Rightarrow> nat \<Rightarrow> nat \<Rightarrow> nat \<Rightarrow> (nat \<Rightarrow> bool) \<Rightarrow> nat \<Rightarrow> bool" where
  "index_part ar m off cnt t ww =
     (let ix = rd64 m (t + off) in
      if ix \<noteq> 0 \<and> is_committed_addr ar ix then force_dirty_range ar ix (rd16 m (t + cnt) * 2 + 16) 0x10000 ww else ww)"

definition force_dirty_se_table :: "arena \<Rightarrow> gmem \<Rightarrow> nat \<Rightarrow> (nat \<Rightarrow> bool) \<Rightarrow> (nat \<Rightarrow> bool) \<times> bool" where
  "force_dirty_se_table ar m t ww =
     (if t = 0 \<or> \<not> is_committed_addr ar t then (ww, False)
      else (index_part ar m 0xd8 0xe0 t (blob_part ar m 0x90 t (force_dirty_range ar t 0xE8 0xE8 ww)), True))"

definition force_dirty_se_table_t1 :: "arena \<Rightarrow> gmem \<Rightarrow> nat \<Rightarrow> (nat \<Rightarrow> bool) \<Rightarrow> (nat \<Rightarrow> bool) \<times> bool" where
  "force_dirty_se_table_t1 ar m t ww =
     (if t = 0 \<or> \<not> is_committed_addr ar t then (ww, False)
      else
        let ww1 = index_part ar m 0xf0 0xf8 t (blob_part ar m 0x98 t (force_dirty_range ar t 0x100 0x100 ww));
            ent = rd64 m (t + 0xb0)
        in (if ent \<noteq> 0 \<and> is_committed_addr ar (ent - 8)
            then force_dirty_range ar (ent - 8) (sane (rd32 m (t + 0xb8)) * 0x40 + 8) 0x40000 ww1 else ww1, True))"

section \<open>All tables\<close>

definition force_one :: "arena \<Rightarrow> gmem \<Rightarrow> (nat \<Rightarrow> (nat \<Rightarrow> bool) \<Rightarrow> (nat \<Rightarrow> bool) \<times> bool) \<Rightarrow> nat
    \<Rightarrow> se_registry \<times> (nat \<Rightarrow> bool) \<times> nat \<Rightarrow> se_registry \<times> (nat \<Rightarrow> bool) \<times> nat" where
  "force_one ar m f i s =
     (case s of (r, ww, n) \<Rightarrow>
        let t = se_tables r i in
        if t = 0 then s
        else if \<not> is_live_se_table ar m (se_vtable r) t then (r\<lparr>se_tables := (se_tables r)(i := 0)\<rparr>, ww, n)
        else let (ww1, b) = f t ww in (r, ww1, if b then n + 1 else n))"

definition force_all :: "arena \<Rightarrow> gmem \<Rightarrow> (nat \<Rightarrow> (nat \<Rightarrow> bool) \<Rightarrow> (nat \<Rightarrow> bool) \<times> bool)
    \<Rightarrow> se_registry \<times> (nat \<Rightarrow> bool) \<times> nat \<Rightarrow> se_registry \<times> (nat \<Rightarrow> bool) \<times> nat" where
  "force_all ar m f s = for_range 0 (se_high (fst s)) (force_one ar m f) s"

definition force_dirty_all :: "arena \<Rightarrow> gmem \<Rightarrow> audio_group \<times> (nat \<Rightarrow> bool) \<Rightarrow> (audio_group \<times> (nat \<Rightarrow> bool)) \<times> nat" where
  "force_dirty_all ar m s =
     (case s of (st, ww) \<Rightarrow>
        let (r0, ww0, n0) = force_all ar m (force_dirty_se_table ar m) (ag_t0 st, ww, 0);
            (r1, ww1, n1) = force_all ar m (force_dirty_se_table_t1 ar m) (ag_t1 st, ww0, n0)
        in ((st\<lparr>ag_t0 := r0, ag_t1 := r1\<rparr>, ww1), n1))"

section \<open>Pruning\<close>

text \<open>What a pass leaves of a registry: the live tables, in their slots.\<close>

definition pruned :: "arena \<Rightarrow> gmem \<Rightarrow> se_registry \<Rightarrow> nat \<Rightarrow> nat carray" where
  "pruned ar m r n = (\<lambda>i. if i < n \<and> \<not> is_live_se_table ar m (se_vtable r) (se_tables r i) then 0 else se_tables r i)"

definition slots_live :: "arena \<Rightarrow> gmem \<Rightarrow> se_registry \<Rightarrow> nat" where
  "slots_live ar m r = length (filter (\<lambda>i. is_live_se_table ar m (se_vtable r) (se_tables r i)) [0..<se_high r])"

lemma live_dirty: "is_live_se_table ar m vt t \<Longrightarrow> t \<noteq> 0 \<and> is_committed_addr ar t"
  by (auto simp: is_live_se_table_def split: if_splits)

lemma force_all_prunes:
  assumes "\<And>t ww. t \<noteq> 0 \<Longrightarrow> is_committed_addr ar t \<Longrightarrow> snd (f t ww)"
  shows "\<exists>ww'. force_all ar m f (r, ww, n) = (r\<lparr>se_tables := pruned ar m r (se_high r)\<rparr>, ww', n + slots_live ar m r)"
proof -
  have "\<exists>ww'. for_range 0 k (force_one ar m f) (r, ww, n) =
     (r\<lparr>se_tables := pruned ar m r k\<rparr>, ww', n + length (filter (\<lambda>i. is_live_se_table ar m (se_vtable r) (se_tables r i)) [0..<k]))" for k
  proof (induction k)
    case 0
    then show ?case by (simp add: pruned_def)
  next
    case (Suc k)
    then obtain w where w: "for_range 0 k (force_one ar m f) (r, ww, n) =
      (r\<lparr>se_tables := pruned ar m r k\<rparr>, w, n + length (filter (\<lambda>i. is_live_se_table ar m (se_vtable r) (se_tables r i)) [0..<k]))" by blast
    have t: "pruned ar m r k k = se_tables r k" by (simp add: pruned_def)
    have dead: "pruned ar m r (Suc k) = (pruned ar m r k)(k := 0)" if "\<not> is_live_se_table ar m (se_vtable r) (se_tables r k)"
      using that by (auto simp: pruned_def fun_eq_iff less_Suc_eq)
    have live: "pruned ar m r (Suc k) = pruned ar m r k" if "is_live_se_table ar m (se_vtable r) (se_tables r k) \<or> se_tables r k = 0"
      using that by (auto simp: pruned_def fun_eq_iff less_Suc_eq)
    have e: "for_range 0 (Suc k) (force_one ar m f) (r, ww, n) = force_one ar m f k
      (r\<lparr>se_tables := pruned ar m r k\<rparr>, w, n + length (filter (\<lambda>i. is_live_se_table ar m (se_vtable r) (se_tables r i)) [0..<k]))"
      by (simp only: for_range_Suc [OF le0] w)
    show ?case
    proof (cases "is_live_se_table ar m (se_vtable r) (se_tables r k)")
      case True
      then have "snd (f (se_tables r k) w)" using assms live_dirty by blast
      then show ?thesis unfolding e using True live_dirty [OF True] live by (simp add: force_one_def t Let_def split_def)
    next
      case False
      then show ?thesis unfolding e using dead live by (cases "se_tables r k = 0") (simp_all add: force_one_def t Let_def fun_upd_def)
    qed
  qed
  then show ?thesis by (simp add: force_all_def slots_live_def)
qed

lemma table_dirty:
  "t \<noteq> 0 \<Longrightarrow> is_committed_addr ar t \<Longrightarrow> snd (force_dirty_se_table ar m t ww)"
  "t \<noteq> 0 \<Longrightarrow> is_committed_addr ar t \<Longrightarrow> snd (force_dirty_se_table_t1 ar m t ww)"
  by (simp_all add: force_dirty_se_table_def force_dirty_se_table_t1_def Let_def)

text \<open>
  A save prunes and counts exactly: after \<open>force_dirty_all\<close> each registry holds its live tables in the
  slots they had, every other slot below its high-water mark is empty, the marks never move, and the
  answer is the number of live tables.
\<close>
theorem save_prunes:
  "case force_dirty_all ar m (st, ww) of ((st', ww'), n) \<Rightarrow>
     st' = st\<lparr>ag_t0 := (ag_t0 st)\<lparr>se_tables := pruned ar m (ag_t0 st) (se_high (ag_t0 st))\<rparr>,
              ag_t1 := (ag_t1 st)\<lparr>se_tables := pruned ar m (ag_t1 st) (se_high (ag_t1 st))\<rparr>\<rparr> \<and>
     n = slots_live ar m (ag_t0 st) + slots_live ar m (ag_t1 st)"
proof -
  obtain w0 where w0: "force_all ar m (force_dirty_se_table ar m) (ag_t0 st, ww, 0) =
     ((ag_t0 st)\<lparr>se_tables := pruned ar m (ag_t0 st) (se_high (ag_t0 st))\<rparr>, w0, 0 + slots_live ar m (ag_t0 st))"
    using force_all_prunes [of ar "force_dirty_se_table ar m" m "ag_t0 st" ww 0] table_dirty(1) by blast
  obtain w1 where w1: "force_all ar m (force_dirty_se_table_t1 ar m) (ag_t1 st, w0, slots_live ar m (ag_t0 st)) =
     ((ag_t1 st)\<lparr>se_tables := pruned ar m (ag_t1 st) (se_high (ag_t1 st))\<rparr>, w1, slots_live ar m (ag_t0 st) + slots_live ar m (ag_t1 st))"
    using force_all_prunes [of ar "force_dirty_se_table_t1 ar m" m "ag_t1 st" w0] table_dirty(2) by blast
  show ?thesis by (simp add: force_dirty_all_def w0 w1)
qed

section \<open>A registry that has been full\<close>

datatype ag_op = Register_T0 nat | Register_T1 nat | Save_Tables

text \<open>Calls of the hooks and of the save, each with the arena and the memory it meets.\<close>

fun ag_step :: "arena \<times> gmem \<times> ag_op \<Rightarrow> audio_group \<times> (nat \<Rightarrow> bool) \<Rightarrow> audio_group \<times> (nat \<Rightarrow> bool)" where
  "ag_step (ar, m, Register_T0 t) (st, ww) = (register_table ar m t st, ww)"
| "ag_step (ar, m, Register_T1 t) (st, ww) = (register_table_t1 ar m t st, ww)"
| "ag_step (ar, m, Save_Tables) s = fst (force_dirty_all ar m s)"

definition no_new :: "se_registry \<Rightarrow> se_registry \<Rightarrow> bool" where
  "no_new r r' \<longleftrightarrow> se_count r' = se_count r \<and> (\<forall>i. se_tables r' i = 0 \<or> se_tables r' i = se_tables r i)"

lemma no_new_trans: "no_new a b \<Longrightarrow> no_new b c \<Longrightarrow> no_new a c"
  unfolding no_new_def by metis

lemma force_all_no_new: "no_new (fst s) (fst (force_all ar m f s))"
proof -
  have "no_new (fst s) (fst (force_one ar m f i s'))" if "no_new (fst s) (fst s')" for i s'
    using that by (auto simp: force_one_def no_new_def Let_def split_def)
  then have "no_new (fst s) (fst (for_range 0 k (force_one ar m f) s))" for k
    by (intro for_range_invariant [of "\<lambda>s'. no_new (fst s) (fst s')"]) (auto simp: no_new_def)
  then show ?thesis by (simp add: force_all_def)
qed

lemma step_no_new:
  assumes "se_count (ag_t0 (fst s)) = MAX_TABLES"
  shows "no_new (ag_t0 (fst s)) (ag_t0 (fst (ag_step op s)))"
proof (cases "(op, s)" rule: ag_step.cases)
  case (3 ar m s')
  then show ?thesis
    using force_all_no_new [of "(ag_t0 (fst s), snd s, 0)" ar m "force_dirty_se_table ar m"] by (simp add: force_dirty_all_def split_def Let_def)
qed (use assms in \<open>simp_all add: register_table_def register_table_t1_def se_register_def no_new_def\<close>)

text \<open>
  C36. Slots are never reused. Once 256 tables have been registered, in whatever order tables come, die
  and are pruned, no table is ever registered again: a slot only ever keeps its table or loses it, so
  after the first 256 every later table is left out of every save.
\<close>
theorem full_registry_stuck:
  assumes "se_count (ag_t0 st) = MAX_TABLES" "fold ag_step ops (st, ww) = (st', ww')"
  shows "se_count (ag_t0 st') = MAX_TABLES \<and> (\<forall>i. se_tables (ag_t0 st') i = 0 \<or> se_tables (ag_t0 st') i = se_tables (ag_t0 st) i)"
proof -
  have "no_new (ag_t0 st) (ag_t0 (fst (fold ag_step ops (st, ww))))"
  proof (rule fold_invariant_list)
    fix op and s :: "audio_group \<times> (nat \<Rightarrow> bool)"
    assume n: "no_new (ag_t0 st) (ag_t0 (fst s))"
    then have "se_count (ag_t0 (fst s)) = MAX_TABLES" using assms(1) by (simp add: no_new_def)
    then show "no_new (ag_t0 st) (ag_t0 (fst (ag_step op s)))" by (rule no_new_trans [OF n step_no_new])
  qed (simp add: no_new_def)
  then show ?thesis using assms by (simp add: no_new_def)
qed

text \<open>A registry whose 256 tables are all gone, and a live table that comes later.\<close>

definition ag_demo_mem :: gmem where
  "ag_demo_mem = wr64 0x200000 0x140BB4690 (wr64 0x200070 0x300000 (\<lambda>_. 0))"

definition ag_demo :: audio_group where
  "ag_demo = (ag_init IMAGE_BASE)\<lparr>ag_t0 := (se_fresh (resolve IMAGE_BASE SE_VTABLE_IDA))\<lparr>se_count := 256\<rparr>\<rparr>"

lemma ag_demo_live: "is_live_se_table fd_demo_arena ag_demo_mem (se_vtable (ag_t0 ag_demo)) 0x200000"
proof -
  have z: "rd32 (\<lambda>_. 0) a = 0" for a by (simp add: rd32_def peek_bytes_def upt_rec)
  have "rd64 ag_demo_mem 0x200000 = 0x140BB4690" "rd64 ag_demo_mem 0x200070 = 0x300000" "rd32 ag_demo_mem 0x200078 = 0"
    by (simp_all add: ag_demo_mem_def mem_simps apart_def rd32_wr64 z)
  then show ?thesis
    by (simp add: is_live_se_table_def ag_demo_def ag_init_def se_fresh_def resolve_def IMAGE_BASE_def SE_VTABLE_IDA_def fd_demo_com
        ARENA_SIZE_def)
qed

theorem full_registry_stuck_witness:
  "is_live_se_table fd_demo_arena ag_demo_mem (se_vtable (ag_t0 ag_demo)) 0x200000 \<and>
   (\<forall>i. se_tables (ag_t0 (fst (fold ag_step [(fd_demo_arena, ag_demo_mem, Register_T0 0x200000), (fd_demo_arena, ag_demo_mem, Save_Tables)]
      (ag_demo, (\<lambda>_. False))))) i = 0)"
proof -
  have "se_count (ag_t0 ag_demo) = MAX_TABLES" "se_tables (ag_t0 ag_demo) = (\<lambda>_. 0)"
    by (simp_all add: ag_demo_def ag_init_def se_fresh_def MAX_TABLES_def)
  then show ?thesis
    using full_registry_stuck [of ag_demo "[(fd_demo_arena, ag_demo_mem, Register_T0 0x200000), (fd_demo_arena, ag_demo_mem, Save_Tables)]"
        "\<lambda>_. False", OF _ surjective_pairing] ag_demo_live by (simp del: fold.simps)
qed

end
