(* ===== verification/Sched_Drain.thy ===== *)
theory Sched_Drain
  imports Sound_Edges
begin

text \<open>
  The drain of the scheduler before a save, \<open>src/src/resim.cpp\<close>: every entity in mid-teardown on a
  scheduler line is unlinked and destroyed by the engine's own functions, so that a snapshot cannot hold
  one. The scan that looks for what is left and the count of such entities are read-only. The engine's
  unlink and destructors are arguments. Clocks, censuses and log lines are left out.
\<close>

unbundle bit_operations_syntax

record drain_env =
  sd_on :: bool
  sd_lock :: bool
  sd_arena :: arena
  sd_os :: os_map
  sd_base :: nat
  sd_remove :: "nat \<Rightarrow> nat \<Rightarrow> gmem \<Rightarrow> gmem"
  sd_dtor :: "nat \<Rightarrow> nat \<Rightarrow> gmem \<Rightarrow> gmem"

definition sched_canon :: "nat \<Rightarrow> bool" where "sched_canon p \<longleftrightarrow> 0x10000 \<le> p \<and> p < 0x800000000000"

definition sched_readable :: "drain_env \<Rightarrow> nat \<Rightarrow> nat \<Rightarrow> bool" where
  "sched_readable e p n =
     (if \<not> sched_canon p then False
      else if is_arena_addr (sd_arena e) p
      then is_committed_addr (sd_arena e) p \<and> is_committed_addr (sd_arena e) (p + n - 1)
      else case sd_os e p of None \<Rightarrow> False
        | Some b \<Rightarrow> if mb_state b \<noteq> MEM_COMMIT_FLAG \<or> mb_protect b AND PAGE_BARRED \<noteq> 0 then False
                    else p + n \<le> mb_base b + mb_size b)"

definition sched_in_module :: "drain_env \<Rightarrow> nat \<Rightarrow> bool" where
  "sched_in_module e p \<longleftrightarrow> sd_base e \<noteq> 0 \<and> sd_base e \<le> p \<and> p < sd_base e + 0x2000000"

text \<open>The state word of a node: the state in the low three bits, the line above them.\<close>

definition unit_state :: "gmem \<Rightarrow> nat \<Rightarrow> nat" where "unit_state m node = rd32 m (node + 0x10) mod 8"
definition unit_line :: "gmem \<Rightarrow> nat \<Rightarrow> nat" where "unit_line m node = rd32 m (node + 0x10) div 8 mod 128"


definition sched_sunit :: "drain_env \<Rightarrow> gmem \<Rightarrow> nat" where "sched_sunit e m = rd64 m (resolve (sd_base e) 0x140E17698)"
definition sched_nlines :: "gmem \<Rightarrow> nat \<Rightarrow> nat" where "sched_nlines m su = min 128 (rd32 m (su + 0xc38))"
definition fwd_head :: "gmem \<Rightarrow> nat \<Rightarrow> nat \<Rightarrow> nat" where "fwd_head m su line = rd64 m (su + 0x50 + line * 0x30)"

definition unit_walkable :: "drain_env \<Rightarrow> nat \<Rightarrow> bool" where "unit_walkable e node \<longleftrightarrow> sched_canon node \<and> sched_readable e (node + 0x20) 8"



definition GUARD_MAX :: nat where "GUARD_MAX = 4096"


text \<open>The read-only walks over the same chains.\<close>

primrec count_line :: "(nat \<Rightarrow> bool) \<Rightarrow> drain_env \<Rightarrow> gmem \<Rightarrow> nat \<Rightarrow> nat \<Rightarrow> nat \<Rightarrow> nat" where
  "count_line P e m 0 node n = n"
| "count_line P e m (Suc k) node n =
     (if \<not> unit_walkable e node then n
      else count_line P e m k (rd64 m (node + 0x18)) (if P node then n + 1 else n))"

definition count_lines :: "(nat \<Rightarrow> nat \<Rightarrow> bool) \<Rightarrow> drain_env \<Rightarrow> gmem \<Rightarrow> nat \<Rightarrow> nat" where
  "count_lines P e m su =
     for_range 0 (sched_nlines m su) (\<lambda>line n. count_line (P line) e m GUARD_MAX (fwd_head m su line) n) 0"


definition scan_anomaly :: "drain_env \<Rightarrow> gmem \<Rightarrow> nat \<Rightarrow> nat \<Rightarrow> bool" where
  "scan_anomaly e m line node \<longleftrightarrow>
     \<not> sched_in_module e (rd64 m node) \<or> unit_line m node \<noteq> line \<or> unit_state m node = 3 \<or> unit_state m node = 4"

definition scheduler_save_scan :: "drain_env \<Rightarrow> gmem \<Rightarrow> nat" where
  "scheduler_save_scan e m =
     (let su = sched_sunit e m in
      if \<not> sched_readable e (su + 0xc38) 4 then 0
      else if \<not> sd_lock e then 0
      else count_lines (scan_anomaly e m) e m su)"

section \<open>Lines as lists\<close>

fun fwd_path :: "drain_env \<Rightarrow> gmem \<Rightarrow> nat \<Rightarrow> nat list \<Rightarrow> bool" where
  "fwd_path e m node [] \<longleftrightarrow> \<not> unit_walkable e node"
| "fwd_path e m node (x # xs) \<longleftrightarrow> node = x \<and> unit_walkable e x \<and> fwd_path e m (rd64 m (x + 0x18)) xs"








lemma fwd_path_start: "fwd_path e m h xs \<Longrightarrow> (xs = [] \<and> \<not> unit_walkable e h) \<or> (\<exists>ys. xs = h # ys \<and> unit_walkable e h)"
  by (cases xs) auto



section \<open>The drain\<close>































end
