(* ===== verification/Atomic_Save.thy ===== *)
theory Atomic_Save
  imports Flist_Facts Snap_Facts
begin

text \<open>
  The save of the allocator group under the allocators' locks, \<open>src/src/resim.cpp\<close>: the scope that enters
  every critical section of every allocator without waiting, and the bounded retries around it. What the
  other threads do to the locks while we yield is an argument; \<open>s\<close> is the group of \<open>Flist_Unit\<close> with the
  page ring of \<open>Snap_Ring\<close>. Counters and log lines are left out.
\<close>

section \<open>Critical sections\<close>

text \<open>Who owns a section, and how often it has entered.\<close>

type_synonym lock_table = "nat \<Rightarrow> (nat \<times> nat) option"

definition try_enter :: "nat \<Rightarrow> nat \<Rightarrow> lock_table \<Rightarrow> lock_table \<times> bool" where
  "try_enter me cs t =
     (case t cs of None \<Rightarrow> (t(cs := Some (me, 0)), True)
      | Some (th, n) \<Rightarrow> if th = me then (t(cs := Some (me, n + 1)), True) else (t, False))"

definition leave :: "nat \<Rightarrow> lock_table \<Rightarrow> lock_table" where
  "leave cs t = (case t cs of None \<Rightarrow> t | Some (th, n) \<Rightarrow> if n = 0 then t(cs := None) else t(cs := Some (th, n - 1)))"

definition MAX_LOCKS :: nat where "MAX_LOCKS = MAX_ALLOCS * 10"

definition scope_release :: "nat list \<Rightarrow> lock_table \<Rightarrow> lock_table" where
  "scope_release held t = fold leave (rev held) t"

text \<open>\<open>acquired\<close> and the locks that are held: all of them, or none.\<close>

fun scope_enter :: "nat \<Rightarrow> nat list \<Rightarrow> nat list \<Rightarrow> lock_table \<Rightarrow> lock_table \<times> nat list \<times> bool" where
  "scope_enter me [] held t = (t, held, True)"
| "scope_enter me (cs # css) held t =
     (if MAX_LOCKS \<le> length held then (scope_release held t, [], False)
      else case try_enter me cs t of
        (t1, True) \<Rightarrow> scope_enter me css (held @ [cs]) t1
      | (t1, False) \<Rightarrow> (scope_release held t1, [], False))"

definition alloc_sections :: "nat list \<Rightarrow> nat list" where
  "alloc_sections ctrls = concat (map (\<lambda>a. map (\<lambda>c. a + fst (CS_RANGES ! c)) [0..<10]) ctrls)"

section \<open>The save\<close>

type_synonym alloc_group = "gmem \<times> arena \<times> units \<times> quar"

record save_env =
  se_base :: nat
  se_os :: "nat \<Rightarrow> nat \<Rightarrow> bool"
  se_commit :: "nat \<Rightarrow> nat \<Rightarrow> bool"
  se_revert :: bool
  se_owned :: bool
  se_alloc_ok :: bool
  se_supp_ok :: "nat \<Rightarrow> bool"
  se_me :: nat

definition found_group :: "save_env \<Rightarrow> alloc_group \<Rightarrow> alloc_group" where
  "found_group e g = (case g of (m, ar, un, q) \<Rightarrow> (m, ar, ensure_found (se_base e) m un, q))"

definition group_sections :: "alloc_group \<Rightarrow> nat list" where
  "group_sections g = (case g of (m, ar, un, q) \<Rightarrow> alloc_sections (un_ctrls un))"

definition drop_frame :: "int \<Rightarrow> alloc_group \<Rightarrow> alloc_group" where
  "drop_frame frame g = (case g of (m, ar, un, q) \<Rightarrow> (m, ar, flist_invalidate_frame frame un, q))"

definition group_save :: "save_env \<Rightarrow> int \<Rightarrow> alloc_group \<times> snap \<Rightarrow> alloc_group \<times> snap" where
  "group_save e frame s =
     (case s of (g, sn) \<Rightarrow>
        let g1 = save_allocators (se_base e) (se_os e) (se_commit e) (se_revert e) (se_owned e) True frame g;
            (sn1, ok) = snap_save (se_alloc_ok e) (se_supp_ok e) frame sn
        in (if ok then g1 else drop_frame frame g1, sn1))"

text \<open>\<open>yield a\<close>: what the others do to the locks while we yield after attempt \<open>a\<close>.\<close>

fun try_atomic_alloc_save :: "save_env \<Rightarrow> (nat \<Rightarrow> lock_table \<Rightarrow> lock_table) \<Rightarrow> int \<Rightarrow> nat \<Rightarrow> nat
    \<Rightarrow> lock_table \<times> alloc_group \<times> snap \<Rightarrow> (lock_table \<times> alloc_group \<times> snap) \<times> bool" where
  "try_atomic_alloc_save e yield frame a 0 s =
     (case s of (t, g, sn) \<Rightarrow>
        let g1 = found_group e g; (t1, held, ok) = scope_enter (se_me e) (group_sections g1) [] t in
        if ok then ((scope_release held t1, group_save e frame (g1, sn)), True) else ((t1, g1, sn), False))"
| "try_atomic_alloc_save e yield frame a (Suc retries) s =
     (case s of (t, g, sn) \<Rightarrow>
        let g1 = found_group e g; (t1, held, ok) = scope_enter (se_me e) (group_sections g1) [] t in
        if ok then ((scope_release held t1, group_save e frame (g1, sn)), True)
        else try_atomic_alloc_save e yield frame (a + 1) retries (yield a t1, g1, sn))"

text \<open>The frame's save: the locked one with 64 retries, or the plain one.\<close>

definition save_group :: "bool \<Rightarrow> save_env \<Rightarrow> (nat \<Rightarrow> lock_table \<Rightarrow> lock_table) \<Rightarrow> int
    \<Rightarrow> lock_table \<times> alloc_group \<times> snap \<Rightarrow> lock_table \<times> alloc_group \<times> snap" where
  "save_group atomic e yield frame s =
     (let (s1, done) = (if atomic then try_atomic_alloc_save e yield frame 0 64 s else (s, False)) in
      if done then s1
      else case s1 of (t, g, sn) \<Rightarrow>
        (t, save_allocators (se_base e) (se_os e) (se_commit e) (se_revert e) (se_owned e) False frame g,
         fst (snap_save (se_alloc_ok e) (se_supp_ok e) frame sn)))"

section \<open>All or nothing\<close>

definition enterable :: "nat \<Rightarrow> lock_table \<Rightarrow> nat \<Rightarrow> bool" where
  "enterable me t cs \<longleftrightarrow> (case t cs of None \<Rightarrow> True | Some (th, _) \<Rightarrow> th = me)"

definition owned_by :: "nat \<Rightarrow> lock_table \<Rightarrow> nat \<Rightarrow> bool" where
  "owned_by me t cs \<longleftrightarrow> (\<exists>n. t cs = Some (me, n))"

lemma enter_iff: "snd (try_enter me cs t) \<longleftrightarrow> enterable me t cs"
  by (auto simp: try_enter_def enterable_def split: option.split)

lemma enter_leave: "enterable me t cs \<Longrightarrow> leave cs (fst (try_enter me cs t)) = t"
  by (auto simp: try_enter_def enterable_def leave_def fun_eq_iff split: option.splits)

lemma enter_owned: "enterable me t cs \<Longrightarrow> owned_by me (fst (try_enter me cs t)) x \<longleftrightarrow> x = cs \<or> owned_by me t x"
  by (auto simp: try_enter_def enterable_def owned_by_def split: option.splits)

lemma enter_enterable: "enterable me t cs \<Longrightarrow> enterable me (fst (try_enter me cs t)) x = enterable me t x"
  by (auto simp: try_enter_def enterable_def split: option.splits)

lemma scope_enter_all:
  assumes "scope_release held t = t0" "length held + length css \<le> MAX_LOCKS"
  shows "case scope_enter me css held t of (t1, held1, ok) \<Rightarrow>
    ok = list_all (enterable me t) css \<and> scope_release held1 t1 = t0 \<and>
    (ok \<longrightarrow> held1 = held @ css \<and> (\<forall>x. owned_by me t1 x \<longleftrightarrow> x \<in> set css \<or> owned_by me t x)) \<and> (\<not> ok \<longrightarrow> t1 = t0 \<and> held1 = [])"
  using assms
proof (induction css arbitrary: held t)
  case (Cons cs css)
  obtain t1 b where e: "try_enter me cs t = (t1, b)" by (cases "try_enter me cs t")
  have b: "b = enterable me t cs" using enter_iff [of me cs t] e by simp
  show ?case
  proof (cases b)
    case True
    then have t: "leave cs t1 = t" "\<And>x. owned_by me t1 x \<longleftrightarrow> x = cs \<or> owned_by me t x" "enterable me t1 = enterable me t"
      using b e enter_leave [of me t cs] enter_owned [of me t cs] enter_enterable [of me t cs] by (auto simp: fun_eq_iff)
    have "scope_release (held @ [cs]) t1 = t0" using t(1) Cons.prems(1) by (simp add: scope_release_def)
    then show ?thesis using Cons.IH [of "held @ [cs]" t1] Cons.prems(2) True b e t by (auto split: prod.splits)
  next
    case False
    have "t1 = t" using False e by (auto simp: try_enter_def split: option.splits if_splits prod.splits)
    then show ?thesis using False Cons.prems b e by (simp add: scope_release_def)
  qed
qed simp

primrec attempt_table :: "(nat \<Rightarrow> lock_table \<Rightarrow> lock_table) \<Rightarrow> nat \<Rightarrow> lock_table \<Rightarrow> nat \<Rightarrow> lock_table" where
  "attempt_table yield a t 0 = t"
| "attempt_table yield a t (Suc k) = attempt_table yield (a + 1) (yield a t) k"

lemma found_again: "found_group e (found_group e g) = found_group e g"
  by (simp add: found_group_def ensure_found_def discover_allocators_def split_def Let_def)

lemma sections_length: "length (alloc_sections ctrls) = 10 * length ctrls"
  by (induction ctrls) (simp_all add: alloc_sections_def)

definition outcome :: "save_env \<Rightarrow> int \<Rightarrow> (nat \<Rightarrow> lock_table) \<Rightarrow> nat \<Rightarrow> alloc_group \<Rightarrow> snap \<Rightarrow> (lock_table \<times> alloc_group \<times> snap) \<times> bool \<Rightarrow> bool" where
  "outcome e frame tab r g sn res \<longleftrightarrow>
     (let css = group_sections (found_group e g); free = (\<lambda>k. list_all (enterable (se_me e) (tab k)) css) in
      case res of ((t', s'), ok) \<Rightarrow>
        if ok then \<exists>k \<le> r. free k \<and> (\<forall>j < k. \<not> free j) \<and> t' = tab k \<and> s' = group_save e frame (found_group e g, sn) \<and>
                    (\<forall>cs \<in> set css. owned_by (se_me e) (fst (scope_enter (se_me e) css [] (tab k))) cs)
        else (\<forall>k \<le> r. \<not> free k) \<and> t' = tab r \<and> s' = (found_group e g, sn))"

lemma outcome_later:
  assumes "outcome e frame (attempt_table yield (a + 1) (yield a t)) r (found_group e g) sn res"
    and "\<not> list_all (enterable (se_me e) t) (group_sections (found_group e g))"
  shows "outcome e frame (attempt_table yield a t) (Suc r) g sn res"
proof -
  obtain t' s' ok where r: "res = ((t', s'), ok)" by (metis surj_pair)
  have z: "(\<forall>k \<le> Suc r. P k) \<longleftrightarrow> P 0 \<and> (\<forall>k \<le> r. P (Suc k))" "(\<exists>k \<le> Suc r. P k) \<longleftrightarrow> P 0 \<or> (\<exists>k \<le> r. P (Suc k))" for P
    by (metis Suc_le_mono le0 not0_implies_Suc)+
  have y: "(\<forall>j < Suc k. P j) \<longleftrightarrow> P 0 \<and> (\<forall>j < k. P (Suc j))" for P k by (metis All_less_Suc2)
  show ?thesis using assms unfolding r outcome_def Let_def found_again
    by (cases ok) (simp_all only: prod.case if_True if_False z y attempt_table.simps simp_thms, blast)
qed

lemma one_attempt:
  assumes "length (un_ctrls (fst (snd (snd (found_group e g))))) \<le> MAX_ALLOCS"
  shows "case scope_enter (se_me e) (group_sections (found_group e g)) [] t of (t1, held, ok) \<Rightarrow>
    ok = list_all (enterable (se_me e) t) (group_sections (found_group e g)) \<and> scope_release held t1 = t \<and> (\<not> ok \<longrightarrow> t1 = t) \<and>
    (ok \<longrightarrow> (\<forall>cs \<in> set (group_sections (found_group e g)). owned_by (se_me e) t1 cs))"
proof -
  have "length (group_sections (found_group e g)) \<le> MAX_LOCKS"
    using assms sections_length by (simp add: group_sections_def MAX_LOCKS_def split_def)
  then show ?thesis using scope_enter_all [of "[]" t t "group_sections (found_group e g)" "se_me e"] by (auto simp: scope_release_def)
qed

lemma try_outcome:
  assumes "length (un_ctrls (fst (snd (snd (found_group e g))))) \<le> MAX_ALLOCS"
  shows "outcome e frame (attempt_table yield a t) r g sn (try_atomic_alloc_save e yield frame a r (t, g, sn))"
  using assms
proof (induction r arbitrary: a t g)
  case 0
  show ?case using one_attempt [OF 0, of t] by (auto simp: outcome_def Let_def split: prod.splits)
next
  case (Suc r)
  obtain t1 held ok where s: "scope_enter (se_me e) (group_sections (found_group e g)) [] t = (t1, held, ok)" by (metis surj_pair)
  show ?case
  proof (cases ok)
    case True
    then show ?thesis using one_attempt [OF Suc.prems, of t] s
      by (auto simp: outcome_def Let_def intro!: exI [of _ 0])
  next
    case False
    then have f: "\<not> list_all (enterable (se_me e) t) (group_sections (found_group e g))" "t1 = t"
      using one_attempt [OF Suc.prems, of t] s by simp_all
    have "outcome e frame (attempt_table yield (a + 1) (yield a t)) r (found_group e g) sn
      (try_atomic_alloc_save e yield frame (a + 1) r (yield a t, found_group e g, sn))"
      by (rule Suc.IH) (simp add: found_again Suc.prems)
    from outcome_later [OF this f(1)] show ?thesis using s False f(2) by (simp add: Let_def)
  qed
qed

text \<open>
  C16. The allocator group is captured under all its locks or not at all. The save runs on the first
  attempt that finds every section free or ours, at most \<open>retries\<close> yields later, with every section
  owned while it runs; every attempt, failed or not, leaves the locks as it found them, so that a busy
  section never leaves another one held; and without such an attempt nothing is saved.
\<close>
theorem captured_under_locks:
  assumes "length (un_ctrls (fst (snd (snd (found_group e g))))) \<le> MAX_ALLOCS" "css = group_sections (found_group e g)"
    and "tab = attempt_table yield 0 t" "free = (\<lambda>k. list_all (enterable (se_me e) (tab k)) css)"
  shows "case try_atomic_alloc_save e yield frame 0 r (t, g, sn) of ((t', s'), ok) \<Rightarrow>
    (ok \<longleftrightarrow> (\<exists>k \<le> r. free k)) \<and> (\<not> ok \<longrightarrow> t' = tab r \<and> s' = (found_group e g, sn)) \<and>
    (ok \<longrightarrow> s' = group_save e frame (found_group e g, sn) \<and>
       (\<exists>k \<le> r. free k \<and> t' = tab k \<and> (\<forall>j < k. \<not> free j) \<and> (\<forall>cs \<in> set css. owned_by (se_me e) (fst (scope_enter (se_me e) css [] (tab k))) cs)))"
  using try_outcome [OF assms(1), of frame yield 0 t r sn] assms(2-4)
  by (auto simp: outcome_def Let_def split: prod.splits if_splits)

text \<open>One allocator; another thread is inside its first section and leaves it while we yield.\<close>

definition sv_env :: save_env where
  "sv_env = \<lparr>se_base = IMAGE_BASE, se_os = (\<lambda>_ _. True), se_commit = (\<lambda>_ _. True), se_revert = False, se_owned = False,
     se_alloc_ok = True, se_supp_ok = (\<lambda>_. True), se_me = 1\<rparr>"

definition sv_group :: "arena \<Rightarrow> alloc_group" where
  "sv_group ar = ((\<lambda>_. 0), ar, units_init\<lparr>un_found := True, un_ctrls := [0x30000]\<rparr>, quar_init)"

definition sv_locks :: lock_table where "sv_locks = (\<lambda>_. None)(0x30060 := Some (7, 0))"

definition sv_yield :: "nat \<Rightarrow> lock_table \<Rightarrow> lock_table" where "sv_yield a t = leave 0x30060 t"

lemma sv_sections:
  "group_sections (found_group sv_env (sv_group ar)) =
     [0x30060, 0x30158, 0x30200, 0x302A8, 0x30350, 0x303F8, 0x304A0, 0x30548, 0x305F0, 0x30620]"
  by (simp add: group_sections_def found_group_def sv_group_def ensure_found_def alloc_sections_def CS_RANGES_def upt_rec)

theorem captured_under_locks_witness:
  "\<forall>ar sn. \<not> snd (try_atomic_alloc_save sv_env sv_yield 5 0 0 (sv_locks, sv_group ar, sn)) \<and>
   snd (try_atomic_alloc_save sv_env sv_yield 5 0 1 (sv_locks, sv_group ar, sn)) \<and>
   fst (fst (try_atomic_alloc_save sv_env sv_yield 5 0 1 (sv_locks, sv_group ar, sn))) = (\<lambda>_. None)"
proof (intro allI)
  fix ar sn
  have len: "length (un_ctrls (fst (snd (snd (found_group sv_env (sv_group ar)))))) \<le> MAX_ALLOCS"
    by (simp add: found_group_def sv_group_def ensure_found_def MAX_ALLOCS_def)
  have y: "sv_yield 0 sv_locks = (\<lambda>_. None)" by (simp add: sv_yield_def sv_locks_def leave_def fun_eq_iff)
  note c = captured_under_locks [OF len sv_sections [symmetric] refl refl, where frame = 5 and yield = sv_yield and t = sv_locks and sn = sn]
  have busy: "\<not> enterable (se_me sv_env) sv_locks 0x30060" by (simp add: enterable_def sv_locks_def sv_env_def)
  have idle: "enterable (se_me sv_env) (\<lambda>_. None) cs" for cs by (simp add: enterable_def)
  have one: "(\<exists>k \<le> Suc 0. P k) \<longleftrightarrow> P 0 \<or> P (Suc 0)" for P by (metis le0 le_SucE le_refl le_zero_eq)
  show "\<not> snd (try_atomic_alloc_save sv_env sv_yield 5 0 0 (sv_locks, sv_group ar, sn)) \<and>
     snd (try_atomic_alloc_save sv_env sv_yield 5 0 1 (sv_locks, sv_group ar, sn)) \<and>
     fst (fst (try_atomic_alloc_save sv_env sv_yield 5 0 1 (sv_locks, sv_group ar, sn))) = (\<lambda>_. None)"
    using c [where r = 0] c [where r = "Suc 0"] busy idle
    by (auto simp: one y split_def simp del: try_atomic_alloc_save.simps scope_enter.simps)
qed

end
