(* ===== verification/Material_Guard.thy ===== *)
theory Material_Guard
  imports Quarantine
begin

text \<open>
  The severing of edges to destroyed materials, \<open>src/src/material_guard.cpp\<close>: a sweep over the scheduler's
  entities, and hooks on the destructors of the material family, which null every holder's edge to a dead
  object and unlink dead effect children; and the table of edges by which an object replaced in place is
  told from its predecessor. Counters and the shadow comparison with the oracle are left out.
\<close>

record mat_env =
  mg_on :: bool
  mg_resim :: bool
  mg_base :: nat
  mg_arena :: arena
  mg_quar :: quar

definition mrd :: "mat_env \<Rightarrow> nat \<Rightarrow> bool" where "mrd e a \<longleftrightarrow> 0x10000 < a \<and> is_committed_addr (mg_arena e) a"

definition dead_sentinel :: "mat_env \<Rightarrow> nat" where "dead_sentinel e = resolve (mg_base e) 0x140A6A510"

definition edge_dead :: "mat_env \<Rightarrow> nat \<Rightarrow> gmem \<Rightarrow> nat \<Rightarrow> bool" where
  "edge_dead e dying m v =
     (if dying \<noteq> 0 then v = dying
      else if v = 0 then False
      else is_held_husk v (mg_quar e) \<or> dead_sentinel e \<noteq> 0 \<and> mrd e v \<and> rd64 m v = dead_sentinel e)"

definition mat_child_offs :: "mat_env \<Rightarrow> gmem \<Rightarrow> nat \<Rightarrow> nat list" where
  "mat_child_offs e m x =
     (if \<not> mrd e x then []
      else let vt = rd64 m x in
        if vt < mg_base e then []
        else let ida = vt - mg_base e + 0x140000000 in
          if ida = 0x140badfa0 \<or> ida = 0x140badfe0 then [0x18, 0x20]
          else if ida = 0x140badee0 then [0x98, 0xa0] else [])"

definition recycled_nonobject :: "mat_env \<Rightarrow> gmem \<Rightarrow> nat \<Rightarrow> bool" where
  "recycled_nonobject e m child =
     (if \<not> mrd e child then False
      else let vt = rd64 m child in
        if vt = 0 then False else if vt < mg_base e then True else 0x2000000 \<le> vt - mg_base e)"

definition husk_child_dtor :: "mat_env \<Rightarrow> gmem \<Rightarrow> nat \<Rightarrow> bool" where
  "husk_child_dtor e m child =
     (if \<not> mrd e child then False
      else let vt = rd64 m child in
        if vt = 0 then True
        else if dead_sentinel e \<noteq> 0 \<and> vt = dead_sentinel e then True
        else if vt < mg_base e then True else 0x2000000 \<le> vt - mg_base e)"

section \<open>The table of edges\<close>

record edge_entry =
  es_slot :: nat
  es_child :: nat
  es_id :: nat
  es_epoch :: nat

record edge_shadow =
  sh_tab :: "nat \<Rightarrow> edge_entry"
  sh_epoch :: nat

definition ESH_CAP :: nat where "ESH_CAP = 2 ^ 19"

definition sh_init :: edge_shadow where
  "sh_init = \<lparr>sh_tab = (\<lambda>_. \<lparr>es_slot = 0, es_child = 0, es_id = 0, es_epoch = 0\<rparr>), sh_epoch = 1\<rparr>"

definition identity_on_rollback :: "edge_shadow \<Rightarrow> edge_shadow" where
  "identity_on_rollback sh = sh\<lparr>sh_epoch := (sh_epoch sh + 1) mod 2 ^ 32\<rparr>"

definition esh_pos :: "nat \<Rightarrow> nat \<Rightarrow> nat" where "esh_pos slot i = (slot div 8 * 2654435761 mod 2 ^ 32 mod ESH_CAP + i) mod ESH_CAP"

primrec esh_probe :: "nat \<Rightarrow> nat \<Rightarrow> nat \<Rightarrow> nat \<Rightarrow> nat \<Rightarrow> edge_shadow \<Rightarrow> bool \<times> edge_shadow" where
  "esh_probe slot child cur i 0 sh = (False, sh)"
| "esh_probe slot child cur i (Suc n) sh =
     (let k = esh_pos slot i; x = sh_tab sh k; ep = sh_epoch sh in
      if es_slot x = slot
      then if es_epoch x = ep \<and> es_child x = child \<and> es_id x \<noteq> cur
           then (True, sh\<lparr>sh_tab := (sh_tab sh)(k := x\<lparr>es_id := cur\<rparr>)\<rparr>)
           else (False, sh\<lparr>sh_tab := (sh_tab sh)(k := x\<lparr>es_child := child, es_id := cur, es_epoch := ep\<rparr>)\<rparr>)
      else if es_slot x = 0 \<or> es_epoch x \<noteq> ep
      then (False, sh\<lparr>sh_tab := (sh_tab sh)(k := \<lparr>es_slot = slot, es_child = child, es_id = cur, es_epoch = ep\<rparr>)\<rparr>)
      else esh_probe slot child cur (i + 1) n sh)"

definition edge_recycled :: "mat_env \<Rightarrow> gmem \<Rightarrow> nat \<Rightarrow> nat \<Rightarrow> edge_shadow \<Rightarrow> bool \<times> edge_shadow" where
  "edge_recycled e m slot child sh =
     (if \<not> mrd e child \<or> \<not> mrd e (child + 0x10) then (False, sh)
      else esh_probe slot child (rd64 m (child + 0x8)) 0 8 sh)"

section \<open>Severing\<close>

record sever_state =
  sv_mem :: gmem
  sv_sh :: edge_shadow
  sv_guard :: nat

definition null_slot :: "nat \<Rightarrow> sever_state \<Rightarrow> sever_state" where "null_slot a s = s\<lparr>sv_mem := wr64 a 0 (sv_mem s)\<rparr>"

definition SEVER_GUARD :: nat where "SEVER_GUARD = 16384"

text \<open>One child slot: dead, replaced in place, or to be descended into by \<open>down\<close>.\<close>

definition sever_child :: "mat_env \<Rightarrow> nat \<Rightarrow> (nat \<Rightarrow> sever_state \<Rightarrow> sever_state) \<Rightarrow> nat \<Rightarrow> sever_state \<Rightarrow> sever_state" where
  "sever_child e dying down ch s =
     (let v = rd64 (sv_mem s) ch in
      if edge_dead e dying (sv_mem s) v then null_slot ch s
      else if v = 0 then s
      else if dying \<noteq> 0 then down v s
      else let (rec, sh) = edge_recycled e (sv_mem s) ch v (sv_sh s); s1 = s\<lparr>sv_sh := sh\<rparr> in
        if rec then null_slot ch s1 else down v s1)"

primrec sever_levels :: "mat_env \<Rightarrow> nat \<Rightarrow> nat \<Rightarrow> nat \<Rightarrow> sever_state \<Rightarrow> sever_state" where
  "sever_levels e dying 0 x s = s"
| "sever_levels e dying (Suc lv) x s =
     (let offs = mat_child_offs e (sv_mem s) x in
      if offs = [] then s
      else let s1 = s\<lparr>sv_guard := sv_guard s + 1\<rparr> in
        if SEVER_GUARD < sv_guard s1 then s1
        else fold (\<lambda>off. sever_child e dying (sever_levels e dying lv) (x + off)) offs s1)"

definition sever_tree :: "mat_env \<Rightarrow> nat \<Rightarrow> nat \<Rightarrow> nat \<Rightarrow> sever_state \<Rightarrow> sever_state" where
  "sever_tree e dying x depth = sever_levels e dying (7 - depth) x"

primrec effect_walk :: "mat_env \<Rightarrow> nat \<Rightarrow> nat \<Rightarrow> nat \<Rightarrow> nat \<Rightarrow> sever_state \<Rightarrow> sever_state" where
  "effect_walk e dying 0 prv child s = s"
| "effect_walk e dying (Suc n) prv child s =
     (if child = 0 \<or> \<not> mrd e child \<or> \<not> mrd e (child + 0x18) then s
      else
        let m = sv_mem s; nx0 = rd64 m (child + 0x18); nx = (if nx0 = child then 0 else nx0) in
        if edge_dead e dying m child \<or> dying = 0 \<and> recycled_nonobject e m child
        then effect_walk e dying n prv nx (s\<lparr>sv_mem := wr64 prv nx m\<rparr>)
        else if dying \<noteq> 0 then effect_walk e dying n (child + 0x18) nx s
        else let (rec, sh) = edge_recycled e m prv child (sv_sh s); s1 = s\<lparr>sv_sh := sh\<rparr> in
          if rec then effect_walk e dying n prv nx (s1\<lparr>sv_mem := wr64 prv nx m\<rparr>)
          else effect_walk e dying n (child + 0x18) nx s1)"

definition sever_effect_list :: "mat_env \<Rightarrow> nat \<Rightarrow> nat \<Rightarrow> sever_state \<Rightarrow> sever_state" where
  "sever_effect_list e dying node s =
     (let prv = node + 0x218; m = sv_mem s in
      if \<not> mrd e prv then s
      else let head = rd64 m prv in
        if head = 0 \<or> \<not> mrd e head \<or> \<not> mrd e (head + 0x18) \<or> \<not> mrd e (head + 0x10) \<or> rd64 m (head + 0x10) \<noteq> node then s
        else effect_walk e dying 512 prv head s)"

text \<open>A holder's slot: null a dead edge, else go down the material's tree.\<close>

definition sever_holder :: "mat_env \<Rightarrow> nat \<Rightarrow> nat \<Rightarrow> sever_state \<Rightarrow> sever_state" where
  "sever_holder e dying slot s =
     (let v = rd64 (sv_mem s) slot in
      if edge_dead e dying (sv_mem s) v then null_slot slot s
      else if v \<noteq> 0 then sever_tree e dying v 0 s else s)"

definition sever_table :: "mat_env \<Rightarrow> nat \<Rightarrow> nat \<Rightarrow> sever_state \<Rightarrow> sever_state" where
  "sever_table e dying node s =
     (if mrd e (node + 0x278) \<and> mrd e (node + 0x4F8 - 8)
      then for_range 0 16 (\<lambda>i. sever_holder e dying (node + 0x278 + i * 0x28)) s else s)"

definition sever_ent_edge :: "mat_env \<Rightarrow> nat \<Rightarrow> nat \<Rightarrow> sever_state \<Rightarrow> sever_state" where
  "sever_ent_edge e dying slot s =
     (if mrd e slot \<and> edge_dead e dying (sv_mem s) (rd64 (sv_mem s) slot) then null_slot slot s else s)"

definition sever_array :: "mat_env \<Rightarrow> nat \<Rightarrow> nat \<Rightarrow> sever_state \<Rightarrow> sever_state" where
  "sever_array e dying node s =
     (if mrd e (node + 0x110) \<and> mrd e (node + 0x118)
      then
        let base = rd64 (sv_mem s) (node + 0x110); c0 = rd32 (sv_mem s) (node + 0x118); cnt = (if 4096 < c0 then 0 else c0) in
        if base \<noteq> 0 \<and> mrd e base \<and> cnt \<noteq> 0 \<and> mrd e (base + (cnt - 1) * 8)
        then for_range 0 cnt (\<lambda>k. sever_holder e dying (base + k * 8)) s else s
      else s)"

definition sever_node :: "mat_env \<Rightarrow> nat \<Rightarrow> nat \<Rightarrow> nat \<Rightarrow> sever_state \<Rightarrow> sever_state" where
  "sever_node e dying line node s =
     (let s1 = sever_table e dying node s;
          s2 = sever_ent_edge e dying (node + 0xa0) (sever_ent_edge e dying (node + 0x98) s1);
          s3 = sever_effect_list e dying node s2
      in if line = 7 \<or> line = 8 then s3 else sever_array e dying node s3)"

text \<open>A line, the flag telling that the node budget is spent.\<close>

primrec sever_line :: "mat_env \<Rightarrow> nat \<Rightarrow> nat \<Rightarrow> nat \<Rightarrow> nat \<Rightarrow> sever_state \<Rightarrow> sever_state \<times> bool" where
  "sever_line e dying line 0 node s = (s, False)"
| "sever_line e dying line (Suc n) node s =
     (if node = 0 \<or> \<not> mrd e node then (s, False)
      else let s1 = s\<lparr>sv_guard := sv_guard s + 1\<rparr> in
        if SEVER_GUARD < sv_guard s1 then (s1, True)
        else let s2 = sever_node e dying line node s1;
                 nx = (if mrd e (node + 0x18) then rd64 (sv_mem s2) (node + 0x18) else 0)
             in sever_line e dying line n nx s2)"

definition sever_all :: "mat_env \<Rightarrow> nat \<Rightarrow> sever_state \<Rightarrow> sever_state" where
  "sever_all e dying s0 =
     (let sp = resolve (mg_base e) 0x140E17698; s = s0\<lparr>sv_guard := 0\<rparr> in
      if sp = 0 then s
      else let sunit = rd64 (sv_mem s) sp in
        if \<not> mrd e sunit then s
        else fst (for_range 0 128
          (\<lambda>line (s, stop). if stop then (s, stop)
             else let h = sunit + 0x50 + line * 0x30;
                      node = (if mrd e (h + 8) then rd64 (sv_mem s) h else 0)
                  in sever_line e dying line 512 node s) (s, False)))"

definition mat_sweep :: "mat_env \<Rightarrow> sever_state \<Rightarrow> sever_state" where
  "mat_sweep e s = (if \<not> mg_on e \<or> mg_resim e then s else sever_all e 0 s)"

definition mat_belt :: "mat_env \<Rightarrow> nat \<Rightarrow> sever_state \<Rightarrow> sever_state" where
  "mat_belt e self s = (if mg_on e \<and> self \<noteq> 0 then sever_all e self s else s)"

definition validate_own_children :: "mat_env \<Rightarrow> nat \<Rightarrow> nat list \<Rightarrow> gmem \<Rightarrow> gmem" where
  "validate_own_children e self offs m =
     (if \<not> mg_on e \<or> \<not> mrd e self then m
      else fold (\<lambda>off m. let slot = self + off; c = rd64 m slot in
             if mrd e slot \<and> c \<noteq> 0 \<and> husk_child_dtor e m c then wr64 slot 0 m else m) offs m)"

text \<open>The four hooks around the engine's destructors.\<close>

datatype mat_class = Variant_FE0 | Variant_FA0 | Material_EE0 | Base_2E0

definition own_offs :: "mat_class \<Rightarrow> nat list" where
  "own_offs c = (case c of Variant_FE0 \<Rightarrow> [0x18, 0x20] | Variant_FA0 \<Rightarrow> [] | _ \<Rightarrow> [0x98, 0xa0])"

definition hk_mat_dtor :: "mat_env \<Rightarrow> (nat \<Rightarrow> gmem \<Rightarrow> gmem) \<Rightarrow> mat_class \<Rightarrow> nat \<Rightarrow> sever_state \<Rightarrow> sever_state" where
  "hk_mat_dtor e orig c self s =
     (let s1 = (if c = Base_2E0 then s else mat_belt e self s)
      in s1\<lparr>sv_mem := orig self (validate_own_children e self (own_offs c) (sv_mem s1))\<rparr>)"

section \<open>Replacement in place\<close>

text \<open>The slots of this epoch, and where a look-up of a slot ends.\<close>

definition current_at :: "edge_shadow \<Rightarrow> nat \<Rightarrow> bool" where "current_at sh k \<longleftrightarrow> es_epoch (sh_tab sh k) = sh_epoch sh"

definition taken :: "edge_shadow \<Rightarrow> nat \<Rightarrow> nat \<Rightarrow> bool" where
  "taken sh slot k \<longleftrightarrow> current_at sh k \<and> es_slot (sh_tab sh k) \<noteq> slot \<and> es_slot (sh_tab sh k) \<noteq> 0"

definition tracked :: "nat \<Rightarrow> edge_shadow \<Rightarrow> bool" where
  "tracked slot sh \<longleftrightarrow> (\<exists>k. current_at sh k \<and> es_slot (sh_tab sh k) = slot)"

definition put_edge :: "nat \<Rightarrow> nat \<Rightarrow> nat \<Rightarrow> nat \<Rightarrow> edge_shadow \<Rightarrow> edge_shadow" where
  "put_edge k slot child cur sh =
     sh\<lparr>sh_tab := (sh_tab sh)(k := \<lparr>es_slot = slot, es_child = child, es_id = cur, es_epoch = sh_epoch sh\<rparr>)\<rparr>"

lemma esh_step_taken: "taken sh slot (esh_pos slot i) \<Longrightarrow> esh_probe slot child cur i (Suc n) sh = esh_probe slot child cur (i + 1) n sh"
  by (simp add: taken_def current_at_def Let_def)

lemma esh_step_free:
  assumes "\<not> taken sh slot (esh_pos slot i)"
  shows "esh_probe slot child cur i (Suc n) sh =
    (let k = esh_pos slot i; x = sh_tab sh k in
     (es_slot x = slot \<and> es_epoch x = sh_epoch sh \<and> es_child x = child \<and> es_id x \<noteq> cur, put_edge k slot child cur sh))"
proof (cases "es_slot (sh_tab sh (esh_pos slot i)) = slot")
  case True
  then show ?thesis
    by (cases "sh_tab sh (esh_pos slot i)") (simp add: put_edge_def Let_def)
next
  case False
  then have "es_slot (sh_tab sh (esh_pos slot i)) = 0 \<or> es_epoch (sh_tab sh (esh_pos slot i)) \<noteq> sh_epoch sh"
    using assms by (auto simp: taken_def current_at_def)
  then show ?thesis using False by (simp add: put_edge_def Let_def)
qed

lemma esh_probe_ends:
  assumes "\<forall>j < i. taken sh slot (esh_pos slot j)"
  shows "(\<forall>j < i + n. taken sh slot (esh_pos slot j)) \<and> esh_probe slot child cur i n sh = (False, sh) \<or>
    (\<exists>p < i + n. (\<forall>j < p. taken sh slot (esh_pos slot j)) \<and> \<not> taken sh slot (esh_pos slot p) \<and>
       esh_probe slot child cur i n sh =
         (let k = esh_pos slot p; x = sh_tab sh k in
          (es_slot x = slot \<and> es_epoch x = sh_epoch sh \<and> es_child x = child \<and> es_id x \<noteq> cur, put_edge k slot child cur sh)))"
  using assms
proof (induction n arbitrary: i)
  case (Suc n)
  show ?case
  proof (cases "taken sh slot (esh_pos slot i)")
    case True
    then have t: "\<forall>j < i + 1. taken sh slot (esh_pos slot j)" using Suc.prems by (simp add: less_Suc_eq)
    show ?thesis using Suc.IH [OF t] unfolding esh_step_taken [OF True] by simp
  next
    case False
    show ?thesis using Suc.prems False unfolding esh_step_free [OF False] by (intro disjI2 exI [of _ i]) simp
  qed
qed simp

lemma probe_ends:
  "(\<forall>j < 8. taken sh s (esh_pos s j)) \<and> esh_probe s c i 0 8 sh = (False, sh) \<or>
    (\<exists>p < 8. (\<forall>j < p. taken sh s (esh_pos s j)) \<and> \<not> taken sh s (esh_pos s p) \<and>
       esh_probe s c i 0 8 sh = (let k = esh_pos s p; x = sh_tab sh k in
          (es_slot x = s \<and> es_epoch x = sh_epoch sh \<and> es_child x = c \<and> es_id x \<noteq> i, put_edge k s c i sh)))"
  using esh_probe_ends [of 0 sh s 8 c i] by simp

text \<open>What the table knows: a visit is a slot, its child and the child's identity.\<close>

fun last_visit :: "nat \<Rightarrow> (nat \<times> nat \<times> nat) list \<Rightarrow> (nat \<times> nat) option" where
  "last_visit s [] = None"
| "last_visit s ((t, c, i) # vs) = (case last_visit s vs of None \<Rightarrow> if t = s then Some (c, i) else None | r \<Rightarrow> r)"

lemma last_visit_snoc: "last_visit s (vs @ [(t, c, i)]) = (if t = s then Some (c, i) else last_visit s vs)"
  by (induction vs) (auto split: option.splits)

definition homes_ok :: "(nat \<times> nat \<times> nat) list \<Rightarrow> edge_shadow \<Rightarrow> bool" where
  "homes_ok vs sh \<longleftrightarrow>
     (\<forall>k. current_at sh k \<longrightarrow> (let x = sh_tab sh k in last_visit (es_slot x) vs = Some (es_child x, es_id x) \<and>
        (\<exists>i < 8. k = esh_pos (es_slot x) i \<and> (\<forall>j < i. taken sh (es_slot x) (esh_pos (es_slot x) j)))))"

lemma put_edge_simps [simp]: "sh_epoch (put_edge k s c i sh) = sh_epoch sh"
  "sh_tab (put_edge k s c i sh) j = (if j = k then \<lparr>es_slot = s, es_child = c, es_id = i, es_epoch = sh_epoch sh\<rparr> else sh_tab sh j)"
  by (simp_all add: put_edge_def)

lemma taken_put: "taken sh t j \<Longrightarrow> s \<noteq> 0 \<Longrightarrow> s \<noteq> t \<Longrightarrow> taken (put_edge k s c i sh) t j"
  by (simp add: taken_def current_at_def)

lemma homes_at:
  assumes "homes_ok vs sh" "current_at sh k"
  obtains i where "last_visit (es_slot (sh_tab sh k)) vs = Some (es_child (sh_tab sh k), es_id (sh_tab sh k))" "i < 8"
    "k = esh_pos (es_slot (sh_tab sh k)) i" "\<forall>j < i. taken sh (es_slot (sh_tab sh k)) (esh_pos (es_slot (sh_tab sh k)) j)"
  using assms by (auto simp: homes_ok_def Let_def)

lemma home_unique:
  assumes "homes_ok vs sh" "current_at sh k" "es_slot (sh_tab sh k) = s" "\<forall>j < p. taken sh s (esh_pos s j)" "\<not> taken sh s (esh_pos s p)"
  shows "k = esh_pos s p"
proof -
  obtain i where i: "k = esh_pos s i" "\<forall>j < i. taken sh s (esh_pos s j)"
    using homes_at [OF assms(1,2)] assms(3) by metis
  have "\<not> i < p" using assms(3,4) i(1) by (auto simp: taken_def)
  moreover have "\<not> p < i" using assms(5) i(2) by auto
  ultimately show ?thesis using i(1) by (simp add: nat_neq_iff)
qed

lemma full_untracked:
  assumes "homes_ok vs sh" "\<forall>j < 8. taken sh s (esh_pos s j)"
  shows "\<not> tracked s sh"
proof
  assume "tracked s sh"
  then obtain k where k: "current_at sh k" "es_slot (sh_tab sh k) = s" by (auto simp: tracked_def)
  obtain i where "i < 8" "k = esh_pos s i" using homes_at [OF assms(1) k(1)] k(2) by metis
  then show False using assms(2) k(2) by (auto simp: taken_def)
qed

lemma put_homes:
  assumes h: "homes_ok vs sh" and s: "s \<noteq> 0" and p: "p < 8" "\<forall>j < p. taken sh s (esh_pos s j)" "\<not> taken sh s (esh_pos s p)"
  shows "homes_ok (vs @ [(s, c, i)]) (put_edge (esh_pos s p) s c i sh)"
  unfolding homes_ok_def Let_def
proof (intro allI impI)
  fix k assume cur: "current_at (put_edge (esh_pos s p) s c i sh) k"
  let ?g = "put_edge (esh_pos s p) s c i sh"
  show "last_visit (es_slot (sh_tab ?g k)) (vs @ [(s, c, i)]) = Some (es_child (sh_tab ?g k), es_id (sh_tab ?g k)) \<and>
    (\<exists>n < 8. k = esh_pos (es_slot (sh_tab ?g k)) n \<and> (\<forall>j < n. taken ?g (es_slot (sh_tab ?g k)) (esh_pos (es_slot (sh_tab ?g k)) j)))"
  proof (cases "k = esh_pos s p")
    case True
    have "taken ?g s (esh_pos s j)" if "j < p" for j
      using p(2,3) that by (auto simp: taken_def current_at_def)
    then show ?thesis using True p(1) by (auto simp: last_visit_snoc)
  next
    case False
    then have c: "current_at sh k" using cur by (simp add: current_at_def)
    have ne: "es_slot (sh_tab sh k) \<noteq> s" using home_unique [OF h c _ p(2,3)] False by blast
    obtain n where n: "last_visit (es_slot (sh_tab sh k)) vs = Some (es_child (sh_tab sh k), es_id (sh_tab sh k))" "n < 8"
      "k = esh_pos (es_slot (sh_tab sh k)) n" "\<forall>j < n. taken sh (es_slot (sh_tab sh k)) (esh_pos (es_slot (sh_tab sh k)) j)"
      using homes_at [OF h c] .
    have "\<forall>j < n. taken ?g (es_slot (sh_tab sh k)) (esh_pos (es_slot (sh_tab sh k)) j)"
      using n(4) taken_put s ne by metis
    then show ?thesis using False ne n(1,2,3) by (auto simp: last_visit_snoc)
  qed
qed

lemma visit_homes:
  assumes h: "homes_ok vs sh" and s: "s \<noteq> 0"
  shows "homes_ok (vs @ [(s, c, i)]) (snd (esh_probe s c i 0 8 sh))"
  using probe_ends [of sh s c i]
proof (elim disjE conjE exE)
  assume t: "\<forall>j < 8. taken sh s (esh_pos s j)" and e: "esh_probe s c i 0 8 sh = (False, sh)"
  have "es_slot (sh_tab sh k) \<noteq> s" if "current_at sh k" for k
    using full_untracked [OF h] t that by (auto simp: tracked_def)
  then show ?thesis using h unfolding e by (auto simp: homes_ok_def Let_def last_visit_snoc)
next
  fix p assume p: "p < 8" "\<forall>j < p. taken sh s (esh_pos s j)" "\<not> taken sh s (esh_pos s p)"
    and e: "esh_probe s c i 0 8 sh = (let k = esh_pos s p; x = sh_tab sh k in
      (es_slot x = s \<and> es_epoch x = sh_epoch sh \<and> es_child x = c \<and> es_id x \<noteq> i, put_edge k s c i sh))"
  show ?thesis unfolding e using put_homes [OF h s] p by (simp add: Let_def)
qed

lemma probe_answer:
  assumes h: "homes_ok vs sh"
  shows "fst (esh_probe s c i 0 8 sh) \<longleftrightarrow> tracked s sh \<and> (\<exists>j. last_visit s vs = Some (c, j) \<and> j \<noteq> i)"
  using probe_ends [of sh s c i]
proof (elim disjE conjE exE)
  assume "\<forall>j < 8. taken sh s (esh_pos s j)" "esh_probe s c i 0 8 sh = (False, sh)"
  then show ?thesis using full_untracked [OF h, of s] by simp
next
  fix p assume p: "\<forall>j < p. taken sh s (esh_pos s j)" "\<not> taken sh s (esh_pos s p)"
    and e: "esh_probe s c i 0 8 sh = (let k = esh_pos s p; x = sh_tab sh k in
      (es_slot x = s \<and> es_epoch x = sh_epoch sh \<and> es_child x = c \<and> es_id x \<noteq> i, put_edge k s c i sh))"
  let ?x = "sh_tab sh (esh_pos s p)"
  have lv: "last_visit s vs = Some (es_child ?x, es_id ?x)" if "current_at sh (esh_pos s p)" "es_slot ?x = s"
    using homes_at [OF h that(1)] that(2) by metis
  have "tracked s sh \<longleftrightarrow> current_at sh (esh_pos s p) \<and> es_slot ?x = s"
    using home_unique [OF h _ _ p] by (auto simp: tracked_def)
  then show ?thesis unfolding e using lv by (auto simp: Let_def current_at_def)
qed

text \<open>A run of look-ups, each in the memory of its moment; unreadable children leave no visit.\<close>

definition look_up :: "mat_env \<Rightarrow> gmem \<times> nat \<times> nat \<Rightarrow> edge_shadow \<Rightarrow> edge_shadow" where
  "look_up e l sh = (case l of (m, slot, child) \<Rightarrow> snd (edge_recycled e m slot child sh))"

fun seen :: "mat_env \<Rightarrow> (gmem \<times> nat \<times> nat) list \<Rightarrow> (nat \<times> nat \<times> nat) list" where
  "seen e [] = []"
| "seen e ((m, slot, child) # ls) =
     (if mrd e child \<and> mrd e (child + 0x10) then [(slot, child, rd64 m (child + 8))] else []) @ seen e ls"

lemma look_up_probe:
  "look_up e (m, slot, child) sh =
     (if mrd e child \<and> mrd e (child + 0x10) then snd (esh_probe slot child (rd64 m (child + 8)) 0 8 sh) else sh)"
  by (simp add: look_up_def edge_recycled_def)

lemma seen_snoc: "seen e (ls @ [l]) = seen e ls @ seen e [l]"
  by (induction ls) auto

lemma run_homes:
  assumes "\<forall>l \<in> set ls. fst (snd l) \<noteq> 0" "\<And>k. \<not> current_at sh k"
  shows "homes_ok (seen e ls) (fold (look_up e) ls sh)"
  using assms(1)
proof (induction ls rule: rev_induct)
  case Nil
  then show ?case using assms(2) by (simp add: homes_ok_def)
next
  case (snoc l ls)
  obtain m s c where l: "l = (m, s, c)" by (cases l)
  have h: "homes_ok (seen e ls) (fold (look_up e) ls sh)" using snoc by simp
  show ?case using visit_homes [OF h] snoc.prems h
    by (simp add: l seen_snoc look_up_probe)
qed

text \<open>C23. The test for an object replaced in place is exact: after any look-ups since the last rollback it
  answers yes for an edge exactly when the slot is still in the table, the slot's last look-up saw this very
  child, and the child carries another identity now. A slot that found no place is never called stale.\<close>

theorem replaced_exactly:
  assumes "\<forall>l \<in> set ls. fst (snd l) \<noteq> 0" and "\<And>k. es_epoch (sh_tab sh k) \<noteq> sh_epoch sh"
  shows "fst (edge_recycled e m slot child (fold (look_up e) ls sh)) \<longleftrightarrow>
    mrd e child \<and> mrd e (child + 0x10) \<and> tracked slot (fold (look_up e) ls sh) \<and>
    (\<exists>j. last_visit slot (seen e ls) = Some (child, j) \<and> j \<noteq> rd64 m (child + 8))"
  using probe_answer [OF run_homes [of ls sh e]] assms by (auto simp: edge_recycled_def current_at_def)

definition mat_demo :: mat_env where
  "mat_demo = \<lparr>mg_on = True, mg_resim = False, mg_base = 0,
     mg_arena = (arena_init 0)\<lparr>ar_committed := (\<lambda>_. True)\<rparr>, mg_quar = quar_init\<rparr>"

definition reborn :: "nat \<Rightarrow> gmem" where "reborn k = wr64 0x30008 k (\<lambda>_. 0)"

lemma demo_mrd: "0x10000 < a \<Longrightarrow> a < 0x1000000 \<Longrightarrow> mrd mat_demo a"
  by (simp add: mrd_def mat_demo_def is_committed_addr_def arena_init_def ARENA_SIZE_def)

lemma demo_tracked: "tracked 0x40000 (fold (look_up mat_demo) [(reborn 5, 0x40000, 0x30000)] sh_init)"
proof -
  have "snd (esh_probe 0x40000 0x30000 j 0 (Suc 7) sh_init) = put_edge (esh_pos 0x40000 0) 0x40000 0x30000 j sh_init" for j
    by (subst esh_step_free) (simp_all add: taken_def current_at_def sh_init_def Let_def)
  then show ?thesis
    by (simp add: look_up_probe demo_mrd tracked_def current_at_def exI [of _ "esh_pos 0x40000 0"])
qed

theorem replaced_exactly_witness:
  "fst (edge_recycled mat_demo (reborn 6) 0x40000 0x30000
     (fold (look_up mat_demo) [(reborn 5, 0x40000, 0x30000)] sh_init))"
proof -
  let ?ls = "[(reborn 5, 0x40000 :: nat, 0x30000 :: nat)]"
  have "\<forall>l \<in> set ?ls. fst (snd l) \<noteq> 0" "\<And>k. es_epoch (sh_tab sh_init k) \<noteq> sh_epoch sh_init" by (simp_all add: sh_init_def)
  moreover have "last_visit 0x40000 (seen mat_demo ?ls) = Some (0x30000, 5)" by (simp add: demo_mrd reborn_def mem_simps)
  moreover have "rd64 (reborn 6) (0x30000 + 8) = 6" by (simp add: reborn_def mem_simps)
  ultimately show ?thesis
    using replaced_exactly [where ls = ?ls and sh = sh_init and e = mat_demo and m = "reborn 6" and slot = "0x40000" and child = "0x30000"] demo_tracked demo_mrd by simp
qed

section \<open>What a pass may write\<close>

text \<open>
  Dead, without the code's test: in a belt the dying object itself; in a sweep a held husk, or a readable
  object with the vtable the engine leaves behind a destructor. No object: a first word that is neither
  zero nor within 32 MB of the module's base.
\<close>

definition dead_child :: "mat_env \<Rightarrow> nat \<Rightarrow> gmem \<Rightarrow> nat \<Rightarrow> bool" where
  "dead_child e d m v \<longleftrightarrow> (if d \<noteq> 0 then v = d
     else v \<noteq> 0 \<and> (is_held_husk v (mg_quar e)
       \<or> mrd e v \<and> rd64 m v = resolve (mg_base e) 0x140A6A510 \<and> resolve (mg_base e) 0x140A6A510 \<noteq> 0))"

definition no_object :: "mat_env \<Rightarrow> gmem \<Rightarrow> nat \<Rightarrow> bool" where
  "no_object e m v \<longleftrightarrow> mrd e v \<and> rd64 m v \<noteq> 0 \<and> (rd64 m v < mg_base e \<or> mg_base e + 0x2000000 \<le> rd64 m v)"

text \<open>The child cells of a material by its class: the two small variants and the full material.\<close>

definition class_cells :: "mat_env \<Rightarrow> gmem \<Rightarrow> nat \<Rightarrow> nat set" where
  "class_cells e m x =
     (if \<not> mrd e x then {}
      else if rd64 m x + 0x140000000 \<in> {mg_base e + 0x140badfa0, mg_base e + 0x140badfe0} then {x + 0x18, x + 0x20}
      else if rd64 m x + 0x140000000 = mg_base e + 0x140badee0 then {x + 0x98, x + 0xa0} else {})"

text \<open>
  A pass as a transition system. The cursor says at which entity of which line the pass is, which cells of
  it hold materials (its table, its array) and which are child cells of materials reached from those, and,
  once its effect list has been recognised, at which link of that list.
\<close>

record cursor =
  cu_line :: nat
  cu_node :: nat
  cu_hold :: "nat set"
  cu_child :: "nat set"
  cu_link :: "nat option"

definition at_entity :: "nat \<Rightarrow> nat \<Rightarrow> cursor" where
  "at_entity l n = \<lparr>cu_line = l, cu_node = n, cu_hold = {}, cu_child = {}, cu_link = None\<rparr>"

definition next_of :: "gmem \<Rightarrow> nat \<Rightarrow> nat" where
  "next_of m c = (if rd64 m (c + 0x18) = c then 0 else rd64 m (c + 0x18))"

inductive sever_step :: "mat_env \<Rightarrow> nat \<Rightarrow> nat \<Rightarrow> cursor \<times> sever_state \<Rightarrow> cursor \<times> sever_state \<Rightarrow> bool" for e d su where
  budget: "sever_step e d su (cu, s) (cu, s\<lparr>sv_guard := g\<rparr>)"
| look: "d = 0 \<Longrightarrow> edge_recycled e (sv_mem s) a (rd64 (sv_mem s) a) (sv_sh s) = (False, sh) \<Longrightarrow>
    sever_step e d su (cu, s) (cu, s\<lparr>sv_sh := sh\<rparr>)"
| enter: "l < 128 \<Longrightarrow> n = rd64 (sv_mem s) (su + 0x50 + l * 0x30) \<Longrightarrow> mrd e n \<Longrightarrow> sever_step e d su (cu, s) (at_entity l n, s)"
| onward: "n = rd64 (sv_mem s) (cu_node cu + 0x18) \<Longrightarrow> mrd e n \<Longrightarrow> sever_step e d su (cu, s) (at_entity (cu_line cu) n, s)"
| table: "mrd e (cu_node cu + 0x278) \<Longrightarrow> mrd e (cu_node cu + 0x4F0) \<Longrightarrow>
    sever_step e d su (cu, s) (cu\<lparr>cu_hold := cu_hold cu \<union> {cu_node cu + 0x278 + i * 0x28 | i. i < 16}\<rparr>, s)"
| array: "cu_line cu \<noteq> 7 \<Longrightarrow> cu_line cu \<noteq> 8 \<Longrightarrow> b = rd64 (sv_mem s) (cu_node cu + 0x110) \<Longrightarrow> k = rd32 (sv_mem s) (cu_node cu + 0x118) \<Longrightarrow>
    k \<le> 4096 \<Longrightarrow> mrd e b \<Longrightarrow> mrd e (b + (k - 1) * 8) \<Longrightarrow> sever_step e d su (cu, s) (cu\<lparr>cu_hold := cu_hold cu \<union> {b + i * 8 | i. i < k}\<rparr>, s)"
| descend: "a \<in> cu_hold cu \<union> cu_child cu \<Longrightarrow> v = rd64 (sv_mem s) a \<Longrightarrow> \<not> dead_child e d (sv_mem s) v \<Longrightarrow>
    sever_step e d su (cu, s) (cu\<lparr>cu_child := cu_child cu \<union> class_cells e (sv_mem s) v\<rparr>, s)"
| clear_dead: "a \<in> cu_hold cu \<union> cu_child cu \<or> a \<in> {cu_node cu + 0x98, cu_node cu + 0xa0} \<and> mrd e a \<Longrightarrow> dead_child e d (sv_mem s) (rd64 (sv_mem s) a) \<Longrightarrow>
    sever_step e d su (cu, s) (cu, s\<lparr>sv_mem := wr64 a 0 (sv_mem s)\<rparr>)"
| clear_replaced: "d = 0 \<Longrightarrow> a \<in> cu_child cu \<Longrightarrow> edge_recycled e (sv_mem s) a (rd64 (sv_mem s) a) (sv_sh s) = (True, sh) \<Longrightarrow>
    sever_step e d su (cu, s) (cu, s\<lparr>sv_sh := sh, sv_mem := wr64 a 0 (sv_mem s)\<rparr>)"
| effects: "c = rd64 (sv_mem s) (cu_node cu + 0x218) \<Longrightarrow> mrd e c \<Longrightarrow> rd64 (sv_mem s) (c + 0x10) = cu_node cu \<Longrightarrow>
    sever_step e d su (cu, s) (cu\<lparr>cu_link := Some (cu_node cu + 0x218)\<rparr>, s)"
| keep: "cu_link cu = Some a \<Longrightarrow> c = rd64 (sv_mem s) a \<Longrightarrow> mrd e c \<Longrightarrow> sever_step e d su (cu, s) (cu\<lparr>cu_link := Some (c + 0x18)\<rparr>, s)"
| unlink_dead: "cu_link cu = Some a \<Longrightarrow> c = rd64 (sv_mem s) a \<Longrightarrow> mrd e c \<Longrightarrow>
    dead_child e d (sv_mem s) c \<or> d = 0 \<and> no_object e (sv_mem s) c \<Longrightarrow>
    sever_step e d su (cu, s) (cu, s\<lparr>sv_mem := wr64 a (next_of (sv_mem s) c) (sv_mem s)\<rparr>)"
| unlink_replaced: "d = 0 \<Longrightarrow> cu_link cu = Some a \<Longrightarrow> c = rd64 (sv_mem s) a \<Longrightarrow> mrd e c \<Longrightarrow>
    edge_recycled e (sv_mem s) a c (sv_sh s) = (True, sh) \<Longrightarrow>
    sever_step e d su (cu, s) (cu, s\<lparr>sv_sh := sh, sv_mem := wr64 a (next_of (sv_mem s) c) (sv_mem s)\<rparr>)"

abbreviation sever_steps :: "mat_env \<Rightarrow> nat \<Rightarrow> nat \<Rightarrow> cursor \<times> sever_state \<Rightarrow> cursor \<times> sever_state \<Rightarrow> bool" where
  "sever_steps e d su \<equiv> (sever_step e d su)\<^sup>*\<^sup>*"

lemma step_steps: "sever_step e d su x y \<Longrightarrow> sever_steps e d su x y"
  by (rule r_into_rtranclp)

lemma steps_cons: "sever_step e d su x y \<Longrightarrow> sever_steps e d su y z \<Longrightarrow> sever_steps e d su x z"
  by (rule converse_rtranclp_into_rtranclp)

text \<open>The code's tests say what the specification says.\<close>

lemma edge_dead_iff: "edge_dead e d m v = dead_child e d m v"
  by (auto simp: edge_dead_def dead_child_def dead_sentinel_def)

lemma recycled_nonobject_iff: "recycled_nonobject e m v = no_object e m v"
  by (auto simp: recycled_nonobject_def no_object_def Let_def)

lemma child_cells: "off \<in> set (mat_child_offs e m x) \<Longrightarrow> x + off \<in> class_cells e m x"
proof -
  assume off: "off \<in> set (mat_child_offs e m x)"
  define vt b where "vt = rd64 m x" and "b = mg_base e"
  define P Q where "P \<longleftrightarrow> vt - b + 0x140000000 = 0x140badfa0 \<or> vt - b + 0x140000000 = 0x140badfe0"
    and "Q \<longleftrightarrow> vt - b + 0x140000000 = 0x140badee0"
  have offs: "mat_child_offs e m x = (if \<not> mrd e x \<or> vt < b then [] else if P then [0x18, 0x20] else if Q then [0x98, 0xa0] else [])"
    by (simp add: mat_child_offs_def vt_def b_def P_def Q_def Let_def)
  then have rd: "mrd e x" "b \<le> vt" using off by (auto split: if_splits)
  have P: "P \<longleftrightarrow> vt + 0x140000000 \<in> {b + 0x140badfa0, b + 0x140badfe0}" and Q: "Q \<longleftrightarrow> vt + 0x140000000 = b + 0x140badee0"
    unfolding P_def Q_def using rd(2) by (simp_all only: insert_iff empty_iff) arith+
  have "class_cells e m x = (if P then {x + 0x18, x + 0x20} else if Q then {x + 0x98, x + 0xa0} else {})"
    by (simp only: class_cells_def rd(1) P Q vt_def b_def) simp
  moreover have "off \<in> set (if P then [0x18, 0x20] else if Q then [0x98, 0xa0] else [])" using off offs rd by simp
  ultimately show ?thesis by (cases P; cases Q) auto
qed

text \<open>Passes at one entity, during which the cursor only learns cells.\<close>

definition grows :: "cursor \<Rightarrow> cursor \<Rightarrow> bool" where
  "grows cu cv \<longleftrightarrow> cu_line cv = cu_line cu \<and> cu_node cv = cu_node cu \<and> cu_hold cu \<subseteq> cu_hold cv \<and> cu_child cu \<subseteq> cu_child cv"

definition visits :: "mat_env \<Rightarrow> nat \<Rightarrow> nat \<Rightarrow> cursor \<Rightarrow> sever_state \<Rightarrow> sever_state \<Rightarrow> bool" where
  "visits e d su cu s t \<longleftrightarrow> (\<exists>cv. grows cu cv \<and> sever_steps e d su (cu, s) (cv, t))"

lemma grows_refl [simp]: "grows cu cu" by (simp add: grows_def)

lemma grows_trans: "grows a b \<Longrightarrow> grows b c \<Longrightarrow> grows a c" by (auto simp: grows_def)

lemma visits_refl [simp]: "visits e d su cu s s"
  unfolding visits_def by (rule exI [of _ cu]) simp

lemma visits_step: "sever_step e d su (cu, s) (cv, t) \<Longrightarrow> grows cu cv \<Longrightarrow> visits e d su cv t u \<Longrightarrow> visits e d su cu s u"
  by (meson visits_def grows_trans converse_rtranclp_into_rtranclp)

lemma visits_enter: "sever_step e d su (cu, s) (cv, t) \<Longrightarrow> visits e d su cv t u \<Longrightarrow> grows cu cv \<Longrightarrow> visits e d su cu s u"
  by (rule visits_step)

lemma visits_one: "sever_step e d su (cu, s) (cu, t) \<Longrightarrow> visits e d su cu s t"
  using visits_step [of e d su cu s cu t t] by simp

lemma visits_then:
  assumes "visits e d su cu s t" "\<And>cv. grows cu cv \<Longrightarrow> visits e d su cv t u"
  shows "visits e d su cu s u"
  using assms by (meson visits_def grows_trans rtranclp_trans)

lemma visits_fold:
  assumes "\<And>x cv s. x \<in> set xs \<Longrightarrow> grows cu cv \<Longrightarrow> visits e d su cv s (f x s)"
  shows "visits e d su cu s (fold f xs s)"
  using assms
proof (induction xs arbitrary: cu s)
  case (Cons x xs)
  have "visits e d su cu s (f x s)" using Cons.prems by simp
  moreover have "visits e d su cv (f x s) (fold f xs (f x s))" if "grows cu cv" for cv
    using Cons.IH [of cv "f x s"] Cons.prems grows_trans [OF that] by auto
  ultimately show ?case by (auto intro: visits_then)
qed simp

lemma visits_range:
  assumes "\<And>i cv s. i < b \<Longrightarrow> grows cu cv \<Longrightarrow> visits e d su cv s (f i s)"
  shows "visits e d su cu s (for_range 0 b f s)"
  unfolding for_range_def by (rule visits_fold) (use assms in auto)

lemma visits_null:
  "a \<in> cu_hold cu \<union> cu_child cu \<or> a \<in> {cu_node cu + 0x98, cu_node cu + 0xa0} \<and> mrd e a \<Longrightarrow> edge_dead e d (sv_mem s) (rd64 (sv_mem s) a) \<Longrightarrow>
   visits e d su cu s (null_slot a s)"
  unfolding null_slot_def edge_dead_iff by (intro visits_one sever_step.clear_dead)

text \<open>The pieces of a visit.\<close>

lemma visits_child:
  assumes "ch \<in> cu_child cu"
    "\<And>cv s. grows cu cv \<Longrightarrow> \<not> dead_child e d (sv_mem s) (rd64 (sv_mem s) ch) \<Longrightarrow> visits e d su cv s (down (rd64 (sv_mem s) ch) s)"
  shows "visits e d su cu s (sever_child e d down ch s)"
proof -
  let ?v = "rd64 (sv_mem s) ch"
  consider "edge_dead e d (sv_mem s) ?v" | "\<not> edge_dead e d (sv_mem s) ?v" "?v = 0" | "\<not> edge_dead e d (sv_mem s) ?v" "?v \<noteq> 0" "d \<noteq> 0"
    | "\<not> edge_dead e d (sv_mem s) ?v" "?v \<noteq> 0" "d = 0" by blast
  then show ?thesis
  proof cases
    case 1
    then show ?thesis using assms(1) by (simp add: sever_child_def visits_null Let_def)
  next
    case 2
    then show ?thesis by (simp add: sever_child_def Let_def)
  next
    case 3
    then show ?thesis using assms(2) [of cu s] by (simp add: sever_child_def edge_dead_iff Let_def)
  next
    case 4
    obtain b sh where r: "edge_recycled e (sv_mem s) ch ?v (sv_sh s) = (b, sh)" by (cases "edge_recycled e (sv_mem s) ch ?v (sv_sh s)")
    show ?thesis
    proof (cases b)
      case True
      have "sever_step e d su (cu, s) (cu, s\<lparr>sv_sh := sh, sv_mem := wr64 ch 0 (sv_mem s)\<rparr>)"
        using 4(3) r True assms(1) by (intro sever_step.clear_replaced) simp_all
      then show ?thesis using 4 r True visits_one by (simp add: sever_child_def Let_def null_slot_def)
    next
      case False
      have "sever_step e d su (cu, s) (cu, s\<lparr>sv_sh := sh\<rparr>)" using 4(3) r False by (intro sever_step.look [where a = ch]) simp_all
      moreover have "visits e d su cu (s\<lparr>sv_sh := sh\<rparr>) (down ?v (s\<lparr>sv_sh := sh\<rparr>))"
        using assms(2) [of cu "s\<lparr>sv_sh := sh\<rparr>"] 4(1) by (simp add: edge_dead_iff)
      ultimately have "visits e d su cu s (down ?v (s\<lparr>sv_sh := sh\<rparr>))" by (rule visits_step [OF _ grows_refl])
      then show ?thesis using 4 r False by (simp add: sever_child_def Let_def)
    qed
  qed
qed

lemma visits_levels:
  assumes "a \<in> cu_hold cu \<union> cu_child cu" "\<not> dead_child e d (sv_mem s) (rd64 (sv_mem s) a)"
  shows "visits e d su cu s (sever_levels e d n (rd64 (sv_mem s) a) s)"
  using assms
proof (induction n arbitrary: a cu s)
  case (Suc n)
  let ?x = "rd64 (sv_mem s) a" and ?s = "s\<lparr>sv_guard := sv_guard s + 1\<rparr>"
  let ?offs = "mat_child_offs e (sv_mem s) ?x"
  let ?cv = "cu\<lparr>cu_child := cu_child cu \<union> class_cells e (sv_mem s) ?x\<rparr>"
  have d: "sever_step e d su (cu, s) (?cv, s)" using Suc.prems by (intro sever_step.descend) simp_all
  have b: "sever_step e d su (?cv, s) (?cv, ?s)" by (rule sever_step.budget)
  have "visits e d su ?cv ?s (fold (\<lambda>off. sever_child e d (sever_levels e d n) (?x + off)) ?offs ?s)"
  proof (rule visits_fold)
    fix off cv t
    assume off: "off \<in> set ?offs" and g: "grows ?cv cv"
    have "?x + off \<in> cu_child cv" using child_cells [OF off] g by (auto simp: grows_def)
    then show "visits e d su cv t (sever_child e d (sever_levels e d n) (?x + off) t)"
      by (intro visits_child Suc.IH) (auto simp: grows_def)
  qed
  then have "visits e d su ?cv s (fold (\<lambda>off. sever_child e d (sever_levels e d n) (?x + off)) ?offs ?s)"
    "visits e d su ?cv s ?s" using b visits_step visits_one grows_refl by blast+
  then have "visits e d su cu s (fold (\<lambda>off. sever_child e d (sever_levels e d n) (?x + off)) ?offs ?s)"
    "visits e d su cu s ?s" by (auto intro!: visits_step [OF d] simp: grows_def)
  then show ?case by (simp add: Let_def)
qed simp

lemma visits_holder: "a \<in> cu_hold cu \<Longrightarrow> visits e d su cu s (sever_holder e d a s)"
  by (auto simp: sever_holder_def sever_tree_def Let_def edge_dead_iff intro: visits_null visits_levels)

lemma visits_walk:
  "cu_link cu = Some prv \<Longrightarrow> child = 0 \<or> rd64 (sv_mem s) prv = child \<Longrightarrow> visits e d su cu s (effect_walk e d n prv child s)"
proof (induction n arbitrary: cu prv child s)
  case (Suc n)
  let ?m = "sv_mem s" and ?nx = "next_of (sv_mem s) child"
  let ?on = "effect_walk e d n (child + 0x18) ?nx" and ?cut = "\<lambda>s. s\<lparr>sv_mem := wr64 prv ?nx ?m\<rparr>"
  have nx: "(if rd64 ?m (child + 0x18) = child then 0 else rd64 ?m (child + 0x18)) = ?nx" by (simp add: next_of_def)
  show ?case
  proof (cases "child = 0 \<or> \<not> mrd e child \<or> \<not> mrd e (child + 0x18)")
    case False
    then have at: "child = rd64 ?m prv" and rd: "mrd e child" using Suc.prems by simp_all
    have on: "visits e d su cu t (?on t)" if "sv_mem t = ?m" for t
      by (rule visits_step [OF sever_step.keep [OF Suc.prems(1), where c = child]])
        (use at rd that in \<open>auto simp: grows_def next_of_def intro!: Suc.IH\<close>)
    have off: "visits e d su cu (?cut t) (effect_walk e d n prv ?nx (?cut t))" for t
      by (rule Suc.IH [OF Suc.prems(1)]) (simp add: rd64_back next_of_def)
    consider (bad) "edge_dead e d ?m child \<or> d = 0 \<and> recycled_nonobject e ?m child"
      | (belt) "\<not> edge_dead e d ?m child" "d \<noteq> 0"
      | (rec) sh where "\<not> edge_dead e d ?m child" "\<not> recycled_nonobject e ?m child" "d = 0" "edge_recycled e ?m prv child (sv_sh s) = (True, sh)"
      | (ok) sh where "\<not> edge_dead e d ?m child" "\<not> recycled_nonobject e ?m child" "d = 0" "edge_recycled e ?m prv child (sv_sh s) = (False, sh)"
      using prod.collapse [of "edge_recycled e ?m prv child (sv_sh s)"] by (metis (full_types))
    then show ?thesis
    proof cases
      case bad
      have "sever_step e d su (cu, s) (cu, ?cut s)"
        by (rule sever_step.unlink_dead [OF Suc.prems(1) at rd]) (use bad in \<open>simp add: edge_dead_iff recycled_nonobject_iff\<close>)
      from visits_step [OF this grows_refl off] bad False show ?thesis by (simp add: nx Let_def)
    next
      case belt
      then show ?thesis using on [of s] False by (simp add: nx Let_def)
    next
      case rec
      have "sever_step e d su (cu, s) (cu, ?cut (s\<lparr>sv_sh := sh\<rparr>))"
        using sever_step.unlink_replaced [OF rec(3) Suc.prems(1) at rd rec(4)] by simp
      from visits_step [OF this grows_refl off] rec False show ?thesis by (simp add: nx Let_def)
    next
      case ok
      have "sever_step e d su (cu, s) (cu, s\<lparr>sv_sh := sh\<rparr>)" using ok(3,4) at by (intro sever_step.look [where a = prv]) simp_all
      from visits_step [OF this grows_refl on] ok False show ?thesis by (simp add: nx Let_def)
    qed
  qed auto
qed simp

lemma visits_table: "visits e d su cu s (sever_table e d (cu_node cu) s)"
proof (cases "mrd e (cu_node cu + 0x278) \<and> mrd e (cu_node cu + 0x4F8 - 8)")
  case True
  let ?cv = "cu\<lparr>cu_hold := cu_hold cu \<union> {cu_node cu + 0x278 + i * 0x28 | i. i < 16}\<rparr>"
  have "sever_step e d su (cu, s) (?cv, s)" using True by (intro sever_step.table) (simp_all add: add.commute)
  moreover have "visits e d su ?cv s (for_range 0 16 (\<lambda>i. sever_holder e d (cu_node cu + 0x278 + i * 0x28)) s)"
    by (rule visits_range, rule visits_holder) (auto simp: grows_def)
  ultimately have "visits e d su cu s (for_range 0 16 (\<lambda>i. sever_holder e d (cu_node cu + 0x278 + i * 0x28)) s)"
    by (rule visits_enter) (simp add: grows_def)
  then show ?thesis using True by (simp add: sever_table_def)
qed (auto simp: sever_table_def)

lemma visits_array:
  assumes "cu_line cu \<noteq> 7" "cu_line cu \<noteq> 8"
  shows "visits e d su cu s (sever_array e d (cu_node cu) s)"
proof -
  let ?b = "rd64 (sv_mem s) (cu_node cu + 0x110)" and ?k = "rd32 (sv_mem s) (cu_node cu + 0x118)"
  let ?go = "mrd e (cu_node cu + 0x110) \<and> mrd e (cu_node cu + 0x118) \<and> ?k \<le> 4096 \<and> ?b \<noteq> 0 \<and> mrd e ?b \<and> ?k \<noteq> 0 \<and> mrd e (?b + (?k - 1) * 8)"
  show ?thesis
  proof (cases ?go)
    case True
    let ?cv = "cu\<lparr>cu_hold := cu_hold cu \<union> {?b + i * 8 | i. i < ?k}\<rparr>"
    have "sever_step e d su (cu, s) (?cv, s)" using True assms by (intro sever_step.array) simp_all
    moreover have "visits e d su ?cv s (for_range 0 ?k (\<lambda>k. sever_holder e d (?b + k * 8)) s)"
      by (rule visits_range, rule visits_holder) (auto simp: grows_def)
    ultimately have "visits e d su cu s (for_range 0 ?k (\<lambda>k. sever_holder e d (?b + k * 8)) s)"
      by (rule visits_enter) (simp add: grows_def)
    then show ?thesis using True by (simp add: sever_array_def Let_def)
  next
    case False
    then have "sever_array e d (cu_node cu) s = s" by (auto simp: sever_array_def Let_def)
    then show ?thesis by simp
  qed
qed

lemma visits_effects: "visits e d su cu s (sever_effect_list e d (cu_node cu) s)"
proof -
  let ?h = "rd64 (sv_mem s) (cu_node cu + 0x218)"
  show ?thesis
  proof (cases "mrd e (cu_node cu + 0x218) \<and> ?h \<noteq> 0 \<and> mrd e ?h \<and> mrd e (?h + 0x18) \<and> mrd e (?h + 0x10) \<and> rd64 (sv_mem s) (?h + 0x10) = cu_node cu")
    case True
    have "sever_step e d su (cu, s) (cu\<lparr>cu_link := Some (cu_node cu + 0x218)\<rparr>, s)"
      using True by (intro sever_step.effects [OF refl]) simp_all
    moreover have "visits e d su (cu\<lparr>cu_link := Some (cu_node cu + 0x218)\<rparr>) s (effect_walk e d 512 (cu_node cu + 0x218) ?h s)"
      by (rule visits_walk) simp_all
    ultimately have "visits e d su cu s (effect_walk e d 512 (cu_node cu + 0x218) ?h s)"
      by (rule visits_enter) (simp add: grows_def)
    then show ?thesis using True by (simp add: sever_effect_list_def Let_def)
  next
    case False
    then have "sever_effect_list e d (cu_node cu) s = s" by (auto simp: sever_effect_list_def Let_def)
    then show ?thesis by simp
  qed
qed

lemma visits_edge: "a \<in> {cu_node cu + 0x98, cu_node cu + 0xa0} \<Longrightarrow> visits e d su cu s (sever_ent_edge e d a s)"
  by (simp add: sever_ent_edge_def visits_null)

lemma visits_node: "visits e d su cu s (sever_node e d (cu_line cu) (cu_node cu) s)"
proof -
  have g: "cu_node cv = cu_node cu" "cu_line cv = cu_line cu" if "grows cu cv" for cv using that by (simp_all add: grows_def)
  define s1 where "s1 = sever_table e d (cu_node cu) s"
  define s2 where "s2 = sever_ent_edge e d (cu_node cu + 0x98) s1"
  define s3 where "s3 = sever_ent_edge e d (cu_node cu + 0xa0) s2"
  have "visits e d su cv s1 s2" if "grows cu cv" for cv
    unfolding s2_def using visits_edge [of "cu_node cv + 0x98" cv e d su s1] g [OF that] by simp
  with visits_table have 1: "visits e d su cu s s2" unfolding s1_def by (rule visits_then)
  have "visits e d su cv s2 s3" if "grows cu cv" for cv
    unfolding s3_def using visits_edge [of "cu_node cv + 0xa0" cv e d su s2] g [OF that] by simp
  with 1 have 1: "visits e d su cu s s3" by (rule visits_then)
  have "visits e d su cv s3 (sever_effect_list e d (cu_node cu) s3)" if "grows cu cv" for cv
    using visits_effects [of e d su cv s3] g [OF that] by simp
  with 1 have 2: "visits e d su cu s (sever_effect_list e d (cu_node cu) s3)" by (rule visits_then)
  have "visits e d su cv t (sever_array e d (cu_node cu) t)" if "grows cu cv" "\<not> (cu_line cu = 7 \<or> cu_line cu = 8)" for cv t
    using visits_array [of cv e d su t] g [OF that(1)] that(2) by simp
  from 2 visits_then [OF 2 this] show ?thesis by (cases "cu_line cu = 7 \<or> cu_line cu = 8") (simp_all add: sever_node_def s1_def s2_def s3_def Let_def)
qed

text \<open>A line from the entity its head or the last visited entity leads to, and the whole pass.\<close>

lemma line_steps:
  assumes "mrd e node \<Longrightarrow> sever_step e d su (cu, s) (at_entity line node, s)"
  shows "\<exists>cv. sever_steps e d su (cu, s) (cv, fst (sever_line e d line n node s))"
  using assms
proof (induction n arbitrary: node cu s)
  case (Suc n)
  let ?s = "s\<lparr>sv_guard := sv_guard s + 1\<rparr>"
  show ?case
  proof (cases "node = 0 \<or> \<not> mrd e node")
    case False
    let ?cu = "at_entity line node"
    have b: "sever_steps e d su (cu, s) (?cu, ?s)"
      using Suc.prems False steps_cons [OF _ step_steps [OF sever_step.budget]] by simp
    obtain cv where cv: "grows ?cu cv" "sever_steps e d su (?cu, ?s) (cv, sever_node e d line node ?s)"
      using visits_node [of e d su ?cu ?s] by (auto simp: visits_def at_entity_def)
    let ?s2 = "sever_node e d line node ?s"
    let ?nx = "if mrd e (node + 0x18) then rd64 (sv_mem ?s2) (node + 0x18) else 0"
    have c: "cu_node cv = node" "cu_line cv = line" using cv(1) by (simp_all add: grows_def at_entity_def)
    have "sever_step e d su (cv, ?s2) (at_entity line ?nx, ?s2)" if r: "mrd e ?nx"
    proof -
      have "mrd e (node + 0x18)" using r by (auto simp: mrd_def split: if_splits)
      then show ?thesis using sever_step.onward [of ?nx ?s2 cv e d su] r c by simp
    qed
    from Suc.IH [OF this] obtain cw where "sever_steps e d su (cv, ?s2) (cw, fst (sever_line e d line n ?nx ?s2))" by blast
    then have "sever_steps e d su (cu, s) (cw, fst (sever_line e d line n ?nx ?s2))" using b cv(2) by (meson rtranclp_trans)
    then show ?thesis using False b by (auto simp: Let_def)
  qed auto
qed auto

text \<open>C18. A sweep and a belt write nothing but justified cuts. Every change of memory they make is one step of the
  transition system above: the clearing of a material cell, of the table, of the array of an entity off the two
  fighter lines, or of a material reached from one of those by its class's offsets, or of one of the two render
  edges, whose object is dead, or, for a child cell, replaced in place; or the linking over a child of an effect
  list whose head names the entity as its owner, the child being dead, replaced in place or no object. Dead means
  the dying object in a belt, and in a sweep a held husk or an object with the vtable destructors leave.\<close>

theorem only_justified_cuts:
  "\<exists>cu. sever_steps e d (rd64 (sv_mem s) (resolve (mg_base e) 0x140E17698)) (at_entity 0 0, s) (cu, sever_all e d s)"
proof -
  let ?b = "\<lambda>sunit line (s, stop). if stop then (s, stop) else let h = sunit + 0x50 + line * 0x30;
      node = (if mrd e (h + 8) then rd64 (sv_mem s) h else 0) in sever_line e d line 512 node s"
  let ?u = "rd64 (sv_mem s) (resolve (mg_base e) 0x140E17698)"
  have line: "\<exists>cv. sever_steps e d u (cu, t) (cv, fst (?b u l (t, stop)))" if "l < 128" for u l cu t stop
  proof (cases stop)
    case False
    let ?node = "if mrd e (u + 0x50 + l * 0x30 + 8) then rd64 (sv_mem t) (u + 0x50 + l * 0x30) else 0"
    have "sever_step e d u (cu, t) (at_entity l ?node, t)" if r: "mrd e ?node"
    proof -
      have "?node = rd64 (sv_mem t) (u + 0x50 + l * 0x30)" using r by (auto simp: mrd_def split: if_splits)
      then show ?thesis using sever_step.enter [OF \<open>l < 128\<close>, of ?node t u e d cu] r by simp
    qed
    from line_steps [OF this] False show ?thesis by (simp add: Let_def)
  qed auto
  have "\<exists>cv. sever_steps e d u (cu, t) (cv, fst (for_range 0 128 (?b u) (t, False)))" for u cu t
  proof (rule for_range_invariant [where P = "\<lambda>x. \<exists>cv. sever_steps e d u (cu, t) (cv, fst x)"])
    show "\<exists>cv. sever_steps e d u (cu, t) (cv, fst (t, False))" by auto
    fix l and x :: "sever_state \<times> bool"
    assume l: "l < (128 :: nat)" and "\<exists>cv. sever_steps e d u (cu, t) (cv, fst x)"
    then obtain cv where "sever_steps e d u (cu, t) (cv, fst x)" by blast
    moreover obtain cw where "sever_steps e d u (cv, fst x) (cw, fst (?b u l (fst x, snd x)))" using line [OF l] by blast
    ultimately have "sever_steps e d u (cu, t) (cw, fst (?b u l x))" unfolding prod.collapse by (rule rtranclp_trans)
    then show "\<exists>cv. sever_steps e d u (cu, t) (cv, fst (?b u l x))" by blast
  qed
  then obtain cv where all: "sever_steps e d ?u (at_entity 0 0, s\<lparr>sv_guard := 0\<rparr>) (cv, fst (for_range 0 128 (?b ?u) (s\<lparr>sv_guard := 0\<rparr>, False)))"
    by blast
  have guard: "sever_step e d u (at_entity 0 0, s) (at_entity 0 0, s\<lparr>sv_guard := 0\<rparr>)" for u by (rule sever_step.budget)
  show ?thesis
  proof (cases "resolve (mg_base e) 0x140E17698 = 0 \<or> \<not> mrd e ?u")
    case True
    then have "sever_all e d s = s\<lparr>sv_guard := 0\<rparr>" by (auto simp: sever_all_def Let_def)
    then show ?thesis using step_steps [OF guard] by auto
  next
    case False
    then have "sever_all e d s = fst (for_range 0 128 (?b ?u) (s\<lparr>sv_guard := 0\<rparr>, False))" by (simp add: sever_all_def Let_def)
    then show ?thesis using steps_cons [OF guard all] by auto
  qed
qed

end
