(* ===== verification/Leaf_Guards.thy ===== *)
theory Leaf_Guards
  imports Identity_Oracle Sound_Edges Flist_Facts
begin

text \<open>
  The small hooks that keep the engine off structures a load left half restored:
  the reset of broken particle lists (\<open>particle_list_guard.cpp\<close>), the stand-in for missing render
  sub-children (\<open>render_subchild_guard.cpp\<close>), the check on the curve resolver (\<open>anim_curve_guard.cpp\<close>), the
  stamp that keeps wrappers out of immediate destruction (\<open>life_floor.cpp\<close>), the audio trunk that a replay
  skips (\<open>audio_leaf.cpp\<close>), and the unlink of an effect child that the engine forgets
  (\<open>effect_splice.cpp\<close>). The hooked functions are arguments; counters of events are left out.
\<close>

unbundle bit_operations_syntax

record guard_env =
  lg_engine :: bool
  lg_resim :: bool
  lg_arena :: arena
  lg_os :: os_map

definition lg_canon :: "nat \<Rightarrow> bool" where "lg_canon p \<longleftrightarrow> 0x10000 \<le> p \<and> p < 0x800000000000"

definition lg_readable :: "guard_env \<Rightarrow> nat \<Rightarrow> nat \<Rightarrow> bool" where
  "lg_readable g p n =
     (if \<not> lg_canon p \<or> n = 0 then False
      else if is_arena_addr (lg_arena g) p \<and> is_arena_addr (lg_arena g) (p + n - 1)
      then is_committed_addr (lg_arena g) p \<and> is_committed_addr (lg_arena g) (p + n - 1)
      else case lg_os g p of None \<Rightarrow> False
        | Some b \<Rightarrow> if mb_state b \<noteq> MEM_COMMIT_FLAG then False
                    else if mb_protect b AND PAGE_BARRED \<noteq> 0 then False
                    else p + n \<le> mb_base b + mb_size b)"

section \<open>Particle lists\<close>

definition SRC_HEAD :: nat where "SRC_HEAD = 0xe0"
definition SRC_TAIL :: nat where "SRC_TAIL = 0xe8"
definition DST_HEAD :: nat where "DST_HEAD = 0xf0"
definition DST_TAIL :: nat where "DST_TAIL = 0xf8"

definition dangling :: "id_oracle \<Rightarrow> nat \<Rightarrow> bool" where
  "dangling q p = (if p = 0 then False else \<not> is_domain_valid q p 8 \<or> or_is_dead q p)"

definition incoherent :: "id_oracle \<Rightarrow> nat \<Rightarrow> nat \<Rightarrow> bool" where
  "incoherent q hd0 tl0 \<longleftrightarrow> ((hd0 = 0) \<noteq> (tl0 = 0)) \<or> dangling q hd0 \<or> dangling q tl0"

definition reset_if_incoherent :: "id_oracle \<Rightarrow> nat \<Rightarrow> nat \<Rightarrow> nat \<Rightarrow> id_oracle" where
  "reset_if_incoherent q mgr ho to0 =
     (if \<not> is_committed_addr (or_arena q) (mgr + ho) \<or> \<not> is_committed_addr (or_arena q) (mgr + to0) then q
      else if \<not> incoherent q (rd64 (or_mem q) (mgr + ho)) (rd64 (or_mem q) (mgr + to0)) then q
      else q\<lparr>or_mem := wr64 (mgr + to0) 0 (wr64 (mgr + ho) 0 (or_mem q))\<rparr>)"

definition list_guard :: "bool \<Rightarrow> nat \<Rightarrow> id_oracle \<Rightarrow> id_oracle" where
  "list_guard engine mgr q =
     (if \<not> engine \<or> \<not> is_committed_addr (or_arena q) (mgr + DST_TAIL) then q
      else reset_if_incoherent (reset_if_incoherent q mgr DST_HEAD DST_TAIL) mgr SRC_HEAD SRC_TAIL)"

definition hk_tick :: "bool \<Rightarrow> (nat \<Rightarrow> gmem \<Rightarrow> gmem) \<Rightarrow> nat \<Rightarrow> id_oracle \<Rightarrow> gmem" where
  "hk_tick engine orig mgr q = orig mgr (or_mem (list_guard engine mgr q))"

section \<open>Render sub-children\<close>

definition SUBCHILD_OFF :: nat where "SUBCHILD_OFF = 0x60"
definition SUB_SLOTS :: "nat list" where "SUB_SLOTS = [0x150, 0x158, 0x160, 0x168]"

definition guard_active :: "guard_env \<Rightarrow> bool" where "guard_active g \<longleftrightarrow> lg_engine g \<or> lg_resim g"

definition patch_slot :: "guard_env \<Rightarrow> nat \<Rightarrow> nat \<Rightarrow> nat \<Rightarrow> gmem \<times> nat list \<Rightarrow> gmem \<times> nat list" where
  "patch_slot g z p1 off s =
     (case s of (m, ps) \<Rightarrow>
        if \<not> lg_readable g (p1 + off) 8 then s
        else let x = rd64 m (p1 + off) in
          if \<not> lg_canon x \<or> \<not> lg_readable g (x + SUBCHILD_OFF) 8 then s
          else if rd64 m (x + SUBCHILD_OFF) = 0 then (wr64 (x + SUBCHILD_OFF) z m, ps @ [x]) else s)"

definition patch_all :: "guard_env \<Rightarrow> nat \<Rightarrow> nat \<Rightarrow> gmem \<Rightarrow> gmem \<times> nat list" where
  "patch_all g z p1 m = (if lg_canon p1 then fold (patch_slot g z p1) SUB_SLOTS (m, []) else (m, []))"

definition hk_walk :: "guard_env \<Rightarrow> nat \<Rightarrow> (nat \<Rightarrow> gmem \<Rightarrow> gmem) \<Rightarrow> nat \<Rightarrow> gmem \<Rightarrow> gmem" where
  "hk_walk g z orig p1 m =
     (if \<not> guard_active g then orig p1 m
      else let (m1, ps) = patch_all g z p1 m in fold (\<lambda>x. wr64 (x + SUBCHILD_OFF) 0) ps (orig p1 m1))"

section \<open>Curves, stamps and the audio trunk\<close>

definition CURVE_SPAN :: nat where "CURVE_SPAN = 0x18"

definition hk_resolver :: "guard_env \<Rightarrow> id_oracle \<Rightarrow> nat \<Rightarrow> nat" where
  "hk_resolver g q r = (if r \<noteq> 0 \<and> guard_active g \<and> \<not> is_domain_valid q r CURVE_SPAN then 0 else r)"

definition MARGIN :: nat where "MARGIN = 16"

definition floor_stamp :: "guard_env \<Rightarrow> nat \<Rightarrow> nat \<Rightarrow> gmem \<Rightarrow> gmem" where
  "floor_stamp g agectr self m =
     (if self \<noteq> 0 \<and> lg_resim g \<and> agectr \<noteq> 0 then wr32 (self + 8) ((rd32 m agectr + MARGIN) mod 2 ^ 32) m else m)"

definition hk_rel :: "guard_env \<Rightarrow> nat \<Rightarrow> (nat \<Rightarrow> gmem \<Rightarrow> gmem) \<Rightarrow> nat \<Rightarrow> gmem \<Rightarrow> gmem" where
  "hk_rel g agectr orig self m = orig self (floor_stamp g agectr self m)"

definition hk_trunk :: "guard_env \<Rightarrow> (gmem \<Rightarrow> gmem) \<Rightarrow> gmem \<Rightarrow> gmem" where
  "hk_trunk g orig m = (if lg_resim g then m else orig m)"

section \<open>Effect children\<close>

definition CHILD_OWNER_OFF :: nat where "CHILD_OWNER_OFF = 0x10"
definition CHILD_NEXT_OFF :: nat where "CHILD_NEXT_OFF = 0x18"
definition HEAD_OFF :: nat where "HEAD_OFF = 0x218"
definition EMPTY_MARK_OFF :: nat where "EMPTY_MARK_OFF = 0x128"
definition SPLICE_MAX :: nat where "SPLICE_MAX = 512"

definition after :: "guard_env \<Rightarrow> gmem \<Rightarrow> nat \<Rightarrow> nat" where
  "after g m child = (if lg_readable g (child + CHILD_NEXT_OFF) 8 then rd64 m (child + CHILD_NEXT_OFF) else 0)"

primrec splice_from :: "guard_env \<Rightarrow> nat \<Rightarrow> nat \<Rightarrow> nat \<Rightarrow> gmem \<Rightarrow> gmem \<times> bool" where
  "splice_from g child 0 prev m = (m, False)"
| "splice_from g child (Suc k) prev m =
     (if \<not> lg_readable g (prev + CHILD_NEXT_OFF) 8 then (m, False)
      else let nx = rd64 m (prev + CHILD_NEXT_OFF) in
        if nx = 0 then (m, False)
        else if nx = child then (wr64 (prev + CHILD_NEXT_OFF) (after g m child) m, True)
        else splice_from g child k nx m)"

definition splice :: "guard_env \<Rightarrow> nat \<Rightarrow> nat \<Rightarrow> gmem \<Rightarrow> gmem \<times> bool" where
  "splice g effect child m =
     (if \<not> lg_canon effect \<or> \<not> lg_canon child then (m, False)
      else if \<not> lg_readable g (effect + HEAD_OFF) 8 then (m, False)
      else let h = rd64 m (effect + HEAD_OFF) in
        if h = 0 then (m, False)
        else if h = child
        then let nx = after g m child; m1 = wr64 (effect + HEAD_OFF) nx m; a = effect + EMPTY_MARK_OFF in
          (if nx = 0 \<and> lg_readable g a 2 then m1(a := 0, a + 1 := 0) else m1, True)
        else splice_from g child SPLICE_MAX h m)"

record splice_state =
  es_mem :: gmem
  es_handled :: nat

definition unlink_child :: "guard_env \<Rightarrow> nat \<Rightarrow> gmem \<Rightarrow> gmem" where
  "unlink_child g c m =
     (if lg_canon c \<and> lg_readable g (c + CHILD_OWNER_OFF) 8
      then let ow = rd64 m (c + CHILD_OWNER_OFF) in if ow \<noteq> 0 then fst (splice g ow c m) else m
      else m)"

definition hk_base_dtor :: "guard_env \<Rightarrow> (nat \<Rightarrow> splice_state \<Rightarrow> splice_state) \<Rightarrow> nat \<Rightarrow> splice_state \<Rightarrow> splice_state" where
  "hk_base_dtor g orig c s =
     (if \<not> guard_active g then orig c s
      else orig c \<lparr>es_mem = unlink_child g c (es_mem s), es_handled = c\<rparr>)"

definition hk_teardown :: "guard_env \<Rightarrow> (nat \<Rightarrow> gmem \<Rightarrow> gmem) \<Rightarrow> nat \<Rightarrow> splice_state \<Rightarrow> splice_state" where
  "hk_teardown g orig c s =
     (if \<not> guard_active g then s\<lparr>es_mem := orig c (es_mem s)\<rparr>
      else if es_handled s = c then \<lparr>es_mem = orig c (es_mem s), es_handled = 0\<rparr>
      else s\<lparr>es_mem := orig c (unlink_child g c (es_mem s))\<rparr>)"

section \<open>The child list after an unlink\<close>

text \<open>The list behind a cell.\<close>

primrec eff_path :: "guard_env \<Rightarrow> gmem \<Rightarrow> nat \<Rightarrow> nat list \<Rightarrow> bool" where
  "eff_path g m cl [] \<longleftrightarrow> rd64 m cl = 0"
| "eff_path g m cl (x # xs) \<longleftrightarrow> rd64 m cl = x \<and> x \<noteq> 0 \<and> lg_readable g (x + CHILD_NEXT_OFF) 8 \<and> eff_path g m (x + CHILD_NEXT_OFF) xs"

definition next_cells :: "nat list \<Rightarrow> nat list" where "next_cells xs = map (\<lambda>x. x + CHILD_NEXT_OFF) xs"

lemma eff_path_frame:
  assumes "\<And>a. a = cl \<or> a \<in> set (next_cells xs) \<Longrightarrow> rd64 m' a = rd64 m a"
  shows "eff_path g m' cl xs = eff_path g m cl xs"
  using assms by (induction xs arbitrary: cl) (simp_all add: next_cells_def)

text \<open>The cell that leads to a child, and the list once it links past it.\<close>

definition lead :: "nat \<Rightarrow> nat list \<Rightarrow> nat" where "lead cl ys = (if ys = [] then cl else last ys + CHILD_NEXT_OFF)"

lemma lead_Cons: "lead cl (y # ys) = lead (y + CHILD_NEXT_OFF) ys"
  by (simp add: lead_def)

lemma cut_path:
  assumes "eff_path g m cl (ys @ c # zs)"
    "\<forall>a \<in> set (cl # next_cells (ys @ c # zs)). \<forall>b \<in> set (cl # next_cells (ys @ c # zs)). a \<noteq> b \<longrightarrow> apart a 8 b 8"
    "distinct (cl # next_cells (ys @ c # zs))"
  shows "eff_path g (wr64 (lead cl ys) (rd64 m (c + CHILD_NEXT_OFF)) m) cl (ys @ zs)"
  using assms
proof (induction ys arbitrary: cl)
  case Nil
  let ?m = "wr64 cl (rd64 m (c + CHILD_NEXT_OFF)) m"
  have fr: "rd64 ?m a = rd64 m a" if "a \<in> set (next_cells zs)" for a
    using Nil.prems(2,3) that by (intro c64.rd_other) (auto simp: next_cells_def)
  have at: "rd64 ?m cl = rd64 m (c + CHILD_NEXT_OFF)" by (rule rd64_back)
  show ?case
  proof (cases zs)
    case (Cons z zs')
    then show ?thesis using Nil.prems(1) eff_path_frame [of "z + CHILD_NEXT_OFF" zs' ?m m g] fr at
      by (simp add: lead_def next_cells_def)
  qed (use Nil.prems(1) in \<open>simp add: lead_def c64.rd_wr\<close>)
next
  case (Cons y ys)
  let ?b = "lead (y + CHILD_NEXT_OFF) ys"
  have b: "?b \<in> set (next_cells ((y # ys) @ c # zs))" by (cases ys rule: rev_cases) (simp_all add: lead_def next_cells_def)
  then have "apart cl 8 ?b 8" using Cons.prems(2,3) by (metis distinct.simps(2) list.set_intros)
  then have "rd64 (wr64 ?b (rd64 m (c + CHILD_NEXT_OFF)) m) cl = rd64 m cl" by (rule c64.rd_other)
  then show ?case using Cons by (simp add: lead_Cons next_cells_def)
qed

lemma splice_from_cuts:
  assumes "eff_path g m (prev + CHILD_NEXT_OFF) (ys @ c # zs)" "c \<notin> set ys" "length ys < k" "lg_readable g (prev + CHILD_NEXT_OFF) 8"
  shows "splice_from g c k prev m = (wr64 (lead (prev + CHILD_NEXT_OFF) ys) (rd64 m (c + CHILD_NEXT_OFF)) m, True)"
  using assms
proof (induction k arbitrary: prev ys)
  case (Suc k)
  then show ?case
  proof (cases ys)
    case (Cons y ys')
    then show ?thesis using Suc.prems Suc.IH [of y ys'] by (auto simp: lead_Cons Let_def)
  qed (simp add: lead_def after_def Let_def)
qed simp

lemma path_readable: "eff_path g m cl xs \<Longrightarrow> x \<in> set xs \<Longrightarrow> lg_readable g (x + CHILD_NEXT_OFF) 8"
  by (induction xs arbitrary: cl) auto

text \<open>C25. A child that is torn down leaves its effect's list: of a list of at most 513 readable children the
  splice removes exactly this one, the others stay in order, and an effect that loses its last child is
  marked empty.\<close>

theorem child_spliced_out:
  assumes "eff_path g m (effect + HEAD_OFF) xs" "child \<in> set xs" "distinct xs" "length xs \<le> 513"
    and "lg_canon effect" "lg_canon child" "lg_readable g (effect + HEAD_OFF) 8"
    and "\<forall>a \<in> set ((effect + HEAD_OFF) # next_cells xs). \<forall>b \<in> set ((effect + HEAD_OFF) # next_cells xs). a \<noteq> b \<longrightarrow> apart a 8 b 8"
    and "effect + HEAD_OFF \<notin> set (next_cells xs)"
  shows "\<exists>m'. splice g effect child m = (m', True) \<and> eff_path g m' (effect + HEAD_OFF) (remove1 child xs) \<and>
    (xs = [child] \<longrightarrow> lg_readable g (effect + EMPTY_MARK_OFF) 2 \<longrightarrow>
       m' (effect + EMPTY_MARK_OFF) = 0 \<and> m' (effect + EMPTY_MARK_OFF + 1) = 0)"
proof -
  obtain ys zs where xs: "xs = ys @ child # zs" "child \<notin> set ys" using split_list_first [OF assms(2)] by blast
  let ?c = "effect + HEAD_OFF" and ?m = "wr64 (lead (effect + HEAD_OFF) ys) (rd64 m (child + CHILD_NEXT_OFF)) m"
  have dn: "distinct (?c # next_cells xs)" using assms(3,9) by (simp add: next_cells_def distinct_map inj_on_def)
  have cut: "eff_path g ?m ?c (remove1 child xs)"
    using cut_path [of g m ?c ys child zs] assms(1,8) dn xs by (simp add: remove1_append)
  have rdc: "lg_readable g (child + CHILD_NEXT_OFF) 8" using path_readable [OF assms(1,2)] .
  have hd0: "rd64 m ?c = hd xs" "hd xs \<noteq> 0" using assms(1,2) by (cases xs; simp)+
  show ?thesis
  proof (cases ys)
    case Nil
    let ?a = "effect + EMPTY_MARK_OFF" and ?nx = "rd64 m (child + CHILD_NEXT_OFF)"
    let ?f = "if ?nx = 0 \<and> lg_readable g ?a 2 then ?m(?a := 0, ?a + 1 := 0) else ?m"
    have sp: "splice g effect child m = (?f, True)"
      using assms(5-7) hd0 xs(1) rdc Nil by (simp add: splice_def after_def lead_def Let_def)
    have "eff_path g ?f ?c (remove1 child xs)"
    proof (cases "?nx = 0")
      case True
      then have zs: "zs = []" using assms(1) xs(1) Nil by (cases zs) auto
      have "rd64 (?m(?a := 0, ?a + 1 := 0)) ?c = rd64 ?m ?c"
        by (rule c64.rd_bytes) (simp add: HEAD_OFF_def EMPTY_MARK_OFF_def)
      then show ?thesis using cut zs xs(1) Nil True by simp
    qed (use cut in simp)
    moreover have "?nx = 0" if "xs = [child]" using assms(1) that by simp
    ultimately show ?thesis using sp by auto
  next
    case (Cons y ys')
    have "splice_from g child SPLICE_MAX y m = (?m, True)"
      using splice_from_cuts [of g m y ys' child zs SPLICE_MAX] assms(1,4) xs Cons
      by (simp add: lead_Cons SPLICE_MAX_def del: splice_from.simps)
    then have "splice g effect child m = (?m, True)"
      using assms(5-7) hd0 xs Cons by (auto simp: splice_def Let_def simp del: splice_from.simps)
    then show ?thesis using cut xs(1) Cons by auto
  qed
qed

definition splice_demo :: guard_env where
  "splice_demo = \<lparr>lg_engine = True, lg_resim = False, lg_arena = (arena_init 0)\<lparr>ar_committed := (\<lambda>_. True)\<rparr>, lg_os = (\<lambda>_. None)\<rparr>"

lemma demo_readable: "0x10000 \<le> a \<Longrightarrow> a < 0x1000000 \<Longrightarrow> 0 < n \<Longrightarrow> n < 0x1000 \<Longrightarrow> lg_readable splice_demo a n"
  by (simp add: lg_readable_def lg_canon_def splice_demo_def is_arena_addr_def is_committed_addr_def arena_init_def ARENA_SIZE_def)

definition two_children :: gmem where "two_children = wr64 0x20218 0x30000 (wr64 0x30018 0x40000 (\<lambda>_. 0))"

theorem child_spliced_out_witness:
  "\<exists>m'. splice splice_demo 0x20000 0x30000 two_children = (m', True) \<and> eff_path splice_demo m' 0x20218 [0x40000]"
proof -
  have z: "rd64 (\<lambda>_. 0) a = 0" for a by (simp add: rd64_def peek_bytes_def dec64_def upt_rec)
  have "eff_path splice_demo two_children (0x20000 + HEAD_OFF) [0x30000, 0x40000]"
    by (simp add: two_children_def mem_simps apart_def HEAD_OFF_def CHILD_NEXT_OFF_def demo_readable z)
  from child_spliced_out [OF this, of "0x30000"] show ?thesis
    by (auto simp: demo_readable lg_canon_def HEAD_OFF_def CHILD_NEXT_OFF_def next_cells_def apart_def)
qed

section \<open>The marks of the hooks\<close>

text \<open>A base destructor that reaches the shared teardown unlinks its child once. One that does not reach it
  leaves its mark, and the next child torn down at that address by the other path stays linked.\<close>

lemma spliced_once:
  assumes "guard_active g"
  shows "hk_base_dtor g (hk_teardown g t) c s = \<lparr>es_mem = t c (unlink_child g c (es_mem s)), es_handled = 0\<rparr>"
  using assms by (simp add: hk_base_dtor_def hk_teardown_def)

lemma stale_mark_skips:
  assumes "guard_active g"
  shows "hk_teardown g t c ((hk_base_dtor g (\<lambda>_ s. s) c s)\<lparr>es_mem := m\<rparr>) = \<lparr>es_mem = t c m, es_handled = 0\<rparr>"
  using assms by (simp add: hk_base_dtor_def hk_teardown_def)

lemma reset_coherent:
  assumes "is_committed_addr (or_arena q) (mgr + ho)" "is_committed_addr (or_arena q) (mgr + to0)" "apart (mgr + ho) 8 (mgr + to0) 8"
  shows "\<not> incoherent (reset_if_incoherent q mgr ho to0)
    (rd64 (or_mem (reset_if_incoherent q mgr ho to0)) (mgr + ho)) (rd64 (or_mem (reset_if_incoherent q mgr ho to0)) (mgr + to0))"
proof (cases "incoherent q (rd64 (or_mem q) (mgr + ho)) (rd64 (or_mem q) (mgr + to0))")
  case True
  have "\<not> incoherent q' 0 0" for q' by (simp add: incoherent_def dangling_def)
  then show ?thesis using True assms by (simp add: reset_if_incoherent_def mem_simps)
qed (use assms in \<open>simp add: reset_if_incoherent_def\<close>)

section \<open>What the stand-in leaves\<close>

definition child_cell :: "nat list \<Rightarrow> nat \<Rightarrow> bool" where
  "child_cell ps b \<longleftrightarrow> (\<exists>x \<in> set ps. x + SUBCHILD_OFF \<le> b \<and> b < x + SUBCHILD_OFF + 8)"

lemma zero_cell: "rd64 m a = 0 \<Longrightarrow> a \<le> b \<Longrightarrow> b < a + 8 \<Longrightarrow> m b = 0"
proof -
  assume r: "rd64 m a = 0" "a \<le> b" "b < a + 8"
  have "rd64 (\<lambda>_. 0) a = 0" by (simp add: rd64_def peek_bytes_def dec64_def upt_rec)
  then have "wr64 a 0 m b = 0" using wr64_rd64 [of a "\<lambda>_. 0" m b] r(2,3) by simp
  then show "m b = 0" using wr64_rd64 [of a m m b] r by simp
qed

lemma clear_cell: "wr64 a 0 m b = (if a \<le> b \<and> b < a + 8 then 0 else m b)"
proof -
  have "rd64 (\<lambda>_. 0) a = 0" by (simp add: rd64_def peek_bytes_def dec64_def upt_rec)
  then show ?thesis using wr64_rd64 [of a "\<lambda>_. 0" m b] by simp
qed

lemma patch_all_cells:
  "\<forall>b. (child_cell (snd (patch_all g z p1 m)) b \<longrightarrow> m b = 0) \<and> (\<not> child_cell (snd (patch_all g z p1 m)) b \<longrightarrow> fst (patch_all g z p1 m) b = m b)"
proof -
  let ?P = "\<lambda>s. \<forall>b. (child_cell (snd s) b \<longrightarrow> m b = 0) \<and> (\<not> child_cell (snd s) b \<longrightarrow> fst s b = m b)"
  have step: "?P (patch_slot g z p1 off s)" if "?P s" for off s
  proof -
    obtain m1 ps where s: "s = (m1, ps)" by (cases s)
    let ?x = "rd64 m1 (p1 + off)"
    show ?thesis
    proof (cases "lg_readable g (p1 + off) 8 \<and> lg_canon ?x \<and> lg_readable g (?x + SUBCHILD_OFF) 8 \<and> rd64 m1 (?x + SUBCHILD_OFF) = 0")
      case True
      then have p: "patch_slot g z p1 off s = (wr64 (?x + SUBCHILD_OFF) z m1, ps @ [?x])" by (simp add: patch_slot_def s Let_def)
      have z: "m1 b = 0" if "?x + SUBCHILD_OFF \<le> b" "b < ?x + SUBCHILD_OFF + 8" for b
        using zero_cell [OF _ that] True by simp
      have snoc: "child_cell (ps @ [?x]) b \<longleftrightarrow> child_cell ps b \<or> ?x + SUBCHILD_OFF \<le> b \<and> b < ?x + SUBCHILD_OFF + 8" for b
        by (auto simp: child_cell_def)
      have old: "(child_cell ps b \<longrightarrow> m b = 0) \<and> (\<not> child_cell ps b \<longrightarrow> m1 b = m b)" for b using that by (simp add: s)
      have out: "wr64 (?x + SUBCHILD_OFF) z m1 b = m1 b" if "\<not> (?x + SUBCHILD_OFF \<le> b \<and> b < ?x + SUBCHILD_OFF + 8)" for b
        using that by (intro c64.wr_outside) auto
      show ?thesis unfolding p fst_conv snd_conv snoc
        using old z out by (metis (no_types, lifting))
    next
      case False
      then have "patch_slot g z p1 off s = s" by (auto simp: patch_slot_def s Let_def)
      then show ?thesis using that by simp
    qed
  qed
  have start: "?P (m, [])" by (simp add: child_cell_def)
  have "?P (fold (patch_slot g z p1) SUB_SLOTS (m, []))"
    by (rule fold_invariant_list [where P = ?P, OF start]) (rule step)
  then show ?thesis by (simp add: patch_all_def child_cell_def)
qed

lemma unpatch: "fold (\<lambda>x. wr64 (x + SUBCHILD_OFF) 0) ps m b = (if child_cell ps b then 0 else m b)"
  by (induction ps arbitrary: m) (auto simp: child_cell_def clear_cell)

text \<open>The walk ran on memory in which the missing children were replaced; afterwards those cells hold what
  they held before, and every other byte is the walk's.\<close>

lemma walk_leaves_no_trace:
  assumes "guard_active g"
  shows "hk_walk g z orig p1 m b =
    (if child_cell (snd (patch_all g z p1 m)) b then m b else orig p1 (fst (patch_all g z p1 m)) b)"
  using assms patch_all_cells [of g z p1 m] by (simp add: hk_walk_def split_def unpatch Let_def)

end
