(* ===== verification/Page_Free.thy ===== *)
theory Page_Free
  imports Free_Hook Sound_Edges Flist_Facts
begin

text \<open>
  The content-aware correction of a load, \<open>src/src/page_free.cpp\<close>: before the load the live bytes of the
  derived scalars of the engine's objects are taken together with each object's identity; after it they are
  written back into the objects that are still the same. The generated table of types and ranges is an
  argument. A capture holds its bytes instead of an offset into the shared buffer, whose fill is counted.
\<close>

unbundle bit_operations_syntax




record pf_cap =
  pc_base :: nat
  pc_addr :: nat
  pc_size :: nat
  pc_bytes :: "u8 list"
  pc_vt :: nat
  pc_stamp :: int

record page_free =
  pf_init :: bool
  pf_on :: bool
  pf_caps :: "pf_cap list"
  pf_used :: nat
  pf_overflow :: bool


definition pf_toggle :: "page_free \<Rightarrow> page_free" where "pf_toggle st = st\<lparr>pf_on := \<not> pf_on st\<rparr>"







section \<open>The walk\<close>




section \<open>Capture and write-back\<close>








section \<open>What is captured\<close>







section \<open>What is written back\<close>































end
