(* ===== verification/Deferred_Fold.thy ===== *)
theory Deferred_Fold
  imports Snap_Facts
begin

text \<open>
  The deferred fold of \<open>src/src/arena.cpp\<close>: when armed, a save hands the pages of the slot it evicts to a
  worker thread instead of copying them into the baseline itself. The main thread resolves every destination,
  queues a job in a ring of eight and gives the slot a buffer the worker has returned; the worker copies one page
  after the other, retires the job, returns its buffer and announces the job's number. The steps of the two
  threads interleave freely. A slot that finds no returned buffer has capacity 0: its old pages are out of reach.
\<close>

record fold_job =
  fj_src :: "page carray"
  fj_cap :: nat
  fj_dsts :: "fold_dst list"
  fj_seq :: nat

text \<open>The two rings, the counters, the worker's position in its job, and a retired job not yet announced.\<close>

record fold_rings =
  fr_submit :: "fold_job carray"
  fr_head :: nat
  fr_tail :: nat
  fr_ret :: "(page carray \<times> nat) carray"
  fr_rhead :: nat
  fr_rtail :: nat
  fr_submitted :: nat
  fr_completed :: nat
  fr_pos :: nat
  fr_done :: "fold_job option"

definition FOLD_RING :: nat where "FOLD_RING = 8"

definition fr_init :: fold_rings where
  "fr_init = \<lparr>fr_submit = (\<lambda>_. \<lparr>fj_src = (\<lambda>_. []), fj_cap = 0, fj_dsts = [], fj_seq = 0\<rparr>), fr_head = 0, fr_tail = 0,
     fr_ret = (\<lambda>_. ((\<lambda>_. []), 0)), fr_rhead = 0, fr_rtail = 0, fr_submitted = 0, fr_completed = 0, fr_pos = 0, fr_done = None\<rparr>"

definition push_return :: "page carray \<times> nat \<Rightarrow> fold_rings \<Rightarrow> fold_rings" where
  "push_return b q =
     (if FOLD_RING \<le> fr_rhead q - fr_rtail q then q
      else q\<lparr>fr_ret := (fr_ret q)(fr_rhead q mod FOLD_RING := b), fr_rhead := fr_rhead q + 1\<rparr>)"

definition pop_return :: "fold_rings \<Rightarrow> (page carray \<times> nat) option \<times> fold_rings" where
  "pop_return q =
     (if fr_rtail q = fr_rhead q then (None, q)
      else (Some (fr_ret q (fr_rtail q mod FOLD_RING)), q\<lparr>fr_rtail := fr_rtail q + 1\<rparr>))"

text \<open>The destinations of an evicted slot, by the number of the page in the slot's buffer.\<close>

definition assign_page :: "(nat \<Rightarrow> bool) \<Rightarrow> rslot \<Rightarrow> nat \<Rightarrow> snap \<times> fold_dst list \<Rightarrow> snap \<times> fold_dst list" where
  "assign_page commit_ok rs p s =
     (case s of (st, ds) \<Rightarrow>
        if rs_map rs p = NOPAGE \<or> rs_count rs \<le> rs_map rs p then s
        else let (st1, d) = resolve_fold_dst commit_ok p st in (st1, ds[rs_map rs p := d]))"

definition fold_assign :: "(nat \<Rightarrow> bool) \<Rightarrow> rslot \<Rightarrow> snap \<Rightarrow> snap \<times> fold_dst list" where
  "fold_assign commit_ok rs st = fold (assign_page commit_ok rs) (rs_list rs) (st, replicate (rs_count rs) Dst_Drop)"

text \<open>One step of the worker: announce a retired job, copy a page, or retire the job.\<close>

definition bg_step :: "fold_rings \<times> snap \<Rightarrow> fold_rings \<times> snap" where
  "bg_step s =
     (case s of (q, st) \<Rightarrow>
        case fr_done q of
          Some j \<Rightarrow> ((push_return (fj_src j, fj_cap j) q)\<lparr>fr_completed := fj_seq j, fr_done := None\<rparr>, st)
        | None \<Rightarrow>
            if fr_tail q = fr_head q then s
            else let j = fr_submit q (fr_tail q mod FOLD_RING) in
              if fr_pos q < length (fj_dsts j)
              then (q\<lparr>fr_pos := fr_pos q + 1\<rparr>, store_dst (fj_dsts j ! fr_pos q) (fj_src j (fr_pos q)) st)
              else (q\<lparr>fr_tail := fr_tail q + 1, fr_pos := 0, fr_done := Some j\<rparr>, st))"

definition drained :: "fold_rings \<Rightarrow> bool" where "drained q \<longleftrightarrow> fr_submitted q \<le> fr_completed q"

text \<open>The main thread spins while the worker steps; None: it still spins.\<close>

primrec fold_drain :: "nat \<Rightarrow> fold_rings \<times> snap \<Rightarrow> (fold_rings \<times> snap) option" where
  "fold_drain 0 s = (if drained (fst s) then Some s else None)"
| "fold_drain (Suc n) s = (if drained (fst s) then Some s else fold_drain n (bg_step s))"

definition submit_fold :: "(nat \<Rightarrow> bool) \<Rightarrow> rslot \<Rightarrow> fold_rings \<times> snap \<Rightarrow> rslot \<times> fold_rings \<times> snap" where
  "submit_fold commit_ok rs s =
     (case s of (q, st) \<Rightarrow>
        let (st1, ds) = fold_assign commit_ok rs st;
            j = \<lparr>fj_src = rs_data rs, fj_cap = rs_cap rs, fj_dsts = ds, fj_seq = fr_submitted q + 1\<rparr>;
            (sb, q1) = pop_return q;
            rs1 = (case sb of None \<Rightarrow> rs\<lparr>rs_cap := 0\<rparr> | Some (d, c) \<Rightarrow> rs\<lparr>rs_data := d, rs_cap := c\<rparr>)
        in (rs1, q1\<lparr>fr_submit := (fr_submit q1)(fr_head q mod FOLD_RING := j), fr_head := fr_head q + 1,
                   fr_submitted := fr_submitted q + 1\<rparr>, st1))"

text \<open>The eviction in a save. \<open>defer\<close>: armed, and the worker runs; \<open>dst_ok\<close>: the list of destinations could be
  allocated.\<close>

definition evict_fold :: "bool \<Rightarrow> bool \<Rightarrow> nat \<Rightarrow> (nat \<Rightarrow> bool) \<Rightarrow> rslot \<Rightarrow> fold_rings \<times> snap \<Rightarrow> (rslot \<times> fold_rings \<times> snap) option" where
  "evict_fold defer dst_ok fuel commit_ok rs s =
     (if \<not> rs_valid rs then Some (rs, s)
      else if \<not> defer then Some (rs, fst s, fold_into_baseline commit_ok rs (snd s))
      else case (if FOLD_RING \<le> fr_head (fst s) - fr_tail (fst s) then fold_drain fuel s else Some s) of
        None \<Rightarrow> None
      | Some s1 \<Rightarrow> Some (if dst_ok then submit_fold commit_ok rs s1 else (rs, fst s1, fold_into_baseline commit_ok rs (snd s1))))"

section \<open>Writes\<close>

definition put_writes :: "(fold_dst \<times> page) list \<Rightarrow> snap \<Rightarrow> snap" where
  "put_writes ws st = fold (\<lambda>(d, c). store_dst d c) ws st"

definition real :: "fold_dst \<times> page \<Rightarrow> bool" where "real w \<longleftrightarrow> fst w \<noteq> Dst_Drop"

text \<open>What a batch of writes does: the last write to a place counts, and nothing but the two stores changes.\<close>

definition patched :: "(fold_dst \<rightharpoonup> page) \<Rightarrow> (nat \<Rightarrow> fold_dst) \<Rightarrow> page carray \<Rightarrow> page carray" where
  "patched f k a = (\<lambda>i. case f (k i) of None \<Rightarrow> a i | Some c \<Rightarrow> c)"

definition over :: "(fold_dst \<rightharpoonup> page) \<Rightarrow> snap \<Rightarrow> snap" where
  "over f st = st\<lparr>sn_base := patched f Dst_Base (sn_base st), sn_supp := patched f Dst_Supp (sn_supp st)\<rparr>"

lemma patched_none [simp]: "patched Map.empty k a = a"
  by (simp add: patched_def)

lemma patched_upd: "patched (f(d \<mapsto> c)) k a = (\<lambda>i. if k i = d then c else patched f k a i)"
  by (auto simp: patched_def fun_eq_iff)

lemma store_over: "store_dst d c (over f st) = over (f(d \<mapsto> c)) st"
proof (cases d)
  case (Dst_Base i)
  have "(\<lambda>j. if Dst_Base j = d then c else patched f Dst_Base (sn_base st) j) = (patched f Dst_Base (sn_base st))(i := c)"
    by (auto simp: Dst_Base)
  then show ?thesis by (simp add: store_dst_def over_def patched_upd Dst_Base)
next
  case (Dst_Supp i)
  have "(\<lambda>j. if Dst_Supp j = d then c else patched f Dst_Supp (sn_supp st) j) = (patched f Dst_Supp (sn_supp st))(i := c)"
    by (auto simp: Dst_Supp)
  then show ?thesis by (simp add: store_dst_def over_def patched_upd Dst_Supp)
next
  case Dst_Drop
  then show ?thesis by (simp add: store_dst_def over_def patched_upd)
qed

lemma put_writes_over: "put_writes ws st = over (map_of (rev ws)) st"
proof (induction ws rule: rev_induct)
  case (snoc w ws)
  then show ?case by (cases w) (simp add: put_writes_def store_over fun_upd_def)
qed (simp add: put_writes_def over_def)

lemma over_cong: "(\<And>d. d \<noteq> Dst_Drop \<Longrightarrow> f d = g d) \<Longrightarrow> over f st = over g st"
  by (simp add: over_def patched_def)

lemma put_writes_append: "put_writes (xs @ ys) st = put_writes ys (put_writes xs st)"
  by (simp add: put_writes_def)

lemma map_of_real: "d \<noteq> Dst_Drop \<Longrightarrow> map_of (filter real ws) d = map_of ws d"
  by (induction ws) (auto simp: real_def)

text \<open>Two batches of the same writes to distinct places have the same effect, whatever the order.\<close>

lemma put_writes_same:
  assumes "distinct (map fst (filter real xs))" "distinct (map fst (filter real ys))" "set (filter real xs) = set (filter real ys)"
  shows "put_writes xs st = put_writes ys st"
proof -
  have r: "map_of (filter real (rev zs)) = map_of (filter real zs)" if "distinct (map fst (filter real zs))" for zs
  proof -
    have "distinct (map fst (rev (filter real zs)))" using that by (simp only: rev_map [symmetric] distinct_rev)
    then show ?thesis using map_of_inject_set [OF _ that, of "rev (filter real zs)"] by (simp add: rev_filter)
  qed
  have "map_of (filter real xs) = map_of (filter real ys)" using map_of_inject_set [OF assms(1,2)] assms(3) by simp
  then show ?thesis unfolding put_writes_over using r [OF assms(1)] r [OF assms(2)] map_of_real
    by (intro over_cong) metis
qed

section \<open>Resolving\<close>

definition resolve_all :: "(nat \<Rightarrow> bool) \<Rightarrow> nat list \<Rightarrow> snap \<Rightarrow> snap" where
  "resolve_all commit_ok ps st = fold (\<lambda>p st. fst (resolve_fold_dst commit_ok p st)) ps st"

text \<open>Where a resolved page goes.\<close>

definition dst_of :: "snap \<Rightarrow> nat \<Rightarrow> fold_dst" where
  "dst_of st p = (let bl = sn_bmap st p in
     if bl = NOPAGE then Dst_Drop else if SUPP_FLAG \<le> bl then Dst_Supp (bl mod SUPP_FLAG) else Dst_Base bl)"

lemma over_meta [simp]: "sn_bmap (over f st) = sn_bmap st" "sn_supp_n (over f st) = sn_supp_n st" "sn_bbits (over f st) = sn_bbits st"
  by (simp_all add: over_def)

lemma resolve_known:
  "sn_bmap st p \<noteq> NOPAGE \<Longrightarrow> resolve_fold_dst commit_ok p st = (st, if SUPP_FLAG \<le> sn_bmap st p
      then if sn_bmap st p mod SUPP_FLAG < sn_supp_n st then Dst_Supp (sn_bmap st p mod SUPP_FLAG) else Dst_Drop else Dst_Base (sn_bmap st p))"
  by (simp add: resolve_fold_dst_def Let_def)

lemma resolve_fresh:
  "sn_bmap st p = NOPAGE \<Longrightarrow> sn_supp_n st < SUPPLEMENTAL_MAX \<and> commit_ok (sn_supp_n st) \<Longrightarrow> resolve_fold_dst commit_ok p st =
      (st\<lparr>sn_bmap := (sn_bmap st)(p := sn_supp_n st + SUPP_FLAG), sn_bbits := (sn_bbits st)(p := True), sn_supp_n := sn_supp_n st + 1\<rparr>, Dst_Supp (sn_supp_n st))"
  by (simp add: resolve_fold_dst_def Let_def)

lemma resolve_full:
  "sn_bmap st p = NOPAGE \<Longrightarrow> \<not> (sn_supp_n st < SUPPLEMENTAL_MAX \<and> commit_ok (sn_supp_n st)) \<Longrightarrow> resolve_fold_dst commit_ok p st = (st, Dst_Drop)"
  by (simp add: resolve_fold_dst_def Let_def)

lemma resolve_cases [case_names known fresh full]:
  fixes st :: snap
  obtains "sn_bmap st p \<noteq> NOPAGE" | "sn_bmap st p = NOPAGE" "sn_supp_n st < SUPPLEMENTAL_MAX \<and> commit_ok (sn_supp_n st)"
  | "sn_bmap st p = NOPAGE" "\<not> (sn_supp_n st < SUPPLEMENTAL_MAX \<and> commit_ok (sn_supp_n st))"
  by blast

lemma over_upd: "over f (st\<lparr>sn_bmap := m, sn_bbits := b, sn_supp_n := n\<rparr>) = (over f st)\<lparr>sn_bmap := m, sn_bbits := b, sn_supp_n := n\<rparr>"
  by (simp add: over_def)

lemma resolve_over:
  "resolve_fold_dst commit_ok p (over f st) = (over f (fst (resolve_fold_dst commit_ok p st)), snd (resolve_fold_dst commit_ok p st))"
proof (cases rule: resolve_cases [where st = st and p = p and commit_ok = commit_ok])
  case known
  then show ?thesis using resolve_known [of "over f st" p commit_ok] by (simp add: resolve_known)
next
  case fresh
  then show ?thesis using resolve_fresh [of "over f st" p commit_ok] resolve_fresh [where commit_ok = commit_ok, OF fresh] by (simp add: over_upd)
next
  case full
  then show ?thesis using resolve_full [of "over f st" p commit_ok] resolve_full [where commit_ok = commit_ok, OF full] by simp
qed

lemma resolve_all_over: "resolve_all commit_ok ps (over f st) = over f (resolve_all commit_ok ps st)"
  by (induction ps arbitrary: st) (simp_all add: resolve_all_def resolve_over)

lemma base_supp:
  assumes "base_ok st" "sn_bmap st p \<noteq> NOPAGE" "SUPP_FLAG \<le> sn_bmap st p"
  shows "sn_bmap st p mod SUPP_FLAG < sn_supp_n st" "sn_bmap st p = sn_bmap st p mod SUPP_FLAG + SUPP_FLAG"
proof -
  obtain i where i: "i < sn_supp_n st" "sn_bmap st p = i + SUPP_FLAG" using assms unfolding base_ok_def by blast
  have "sn_supp_n st < SUPP_FLAG" using assms(1) supp_consts(1) unfolding base_ok_def by linarith
  then have "sn_bmap st p mod SUPP_FLAG = i" using i by simp
  then show "sn_bmap st p mod SUPP_FLAG < sn_supp_n st" "sn_bmap st p = sn_bmap st p mod SUPP_FLAG + SUPP_FLAG" using i by simp_all
qed

lemma base_inj: "base_ok st \<Longrightarrow> sn_bmap st p \<noteq> NOPAGE \<Longrightarrow> sn_bmap st p = sn_bmap st q \<Longrightarrow> p = q"
  unfolding base_ok_def by blast

lemma fresh_new:
  assumes "base_ok st" "sn_supp_n st < SUPPLEMENTAL_MAX"
  shows "sn_supp_n st + SUPP_FLAG \<noteq> NOPAGE" "(sn_supp_n st + SUPP_FLAG) mod SUPP_FLAG = sn_supp_n st" "sn_bmap st r \<noteq> sn_supp_n st + SUPP_FLAG"
proof -
  have lt: "sn_supp_n st < SUPP_FLAG" using assms(2) supp_consts(1) by linarith
  show v: "sn_supp_n st + SUPP_FLAG \<noteq> NOPAGE" "(sn_supp_n st + SUPP_FLAG) mod SUPP_FLAG = sn_supp_n st"
    using lt supp_consts(3) [OF assms(2)] by simp_all
  show "sn_bmap st r \<noteq> sn_supp_n st + SUPP_FLAG"
  proof
    assume b: "sn_bmap st r = sn_supp_n st + SUPP_FLAG"
    then have "sn_bmap st r mod SUPP_FLAG < sn_supp_n st" using base_supp(1) [OF assms(1), of r] v(1) by simp
    then show False using b v(2) by simp
  qed
qed

lemma fresh_ok:
  assumes "base_ok st" "sn_supp_n st < SUPPLEMENTAL_MAX"
  shows "base_ok (st\<lparr>sn_bmap := (sn_bmap st)(p := sn_supp_n st + SUPP_FLAG), sn_bbits := (sn_bbits st)(p := True), sn_supp_n := sn_supp_n st + 1\<rparr>)"
    (is "base_ok ?st")
proof -
  let ?n = "sn_supp_n st"
  have m: "sn_bmap ?st r = (if r = p then ?n + SUPP_FLAG else sn_bmap st r)" "sn_supp_n ?st = ?n + 1"
    "sn_bbits ?st r = (r = p \<or> sn_bbits st r)" for r by simp_all
  have 1: "r = q" if "sn_bmap ?st r \<noteq> NOPAGE" "sn_bmap ?st r = sn_bmap ?st q" for r q
    using that base_inj [OF assms(1), of r q] fresh_new(3) [OF assms, of r] fresh_new(3) [OF assms, of q] unfolding m
    by (cases "r = p"; cases "q = p") simp_all
  have 2: "\<exists>i < ?n + 1. sn_bmap ?st r = i + SUPP_FLAG" if "sn_bmap ?st r \<noteq> NOPAGE" "SUPP_FLAG \<le> sn_bmap ?st r" for r
  proof (cases "r = p")
    case False
    then show ?thesis using base_supp [OF assms(1), of r] that unfolding m by (intro exI [of _ "sn_bmap st r mod SUPP_FLAG"]) simp
  next
    case True
    then show ?thesis unfolding m by (intro exI [of _ ?n]) simp
  qed
  have 3: "sn_bbits ?st r \<longleftrightarrow> sn_bmap ?st r \<noteq> NOPAGE" for r
  proof -
    have "sn_bbits st r \<longleftrightarrow> sn_bmap st r \<noteq> NOPAGE" using assms(1) unfolding base_ok_def by blast
    then show ?thesis using fresh_new(1) [OF assms] unfolding m by (cases "r = p") simp_all
  qed
  show ?thesis unfolding base_ok_def
  proof (intro conjI allI impI)
    show "r = q" if "sn_bmap ?st r \<noteq> NOPAGE \<and> sn_bmap ?st r = sn_bmap ?st q" for r q using 1 that by blast
    show "\<exists>i < sn_supp_n ?st. sn_bmap ?st r = i + SUPP_FLAG" if "sn_bmap ?st r \<noteq> NOPAGE \<and> SUPP_FLAG \<le> sn_bmap ?st r" for r
      using 2 that unfolding m(2) by blast
    show "sn_bbits ?st r \<longleftrightarrow> sn_bmap ?st r \<noteq> NOPAGE" for r by (rule 3)
    show "sn_supp_n ?st \<le> SUPPLEMENTAL_MAX" unfolding m(2) using assms(2) by linarith
  qed
qed

lemma resolve_ok:
  assumes "base_ok st"
  shows "base_ok (fst (resolve_fold_dst commit_ok p st)) \<and>
    snd (resolve_fold_dst commit_ok p st) = dst_of (fst (resolve_fold_dst commit_ok p st)) p \<and>
    (\<forall>q. q \<noteq> p \<longrightarrow> sn_bmap (fst (resolve_fold_dst commit_ok p st)) q = sn_bmap st q)"
proof (cases rule: resolve_cases [where st = st and p = p and commit_ok = commit_ok])
  case known
  then show ?thesis using assms base_supp(1) [OF assms known] by (simp add: resolve_known dst_of_def)
next
  case fresh
  then have n: "sn_supp_n st < SUPPLEMENTAL_MAX" by blast
  show ?thesis unfolding resolve_fresh [where commit_ok = commit_ok, OF fresh] using fresh_ok [OF assms n, of p] fresh_new(1,2) [OF assms n] by (simp add: dst_of_def)
next
  case full
  then show ?thesis using assms by (simp add: resolve_full dst_of_def)
qed

lemma resolve_all_ok: "base_ok st \<Longrightarrow> base_ok (resolve_all commit_ok ps st)"
  by (induction ps arbitrary: st) (simp_all add: resolve_all_def resolve_ok)

lemma resolve_all_snoc: "resolve_all commit_ok (ps @ [p]) st = fst (resolve_fold_dst commit_ok p (resolve_all commit_ok ps st))"
  by (simp add: resolve_all_def)

lemma dst_keep: "base_ok st \<Longrightarrow> q \<noteq> p \<Longrightarrow> dst_of (fst (resolve_fold_dst commit_ok p st)) q = dst_of st q"
  using resolve_ok [of st commit_ok p] by (simp add: dst_of_def)

lemma dst_inj:
  assumes "base_ok st" "dst_of st p = dst_of st q" "dst_of st p \<noteq> Dst_Drop"
  shows "p = q"
proof -
  have n: "sn_bmap st p \<noteq> NOPAGE" "sn_bmap st q \<noteq> NOPAGE" using assms(2,3) by (auto simp: dst_of_def)
  have "sn_bmap st p = sn_bmap st q"
    using assms(2) n base_supp(2) [OF assms(1) n(1)] base_supp(2) [OF assms(1) n(2)] by (simp add: dst_of_def Let_def split: if_splits)
  then show ?thesis using base_inj [OF assms(1) n(1)] by blast
qed

section \<open>One eviction\<close>

definition fold_slot :: "rslot \<Rightarrow> bool" where
  "fold_slot rs \<longleftrightarrow> distinct (rs_list rs) \<and> inj_on (rs_map rs) (set (rs_list rs)) \<and>
     (\<forall>p \<in> set (rs_list rs). rs_map rs p < rs_count rs \<and> rs_map rs p < NOPAGE)"

definition slot_writes :: "snap \<Rightarrow> rslot \<Rightarrow> nat list \<Rightarrow> (fold_dst \<times> page) list" where
  "slot_writes st rs ps = map (\<lambda>p. (dst_of st p, rs_data rs (rs_map rs p))) ps"

lemma sync_fold:
  assumes "base_ok st" "distinct ps" "\<forall>p \<in> set ps. rs_map rs p < NOPAGE"
  shows "fold (fold_page commit_ok rs) ps st = put_writes (slot_writes (resolve_all commit_ok ps st) rs ps) (resolve_all commit_ok ps st)"
  using assms(2,3)
proof (induction ps rule: rev_induct)
  case Nil
  then show ?case by (simp add: put_writes_def slot_writes_def resolve_all_def)
next
  case (snoc p ps)
  let ?R = "resolve_all commit_ok ps st" and ?ws = "slot_writes (resolve_all commit_ok ps st) rs ps"
  let ?R' = "fst (resolve_fold_dst commit_ok p ?R)"
  have ok: "base_ok ?R" using assms(1) by (rule resolve_all_ok)
  have "fold (fold_page commit_ok rs) (ps @ [p]) st = fold_page commit_ok rs p (put_writes ?ws ?R)"
    using snoc by simp
  also have "\<dots> = put_writes (?ws @ [(dst_of ?R' p, rs_data rs (rs_map rs p))]) ?R'"
    using snoc.prems resolve_ok [OF ok, of commit_ok p]
    by (simp add: fold_page_def put_writes_append put_writes_over [of ?ws] resolve_over split_def Let_def)
       (simp add: put_writes_def)
  also have "?ws @ [(dst_of ?R' p, rs_data rs (rs_map rs p))] = slot_writes ?R' rs (ps @ [p])"
  proof -
    have "dst_of ?R x = dst_of ?R' x" if "x \<in> set ps" for x
    proof -
      have "x \<noteq> p" using that snoc.prems(1) by auto
      then show ?thesis using dst_keep [OF ok, of x p commit_ok] by simp
    qed
    then show ?thesis by (simp add: slot_writes_def)
  qed
  finally show ?case by (simp add: resolve_all_snoc)
qed

lemma assign_result:
  assumes "base_ok st" "distinct ps" "inj_on (rs_map rs) (set ps)" "\<forall>p \<in> set ps. rs_map rs p < rs_count rs \<and> rs_map rs p < NOPAGE"
  shows "\<exists>ds. fold (assign_page commit_ok rs) ps (st, replicate (rs_count rs) Dst_Drop) = (resolve_all commit_ok ps st, ds) \<and>
    length ds = rs_count rs \<and> (\<forall>p \<in> set ps. ds ! rs_map rs p = dst_of (resolve_all commit_ok ps st) p) \<and>
    (\<forall>i < rs_count rs. i \<notin> rs_map rs ` set ps \<longrightarrow> ds ! i = Dst_Drop)"
  using assms(2-4)
proof (induction ps rule: rev_induct)
  case Nil
  then show ?case by (simp add: resolve_all_def)
next
  case (snoc p ps)
  let ?R = "resolve_all commit_ok ps st" and ?R' = "resolve_all commit_ok (ps @ [p]) st"
  from snoc obtain ds where ds: "fold (assign_page commit_ok rs) ps (st, replicate (rs_count rs) Dst_Drop) = (?R, ds)" "length ds = rs_count rs"
    "\<forall>q \<in> set ps. ds ! rs_map rs q = dst_of ?R q" "\<forall>i < rs_count rs. i \<notin> rs_map rs ` set ps \<longrightarrow> ds ! i = Dst_Drop"
    by (auto simp: inj_on_Un)
  have ok: "base_ok ?R" using assms(1) by (rule resolve_all_ok)
  have r: "resolve_fold_dst commit_ok p ?R = (?R', dst_of ?R' p)"
    using resolve_ok [OF ok, of commit_ok p] by (simp add: resolve_all_snoc prod_eq_iff)
  have m: "rs_map rs p < rs_count rs" "rs_map rs p \<noteq> NOPAGE" using snoc.prems(3) by auto
  have "fold (assign_page commit_ok rs) (ps @ [p]) (st, replicate (rs_count rs) Dst_Drop) = (?R', ds[rs_map rs p := dst_of ?R' p])"
    using m r by (simp add: ds(1) assign_page_def)
  moreover have "ds[rs_map rs p := dst_of ?R' p] ! rs_map rs q = dst_of ?R' q" if "q \<in> set (ps @ [p])" for q
  proof (cases "q = p")
    case False
    then have q: "q \<in> set ps" using that by simp
    then have "rs_map rs q \<noteq> rs_map rs p" using False snoc.prems(2) by (auto simp: inj_on_def)
    then show ?thesis using ds(3) q dst_keep [OF ok False, of commit_ok] by (simp add: resolve_all_snoc)
  qed (use m ds(2) in simp)
  moreover have "ds[rs_map rs p := dst_of ?R' p] ! i = Dst_Drop" if "i < rs_count rs" "i \<notin> rs_map rs ` set (ps @ [p])" for i
    using that ds(4) by auto
  ultimately show ?case using ds(2) by simp
qed

definition job_writes :: "fold_job \<Rightarrow> (fold_dst \<times> page) list" where
  "job_writes j = map (\<lambda>i. (fj_dsts j ! i, fj_src j i)) [0..<length (fj_dsts j)]"

lemma distinct_real:
  assumes "distinct xs" "\<And>x y. x \<in> set xs \<Longrightarrow> y \<in> set xs \<Longrightarrow> fst (f x) = fst (f y) \<Longrightarrow> fst (f x) \<noteq> Dst_Drop \<Longrightarrow> x = y"
  shows "distinct (map fst (filter real (map f xs)))"
  using assms by (auto simp: filter_map distinct_map o_def inj_on_def real_def)

lemma deferred_fold:
  assumes "base_ok st" "fold_slot rs"
  obtains ds where "fold_assign commit_ok rs st = (resolve_all commit_ok (rs_list rs) st, ds)"
    "\<And>X c s. put_writes (job_writes \<lparr>fj_src = rs_data rs, fj_cap = c, fj_dsts = ds, fj_seq = s\<rparr>) X =
      put_writes (slot_writes (resolve_all commit_ok (rs_list rs) st) rs (rs_list rs)) X"
proof -
  let ?ps = "rs_list rs" and ?R = "resolve_all commit_ok (rs_list rs) st"
  have fs: "distinct ?ps" "inj_on (rs_map rs) (set ?ps)" "\<forall>p \<in> set ?ps. rs_map rs p < rs_count rs \<and> rs_map rs p < NOPAGE"
    using assms(2) by (simp_all add: fold_slot_def)
  obtain ds where ds: "fold_assign commit_ok rs st = (?R, ds)" "length ds = rs_count rs"
    "\<forall>p \<in> set ?ps. ds ! rs_map rs p = dst_of ?R p" "\<forall>i < rs_count rs. i \<notin> rs_map rs ` set ?ps \<longrightarrow> ds ! i = Dst_Drop"
    using assign_result [OF assms(1) fs, of commit_ok] by (auto simp: fold_assign_def)
  have ok: "base_ok ?R" using assms(1) by (rule resolve_all_ok)
  have "put_writes (job_writes \<lparr>fj_src = rs_data rs, fj_cap = c, fj_dsts = ds, fj_seq = s\<rparr>) X = put_writes (slot_writes ?R rs ?ps) X" for X c s
  proof (rule put_writes_same)
    let ?j = "\<lparr>fj_src = rs_data rs, fj_cap = c, fj_dsts = ds, fj_seq = s\<rparr>"
    have src: "\<exists>p \<in> set ?ps. i = rs_map rs p" if "i < length ds" "ds ! i \<noteq> Dst_Drop" for i
      using ds(2,4) that by auto
    show "distinct (map fst (filter real (job_writes ?j)))" unfolding job_writes_def
    proof (rule distinct_real)
      fix x y assume a: "x \<in> set [0..<length (fj_dsts ?j)]" "y \<in> set [0..<length (fj_dsts ?j)]"
        "fst (fj_dsts ?j ! x, fj_src ?j x) = fst (fj_dsts ?j ! y, fj_src ?j y)" "fst (fj_dsts ?j ! x, fj_src ?j x) \<noteq> Dst_Drop"
      then obtain p q where "p \<in> set ?ps" "x = rs_map rs p" "q \<in> set ?ps" "y = rs_map rs q" using src [of x] src [of y] by auto
      then show "x = y" using a ds(3) dst_inj [OF ok, of p q] by auto
    qed simp
    show "distinct (map fst (filter real (slot_writes ?R rs ?ps)))" unfolding slot_writes_def
      by (rule distinct_real) (use fs(1) dst_inj [OF ok] in auto)
    show "set (filter real (job_writes ?j)) = set (filter real (slot_writes ?R rs ?ps))"
    proof (intro set_eqI iffI)
      fix w assume "w \<in> set (filter real (job_writes ?j))"
      then obtain i where i: "i < length ds" "w = (ds ! i, rs_data rs i)" "ds ! i \<noteq> Dst_Drop" by (auto simp: job_writes_def real_def)
      then obtain p where "p \<in> set ?ps" "i = rs_map rs p" using src by blast
      then show "w \<in> set (filter real (slot_writes ?R rs ?ps))" using i ds(3) by (auto simp: slot_writes_def real_def)
    next
      fix w assume "w \<in> set (filter real (slot_writes ?R rs ?ps))"
      then obtain p where p: "p \<in> set ?ps" "w = (dst_of ?R p, rs_data rs (rs_map rs p))" "real w" by (auto simp: slot_writes_def)
      then have "rs_map rs p < length ds" "ds ! rs_map rs p = dst_of ?R p" using ds(2,3) fs(3) by auto
      then show "w \<in> set (filter real (job_writes ?j))" using p(2,3) by (auto simp: job_writes_def intro!: image_eqI [where x = "rs_map rs p"])
    qed
  qed
  with ds(1) show thesis by (rule that)
qed

section \<open>The two threads\<close>

definition job_at :: "fold_rings \<Rightarrow> nat \<Rightarrow> fold_job" where "job_at q i = fr_submit q (i mod FOLD_RING)"

definition pend :: "fold_rings \<Rightarrow> (fold_dst \<times> page) list" where
  "pend q = concat (map (\<lambda>i. drop (if i = fr_tail q then fr_pos q else 0) (job_writes (job_at q i))) [fr_tail q..<fr_head q])"

text \<open>The baseline as it will be once the worker is done.\<close>

definition settled :: "fold_rings \<times> snap \<Rightarrow> snap" where "settled s = put_writes (pend (fst s)) (snd s)"

definition rings_ok :: "fold_rings \<Rightarrow> bool" where
  "rings_ok q \<longleftrightarrow> fr_tail q \<le> fr_head q \<and> fr_head q \<le> fr_tail q + FOLD_RING \<and> fr_submitted q = fr_head q \<and>
     (\<forall>i. fr_tail q \<le> i \<and> i < fr_head q \<longrightarrow> fj_seq (job_at q i) = i + 1) \<and>
     (if fr_tail q = fr_head q then fr_pos q = 0 else fr_pos q \<le> length (fj_dsts (job_at q (fr_tail q)))) \<and>
     (case fr_done q of None \<Rightarrow> fr_completed q = fr_tail q | Some j \<Rightarrow> fj_seq j = fr_tail q \<and> fr_completed q < fr_tail q \<and> fr_pos q = 0)"

lemma push_return_simps [simp]:
  "fr_submit (push_return b q) = fr_submit q" "fr_head (push_return b q) = fr_head q" "fr_tail (push_return b q) = fr_tail q"
  "fr_submitted (push_return b q) = fr_submitted q" "fr_pos (push_return b q) = fr_pos q"
  by (simp_all add: push_return_def)

lemma step_announce:
  "fr_done q = Some j \<Longrightarrow> bg_step (q, st) = ((push_return (fj_src j, fj_cap j) q)\<lparr>fr_completed := fj_seq j, fr_done := None\<rparr>, st)"
  by (simp add: bg_step_def)

lemma step_idle: "fr_done q = None \<Longrightarrow> fr_tail q = fr_head q \<Longrightarrow> bg_step (q, st) = (q, st)"
  by (simp add: bg_step_def)

lemma step_copy:
  "fr_done q = None \<Longrightarrow> fr_tail q \<noteq> fr_head q \<Longrightarrow> fr_pos q < length (fj_dsts (job_at q (fr_tail q))) \<Longrightarrow>
    bg_step (q, st) = (q\<lparr>fr_pos := fr_pos q + 1\<rparr>,
      store_dst (fj_dsts (job_at q (fr_tail q)) ! fr_pos q) (fj_src (job_at q (fr_tail q)) (fr_pos q)) st)"
  by (simp add: bg_step_def job_at_def Let_def)

lemma step_retire:
  "fr_done q = None \<Longrightarrow> fr_tail q \<noteq> fr_head q \<Longrightarrow> \<not> fr_pos q < length (fj_dsts (job_at q (fr_tail q))) \<Longrightarrow>
    bg_step (q, st) = (q\<lparr>fr_tail := Suc (fr_tail q), fr_pos := 0, fr_done := Some (job_at q (fr_tail q))\<rparr>, st)"
  by (simp add: bg_step_def job_at_def Let_def)

lemma step_cases [case_names announce idle copy retire]:
  fixes q :: fold_rings
  obtains j where "fr_done q = Some j" | "fr_done q = None" "fr_tail q = fr_head q"
  | "fr_done q = None" "fr_tail q \<noteq> fr_head q" "fr_pos q < length (fj_dsts (job_at q (fr_tail q)))"
  | "fr_done q = None" "fr_tail q \<noteq> fr_head q" "\<not> fr_pos q < length (fj_dsts (job_at q (fr_tail q)))"
  by (cases "fr_done q") blast+

definition work :: "fold_rings \<Rightarrow> nat" where
  "work q = sum_list (map (\<lambda>i. length (fj_dsts (job_at q i)) + 2) [fr_tail q..<fr_head q]) + (if fr_done q = None then 0 else 1) - fr_pos q"

lemma job_at_cong: "fr_submit q' = fr_submit q \<Longrightarrow> job_at q' = job_at q"
  by (simp add: job_at_def fun_eq_iff)

lemma pend_head:
  assumes "fr_tail q < fr_head q"
  shows "pend q = drop (fr_pos q) (job_writes (job_at q (fr_tail q))) @ concat (map (\<lambda>i. job_writes (job_at q i)) [Suc (fr_tail q)..<fr_head q])"
proof -
  let ?F = "\<lambda>i. drop (if i = fr_tail q then fr_pos q else 0) (job_writes (job_at q i))"
  have m: "map ?F [Suc (fr_tail q)..<fr_head q] = map (\<lambda>i. job_writes (job_at q i)) [Suc (fr_tail q)..<fr_head q]" by (rule map_cong) auto
  have "pend q = ?F (fr_tail q) @ concat (map ?F [Suc (fr_tail q)..<fr_head q])"
    unfolding pend_def upt_conv_Cons [OF assms] by simp
  then show ?thesis unfolding m by simp
qed

lemma pend_start: "fr_pos q = 0 \<Longrightarrow> pend q = concat (map (\<lambda>i. job_writes (job_at q i)) [fr_tail q..<fr_head q])"
  by (simp add: pend_def cong: if_cong)

lemma job_writes_drop:
  "k < length (fj_dsts j) \<Longrightarrow> drop k (job_writes j) = (fj_dsts j ! k, fj_src j k) # drop (Suc k) (job_writes j)"
  by (simp add: job_writes_def Cons_nth_drop_Suc [symmetric])

lemma step_settled:
  assumes "rings_ok q"
  shows "settled (bg_step (q, st)) = settled (q, st)"
proof (cases rule: step_cases [of q])
  case (announce j)
  have "pend ((push_return (fj_src j, fj_cap j) q)\<lparr>fr_completed := fj_seq j, fr_done := None\<rparr>) = pend q"
    by (simp add: pend_def job_at_def cong: if_cong)
  then show ?thesis by (simp add: step_announce [OF announce] settled_def)
next
  case idle
  then show ?thesis by (simp add: step_idle)
next
  case copy
  let ?j = "job_at q (fr_tail q)" and ?q = "q\<lparr>fr_pos := Suc (fr_pos q)\<rparr>"
  have lt: "fr_tail q < fr_head q" using copy(2) assms by (simp add: rings_ok_def)
  have jq: "job_at ?q = job_at q" by (rule job_at_cong) simp
  have "pend q = (fj_dsts ?j ! fr_pos q, fj_src ?j (fr_pos q)) # pend ?q"
    using pend_head [OF lt] pend_head [of ?q] lt job_writes_drop [OF copy(3)] by (simp add: jq)
  then show ?thesis by (simp add: step_copy [OF copy] settled_def put_writes_def)
next
  case retire
  let ?q = "q\<lparr>fr_tail := Suc (fr_tail q), fr_pos := 0, fr_done := Some (job_at q (fr_tail q))\<rparr>"
  have lt: "fr_tail q < fr_head q" using retire(2) assms by (simp add: rings_ok_def)
  have jq: "job_at ?q = job_at q" by (rule job_at_cong) simp
  have "drop (fr_pos q) (job_writes (job_at q (fr_tail q))) = []" using retire(3) by (simp add: job_writes_def)
  then have "pend q = pend ?q" using pend_head [OF lt] pend_start [of ?q] by (simp add: jq)
  then show ?thesis by (simp add: step_retire [OF retire] settled_def)
qed

lemma step_rings:
  assumes "rings_ok q"
  shows "rings_ok (fst (bg_step (q, st)))"
proof (cases rule: step_cases [of q])
  case (announce j)
  have "job_at ((push_return (fj_src j, fj_cap j) q)\<lparr>fr_completed := fj_seq j, fr_done := None\<rparr>) = job_at q"
    by (rule job_at_cong) simp
  then show ?thesis using assms announce by (simp add: step_announce [OF announce] rings_ok_def)
next
  case idle
  then show ?thesis using assms by (simp add: step_idle)
next
  case copy
  have "job_at (q\<lparr>fr_pos := Suc (fr_pos q)\<rparr>) = job_at q" by (rule job_at_cong) simp
  then show ?thesis using assms copy by (simp add: step_copy [OF copy] rings_ok_def)
next
  case retire
  have "job_at (q\<lparr>fr_tail := Suc (fr_tail q), fr_pos := 0, fr_done := Some (job_at q (fr_tail q))\<rparr>) = job_at q" by (rule job_at_cong) simp
  then show ?thesis using assms retire by (simp add: step_retire [OF retire] rings_ok_def)
qed

lemma store_meta: "base_ok (store_dst d c st) = base_ok st"
  by (rule base_ok_cong; cases d) (simp_all add: store_dst_def)

lemma step_base: "base_ok (snd (bg_step (q, st))) = base_ok st"
  by (cases rule: step_cases [of q]) (simp_all add: step_announce step_idle step_copy step_retire store_meta)

lemma step_work:
  assumes "rings_ok q" "\<not> drained q"
  shows "work (fst (bg_step (q, st))) < work q"
proof (cases rule: step_cases [of q])
  case (announce j)
  have "job_at ((push_return (fj_src j, fj_cap j) q)\<lparr>fr_completed := fj_seq j, fr_done := None\<rparr>) = job_at q"
    by (rule job_at_cong) simp
  then show ?thesis using assms announce by (simp add: step_announce [OF announce] work_def rings_ok_def)
next
  case idle
  then show ?thesis using assms by (simp add: rings_ok_def drained_def)
next
  case copy
  have jq: "job_at (q\<lparr>fr_pos := Suc (fr_pos q)\<rparr>) = job_at q" by (rule job_at_cong) simp
  have lt: "fr_tail q < fr_head q" using copy(2) assms by (simp add: rings_ok_def)
  show ?thesis using copy lt by (simp add: step_copy [OF copy] work_def jq upt_conv_Cons)
next
  case retire
  have jq: "job_at (q\<lparr>fr_tail := Suc (fr_tail q), fr_pos := 0, fr_done := Some (job_at q (fr_tail q))\<rparr>) = job_at q" by (rule job_at_cong) simp
  have lt: "fr_tail q < fr_head q" "fr_pos q = length (fj_dsts (job_at q (fr_tail q)))" using retire(2,3) assms by (simp_all add: rings_ok_def)
  show ?thesis using retire(1) lt by (simp add: step_retire [OF retire] work_def jq upt_conv_Cons)
qed

lemma drain_settled:
  assumes "fold_drain n s = Some s'" "rings_ok (fst s)"
  shows "settled s' = settled s \<and> rings_ok (fst s') \<and> drained (fst s') \<and> base_ok (snd s') = base_ok (snd s)"
  using assms
proof (induction n arbitrary: s)
  case 0
  then show ?case by (auto split: if_splits)
next
  case (Suc n)
  obtain q st where s: "s = (q, st)" by (cases s)
  show ?case
  proof (cases "drained q")
    case False
    then show ?thesis using Suc.IH [of "bg_step s"] Suc.prems step_settled [of q st] step_rings [of q st] step_base [of q st] by (simp add: s)
  qed (use Suc.prems in \<open>auto simp: s\<close>)
qed

lemma drained_empty:
  assumes "rings_ok q" "drained q"
  shows "fr_tail q = fr_head q" "settled (q, st) = st"
proof -
  have "fr_completed q \<le> fr_tail q" using assms(1) by (auto simp: rings_ok_def split: option.splits)
  then show t: "fr_tail q = fr_head q" using assms by (simp add: rings_ok_def drained_def)
  show "settled (q, st) = st" by (simp add: settled_def pend_def t put_writes_def)
qed

lemma pop_return_simps [simp]:
  "fr_submit (snd (pop_return q)) = fr_submit q" "fr_head (snd (pop_return q)) = fr_head q" "fr_tail (snd (pop_return q)) = fr_tail q"
  "fr_submitted (snd (pop_return q)) = fr_submitted q" "fr_pos (snd (pop_return q)) = fr_pos q" "fr_done (snd (pop_return q)) = fr_done q"
  "fr_completed (snd (pop_return q)) = fr_completed q"
  by (simp_all add: pop_return_def)

lemma slot_free:
  assumes "t \<le> i" "i < h" "h - t < FOLD_RING"
  shows "i mod FOLD_RING \<noteq> h mod FOLD_RING"
proof
  assume "i mod FOLD_RING = h mod FOLD_RING"
  then have "FOLD_RING dvd h - i" using assms(2) by (metis less_imp_le_nat mod_eq_dvd_iff_nat)
  then have "FOLD_RING \<le> h - i" using assms(2) by (simp add: dvd_imp_le)
  then show False using assms by simp
qed

lemma submit_pend:
  assumes "rings_ok q" "fr_head q - fr_tail q < FOLD_RING" "submit_fold commit_ok rs (q, st) = (rs', q', st')" "fold_assign commit_ok rs st = (R, ds)"
  shows "\<exists>s. pend q' = pend q @ job_writes \<lparr>fj_src = rs_data rs, fj_cap = rs_cap rs, fj_dsts = ds, fj_seq = s\<rparr>" "st' = R" "rings_ok q'"
    "fr_head q' = fr_head q + 1 \<and> fr_tail q' = fr_tail q"
proof -
  let ?j = "\<lparr>fj_src = rs_data rs, fj_cap = rs_cap rs, fj_dsts = ds, fj_seq = fr_submitted q + 1\<rparr>"
  have q': "q' = (snd (pop_return q))\<lparr>fr_submit := (fr_submit q)(fr_head q mod FOLD_RING := ?j), fr_head := fr_head q + 1, fr_submitted := fr_submitted q + 1\<rparr>"
    using assms(3) by (simp add: submit_fold_def assms(4) split_def Let_def)
  show "st' = R" using assms(3) by (simp add: submit_fold_def assms(4) split_def Let_def)
  have tl: "fr_tail q \<le> fr_head q" "fr_submitted q = fr_head q" using assms(1) by (simp_all add: rings_ok_def)
  have old: "job_at q' i = job_at q i" if "fr_tail q \<le> i" "i < fr_head q" for i
    using slot_free [OF that assms(2)] by (simp add: job_at_def q')
  have new: "job_at q' (fr_head q) = ?j" by (simp add: job_at_def q')
  have f: "fr_tail q' = fr_tail q" "fr_pos q' = fr_pos q" "fr_head q' = Suc (fr_head q)" by (simp_all add: q')
  then show "fr_head q' = fr_head q + 1 \<and> fr_tail q' = fr_tail q" by simp
  have "fr_tail q = fr_head q \<Longrightarrow> fr_pos q = 0" using assms(1) by (simp add: rings_ok_def)
  then have d: "drop (if fr_head q = fr_tail q then fr_pos q else 0) (job_writes ?j) = job_writes ?j" by simp
  have m: "map (\<lambda>i. drop (if i = fr_tail q then fr_pos q else 0) (job_writes (job_at q' i))) [fr_tail q..<fr_head q] =
    map (\<lambda>i. drop (if i = fr_tail q then fr_pos q else 0) (job_writes (job_at q i))) [fr_tail q..<fr_head q]"
    by (rule map_cong) (simp_all add: old)
  have "pend q' = concat (map (\<lambda>i. drop (if i = fr_tail q then fr_pos q else 0) (job_writes (job_at q' i))) [fr_tail q..<fr_head q]) @
    drop (if fr_head q = fr_tail q then fr_pos q else 0) (job_writes (job_at q' (fr_head q)))"
    using f tl(1) by (simp add: pend_def cong: if_cong)
  then have "pend q' = pend q @ job_writes ?j" unfolding m new d by (simp add: pend_def)
  then show "\<exists>s. pend q' = pend q @ job_writes \<lparr>fj_src = rs_data rs, fj_cap = rs_cap rs, fj_dsts = ds, fj_seq = s\<rparr>" by blast
  have len: "fr_pos q \<le> length (fj_dsts (job_at q' (fr_tail q)))"
    using assms(1) tl old [of "fr_tail q"] new by (cases "fr_tail q = fr_head q") (auto simp: rings_ok_def)
  have "fj_seq (job_at q' i) = i + 1" if "fr_tail q \<le> i" "i < fr_head q + 1" for i
    using that assms(1) old [of i] new tl by (cases "i = fr_head q") (auto simp: rings_ok_def)
  moreover have "fr_done q' = fr_done q" "fr_completed q' = fr_completed q" "fr_submitted q' = Suc (fr_head q)" using tl(2) by (simp_all add: q')
  ultimately show "rings_ok q'" using assms(1,2) len tl f by (auto simp: rings_ok_def split: option.splits if_splits)
qed

lemma submit_settled:
  assumes "rings_ok q" "base_ok st" "fold_slot rs" "rs_valid rs" "fr_head q - fr_tail q < FOLD_RING" "submit_fold commit_ok rs (q, st) = (rs', q', st')"
  shows "settled (q', st') = fold_into_baseline commit_ok rs (settled (q, st)) \<and> rings_ok q' \<and> base_ok st'"
proof -
  let ?R = "resolve_all commit_ok (rs_list rs) st"
  obtain ds where ds: "fold_assign commit_ok rs st = (?R, ds)"
    "\<And>X c s. put_writes (job_writes \<lparr>fj_src = rs_data rs, fj_cap = c, fj_dsts = ds, fj_seq = s\<rparr>) X = put_writes (slot_writes ?R rs (rs_list rs)) X"
    using deferred_fold [OF assms(2,3)] by blast
  note sub = submit_pend [OF assms(1,5,6) ds(1)]
  have over: "put_writes (pend q) ?R = resolve_all commit_ok (rs_list rs) (settled (q, st))"
    by (simp add: settled_def put_writes_over resolve_all_over)
  have "settled (q', st') = put_writes (slot_writes ?R rs (rs_list rs)) (resolve_all commit_ok (rs_list rs) (settled (q, st)))"
    using sub(1,2) by (auto simp: settled_def put_writes_append ds(2) over [unfolded settled_def])
  also have "slot_writes ?R rs (rs_list rs) = slot_writes (resolve_all commit_ok (rs_list rs) (settled (q, st))) rs (rs_list rs)"
    by (simp add: settled_def put_writes_over resolve_all_over slot_writes_def dst_of_def)
  also have "put_writes \<dots> (resolve_all commit_ok (rs_list rs) (settled (q, st))) = fold_into_baseline commit_ok rs (settled (q, st))"
  proof -
    have "base_ok (settled (q, st)) = base_ok st" by (rule base_ok_cong) (simp_all add: settled_def put_writes_over)
    then show ?thesis using sync_fold [of "settled (q, st)" "rs_list rs" rs commit_ok] assms(2-4) by (simp add: fold_into_baseline_def fold_slot_def)
  qed
  finally show ?thesis using sub(2,3) resolve_all_ok [OF assms(2)] by simp
qed

lemma evict_settled:
  assumes "rings_ok (fst s)" "base_ok (snd s)" "fold_slot rs" "rs_valid rs" "evict_fold True True fuel commit_ok rs s = Some (rs', s')"
  shows "settled s' = fold_into_baseline commit_ok rs (settled s) \<and> rings_ok (fst s') \<and> base_ok (snd s')"
proof -
  obtain s1 where s1: "(if FOLD_RING \<le> fr_head (fst s) - fr_tail (fst s) then fold_drain fuel s else Some s) = Some s1"
    and s': "submit_fold commit_ok rs s1 = (rs', s')"
    using assms(4,5) by (auto simp: evict_fold_def split: option.splits)
  have k: "settled s1 = settled s \<and> rings_ok (fst s1) \<and> base_ok (snd s1) \<and> fr_head (fst s1) - fr_tail (fst s1) < FOLD_RING"
  proof (cases "FOLD_RING \<le> fr_head (fst s) - fr_tail (fst s)")
    case True
    then have "fold_drain fuel s = Some s1" using s1 by simp
    from drain_settled [OF this assms(1)] show ?thesis using assms(2) drained_empty(1) [of "fst s1"] by (simp add: FOLD_RING_def)
  qed (use s1 assms(1,2) in simp)
  show ?thesis using submit_settled [of "fst s1" "snd s1" rs commit_ok rs' "fst s'" "snd s'"] k assms(3,4) s' by simp
qed

lemma drain_returns:
  assumes "rings_ok (fst s)" "work (fst s) \<le> n"
  shows "\<exists>s'. fold_drain n s = Some s'"
  using assms
proof (induction n arbitrary: s)
  case 0
  then show ?case using step_work [of "fst s" "snd s"] by (cases "drained (fst s)") simp_all
next
  case (Suc n)
  show ?case
  proof (cases "drained (fst s)")
    case False
    then have "work (fst (bg_step s)) \<le> n" using step_work [of "fst s" "snd s"] Suc.prems by simp
    then show ?thesis using Suc.IH [of "bg_step s"] step_rings [of "fst s" "snd s"] Suc.prems False by simp
  qed simp
qed

lemma init_ok: "rings_ok fr_init" "settled (fr_init, st) = st"
  by (simp_all add: rings_ok_def fr_init_def settled_def pend_def put_writes_def FOLD_RING_def)

text \<open>Saves and worker steps in any order, with the slots the saves evicted.\<close>

inductive bg_run :: "snap \<Rightarrow> ((nat \<Rightarrow> bool) \<times> rslot) list \<Rightarrow> fold_rings \<times> snap \<Rightarrow> bool" for st0 where
  start: "bg_run st0 [] (fr_init, st0)"
| work: "bg_run st0 evs s \<Longrightarrow> bg_run st0 evs (bg_step s)"
| evict: "bg_run st0 evs s \<Longrightarrow> rs_valid rs \<Longrightarrow> fold_slot rs \<Longrightarrow> evict_fold True True fuel commit_ok rs s = Some (rs', s') \<Longrightarrow>
    bg_run st0 (evs @ [(commit_ok, rs)]) s'"

definition synchronous :: "((nat \<Rightarrow> bool) \<times> rslot) list \<Rightarrow> snap \<Rightarrow> snap" where
  "synchronous evs st = fold (\<lambda>(commit_ok, rs). fold_into_baseline commit_ok rs) evs st"

lemma run_settled:
  assumes "bg_run st0 evs s" "base_ok st0"
  shows "settled s = synchronous evs st0 \<and> rings_ok (fst s) \<and> base_ok (snd s)"
  using assms
proof (induction rule: bg_run.induct)
  case start
  then show ?case by (simp add: init_ok synchronous_def)
next
  case (work evs s)
  then show ?case using step_settled [of "fst s" "snd s"] step_rings [of "fst s" "snd s"] step_base [of "fst s" "snd s"] by simp
next
  case (evict evs s rs fuel commit_ok rs' s')
  then show ?case using evict_settled [of s rs fuel commit_ok rs' s'] by (simp add: synchronous_def)
qed

text \<open>C10. The deferred fold is the synchronous one: whatever the interleaving of the saves with the worker's
  steps, the drain before a rollback returns, and the baseline it leaves is the one that copying every
  evicted slot on the spot, in order, would have made.\<close>

theorem deferred_is_synchronous:
  assumes "bg_run st0 evs s" "base_ok st0"
  shows "(\<exists>s'. fold_drain (work (fst s)) s = Some s') \<and> (\<forall>n s'. fold_drain n s = Some s' \<longrightarrow> snd s' = synchronous evs st0)"
proof -
  have r: "settled s = synchronous evs st0" "rings_ok (fst s)" using run_settled [OF assms] by simp_all
  have "snd s' = synchronous evs st0" if "fold_drain n s = Some s'" for n s'
    using drain_settled [OF that r(2)] r(1) drained_empty(2) [of "fst s'" "snd s'"] by simp
  then show ?thesis using drain_returns [OF r(2) order_refl] by blast
qed

definition fold_st :: snap where
  "fold_st = \<lparr>sn_ready = True, sn_has_base = True, sn_wm = 0, sn_live = (\<lambda>_. []), sn_ww = (\<lambda>_. False), sn_committed = (\<lambda>_. False),
     sn_committed_n = 0, sn_ring = (\<lambda>_. \<lparr>rs_frame = 0, rs_count = 0, rs_bits = (\<lambda>_. False), rs_data = (\<lambda>_. []), rs_cap = 0, rs_map = (\<lambda>_. 0),
     rs_valid = False, rs_list = []\<rparr>), sn_head = 0, sn_dirty = (\<lambda>_. False), sn_excl = (\<lambda>_. False), sn_have_excl = False,
     sn_cfull = (\<lambda>_. False), sn_have_cfull = False, sn_base = (\<lambda>_. []), sn_bbits = (\<lambda>p. p = 0), sn_bmap = (\<lambda>p. if p = 0 then 0 else NOPAGE),
     sn_supp = (\<lambda>_. []), sn_supp_n = 0, sn_windowed = True, sn_rebuild = 0, sn_orphan = (\<lambda>_. False), sn_source = (\<lambda>_. 0)\<rparr>"

definition one_page :: "page \<Rightarrow> rslot" where
  "one_page c = \<lparr>rs_frame = 0, rs_count = 1, rs_bits = (\<lambda>p. p = 0), rs_data = (\<lambda>_. c), rs_cap = 1, rs_map = (\<lambda>_. 0), rs_valid = True, rs_list = [0]\<rparr>"

lemma fold_demo: "base_ok fold_st" "fold_slot (one_page c)" "rs_valid (one_page c)" "rs_list (one_page c) = [0]" "sn_bmap fold_st 0 < SUPP_FLAG"
  by (auto simp: base_ok_def fold_st_def fold_slot_def one_page_def SUPP_FLAG_def NOPAGE_def)

lemma fold_demo_evict:
  "evict_fold True True 0 c (one_page x) (fr_init, fold_st) = Some (submit_fold c (one_page x) (fr_init, fold_st))"
  by (simp add: evict_fold_def fold_demo fr_init_def FOLD_RING_def)

theorem deferred_is_synchronous_witness:
  "\<exists>n s'. fold_drain n (snd (submit_fold (\<lambda>_. False) (one_page [1]) (fr_init, fold_st))) = Some s' \<and>
    snd s' = synchronous [(\<lambda>_. False, one_page [1])] fold_st"
proof -
  let ?e = "submit_fold (\<lambda>_. False) (one_page [1]) (fr_init, fold_st)"
  have "evict_fold True True 0 (\<lambda>_. False) (one_page [1]) (fr_init, fold_st) = Some (fst ?e, snd ?e)"
    by (simp add: fold_demo_evict)
  from bg_run.evict [OF bg_run.start fold_demo(3,2) this]
  have "bg_run fold_st [(\<lambda>_. False, one_page [1])] (snd ?e)" by simp
  from deferred_is_synchronous [OF this fold_demo(1)] show ?thesis by blast
qed

section \<open>A fold in place while a job is queued\<close>

text \<open>C20. Switching the deferral off, or failing to allocate the list of destinations, folds the next slot in
  place although an older slot may still be queued: the worker then writes the older page over the
  newer one, and the baseline keeps the older content for good.\<close>

theorem inline_fold_overtaken:
  assumes "base_ok st" "fold_slot a" "fold_slot b" "rs_valid a" "rs_valid b" "rs_list a = [p]" "rs_list b = [p]" "sn_bmap st p < SUPP_FLAG"
    and "evict_fold True True 0 commit_ok a (fr_init, st) = Some (a', s1)" "\<not> (defer \<and> dst_ok)"
    and "evict_fold defer dst_ok 0 commit_ok b s1 = Some (b', s2)" "fold_drain n s2 = Some s3"
  shows "sn_base (snd s3) (sn_bmap st p) = rs_data a (rs_map a p)
    \<and> sn_base (fold_into_baseline commit_ok b (fold_into_baseline commit_ok a st)) (sn_bmap st p) = rs_data b (rs_map b p)"
proof -
  have n: "sn_bmap st p \<noteq> NOPAGE" using assms(8) supp_consts(2) by simp
  have r: "resolve_fold_dst commit_ok p X = (X, Dst_Base (sn_bmap st p))" if "sn_bmap X = sn_bmap st" for X
    using assms(8) n by (simp add: resolve_known that)
  have one: "fold_into_baseline commit_ok x X = X\<lparr>sn_base := (sn_base X)(sn_bmap st p := rs_data x (rs_map x p))\<rparr>"
    if "sn_bmap X = sn_bmap st" "x = a \<or> x = b" for X x
  proof -
    have "rs_valid x" "rs_list x = [p]" "rs_map x p \<noteq> NOPAGE" using that(2) assms(2-7) by (auto simp: fold_slot_def)
    then show ?thesis using r [OF that(1)] by (simp add: fold_into_baseline_def fold_page_def store_dst_def)
  qed
  have R: "resolve_all commit_ok (rs_list a) st = st" "slot_writes st a (rs_list a) = [(Dst_Base (sn_bmap st p), rs_data a (rs_map a p))]"
    using assms(6,8) n r [of st] by (simp_all add: resolve_all_def slot_writes_def dst_of_def)
  obtain ds where ds: "fold_assign commit_ok a st = (st, ds)"
    "\<And>X c s. put_writes (job_writes \<lparr>fj_src = rs_data a, fj_cap = c, fj_dsts = ds, fj_seq = s\<rparr>) X = put_writes [(Dst_Base (sn_bmap st p), rs_data a (rs_map a p))] X"
    using deferred_fold [OF assms(1,2), of commit_ok] unfolding R by blast
  have z: "fr_head fr_init - fr_tail fr_init < FOLD_RING" "fr_head fr_init = 0" "fr_tail fr_init = 0" "pend fr_init = []"
    by (simp_all add: fr_init_def FOLD_RING_def pend_def)
  have "submit_fold commit_ok a (fr_init, st) = (a', fst s1, snd s1)"
    using assms(4,9) z(1) by (simp add: evict_fold_def split: if_splits)
  note sub = submit_pend [OF init_ok(1) z(1) this ds(1)]
  have s1: "snd s1 = st" "rings_ok (fst s1)" "\<not> FOLD_RING \<le> fr_head (fst s1) - fr_tail (fst s1)"
    using sub(2,3,4) z(2,3) by (simp_all add: FOLD_RING_def)
  then have "s2 = (fst s1, fold_into_baseline commit_ok b st)"
    using assms(5,10,11) by (auto simp: evict_fold_def split: if_splits)
  then have "snd s3 = settled (fst s1, fold_into_baseline commit_ok b st)"
    using drain_settled [OF assms(12)] drained_empty(2) [of "fst s3" "snd s3"] s1(2) by simp
  then have "sn_base (snd s3) (sn_bmap st p) = rs_data a (rs_map a p)"
    using sub(1) z(4) ds(2) by (auto simp: settled_def put_writes_def store_dst_def)
  then show ?thesis by (simp add: one)
qed

theorem inline_fold_overtaken_witness:
  "\<exists>s3. fold_drain 3 (fst (snd (submit_fold (\<lambda>_. False) (one_page [1]) (fr_init, fold_st))),
        fold_into_baseline (\<lambda>_. False) (one_page [2]) (snd (snd (submit_fold (\<lambda>_. False) (one_page [1]) (fr_init, fold_st))))) = Some s3 \<and>
     sn_base (snd s3) 0 = [1] \<and>
     sn_base (fold_into_baseline (\<lambda>_. False) (one_page [2]) (fold_into_baseline (\<lambda>_. False) (one_page [1]) fold_st)) 0 = [2]"
proof -
  let ?c = "\<lambda>_ :: nat. False" and ?e = "submit_fold (\<lambda>_. False) (one_page [1]) (fr_init, fold_st)"
  let ?s2 = "(fst (snd ?e), fold_into_baseline ?c (one_page [2]) (snd (snd ?e)))"
  obtain ds where ds: "fold_assign ?c (one_page [1]) fold_st = (fold_st, ds)" "length ds = 1"
    by (simp add: fold_assign_def assign_page_def one_page_def NOPAGE_def resolve_fold_dst_def fold_st_def SUPP_FLAG_def Let_def)
  have z: "fr_head fr_init - fr_tail fr_init < FOLD_RING" "pend fr_init = []" by (simp_all add: fr_init_def FOLD_RING_def pend_def)
  have e: "submit_fold ?c (one_page [1]) (fr_init, fold_st) = (fst ?e, fst (snd ?e), snd (snd ?e))" by simp
  have ok: "rings_ok (fst ?s2)" using submit_pend(3) [OF init_ok(1) z(1) e ds(1)] by simp
  have "work (fst ?s2) \<le> 3"
    using ds(2) by (simp add: submit_fold_def ds(1) fr_init_def pop_return_def work_def job_at_def FOLD_RING_def)
  from drain_returns [OF ok this] obtain s3 where s3: "fold_drain 3 ?s2 = Some s3" by blast
  have "evict_fold True True 0 ?c (one_page [1]) (fr_init, fold_st) = Some (fst ?e, snd ?e)" by (simp add: fold_demo_evict)
  moreover have "evict_fold False True 0 ?c (one_page [2]) (snd ?e) = Some (one_page [2], ?s2)" by (simp add: evict_fold_def fold_demo)
  moreover have "\<not> (False \<and> True)" by simp
  ultimately have "sn_base (snd s3) (sn_bmap fold_st 0) = rs_data (one_page [1]) (rs_map (one_page [1]) 0) \<and>
    sn_base (fold_into_baseline ?c (one_page [2]) (fold_into_baseline ?c (one_page [1]) fold_st)) (sn_bmap fold_st 0) = rs_data (one_page [2]) (rs_map (one_page [2]) 0)"
    using inline_fold_overtaken [OF fold_demo(1) fold_demo(2,2,3,3,4,4,5) _ _ _ s3] by blast
  then show ?thesis using s3 by (simp add: one_page_def fold_st_def)
qed

end
