(* ===== verification/Solo_Replay.thy ===== *)
theory Solo_Replay
  imports Snap_Run Frame_Loop_Facts
begin

text \<open>
  The frame driver of \<open>Frame_Loop\<close> on the snapshot ring of \<open>Snap_Ring\<close>: \<open>arena::save\<close>, \<open>arena::load\<close> and
  \<open>arena::capture_baseline\<close> are the saves, loads and the baseline of the driver. What is left open is
  the game, which is not part of the sources: how it polls the pads into the input blocks and what a frame makes of the
  arena's pages. The write watch is the system's: it marks every page a frame changes, and whatever else it writes.
  The passes around the arena's save and load (allocator lists, quarantine, sound) are modelled in their own theories.
\<close>

section \<open>The driver's host\<close>

record arena_world =
  aw_live :: "page carray"
  aw_ww :: "nat \<Rightarrow> bool"
  aw_blocks :: pads

record arena_game =
  gm_step :: "pads \<Rightarrow> page carray \<Rightarrow> page carray"
  gm_poll :: "blob option \<Rightarrow> blob option \<Rightarrow> arena_world \<Rightarrow> pads"
  gm_touch :: "pads \<Rightarrow> page carray \<Rightarrow> nat \<Rightarrow> bool"

definition game_frame :: "arena_game \<Rightarrow> pads \<Rightarrow> arena_world \<Rightarrow> arena_world" where
  "game_frame G b w =
     (let l = gm_step G b (aw_live w) in
      \<lparr>aw_live = l, aw_ww = (\<lambda>p. aw_ww w p \<or> l p \<noteq> aw_live w p \<or> gm_touch G b (aw_live w) p), aw_blocks = b\<rparr>)"

text \<open>The arena as the snapshot code sees it: its store, with the present pages and watch.\<close>

definition sync :: "arena_world \<Rightarrow> snap \<Rightarrow> snap" where
  "sync w r = r\<lparr>sn_live := aw_live w, sn_ww := aw_ww w\<rparr>"

definition unsync :: "arena_world \<Rightarrow> snap \<Rightarrow> arena_world \<times> snap" where
  "unsync w st = (w\<lparr>aw_live := sn_live st, aw_ww := sn_ww st\<rparr>, st)"

definition snap_host :: "(nat \<Rightarrow> bool) \<Rightarrow> arena_game \<Rightarrow> (arena_world, snap) host" where
  "snap_host commit_ok G =
     \<lparr>ho_game = (\<lambda>i w. case i of Standing b \<Rightarrow> game_frame G b w | Polled p q \<Rightarrow> game_frame G (gm_poll G p q w) w),
      ho_blocks = aw_blocks, ho_set_blocks = (\<lambda>b w. w\<lparr>aw_blocks := b\<rparr>),
      ho_save = (\<lambda>f (w, r). unsync w (fst (snap_save True commit_ok f (sync w r)))),
      ho_load = (\<lambda>f (w, r). unsync w (fst (snap_load f (sync w r)))),
      ho_baseline = (\<lambda>(w, r). case capture_baseline True (sync w r) of (st, ok) \<Rightarrow> (unsync w st, ok)),
      ho_on_frame = (\<lambda>_ w. w), ho_drain = (\<lambda>w. w)\<rparr>"

lemma snap_host_simps [simp]:
  "ho_blocks (snap_host ok G) w = aw_blocks w" "ho_set_blocks (snap_host ok G) b w = w\<lparr>aw_blocks := b\<rparr>"
  "ho_game (snap_host ok G) (Standing b) w = game_frame G b w"
  "ho_game (snap_host ok G) (Polled p q) w = game_frame G (gm_poll G p q w) w"
  "ho_save (snap_host ok G) f (w, r) = unsync w (fst (snap_save True ok f (sync w r)))"
  "ho_load (snap_host ok G) f (w, r) = unsync w (fst (snap_load f (sync w r)))"
  by (simp_all add: snap_host_def)

lemma game_frame_simps [simp]:
  "aw_live (game_frame G b w) = gm_step G b (aw_live w)" "aw_blocks (game_frame G b w) = b"
  by (simp_all add: game_frame_def Let_def)





section \<open>A frame of the run\<close>












section \<open>The replay\<close>












end
