(* ===== verification/Spec2Isabelle.thy ===== *)
theory Spec2Isabelle
  imports Net_Input_Facts Session_Facts Config Arena_Carve Heap_Zone Snap_Run Free_Hook Alloc_Facts Flist_Facts Frame_Loop_Facts
    Render_Gates Coherent_Set Restore_Registry Crc_Oracle_Facts Sound_Preserve Char_Select Audio_Group Sched_Drain Atomic_Save Material_Guard Leaf_Guards Page_Free Deferred_Fold
    Solo_Replay
begin

text \<open>
  A verification of the rollback-netcode DLL for a closed-source fighting game: the code under
  \<open>src/src\<close>. The DLL is injected into the game, carves the game's memory into an arena it can save and
  restore, exchanges pad blocks with a peer, and on a misprediction loads an older frame and replays the
  frames since.

  \<^bold>\<open>Reading the model.\<close> The game's memory is a \<open>gmem\<close>, a function from addresses to bytes
  (\<open>Game_Memory\<close>): a read or write through a cast in the source is \<open>rd32\<close>, \<open>rd64\<close>, \<open>wr32\<close> or \<open>wr64\<close>. An
  address of the image given as an IDA constant is moved to the load address by \<open>resolve\<close>. File-scope
  statics of a source file are one record, its handlers functions on it under the C++ names; a clock
  reading, a socket result, an answer of the operating system or a function of the game is an argument.
  Log lines, timing counters and diagnostics that only observe are left out everywhere.

  \<^bold>\<open>The network.\<close> \<open>Wire\<close> holds the datagrams of \<open>net_transport.h\<close>; \<open>Transport\<close> the socket with its relay
  and direct routes (\<open>net_transport.cpp\<close>); \<open>Net_Input\<close> the input queues, epochs, prediction ledger and
  TimeSync of \<open>net_input.cpp\<close>, with its guarantees in \<open>Net_Input_Facts\<close>; \<open>Engine_Arm\<close> the agreement on the
  frame at which both engines start (\<open>net_engine_arm.cpp\<close>); \<open>Net_Sync\<close> the forced match seed
  (\<open>net_sync.cpp\<close>); \<open>Session\<close> the handshake and the dispatcher that drives all of these
  (\<open>net_session.cpp\<close>), with \<open>Session_Facts\<close>; \<open>Config\<close> and \<open>C_Strings\<close> the configuration file and the role.

  \<^bold>\<open>Memory.\<close> \<open>Arena_Carve\<close> is the hook on VirtualAlloc, \<open>Heap_Zone\<close> the bump allocator of the heap
  functions, \<open>Snap_Ring\<close> the page snapshots (all \<open>arena.cpp\<close>); \<open>Snap_Facts\<close> and \<open>Snap_Run\<close> prove that a
  load is the contents at the save over any run, on the pages a save scans (the heap zone, which none scans,
  goes back to the baseline), and \<open>Deferred_Fold\<close> that the worker thread which may take over
  the fold leaves the same baseline. \<open>Frame_Ring\<close> is the contract of a ring keyed by frames;
  \<open>Frame_Rings\<close> the data section and the heap-zone offset beside it (\<open>resim.cpp\<close>). \<open>Idspine\<close> and
  \<open>Default_Spine\<close> are the birth-stamp tables of the two allocators (\<open>idspine.cpp\<close>, \<open>rdspine.cpp\<close>), both
  instances of \<open>Death_Table\<close>; \<open>Free_Hook\<close> the hooks that feed the first; \<open>Quarantine\<close>, \<open>Quarantine_Facts\<close>
  and \<open>Quarantine_Run\<close> the frees held back (\<open>quarantine.cpp\<close>); \<open>Identity_Oracle\<close> the one question asked of
  all three (\<open>id_oracle.cpp\<close>). \<open>Alloc_Lists\<close> and \<open>Alloc_Facts\<close> check, repair and rebuild the engine's free
  lists (\<open>alloc_invariants.cpp\<close>, \<open>flist_rebuild.cpp\<close>); \<open>Flist_Unit\<close> and \<open>Flist_Facts\<close> save and restore them,
  \<open>Atomic_Save\<close> does so under the allocators' locks (\<open>resim.cpp\<close>).

  \<^bold>\<open>The rollback.\<close> \<open>Pad_Ring\<close> captures and injects pads (\<open>input.cpp\<close>); \<open>Frame_Loop\<close> and
  \<open>Frame_Loop_Facts\<close> are the hook around the game's main procedure: holds, requests, keys, the save, the
  replay; \<open>Solo_Replay\<close> puts that driver on the snapshot ring and follows a rollback through it. Before a
  save \<open>Sched_Drain\<close> finishes entities in mid-teardown (state 4, on the line their bits name) and \<open>Force_Dirty\<close> marks what a
  snapshot must contain, with \<open>Audio_Group\<close> for the sound tables (\<open>resim.cpp\<close>, \<open>audio_group.cpp\<close>).
  \<open>Rollback_Guard\<close> is what a rollback switches off, the gate that may defer it, and what it
  switches on again, the second freeze after the replay included (\<open>resim.cpp\<close>), over \<open>Suspend\<close> (\<open>suspend.cpp\<close>) and \<open>Voice_Pool\<close> (\<open>voice_pool.cpp\<close>);
  \<open>Render_Gates\<close> the hooks that keep the renderer parked during the replay. What a load leaves stale is
  repaired by \<open>Restore_Registry\<close> (\<open>handle_preserve.cpp\<close>, \<open>dynamic_restore.cpp\<close>), \<open>Dead_Vtable\<close>
  (\<open>dead_vtable_unlink.cpp\<close>), \<open>Coherent_Set\<close> (\<open>coherent_set_repair.cpp\<close>), \<open>Sound_Resource\<close>,
  \<open>Sound_Preserve\<close> and \<open>Sound_Edges\<close> (\<open>sound_resource_preserve.cpp\<close>, \<open>sound_preserve.cpp\<close>,
  \<open>sound_edge_reconcile.cpp\<close>) and \<open>Page_Free\<close> (\<open>page_free.cpp\<close>); \<open>Material_Guard\<close> (\<open>material_guard.cpp\<close>)
  and \<open>Leaf_Guards\<close> (\<open>particle_list_guard.cpp\<close>, \<open>render_subchild_guard.cpp\<close>, \<open>anim_curve_guard.cpp\<close>,
  \<open>life_floor.cpp\<close>, \<open>audio_leaf.cpp\<close>, \<open>effect_splice.cpp\<close>) keep the engine off dead objects afterwards.
  \<open>Checksum\<close>, \<open>Crc_Oracle\<close> and \<open>Crc_Oracle_Facts\<close> are the comparison of a replay with the run
  (\<open>gp_crc.cpp\<close>); \<open>Char_Select\<close> the pads and announcements around character select (\<open>net_charsel.cpp\<close>).

  \<^bold>\<open>Interfaces.\<close> Cells of a fixed width (interpreted on the 32- and 64-bit accesses), frame-keyed rings
  (on the input, pad, data and heap-zone rings) and tables of births and deaths (on both spines) are
  locales; clients rest on the interpretations.

  \<^bold>\<open>What is shown.\<close> For the network: both machines present the same bytes for a frame, one datagram
  repairs a loss of up to 32 frames, epochs, seeds and arming agree, and the wait for the peer never
  stops the game for good. For memory: a load of a saved frame is the arena at that save wherever a save scans, the free-list
  unit and every preserved cell come back, the deferred fold equals the immediate one, the allocators are
  captured under all their locks or not at all, held frees never free a recarved block. For the rollback:
  run on the snapshot ring, a solo replay ends in the pages and pads of the run; a completed rollback leaves caps,
  flags, threads and voices as it found them; the drain before a save leaves no entity in state 4 on its line; the
  repairs leave lists that are sound; a sweep cuts no edge but to dead or replaced objects; and while the record of
  a frame stands the alarm on a divergence is exact for small changes.
  Theorems of kind error state where the code does not do what it means to; they are listed in the manifest's
  findings.

  \<^bold>\<open>Bounds and fuel.\<close> Loops with a bound in the source have that bound: 199 ticks of hold, 200 tries for
  the window thread, 64 tries for the allocator locks, 256 threads, voices and sound tables, 512 entities and 4096
  links of a scheduler line, 200000 nodes of the walk before a save, 16384 nodes of a sweep, 96 or 64
  probes of a table. Free-list walks take the node limit of the source as fuel; the theorems about them
  ask for lists below it, and the ones on repair prove that the walk returns. The wait for the fold worker takes
  its fuel as an argument, and the work left in the queue is shown to be enough.

  \<^bold>\<open>Not modelled.\<close> The game itself: its functions are arguments, with no law but those a theorem names.
  Concurrency beyond the fold worker: elsewhere a handler is one step, and what other threads do between is an
  argument where the source waits for it. The loader, hook installation and the DirectInput emulation
  (\<open>dllmain.cpp\<close>, most of \<open>dinput_probe.cpp\<close>), the monitor and its shared memory, log, clock and instance
  helpers; the read-only shadows of the restore (\<open>reader.cpp\<close>, \<open>byid.cpp\<close>); the probes, censuses and audits that
  only read and log; the hang detector; the generated type tables, which are arguments; the reference counts of
  the driver's objects (\<open>rtv_probe.cpp\<close>) and the audio objects found by a walk of generated tables
  (\<open>audio_preserve.cpp\<close>).
\<close>

end
